(* ===== verification/Prelude.thy ===== *)
theory Prelude
  imports Main "HOL-Library.Word" "HOL-Library.Sublist" "HOL-Library.AList"
begin

text \<open>
  Shared ground of the development: bytes and byte strings as Go has them, the big-endian
  codec of \<open>encoding/binary\<close>, Go's slice expression, and the locale that names the contract of the
  framing layers: what is encoded is decoded again, and nothing else is accepted.

  The collections declared here are filled by the component theories:
  \<^item> \<open>codec_simps\<close>: round-trip and length equations of encoders and decoders;
  \<^item> \<open>inv_intros\<close>: preservation of a component's invariant by its operations.
\<close>

unbundle bit_operations_syntax

named_theorems codec_simps \<open>lengths and round trips of encoders\<close>
named_theorems inv_intros \<open>operations preserve the invariant of their component\<close>

type_synonym byte = "8 word"
type_synonym bytes = "byte list"
type_synonym u16 = "16 word"
type_synonym u32 = "32 word"
type_synonym u64 = "64 word"

section \<open>Slices\<close>

text \<open>\<open>slice lo hi xs\<close> is Go's \<open>xs[lo:hi]\<close> for \<open>lo \<le> hi \<le> len(xs)\<close>; the operations that use
  it check the bounds first, as the code does.\<close>

definition slice :: "nat \<Rightarrow> nat \<Rightarrow> 'a list \<Rightarrow> 'a list" where
  "slice lo hi xs = take (hi - lo) (drop lo xs)"

text \<open>Go's \<open>copy(dst[at:], src)\<close>: overwrites in place, as far as both reach.\<close>

definition copy_at :: "nat \<Rightarrow> 'a list \<Rightarrow> 'a list \<Rightarrow> 'a list" where
  "copy_at at src dst =
     take at dst @ take (length dst - at) src @ drop (at + length src) dst"

lemma length_slice [simp]: "hi \<le> length xs \<Longrightarrow> length (slice lo hi xs) = hi - lo"
  by (simp add: slice_def)

lemma slice_append_left: "hi \<le> length xs \<Longrightarrow> slice lo hi (xs @ ys) = slice lo hi xs"
  by (simp add: slice_def)

lemma slice_append_right:
  "length xs \<le> lo \<Longrightarrow> slice lo hi (xs @ ys) = slice (lo - length xs) (hi - length xs) ys"
  by (simp add: slice_def diff_le_mono)

lemma slice_0_all [simp]: "length xs = n \<Longrightarrow> slice 0 n xs = xs"
  by (simp add: slice_def)

lemma slice_append_exact [simp]:
  "n = length xs \<Longrightarrow> slice 0 n (xs @ ys) = xs"
  by (simp add: slice_def)

lemma slice_take_drop: "lo \<le> hi \<Longrightarrow> take lo xs @ slice lo hi xs = take hi xs"
  by (metis le_add_diff_inverse slice_def take_add)

lemma slice_nth: "lo \<le> hi \<Longrightarrow> hi \<le> length xs \<Longrightarrow> i < hi - lo \<Longrightarrow> slice lo hi xs ! i = xs ! (lo + i)"
  by (simp add: slice_def)

lemma length_copy_at [simp]: "at \<le> length dst \<Longrightarrow> length (copy_at at src dst) = length dst"
  by (auto simp: copy_at_def)

lemma copy_at_fits:
  "at + length src \<le> length dst \<Longrightarrow>
   copy_at at src dst = take at dst @ src @ drop (at + length src) dst"
  by (simp add: copy_at_def)

section \<open>Big-endian integers\<close>

text \<open>\<open>be_put n w\<close> is what \<open>binary.BigEndian.PutUintN\<close> writes into \<open>n\<close> bytes, \<open>be_get\<close> what
  \<open>binary.BigEndian.UintN\<close> reads: base-256 digits, most significant first.\<close>

primrec be_digits :: "nat \<Rightarrow> nat \<Rightarrow> bytes" where
  "be_digits 0 v = []"
| "be_digits (Suc n) v = be_digits n (v div 256) @ [word_of_nat (v mod 256)]"

definition be_nat :: "bytes \<Rightarrow> nat" where
  "be_nat bs = foldl (\<lambda>v b. v * 256 + unat b) 0 bs"

definition be_put :: "nat \<Rightarrow> 'a::len word \<Rightarrow> bytes" where
  "be_put n w = be_digits n (unat w)"

definition be_get :: "bytes \<Rightarrow> 'a::len word" where
  "be_get bs = word_of_nat (be_nat bs)"

lemma unat_byte_less [simp]: "unat (b :: byte) < 256"
  using unsigned_less [of b] by simp

lemma length_be_digits [simp]: "length (be_digits n v) = n"
  by (induction n arbitrary: v) auto

lemma length_be_put [simp, codec_simps]: "length (be_put n w) = n"
  by (simp add: be_put_def)

lemma be_nat_Nil [simp]: "be_nat [] = 0"
  by (simp add: be_nat_def)

lemma be_nat_snoc [simp]: "be_nat (bs @ [b]) = be_nat bs * 256 + unat b"
  by (simp add: be_nat_def)

lemma be_nat_digits: "be_nat (be_digits n v) = v mod 256 ^ n"
proof (induction n arbitrary: v)
  case 0
  show ?case by simp
next
  case (Suc n)
  have byte: "unat (word_of_nat (v mod 256) :: byte) = v mod 256"
    by (simp add: unat_of_nat)
  have "be_nat (be_digits (Suc n) v) = (v div 256 mod 256 ^ n) * 256 + v mod 256"
    using Suc.IH by (simp add: byte)
  also have "\<dots> = v mod 256 ^ Suc n"
    by (simp add: mod_mult2_eq mult.commute)
  finally show ?case .
qed

lemma be_nat_less: "be_nat bs < 256 ^ length bs"
proof (induction bs rule: rev_induct)
  case Nil
  show ?case by simp
next
  case (snoc b bs)
  have "unat b < 256" by simp
  moreover have "be_nat bs * 256 + 256 \<le> 256 ^ length bs * 256"
    using snoc.IH by simp
  ultimately show ?case by (simp del: unat_byte_less)
qed

lemma be_digits_nat: "be_digits (length bs) (be_nat bs) = bs"
proof (induction bs rule: rev_induct)
  case Nil
  show ?case by simp
next
  case (snoc b bs)
  have "(be_nat bs * 256 + unat b) div 256 = be_nat bs" by simp
  moreover have "(be_nat bs * 256 + unat b) mod 256 = unat b" by simp
  ultimately show ?case using snoc.IH by simp
qed

text \<open>The two round trips of the codec, at the widths the code uses.\<close>

lemma be_get_put:
  assumes "LENGTH('a) \<le> 8 * n"
  shows "be_get (be_put n (w :: 'a::len word)) = w"
proof -
  have "unat w < 2 ^ LENGTH('a)" by (rule unsigned_less)
  also have "(2 :: nat) ^ LENGTH('a) \<le> 2 ^ (8 * n)" using assms by simp
  also have "(2 :: nat) ^ (8 * n) = 256 ^ n" by (simp add: power_mult)
  finally have "be_nat (be_digits n (unat w)) = unat w" by (simp add: be_nat_digits)
  then show ?thesis by (simp add: be_get_def be_put_def)
qed

lemma be_put_get:
  assumes "8 * length bs \<le> LENGTH('a)" and "n = length bs"
  shows "be_put n (be_get bs :: 'a::len word) = bs"
proof -
  have "be_nat bs < 256 ^ length bs" by (rule be_nat_less)
  also have "(256 :: nat) ^ length bs = 2 ^ (8 * length bs)" by (simp add: power_mult)
  also have "\<dots> \<le> 2 ^ LENGTH('a)" using assms by simp
  finally have "unat (word_of_nat (be_nat bs) :: 'a word) = be_nat bs"
    by (simp add: unat_of_nat)
  then show ?thesis using assms(2) by (simp add: be_get_def be_put_def be_digits_nat)
qed

lemma be_get_put16 [simp, codec_simps]: "be_get (be_put 2 (w :: u16)) = w"
  by (rule be_get_put) simp

lemma be_get_put32 [simp, codec_simps]: "be_get (be_put 4 (w :: u32)) = w"
  by (rule be_get_put) simp

lemma be_get_put64 [simp, codec_simps]: "be_get (be_put 8 (w :: u64)) = w"
  by (rule be_get_put) simp

lemma unat_be_get16: "length bs = 2 \<Longrightarrow> unat (be_get bs :: u16) = be_nat bs"
  using be_nat_less [of bs] by (simp add: be_get_def unat_of_nat)

lemma unat_of_nat16: "n < 65536 \<Longrightarrow> unat (word_of_nat n :: u16) = n"
  by (simp add: unat_of_nat)

section \<open>Counting without wrap-around\<close>

lemma unat_plus_one:
  assumes "c \<noteq> (- 1 :: 'a::len word)"
  shows "unat (c + 1) = Suc (unat c)"
proof -
  have "c + 1 \<noteq> 0" using assms by (simp add: eq_neg_iff_add_eq_0)
  then show ?thesis by (simp add: unatSuc add.commute)
qed

lemma mod_eq_near:
  assumes "a mod n = b mod n" and "a \<le> b" and "b - a < (n :: nat)"
  shows "a = b"
proof -
  have "n dvd b - a" using assms(1,2) by (metis mod_eq_dvd_iff_nat)
  then have "b - a = 0" using assms(3) by (auto dest: dvd_imp_le)
  then show ?thesis using assms(2) by simp
qed

section \<open>Maps as lists\<close>

text \<open>Go maps whose size or walk matters are association lists with distinct keys.\<close>

lemma update_absent: "k \<notin> fst ` set xs \<Longrightarrow> AList.update k v xs = xs @ [(k, v)]"
  by (induction xs) auto

lemma length_delete: "distinct (map fst xs) \<Longrightarrow> (k, v) \<in> set xs \<Longrightarrow> length (AList.delete k xs) = length xs - 1"
proof (induction xs)
  case (Cons x xs)
  show ?case
  proof (cases "fst x = k")
    case True
    then have "k \<notin> fst ` set xs" using Cons.prems(1) by auto
    then show ?thesis using True by (cases x) (simp add: AList.delete_notin_dom)
  next
    case False
    then have "xs \<noteq> []" "length (AList.delete k xs) = length xs - 1" using Cons by auto
    then show ?thesis using False by (cases xs) auto
  qed
qed simp

section \<open>Frame codecs\<close>

text \<open>
  The contract every framing layer of the program gives the layer above: a frame built for a
  header and a body parses back to exactly these, and whatever parses is such a frame. The
  parser may refuse (\<open>None\<close>); \<open>ok\<close> says which headers the layer itself writes.
\<close>

locale frame_codec =
  fixes enc :: "'h \<Rightarrow> bytes \<Rightarrow> bytes"
    and dec :: "bytes \<Rightarrow> ('h \<times> bytes) option"
    and ok :: "'h \<Rightarrow> bool"
    and overhead :: nat
  assumes dec_enc: "ok h \<Longrightarrow> dec (enc h p) = Some (h, p)"
    and enc_dec: "dec f = Some (h, p) \<Longrightarrow> ok h \<and> f = enc h p"
    and enc_length: "length (enc h p) = overhead + length p"
begin

lemma enc_inject: "ok h \<Longrightarrow> ok h' \<Longrightarrow> enc h p = enc h' p' \<longleftrightarrow> h = h' \<and> p = p'"
  by (metis dec_enc option.inject prod.inject)

lemma dec_inject: "dec f = Some r \<Longrightarrow> dec f' = Some r \<Longrightarrow> f = f'"
  by (cases r) (auto dest: enc_dec)

lemma dec_short: "length f < overhead \<Longrightarrow> dec f = None"
proof (rule ccontr)
  assume short: "length f < overhead" and "dec f \<noteq> None"
  then obtain h p where "dec f = Some (h, p)" by auto
  then have "f = enc h p" using enc_dec by blast
  then have "overhead \<le> length f" by (simp add: enc_length)
  with short show False by simp
qed

lemma dec_iff: "dec f = Some (h, p) \<longleftrightarrow> ok h \<and> f = enc h p"
  using dec_enc enc_dec by blast

lemma dec_body_length: "dec f = Some (h, p) \<Longrightarrow> length f = overhead + length p"
  by (auto dest: enc_dec simp: enc_length)

end

end
