(* ===== verification/Replay.thy ===== *)
theory Replay
  imports Prelude
begin

text \<open>
  The anti-replay window of \<open>internal/tunnel/l3/replay.go\<close>: the 2048-bit ring of 64-bit words,
  \<open>accept\<close>, \<open>commit\<close> and \<open>slot\<close>. The clearing loop of \<open>commit\<close> counts a \<open>uint64\<close> up to the new
  counter, so it is a \<open>partial_function\<close>: \<open>None\<close> is a loop that never returns.

  The specification is the set of counters committed so far (\<open>spec_accept\<close>); \<open>window_rel\<close> says
  when a window represents such a set, and the lemmas show that every operation keeps the
  relation. The locale \<open>replay_filter\<close> is what the session layer relies on: its client lemmas
  (no counter passes twice) are proved once there and interpreted on the window.
\<close>

section \<open>The window\<close>

definition replayWindowBits :: nat where
  "replayWindowBits = 2048"

definition replayWords :: nat where
  "replayWords = replayWindowBits div 64"

record replay_window =
  rw_max :: u64
  rw_seeded :: bool
  rw_bitmap :: "u64 list"

text \<open>The zero value a \<open>session\<close> starts with.\<close>

definition zero_window :: replay_window where
  "zero_window = \<lparr>rw_max = 0, rw_seeded = False, rw_bitmap = replicate replayWords 0\<rparr>"

definition slot :: "u64 \<Rightarrow> nat \<times> u64" where
  "slot counter =
     (let idx = counter mod word_of_nat replayWindowBits
      in (unat (idx div 64), push_bit (unat (idx mod 64)) 1))"

definition accept :: "replay_window \<Rightarrow> u64 \<Rightarrow> bool" where
  "accept w counter =
     (if \<not> rw_seeded w then True
      else if rw_max w < counter then True
      else if word_of_nat replayWindowBits \<le> rw_max w - counter then False
      else (let (word, bit) = slot counter in rw_bitmap w ! word AND bit = 0))"

text \<open>The two in-place updates of the bitmap: \<open>bitmap[word] |= bit\<close> and \<open>bitmap[word] &^= bit\<close>.\<close>

definition set_slot :: "u64 \<Rightarrow> u64 list \<Rightarrow> u64 list" where
  "set_slot counter bm = (let (word, bit) = slot counter in bm[word := bm ! word OR bit])"

definition clear_slot :: "u64 \<Rightarrow> u64 list \<Rightarrow> u64 list" where
  "clear_slot counter bm = (let (word, bit) = slot counter in bm[word := bm ! word AND NOT bit])"

text \<open>\<open>for c := w.max + 1; c <= counter; c++ { clear }\<close>, on \<open>uint64\<close>.\<close>

partial_function (option) clear_loop :: "u64 \<Rightarrow> u64 \<Rightarrow> u64 list \<Rightarrow> u64 list option" where
  "clear_loop c counter bm =
     (if c \<le> counter then clear_loop (c + 1) counter (clear_slot c bm) else Some bm)"

declare clear_loop.simps [code]

definition commit :: "replay_window \<Rightarrow> u64 \<Rightarrow> replay_window option" where
  "commit w counter =
     (if \<not> rw_seeded w then
        Some (w\<lparr>rw_seeded := True, rw_max := counter,
                rw_bitmap := set_slot counter (rw_bitmap w)\<rparr>)
      else if rw_max w < counter then
        (case (if word_of_nat replayWindowBits \<le> counter - rw_max w
               then Some (replicate replayWords 0)
               else clear_loop (rw_max w + 1) counter (rw_bitmap w)) of
           None \<Rightarrow> None
         | Some bm \<Rightarrow> Some (w\<lparr>rw_max := counter, rw_bitmap := set_slot counter bm\<rparr>))
      else Some (w\<lparr>rw_bitmap := set_slot counter (rw_bitmap w)\<rparr>))"

section \<open>Slots as ring positions\<close>

definition ring :: "u64 \<Rightarrow> nat" where
  "ring c = unat c mod 2048"

definition marked :: "u64 list \<Rightarrow> u64 \<Rightarrow> bool" where
  "marked bm c = bit (bm ! (ring c div 64)) (ring c mod 64)"

lemma slot_eq: "slot c = (ring c div 64, push_bit (ring c mod 64) 1)"
  by (simp add: slot_def ring_def replayWindowBits_def unat_div_distrib unat_mod_distrib)

lemma ring_less [simp]: "ring c < 2048"
  by (simp add: ring_def)

lemma ring_word_less [simp]: "ring c div 64 < 32"
  using ring_less [of c] by linarith

lemma ring_eq_iff: "ring a = ring b \<longleftrightarrow> ring a div 64 = ring b div 64 \<and> ring a mod 64 = ring b mod 64"
  by (metis div_mult_mod_eq)

lemma length_set_slot [simp]: "length (set_slot c bm) = length bm"
  by (simp add: set_slot_def slot_eq)

lemma length_clear_slot [simp]: "length (clear_slot c bm) = length bm"
  by (simp add: clear_slot_def slot_eq)

lemma accept_marked:
  "rw_seeded w \<Longrightarrow> \<not> rw_max w < c \<Longrightarrow>
   accept w c \<longleftrightarrow> \<not> word_of_nat replayWindowBits \<le> rw_max w - c \<and> \<not> marked (rw_bitmap w) c"
  by (simp add: accept_def slot_eq marked_def bit_iff_and_push_bit_not_eq_0)

lemma marked_set_slot:
  "length bm = 32 \<Longrightarrow> marked (set_slot a bm) c \<longleftrightarrow> ring a = ring c \<or> marked bm c"
  by (auto simp: marked_def set_slot_def slot_eq nth_list_update bit_simps ring_eq_iff)

lemma marked_clear_slot:
  "length bm = 32 \<Longrightarrow> marked (clear_slot a bm) c \<longleftrightarrow> ring a \<noteq> ring c \<and> marked bm c"
  by (auto simp: marked_def clear_slot_def slot_eq nth_list_update bit_simps ring_eq_iff)

lemma marked_zero [simp]: "\<not> marked (replicate replayWords 0) c"
  by (simp add: marked_def replayWords_def replayWindowBits_def)

text \<open>Two counters less than a window apart share a slot only when they are the same.\<close>

lemma ring_inj_window:
  assumes "ring a = ring b" and "unat a \<le> unat m" and "unat b \<le> unat m"
    and "unat m - unat a < 2048" and "unat m - unat b < 2048"
  shows "a = b"
proof -
  have "unat a mod 2048 = unat b mod 2048" using assms(1) by (simp add: ring_def)
  then have "unat a = unat b"
    using mod_eq_near [of "unat a" 2048 "unat b"] mod_eq_near [of "unat b" 2048 "unat a"] assms(2-5)
    by linarith
  then show ?thesis by (simp add: word_unat_eq_iff)
qed

section \<open>The clearing loop\<close>

lemma clear_loop_never_returns_at_max: "clear_loop c counter bm = Some r \<Longrightarrow> counter \<noteq> - 1"
  by (rule clear_loop.raw_induct [where P = "\<lambda>c counter bm r. counter \<noteq> - 1"])
    (auto split: if_splits)

lemma clear_loop_returns:
  assumes "counter \<noteq> - 1" and "length bm = 32"
  shows "\<exists>r. clear_loop c counter bm = Some r \<and> length r = 32 \<and>
     (\<forall>d. marked r d \<longleftrightarrow> marked bm d \<and> \<not> (\<exists>e. c \<le> e \<and> e \<le> counter \<and> ring e = ring d))"
  using assms
proof (induction "unat counter + 1 - unat c" arbitrary: c bm rule: less_induct)
  case less
  show ?case
  proof (cases "c \<le> counter")
    case False
    then have "clear_loop c counter bm = Some bm"
      by (simp add: clear_loop.simps [of c])
    with False less.prems show ?thesis
      by (auto dest: order_trans)
  next
    case True
    have "counter < - 1" using less.prems(1) by (simp add: word_order.not_eq_extremum)
    with True have nw: "c \<noteq> - 1" by auto
    then have c1: "unat (c + 1) = unat c + 1" by (simp add: unat_plus_one)
    have "unat c \<le> unat counter" using True by (simp add: word_le_nat_alt)
    then have dec: "unat counter + 1 - unat (c + 1) < unat counter + 1 - unat c"
      using c1 by simp
    have "length (clear_slot c bm) = 32" using less.prems(2) by simp
    then obtain r where r: "clear_loop (c + 1) counter (clear_slot c bm) = Some r"
      "length r = 32"
      "\<forall>d. marked r d \<longleftrightarrow> marked (clear_slot c bm) d \<and>
             \<not> (\<exists>e. c + 1 \<le> e \<and> e \<le> counter \<and> ring e = ring d)"
      using less.hyps [OF dec less.prems(1)] by blast
    have step: "c \<le> e \<longleftrightarrow> e = c \<or> c + 1 \<le> e" for e
      using c1 by (auto simp: word_le_nat_alt word_unat_eq_iff)
    have "clear_loop c counter bm = Some r"
      using True r(1) by (simp add: clear_loop.simps [of c])
    moreover have "(\<exists>e. c \<le> e \<and> e \<le> counter \<and> ring e = ring d) \<longleftrightarrow>
        ring c = ring d \<or> (\<exists>e. c + 1 \<le> e \<and> e \<le> counter \<and> ring e = ring d)" for d
      using step True by metis
    then have "marked r d \<longleftrightarrow>
        marked bm d \<and> \<not> (\<exists>e. c \<le> e \<and> e \<le> counter \<and> ring e = ring d)" for d
      using r(3) less.prems(2) by (simp add: marked_clear_slot) blast
    ultimately show ?thesis using r(2) by blast
  qed
qed

section \<open>The specification: the set of counters committed so far\<close>

definition spec_accept :: "u64 set \<Rightarrow> u64 \<Rightarrow> bool" where
  "spec_accept S c \<longleftrightarrow>
     S = {} \<or> Max S < c \<or> (c \<notin> S \<and> unat (Max S) - unat c < replayWindowBits)"

definition window_rel :: "replay_window \<Rightarrow> u64 set \<Rightarrow> bool" where
  "window_rel w S \<longleftrightarrow>
     length (rw_bitmap w) = replayWords \<and>
     (if rw_seeded w
      then S \<noteq> {} \<and> rw_max w = Max S \<and>
        (\<forall>c. c \<le> rw_max w \<and> unat (rw_max w) - unat c < replayWindowBits \<longrightarrow>
             (marked (rw_bitmap w) c \<longleftrightarrow> c \<in> S))
      else S = {} \<and> rw_bitmap w = replicate replayWords 0)"

lemma finite_u64 [simp]: "finite (S :: u64 set)"
  by (rule finite_subset [OF subset_UNIV]) simp

lemma window_rel_zero [simp, intro]: "window_rel zero_window {}"
  by (simp add: window_rel_def zero_window_def)

lemma behind_window:
  "\<not> m < c \<Longrightarrow> word_of_nat replayWindowBits \<le> m - (c :: u64) \<longleftrightarrow> replayWindowBits \<le> unat m - unat c"
  by (simp add: replayWindowBits_def word_le_nat_alt unat_sub not_less)

lemma accept_spec: "window_rel w S \<Longrightarrow> accept w c \<longleftrightarrow> spec_accept S c"
proof (cases "rw_seeded w \<and> \<not> rw_max w < c")
  case True
  assume rel: "window_rel w S"
  with True have mx: "rw_max w = Max S" "S \<noteq> {}"
    by (auto simp: window_rel_def)
  have le: "c \<le> rw_max w" using True by (simp add: not_less)
  show ?thesis
    using True rel mx le by (auto simp: accept_marked behind_window spec_accept_def window_rel_def)
next
  case False
  assume "window_rel w S"
  with False show ?thesis by (auto simp: accept_def spec_accept_def window_rel_def)
qed

text \<open>Committing inside the window, and ahead of it, keeps the relation.\<close>

lemma commit_within:
  assumes rel: "window_rel w S" and sd: "rw_seeded w" and le: "c \<le> rw_max w"
    and near: "unat (rw_max w) - unat c < replayWindowBits"
  shows "window_rel (w\<lparr>rw_bitmap := set_slot c (rw_bitmap w)\<rparr>) (insert c S)"
proof -
  have len: "length (rw_bitmap w) = 32" and S: "S \<noteq> {}" "rw_max w = Max S"
    using rel sd by (auto simp: window_rel_def replayWords_def replayWindowBits_def)
  have mx: "Max (insert c S) = rw_max w" using S le by (simp add: Max_insert max_def)
  have "marked (set_slot c (rw_bitmap w)) d \<longleftrightarrow> d \<in> insert c S"
    if d: "d \<le> rw_max w" "unat (rw_max w) - unat d < replayWindowBits" for d
  proof -
    have "ring c = ring d \<longleftrightarrow> c = d"
      using ring_inj_window [of c d "rw_max w"] d near le
      by (auto simp: replayWindowBits_def word_le_nat_alt)
    moreover have "marked (rw_bitmap w) d \<longleftrightarrow> d \<in> S"
      using rel sd d by (simp add: window_rel_def)
    ultimately show ?thesis using len by (auto simp: marked_set_slot)
  qed
  then show ?thesis using rel sd mx by (simp add: window_rel_def)
qed

lemma commit_ahead:
  assumes rel: "window_rel w S" and sd: "rw_seeded w" and gt: "rw_max w < c"
    and bm: "length bm = 32"
    and clr: "\<And>d. d \<le> c \<Longrightarrow> unat c - unat d < replayWindowBits \<Longrightarrow>
                marked bm d \<longleftrightarrow> d \<le> rw_max w \<and> d \<in> S"
  shows "window_rel (w\<lparr>rw_max := c, rw_bitmap := set_slot c bm\<rparr>) (insert c S)"
proof -
  have S: "S \<noteq> {}" "rw_max w = Max S"
    using rel sd by (auto simp: window_rel_def)
  have "max c (Max S) = c" using S gt by (simp only: max_absorb1 order_less_imp_le)
  then have mx: "Max (insert c S) = c" using S by (simp add: Max_insert)
  have top: "d \<in> S \<Longrightarrow> d \<le> rw_max w" for d using S by simp
  have "marked (set_slot c bm) d \<longleftrightarrow> d \<in> insert c S"
    if d: "d \<le> c" "unat c - unat d < replayWindowBits" for d
  proof -
    have "ring c = ring d \<longleftrightarrow> c = d"
      using ring_inj_window [of c d c] d
      by (auto simp: replayWindowBits_def word_le_nat_alt)
    then show ?thesis using bm clr [OF d] top by (auto simp: marked_set_slot)
  qed
  then show ?thesis using sd mx bm
    by (simp add: window_rel_def replayWords_def replayWindowBits_def)
qed

lemma cleared_window:
  assumes rel: "window_rel w S" and sd: "rw_seeded w" and gt: "rw_max w < c" and fin: "c \<noteq> - 1"
    and near: "unat c - unat (rw_max w) < replayWindowBits"
  obtains bm where "clear_loop (rw_max w + 1) c (rw_bitmap w) = Some bm" "length bm = 32"
    "\<And>d. d \<le> c \<Longrightarrow> unat c - unat d < replayWindowBits \<Longrightarrow> marked bm d \<longleftrightarrow> d \<le> rw_max w \<and> d \<in> S"
proof -
  have len: "length (rw_bitmap w) = 32"
    using rel by (simp add: window_rel_def replayWords_def replayWindowBits_def)
  have "rw_max w \<noteq> - 1" using gt by auto
  then have m1: "unat (rw_max w + 1) = unat (rw_max w) + 1" by (simp add: unat_plus_one)
  obtain bm where bm: "clear_loop (rw_max w + 1) c (rw_bitmap w) = Some bm" "length bm = 32"
    "\<forall>d. marked bm d \<longleftrightarrow> marked (rw_bitmap w) d \<and>
           \<not> (\<exists>e. rw_max w + 1 \<le> e \<and> e \<le> c \<and> ring e = ring d)"
    using clear_loop_returns [OF fin len] by blast
  have "marked bm d \<longleftrightarrow> d \<le> rw_max w \<and> d \<in> S"
    if d: "d \<le> c" "unat c - unat d < replayWindowBits" for d
  proof (cases "d \<le> rw_max w")
    case False
    then have "rw_max w + 1 \<le> d" using m1 by (simp add: word_le_nat_alt)
    with False d(1) bm(3) show ?thesis by blast
  next
    case True
    have "\<not> (\<exists>e. rw_max w + 1 \<le> e \<and> e \<le> c \<and> ring e = ring d)"
    proof
      assume "\<exists>e. rw_max w + 1 \<le> e \<and> e \<le> c \<and> ring e = ring d"
      then obtain e where e: "rw_max w + 1 \<le> e" "e \<le> c" "ring e = ring d" by blast
      have "unat (rw_max w) < unat e" using e(1) m1 by (simp add: word_le_nat_alt)
      then have "unat c - unat e < 2048" using near by (simp add: replayWindowBits_def)
      then have "e = d" using ring_inj_window [of e d c] e d
        by (simp add: word_le_nat_alt replayWindowBits_def)
      with True e(1) m1 show False by (simp add: word_le_nat_alt)
    qed
    moreover have "unat (rw_max w) - unat d < replayWindowBits"
      using d(2) gt by (simp add: word_less_nat_alt)
    then have "marked (rw_bitmap w) d \<longleftrightarrow> d \<in> S"
      using rel sd True by (simp add: window_rel_def)
    ultimately show ?thesis using bm(3) True by blast
  qed
  then show ?thesis using that bm(1,2) by blast
qed

lemma commit_spec:
  assumes rel: "window_rel w S" and acc: "accept w c" and ret: "c \<noteq> - 1 \<or> commit w c \<noteq> None"
  shows "\<exists>w'. commit w c = Some w' \<and> window_rel w' (insert c S)"
proof -
  have S: "rw_seeded w \<Longrightarrow> rw_max w = Max S" using rel by (simp add: window_rel_def)
  consider (fresh) "\<not> rw_seeded w" | (ahead_far) "rw_seeded w" "rw_max w < c"
      "replayWindowBits \<le> unat c - unat (rw_max w)"
    | (ahead) "rw_seeded w" "rw_max w < c" "unat c - unat (rw_max w) < replayWindowBits"
    | (inside) "rw_seeded w" "\<not> rw_max w < c" by linarith
  then show ?thesis
  proof cases
    case fresh
    have e: "S = {}" "rw_bitmap w = replicate replayWords 0" using fresh rel by (simp_all add: window_rel_def)
    have l: "length (replicate replayWords (0 :: u64)) = 32"
      by (simp add: replayWords_def replayWindowBits_def)
    have "ring c = ring d \<longleftrightarrow> d = c" if "d \<le> c" "unat c - unat d < replayWindowBits" for d
      using ring_inj_window [of c d c] that by (auto simp: replayWindowBits_def word_le_nat_alt)
    then show ?thesis
      using fresh e by (auto simp: commit_def window_rel_def marked_set_slot [OF l])
  next
    case ahead_far
    have "commit w c = Some (w\<lparr>rw_max := c, rw_bitmap := set_slot c (replicate replayWords 0)\<rparr>)"
      using ahead_far behind_window [of c "rw_max w"] by (simp add: commit_def not_less order_less_imp_le)
    moreover have "marked (replicate replayWords 0) d \<longleftrightarrow> d \<le> rw_max w \<and> d \<in> S"
      if "d \<le> c" "unat c - unat d < replayWindowBits" for d
      using that ahead_far(3) by (auto simp: word_le_nat_alt)
    ultimately show ?thesis
      using commit_ahead [OF rel ahead_far(1,2)] by (simp add: replayWords_def replayWindowBits_def)
  next
    case ahead
    have "commit w c \<noteq> None \<Longrightarrow> clear_loop (rw_max w + 1) c (rw_bitmap w) \<noteq> None"
      using ahead behind_window [of c "rw_max w"]
      by (auto simp: commit_def not_less order_less_imp_le split: option.splits)
    then have fin: "c \<noteq> - 1" using ret clear_loop_never_returns_at_max by blast
    obtain bm where bm: "clear_loop (rw_max w + 1) c (rw_bitmap w) = Some bm" "length bm = 32"
      "\<And>d. d \<le> c \<Longrightarrow> unat c - unat d < replayWindowBits \<Longrightarrow> marked bm d \<longleftrightarrow> d \<le> rw_max w \<and> d \<in> S"
      using cleared_window [OF rel ahead(1,2) fin ahead(3)] by blast
    have "commit w c = Some (w\<lparr>rw_max := c, rw_bitmap := set_slot c bm\<rparr>)"
      using ahead behind_window [of c "rw_max w"] bm(1)
      by (simp add: commit_def not_less order_less_imp_le)
    then show ?thesis using commit_ahead [OF rel ahead(1,2) bm(2,3)] by simp
  next
    case inside
    then have "unat (rw_max w) - unat c < replayWindowBits"
      using acc by (simp add: accept_marked behind_window not_le)
    moreover have "commit w c = Some (w\<lparr>rw_bitmap := set_slot c (rw_bitmap w)\<rparr>)"
      using inside by (simp add: commit_def)
    ultimately show ?thesis
      using inside(2) commit_within [OF rel inside(1)] by (simp add: not_less)
  qed
qed

section \<open>The interface to the session layer\<close>

text \<open>The caller's protocol: ask \<open>accept\<close>, and \<open>commit\<close> only what was accepted. \<open>filter_run\<close> runs
  it over the counters of authenticated packets in arrival order and returns those that passed.\<close>

fun filter_run ::
  "('w \<Rightarrow> 'c \<Rightarrow> bool) \<Rightarrow> ('w \<Rightarrow> 'c \<Rightarrow> 'w option) \<Rightarrow> 'w \<Rightarrow> 'c list \<Rightarrow> ('w \<times> 'c list) option" where
  "filter_run acc com w [] = Some (w, [])"
| "filter_run acc com w (c # cs) =
     (if acc w c
      then (case com w c of
              None \<Rightarrow> None
            | Some w' \<Rightarrow> map_option (\<lambda>(w'', out). (w'', c # out)) (filter_run acc com w' cs))
      else filter_run acc com w cs)"

locale replay_filter =
  fixes acc :: "'w \<Rightarrow> 'c \<Rightarrow> bool"
    and com :: "'w \<Rightarrow> 'c \<Rightarrow> 'w option"
    and rel :: "'w \<Rightarrow> 'c set \<Rightarrow> bool"
    and zero :: 'w
  assumes rel_zero: "rel zero {}"
    and acc_fresh: "rel w S \<Longrightarrow> acc w c \<Longrightarrow> c \<notin> S"
    and com_rel: "rel w S \<Longrightarrow> acc w c \<Longrightarrow> com w c = Some w' \<Longrightarrow> rel w' (insert c S)"
begin

lemma run_rel:
  "rel w S \<Longrightarrow> filter_run acc com w cs = Some (w', out) \<Longrightarrow>
   rel w' (S \<union> set out) \<and> distinct out \<and> set out \<inter> S = {}"
proof (induction cs arbitrary: w S w' out)
  case Nil
  then show ?case by simp
next
  case (Cons c cs)
  show ?case
  proof (cases "acc w c")
    case False
    with Cons show ?thesis by simp
  next
    case True
    with Cons.prems(2) obtain w1 out1 where w1: "com w c = Some w1"
      and run: "filter_run acc com w1 cs = Some (w', out1)" and out: "out = c # out1"
      by (auto split: option.splits)
    have "rel w1 (insert c S)" using com_rel Cons.prems(1) True w1 by blast
    from Cons.IH [OF this run]
    show ?thesis using acc_fresh [OF Cons.prems(1) True] out by auto
  qed
qed

lemma run_distinct: "filter_run acc com zero cs = Some (w', out) \<Longrightarrow> distinct out"
  using run_rel [OF rel_zero] by blast

end

interpretation rwf: replay_filter accept commit window_rel zero_window
proof
  show "window_rel zero_window {}" by simp
next
  fix w S c
  assume "window_rel w S" "accept w c"
  then show "c \<notin> S" by (auto simp: accept_spec spec_accept_def leD)
next
  fix w S c w'
  assume "window_rel w S" "accept w c" "commit w c = Some w'"
  then show "window_rel w' (insert c S)" using commit_spec by force
qed

section \<open>Properties\<close>

text \<open>C1. Along every run of the accept-then-commit protocol over authenticated counters, the
  window answers exactly as the specification does on the set of counters that passed: ahead
  of everything is new, inside the last 2048 it is new if and only if it has not passed, and
  below that it is refused.\<close>

theorem window_refines_committed_set:
  assumes "filter_run accept commit zero_window cs = Some (w, out)"
  shows "accept w c \<longleftrightarrow> spec_accept (set out) c"
  using rwf.run_rel [OF rwf.rel_zero assms] accept_spec by simp

theorem window_refines_committed_set_witness:
  "filter_run accept commit zero_window [5, 7, 5] = Some
     (\<lparr>rw_max = 7, rw_seeded = True, rw_bitmap = 160 # replicate 31 0\<rparr>, [5, 7]) \<and>
   (accept \<lparr>rw_max = 7, rw_seeded = True, rw_bitmap = 160 # replicate 31 0\<rparr> 6 \<longleftrightarrow>
      spec_accept (set [5, 7]) 6)"
proof -
  have run: "filter_run accept commit zero_window [5, 7, 5] = Some
     (\<lparr>rw_max = 7, rw_seeded = True, rw_bitmap = 160 # replicate 31 0\<rparr>, [5, 7])"
    by code_simp
  then show ?thesis using window_refines_committed_set [OF run] by blast
qed

text \<open>No counter passes the window twice, whatever the order and multiplicity of arrival.\<close>

theorem no_counter_passes_twice:
  assumes "filter_run accept commit zero_window cs = Some (w, out)"
  shows "distinct out"
  using assms by (rule rwf.run_distinct)

theorem no_counter_passes_twice_witness:
  "distinct (snd (the (filter_run accept commit zero_window [9, 3, 9, 3])))"
proof -
  have run: "filter_run accept commit zero_window [9, 3, 9, 3] = Some
     (\<lparr>rw_max = 9, rw_seeded = True, rw_bitmap = 520 # replicate 31 0\<rparr>, [9, 3])"
    by code_simp
  show ?thesis using no_counter_passes_twice [OF run] run by simp
qed

lemma filter_run_returns_from:
  "- 1 \<notin> set cs \<Longrightarrow> window_rel w S \<Longrightarrow> \<exists>r. filter_run accept commit w cs = Some r"
proof (induction cs arbitrary: w S)
  case Nil
  then show ?case by simp
next
  case (Cons c cs)
  show ?case
  proof (cases "accept w c")
    case True
    have "c \<noteq> - 1" using Cons.prems(1) by auto
    then obtain w' where "commit w c = Some w'" "window_rel w' (insert c S)"
      using commit_spec [OF Cons.prems(2) True] by blast
    then show ?thesis using Cons.IH [of w' "insert c S"] Cons.prems(1) True by auto
  next
    case False
    then show ?thesis using Cons by simp
  qed
qed

text \<open>A run returns as long as no counter is \<open>2^64 - 1\<close>.\<close>

theorem runs_return:
  assumes "- 1 \<notin> set cs"
  shows "\<exists>w out. filter_run accept commit zero_window cs = Some (w, out)"
  using filter_run_returns_from [OF assms window_rel_zero] by auto

text \<open>C3. When \<open>commit\<close> returns, exactly: its clearing loop ends on every window and every counter, except that at
  \<open>2^64 - 1\<close>, on a seeded window whose mark is less than 2048 below it, the loop variable wraps and the loop never ends.\<close>

theorem commit_returns_iff:
  assumes "length (rw_bitmap w) = replayWords"
  shows "(\<exists>w'. commit w c = Some w') \<longleftrightarrow>
    \<not> (c = - 1 \<and> rw_seeded w \<and> rw_max w < - 1 \<and> unat (- 1 :: u64) - unat (rw_max w) < replayWindowBits)"
proof (cases "rw_seeded w \<and> rw_max w < c \<and> unat c - unat (rw_max w) < replayWindowBits")
  case True
  then have "rw_max w \<le> c" by auto
  then have far: "\<not> word_of_nat replayWindowBits \<le> c - rw_max w"
    using behind_window [of c "rw_max w"] True by (auto simp: not_le)
  have l: "length (rw_bitmap w) = 32" using assms by (simp add: replayWords_def replayWindowBits_def)
  have "(\<exists>bm. clear_loop (rw_max w + 1) c (rw_bitmap w) = Some bm) \<longleftrightarrow> c \<noteq> - 1"
    using clear_loop_returns [OF _ l] clear_loop_never_returns_at_max by blast
  then show ?thesis using True far by (cases "clear_loop (rw_max w + 1) c (rw_bitmap w)") (auto simp: commit_def)
next
  case False
  then have "\<exists>w'. commit w c = Some w'"
    using behind_window [of c "rw_max w"] by (auto simp: commit_def not_less order_less_imp_le)
  then show ?thesis using False by auto
qed

theorem commit_returns_iff_witness:
  "(\<exists>w'. commit zero_window (- 1) = Some w') \<and>
   \<not> (\<exists>w'. commit \<lparr>rw_max = - 2, rw_seeded = True, rw_bitmap = replicate 32 0\<rparr> (- 1) = Some w')"
proof
  show "\<exists>w'. commit zero_window (- 1) = Some w'"
    using commit_returns_iff [of zero_window "- 1"] by (simp add: zero_window_def)
  show "\<not> (\<exists>w'. commit \<lparr>rw_max = - 2, rw_seeded = True, rw_bitmap = replicate 32 0\<rparr> (- 1) = Some w')"
    using commit_returns_iff [of "\<lparr>rw_max = - 2, rw_seeded = True, rw_bitmap = replicate 32 0\<rparr>" "- 1"]
    by (simp add: replayWords_def replayWindowBits_def unsigned_minus_1_eq_mask mask_eq_exp_minus_1)
qed

end
