(* ===== verification/Wire.thy ===== *)
theory Wire
  imports Prelude
begin

text \<open>
  The 13-byte header of every layer-3 datagram (\<open>internal/tunnel/l3/wire.go\<close>): \<open>header\<close>, its
  \<open>put\<close> and \<open>bytes\<close>, and \<open>parseHeader\<close> with both of its errors. The header layer is a
  \<open>frame_codec\<close>; the parse theorem states both directions at once.
\<close>

definition typeInit :: byte where "typeInit = 1"
definition typeResp :: byte where "typeResp = 2"
definition typeData :: byte where "typeData = 3"
definition typeProbe :: byte where "typeProbe = 4"
definition typeProbeAck :: byte where "typeProbeAck = 5"

lemmas kind_defs = typeInit_def typeResp_def typeData_def typeProbe_def typeProbeAck_def

definition headerLen :: nat where "headerLen = 13"
definition tagLen :: nat where "tagLen = 16"
definition dataOverhead :: nat where "dataOverhead = headerLen + tagLen"

datatype wire_error = errShortPacket | errBadKind

record header =
  h_kind :: byte
  h_session :: u32
  h_counter :: u64

text \<open>\<open>put\<close> writes the first 13 bytes of a buffer and panics (\<open>None\<close>) on a shorter one.\<close>

definition header_put :: "header \<Rightarrow> bytes \<Rightarrow> bytes option" where
  "header_put h dst =
     (if length dst < headerLen then None
      else Some (h_kind h # be_put 4 (h_session h) @ be_put 8 (h_counter h) @ drop headerLen dst))"

definition header_bytes :: "header \<Rightarrow> bytes" where
  "header_bytes h = the (header_put h (replicate headerLen 0))"

definition known_kind :: "byte \<Rightarrow> bool" where
  "known_kind k \<longleftrightarrow> k \<in> {typeInit, typeResp, typeData, typeProbe, typeProbeAck}"

definition parseHeader :: "bytes \<Rightarrow> wire_error + header \<times> bytes" where
  "parseHeader buf =
     (if length buf < headerLen then Inl errShortPacket
      else let h = \<lparr>h_kind = buf ! 0, h_session = be_get (slice 1 5 buf),
                    h_counter = be_get (slice 5 13 buf)\<rparr>
           in if known_kind (h_kind h) then Inr (h, drop headerLen buf) else Inl errBadKind)"

text \<open>The array \<open>bytes\<close> fills is long enough, so its \<open>put\<close> cannot panic.\<close>

lemma header_bytes_eq: "header_bytes h = h_kind h # be_put 4 (h_session h) @ be_put 8 (h_counter h)"
  by (simp add: header_bytes_def header_put_def headerLen_def)

lemma length_header_bytes [simp, codec_simps]: "length (header_bytes h) = headerLen"
  by (simp add: header_bytes_eq headerLen_def)

lemma header_put_eq: "headerLen \<le> length dst \<Longrightarrow> header_put h dst = Some (header_bytes h @ drop headerLen dst)"
  by (simp add: header_put_def header_bytes_eq)

lemma parse_header_bytes:
  assumes "known_kind (h_kind h)"
  shows "parseHeader (header_bytes h @ p) = Inr (h, p)"
proof -
  have "slice 1 5 (header_bytes h @ p) = be_put 4 (h_session h)"
    by (simp add: header_bytes_eq slice_def)
  moreover have "slice 5 13 (header_bytes h @ p) = be_put 8 (h_counter h)"
    by (simp add: header_bytes_eq slice_def)
  ultimately show ?thesis using assms
    by (simp add: parseHeader_def Let_def) (simp add: header_bytes_eq)
qed

lemma header_bytes_of_parse:
  assumes "parseHeader f = Inr (h, p)"
  shows "known_kind (h_kind h) \<and> f = header_bytes h @ p"
proof -
  have len: "13 \<le> length f" and hk: "h_kind h = f ! 0" and hs: "h_session h = be_get (slice 1 5 f)"
    and hc: "h_counter h = be_get (slice 5 13 f)" and p: "p = drop 13 f" and k: "known_kind (h_kind h)"
    using assms by (auto simp: parseHeader_def headerLen_def Let_def split: if_splits)
  have s: "be_put 4 (h_session h) = slice 1 5 f" using len hs by (simp add: be_put_get)
  have c: "be_put 8 (h_counter h) = slice 5 13 f" using len hc by (simp add: be_put_get)
  have hd: "take 1 f = [f ! 0]" using len by (cases f) auto
  have "take 1 f @ slice 1 5 f @ slice 5 13 f = take 13 f"
    by (simp add: slice_take_drop flip: append.assoc)
  then have "f = (take 1 f @ slice 1 5 f @ slice 5 13 f) @ drop 13 f" by simp
  also have "take 1 f @ slice 1 5 f @ slice 5 13 f = header_bytes h"
    unfolding hd header_bytes_eq hk s c by simp
  finally show ?thesis using p k by simp
qed

interpretation wirec: frame_codec "\<lambda>h p. header_bytes h @ p"
  "\<lambda>f. case parseHeader f of Inl e \<Rightarrow> None | Inr r \<Rightarrow> Some r" "\<lambda>h. known_kind (h_kind h)" headerLen
  by unfold_locales
    (auto simp: parse_header_bytes split: sum.splits dest: header_bytes_of_parse)

text \<open>\<open>parseHeader\<close> accepts a datagram if and only if it is the header of a known kind
  followed by the body it returns: what is written is read back unchanged, and nothing else
  is accepted.\<close>

theorem parseHeader_iff:
  "parseHeader f = Inr (h, p) \<longleftrightarrow> known_kind (h_kind h) \<and> f = header_bytes h @ p"
  using parse_header_bytes header_bytes_of_parse by blast

text \<open>The errors of \<open>parseHeader\<close>: a datagram below 13 bytes is too short, every other
  refused one opens with an unknown kind.\<close>

theorem parseHeader_errors:
  "parseHeader f = Inl e \<longleftrightarrow>
     (e = errShortPacket \<and> length f < headerLen) \<or>
     (e = errBadKind \<and> headerLen \<le> length f \<and> \<not> known_kind (f ! 0))"
  by (auto simp: parseHeader_def Let_def)

end
