(* ===== verification/GoStrings.thy ===== *)
theory GoStrings
  imports Prelude
begin

text \<open>
  The functions of Go's \<open>strings\<close>, \<open>strconv\<close> and \<open>net\<close> packages that the modelled code calls
  on configuration text. A Go string is a byte string, so it is a \<open>string\<close> here (\<open>char\<close> is a
  byte). White space is Unicode's, in its UTF-8 spelling, as \<open>strings.TrimSpace\<close> has it;
  \<open>to_lower\<close> maps ASCII letters and the two code points outside ASCII whose lower case is an
  ASCII letter (U+0130 and U+212A) and leaves every other byte alone, which is all that a
  comparison with an ASCII word can see.
\<close>

section \<open>Trimming and case\<close>

definition ws_seqs :: "string list" where
  "ws_seqs = map (\<lambda>n. [char_of n]) [9, 10, 11, 12, 13, 32 :: nat]
     @ map (\<lambda>n. [char_of (0xC2 :: nat), char_of n]) [0x85, 0xA0 :: nat]
     @ [map char_of [0xE1, 0x9A, 0x80 :: nat]]
     @ map (\<lambda>n. [char_of (0xE2 :: nat), char_of (0x80 :: nat), char_of n])
         [0x80, 0x81, 0x82, 0x83, 0x84, 0x85, 0x86, 0x87, 0x88, 0x89, 0x8A, 0xA8, 0xA9, 0xAF :: nat]
     @ [map char_of [0xE2, 0x81, 0x9F :: nat], map char_of [0xE3, 0x80, 0x80 :: nat]]"

function trim_with :: "string list \<Rightarrow> string \<Rightarrow> string" where
  "trim_with seqs s =
     (case find (\<lambda>p. p \<noteq> [] \<and> prefix p s) seqs of
        None \<Rightarrow> s
      | Some p \<Rightarrow> trim_with seqs (drop (length p) s))"
  by pat_completeness auto
termination
proof (relation "measure (\<lambda>(seqs, s). length s)")
  fix seqs :: "string list" and s p
  assume "find (\<lambda>p. p \<noteq> [] \<and> prefix p s) seqs = Some p"
  then have "p \<noteq> [] \<and> prefix p s" by (auto simp: find_Some_iff)
  then have "s \<noteq> []" by auto
  with \<open>p \<noteq> [] \<and> prefix p s\<close> show "((seqs, drop (length p) s), seqs, s) \<in> measure (\<lambda>(seqs, s). length s)"
    by simp
qed simp

declare trim_with.simps [simp del]

definition trim_space :: "string \<Rightarrow> string" where
  "trim_space s = rev (trim_with (map rev ws_seqs) (rev (trim_with ws_seqs s)))"

definition ascii_lower :: "char \<Rightarrow> char" where
  "ascii_lower c =
     (let n = of_char c :: nat in if 65 \<le> n \<and> n \<le> 90 then char_of (n + 32) else c)"

fun to_lower :: "string \<Rightarrow> string" where
  "to_lower [] = []"
| "to_lower (a # s) =
     (let bs = map of_char (a # s) :: nat list in
      if take 2 bs = [0xC4, 0xB0] then CHR ''i'' # to_lower (drop 1 s)
      else if take 3 bs = [0xE2, 0x84, 0xAA] then CHR ''k'' # to_lower (drop 2 s)
      else ascii_lower a # to_lower s)"

section \<open>Searching and splitting\<close>

definition cut :: "char \<Rightarrow> string \<Rightarrow> string \<times> string \<times> bool" where
  "cut c s = (if c \<in> set s then (takeWhile (\<lambda>x. x \<noteq> c) s, tl (dropWhile (\<lambda>x. x \<noteq> c) s), True)
              else (s, [], False))"

fun split_on :: "char \<Rightarrow> string \<Rightarrow> string list" where
  "split_on c [] = [[]]"
| "split_on c (x # xs) =
     (if x = c then [] # split_on c xs
      else (case split_on c xs of [] \<Rightarrow> [[x]] | p # ps \<Rightarrow> (x # p) # ps))"

text \<open>The text before and after the last occurrence of a byte.\<close>

definition cut_last :: "char \<Rightarrow> string \<Rightarrow> string \<times> string" where
  "cut_last c s = (rev (tl (dropWhile (\<lambda>x. x \<noteq> c) (rev s))), rev (takeWhile (\<lambda>x. x \<noteq> c) (rev s)))"

section \<open>Decimal numbers\<close>

definition is_digit :: "char \<Rightarrow> bool" where
  "is_digit c = (let n = of_char c :: nat in 48 \<le> n \<and> n \<le> 57)"

definition digit_val :: "char \<Rightarrow> nat" where
  "digit_val c = of_char c - 48"

definition digits_val :: "string \<Rightarrow> nat" where
  "digits_val s = foldl (\<lambda>v c. v * 10 + digit_val c) 0 s"

definition atoi :: "string \<Rightarrow> int option" where
  "atoi s =
     (let neg = (s \<noteq> [] \<and> hd s = CHR ''-'');
          ds = (if s \<noteq> [] \<and> (hd s = CHR ''-'' \<or> hd s = CHR ''+'') then tl s else s);
          v = int (digits_val ds); i = (if neg then - v else v)
      in if ds = [] \<or> \<not> list_all is_digit ds then None
         else if - (2 ^ 63) \<le> i \<and> i < 2 ^ 63 then Some i else None)"

fun show_nat :: "nat \<Rightarrow> string" where
  "show_nat n = (if n < 10 then [char_of (48 + n)] else show_nat (n div 10) @ [char_of (48 + n mod 10)])"

declare show_nat.simps [simp del]

definition itoa :: "int \<Rightarrow> string" where
  "itoa i = (if i < 0 then CHR ''-'' # show_nat (nat (- i)) else show_nat (nat i))"

section \<open>Host and port\<close>

definition join_host_port :: "string \<Rightarrow> string \<Rightarrow> string" where
  "join_host_port host port =
     (if CHR '':'' \<in> set host then ''['' @ host @ '']:'' @ port else host @ '':'' @ port)"

text \<open>\<open>net.SplitHostPort\<close>, branch by branch; the error text is not kept.\<close>

definition split_host_port :: "string \<Rightarrow> (string \<times> string) option" where
  "split_host_port s =
     (if CHR '':'' \<notin> set s then None
      else let (before, port) = cut_last CHR '':'' s in
        if hd s = CHR ''['' then
          (if CHR '']'' \<notin> set s then None
           else let e = length (takeWhile (\<lambda>x. x \<noteq> CHR '']'') s) in
             if e + 1 \<noteq> length before then None
             else if CHR ''['' \<in> set (drop 1 s) \<or> CHR '']'' \<in> set (drop (e + 1) s) then None
             else Some (slice 1 e s, port))
        else if CHR '':'' \<in> set before then None
        else if CHR ''['' \<in> set s \<or> CHR '']'' \<in> set s then None
        else Some (before, port))"

section \<open>Facts used by the clients\<close>

lemma is_digit_char [simp]: "n < (10 :: nat) \<Longrightarrow> is_digit (char_of (48 + n))"
  by (simp add: is_digit_def Let_def)

lemma takeWhile_neq: "c \<notin> set a \<Longrightarrow> takeWhile (\<lambda>x. x \<noteq> c) (a @ c # b) = a"
  by (induction a) auto

lemma dropWhile_neq: "c \<notin> set a \<Longrightarrow> dropWhile (\<lambda>x. x \<noteq> c) (a @ c # b) = c # b"
  by (induction a) auto

lemma digit_val_char [simp]: "n < 10 \<Longrightarrow> digit_val (char_of (48 + n)) = n"
  by (simp add: digit_val_def)

lemma show_nat_ne [simp]: "show_nat n \<noteq> []"
  by (subst show_nat.simps) simp

lemma show_nat_digits: "list_all is_digit (show_nat n)"
proof (induction n rule: show_nat.induct)
  case (1 n)
  then show ?case by (subst show_nat.simps) simp
qed

lemma digits_val_snoc: "digits_val (s @ [c]) = digits_val s * 10 + digit_val c"
  by (simp add: digits_val_def)

lemma digits_val_show: "digits_val (show_nat n) = n"
proof (induction n rule: show_nat.induct)
  case (1 n)
  show ?case
  proof (cases "n < 10")
    case True
    then show ?thesis by (simp add: show_nat.simps [of n] digits_val_def)
  next
    case False
    then have "digits_val (show_nat (n div 10)) = n div 10" using 1 by simp
    with False show ?thesis by (simp add: show_nat.simps [of n] digits_val_snoc)
  qed
qed

lemma is_digit_hd_show: "is_digit (hd (show_nat n))"
  using show_nat_digits [of n] by (cases "show_nat n") auto

lemma atoi_digits: "s \<noteq> [] \<Longrightarrow> list_all is_digit s \<Longrightarrow> digits_val s < 2 ^ 63 \<Longrightarrow> atoi s = Some (int (digits_val s))"
  by (cases s) (auto simp: atoi_def is_digit_def Let_def)

lemma atoi_itoa: "0 \<le> i \<Longrightarrow> i < 2 ^ 63 \<Longrightarrow> atoi (itoa i) = Some i"
  using atoi_digits [of "show_nat (nat i)"] show_nat_digits [of "nat i"]
  by (simp add: itoa_def digits_val_show nat_less_iff)

lemma trim_with_id: "(\<And>p. p \<in> set seqs \<Longrightarrow> p \<noteq> [] \<Longrightarrow> \<not> prefix p s) \<Longrightarrow> trim_with seqs s = s"
  by (subst trim_with.simps) (auto split: option.splits simp: find_Some_iff in_set_conv_nth)

text \<open>A byte at which no white space begins or ends: every printable ASCII byte is one.\<close>

definition solid :: "char \<Rightarrow> bool" where
  "solid c = (let n = of_char c :: nat in 33 \<le> n \<and> n < 128)"

lemma is_digit_solid: "is_digit c \<Longrightarrow> solid c"
  by (auto simp: is_digit_def solid_def Let_def)

lemma ws_seqs_ends: "p \<in> set ws_seqs \<Longrightarrow> p \<noteq> [] \<and> \<not> solid (hd p) \<and> \<not> solid (last p)"
  by (auto simp: ws_seqs_def solid_def)

lemma trim_space_solid:
  assumes "s \<noteq> []" and "solid (hd s)" and "solid (last s)"
  shows "trim_space s = s"
proof -
  have "\<not> prefix p s" if "p \<in> set ws_seqs" for p
    using ws_seqs_ends [OF that] assms by (cases p; cases s) auto
  then have l: "trim_with ws_seqs s = s" by (intro trim_with_id) auto
  have "\<not> prefix p (rev s)" if p: "p \<in> set (map rev ws_seqs)" for p
  proof -
    obtain q where q: "p = rev q" "q \<in> set ws_seqs" using p by auto
    then have "\<not> solid (hd p)" "p \<noteq> []" using ws_seqs_ends [OF q(2)] by (auto simp: hd_rev)
    moreover have "solid (hd (rev s))" "rev s \<noteq> []" using assms by (auto simp: hd_rev)
    ultimately show ?thesis by (cases p; cases "rev s") auto
  qed
  then have "trim_with (map rev ws_seqs) (rev s) = rev s" by (intro trim_with_id) auto
  with l show ?thesis by (simp add: trim_space_def)
qed

lemma trim_space_Nil [simp]: "trim_space [] = []"
proof -
  have "trim_with seqs [] = []" for seqs by (rule trim_with_id) simp
  then show ?thesis by (simp add: trim_space_def)
qed

lemma cut_first: "c \<notin> set a \<Longrightarrow> cut c (a @ c # b) = (a, b, True)"
  by (simp add: cut_def takeWhile_neq dropWhile_neq)

lemma cut_absent: "c \<notin> set a \<Longrightarrow> cut c a = (a, [], False)"
  by (simp add: cut_def)

lemma split_on_absent: "c \<notin> set a \<Longrightarrow> split_on c a = [a]"
  by (induction a) auto

lemma split_on_ne [simp]: "split_on c s \<noteq> []"
  by (induction s) (auto split: list.splits)

lemma split_on_append: "c \<notin> set a \<Longrightarrow> split_on c (a @ c # b) = a # split_on c b"
  by (induction a) (auto split: list.split)

lemma atoi_chars: "atoi s = Some i \<Longrightarrow> ch \<in> set s \<Longrightarrow> is_digit ch \<or> ch = CHR ''+'' \<or> ch = CHR ''-''"
  by (cases s) (auto simp: atoi_def Let_def list_all_iff split: if_splits)

lemma atoi_ne: "atoi s = Some i \<Longrightarrow> s \<noteq> []"
  by (auto simp: atoi_def Let_def)

lemma cut_last_append: "c \<notin> set b \<Longrightarrow> cut_last c (a @ c # b) = (a, b)"
  using takeWhile_neq [of c "rev b" "rev a"] dropWhile_neq [of c "rev b" "rev a"]
  by (simp add: cut_last_def)

lemma split_join_host_port:
  assumes "CHR '':'' \<notin> set port" "CHR ''['' \<notin> set port" "CHR '']'' \<notin> set port"
    and "CHR ''['' \<notin> set host" "CHR '']'' \<notin> set host"
  shows "split_host_port (join_host_port host port) = Some (host, port)"
proof (cases "CHR '':'' \<in> set host")
  case False
  have "hd (host @ CHR '':'' # port) \<noteq> CHR ''[''"
    using assms(4) by (cases host) auto
  with False assms show ?thesis
    by (simp add: join_host_port_def split_host_port_def cut_last_append)
next
  case True
  have "cut_last CHR '':'' (''['' @ host @ '']'' @ CHR '':'' # port) = (''['' @ host @ '']'', port)"
    using cut_last_append [of "CHR '':''" port "''['' @ host @ '']''"] assms(1) by simp
  moreover have "takeWhile (\<lambda>x. x \<noteq> CHR '']'') (''['' @ host @ CHR '']'' # CHR '':'' # port) = ''['' @ host"
    using takeWhile_neq [of "CHR '']''" "''['' @ host" "CHR '':'' # port"] assms(5) by simp
  ultimately show ?thesis using True assms
    by (simp add: join_host_port_def split_host_port_def slice_def)
qed

section \<open>Strings as bytes\<close>

definition str_bytes :: "string \<Rightarrow> bytes" where
  "str_bytes s = map (\<lambda>c. word_of_nat (of_char c)) s"

definition bytes_str :: "bytes \<Rightarrow> string" where
  "bytes_str bs = map (\<lambda>b. char_of (unat b)) bs"

lemma length_str_bytes [simp]: "length (str_bytes s) = length s"
  by (simp add: str_bytes_def)

lemma bytes_str_bytes [simp]: "bytes_str (str_bytes s) = s"
  by (simp add: bytes_str_def str_bytes_def comp_def unat_of_nat)

lemma str_bytes_str [simp]: "str_bytes (bytes_str bs) = bs"
  by (simp add: bytes_str_def str_bytes_def comp_def)

lemma str_bytes_inj: "str_bytes a = str_bytes b \<longleftrightarrow> a = b"
  using bytes_str_bytes by metis

end
