(* ===== verification/Encap.thy ===== *)
theory Encap
  imports GoStrings
begin

text \<open>
  The encapsulation of inner IP packets (\<open>internal/tunnel/l3/encap.go\<close>): \<open>NewEncap\<close>,
  \<open>ipVersion\<close>, and the RFC 2784/2890 framing \<open>greEncap\<close> with its \<open>Wrap\<close> and \<open>Unwrap\<close>, each
  with every error it returns; and the identifier \<open>encapID\<close> the handshake announces
  (\<open>internal/tunnel/l3/session.go\<close>). The locale \<open>encapsulation\<close> is the Go interface \<open>Encap\<close>
  with the laws the tunnel relies on; \<open>greEncap\<close> interprets it.
\<close>

datatype encap_error =
    errEmptyPacket | errBadIPVersion | errShortGRE | errGREFlags | errGREKeyMissing
  | errGREKeyWrong | errGREProto | errUnknownEncap string

definition etherIPv4 :: u16 where "etherIPv4 = 0x0800"
definition etherIPv6 :: u16 where "etherIPv6 = 0x86DD"
definition greKeyPresent :: u16 where "greKeyPresent = 0x2000"

record greEncap =
  g_key :: u32
  g_keyed :: bool

definition NewEncap :: "string \<Rightarrow> u32 \<Rightarrow> encap_error + greEncap" where
  "NewEncap name greKey =
     (if to_lower (trim_space name) \<in> {'''', ''ipip'', ''gre''}
      then Inr \<lparr>g_key = greKey, g_keyed = (greKey \<noteq> 0)\<rparr>
      else Inl (errUnknownEncap name))"

definition ipVersion :: "bytes \<Rightarrow> encap_error + byte" where
  "ipVersion pkt =
     (if pkt = [] then Inl errEmptyPacket
      else let v = drop_bit 4 (pkt ! 0) in
        if v = 4 \<or> v = 6 then Inr v else Inl errBadIPVersion)"

definition gre_Name :: "greEncap \<Rightarrow> string" where
  "gre_Name g = ''gre''"

definition gre_Overhead :: "greEncap \<Rightarrow> nat" where
  "gre_Overhead g = (if g_keyed g then 8 else 4)"

definition gre_Wrap :: "greEncap \<Rightarrow> bytes \<Rightarrow> bytes \<Rightarrow> encap_error + bytes" where
  "gre_Wrap g dst pkt =
     (case ipVersion pkt of
        Inl e \<Rightarrow> Inl e
      | Inr version \<Rightarrow>
          let proto = (if version = 6 then etherIPv6 else etherIPv4);
              flags = (if g_keyed g then 0 OR greKeyPresent else 0);
              hdr = be_put 2 flags @ be_put 2 proto @
                    (if g_keyed g then be_put 4 (g_key g) else replicate 4 0)
          in Inr ((dst @ take (gre_Overhead g) hdr) @ pkt))"

definition gre_Unwrap :: "greEncap \<Rightarrow> bytes \<Rightarrow> encap_error + bytes" where
  "gre_Unwrap g frame =
     (if length frame < 4 then Inl errShortGRE
      else let flags = be_get (slice 0 2 frame) :: u16; proto = be_get (slice 2 4 frame) in
        if flags AND NOT greKeyPresent \<noteq> 0 then Inl errGREFlags
        else if \<not> (proto = etherIPv4 \<or> proto = etherIPv6) then Inl errGREProto
        else
          let tail = (\<lambda>offset.
            let inner = drop offset frame in
            case ipVersion inner of
              Inl e \<Rightarrow> Inl e
            | Inr version \<Rightarrow>
                if (version = 4) \<noteq> (proto = etherIPv4) then Inl errGREProto else Inr inner)
          in if flags AND greKeyPresent \<noteq> 0 then
               (if length frame < 8 then Inl errShortGRE
                else if \<not> g_keyed g then Inl errGREKeyWrong
                else if be_get (slice 4 8 frame) \<noteq> g_key g then Inl errGREKeyWrong
                else tail 8)
             else if g_keyed g then Inl errGREKeyMissing
             else tail 4)"

definition encapID :: "greEncap \<Rightarrow> string" where
  "encapID g = (if g_keyed g then ''gre:'' @ show_nat (unat (g_key g)) else gre_Name g)"

section \<open>The interface\<close>

text \<open>What the tunnel needs of an \<open>Encap\<close>: the exact overhead its MTU arithmetic uses, that a
  peer with the same setting gets the packet back, and that whatever is accepted is such a
  frame.\<close>

locale encapsulation =
  fixes wrap :: "'e \<Rightarrow> bytes \<Rightarrow> bytes \<Rightarrow> 'x + bytes"
    and unwrap :: "'e \<Rightarrow> bytes \<Rightarrow> 'x + bytes"
    and ovh :: "'e \<Rightarrow> nat"
  assumes wrap_prefix: "wrap e dst p = Inr f \<Longrightarrow> \<exists>g. wrap e [] p = Inr g \<and> f = dst @ g"
    and wrap_len: "wrap e [] p = Inr f \<Longrightarrow> length f = ovh e + length p"
    and unwrap_wrap: "wrap e [] p = Inr f \<Longrightarrow> unwrap e f = Inr p"
    and wrap_unwrap: "unwrap e f = Inr p \<Longrightarrow> wrap e [] p = Inr f"
begin

lemma wrap_inject: "wrap e [] p = Inr f \<Longrightarrow> wrap e [] q = Inr f \<Longrightarrow> p = q"
  by (metis unwrap_wrap sum.inject(2))

lemma unwrap_inject: "unwrap e f = Inr p \<Longrightarrow> unwrap e f' = Inr p \<Longrightarrow> f = f'"
  by (metis wrap_unwrap sum.inject(2))

lemma unwrap_len: "unwrap e f = Inr p \<Longrightarrow> length f = ovh e + length p"
  using wrap_unwrap wrap_len by blast

lemma unwrap_iff: "unwrap e f = Inr p \<longleftrightarrow> wrap e [] p = Inr f"
  using unwrap_wrap wrap_unwrap by blast

end

text \<open>The header a GRE end writes.\<close>

definition gre_header :: "greEncap \<Rightarrow> byte \<Rightarrow> bytes" where
  "gre_header g version =
     be_put 2 (if g_keyed g then greKeyPresent else 0)
     @ be_put 2 (if version = 6 then etherIPv6 else etherIPv4)
     @ (if g_keyed g then be_put 4 (g_key g) else [])"

lemma length_gre_header [simp, codec_simps]: "length (gre_header g v) = gre_Overhead g"
  by (simp add: gre_header_def gre_Overhead_def)

lemma gre_Wrap_eq:
  "gre_Wrap g dst pkt = (case ipVersion pkt of Inl e \<Rightarrow> Inl e | Inr v \<Rightarrow> Inr (dst @ gre_header g v @ pkt))"
  by (simp add: gre_Wrap_def gre_header_def gre_Overhead_def Let_def split: sum.splits)

lemma ipVersion_46: "ipVersion p = Inr v \<Longrightarrow> v = 4 \<or> v = 6"
  by (auto simp: ipVersion_def Let_def split: if_splits)

lemma gre_header_fields:
  "slice 0 2 (gre_header g v @ p) = be_put 2 (if g_keyed g then greKeyPresent else 0)"
  "slice 2 4 (gre_header g v @ p) = be_put 2 (if v = 6 then etherIPv6 else etherIPv4)"
  "g_keyed g \<Longrightarrow> slice 4 8 (gre_header g v @ p) = be_put 4 (g_key g)"
  by (simp_all add: gre_header_def slice_def)

lemma gre_flags_key [simp]:
  "greKeyPresent AND NOT greKeyPresent = 0" "greKeyPresent AND greKeyPresent = greKeyPresent"
  "greKeyPresent \<noteq> 0" "etherIPv6 \<noteq> etherIPv4" "etherIPv4 \<noteq> etherIPv6"
  by (simp_all add: greKeyPresent_def etherIPv4_def etherIPv6_def)

lemma gre_flags_cases: "(f :: u16) AND NOT greKeyPresent = 0 \<Longrightarrow> f AND greKeyPresent \<noteq> 0 \<Longrightarrow> f = greKeyPresent"
proof -
  assume none: "f AND NOT greKeyPresent = 0" and key: "f AND greKeyPresent \<noteq> 0"
  have gk: "bit greKeyPresent n \<longleftrightarrow> n = 13" if "n < 16" for n
  proof -
    have eq: "greKeyPresent = push_bit 13 1" by (simp add: greKeyPresent_def)
    show ?thesis unfolding eq bit_push_bit_iff bit_1_iff using that by auto
  qed
  have "\<not> bit (f AND NOT greKeyPresent) n" for n by (simp add: none)
  then have off: "n < 16 \<Longrightarrow> n \<noteq> 13 \<Longrightarrow> \<not> bit f n" for n
    using gk [of n] by (auto simp: bit_and_iff bit_not_iff)
  have "bit f 13"
  proof (rule ccontr)
    assume "\<not> bit f 13"
    then have "f AND greKeyPresent = 0"
      using off gk by (intro bit_word_eqI) (auto simp: bit_and_iff)
    with key show False by simp
  qed
  then show "f = greKeyPresent" using off gk by (intro bit_word_eqI) auto
qed

lemma gre_flags_none: "(f :: u16) AND NOT greKeyPresent = 0 \<Longrightarrow> f AND greKeyPresent = 0 \<Longrightarrow> f = 0"
  by (metis and.comm_neutral and.commute bit.conj_disj_distrib bit.disj_cancel_right or.right_neutral)

lemma gre_Unwrap_header:
  assumes v: "ipVersion p = Inr v"
  shows "gre_Unwrap g (gre_header g v @ p) = Inr p"
proof -
  let ?f = "gre_header g v @ p"
  have v46: "v = 4 \<or> v = 6" using v by (rule ipVersion_46)
  have len: "length ?f = gre_Overhead g + length p" by simp
  have tail: "drop (gre_Overhead g) ?f = p" by simp
  show ?thesis
  proof (cases "g_keyed g")
    case True
    then have "drop 8 ?f = p" "\<not> length ?f < 8" using tail len by (simp_all add: gre_Overhead_def)
    then show ?thesis
      using True v v46 by (auto simp: gre_Unwrap_def gre_header_fields Let_def)
  next
    case False
    then have "drop 4 ?f = p" "\<not> length ?f < 4" using tail len by (simp_all add: gre_Overhead_def)
    then show ?thesis
      using False v v46 by (auto simp: gre_Unwrap_def gre_header_fields Let_def)
  qed
qed

lemma frame4: "f = slice 0 2 f @ slice 2 4 f @ drop 4 f"
proof -
  have "take 2 f @ slice 2 4 f = take 4 f" by (simp add: slice_take_drop)
  then have "f = (take 2 f @ slice 2 4 f) @ drop 4 f" by simp
  then show ?thesis by (simp add: slice_def)
qed

lemma frame8: "f = slice 0 2 f @ slice 2 4 f @ slice 4 8 f @ drop 8 f"
proof -
  have "drop 4 f = slice 4 8 f @ drop 8 f"
    using append_take_drop_id [of 4 "drop 4 f"] by (simp add: slice_def)
  then show ?thesis using frame4 [of f] by simp
qed

lemma gre_Unwrap_Inr:
  assumes "gre_Unwrap g f = Inr p"
  shows "\<exists>v. ipVersion p = Inr v \<and> f = gre_header g v @ p"
proof -
  define fl where "fl = (be_get (slice 0 2 f) :: u16)"
  define pr where "pr = (be_get (slice 2 4 f) :: u16)"
  have len: "4 \<le> length f" using assms by (auto simp: gre_Unwrap_def split: if_splits)
  have nof: "fl AND NOT greKeyPresent = 0" and prok: "pr = etherIPv4 \<or> pr = etherIPv6"
    using assms unfolding fl_def pr_def by (auto simp: gre_Unwrap_def Let_def split: if_splits)
  have s0: "slice 0 2 f = be_put 2 fl" and s2: "slice 2 4 f = be_put 2 pr"
    using len by (simp_all add: fl_def pr_def be_put_get)
  show ?thesis
  proof (cases "fl AND greKeyPresent = 0")
    case False
    then have fk: "fl = greKeyPresent" using nof by (rule gre_flags_cases [rotated])
    have k: "8 \<le> length f" "g_keyed g" "be_get (slice 4 8 f) = g_key g"
      and inner: "p = drop 8 f" "\<exists>v. ipVersion p = Inr v \<and> ((v = 4) = (pr = etherIPv4))"
      using assms False prok nof len unfolding fl_def pr_def
      by (auto simp: gre_Unwrap_def Let_def split: if_splits sum.splits)
    have "slice 4 8 f = be_put 4 (g_key g)" using k by (simp add: be_put_get flip: k(3))
    then have "f = be_put 2 greKeyPresent @ be_put 2 pr @ be_put 4 (g_key g) @ p"
      using frame8 [of f] s0 s2 fk inner(1) by simp
    then show ?thesis using inner(2) k(2) prok ipVersion_46 by (fastforce simp: gre_header_def)
  next
    case True
    then have f0: "fl = 0" using nof gre_flags_none by blast
    have k: "\<not> g_keyed g"
      and inner: "p = drop 4 f" "\<exists>v. ipVersion p = Inr v \<and> ((v = 4) = (pr = etherIPv4))"
      using assms True prok nof len unfolding fl_def pr_def
      by (auto simp: gre_Unwrap_def Let_def split: if_splits sum.splits)
    have "f = be_put 2 (0 :: u16) @ be_put 2 pr @ p"
      using frame4 [of f] s0 s2 f0 inner(1) by simp
    then show ?thesis using inner(2) k prok ipVersion_46 by (fastforce simp: gre_header_def)
  qed
qed

interpretation gre: encapsulation gre_Wrap gre_Unwrap gre_Overhead
  by unfold_locales
    (auto simp: gre_Wrap_eq gre_Unwrap_header split: sum.splits dest!: gre_Unwrap_Inr)

section \<open>Properties\<close>

text \<open>A frame unwraps to a packet if and only if wrapping that packet with the same setting
  produces the frame: round trip in both directions, for keyed and unkeyed tunnels, and the
  frame is exactly \<open>Overhead\<close> bytes longer.\<close>

theorem gre_unwrap_iff_wrap:
  "gre_Unwrap g f = Inr p \<longleftrightarrow> gre_Wrap g [] p = Inr f \<and> length f = gre_Overhead g + length p"
  using gre.unwrap_iff gre.wrap_len by blast

lemma gre_header_setting:
  "gre_header g v @ p = gre_header g' v' @ p' \<Longrightarrow> g_keyed g = g_keyed g' \<and> (g_keyed g \<longrightarrow> g_key g = g_key g')"
proof -
  assume eq: "gre_header g v @ p = gre_header g' v' @ p'"
  have "be_put 2 (if g_keyed g then greKeyPresent else 0) = be_put 2 (if g_keyed g' then greKeyPresent else 0)"
    using gre_header_fields(1) [of g v p] gre_header_fields(1) [of g' v' p'] eq by simp
  then have fl: "g_keyed g = g_keyed g'"
    by (metis be_get_put16 gre_flags_key(3))
  have "g_key g = g_key g'" if "g_keyed g"
  proof -
    have "be_put 4 (g_key g) = be_put 4 (g_key g')"
      using gre_header_fields(3) [of g v p] gre_header_fields(3) [of g' v' p'] eq fl that by simp
    then show ?thesis by (metis be_get_put32)
  qed
  with fl show ?thesis by blast
qed

lemma show_nat_inj: "show_nat m = show_nat n \<longleftrightarrow> m = n"
  by (metis digits_val_show)

text \<open>Two ends whose settings differ exchange nothing: a frame one of them wrapped is never
  accepted by the other, provided the settings come from \<open>NewEncap\<close>. The handshake detects
  this first, because their identifiers differ.\<close>

theorem mismatched_settings_never_mix:
  assumes "NewEncap a k = Inr g" and "NewEncap b l = Inr g'" and "k \<noteq> l"
    and "gre_Wrap g [] p = Inr f"
  shows "(\<exists>e. gre_Unwrap g' f = Inl e) \<and> encapID g \<noteq> encapID g'"
proof -
  have g: "g = \<lparr>g_key = k, g_keyed = (k \<noteq> 0)\<rparr>" "g' = \<lparr>g_key = l, g_keyed = (l \<noteq> 0)\<rparr>"
    using assms(1,2) by (auto simp: NewEncap_def split: if_splits)
  obtain v where f: "f = gre_header g v @ p"
    using assms(4) by (auto simp: gre_Wrap_eq split: sum.splits)
  have "gre_Unwrap g' f \<noteq> Inr q" for q
  proof
    assume "gre_Unwrap g' f = Inr q"
    then obtain v' where "f = gre_header g' v' @ q" using gre_Unwrap_Inr by blast
    then show False using gre_header_setting [of g v p g' v' q] f g assms(3) by auto
  qed
  then have "\<exists>e. gre_Unwrap g' f = Inl e" by (cases "gre_Unwrap g' f") auto
  moreover have "encapID g \<noteq> encapID g'"
    using g assms(3) by (auto simp: encapID_def gre_Name_def show_nat_inj word_unat_eq_iff)
  ultimately show ?thesis by blast
qed

lemma NewEncap_gre: "NewEncap ''gre'' k = Inr \<lparr>g_key = k, g_keyed = (k \<noteq> 0)\<rparr>"
proof -
  have "trim_space ''gre'' = ''gre''" by (rule trim_space_solid) (simp_all add: solid_def)
  moreover have "to_lower ''gre'' = ''gre''" by (simp add: ascii_lower_def)
  ultimately show ?thesis by (simp add: NewEncap_def)
qed

theorem mismatched_settings_never_mix_witness:
  "(\<exists>e. gre_Unwrap \<lparr>g_key = 9, g_keyed = True\<rparr> (0x20 # 0 # 8 # 0 # 0 # 0 # 0 # 7 # [0x45]) = Inl e)
   \<and> encapID \<lparr>g_key = 7, g_keyed = True\<rparr> \<noteq> encapID \<lparr>g_key = 9, g_keyed = True\<rparr>"
proof (rule mismatched_settings_never_mix [of "''gre''" 7 _ "''gre''" 9 _ "[0x45]"])
  show "gre_Wrap \<lparr>g_key = 7, g_keyed = True\<rparr> [] [0x45] = Inr (0x20 # 0 # 8 # 0 # 0 # 0 # 0 # 7 # [0x45])"
    by code_simp
qed (simp_all add: NewEncap_gre)

end
