(* ===== verification/Session.thy ===== *)
theory Session
  imports Replay Wire Encap
begin

text \<open>
  The cryptographic session of \<open>internal/tunnel/l3/session.go\<close>: sealing and opening of
  datagrams, the rekey and expiry tests, and the two-message handshake of both ends.

  The Noise library is not part of the repository. Its transport cipher is the pair of
  functions \<open>enc\<close> and \<open>dec\<close> that the operations take, its handshake the record \<open>noise\<close>; what
  the code relies on is named in \<open>cipher_ok\<close> and \<open>noise_agrees\<close>. Keys are an abstract type.
  Times and durations are nanoseconds as integers, \<open>time.Now()\<close> and the random draws are
  arguments. A result of \<open>None\<close> in \<open>session_open\<close> is the replay window's \<open>commit\<close> not returning.
\<close>

section \<open>State and constants\<close>

datatype session_error =
    errSessionExhausted | errReplayed | errHandshakeShort | errDecrypt | errHandshakeRejected
  | errHandshakeBuild | errHandshakeWrite | errDrawFailed | errNoDistinctID
  | errEncapMismatch string string

type_synonym 'k encrypt = "'k \<Rightarrow> u64 \<Rightarrow> bytes \<Rightarrow> bytes \<Rightarrow> bytes"
type_synonym 'k decrypt = "'k \<Rightarrow> u64 \<Rightarrow> bytes \<Rightarrow> bytes \<Rightarrow> bytes option"

definition rekeyAfterMessages :: u64 where "rekeyAfterMessages = push_bit 48 1"
definition rejectAfterMessages :: u64 where "rejectAfterMessages = push_bit 60 1"
definition rekeyAfterTime :: int where "rekeyAfterTime = 2 * 60 * 1000000000"
definition rejectAfterTime :: int where "rejectAfterTime = 5 * 60 * 1000000000"

record 'k session =
  s_id :: u32
  s_created :: int
  s_send :: 'k
  s_recv :: 'k
  s_sendCounter :: u64
  s_replay :: replay_window

text \<open>\<open>newSession\<close> gets the two cipher states of the handshake, or none when it is not over.\<close>

definition newSession :: "int \<Rightarrow> u32 \<Rightarrow> 'k option \<Rightarrow> 'k option \<Rightarrow> session_error + 'k session" where
  "newSession now sid sendCS recvCS =
     (case (sendCS, recvCS) of
        (Some ks, Some kr) \<Rightarrow>
          Inr \<lparr>s_id = sid, s_created = now, s_send = ks, s_recv = kr, s_sendCounter = 0,
               s_replay = zero_window\<rparr>
      | _ \<Rightarrow> Inl errHandshakeShort)"

section \<open>Sealing and opening\<close>

definition sealKind ::
  "'k encrypt \<Rightarrow> 'k session \<Rightarrow> bytes \<Rightarrow> byte \<Rightarrow> 'k session \<times> (session_error + bytes)" where
  "sealKind enc s plaintext kind =
     (let s' = s\<lparr>s_sendCounter := s_sendCounter s + 1\<rparr>;
          counter = s_sendCounter s' - 1
      in if rejectAfterMessages \<le> counter then (s', Inl errSessionExhausted)
         else let h = \<lparr>h_kind = kind, h_session = s_id s, h_counter = counter\<rparr>;
                  ad = header_bytes h
              in (s', Inr (ad @ enc (s_send s) counter ad plaintext)))"

definition seal :: "'k encrypt \<Rightarrow> 'k session \<Rightarrow> bytes \<Rightarrow> 'k session \<times> (session_error + bytes)" where
  "seal enc s plaintext = sealKind enc s plaintext typeData"

definition session_open ::
  "'k decrypt \<Rightarrow> 'k session \<Rightarrow> header \<Rightarrow> bytes \<Rightarrow> ('k session \<times> (session_error + bytes)) option" where
  "session_open dec s h body =
     (if \<not> accept (s_replay s) (h_counter h) then Some (s, Inl errReplayed)
      else case dec (s_recv s) (h_counter h) (header_bytes h) body of
             None \<Rightarrow> Some (s, Inl errDecrypt)
           | Some plain \<Rightarrow>
               (case commit (s_replay s) (h_counter h) of
                  None \<Rightarrow> None
                | Some w \<Rightarrow> Some (s\<lparr>s_replay := w\<rparr>, Inr plain)))"

definition dueForRekey :: "'k session \<Rightarrow> int \<Rightarrow> bool" where
  "dueForRekey s now \<longleftrightarrow>
     rekeyAfterMessages \<le> s_sendCounter s \<or> rekeyAfterTime \<le> now - s_created s"

definition expired :: "'k session \<Rightarrow> int \<Rightarrow> bool" where
  "expired s now \<longleftrightarrow> rejectAfterTime \<le> now - s_created s"

section \<open>The handshake\<close>

text \<open>The Noise library: a fresh state from a token (the pre-shared key), a role and this end's
  random input; and the two message functions, which return the next state, the bytes, and
  the pair of cipher states once the pattern is complete.\<close>

record ('st, 'k) noise =
  n_new :: "nat \<Rightarrow> string \<Rightarrow> bool \<Rightarrow> 'st option"
  n_write :: "'st \<Rightarrow> bytes \<Rightarrow> ('st \<times> bytes \<times> ('k \<times> 'k) option) option"
  n_read :: "'st \<Rightarrow> bytes \<Rightarrow> ('st \<times> bytes \<times> ('k \<times> 'k) option) option"

definition bytes_of_string :: "string \<Rightarrow> bytes" where
  "bytes_of_string s = map (\<lambda>c. word_of_nat (of_char c)) s"

definition string_of_bytes :: "bytes \<Rightarrow> string" where
  "string_of_bytes bs = map (\<lambda>b. char_of (unat b)) bs"

lemma string_of_bytes_of_string [simp]: "string_of_bytes (bytes_of_string s) = s"
proof (induction s)
  case Nil
  show ?case by (simp add: string_of_bytes_def bytes_of_string_def)
next
  case (Cons c s)
  have "unat (word_of_nat (of_char c) :: byte) = of_char c" by (simp add: unat_of_nat)
  with Cons show ?case by (simp add: string_of_bytes_def bytes_of_string_def)
qed

text \<open>Up to eight draws of four random bytes; \<open>None\<close> is a failing random source.\<close>

fun newSessionID_from :: "(nat \<Rightarrow> u32 option) \<Rightarrow> u32 \<Rightarrow> nat \<Rightarrow> nat \<Rightarrow> session_error + u32" where
  "newSessionID_from draw avoid attempt 0 = Inl errNoDistinctID"
| "newSessionID_from draw avoid attempt (Suc left) =
     (case draw attempt of
        None \<Rightarrow> Inl errDrawFailed
      | Some sid \<Rightarrow> if sid \<noteq> 0 \<and> sid \<noteq> avoid then Inr sid
                   else newSessionID_from draw avoid (Suc attempt) left)"

definition newSessionID :: "(nat \<Rightarrow> u32 option) \<Rightarrow> u32 \<Rightarrow> session_error + u32" where
  "newSessionID draw avoid = newSessionID_from draw avoid 0 8"

record 'st initiatorHandshake =
  ih_id :: u32
  ih_state :: 'st
  ih_msg :: bytes
  ih_encap :: string

definition beginHandshake ::
  "('st, 'k) noise \<Rightarrow> nat \<Rightarrow> (nat \<Rightarrow> u32 option) \<Rightarrow> string \<Rightarrow> u32 \<Rightarrow> string \<Rightarrow>
   session_error + 'st initiatorHandshake" where
  "beginHandshake N seed draw token avoid encap =
     (case n_new N seed token True of
        None \<Rightarrow> Inl errHandshakeBuild
      | Some state \<Rightarrow>
          (case n_write N state (bytes_of_string encap) of
             None \<Rightarrow> Inl errHandshakeWrite
           | Some (state', msg, _) \<Rightarrow>
               (case newSessionID draw avoid of
                  Inl e \<Rightarrow> Inl e
                | Inr sid \<Rightarrow> Inr \<lparr>ih_id = sid, ih_state = state', ih_msg = msg, ih_encap = encap\<rparr>)))"

definition ih_datagram :: "'st initiatorHandshake \<Rightarrow> bytes" where
  "ih_datagram h = header_bytes \<lparr>h_kind = typeInit, h_session = ih_id h, h_counter = 0\<rparr> @ ih_msg h"

definition ih_complete ::
  "('st, 'k) noise \<Rightarrow> int \<Rightarrow> 'st initiatorHandshake \<Rightarrow> bytes \<Rightarrow> session_error + 'k session" where
  "ih_complete N now h reply =
     (case n_read N (ih_state h) reply of
        None \<Rightarrow> Inl errHandshakeRejected
      | Some (_, payload, cs) \<Rightarrow>
          let theirs = string_of_bytes payload in
          if theirs \<noteq> '''' \<and> theirs \<noteq> ih_encap h then Inl (errEncapMismatch (ih_encap h) theirs)
          else newSession now (ih_id h) (map_option fst cs) (map_option snd cs))"

text \<open>\<open>respond\<close> returns a session, a reply and an error; \<open>resp_result\<close> keeps the three: on an
  encapsulation mismatch there is a reply but no session.\<close>

record 'k resp_result =
  r_session :: "'k session option"
  r_reply :: "bytes option"
  r_error :: "session_error option"

abbreviation resp_fail :: "session_error \<Rightarrow> 'k resp_result" where
  "resp_fail e \<equiv> \<lparr>r_session = None, r_reply = None, r_error = Some e\<rparr>"

definition respond ::
  "('st, 'k) noise \<Rightarrow> nat \<Rightarrow> int \<Rightarrow> string \<Rightarrow> u32 \<Rightarrow> bytes \<Rightarrow> string \<Rightarrow> 'k resp_result" where
  "respond N seed now token sid msg encap =
     (case n_new N seed token False of
        None \<Rightarrow> resp_fail errHandshakeBuild
      | Some state \<Rightarrow>
          (case n_read N state msg of
             None \<Rightarrow> resp_fail errHandshakeRejected
           | Some (state', payload, _) \<Rightarrow>
               (case n_write N state' (bytes_of_string encap) of
                  None \<Rightarrow> resp_fail errHandshakeWrite
                | Some (_, reply, cs) \<Rightarrow>
                    let datagram = header_bytes \<lparr>h_kind = typeResp, h_session = sid, h_counter = 0\<rparr> @ reply;
                        theirs = string_of_bytes payload
                    in if theirs \<noteq> '''' \<and> theirs \<noteq> encap
                       then \<lparr>r_session = None, r_reply = Some datagram,
                             r_error = Some (errEncapMismatch encap theirs)\<rparr>
                       else (case newSession now sid (map_option snd cs) (map_option fst cs) of
                               Inl e \<Rightarrow> resp_fail e
                             | Inr sess \<Rightarrow> \<lparr>r_session = Some sess, r_reply = Some datagram,
                                           r_error = None\<rparr>))))"

section \<open>What is assumed of the library\<close>

text \<open>The cipher decrypts what was encrypted under the same key, nonce and additional data, and
  appends a tag of 16 bytes.\<close>

definition cipher_ok :: "'k encrypt \<Rightarrow> 'k decrypt \<Rightarrow> bool" where
  "cipher_ok enc dec \<longleftrightarrow>
     (\<forall>k n ad p. dec k n ad (enc k n ad p) = Some p \<and> length (enc k n ad p) = length p + tagLen)"

text \<open>A completed exchange between two states of the same token delivers both payloads and the
  same pair of cipher states to both ends.\<close>

definition noise_agrees :: "('st, 'k) noise \<Rightarrow> bool" where
  "noise_agrees N \<longleftrightarrow>
     (\<forall>seed1 seed2 token i r i' msg o1 p1.
        n_new N seed1 token True = Some i \<and> n_new N seed2 token False = Some r \<and>
        n_write N i p1 = Some (i', msg, o1) \<longrightarrow>
        (\<exists>r' o2. n_read N r msg = Some (r', p1, o2) \<and>
           (\<forall>p2. \<exists>r'' i'' reply ks.
               n_write N r' p2 = Some (r'', reply, Some ks) \<and>
               n_read N i' reply = Some (i'', p2, Some ks))))"

section \<open>Sequences of operations\<close>

text \<open>Sealing a list of packets, keeping the datagrams; opening a list of datagrams, keeping the
  counters and plaintexts that were handed up.\<close>

fun seal_run :: "'k encrypt \<Rightarrow> 'k session \<Rightarrow> (bytes \<times> byte) list \<Rightarrow> 'k session \<times> (session_error + bytes) list" where
  "seal_run enc s [] = (s, [])"
| "seal_run enc s ((p, k) # ps) =
     (let (s', r) = sealKind enc s p k; (s'', rs) = seal_run enc s' ps in (s'', r # rs))"

fun open_run :: "'k decrypt \<Rightarrow> 'k session \<Rightarrow> (header \<times> bytes) list \<Rightarrow> ('k session \<times> (u64 \<times> bytes) list) option" where
  "open_run dec s [] = Some (s, [])"
| "open_run dec s ((h, b) # ds) =
     (case session_open dec s h b of
        None \<Rightarrow> None
      | Some (s', Inl e) \<Rightarrow> open_run dec s' ds
      | Some (s', Inr p) \<Rightarrow> map_option (\<lambda>(s'', out). (s'', (h_counter h, p) # out)) (open_run dec s' ds))"

definition authentic :: "'k decrypt \<Rightarrow> 'k \<Rightarrow> header \<times> bytes \<Rightarrow> bool" where
  "authentic dec k = (\<lambda>(h, b). dec k (h_counter h) (header_bytes h) b \<noteq> None)"

lemma session_open_keeps:
  "session_open dec s h b = Some (s', r) \<Longrightarrow> s' = s\<lparr>s_replay := s_replay s'\<rparr>"
  by (auto simp: session_open_def split: if_splits option.splits)

lemma open_run_filter:
  "open_run dec s ds = Some (s', out) \<Longrightarrow>
   filter_run accept commit (s_replay s) (map (h_counter \<circ> fst) (filter (authentic dec (s_recv s)) ds))
     = Some (s_replay s', map fst out)"
proof (induction ds arbitrary: s out)
  case Nil
  then show ?case by simp
next
  case (Cons d ds)
  obtain h b where d: "d = (h, b)" by (cases d)
  show ?case
  proof (cases "accept (s_replay s) (h_counter h) \<and> authentic dec (s_recv s) d")
    case False
    then have "\<exists>e. session_open dec s h b = Some (s, Inl e)"
      using d by (cases "accept (s_replay s) (h_counter h)") (auto simp: session_open_def authentic_def)
    then show ?thesis using Cons d False by auto
  next
    case True
    obtain p where p: "dec (s_recv s) (h_counter h) (header_bytes h) b = Some p"
      using True d by (auto simp: authentic_def)
    obtain w where w: "commit (s_replay s) (h_counter h) = Some w"
      using Cons.prems True p d by (cases "commit (s_replay s) (h_counter h)") (auto simp: session_open_def)
    have op: "session_open dec s h b = Some (s\<lparr>s_replay := w\<rparr>, Inr p)"
      using True p w by (simp add: session_open_def)
    obtain out1 where out1: "open_run dec (s\<lparr>s_replay := w\<rparr>) ds = Some (s', out1)"
      "out = (h_counter h, p) # out1"
      using Cons.prems op d by auto
    show ?thesis using Cons.IH [OF out1(1)] True w d out1(2) by simp
  qed
qed

section \<open>Properties\<close>

text \<open>C9. Nothing is handed up twice: over any sequence of received datagrams, forged, duplicated
  or reordered, and whatever the cipher does, the counters of the packets \<open>open\<close> returned are
  pairwise distinct.\<close>

theorem open_never_delivers_twice:
  assumes "newSession now sid ks kr = Inr s" and "open_run dec s ds = Some (s', out)"
  shows "distinct (map fst out)"
proof -
  have z: "s_replay s = zero_window"
    using assms(1) by (auto simp: newSession_def split: option.splits)
  show ?thesis using open_run_filter [OF assms(2)] rwf.run_distinct unfolding z by blast
qed

text \<open>A stand-in cipher for the witnesses: the tag is the counter's low byte repeated.\<close>

definition demo_enc :: "u32 encrypt" where
  "demo_enc k n ad p = p @ replicate 16 (ucast n)"

definition demo_dec :: "u32 decrypt" where
  "demo_dec k n ad c =
     (if length c < 16 \<or> drop (length c - 16) c \<noteq> replicate 16 (ucast n) then None
      else Some (take (length c - 16) c))"

lemma demo_cipher_ok: "cipher_ok demo_enc demo_dec"
  by (simp add: cipher_ok_def demo_enc_def demo_dec_def tagLen_def)

definition demo_header :: "u64 \<Rightarrow> header" where
  "demo_header c = \<lparr>h_kind = 3, h_session = 1, h_counter = c\<rparr>"

definition demo_session :: "u32 session" where
  "demo_session = \<lparr>s_id = 1, s_created = 0, s_send = 5, s_recv = 6, s_sendCounter = 0, s_replay = zero_window\<rparr>"

theorem open_never_delivers_twice_witness:
  "distinct (map fst (snd (the (open_run demo_dec demo_session
     [(demo_header 4, demo_enc 6 4 [] [1]), (demo_header 4, demo_enc 6 4 [] [1])]))))"
proof -
  have s: "newSession 0 1 (Some 5) (Some 6) = Inr demo_session"
    by (simp add: newSession_def demo_session_def)
  obtain s' out where r: "open_run demo_dec demo_session
     [(demo_header 4, demo_enc 6 4 [] [1]), (demo_header 4, demo_enc 6 4 [] [1])] = Some (s', out)"
  proof -
    have "open_run demo_dec demo_session
      [(demo_header 4, demo_enc 6 4 [] [1]), (demo_header 4, demo_enc 6 4 [] [1])] \<noteq> None"
      by code_simp
    then show ?thesis using that by auto
  qed
  show ?thesis using open_never_delivers_twice [OF s r] r by simp
qed

text \<open>C10. Datagrams that do not authenticate have no effect at all: what a session hands up, and
  the state it ends in, are the same as if they had never arrived. A forged counter cannot
  move the replay window past genuine packets.\<close>

theorem forged_datagrams_have_no_effect:
  "open_run dec s ds = open_run dec s (filter (authentic dec (s_recv s)) ds)"
proof (induction ds arbitrary: s)
  case Nil
  show ?case by simp
next
  case (Cons d ds)
  obtain h b where d: "d = (h, b)" by (cases d)
  have keep: "s_recv s' = s_recv s" if "session_open dec s h b = Some (s', r)" for s' r
    using session_open_keeps [OF that] by (metis session.select_convs(4) session.surjective session.update_convs(6))
  show ?case
  proof (cases "authentic dec (s_recv s) d")
    case True
    then show ?thesis
      using d Cons.IH keep by (auto split: option.splits sum.splits prod.splits)
  next
    case False
    then have "\<exists>e. session_open dec s h b = Some (s, Inl e)"
      using d by (auto simp: session_open_def authentic_def)
    then show ?thesis using d Cons.IH False by auto
  qed
qed

definition sealed_as :: "'k encrypt \<Rightarrow> 'k session \<Rightarrow> nat \<Rightarrow> bytes \<times> byte \<Rightarrow> session_error + bytes" where
  "sealed_as enc s i pk =
     (if 2 ^ 60 \<le> i then Inl errSessionExhausted
      else let ad = header_bytes \<lparr>h_kind = snd pk, h_session = s_id s, h_counter = word_of_nat i\<rparr>
           in Inr (ad @ enc (s_send s) (word_of_nat i) ad (fst pk)))"

lemma unat_rejectAfter: "unat rejectAfterMessages = 2 ^ 60"
  by (simp add: rejectAfterMessages_def)

lemma sealKind_at:
  assumes "unat (s_sendCounter s) = i"
  shows "sealKind enc s p k = (s\<lparr>s_sendCounter := s_sendCounter s + 1\<rparr>, sealed_as enc s i (p, k))"
proof -
  have "word_of_nat i = s_sendCounter s" using assms by auto
  moreover have "rejectAfterMessages \<le> s_sendCounter s \<longleftrightarrow> 2 ^ 60 \<le> i"
    using assms by (simp add: word_le_nat_alt unat_rejectAfter)
  ultimately show ?thesis by (simp add: sealKind_def sealed_as_def Let_def)
qed

lemma seal_run_from:
  "unat (s_sendCounter s) = i \<Longrightarrow> i + length ps < 2 ^ 64 \<Longrightarrow>
   snd (seal_run enc s ps) = map (\<lambda>(j, pk). sealed_as enc s (i + j) pk) (enumerate 0 ps)"
proof (induction ps arbitrary: s i)
  case Nil
  then show ?case by simp
next
  case (Cons pk ps)
  obtain p k where pk: "pk = (p, k)" by (cases pk)
  let ?s = "s\<lparr>s_sendCounter := s_sendCounter s + 1\<rparr>"
  have "s_sendCounter s \<noteq> - 1"
  proof
    assume "s_sendCounter s = - 1"
    then have "i = 2 ^ 64 - 1"
      using Cons.prems(1) by (simp add: unsigned_minus_1_eq_mask mask_eq_exp_minus_1)
    with Cons.prems(2) show False by simp
  qed
  then have i1: "unat (s_sendCounter ?s) = Suc i" using Cons.prems(1) by (simp add: unat_plus_one)
  have same: "sealed_as enc ?s j = sealed_as enc s j" for j
    by (rule ext) (simp add: sealed_as_def)
  have "snd (seal_run enc s (pk # ps)) = sealed_as enc s i pk # snd (seal_run enc ?s ps)"
    using sealKind_at [OF Cons.prems(1)] pk by (simp add: Let_def split: prod.splits)
  also have "snd (seal_run enc ?s ps) = map (\<lambda>(j, pk). sealed_as enc s (i + j) pk) (enumerate 1 ps)"
    using Cons.IH [OF i1] Cons.prems(2)
    by (simp add: same enumerate_Suc_eq [of 0 ps, simplified] case_prod_beta)
  finally show ?case by simp
qed

text \<open>C11. No nonce is used twice: the datagrams a new session seals carry the counters 0, 1, 2,
  ... in order, as long as fewer than 2^64 packets are sealed, and every counter past the
  limit of 2^60 is refused.\<close>

theorem seal_uses_each_nonce_once:
  assumes "newSession now sid ks kr = Inr s" and "length ps < 2 ^ 64" and "i < length ps"
  shows "snd (seal_run enc s ps) ! i = sealed_as enc s i (ps ! i)"
proof -
  have "unat (s_sendCounter s) = 0"
    using assms(1) by (auto simp: newSession_def split: option.splits)
  then have "snd (seal_run enc s ps) = map (\<lambda>(j, pk). sealed_as enc s j pk) (enumerate 0 ps)"
    using seal_run_from [of s 0 ps enc] assms(2) by simp
  then show ?thesis using assms(3) by (simp add: nth_enumerate_eq)
qed

theorem seal_uses_each_nonce_once_witness:
  "snd (seal_run demo_enc demo_session [([1], 3), ([2], 4)]) ! 1 = sealed_as demo_enc demo_session 1 ([2], 4)"
proof -
  have "newSession 0 1 (Some 5) (Some 6) = Inr demo_session"
    by (simp add: newSession_def demo_session_def)
  then show ?thesis
    using seal_uses_each_nonce_once [of 0 1 "Some 5" "Some 6" demo_session "[([1], 3), ([2], 4)]" 1 demo_enc]
    by simp
qed

lemma handshake_agreement:
  assumes "noise_agrees N" and "n_new N seed2 token False \<noteq> None"
    and "beginHandshake N seed1 draw token avoid encap = Inr h"
  shows "\<exists>sr reply si.
     respond N seed2 now2 token (ih_id h) (ih_msg h) encap
       = \<lparr>r_session = Some sr,
          r_reply = Some (header_bytes \<lparr>h_kind = typeResp, h_session = ih_id h, h_counter = 0\<rparr> @ reply),
          r_error = None\<rparr> \<and>
     ih_complete N now1 h reply = Inr si \<and>
     s_id si = s_id sr \<and> s_send si = s_recv sr \<and> s_recv si = s_send sr"
proof -
  obtain r where r: "n_new N seed2 token False = Some r" using assms(2) by auto
  obtain i i' msg o1 where i: "n_new N seed1 token True = Some i"
    "n_write N i (bytes_of_string encap) = Some (i', msg, o1)"
    and h: "ih_state h = i'" "ih_msg h = msg" "ih_encap h = encap"
    using assms(3) by (auto simp: beginHandshake_def split: option.splits sum.splits)
  obtain r' o2 where rd: "n_read N r msg = Some (r', bytes_of_string encap, o2)"
    "\<And>p2. \<exists>r'' i'' reply ks. n_write N r' p2 = Some (r'', reply, Some ks) \<and>
        n_read N i' reply = Some (i'', p2, Some ks)"
    using assms(1) i r unfolding noise_agrees_def by blast
  obtain r'' i'' reply ks where w: "n_write N r' (bytes_of_string encap) = Some (r'', reply, Some ks)"
    "n_read N i' reply = Some (i'', bytes_of_string encap, Some ks)"
    using rd(2) by blast
  show ?thesis
    using r rd(1) w h by (simp add: respond_def ih_complete_def newSession_def Let_def)
qed

text \<open>The two ends of a completed handshake agree: with the same token and the same
  encapsulation, the initiator's message is answered, the answer is accepted, both ends hold
  the same session id, and each sends under the key the other receives with.\<close>

theorem handshake_agrees:
  assumes "noise_agrees N" and "n_new N seed2 token False \<noteq> None"
    and "beginHandshake N seed1 draw token avoid encap = Inr h"
  shows "\<exists>sr reply si.
     respond N seed2 now2 token (ih_id h) (ih_msg h) encap
       = \<lparr>r_session = Some sr,
          r_reply = Some (header_bytes \<lparr>h_kind = typeResp, h_session = ih_id h, h_counter = 0\<rparr> @ reply),
          r_error = None\<rparr> \<and>
     ih_complete N now1 h reply = Inr si \<and>
     s_id si = s_id sr \<and> s_send si = s_recv sr \<and> s_recv si = s_send sr"
  by (rule handshake_agreement [OF assms])

text \<open>A stand-in handshake for the witness: payloads travel in the clear.\<close>

definition demo_noise :: "(string \<times> bool, u32) noise" where
  "demo_noise =
     \<lparr>n_new = (\<lambda>seed token initiator. Some (token, initiator)),
      n_write = (\<lambda>st p. Some (st, p, if snd st then None else Some (5, 6))),
      n_read = (\<lambda>st m. Some (st, m, if snd st then Some (5, 6) else None))\<rparr>"

lemma demo_noise_agrees: "noise_agrees demo_noise"
  by (auto simp: noise_agrees_def demo_noise_def)

theorem handshake_agrees_witness:
  "\<exists>sr reply si.
     respond demo_noise 2 0 ''tok'' 77 (bytes_of_string ''gre'') ''gre''
       = \<lparr>r_session = Some sr,
          r_reply = Some (header_bytes \<lparr>h_kind = typeResp, h_session = 77, h_counter = 0\<rparr> @ reply),
          r_error = None\<rparr> \<and>
     ih_complete demo_noise 0 \<lparr>ih_id = 77, ih_state = (''tok'', True), ih_msg = bytes_of_string ''gre'',
       ih_encap = ''gre''\<rparr> reply = Inr si \<and>
     s_id si = s_id sr \<and> s_send si = s_recv sr \<and> s_recv si = s_send sr"
proof -
  have "newSessionID (\<lambda>_. Some 77) 0 = Inr 77" by code_simp
  then have b: "beginHandshake demo_noise 1 (\<lambda>_. Some 77) ''tok'' 0 ''gre'' = Inr
     \<lparr>ih_id = 77, ih_state = (''tok'', True), ih_msg = bytes_of_string ''gre'', ih_encap = ''gre''\<rparr>"
    by (simp add: beginHandshake_def demo_noise_def)
  show ?thesis
    using handshake_agrees [OF demo_noise_agrees _ b, of 2 0 0] by (simp add: demo_noise_def)
qed

text \<open>A datagram of the sender as the receive pump splits it.\<close>

definition arrival :: "'k encrypt \<Rightarrow> 'k session \<Rightarrow> nat \<Rightarrow> bytes \<Rightarrow> header \<times> bytes" where
  "arrival enc s n p = projr (parseHeader (projr (sealed_as enc s n (p, typeData))))"

lemma arrival_eq:
  assumes "n < 2 ^ 60"
  shows "arrival enc s n p =
     (let h = \<lparr>h_kind = typeData, h_session = s_id s, h_counter = word_of_nat n\<rparr>
      in (h, enc (s_send s) (word_of_nat n) (header_bytes h) p))"
proof -
  have "known_kind typeData" by (simp add: known_kind_def)
  then show ?thesis using assms
    by (simp add: arrival_def sealed_as_def Let_def parse_header_bytes not_le)
qed

lemma accept_reordered:
  assumes "window_rel w S" and "c \<notin> S" and "\<And>m. m \<in> S \<Longrightarrow> unat m < unat c + 2048"
  shows "accept w c"
proof (cases "S = {}")
  case False
  then have "unat (Max S) < unat c + 2048" using assms(3) by simp
  then show ?thesis using assms(1,2) by (auto simp: accept_spec spec_accept_def replayWindowBits_def)
qed (use assms(1) in \<open>simp add: accept_spec spec_accept_def\<close>)

lemma open_reordered_from:
  assumes ok: "cipher_ok enc dec" and key: "s_send a = s_recv b" and rel: "window_rel (s_replay b) S"
    and small: "\<And>n. n \<in> set ns \<Longrightarrow> n < 2 ^ 60 \<and> word_of_nat n \<notin> S \<and> (\<forall>m \<in> S. unat m < n + 2048)"
    and dis: "distinct ns" and ord: "sorted_wrt (\<lambda>i j. i < j + 2048) ns"
  shows "\<exists>b'. open_run dec b (map (\<lambda>n. arrival enc a n (p n)) ns)
           = Some (b', map (\<lambda>n. (word_of_nat n, p n)) ns)"
  using key rel small dis ord
proof (induction ns arbitrary: b S)
  case Nil
  then show ?case by simp
next
  case (Cons n ns)
  let ?c = "word_of_nat n :: u64"
  have n: "n < 2 ^ 60" using Cons.prems(3) by simp
  then have un: "unat ?c = n" by (simp add: unat_of_nat)
  have acc: "accept (s_replay b) ?c"
    using accept_reordered [OF Cons.prems(2)] Cons.prems(3) [of n] un by auto
  have "?c \<noteq> - 1"
  proof
    assume "?c = - 1"
    then have "n = unat (- 1 :: u64)" using un by metis
    with n show False by (simp add: unsigned_minus_1_eq_mask mask_eq_exp_minus_1)
  qed
  then obtain w where w: "commit (s_replay b) ?c = Some w" "window_rel w (insert ?c S)"
    using commit_spec [OF Cons.prems(2) acc] by blast
  let ?b = "b\<lparr>s_replay := w\<rparr>"
  have fresh: "word_of_nat m \<notin> insert ?c S" if "m \<in> set ns" for m
  proof -
    have "m < 2 ^ 60" "m \<noteq> n" using Cons.prems(3) [of m] Cons.prems(4) that by auto
    moreover have "unat (word_of_nat m :: u64) = m" using \<open>m < 2 ^ 60\<close> by (simp add: unat_of_nat)
    ultimately have "word_of_nat m \<noteq> ?c" using un by metis
    then show ?thesis using Cons.prems(3) [of m] that by simp
  qed
  have "\<exists>b'. open_run dec ?b (map (\<lambda>n. arrival enc a n (p n)) ns)
          = Some (b', map (\<lambda>n. (word_of_nat n, p n)) ns)"
    using Cons.prems fresh un by (intro Cons.IH [of ?b "insert ?c S"]) (auto simp: w(2))
  moreover have "dec (s_recv b) ?c ad (enc (s_recv b) ?c ad (p n)) = Some (p n)" for ad
    using ok by (simp add: cipher_ok_def)
  ultimately show ?case
    using acc w(1) Cons.prems(1) n by (auto simp: arrival_eq Let_def session_open_def)
qed

text \<open>C13. Bounded reordering loses nothing: if the packets of one session arrive in any order in
  which none is overtaken by one 2048 or more ahead of it, each arriving once, the receiver
  hands up every one of them with its plaintext.\<close>

theorem reordered_packets_all_delivered:
  assumes "cipher_ok enc dec" and "newSession now1 sid ka kb = Inr a" and "newSession now2 sid kb ka = Inr b"
    and "distinct ns" and "sorted_wrt (\<lambda>i j. i < j + 2048) ns" and "\<forall>n \<in> set ns. n < 2 ^ 60"
  shows "\<exists>b'. open_run dec b (map (\<lambda>n. arrival enc a n (p n)) ns)
           = Some (b', map (\<lambda>n. (word_of_nat n, p n)) ns)"
proof (rule open_reordered_from [where S = "{}"])
  show "s_send a = s_recv b" "window_rel (s_replay b) {}"
    using assms(2,3) by (auto simp: newSession_def split: option.splits)
qed (use assms in auto)

theorem reordered_packets_all_delivered_witness:
  "\<exists>b'. open_run demo_dec (demo_session\<lparr>s_send := 6, s_recv := 5\<rparr>)
      (map (\<lambda>n. arrival demo_enc demo_session n [word_of_nat n]) [3, 0, 2000, 1])
    = Some (b', map (\<lambda>n. (word_of_nat n, [word_of_nat n])) [3, 0, 2000, 1])"
proof (rule reordered_packets_all_delivered [OF demo_cipher_ok])
  show "newSession 0 1 (Some 5) (Some 6) = Inr demo_session"
    and "newSession 0 1 (Some 6) (Some 5) = Inr (demo_session\<lparr>s_send := 6, s_recv := 5\<rparr>)"
    by (simp_all add: newSession_def demo_session_def)
qed auto

end
