(* ===== verification/Mtu.thy ===== *)
theory Mtu
  imports Session
begin

text \<open>
  Path measurement of \<open>internal/tunnel/l3/mtuprobe.go\<close> (probe messages and the binary search)
  with \<open>MTUFor\<close> and the size limits of \<open>internal/tunnel/l3/config.go\<close>.

  The search is written over an arbitrary state \<open>'s\<close> that the probes change: \<open>send\<close> is one
  \<open>sendProbe\<close>, \<open>cancelled\<close> the test of the context. Sizes are Go \<open>int\<close>s and stay far from 2^63,
  so they are integers here; the 16-bit size field of a probe truncates as in the code.
\<close>

section \<open>Constants\<close>

definition minMTU :: int where "minMTU = 576"
definition maxMTU :: int where "maxMTU = 9000"
definition defaultMTU :: int where "defaultMTU = 1400"
definition probeHeaderLen :: nat where "probeHeaderLen = 6"
definition probeAttempts :: nat where "probeAttempts = 3"

definition MTUFor :: "int \<Rightarrow> int \<Rightarrow> int \<Rightarrow> int" where
  "MTUFor pathMTU carrierOverhead encapOverhead =
     pathMTU - carrierOverhead - int dataOverhead - encapOverhead"

section \<open>Probe messages\<close>

text \<open>\<open>None\<close> is a panic: \<open>make\<close> of a negative size, or a buffer shorter than the header.\<close>

definition buildProbe :: "u32 \<Rightarrow> int \<Rightarrow> int \<Rightarrow> bytes option" where
  "buildProbe i p encapOverhead =
     (if encapOverhead + p < int probeHeaderLen then None
      else let body = replicate (nat (encapOverhead + p)) 0;
               body = copy_at 0 (be_put 4 i) body
           in Some (copy_at 4 (be_put 2 (word_of_int p :: u16)) body))"

definition readProbe :: "bytes \<Rightarrow> (u32 \<times> int) option" where
  "readProbe body =
     (if length body < probeHeaderLen then None
      else Some (be_get (slice 0 4 body), uint (be_get (slice 4 6 body) :: u16)))"

definition buildProbeAck :: "u32 \<Rightarrow> int \<Rightarrow> bytes" where
  "buildProbeAck i p =
     (let ack = replicate probeHeaderLen 0; ack = copy_at 0 (be_put 4 i) ack
      in copy_at 4 (be_put 2 (word_of_int p :: u16)) ack)"

section \<open>The search\<close>

datatype mtu_error = errProbeUnanswered | errCancelled

fun probeOnce :: "('s \<Rightarrow> int \<Rightarrow> 's \<times> bool) \<Rightarrow> ('s \<Rightarrow> bool) \<Rightarrow> nat \<Rightarrow> 's \<Rightarrow> int \<Rightarrow> 's \<times> bool" where
  "probeOnce send cancelled 0 st p = (st, False)"
| "probeOnce send cancelled (Suc left) st p =
     (if cancelled st then (st, False)
      else case send st p of
             (st', True) \<Rightarrow> (st', True)
           | (st', False) \<Rightarrow> probeOnce send cancelled left st' p)"

text \<open>The loop of \<open>searchMTU\<close>. The bounds are positive, so Go's truncating division by two is
  \<open>div\<close>.\<close>

function search_loop ::
  "('s \<Rightarrow> int \<Rightarrow> 's \<times> bool) \<Rightarrow> ('s \<Rightarrow> bool) \<Rightarrow> 's \<Rightarrow> int \<Rightarrow> int \<Rightarrow> int \<Rightarrow> 's \<times> (mtu_error + int)" where
  "search_loop probe cancelled st best lo hi =
     (if lo \<le> hi then
        (if cancelled st then (st, Inl errCancelled)
         else let mid = (lo + hi) div 2 in
              case probe st mid of
                (st', True) \<Rightarrow> search_loop probe cancelled st' mid (mid + 1) hi
              | (st', False) \<Rightarrow> search_loop probe cancelled st' best lo (mid - 1))
      else (st, Inr best))"
  by pat_completeness auto
termination by (relation "measure (\<lambda>(_, _, _, _, lo, hi). nat (hi + 1 - lo))") auto

declare search_loop.simps [simp del]

definition searchMTU ::
  "('s \<Rightarrow> int \<Rightarrow> 's \<times> bool) \<Rightarrow> ('s \<Rightarrow> bool) \<Rightarrow> int \<Rightarrow> int \<Rightarrow> 's \<Rightarrow> 's \<times> (mtu_error + int)" where
  "searchMTU probe cancelled carrierOverhead encapOverhead st =
     (let ceiling = min (MTUFor 1500 carrierOverhead encapOverhead) maxMTU;
          floor = minMTU
      in case probe st ceiling of
           (st1, True) \<Rightarrow> (st1, Inr ceiling)
         | (st1, False) \<Rightarrow>
             (case probe st1 floor of
                (st2, False) \<Rightarrow> (st2, Inl errProbeUnanswered)
              | (st2, True) \<Rightarrow> search_loop probe cancelled st2 floor (floor + 1) (ceiling - 1)))"

section \<open>Lemmas\<close>

lemma buildProbe_eq:
  assumes "6 \<le> ov + p"
  shows "buildProbe i p ov = Some (be_put 4 i @ be_put 2 (word_of_int p :: u16) @ replicate (nat (ov + p) - 6) 0)"
proof -
  obtain n where n: "nat (ov + p) = 6 + n" using assms by (metis le_Suc_ex nat_le_iff nat_mono nat_numeral)
  then show ?thesis using assms
    by (simp add: buildProbe_def probeHeaderLen_def copy_at_def Let_def replicate_add numeral_eq_Suc)
qed

lemma buildProbeAck_eq: "buildProbeAck i p = be_put 4 i @ be_put 2 (word_of_int p :: u16)"
  by (simp add: buildProbeAck_def probeHeaderLen_def copy_at_def Let_def numeral_eq_Suc)

lemma readProbe_fields:
  "readProbe (be_put 4 i @ be_put 2 (w :: u16) @ rest) = Some (i, uint w)"
  by (simp add: readProbe_def probeHeaderLen_def slice_append_right)

lemma uint_size16: "0 \<le> p \<Longrightarrow> p < 65536 \<Longrightarrow> uint (word_of_int p :: u16) = p"
  by (simp add: unsigned_of_int take_bit_int_eq_self)

text \<open>A path whose probes are answered exactly up to the size \<open>cap\<close>.\<close>

definition carries_up_to :: "int \<Rightarrow> ('s \<Rightarrow> int \<Rightarrow> 's \<times> bool) \<Rightarrow> bool" where
  "carries_up_to cap probe \<longleftrightarrow> (\<forall>st p. snd (probe st p) \<longleftrightarrow> p \<le> cap)"

lemma carries_up_toD: "carries_up_to cap probe \<Longrightarrow> probe st p = (st', b) \<Longrightarrow> b \<longleftrightarrow> p \<le> cap"
  unfolding carries_up_to_def by (metis snd_conv)

lemma search_loop_finds:
  assumes c: "carries_up_to cap probe" and nc: "\<And>st. \<not> cancelled st"
  shows "lo - 1 \<le> cap \<Longrightarrow> cap \<le> hi \<Longrightarrow> snd (search_loop probe cancelled st (lo - 1) lo hi) = Inr cap"
proof (induction "nat (hi + 1 - lo)" arbitrary: st lo hi rule: less_induct)
  case less
  show ?case
  proof (cases "lo \<le> hi")
    case False
    then show ?thesis using less.prems by (simp add: search_loop.simps)
  next
    case True
    define mid where "mid = (lo + hi) div 2"
    have m: "lo \<le> mid" "mid \<le> hi" using True by (auto simp: mid_def)
    obtain st' b where pr: "probe st mid = (st', b)" by fastforce
    have b: "b \<longleftrightarrow> mid \<le> cap" by (rule carries_up_toD [OF c pr])
    have step: "search_loop probe cancelled st (lo - 1) lo hi =
        (if b then search_loop probe cancelled st' (mid + 1 - 1) (mid + 1) hi
         else search_loop probe cancelled st' (lo - 1) lo (mid - 1))"
      using True nc pr by (simp add: search_loop.simps [of probe cancelled st] mid_def [symmetric])
    show ?thesis
    proof (cases b)
      case True
      then show ?thesis unfolding step using less.hyps [of hi "mid + 1" st'] less.prems m b by simp
    next
      case False
      then show ?thesis unfolding step using less.hyps [of "mid - 1" lo st'] less.prems m b by simp
    qed
  qed
qed

text \<open>Counting the sizes that are tried.\<close>

definition counted :: "('s \<Rightarrow> int \<Rightarrow> 's \<times> bool) \<Rightarrow> nat \<times> 's \<Rightarrow> int \<Rightarrow> (nat \<times> 's) \<times> bool" where
  "counted probe = (\<lambda>(n, st) p. let (st', b) = probe st p in ((Suc n, st'), b))"

lemma counted_eq: "probe st p = (st', b) \<Longrightarrow> counted probe (n, st) p = ((Suc n, st'), b)"
  by (simp add: counted_def)

lemma search_loop_cost:
  "hi + 1 - lo < 2 ^ k \<Longrightarrow>
   fst (fst (search_loop (counted probe) cancelled (n, st) best lo hi)) \<le> n + k"
proof (induction k arbitrary: n st best lo hi)
  case 0
  then show ?case by (simp add: search_loop.simps)
next
  case (Suc k)
  define mid where "mid = (lo + hi) div 2"
  obtain st' b where pr: "probe st mid = (st', b)" by fastforce
  have h: "hi + 1 - (mid + 1) < 2 ^ k" "(mid - 1) + 1 - lo < 2 ^ k" if "lo \<le> hi"
    using Suc.prems that by (auto simp: mid_def)
  show ?case
    using Suc.IH [of hi "mid + 1" "Suc n" st' mid] Suc.IH [of "mid - 1" lo "Suc n" st' best] h
    by (auto simp: search_loop.simps [of "counted probe" cancelled "(n, st)"] mid_def [symmetric]
        counted_eq [of probe, OF pr] split: bool.splits)
qed

section \<open>Properties\<close>

text \<open>C17. The search measures the path: when probes are answered exactly up to a size \<open>cap\<close> and
  nothing cancels it, it returns the ceiling if the path carries that, the exact figure \<open>cap\<close> if
  that is at least the floor, and otherwise reports that there is no measurement.\<close>

theorem searchMTU_measures_path:
  assumes "carries_up_to cap probe" and "\<And>st. \<not> cancelled st"
  shows "snd (searchMTU probe cancelled co eo st) =
     (let ceiling = min (MTUFor 1500 co eo) maxMTU
      in if ceiling \<le> cap then Inr ceiling else if cap < minMTU then Inl errProbeUnanswered else Inr cap)"
proof -
  define ceil where "ceil = min (MTUFor 1500 co eo) maxMTU"
  obtain st1 b1 where p1: "probe st ceil = (st1, b1)" by fastforce
  obtain st2 b2 where p2: "probe st1 minMTU = (st2, b2)" by fastforce
  have b: "b1 \<longleftrightarrow> ceil \<le> cap" "b2 \<longleftrightarrow> minMTU \<le> cap"
    using carries_up_toD [OF assms(1)] p1 p2 by auto
  have l: "snd (search_loop probe cancelled st2 minMTU (minMTU + 1) (ceil - 1)) = Inr cap"
    if "minMTU \<le> cap" "cap < ceil"
    using search_loop_finds [where lo = "minMTU + 1" and hi = "ceil - 1" and st = st2, OF assms] that by simp
  show ?thesis
    using b l by (auto simp: searchMTU_def ceil_def [symmetric] Let_def p1 p2 split: bool.splits)
qed

theorem searchMTU_measures_path_witness:
  "snd (searchMTU (\<lambda>st p. (Suc st, p \<le> 1371)) (\<lambda>st. False) 28 8 (0 :: nat)) = Inr 1371"
  using searchMTU_measures_path [of 1371 "\<lambda>st p. (Suc st, p \<le> 1371)" "\<lambda>st. False" 28 8 "0 :: nat"]
  by (simp add: carries_up_to_def MTUFor_def dataOverhead_def headerLen_def tagLen_def maxMTU_def minMTU_def)

text \<open>The search is cheap: whatever is answered, it tries at most twelve sizes.\<close>

theorem searchMTU_cost:
  assumes "0 \<le> co" and "0 \<le> eo"
  shows "fst (fst (searchMTU (counted probe) cancelled co eo (0, st))) \<le> 12"
proof -
  define ceil where "ceil = min (MTUFor 1500 co eo) maxMTU"
  obtain st1 b1 where p1: "probe st ceil = (st1, b1)" by fastforce
  obtain st2 b2 where p2: "probe st1 minMTU = (st2, b2)" by fastforce
  have "ceil \<le> 1500" using assms by (simp add: ceil_def MTUFor_def)
  then have "fst (fst (search_loop (counted probe) cancelled (2, st2) minMTU (minMTU + 1) (ceil - 1))) \<le> 2 + 10"
    by (intro search_loop_cost) (simp add: minMTU_def)
  then show ?thesis
    by (auto simp: searchMTU_def ceil_def [symmetric] Let_def counted_eq [of probe, OF p1] counted_eq [of probe, OF p2]
        numeral_2_eq_2 split: bool.splits)
qed

theorem searchMTU_cost_witness:
  "fst (fst (searchMTU (counted (\<lambda>st p. (st, p \<le> 1000))) (\<lambda>st. False) 28 8 (0, ()))) \<le> 12"
  by (rule searchMTU_cost) simp_all

text \<open>A probe weighs what it measures: the sealed probe for inner size \<open>p\<close> has exactly the
  length of the sealed data datagram of an inner packet of \<open>p\<close> bytes, with the carrier's
  cost on top it fits a path of \<open>path\<close> bytes exactly when \<open>p\<close> is at most \<open>MTUFor\<close>, and the
  receiver reads back the identifier and the size.\<close>

theorem probe_weighs_like_data:
  assumes "cipher_ok enc dec" and "gre_Wrap g [] pkt = Inr frame" and "6 \<le> length pkt" "length pkt < 65536"
    and "seal enc s frame = (s1, Inr datagram)"
    and "buildProbe i (int (length pkt)) (int (gre_Overhead g)) = Some body"
    and "sealKind enc s body typeProbe = (s2, Inr probe)"
  shows "length probe = length datagram \<and> readProbe body = Some (i, int (length pkt)) \<and>
    (int (length pkt) \<le> MTUFor path co (int (gre_Overhead g)) \<longleftrightarrow> co + int (length probe) \<le> path)"
proof -
  have lf: "length frame = gre_Overhead g + length pkt"
    using gre.unwrap_len assms(2) by (simp add: gre.unwrap_iff)
  have b: "body = be_put 4 i @ be_put 2 (word_of_int (int (length pkt)) :: u16)
      @ replicate (nat (int (gre_Overhead g) + int (length pkt)) - 6) 0"
    using assms(6) buildProbe_eq [of "int (gre_Overhead g)" "int (length pkt)" i] assms(3) by simp
  have lb: "length body = gre_Overhead g + length pkt" unfolding b using assms(3) by simp
  have ld: "length datagram = headerLen + length frame + tagLen"
    using assms(1,5) by (auto simp: seal_def sealKind_def Let_def cipher_ok_def split: if_splits)
  have lp: "length probe = headerLen + length body + tagLen"
    using assms(1,7) by (auto simp: sealKind_def Let_def cipher_ok_def split: if_splits)
  have "readProbe body = Some (i, int (length pkt))"
    unfolding b using assms(4) uint_size16 [of "int (length pkt)"] by (simp only: readProbe_fields)
  then show ?thesis using lf lb ld lp by (simp add: MTUFor_def dataOverhead_def; arith)
qed

definition demo_packet :: bytes where "demo_packet = 0x45 # replicate 19 0"

theorem probe_weighs_like_data_witness:
  "length (projr (snd (sealKind demo_enc demo_session (the (buildProbe 7 20 4)) typeProbe)))
   = length (projr (snd (seal demo_enc demo_session (projr (gre_Wrap \<lparr>g_key = 0, g_keyed = False\<rparr> [] demo_packet)))))"
proof -
  let ?g = "\<lparr>g_key = 0, g_keyed = False\<rparr>"
  obtain frame where f: "gre_Wrap ?g [] demo_packet = Inr frame"
    by (simp add: gre_Wrap_eq demo_packet_def ipVersion_def)
  obtain body where b: "buildProbe 7 (int (length demo_packet)) (int (gre_Overhead ?g)) = Some body"
    by (simp add: buildProbe_def demo_packet_def probeHeaderLen_def gre_Overhead_def Let_def)
  obtain s1 d where d: "seal demo_enc demo_session frame = (s1, Inr d)"
    by (simp add: seal_def sealKind_def Let_def demo_session_def rejectAfterMessages_def)
  obtain s2 q where q: "sealKind demo_enc demo_session body typeProbe = (s2, Inr q)"
    by (simp add: sealKind_def Let_def demo_session_def rejectAfterMessages_def)
  have "length q = length d"
    using probe_weighs_like_data [OF demo_cipher_ok f _ _ d b q] by (simp add: demo_packet_def)
  moreover have "buildProbe 7 20 4 = Some body" using b by (simp add: demo_packet_def gre_Overhead_def)
  ultimately show ?thesis using f d q by simp
qed

end
