(* ===== verification/MssClamp.thy ===== *)
theory MssClamp
  imports GoStrings "HOL-Library.Multiset"
begin

text \<open>
  Segment-size clamping of \<open>internal/tunnel/mssclamp\<close>: the firewall rules of one interface
  (\<open>mssclamp.go\<close>) and their installation and removal (\<open>apply_linux.go\<close>).

  \<open>iptables\<close> is an external program: \<open>run st cmd args\<close> is one invocation, on the kernel's state
  \<open>st\<close>, with its success. What is relied on is named in \<open>iptables_ok\<close>: \<open>-D\<close> deletes one matching
  rule and fails when there is none, \<open>-A\<close> adds one when it succeeds.
\<close>

section \<open>Rules\<close>

definition mss_Off :: int where "mss_Off = -1"
definition OverheadV4 :: int where "OverheadV4 = 40"
definition OverheadV6 :: int where "OverheadV6 = 60"

definition mss_For :: "int \<Rightarrow> int \<Rightarrow> int \<Rightarrow> int" where
  "mss_For configured mtu overhead = (if 0 < configured then configured else mtu - overhead)"

record rule =
  r_Cmd :: string
  r_Table :: string
  r_Chain :: string
  r_Label :: string
  r_MSS :: int
  r_Spec :: "string list"

definition rule_Args :: "rule \<Rightarrow> string \<Rightarrow> string list" where
  "rule_Args r verb = [''-t'', r_Table r, verb, r_Chain r] @ r_Spec r"

definition mss_spec :: "string \<Rightarrow> string \<Rightarrow> int \<Rightarrow> string list" where
  "mss_spec kind iface mss =
     [''-o'', iface, ''-p'', ''tcp'', ''--tcp-flags'', ''SYN,RST'', ''SYN'', ''-m'', ''comment'', ''--comment'',
      ''parstanel-'' @ kind @ ''-mss-'' @ iface, ''-j'', ''TCPMSS'', ''--set-mss'', itoa mss]"

definition family_rules :: "string \<Rightarrow> string \<Rightarrow> int \<Rightarrow> int \<Rightarrow> string \<times> string \<times> int \<Rightarrow> rule list" where
  "family_rules kind iface mtu configured = (\<lambda>(cmd, label, overhead).
     let mss = mss_For configured mtu overhead in
     if mss \<le> 0 then []
     else map (\<lambda>chain. \<lparr>r_Cmd = cmd, r_Table = ''mangle'', r_Chain = chain, r_Label = label, r_MSS = mss,
                          r_Spec = mss_spec kind iface mss\<rparr>) [''FORWARD'', ''OUTPUT''])"

definition Rules :: "string \<Rightarrow> string \<Rightarrow> int \<Rightarrow> int \<Rightarrow> rule list" where
  "Rules kind iface mtu configured =
     concat (map (family_rules kind iface mtu configured)
       [(''iptables'', ''IPv4'', OverheadV4), (''ip6tables'', ''IPv6'', OverheadV6)])"

section \<open>Installing and removing\<close>

type_synonym 'fw runner = "'fw \<Rightarrow> string \<Rightarrow> string list \<Rightarrow> 'fw \<times> bool"

fun sweep_loop :: "'fw runner \<Rightarrow> string \<Rightarrow> string list \<Rightarrow> nat \<Rightarrow> 'fw \<Rightarrow> 'fw" where
  "sweep_loop run cmd args 0 st = st"
| "sweep_loop run cmd args (Suc left) st =
     (case run st cmd args of (st', True) \<Rightarrow> sweep_loop run cmd args left st' | (st', False) \<Rightarrow> st')"

definition sweep :: "'fw runner \<Rightarrow> rule \<Rightarrow> 'fw \<Rightarrow> 'fw" where
  "sweep run r st = sweep_loop run (r_Cmd r) (rule_Args r ''-D'') 1024 st"

fun install :: "'fw runner \<Rightarrow> rule list \<Rightarrow> 'fw \<Rightarrow> 'fw" where
  "install run [] st = st"
| "install run (r # rs) st = install run rs (fst (run (sweep run r st) (r_Cmd r) (rule_Args r ''-A'')))"

definition Apply :: "'fw runner \<Rightarrow> string \<Rightarrow> string \<Rightarrow> int \<Rightarrow> int \<Rightarrow> 'fw \<Rightarrow> 'fw" where
  "Apply run kind iface mtu configured st =
     (if configured = mss_Off then st else install run (Rules kind iface mtu configured) st)"

definition Remove :: "'fw runner \<Rightarrow> string \<Rightarrow> string \<Rightarrow> int \<Rightarrow> int \<Rightarrow> 'fw \<Rightarrow> 'fw" where
  "Remove run kind iface mtu configured st =
     (if configured = mss_Off then st else fold (sweep run) (Rules kind iface mtu configured) st)"

section \<open>The external program\<close>

text \<open>\<open>copies st cmd tbl chain spec\<close> counts the installed rules of that name; the two commands act on
  the rule they spell and on no other.\<close>

type_synonym 'fw counter = "'fw \<Rightarrow> string \<times> string \<times> string \<times> string list \<Rightarrow> nat"

definition iptables_ok :: "'fw runner \<Rightarrow> 'fw counter \<Rightarrow> bool" where
  "iptables_ok run copies \<longleftrightarrow>
     (\<forall>st cmd tbl chain spec. \<forall>st' ok.
        (run st cmd ([''-t'', tbl, ''-D'', chain] @ spec) = (st', ok) \<longrightarrow>
           ok = (copies st (cmd, tbl, chain, spec) \<noteq> 0) \<and>
           copies st' = (copies st)((cmd, tbl, chain, spec) := copies st (cmd, tbl, chain, spec) - 1)) \<and>
        (run st cmd ([''-t'', tbl, ''-A'', chain] @ spec) = (st', ok) \<longrightarrow>
           copies st' = (if ok then (copies st)((cmd, tbl, chain, spec) := copies st (cmd, tbl, chain, spec) + 1)
                         else copies st)))"

definition rule_key :: "rule \<Rightarrow> string \<times> string \<times> string \<times> string list" where
  "rule_key r = (r_Cmd r, r_Table r, r_Chain r, r_Spec r)"

lemma iptables_delete:
  "iptables_ok run copies \<Longrightarrow> run st (r_Cmd r) (rule_Args r ''-D'') = (st', ok) \<Longrightarrow>
   ok = (copies st (rule_key r) \<noteq> 0) \<and> copies st' = (copies st)(rule_key r := copies st (rule_key r) - 1)"
  unfolding iptables_ok_def rule_Args_def rule_key_def by blast

lemma iptables_add:
  "iptables_ok run copies \<Longrightarrow> run st (r_Cmd r) (rule_Args r ''-A'') = (st', ok) \<Longrightarrow>
   copies st' = (if ok then (copies st)(rule_key r := copies st (rule_key r) + 1) else copies st)"
  unfolding iptables_ok_def rule_Args_def rule_key_def by blast

lemma sweep_loop_copies:
  assumes "iptables_ok run copies"
  shows "copies (sweep_loop run (r_Cmd r) (rule_Args r ''-D'') n st)
     = (copies st)(rule_key r := copies st (rule_key r) - n)"
proof (induction n arbitrary: st)
  case (Suc n)
  obtain st' ok where d: "run st (r_Cmd r) (rule_Args r ''-D'') = (st', ok)" by fastforce
  show ?case using iptables_delete [OF assms d] d Suc by (cases ok) auto
qed simp

lemma sweep_copies:
  "iptables_ok run copies \<Longrightarrow> copies (sweep run r st) = (copies st)(rule_key r := copies st (rule_key r) - 1024)"
  unfolding sweep_def by (rule sweep_loop_copies)

lemma install_step:
  assumes "iptables_ok run copies" and "run (sweep run r st) (r_Cmd r) (rule_Args r ''-A'') = (st', b)"
  shows "copies st' = (copies st)(rule_key r := copies st (rule_key r) - 1024 + (if b then 1 else 0))"
  using iptables_add [OF assms] sweep_copies [OF assms(1), of r st] by simp

lemma install_other:
  assumes ok: "iptables_ok run copies"
  shows "k \<notin> rule_key ` set rs \<Longrightarrow> copies (install run rs st) k = copies st k"
proof (induction rs arbitrary: st)
  case (Cons r rs)
  obtain st' b where a: "run (sweep run r st) (r_Cmd r) (rule_Args r ''-A'') = (st', b)" by fastforce
  show ?case using Cons.IH [of st'] Cons.prems install_step [OF ok a] a by simp
qed simp

lemma install_own:
  assumes ok: "iptables_ok run copies"
  shows "k \<in> rule_key ` set rs \<Longrightarrow> distinct (map rule_key rs) \<Longrightarrow>
    copies (install run rs st) k \<le> copies st k - 1024 + 1"
proof (induction rs arbitrary: st)
  case (Cons r rs)
  obtain st' b where a: "run (sweep run r st) (r_Cmd r) (rule_Args r ''-A'') = (st', b)" by fastforce
  show ?case
  proof (cases "k = rule_key r")
    case True
    then show ?thesis using Cons.prems install_other [OF ok, of k rs st'] install_step [OF ok a] a by simp
  next
    case False
    then show ?thesis using Cons.IH [of st'] Cons.prems install_step [OF ok a] a by auto
  qed
qed simp

lemma Rules_distinct: "distinct (map rule_key (Rules kind iface mtu configured))"
  by (auto simp: Rules_def family_rules_def rule_key_def Let_def)

lemma sweeps_copies:
  assumes ok: "iptables_ok run copies"
  shows "distinct (map rule_key rs) \<Longrightarrow>
    copies (fold (sweep run) rs st) k = (if k \<in> rule_key ` set rs then copies st k - 1024 else copies st k)"
proof (induction rs arbitrary: st)
  case (Cons r rs)
  then show ?case using sweep_copies [OF ok, of r st] by auto
qed simp

section \<open>Properties\<close>

text \<open>Installing never accumulates: with at most 1024 stale copies of a rule, \<open>Apply\<close> leaves at
  most one of each of its rules, \<open>Remove\<close> leaves none, and neither touches any other rule. (Five
  hundred copies of one rule on a machine in the field are why the sweep exists.)\<close>

theorem clamp_does_not_accumulate:
  assumes "iptables_ok run copies" and "\<And>k. copies st k \<le> 1024" and "configured \<noteq> mss_Off"
  shows "(if k \<in> rule_key ` set (Rules kind iface mtu configured)
     then copies (Apply run kind iface mtu configured st) k \<le> 1 \<and>
          copies (Remove run kind iface mtu configured st) k = 0
     else copies (Apply run kind iface mtu configured st) k = copies st k \<and>
          copies (Remove run kind iface mtu configured st) k = copies st k)"
proof -
  let ?rs = "Rules kind iface mtu configured"
  have "copies (Apply run kind iface mtu configured st) k \<le> 1" if "k \<in> rule_key ` set ?rs"
    using install_own [OF assms(1) that Rules_distinct, of st] assms(2) [of k] assms(3) by (simp add: Apply_def)
  moreover have "copies (Apply run kind iface mtu configured st) k = copies st k" if "k \<notin> rule_key ` set ?rs"
    using install_other [OF assms(1) that] assms(3) by (simp add: Apply_def)
  moreover have "copies (Remove run kind iface mtu configured st) k = (if k \<in> rule_key ` set ?rs then 0 else copies st k)"
    using sweeps_copies [OF assms(1) Rules_distinct, of kind iface mtu configured st k] assms(2) [of k] assms(3)
    by (simp add: Remove_def)
  ultimately show ?thesis by simp
qed

text \<open>A list of installed rules, for the witness.\<close>

definition demo_run :: "(string \<times> string list) list runner" where
  "demo_run st cmd args =
     (if length args < 4 then (st, False)
      else if args ! 2 = ''-D'' then
        (let x = (cmd, args[2 := ''-A'']) in (remove1 x st, x \<in> set st))
      else (st @ [(cmd, args)], True))"

definition demo_copies :: "(string \<times> string list) list counter" where
  "demo_copies st = (\<lambda>(cmd, tbl, chain, spec). count (mset st) (cmd, [''-t'', tbl, ''-A'', chain] @ spec))"

lemma demo_iptables_ok: "iptables_ok demo_run demo_copies"
  by (auto simp: iptables_ok_def demo_run_def demo_copies_def Let_def fun_eq_iff numeral_eq_Suc)

theorem clamp_does_not_accumulate_witness:
  "demo_copies (Apply demo_run ''l3'' ''bp0'' 1400 0 []) (rule_key (hd (Rules ''l3'' ''bp0'' 1400 0))) \<le> 1"
proof -
  have "Rules ''l3'' ''bp0'' 1400 0 \<noteq> []"
    by (simp add: Rules_def family_rules_def mss_For_def OverheadV4_def)
  then show ?thesis
    using clamp_does_not_accumulate [OF demo_iptables_ok, of "[]" 0
        "rule_key (hd (Rules ''l3'' ''bp0'' 1400 0))" "''l3''" "''bp0''" 1400]
    by (simp add: demo_copies_def mss_Off_def case_prod_beta)
qed

definition clamp_fits :: "int \<Rightarrow> rule \<Rightarrow> bool" where
  "clamp_fits mtu r \<longleftrightarrow> r_MSS r + (if r_Cmd r = ''ip6tables'' then OverheadV6 else OverheadV4) \<le> mtu"

text \<open>When the clamp fits: the automatic value always fits the MTU in both families, but an
  explicit one, which is validated against the IPv4 headers only, leaves the IPv6 rules clamping to
  a segment that does not fit whenever it is above \<open>mtu - 60\<close>.\<close>

theorem clamp_fits_iff:
  "list_all (clamp_fits mtu) (Rules kind iface mtu configured) \<longleftrightarrow> configured \<le> mtu - OverheadV6 \<or> configured \<le> 0"
  by (auto simp: Rules_def family_rules_def mss_For_def clamp_fits_def OverheadV4_def OverheadV6_def Let_def)

end
