(* ===== verification/Portmap.thy ===== *)
theory Portmap
  imports GoStrings
begin

text \<open>
  The forwarded-port syntax of \<open>internal/tunnel/portmap/portmap.go\<close>: endpoints, ranges, several
  backends, and the expansion of a list of mapping strings into listeners and targets. Go's \<open>int\<close>
  is \<open>int\<close>: every number is a port or a count of ports.
\<close>

section \<open>Data\<close>

definition MaxPortsPerMapping :: int where "MaxPortsPerMapping = 1024"
definition MaxExpandedPorts :: nat where "MaxExpandedPorts = 4096"

record mapping =
  m_Listen :: string
  m_Targets :: "string list"

datatype portmap_error =
    emptyEndpoint | notBracketed string | looksLikeIPv6 string | notAPort string
  | rangeBackwards string | rangeTooWide string | rangeWithBackends string | backendIsRange string
  | countsDiffer string int int | noTargetHost | tooManyPorts

record portRange =
  pr_host :: string
  pr_lo :: int
  pr_hi :: int
  pr_hasHost :: bool
  pr_explicit :: bool

definition pr_count :: "portRange \<Rightarrow> int" where
  "pr_count r = pr_hi r - pr_lo r + 1"

section \<open>Parsing\<close>

definition parsePort :: "string \<Rightarrow> portmap_error + int" where
  "parsePort s =
     (case atoi (trim_space s) of
        Some n \<Rightarrow> if n < 1 \<or> n > 65535 then Inl (notAPort s) else Inr n
      | None \<Rightarrow> Inl (notAPort s))"

definition parsePortSpan :: "string \<Rightarrow> portmap_error + int \<times> int" where
  "parsePortSpan text =
     (let (lo, hi, found) = cut CHR ''-'' text in
      case parsePort lo of
        Inl e \<Rightarrow> Inl e
      | Inr start \<Rightarrow>
          if \<not> found then Inr (start, start)
          else (case parsePort hi of
                  Inl e \<Rightarrow> Inl e
                | Inr end' \<Rightarrow>
                    if end' < start then Inl (rangeBackwards text)
                    else if end' - start + 1 > MaxPortsPerMapping then Inl (rangeTooWide text)
                    else Inr (start, end')))"

text \<open>The host and port text of an endpoint.\<close>

definition split_endpoint :: "string \<Rightarrow> portmap_error + string \<times> string" where
  "split_endpoint text =
     (if text \<noteq> [] \<and> hd text = CHR ''['' then
        (let e = length (takeWhile (\<lambda>c. c \<noteq> CHR '']'') text) in
         if CHR '']'' \<notin> set text \<or> length text \<le> e + 1 \<or> text ! (e + 1) \<noteq> CHR '':''
         then Inl (notBracketed text)
         else Inr (slice 1 e text, drop (e + 2) text))
      else if CHR '':'' \<in> set text then
        (if 1 < count_list text CHR '':'' then Inl (looksLikeIPv6 text) else Inr (cut_last CHR '':'' text))
      else Inr ([], text))"

definition parsePortRange :: "string \<Rightarrow> portmap_error + portRange" where
  "parsePortRange text0 =
     (let text = trim_space text0 in
      if text = [] then Inl emptyEndpoint
      else case split_endpoint text of
             Inl e \<Rightarrow> Inl e
           | Inr (host, ports) \<Rightarrow>
               (case parsePortSpan ports of
                  Inl e \<Rightarrow> Inl e
                | Inr (lo, hi) \<Rightarrow>
                    Inr \<lparr>pr_host = host, pr_lo = lo, pr_hi = hi, pr_hasHost = (host \<noteq> []),
                         pr_explicit = (host \<noteq> [] \<or> CHR '':'' \<in> set text)\<rparr>))"

section \<open>Rendering and expanding\<close>

definition listenAddr :: "portRange \<Rightarrow> int \<Rightarrow> string" where
  "listenAddr r port =
     (if pr_hasHost r then join_host_port (pr_host r) (itoa port) else '':'' @ itoa port)"

definition targetAddr :: "portRange \<Rightarrow> int \<Rightarrow> string \<Rightarrow> portmap_error + string" where
  "targetAddr r port defaultHost =
     (if pr_host r = [] then
        (if defaultHost = [] then Inl noTargetHost else Inr (join_host_port defaultHost (itoa port)))
      else Inr (join_host_port (pr_host r) (itoa port)))"

fun expand_backends :: "string \<Rightarrow> string list \<Rightarrow> string \<Rightarrow> portmap_error + string list" where
  "expand_backends spec [] defaultHost = Inr []"
| "expand_backends spec (alt # alts) defaultHost =
     (case parsePortRange alt of
        Inl e \<Rightarrow> Inl e
      | Inr r \<Rightarrow>
          if pr_count r > 1 then Inl (backendIsRange spec)
          else (case targetAddr r (pr_lo r) defaultHost of
                  Inl e \<Rightarrow> Inl e
                | Inr a \<Rightarrow> (case expand_backends spec alts defaultHost of
                              Inl e \<Rightarrow> Inl e
                            | Inr as \<Rightarrow> Inr (a # as))))"

text \<open>The loop over the ports of a range, from index \<open>i\<close> with \<open>left\<close> ports to go.\<close>

fun expand_ports :: "portRange \<Rightarrow> portRange \<Rightarrow> string \<Rightarrow> int \<Rightarrow> nat \<Rightarrow> portmap_error + mapping list" where
  "expand_ports listen to defaultHost i 0 = Inr []"
| "expand_ports listen to defaultHost i (Suc left) =
     (let port = (if pr_count to > 1 then pr_lo to + i else pr_lo to) in
      case targetAddr to port defaultHost of
        Inl e \<Rightarrow> Inl e
      | Inr a \<Rightarrow> (case expand_ports listen to defaultHost (i + 1) left of
                    Inl e \<Rightarrow> Inl e
                  | Inr ms \<Rightarrow> Inr (\<lparr>m_Listen = listenAddr listen (pr_lo listen + i), m_Targets = [a]\<rparr> # ms)))"

definition expandOne :: "string \<Rightarrow> portRange \<Rightarrow> string \<Rightarrow> string \<Rightarrow> portmap_error + mapping list" where
  "expandOne spec listen target defaultHost =
     (let alternatives = split_on CHR ''|'' target in
      if length alternatives > 1 \<and> pr_count listen > 1 then Inl (rangeWithBackends spec)
      else if length alternatives > 1 then
        (case expand_backends spec alternatives defaultHost of
           Inl e \<Rightarrow> Inl e
         | Inr targets \<Rightarrow> Inr [\<lparr>m_Listen = listenAddr listen (pr_lo listen), m_Targets = targets\<rparr>])
      else
        (case parsePortRange target of
           Inl e \<Rightarrow> Inl e
         | Inr to \<Rightarrow>
             if pr_count to > 1 \<and> pr_count to \<noteq> pr_count listen
             then Inl (countsDiffer spec (pr_count listen) (pr_count to))
             else expand_ports listen to defaultHost 0 (nat (pr_count listen))))"

definition same_ports :: "portRange \<Rightarrow> string" where
  "same_ports r =
     (if pr_count r > 1 then itoa (pr_lo r) @ ''-'' @ itoa (pr_hi r) else itoa (pr_lo r))"

fun expand_from :: "mapping list \<Rightarrow> string list \<Rightarrow> string \<Rightarrow> portmap_error + mapping list" where
  "expand_from out [] defaultHost = Inr out"
| "expand_from out (spec0 # specs) defaultHost =
     (let spec = trim_space spec0 in
      if spec = [] then expand_from out specs defaultHost
      else let (left, right, hasTarget) = cut CHR ''='' spec in
        case parsePortRange left of
          Inl e \<Rightarrow> Inl e
        | Inr listen \<Rightarrow>
            (case expandOne spec listen (if hasTarget then right else same_ports listen) defaultHost of
               Inl e \<Rightarrow> Inl e
             | Inr ms \<Rightarrow>
                 if length (out @ ms) > MaxExpandedPorts then Inl tooManyPorts
                 else expand_from (out @ ms) specs defaultHost))"

definition Expand :: "string list \<Rightarrow> string \<Rightarrow> portmap_error + mapping list" where
  "Expand specs defaultHost = expand_from [] specs defaultHost"

section \<open>Lemmas\<close>

definition range_ok :: "portRange \<Rightarrow> bool" where
  "range_ok r \<longleftrightarrow> 1 \<le> pr_lo r \<and> pr_lo r \<le> pr_hi r \<and> pr_hi r \<le> 65535 \<and> pr_count r \<le> MaxPortsPerMapping"

lemma parsePort_range: "parsePort s = Inr n \<Longrightarrow> 1 \<le> n \<and> n \<le> 65535"
  by (auto simp: parsePort_def split: option.splits if_splits)

lemma parsePortSpan_ok:
  assumes "parsePortSpan s = Inr (lo, hi)"
  shows "1 \<le> lo \<and> lo \<le> hi \<and> hi \<le> 65535 \<and> hi - lo + 1 \<le> MaxPortsPerMapping"
  using assms parsePort_range
  by (fastforce simp: parsePortSpan_def MaxPortsPerMapping_def split: prod.splits sum.splits if_splits)

lemma parsePortRange_ok: "parsePortRange s = Inr r \<Longrightarrow> range_ok r"
  using parsePortSpan_ok
  by (fastforce simp: parsePortRange_def Let_def range_ok_def pr_count_def split: sum.splits if_splits prod.splits)

text \<open>What a mapping must look like: a bindable address, and dialable targets.\<close>

definition port_ok :: "int \<Rightarrow> bool" where "port_ok p \<longleftrightarrow> 1 \<le> p \<and> p \<le> 65535"

definition listen_ok :: "string \<Rightarrow> bool" where
  "listen_ok s \<longleftrightarrow> (\<exists>p. port_ok p \<and> (s = '':'' @ itoa p \<or> (\<exists>h. h \<noteq> [] \<and> s = join_host_port h (itoa p))))"

definition target_ok :: "string \<Rightarrow> bool" where
  "target_ok s \<longleftrightarrow> (\<exists>h p. h \<noteq> [] \<and> port_ok p \<and> s = join_host_port h (itoa p))"

definition mapping_ok :: "mapping \<Rightarrow> bool" where
  "mapping_ok m \<longleftrightarrow> listen_ok (m_Listen m) \<and> m_Targets m \<noteq> [] \<and> list_all target_ok (m_Targets m)"

lemma parsePortRange_host: "parsePortRange s = Inr r \<Longrightarrow> pr_hasHost r \<longleftrightarrow> pr_host r \<noteq> []"
  by (auto simp: parsePortRange_def Let_def split: sum.splits if_splits)

lemma listenAddr_ok: "parsePortRange s = Inr r \<Longrightarrow> port_ok p \<Longrightarrow> listen_ok (listenAddr r p)"
  using parsePortRange_host [of s r] by (auto simp: listenAddr_def listen_ok_def)

lemma targetAddr_ok: "targetAddr r p d = Inr a \<Longrightarrow> port_ok p \<Longrightarrow> target_ok a"
  by (auto simp: targetAddr_def target_ok_def split: if_splits)

lemma expand_backends_ok:
  "expand_backends spec alts d = Inr ts \<Longrightarrow> length ts = length alts \<and> list_all target_ok ts"
proof (induction alts arbitrary: ts)
  case (Cons alt alts)
  then obtain r a as where r: "parsePortRange alt = Inr r" "targetAddr r (pr_lo r) d = Inr a"
    "expand_backends spec alts d = Inr as" "ts = a # as"
    by (auto split: sum.splits if_splits)
  have "port_ok (pr_lo r)" using parsePortRange_ok [OF r(1)] by (simp add: range_ok_def port_ok_def)
  then show ?case using Cons.IH [OF r(3)] targetAddr_ok [OF r(2)] r(4) by simp
qed simp

lemma expand_ports_ok:
  assumes "parsePortRange s = Inr listen" "range_ok to" "pr_count to > 1 \<Longrightarrow> pr_count to = pr_count listen"
  shows "expand_ports listen to d i n = Inr ms \<Longrightarrow> 0 \<le> i \<Longrightarrow> i + int n \<le> pr_count listen \<Longrightarrow>
    length ms = n \<and> list_all mapping_ok ms"
proof (induction n arbitrary: i ms)
  case (Suc n)
  define port where "port = (if pr_count to > 1 then pr_lo to + i else pr_lo to)"
  obtain a ms' where a: "targetAddr to port d = Inr a" "expand_ports listen to d (i + 1) n = Inr ms'"
    "ms = \<lparr>m_Listen = listenAddr listen (pr_lo listen + i), m_Targets = [a]\<rparr> # ms'"
    using Suc.prems(1) by (auto simp: port_def [symmetric] Let_def split: sum.splits)
  have "port_ok port" using assms(2,3) Suc.prems(2,3) by (auto simp: port_def port_ok_def range_ok_def pr_count_def)
  moreover have "port_ok (pr_lo listen + i)"
    using parsePortRange_ok [OF assms(1)] Suc.prems(2,3) by (simp add: port_ok_def range_ok_def pr_count_def)
  ultimately have "mapping_ok (hd ms)"
    using listenAddr_ok [OF assms(1)] targetAddr_ok [OF a(1)] a(3) by (simp add: mapping_ok_def)
  then show ?case using Suc.IH [OF a(2)] Suc.prems a(3) by simp
qed simp

lemma expandOne_ok:
  assumes l: "parsePortRange s = Inr listen" and e: "expandOne spec listen target d = Inr ms"
  shows "list_all mapping_ok ms"
proof (cases "length (split_on CHR ''|'' target) > 1")
  case True
  then obtain ts where ts: "expand_backends spec (split_on CHR ''|'' target) d = Inr ts"
    "ms = [\<lparr>m_Listen = listenAddr listen (pr_lo listen), m_Targets = ts\<rparr>]"
    using e by (auto simp: expandOne_def Let_def split: sum.splits if_splits)
  have "port_ok (pr_lo listen)" using parsePortRange_ok [OF l] by (simp add: range_ok_def port_ok_def)
  then show ?thesis
    using expand_backends_ok [OF ts(1)] ts(2) listenAddr_ok [OF l] True by (cases ts) (auto simp: mapping_ok_def)
next
  case False
  then obtain to where to: "parsePortRange target = Inr to" "pr_count to > 1 \<Longrightarrow> pr_count to = pr_count listen"
    "expand_ports listen to d 0 (nat (pr_count listen)) = Inr ms"
    using e by (auto simp: expandOne_def Let_def split: sum.splits if_splits)
  show ?thesis
    using expand_ports_ok [OF l parsePortRange_ok [OF to(1)] to(2) to(3)] parsePortRange_ok [OF l]
    by (simp add: range_ok_def pr_count_def)
qed

lemma expand_from_ok:
  "expand_from out specs d = Inr ms \<Longrightarrow> list_all mapping_ok out \<Longrightarrow> length out \<le> MaxExpandedPorts \<Longrightarrow>
   list_all mapping_ok ms \<and> length ms \<le> MaxExpandedPorts"
proof (induction out specs d rule: expand_from.induct)
  case (2 out spec0 specs d)
  show ?case
  proof (cases "trim_space spec0 = []")
    case True
    then show ?thesis using 2 by simp
  next
    case False
    obtain left right hasT where c: "cut CHR ''='' (trim_space spec0) = (left, right, hasT)"
      by (cases "cut CHR ''='' (trim_space spec0)") auto
    obtain listen new where l: "parsePortRange left = Inr listen"
      and n: "expandOne (trim_space spec0) listen (if hasT then right else same_ports listen) d = Inr new"
      and len: "length (out @ new) \<le> MaxExpandedPorts" and rest: "expand_from (out @ new) specs d = Inr ms"
      using 2(3) False c by (auto simp: Let_def not_less split: sum.splits if_splits)
    show ?thesis
      using "2.IH"(2) [OF refl False c [symmetric] refl refl l n] rest expandOne_ok [OF l n] 2(4) len by simp
  qed
qed simp

text \<open>Reading back a rendered range of ports.\<close>

lemma itoa_nonneg: "0 \<le> i \<Longrightarrow> itoa i = show_nat (nat i)"
  by (simp add: itoa_def)

lemma show_nat_char: "ch \<in> set (show_nat n) \<Longrightarrow> is_digit ch"
  using show_nat_digits [of n] by (simp add: list_all_iff)

lemma itoa_no_sep:
  assumes "0 \<le> i" and "ch \<in> {CHR ''-'', CHR ''='', CHR '':'', CHR ''['', CHR '']'', CHR ''|''}"
  shows "ch \<notin> set (itoa i)"
proof
  assume "ch \<in> set (itoa i)"
  then have "is_digit ch" using assms(1) show_nat_char by (simp add: itoa_nonneg)
  then show False using assms(2) by (auto simp: is_digit_def)
qed

lemma itoa_ends: "0 \<le> i \<Longrightarrow> itoa i \<noteq> [] \<and> solid (hd (itoa i)) \<and> solid (last (itoa i))"
  using show_nat_char [OF hd_in_set [OF show_nat_ne]] show_nat_char [OF last_in_set [OF show_nat_ne]]
  by (simp add: itoa_nonneg is_digit_solid)

lemma trim_itoa: "0 \<le> i \<Longrightarrow> trim_space (itoa i) = itoa i"
  using itoa_ends [of i] by (intro trim_space_solid) auto

lemma parsePort_itoa: "port_ok n \<Longrightarrow> parsePort (itoa n) = Inr n"
  by (simp add: parsePort_def port_ok_def trim_itoa atoi_itoa)

definition span_text :: "int \<Rightarrow> int \<Rightarrow> string" where
  "span_text lo hi = itoa lo @ ''-'' @ itoa hi"

lemma parsePortSpan_text:
  assumes "port_ok lo" "port_ok hi" "lo \<le> hi" "hi - lo + 1 \<le> MaxPortsPerMapping"
  shows "parsePortSpan (span_text lo hi) = Inr (lo, hi)"
proof -
  have "cut CHR ''-'' (span_text lo hi) = (itoa lo, itoa hi, True)"
    using cut_first [of "CHR ''-''" "itoa lo" "itoa hi"] itoa_no_sep [of lo "CHR ''-''"] assms(1)
    by (simp add: span_text_def port_ok_def)
  then show ?thesis using assms by (simp add: parsePortSpan_def parsePort_itoa)
qed

lemma span_text_sep:
  assumes "port_ok lo" "port_ok hi" "ch \<in> {CHR ''='', CHR '':'', CHR ''['', CHR '']'', CHR ''|''}"
  shows "ch \<notin> set (span_text lo hi)"
  using assms itoa_no_sep [of lo ch] itoa_no_sep [of hi ch] by (auto simp: span_text_def port_ok_def)

lemma span_text_ends:
  assumes "port_ok lo" "port_ok hi"
  shows "span_text lo hi \<noteq> [] \<and> solid (hd (span_text lo hi)) \<and> solid (last (span_text lo hi))"
  using assms itoa_ends [of lo] itoa_ends [of hi] by (auto simp: span_text_def port_ok_def)

lemma trim_span_text: "port_ok lo \<Longrightarrow> port_ok hi \<Longrightarrow> trim_space (span_text lo hi) = span_text lo hi"
  using span_text_ends by (intro trim_space_solid) auto

lemma parsePortRange_text:
  assumes "port_ok lo" "port_ok hi" "lo \<le> hi" "hi - lo + 1 \<le> MaxPortsPerMapping"
  shows "parsePortRange (span_text lo hi) =
    Inr \<lparr>pr_host = [], pr_lo = lo, pr_hi = hi, pr_hasHost = False, pr_explicit = False\<rparr>"
proof -
  have ne: "span_text lo hi \<noteq> []" using span_text_ends assms by blast
  have "hd (span_text lo hi) \<noteq> CHR ''[''"
    using span_text_sep [OF assms(1,2), of "CHR ''[''"] ne hd_in_set by fastforce
  then have "split_endpoint (span_text lo hi) = Inr ([], span_text lo hi)"
    using span_text_sep [OF assms(1,2), of "CHR '':''"] by (simp add: split_endpoint_def)
  then show ?thesis
    using parsePortSpan_text [OF assms] ne span_text_sep [OF assms(1,2), of "CHR '':''"] assms
    by (simp add: parsePortRange_def trim_span_text)
qed

text \<open>The mappings a pair of equally long ranges stands for.\<close>

definition offset_mappings :: "int \<Rightarrow> int \<Rightarrow> nat \<Rightarrow> string \<Rightarrow> mapping list" where
  "offset_mappings lo to n d =
     map (\<lambda>i. \<lparr>m_Listen = '':'' @ itoa (lo + int i), m_Targets = [join_host_port d (itoa (to + int i))]\<rparr>) [0..<n]"

lemma offset_mappings_Suc:
  "offset_mappings lo to (Suc n) d =
     \<lparr>m_Listen = '':'' @ itoa lo, m_Targets = [join_host_port d (itoa to)]\<rparr> # offset_mappings (lo + 1) (to + 1) n d"
  by (simp add: offset_mappings_def upt_conv_Cons map_Suc_upt [symmetric] add.assoc del: upt_Suc)

lemma expand_ports_offset:
  assumes "d \<noteq> []" "pr_count to > 1" "pr_host to = []" "\<not> pr_hasHost listen"
  shows "expand_ports listen to d i n = Inr (offset_mappings (pr_lo listen + i) (pr_lo to + i) n d)"
proof (induction n arbitrary: i)
  case 0
  show ?case by (simp add: offset_mappings_def)
next
  case (Suc n)
  then show ?case using assms
    by (simp add: offset_mappings_Suc targetAddr_def listenAddr_def add.assoc del: upt_Suc)
qed

lemma Expand_one:
  assumes "trim_space spec = spec" "spec \<noteq> []" "cut CHR ''='' spec = (left, right, True)"
    and "parsePortRange left = Inr listen" "expandOne spec listen right d = Inr ms" "length ms \<le> 4096"
  shows "Expand [spec] d = Inr ms"
  using assms by (simp add: Expand_def MaxExpandedPorts_def)

lemma Expand_range_pair:
  assumes "1 \<le> lo" "1 \<le> to" "1 < n" "n \<le> 1024" "lo + int n \<le> 65536" "to + int n \<le> 65536" "d \<noteq> []"
  shows "Expand [span_text lo (lo + int n - 1) @ ''='' @ span_text to (to + int n - 1)] d
     = Inr (offset_mappings lo to n d)"
proof -
  let ?a = "span_text lo (lo + int n - 1)" and ?b = "span_text to (to + int n - 1)"
  have p: "port_ok lo" "port_ok (lo + int n - 1)" "port_ok to" "port_ok (to + int n - 1)"
    using assms by (auto simp: port_ok_def)
  have w: "lo \<le> lo + int n - 1" "to \<le> to + int n - 1" "lo + int n - 1 - lo + 1 \<le> MaxPortsPerMapping"
    "to + int n - 1 - to + 1 \<le> MaxPortsPerMapping"
    using assms by (auto simp: MaxPortsPerMapping_def)
  have t: "trim_space (?a @ ''='' @ ?b) = ?a @ ''='' @ ?b"
    using span_text_ends [OF p(1,2)] span_text_ends [OF p(3,4)] by (intro trim_space_solid) auto
  have c: "cut CHR ''='' (?a @ ''='' @ ?b) = (?a, ?b, True)"
    using cut_first [of "CHR ''=''" ?a ?b] span_text_sep [OF p(1,2)] by simp
  have "split_on CHR ''|'' ?b = [?b]" using span_text_sep [OF p(3,4)] by (simp add: split_on_absent)
  then have "expandOne (?a @ ''='' @ ?b) \<lparr>pr_host = [], pr_lo = lo, pr_hi = lo + int n - 1, pr_hasHost = False,
      pr_explicit = False\<rparr> ?b d = Inr (offset_mappings lo to n d)"
    using parsePortRange_text [OF p(3,4) w(2,4)] assms(3,7)
    by (simp add: expandOne_def pr_count_def expand_ports_offset)
  then show ?thesis
    using Expand_one [OF t _ c parsePortRange_text [OF p(1,2) w(1,3)]] assms(4) by (simp add: offset_mappings_def)
qed

section \<open>Properties\<close>

text \<open>Whatever text is configured, an accepted set of mappings is one the forwarder can serve:
  at most 4096 listeners, each with a bindable address, at least one target, every target with
  a host, and every port between 1 and 65535.\<close>

theorem Expand_sound:
  assumes "Expand specs d = Inr ms"
  shows "list_all mapping_ok ms \<and> length ms \<le> 4096"
  using expand_from_ok [of "[]" specs d ms] assms by (simp add: Expand_def MaxExpandedPorts_def)

theorem Expand_sound_witness:
  "list_all mapping_ok (offset_mappings 10000 20000 10 ''10.0.0.2'') \<and> length (offset_mappings 10000 20000 10 ''10.0.0.2'') \<le> 4096"
  by (rule Expand_sound [of "[span_text 10000 10009 @ ''='' @ span_text 20000 20009]" "''10.0.0.2''"])
    (use Expand_range_pair [of 10000 20000 10 "''10.0.0.2''"] in simp)

text \<open>A pair of ranges keeps the offset: \<open>"lo-hi=to-to'"\<close> of \<open>n\<close> ports expands to exactly \<open>n\<close>
  listeners, the \<open>i\<close>-th forwarding port \<open>lo + i\<close> to port \<open>to + i\<close> of the default host.\<close>

theorem Expand_keeps_offset:
  assumes "1 \<le> lo" "1 \<le> to" "1 < n" "n \<le> 1024" "lo + int n \<le> 65536" "to + int n \<le> 65536" "d \<noteq> []" "i < n"
  shows "\<exists>ms. Expand [span_text lo (lo + int n - 1) @ ''='' @ span_text to (to + int n - 1)] d = Inr ms \<and> length ms = n \<and>
     m_Listen (ms ! i) = '':'' @ itoa (lo + int i) \<and> m_Targets (ms ! i) = [join_host_port d (itoa (to + int i))]"
  using Expand_range_pair [OF assms(1-7)] assms(8) by (simp add: offset_mappings_def)

theorem Expand_keeps_offset_witness:
  "\<exists>ms. Expand [span_text 10000 (10000 + int 10 - 1) @ ''='' @ span_text 20000 (20000 + int 10 - 1)] ''10.0.0.2'' = Inr ms \<and>
     length ms = 10 \<and> m_Listen (ms ! 5) = '':'' @ itoa (10000 + int 5) \<and>
     m_Targets (ms ! 5) = [join_host_port ''10.0.0.2'' (itoa (20000 + int 5))]"
  by (rule Expand_keeps_offset) simp_all

end
