(* ===== verification/Fec.thy ===== *)
theory Fec
  imports Prelude "HOL-Library.Multiset"
begin

text \<open>
  Forward error correction as a carrier around a carrier (\<open>internal/tunnel/l3/fec.go\<close>):
  \<open>FECConfig\<close>, the 6-byte header, the sending side (\<open>WriteTo\<close>, \<open>flushParity\<close>) and the receiving
  side (\<open>ReadFrom\<close>, \<open>takePending\<close>, \<open>absorb\<close>, \<open>rebuild\<close>, \<open>evict\<close>).

  The Reed-Solomon encoder is a library: \<open>encode\<close> and \<open>reconstruct\<close> are arguments, and what
  the code relies on is the hypothesis \<open>rs_ok\<close>. The carrier below is an argument too: \<open>below\<close>
  tells whether a write succeeds, and the datagrams it reads are a list. A Go \<open>nil\<close> slice is
  \<open>None\<close>; appending an empty body to \<open>nil\<close> gives \<open>nil\<close>, so an empty shard is stored as \<open>None\<close>.
  A result of \<open>None\<close> from \<open>absorb\<close> is the run-time panic of an index out of range.
\<close>

section \<open>Configuration and framing\<close>

definition fecHeaderLen :: nat where "fecHeaderLen = 6"
definition fecLenPrefix :: nat where "fecLenPrefix = 2"
definition fecKindData :: byte where "fecKindData = 0"
definition fecKindParity :: byte where "fecKindParity = 1"
definition fecOverhead :: nat where "fecOverhead = fecHeaderLen + fecLenPrefix"
definition fecWindow :: nat where "fecWindow = 16"

lemmas fec_consts = fecHeaderLen_def fecLenPrefix_def fecKindData_def fecKindParity_def

record fec_config =
  fc_data :: int
  fc_parity :: int

datatype fec_error = fecHalfConfigured int int | fecTooManyShards int | fecParityNotSmaller int int

definition fec_Enabled :: "fec_config \<Rightarrow> bool" where
  "fec_Enabled f \<longleftrightarrow> fc_data f > 0 \<and> fc_parity f > 0"

definition fec_Validate :: "fec_config \<Rightarrow> fec_error + unit" where
  "fec_Validate f =
     (if \<not> fec_Enabled f then
        (if fc_data f \<noteq> 0 \<or> fc_parity f \<noteq> 0 then Inl (fecHalfConfigured (fc_data f) (fc_parity f)) else Inr ())
      else if fc_data f + fc_parity f > 256 then Inl (fecTooManyShards (fc_data f + fc_parity f))
      else if fc_parity f \<ge> fc_data f then Inl (fecParityNotSmaller (fc_parity f) (fc_data f))
      else Inr ())"

definition putFECHeader :: "byte \<Rightarrow> u32 \<Rightarrow> byte \<Rightarrow> bytes" where
  "putFECHeader kind grp index = kind # be_put 4 grp @ [index]"

definition parseFECHeader :: "bytes \<Rightarrow> ((byte \<times> u32 \<times> byte) \<times> bytes) option" where
  "parseFECHeader buf =
     (if length buf < fecHeaderLen then None
      else if buf ! 0 \<noteq> fecKindData \<and> buf ! 0 \<noteq> fecKindParity then None
      else Some ((buf ! 0, be_get (slice 1 5 buf), buf ! 5), drop fecHeaderLen buf))"

definition trimShard :: "bytes \<Rightarrow> bytes option" where
  "trimShard shard =
     (if length shard < fecLenPrefix then None
      else let n = unat (be_get (take fecLenPrefix shard) :: u16) in
        if n > length shard - fecLenPrefix then None
        else Some (slice fecLenPrefix (fecLenPrefix + n) shard))"

text \<open>\<open>make([]byte, sz)\<close> with a \<open>copy\<close> over its front.\<close>

definition pad_to :: "nat \<Rightarrow> bytes \<Rightarrow> bytes" where
  "pad_to sz bs = copy_at 0 bs (replicate sz 0)"

section \<open>The sending side\<close>

text \<open>\<open>nd\<close> and \<open>np\<close> are \<open>cfg.Data\<close> and \<open>cfg.Parity\<close>.\<close>

record 'a fec_send =
  sendGrp :: u32
  sendIdx :: nat
  sendPad :: "bytes list option"
  sendMax :: nat
  sendPeer :: "'a option"

definition fec_send_init :: "'a fec_send" where
  "fec_send_init = \<lparr>sendGrp = 0, sendIdx = 0, sendPad = None, sendMax = 0, sendPeer = None\<rparr>"

definition mk_shard :: "bytes \<Rightarrow> bytes" where
  "mk_shard p = be_put 2 (word_of_nat (length p) :: u16) @ p"

definition flushParity ::
  "(bytes list \<Rightarrow> bytes list option) \<Rightarrow> nat \<Rightarrow> nat \<Rightarrow> 'a fec_send \<Rightarrow> 'a fec_send \<times> (bytes \<times> 'a option) list" where
  "flushParity encode nd np c =
     (let next = c\<lparr>sendGrp := sendGrp c + 1, sendIdx := 0, sendMax := 0, sendPad := None\<rparr>;
          sz = sendMax c; pad = (case sendPad c of None \<Rightarrow> [] | Some x \<Rightarrow> x)
      in if sz = 0 then (next, [])
         else let shards = map (\<lambda>i. pad_to sz (pad ! i)) [0..<nd] @ replicate np (replicate sz 0)
              in case encode shards of
                   None \<Rightarrow> (next, [])
                 | Some sh \<Rightarrow>
                     (next, map (\<lambda>i. (putFECHeader fecKindParity (sendGrp c) (word_of_nat i)
                                       @ pad_to sz (sh ! i), sendPeer c)) [nd..<nd + np]))"

definition fec_WriteTo ::
  "(bytes list \<Rightarrow> bytes list option) \<Rightarrow> nat \<Rightarrow> nat \<Rightarrow> (bytes \<Rightarrow> 'a option \<Rightarrow> bool) \<Rightarrow>
   'a fec_send \<Rightarrow> bytes \<Rightarrow> 'a option \<Rightarrow> 'a fec_send \<times> (bytes \<times> 'a option) list \<times> nat option" where
  "fec_WriteTo encode nd np below c p addr =
     (let pad = (case sendPad c of None \<Rightarrow> replicate (nd + np) [] | Some x \<Rightarrow> x);
          shard = mk_shard p;
          out = putFECHeader fecKindData (sendGrp c) (word_of_nat (sendIdx c)) @ shard;
          c1 = c\<lparr>sendPad := Some (pad[sendIdx c := shard]),
                sendMax := (if length shard > sendMax c then length shard else sendMax c),
                sendPeer := addr, sendIdx := sendIdx c + 1\<rparr>;
          (c2, parity) = (if sendIdx c1 = nd then flushParity encode nd np c1 else (c1, []))
      in (c2, (out, addr) # parity, if below out addr then Some (length p) else None))"

section \<open>The receiving side\<close>

record 'a fec_group =
  g_shards :: "bytes option list"
  g_haveData :: nat
  g_haveTotal :: nat
  g_size :: nat
  g_delivered :: "bool list"
  g_done :: bool
  g_addr :: 'a

record 'a fec_recv =
  fr_groups :: "u32 \<rightharpoonup> 'a fec_group"
  fr_order :: "u32 list"
  fr_pending :: "(bytes \<times> 'a) list"

definition fec_recv_init :: "'a fec_recv" where
  "fec_recv_init = \<lparr>fr_groups = Map.empty, fr_order = [], fr_pending = []\<rparr>"

definition new_group :: "nat \<Rightarrow> nat \<Rightarrow> 'a \<Rightarrow> 'a fec_group" where
  "new_group nd np addr =
     \<lparr>g_shards = replicate (nd + np) None, g_haveData = 0, g_haveTotal = 0, g_size = 0,
      g_delivered = replicate nd False, g_done = False, g_addr = addr\<rparr>"

fun evict_loop :: "(u32 \<rightharpoonup> 'a fec_group) \<Rightarrow> u32 list \<Rightarrow> (u32 \<rightharpoonup> 'a fec_group) \<times> u32 list" where
  "evict_loop gs [] = (gs, [])"
| "evict_loop gs (oldest # rest) =
     (if length (oldest # rest) > fecWindow then evict_loop (gs(oldest := None)) rest else (gs, oldest # rest))"

definition evict :: "'a fec_recv \<Rightarrow> 'a fec_recv" where
  "evict c = (let (gs, ord) = evict_loop (fr_groups c) (fr_order c) in c\<lparr>fr_groups := gs, fr_order := ord\<rparr>)"

text \<open>The widening loop of \<open>rebuild\<close>: \<open>None\<close> when a shard is wider than the group.\<close>

fun widen :: "nat \<Rightarrow> bytes option list \<Rightarrow> bytes option list option" where
  "widen sz [] = Some []"
| "widen sz (None # ss) = map_option ((#) None) (widen sz ss)"
| "widen sz (Some s # ss) =
     (if length s = sz then map_option ((#) (Some s)) (widen sz ss)
      else if length s > sz then None
      else map_option ((#) (Some (pad_to sz s))) (widen sz ss))"

text \<open>The loop that hands up what was missing, from data shard \<open>i\<close> on.\<close>

fun hand_up :: "'a \<Rightarrow> nat \<Rightarrow> bytes option list \<Rightarrow> bool list \<Rightarrow> bool list \<times> (bytes \<times> 'a) list" where
  "hand_up addr 0 work dl = (dl, [])"
| "hand_up addr (Suc k) (w # work) (d # dl) =
     (let (dl', out) = hand_up addr k work dl in
      if d then (d # dl', out)
      else case w of
             None \<Rightarrow> (d # dl', out)
           | Some s \<Rightarrow> (case trimShard s of
                          None \<Rightarrow> (d # dl', out)
                        | Some payload \<Rightarrow> (True # dl', (payload, addr) # out)))"
| "hand_up addr k _ dl = (dl, [])"

definition rebuild ::
  "(bytes option list \<Rightarrow> bytes option list option) \<Rightarrow> nat \<Rightarrow> 'a fec_group \<Rightarrow> 'a fec_group \<times> (bytes \<times> 'a) list" where
  "rebuild reconstruct nd g =
     (if g_done g \<or> g_haveData g = nd \<or> g_haveTotal g < nd \<or> g_size g = 0 then (g, [])
      else case widen (g_size g) (g_shards g) of
             None \<Rightarrow> (g, [])
           | Some work \<Rightarrow>
               (case reconstruct work of
                  None \<Rightarrow> (g, [])
                | Some work' \<Rightarrow>
                    (let (dl, out) = hand_up (g_addr g) nd work' (g_delivered g)
                     in (g\<lparr>g_done := True, g_delivered := dl\<rparr>, out))))"

definition file_shard :: "nat \<Rightarrow> byte \<Rightarrow> nat \<Rightarrow> bytes \<Rightarrow> 'a fec_group \<Rightarrow> 'a fec_group" where
  "file_shard nd kind i body g =
     (if g_shards g ! i = None then
        g\<lparr>g_shards := (g_shards g)[i := (if body = [] then None else Some body)],
          g_haveTotal := g_haveTotal g + 1,
          g_haveData := (if i < nd then g_haveData g + 1 else g_haveData g),
          g_size := (if kind = fecKindParity \<and> g_size g = 0 then length body else g_size g)\<rparr>
      else g)"

definition absorb ::
  "(bytes option list \<Rightarrow> bytes option list option) \<Rightarrow> nat \<Rightarrow> nat \<Rightarrow> 'a fec_recv \<Rightarrow>
   byte \<Rightarrow> u32 \<Rightarrow> byte \<Rightarrow> bytes \<Rightarrow> 'a \<Rightarrow> ('a fec_recv \<times> bytes option) option" where
  "absorb reconstruct nd np c kind grp index body addr =
     (let i = unat index in
      if nd + np \<le> i then Some (c, None)
      else
        let c1 = (case fr_groups c grp of
                    Some g \<Rightarrow> c
                  | None \<Rightarrow> evict (c\<lparr>fr_groups := (fr_groups c)(grp \<mapsto> new_group nd np addr),
                                     fr_order := fr_order c @ [grp]\<rparr>));
            g0 = (case fr_groups c grp of Some g \<Rightarrow> g | None \<Rightarrow> new_group nd np addr);
            g1 = file_shard nd kind i body g0
        in if kind = fecKindData \<and> length (g_delivered g1) \<le> i then None
           else
             let fresh = (kind = fecKindData \<and> \<not> g_delivered g1 ! i);
                 g2 = (if fresh then g1\<lparr>g_delivered := (g_delivered g1)[i := True]\<rparr> else g1);
                 deliver = (if fresh then trimShard body else None);
                 (g3, ready) = rebuild reconstruct nd g2
             in Some (c1\<lparr>fr_groups := (fr_groups c1)(grp \<mapsto> g3),
                        fr_pending := fr_pending c1 @ ready\<rparr>, deliver))"

definition takePending :: "nat \<Rightarrow> 'a fec_recv \<Rightarrow> ('a fec_recv \<times> bytes \<times> 'a) option" where
  "takePending cap c =
     (case fr_pending c of
        [] \<Rightarrow> None
      | (d, a) # rest \<Rightarrow> Some (c\<lparr>fr_pending := rest\<rparr>, take cap d, a))"

text \<open>\<open>ReadFrom\<close> over the datagrams the carrier below still has to give: it stops at the first one
  that yields a packet, and when none is left the read blocks (\<open>None\<close> as the packet).\<close>

fun fec_read_loop ::
  "(bytes option list \<Rightarrow> bytes option list option) \<Rightarrow> nat \<Rightarrow> nat \<Rightarrow> nat \<Rightarrow> 'a fec_recv \<Rightarrow>
   (bytes \<times> 'a) list \<Rightarrow> ('a fec_recv \<times> (bytes \<times> 'a) list \<times> (bytes \<times> 'a) option) option" where
  "fec_read_loop reconstruct nd np cap c [] = Some (c, [], None)"
| "fec_read_loop reconstruct nd np cap c ((buf, addr) # rest) =
     (case parseFECHeader buf of
        None \<Rightarrow> fec_read_loop reconstruct nd np cap c rest
      | Some ((kind, grp, index), body) \<Rightarrow>
          (case absorb reconstruct nd np c kind grp index body addr of
             None \<Rightarrow> None
           | Some (c', Some payload) \<Rightarrow> Some (c', rest, Some (take cap payload, addr))
           | Some (c', None) \<Rightarrow>
               (case takePending cap c' of
                  Some (c'', d, a) \<Rightarrow> Some (c'', rest, Some (d, a))
                | None \<Rightarrow> fec_read_loop reconstruct nd np cap c' rest)))"

definition fec_ReadFrom ::
  "(bytes option list \<Rightarrow> bytes option list option) \<Rightarrow> nat \<Rightarrow> nat \<Rightarrow> nat \<Rightarrow> 'a fec_recv \<Rightarrow>
   (bytes \<times> 'a) list \<Rightarrow> ('a fec_recv \<times> (bytes \<times> 'a) list \<times> (bytes \<times> 'a) option) option" where
  "fec_ReadFrom reconstruct nd np cap c incoming =
     (case takePending cap c of
        Some (c', d, a) \<Rightarrow> Some (c', incoming, Some (d, a))
      | None \<Rightarrow> fec_read_loop reconstruct nd np cap c incoming)"

section \<open>Framing lemmas\<close>

definition fec_kind_ok :: "byte \<times> u32 \<times> byte \<Rightarrow> bool" where
  "fec_kind_ok = (\<lambda>(kind, _, _). kind = fecKindData \<or> kind = fecKindParity)"

definition fec_frame :: "byte \<times> u32 \<times> byte \<Rightarrow> bytes \<Rightarrow> bytes" where
  "fec_frame = (\<lambda>(kind, grp, index) body. putFECHeader kind grp index @ body)"

lemma length_putFECHeader [simp, codec_simps]: "length (putFECHeader k g i) = 6"
  by (simp add: putFECHeader_def)

lemma parse_fec_frame: "fec_kind_ok h \<Longrightarrow> parseFECHeader (fec_frame h p) = Some (h, p)"
proof -
  obtain k g i where h: "h = (k, g, i)" by (cases h)
  assume "fec_kind_ok h"
  moreover have "slice 1 5 (putFECHeader k g i @ p) = be_put 4 g"
    by (simp add: putFECHeader_def slice_def)
  moreover have "(putFECHeader k g i @ p) ! 0 = k" "(putFECHeader k g i @ p) ! 5 = i"
    by (simp_all add: putFECHeader_def nth_append)
  ultimately show ?thesis
    using h by (simp add: parseFECHeader_def fec_frame_def fec_kind_ok_def fec_consts)
qed

lemma fec_frame_parse:
  assumes "parseFECHeader f = Some (h, p)"
  shows "fec_kind_ok h \<and> f = fec_frame h p"
proof -
  have len: "6 \<le> length f" and h: "h = (f ! 0, be_get (slice 1 5 f), f ! 5)" and p: "p = drop 6 f"
    and ok: "fec_kind_ok h"
    using assms by (auto simp: parseFECHeader_def fec_kind_ok_def fec_consts split: if_splits)
  have t1: "take 1 f = [f ! 0]" using len by (cases f) auto
  have t6: "slice 5 6 f = [f ! 5]" using len by (simp add: slice_def take_Suc_conv_app_nth)
  have s: "be_put 4 (be_get (slice 1 5 f) :: u32) = slice 1 5 f" using len by (simp add: be_put_get)
  have "take 1 f @ slice 1 5 f @ slice 5 6 f = take 6 f"
    by (simp add: slice_take_drop flip: append.assoc)
  then have "f = (take 1 f @ slice 1 5 f @ slice 5 6 f) @ drop 6 f" by simp
  also have "take 1 f @ slice 1 5 f @ slice 5 6 f = putFECHeader (f ! 0) (be_get (slice 1 5 f)) (f ! 5)"
    unfolding t1 t6 putFECHeader_def s by simp
  finally show ?thesis using ok h p by (simp add: fec_frame_def)
qed

interpretation fecc: frame_codec fec_frame parseFECHeader fec_kind_ok fecHeaderLen
proof
  show "fec_kind_ok h \<Longrightarrow> parseFECHeader (fec_frame h p) = Some (h, p)" for h p
    by (rule parse_fec_frame)
  show "parseFECHeader f = Some (h, p) \<Longrightarrow> fec_kind_ok h \<and> f = fec_frame h p" for f h p
    by (rule fec_frame_parse)
  show "length (fec_frame h p) = fecHeaderLen + length p" for h p
    by (simp add: fec_frame_def fec_consts split: prod.splits)
qed

lemma length_mk_shard [simp]: "length (mk_shard p) = length p + 2"
  by (simp add: mk_shard_def)

lemma length_pad_to [simp]: "length (pad_to n bs) = n"
  by (simp add: pad_to_def)

lemma pad_to_fits: "length bs \<le> n \<Longrightarrow> pad_to n bs = bs @ replicate (n - length bs) 0"
  by (simp add: pad_to_def copy_at_fits)

lemma pad_to_same [simp]: "length bs = n \<Longrightarrow> pad_to n bs = bs"
  by (simp add: pad_to_fits)

lemma trim_mk_shard: "length p < 65536 \<Longrightarrow> trimShard (mk_shard p @ zs) = Some p"
  by (simp add: trimShard_def mk_shard_def fec_consts slice_def unat_of_nat16 Let_def)

lemma trim_pad: "length p < 65536 \<Longrightarrow> length p + 2 \<le> n \<Longrightarrow> trimShard (pad_to n (mk_shard p)) = Some p"
  by (simp add: pad_to_fits trim_mk_shard)

section \<open>The receiver's invariant\<close>

definition group_wf :: "nat \<Rightarrow> nat \<Rightarrow> 'a fec_group \<Rightarrow> bool" where
  "group_wf nd np g \<longleftrightarrow> length (g_shards g) = nd + np \<and> length (g_delivered g) = nd"

definition fec_inv :: "nat \<Rightarrow> nat \<Rightarrow> 'a fec_recv \<Rightarrow> bool" where
  "fec_inv nd np c \<longleftrightarrow>
     distinct (fr_order c) \<and> set (fr_order c) = dom (fr_groups c) \<and> length (fr_order c) \<le> fecWindow \<and>
     (\<forall>g \<in> ran (fr_groups c). group_wf nd np g)"

lemma fec_inv_init [simp, inv_intros]: "fec_inv nd np fec_recv_init"
  by (simp add: fec_inv_def fec_recv_init_def)

lemma evict_loop_props:
  "distinct ord \<Longrightarrow> set ord = dom gs \<Longrightarrow> evict_loop gs ord = (gs', ord') \<Longrightarrow>
   distinct ord' \<and> set ord' = dom gs' \<and> length ord' = min (length ord) fecWindow \<and> gs' \<subseteq>\<^sub>m gs \<and>
   (ord \<noteq> [] \<longrightarrow> last ord \<in> set ord')"
proof (induction gs ord rule: evict_loop.induct)
  case (1 gs)
  then show ?case by simp
next
  case (2 gs old rest)
  show ?case
  proof (cases "length (old # rest) > fecWindow")
    case False
    with 2 show ?thesis by (auto simp: min_def)
  next
    case True
    have d: "distinct rest" "set rest = dom (gs(old := None))"
      and ev: "evict_loop (gs(old := None)) rest = (gs', ord')" using 2 True by auto
    note r = "2.IH" [OF True d ev]
    have "gs(old := None) \<subseteq>\<^sub>m gs" by (auto simp: map_le_def)
    then have le: "gs' \<subseteq>\<^sub>m gs" using r map_le_trans by blast
    have "rest \<noteq> []" using True by (auto simp: fecWindow_def)
    then show ?thesis using r le True by auto
  qed
qed

lemma evict_new:
  fixes g0 :: "'a fec_group"
  assumes inv: "fec_inv nd np c" and new: "fr_groups c grp = None"
  defines "c1 \<equiv> evict (c\<lparr>fr_groups := (fr_groups c)(grp \<mapsto> g0), fr_order := fr_order c @ [grp]\<rparr>)"
  shows "distinct (fr_order c1)" "set (fr_order c1) = dom (fr_groups c1)"
    "length (fr_order c1) \<le> fecWindow" "grp \<in> dom (fr_groups c1)"
    "fr_groups c1 \<subseteq>\<^sub>m (fr_groups c)(grp \<mapsto> g0)" "fr_pending c1 = fr_pending c"
proof -
  obtain gs ord where e: "evict_loop ((fr_groups c)(grp \<mapsto> g0)) (fr_order c @ [grp]) = (gs, ord)"
    by fastforce
  have d: "distinct (fr_order c @ [grp])" "set (fr_order c @ [grp]) = dom ((fr_groups c)(grp \<mapsto> g0))"
    using inv new by (auto simp: fec_inv_def)
  note r = evict_loop_props [OF d e]
  have c1: "c1 = c\<lparr>fr_groups := gs, fr_order := ord\<rparr>" by (simp add: c1_def evict_def e)
  show "distinct (fr_order c1)" "set (fr_order c1) = dom (fr_groups c1)"
    "length (fr_order c1) \<le> fecWindow" "grp \<in> dom (fr_groups c1)"
    "fr_groups c1 \<subseteq>\<^sub>m (fr_groups c)(grp \<mapsto> g0)" "fr_pending c1 = fr_pending c"
    using r c1 by auto
qed

lemma hand_up_length: "hand_up a k work dl = (dl', out) \<Longrightarrow> length dl' = length dl"
  by (induction a k work dl arbitrary: dl' out rule: hand_up.induct)
    (auto split: prod.splits option.splits if_splits)

lemma rebuild_wf: "group_wf nd np g \<Longrightarrow> rebuild rc nd g = (g', out) \<Longrightarrow> group_wf nd np g'"
  by (auto simp: rebuild_def group_wf_def split: if_splits option.splits prod.splits dest: hand_up_length)

lemma file_shard_wf: "group_wf nd np g \<Longrightarrow> group_wf nd np (file_shard nd k i b g)"
  by (simp add: file_shard_def group_wf_def)

lemma new_group_wf [simp]: "group_wf nd np (new_group nd np a)"
  by (simp add: group_wf_def new_group_def)

text \<open>The group a shard is filed in, before filing.\<close>

definition group_of :: "nat \<Rightarrow> nat \<Rightarrow> 'a fec_recv \<Rightarrow> u32 \<Rightarrow> 'a \<Rightarrow> 'a fec_group" where
  "group_of nd np c grp addr = (case fr_groups c grp of Some g \<Rightarrow> g | None \<Rightarrow> new_group nd np addr)"

lemma group_of_wf: "fec_inv nd np c \<Longrightarrow> group_wf nd np (group_of nd np c grp a)"
  by (auto simp: group_of_def fec_inv_def ran_def split: option.splits)

lemma group_wf_delivered:
  "group_wf nd np g \<Longrightarrow> group_wf nd np (g\<lparr>g_delivered := (g_delivered g)[i := True]\<rparr>)"
  by (simp add: group_wf_def)

lemma fec_inv_step:
  assumes inv: "fec_inv nd np c" and wf: "group_wf nd np g"
    and c1: "c1 = (case fr_groups c grp of
                    Some g \<Rightarrow> c
                  | None \<Rightarrow> evict (c\<lparr>fr_groups := (fr_groups c)(grp \<mapsto> new_group nd np addr),
                                     fr_order := fr_order c @ [grp]\<rparr>))"
  shows "fec_inv nd np (c1\<lparr>fr_groups := (fr_groups c1)(grp \<mapsto> g), fr_pending := q\<rparr>)"
proof (cases "fr_groups c grp")
  case None
  note e = evict_new [OF inv None, of "new_group nd np addr"]
  have c1': "c1 = evict (c\<lparr>fr_groups := (fr_groups c)(grp \<mapsto> new_group nd np addr), fr_order := fr_order c @ [grp]\<rparr>)"
    using c1 None by simp
  have "group_wf nd np h" if hr: "h \<in> ran ((fr_groups c1)(grp \<mapsto> g))" for h
  proof -
    obtain k where k: "((fr_groups c1)(grp \<mapsto> g)) k = Some h"
      using hr unfolding ran_def by blast
    show ?thesis
    proof (cases "k = grp")
      case False
      then have "fr_groups c k = Some h"
        using k e(5) unfolding c1' by (auto simp: map_le_def dom_def split: if_splits)
      then show ?thesis using inv by (auto simp: fec_inv_def ran_def)
    qed (use k wf in simp)
  qed
  then show ?thesis using e unfolding fec_inv_def c1' by auto
next
  case (Some g')
  then show ?thesis using inv wf c1
    by (auto simp: fec_inv_def ran_def split: if_splits)
qed

lemma absorb_returns:
  assumes inv: "fec_inv nd np c" and i: "unat index < nd + np"
    and ok: "kind = fecKindData \<longrightarrow> unat index < nd"
  shows "\<exists>c' r. absorb rc nd np c kind grp index body addr = Some (c', r) \<and> fec_inv nd np c'"
proof -
  define g1 where "g1 = file_shard nd kind (unat index) body (group_of nd np c grp addr)"
  define fresh where "fresh \<longleftrightarrow> kind = fecKindData \<and> \<not> g_delivered g1 ! unat index"
  define g2 where "g2 = (if fresh then g1\<lparr>g_delivered := (g_delivered g1)[unat index := True]\<rparr> else g1)"
  obtain g3 out where g3: "rebuild rc nd g2 = (g3, out)" by fastforce
  have wf1: "group_wf nd np g1" unfolding g1_def by (intro file_shard_wf group_of_wf inv)
  then have "group_wf nd np g2" unfolding g2_def by (simp add: group_wf_delivered)
  then have wf3: "group_wf nd np g3" using g3 by (rule rebuild_wf)
  have "\<not> (kind = fecKindData \<and> length (g_delivered g1) \<le> unat index)"
    using ok wf1 by (auto simp: group_wf_def)
  then show ?thesis
    using i g3 fec_inv_step [OF inv wf3 refl]
    unfolding absorb_def g1_def g2_def fresh_def group_of_def Let_def by auto
qed

section \<open>Runs of both sides\<close>

fun send_run ::
  "(bytes list \<Rightarrow> bytes list option) \<Rightarrow> nat \<Rightarrow> nat \<Rightarrow> 'a fec_send \<Rightarrow> 'a option \<Rightarrow> bytes list \<Rightarrow>
   'a fec_send \<times> bytes list" where
  "send_run encode nd np c addr [] = (c, [])"
| "send_run encode nd np c addr (p # ps) =
     (let (c', out, r) = fec_WriteTo encode nd np (\<lambda>_ _. True) c p addr;
          (c'', out') = send_run encode nd np c' addr ps
      in (c'', map fst out @ out'))"

fun recv_run ::
  "(bytes option list \<Rightarrow> bytes option list option) \<Rightarrow> nat \<Rightarrow> nat \<Rightarrow> 'a fec_recv \<Rightarrow> 'a \<Rightarrow> bytes list \<Rightarrow>
   ('a fec_recv \<times> bytes list) option" where
  "recv_run rc nd np c from [] = Some (c, [])"
| "recv_run rc nd np c from (f # fs) =
     (case parseFECHeader f of
        None \<Rightarrow> recv_run rc nd np c from fs
      | Some ((kind, grp, index), body) \<Rightarrow>
          (case absorb rc nd np c kind grp index body from of
             None \<Rightarrow> None
           | Some (c', r) \<Rightarrow>
               map_option (\<lambda>(c'', out). (c'', (case r of None \<Rightarrow> out | Some p \<Rightarrow> p # out)))
                 (recv_run rc nd np c' from fs)))"

text \<open>What the code relies on of the Reed-Solomon library: \<open>Encode\<close> computes parity shards of the
  common size after the data shards, and \<open>Reconstruct\<close> restores the whole group from any \<open>nd\<close>
  of its shards.\<close>

definition keep :: "nat set \<Rightarrow> 'x list \<Rightarrow> 'x option list" where
  "keep J xs = map (\<lambda>i. if i \<in> J then Some (xs ! i) else None) [0..<length xs]"

definition rs_ok ::
  "(bytes list \<Rightarrow> bytes list option) \<Rightarrow> (bytes option list \<Rightarrow> bytes option list option) \<Rightarrow> nat \<Rightarrow> nat \<Rightarrow> bool" where
  "rs_ok encode reconstruct nd np \<longleftrightarrow>
     (\<forall>data sz. length data = nd \<and> (\<forall>d \<in> set data. length d = sz) \<and> 0 < sz \<longrightarrow>
        (\<exists>par. length par = np \<and> (\<forall>d \<in> set par. length d = sz) \<and>
           encode (data @ replicate np (replicate sz 0)) = Some (data @ par) \<and>
           (\<forall>J \<subseteq> {..<nd + np}. nd \<le> card J \<longrightarrow>
              reconstruct (keep J (data @ par)) = Some (map Some (data @ par)))))"

section \<open>The sender's frames\<close>

definition group_sz :: "bytes list \<Rightarrow> nat" where
  "group_sz ps = fold max (map (length \<circ> mk_shard) ps) 0"

lemma fold_max_eq: "fold max xs (a :: nat) = max a (fold max xs 0)"
proof (induction xs arbitrary: a)
  case (Cons x xs)
  show ?case using Cons.IH [of "max x a"] Cons.IH [of x] by (simp add: max.assoc max.left_commute)
qed simp

lemma group_sz_snoc: "group_sz (ps @ [p]) = max (length (mk_shard p)) (group_sz ps)"
  by (simp add: group_sz_def)

lemma group_sz_ge: "p \<in> set ps \<Longrightarrow> length (mk_shard p) \<le> group_sz ps"
proof (induction ps rule: rev_induct)
  case (snoc q qs)
  then show ?case by (auto simp: group_sz_snoc le_max_iff_disj simp del: length_mk_shard)
qed simp

definition at_boundary :: "'a fec_send \<Rightarrow> bool" where
  "at_boundary c \<longleftrightarrow> sendIdx c = 0 \<and> sendPad c = None \<and> sendMax c = 0"

definition mid_group :: "nat \<Rightarrow> nat \<Rightarrow> u32 \<Rightarrow> bytes list \<Rightarrow> 'a fec_send \<Rightarrow> bool" where
  "mid_group nd np grp qs c \<longleftrightarrow>
     sendGrp c = grp \<and> sendIdx c = length qs \<and> sendMax c = group_sz qs \<and>
     (case sendPad c of None \<Rightarrow> replicate (nd + np) [] | Some x \<Rightarrow> x)
       = map mk_shard qs @ replicate (nd + np - length qs) []"

lemma mid_group_start: "at_boundary c \<Longrightarrow> mid_group nd np (sendGrp c) [] c"
  by (simp add: mid_group_def at_boundary_def group_sz_def)

definition data_frame :: "u32 \<Rightarrow> bytes list \<Rightarrow> nat \<Rightarrow> bytes" where
  "data_frame grp ps i = fec_frame (fecKindData, grp, word_of_nat i) (mk_shard (ps ! i))"

definition parity_frame :: "u32 \<Rightarrow> bytes list \<Rightarrow> nat \<Rightarrow> bytes" where
  "parity_frame grp sh i = fec_frame (fecKindParity, grp, word_of_nat i) (sh ! i)"

definition padded :: "bytes list \<Rightarrow> bytes list" where
  "padded ps = map (\<lambda>p. pad_to (group_sz ps) (mk_shard p)) ps"

lemma pad_step:
  assumes "length qs < n"
  shows "(map mk_shard qs @ replicate (n - length qs) [])[length qs := mk_shard p]
    = map mk_shard (qs @ [p]) @ replicate (n - length (qs @ [p])) []"
proof -
  have "n - length qs = Suc (n - length (qs @ [p]))" using assms by simp
  then show ?thesis by (simp add: list_update_append)
qed

lemma write_frame:
  fixes p :: bytes
  assumes mid: "mid_group nd np grp qs c" and lt: "length qs < nd"
  defines "f \<equiv> fec_frame (fecKindData, grp, word_of_nat (length qs)) (mk_shard p)"
  shows "\<exists>c1. mid_group nd np grp (qs @ [p]) c1 \<and> sendPeer c1 = addr \<and>
     fec_WriteTo encode nd np below c p addr =
       (let (c2, parity) = (if Suc (length qs) = nd then flushParity encode nd np c1 else (c1, []))
        in (c2, (f, addr) # parity, if below f addr then Some (length p) else None))"
proof -
  define pad where "pad = (case sendPad c of None \<Rightarrow> replicate (nd + np) [] | Some x \<Rightarrow> x)"
  define c1 where "c1 = c\<lparr>sendPad := Some (pad[sendIdx c := mk_shard p]),
      sendMax := (if length (mk_shard p) > sendMax c then length (mk_shard p) else sendMax c),
      sendPeer := addr, sendIdx := sendIdx c + 1\<rparr>"
  have m: "sendGrp c = grp" "sendIdx c = length qs" "sendMax c = group_sz qs"
    "pad = map mk_shard qs @ replicate (nd + np - length qs) []"
    using mid by (simp_all add: mid_group_def pad_def)
  have "pad[sendIdx c := mk_shard p] = map mk_shard (qs @ [p]) @ replicate (nd + np - length (qs @ [p])) []"
    unfolding m using pad_step [of qs "nd + np" p] lt by simp
  then have "mid_group nd np grp (qs @ [p]) c1"
    using m by (simp add: mid_group_def c1_def group_sz_snoc max_def del: length_mk_shard)
  moreover have "fec_WriteTo encode nd np below c p addr =
       (let (c2, parity) = (if Suc (length qs) = nd then flushParity encode nd np c1 else (c1, []))
        in (c2, (f, addr) # parity, if below f addr then Some (length p) else None))"
    by (simp add: fec_WriteTo_def Let_def c1_def pad_def [symmetric] m f_def fec_frame_def)
  ultimately show ?thesis by (intro exI [of _ c1]) (simp add: c1_def)
qed

lemma flush_frames:
  assumes mid: "mid_group nd np grp ps c" and len: "length ps = nd" "0 < nd"
    and enc: "encode (padded ps @ replicate np (replicate (group_sz ps) 0)) = Some sh"
    and sh: "\<And>i. i < nd + np \<Longrightarrow> length (sh ! i) = group_sz ps"
  shows "map fst (snd (flushParity encode nd np c)) = map (parity_frame grp sh) [nd..<nd + np]"
    and "at_boundary (fst (flushParity encode nd np c))"
    and "sendGrp (fst (flushParity encode nd np c)) = grp + 1"
proof -
  have "hd ps \<in> set ps" using len by (cases ps) auto
  then have sz: "group_sz ps \<noteq> 0" using group_sz_ge [of "hd ps" ps] by auto
  have "sendPad c = Some (map mk_shard ps @ replicate np [])"
  proof (cases "sendPad c")
    case None
    then have "replicate (nd + np) [] = map mk_shard ps @ replicate np []"
      using mid len by (simp add: mid_group_def)
    then have "hd (map mk_shard ps) = []" using len by (cases nd; cases ps) auto
    then have "length (mk_shard (hd ps)) = 0" using len by (cases ps) (auto simp del: length_mk_shard)
    then show ?thesis by simp
  next
    case (Some x)
    then show ?thesis using mid len by (simp add: mid_group_def)
  qed
  moreover have "map (\<lambda>i. pad_to (group_sz ps) ((map mk_shard ps @ replicate np []) ! i)) [0..<nd] = padded ps"
    using len by (auto simp: padded_def nth_append intro: nth_equalityI)
  ultimately have f: "flushParity encode nd np c =
      (c\<lparr>sendGrp := sendGrp c + 1, sendIdx := 0, sendMax := 0, sendPad := None\<rparr>,
       map (\<lambda>i. (putFECHeader fecKindParity grp (word_of_nat i) @ pad_to (group_sz ps) (sh ! i), sendPeer c))
         [nd..<nd + np])"
    using mid sz enc by (simp add: flushParity_def mid_group_def Let_def)
  show "map fst (snd (flushParity encode nd np c)) = map (parity_frame grp sh) [nd..<nd + np]"
    unfolding f by (auto simp: parity_frame_def fec_frame_def sh)
  show "at_boundary (fst (flushParity encode nd np c))" "sendGrp (fst (flushParity encode nd np c)) = grp + 1"
    using mid unfolding f by (simp_all add: at_boundary_def mid_group_def)
qed

lemma send_run_frames:
  assumes "mid_group nd np grp qs c" and "qs @ rest = ps" and "rest \<noteq> []" and "length ps = nd"
    and enc: "encode (padded ps @ replicate np (replicate (group_sz ps) 0)) = Some sh"
    and sh: "\<And>i. i < nd + np \<Longrightarrow> length (sh ! i) = group_sz ps"
  shows "snd (send_run encode nd np c addr rest) =
     map (data_frame grp ps) [length qs..<nd] @ map (parity_frame grp sh) [nd..<nd + np]"
  using assms(1-3)
proof (induction rest arbitrary: qs c)
  case Nil
  then show ?case by simp
next
  case (Cons p rest)
  have lt: "length qs < nd" using Cons.prems(2) assms(4) by auto
  obtain c1 where c1: "mid_group nd np grp (qs @ [p]) c1"
    and w: "fec_WriteTo encode nd np (\<lambda>_ _. True) c p addr =
       (let (c2, parity) = (if Suc (length qs) = nd then flushParity encode nd np c1 else (c1, []))
        in (c2, (fec_frame (fecKindData, grp, word_of_nat (length qs)) (mk_shard p), addr) # parity, Some (length p)))"
    using write_frame [OF Cons.prems(1) lt, where p = p and addr = addr and encode = encode and below = "\<lambda>_ _. True"]
    by auto
  have first: "fec_frame (fecKindData, grp, word_of_nat (length qs)) (mk_shard p) = data_frame grp ps (length qs)"
    using Cons.prems(2) by (auto simp: data_frame_def)
  show ?case
  proof (cases "rest = []")
    case True
    then have full: "Suc (length qs) = nd" "ps = qs @ [p]" using Cons.prems(2) assms(4) by auto
    have c1': "mid_group nd np grp ps c1" using c1 full by simp
    have nd: "0 < nd" using full by simp
    show ?thesis
      using True full(1) w first flush_frames(1) [where encode = encode, OF c1' assms(4) nd enc sh]
      by (simp add: Let_def case_prod_beta upt_conv_Cons)
  next
    case False
    then have notfull: "Suc (length qs) \<noteq> nd" using Cons.prems(2) assms(4) by (cases rest) auto
    have "snd (send_run encode nd np c1 addr rest) =
       map (data_frame grp ps) [length (qs @ [p])..<nd] @ map (parity_frame grp sh) [nd..<nd + np]"
      using Cons.prems(2) False by (intro Cons.IH [OF c1]) auto
    then show ?thesis
      using notfull w first lt by (simp add: Let_def case_prod_beta upt_conv_Cons)
  qed
qed

section \<open>The receiver's view of one group\<close>

definition handed :: "bytes list \<Rightarrow> bool list \<Rightarrow> bytes multiset" where
  "handed ps dl = mset (map fst (filter snd (zip ps dl)))"

lemma handed_all: "length dl = length ps \<Longrightarrow> list_all id dl \<Longrightarrow> handed ps dl = mset ps"
  by (induction ps dl rule: list_induct2') (auto simp: handed_def)

lemma handed_none [simp]: "handed ps (replicate n False) = {#}"
proof -
  have "filter snd (zip ps (replicate n False)) = []"
    by (auto simp: filter_empty_conv set_zip)
  then show ?thesis by (simp add: handed_def)
qed

lemma handed_rest:
  "length dl = length ps \<Longrightarrow>
   handed ps dl + mset (map fst (filter (\<lambda>(q, d). \<not> d) (zip ps dl))) = mset ps"
  by (induction ps dl rule: list_induct2') (auto simp: handed_def)

lemma handed_mark:
  "j < length dl \<Longrightarrow> length dl = length ps \<Longrightarrow> \<not> dl ! j \<Longrightarrow>
   handed ps (dl[j := True]) = add_mset (ps ! j) (handed ps dl)"
proof (induction ps dl arbitrary: j rule: list_induct2')
  case (4 p ps d dl)
  then show ?case by (cases j) (auto simp: handed_def)
qed auto

lemma widen_map:
  "(\<And>i s. i \<in> set xs \<Longrightarrow> f i = Some s \<Longrightarrow> length s \<le> sz) \<Longrightarrow>
   widen sz (map f xs) = Some (map (\<lambda>i. map_option (pad_to sz) (f i)) xs)"
proof (induction xs)
  case (Cons x xs)
  have "f x = Some s \<Longrightarrow> length s \<le> sz" for s using Cons.prems [of x] by simp
  then show ?case using Cons by (cases "f x") (auto simp: not_less intro: le_antisym)
qed simp

lemma hand_up_all:
  assumes "length dl = length qs" and "\<And>q. q \<in> set qs \<Longrightarrow> trimShard (w q) = Some q"
  shows "hand_up a (length dl) (map (\<lambda>q. Some (w q)) qs @ rest) dl =
     (replicate (length dl) True, map (\<lambda>q. (q, a)) (map fst (filter (\<lambda>(q, d). \<not> d) (zip qs dl))))"
  using assms by (induction dl qs rule: list_induct2) auto

lemma keep_insert: "j < length xs \<Longrightarrow> (keep J xs)[j := Some (xs ! j)] = keep (insert j J) xs"
  by (rule nth_equalityI) (auto simp: keep_def nth_list_update)

text \<open>One group in transit: the packets \<open>ps\<close>, their parity \<open>par\<close>, and the indices \<open>J\<close> that arrived.\<close>

definition recv_group :: "bytes list \<Rightarrow> bytes list \<Rightarrow> nat set \<Rightarrow> 'a fec_group \<Rightarrow> bool" where
  "recv_group ps par J g \<longleftrightarrow>
     g_shards g = keep J (map mk_shard ps @ par) \<and>
     g_haveTotal g = card J \<and> g_haveData g = card (J \<inter> {..<length ps}) \<and>
     g_size g = (if J \<subseteq> {..<length ps} then 0 else group_sz ps) \<and>
     g_delivered g = map (\<lambda>i. g_done g \<or> i \<in> J) [0..<length ps] \<and>
     (length ps \<le> card J \<and> card (J \<inter> {..<length ps}) < length ps \<longrightarrow> g_done g)"

lemma recv_group_new: "0 < length ps \<Longrightarrow> recv_group ps par {} (new_group (length ps) (length par) a)"
  by (auto simp: recv_group_def new_group_def keep_def map_replicate_const)

lemma recv_group_complete:
  assumes "recv_group ps par J g" and "J \<subseteq> {..<length ps + length par}" and "length ps \<le> card J"
  shows "list_all id (g_delivered g)"
proof -
  have dl: "g_delivered g = map (\<lambda>i. g_done g \<or> i \<in> J) [0..<length ps]"
    and full: "card (J \<inter> {..<length ps}) < length ps \<longrightarrow> g_done g"
    using assms(1,3) by (simp_all add: recv_group_def)
  have "g_done g \<or> {..<length ps} \<subseteq> J"
  proof (cases "g_done g")
    case False
    then have "card {..<length ps} \<le> card (J \<inter> {..<length ps})" using full by simp
    then have "J \<inter> {..<length ps} = {..<length ps}" by (intro card_seteq) auto
    then show ?thesis by blast
  qed simp
  then show ?thesis unfolding dl list_all_iff by auto
qed

text \<open>What is fixed about a group while its shards arrive.\<close>

definition coded ::
  "(bytes option list \<Rightarrow> bytes option list option) \<Rightarrow> bytes list \<Rightarrow> bytes list \<Rightarrow> bool" where
  "coded rc ps par \<longleftrightarrow>
     0 < length ps \<and> length ps + length par \<le> 256 \<and> (\<forall>p \<in> set ps. length p < 65536) \<and>
     (\<forall>d \<in> set par. length d = group_sz ps) \<and>
     (\<forall>J \<subseteq> {..<length ps + length par}. length ps \<le> card J \<longrightarrow>
        rc (keep J (padded ps @ par)) = Some (map Some (padded ps @ par)))"

lemma coded_sz: "coded rc ps par \<Longrightarrow> 0 < group_sz ps"
  using group_sz_ge [of "hd ps" ps] by (cases ps) (auto simp: coded_def)

lemma length_padded [simp]: "length (padded ps) = length ps"
  by (simp add: padded_def)

lemma widen_keep:
  assumes "coded rc ps par"
  shows "widen (group_sz ps) (keep J (map mk_shard ps @ par)) = Some (keep J (padded ps @ par))"
proof -
  have len: "length ((map mk_shard ps @ par) ! i) \<le> group_sz ps" if "i < length ps + length par" for i
    using that assms group_sz_ge by (auto simp: nth_append coded_def simp del: length_mk_shard)
  have pad: "pad_to (group_sz ps) ((map mk_shard ps @ par) ! i) = (padded ps @ par) ! i"
    if "i < length ps + length par" for i
    using that assms by (auto simp: nth_append coded_def padded_def)
  show ?thesis
    unfolding keep_def using len pad
    by (subst widen_map) (auto split: if_splits)
qed

lemma rebuild_keep:
  assumes cd: "coded rc ps par" and J: "J \<subseteq> {..<length ps + length par}"
    and g: "g_shards g = keep J (map mk_shard ps @ par)" "g_haveTotal g = card J"
      "g_haveData g = card (J \<inter> {..<length ps})" "g_size g = (if J \<subseteq> {..<length ps} then 0 else group_sz ps)"
      "g_delivered g = map (\<lambda>i. g_done g \<or> i \<in> J) [0..<length ps]"
    and r: "rebuild rc (length ps) g = (g', out)"
  shows "recv_group ps par J g'"
    and "mset (map fst out) + handed ps (g_delivered g) = handed ps (g_delivered g')"
proof -
  have sz: "group_sz ps \<noteq> 0" using coded_sz [OF cd] by simp
  have le: "card (J \<inter> {..<length ps}) \<le> length ps"
    using card_mono [of "{..<length ps}" "J \<inter> {..<length ps}"] by simp
  have sub: "card J = card (J \<inter> {..<length ps})" if "J \<subseteq> {..<length ps}"
    using that by (simp add: Int_absorb2)
  have "recv_group ps par J g' \<and> mset (map fst out) + handed ps (g_delivered g) = handed ps (g_delivered g')"
  proof (cases "g_done g \<or> g_haveData g = length ps \<or> g_haveTotal g < length ps \<or> g_size g = 0")
    case True
    then have "g' = g" "out = []" using r by (auto simp: rebuild_def)
    moreover have "length ps \<le> card J \<and> card (J \<inter> {..<length ps}) < length ps \<longrightarrow> g_done g"
      using True g sz sub by (auto split: if_splits)
    ultimately show ?thesis using g by (simp add: recv_group_def)
  next
    case False
    then have "length ps \<le> card J" and nsub: "\<not> J \<subseteq> {..<length ps}" using g by (auto split: if_splits)
    then have rc: "rc (keep J (padded ps @ par)) = Some (map Some (padded ps @ par))"
      using cd J by (simp add: coded_def)
    have tr: "trimShard (pad_to (group_sz ps) (mk_shard q)) = Some q" if "q \<in> set ps" for q
      using cd that group_sz_ge [OF that] by (intro trim_pad) (auto simp: coded_def)
    have len: "length (g_delivered g) = length ps" using g by simp
    have h: "hand_up (g_addr g) (length ps) (map Some (padded ps @ par)) (g_delivered g) =
        (replicate (length ps) True,
         map (\<lambda>q. (q, g_addr g)) (map fst (filter (\<lambda>(q, d). \<not> d) (zip ps (g_delivered g)))))"
      using hand_up_all [OF len, of "\<lambda>q. pad_to (group_sz ps) (mk_shard q)" "g_addr g" "map Some par"] tr len
      by (simp add: padded_def comp_def)
    have "rebuild rc (length ps) g =
        (g\<lparr>g_done := True, g_delivered := replicate (length ps) True\<rparr>,
         map (\<lambda>q. (q, g_addr g)) (map fst (filter (\<lambda>(q, d). \<not> d) (zip ps (g_delivered g)))))"
      using False nsub g widen_keep [OF cd] rc h by (simp add: rebuild_def)
    then have g': "g' = g\<lparr>g_done := True, g_delivered := replicate (length ps) True\<rparr>"
      and out: "map fst out = map fst (filter (\<lambda>(q, d). \<not> d) (zip ps (g_delivered g)))"
      using r by (auto simp: comp_def)
    have "handed ps (g_delivered g') = mset ps"
      using handed_all [of "replicate (length ps) True" ps] g' by (simp add: list_all_iff)
    then show ?thesis
      using handed_rest [OF len] g' g out by (simp add: recv_group_def map_replicate_const add.commute)
  qed
  then show "recv_group ps par J g'"
    and "mset (map fst out) + handed ps (g_delivered g) = handed ps (g_delivered g')" by blast+
qed

lemma file_shard_keep:
  assumes cd: "coded rc ps par" and g: "recv_group ps par J g"
    and J: "J \<subseteq> {..<length ps + length par}" and j: "j < length ps + length par" "j \<notin> J"
  defines "B \<equiv> map mk_shard ps @ par"
    and "kind \<equiv> (if j < length ps then fecKindData else fecKindParity)"
  shows "file_shard (length ps) kind j (B ! j) g =
     g\<lparr>g_shards := keep (insert j J) B, g_haveTotal := card (insert j J),
       g_haveData := card (insert j J \<inter> {..<length ps}),
       g_size := (if insert j J \<subseteq> {..<length ps} then 0 else group_sz ps)\<rparr>"
proof -
  have lenB: "length B = length ps + length par" by (simp add: B_def)
  have fin: "finite J" using J finite_subset by blast
  have sz: "length (B ! j) = group_sz ps" if "\<not> j < length ps"
    using that j cd by (simp add: B_def nth_append coded_def)
  have "B ! j \<noteq> []"
  proof (cases "j < length ps")
    case True
    then have "length (B ! j) = length (ps ! j) + 2" by (simp add: B_def nth_append)
    then show ?thesis by auto
  next
    case False
    then show ?thesis using sz coded_sz [OF cd] by auto
  qed
  moreover have "g_shards g ! j = None" "g_shards g = keep J B"
    using g j by (auto simp: recv_group_def keep_def B_def)
  moreover have "card (insert j J \<inter> {..<length ps}) = (if j < length ps then Suc (card (J \<inter> {..<length ps})) else card (J \<inter> {..<length ps}))"
    using j(2) fin by (simp add: Int_insert_left)
  moreover have "fecKindData \<noteq> fecKindParity" by (simp add: fec_consts)
  ultimately show ?thesis
    using g j sz coded_sz [OF cd] fin lenB
    by (auto simp: file_shard_def kind_def recv_group_def keep_insert B_def [symmetric])
qed

lemma absorb_shard:
  assumes cd: "coded rc ps par" and inv: "fec_inv (length ps) (length par) c"
    and g: "recv_group ps par J (group_of (length ps) (length par) c grp from)"
    and J: "J \<subseteq> {..<length ps + length par}" and j: "j < length ps + length par" "j \<notin> J"
  defines "kind \<equiv> (if j < length ps then fecKindData else fecKindParity)"
  shows "\<exists>c' r g'. absorb rc (length ps) (length par) c kind grp (word_of_nat j) ((map mk_shard ps @ par) ! j) from
        = Some (c', r) \<and> fr_groups c' grp = Some g' \<and> recv_group ps par (insert j J) g' \<and>
      (case r of None \<Rightarrow> {#} | Some p \<Rightarrow> {#p#}) + mset (map fst (fr_pending c')) +
        handed ps (g_delivered (group_of (length ps) (length par) c grp from))
      = mset (map fst (fr_pending c)) + handed ps (g_delivered g')"
proof -
  let ?nd = "length ps" and ?np = "length par"
  let ?B = "map mk_shard ps @ par" and ?J = "insert j J"
  define g0 where "g0 = group_of ?nd ?np c grp from"
  define g1 where "g1 = file_shard ?nd kind j (?B ! j) g0"
  define fresh where "fresh \<longleftrightarrow> kind = fecKindData \<and> \<not> g_delivered g1 ! j"
  define g2 where "g2 = (if fresh then g1\<lparr>g_delivered := (g_delivered g1)[j := True]\<rparr> else g1)"
  obtain g3 out where g3: "rebuild rc ?nd g2 = (g3, out)" by fastforce
  have neq: "fecKindData \<noteq> fecKindParity" by (simp add: fec_consts)
  have uj: "unat (word_of_nat j :: byte) = j" using j cd by (simp add: coded_def unat_of_nat)
  have dl0: "g_delivered g0 = map (\<lambda>i. g_done g0 \<or> i \<in> J) [0..<?nd]"
    using g by (simp add: g0_def recv_group_def)
  note g1' = file_shard_keep [OF cd g J j, folded g0_def kind_def, folded g1_def]
  have fr: "fresh \<longleftrightarrow> j < ?nd \<and> \<not> g_done g0"
    using g1' dl0 j neq by (auto simp: fresh_def kind_def)
  have dl2: "g_delivered g2 = map (\<lambda>i. g_done g2 \<or> i \<in> ?J) [0..<?nd]"
    using fr g1' dl0 j by (auto simp: g2_def nth_list_update intro!: nth_equalityI split: if_splits)
  have J': "?J \<subseteq> {..<?nd + ?np}" using J j by simp
  have g2f: "g_shards g2 = keep ?J ?B" "g_haveTotal g2 = card ?J"
    "g_haveData g2 = card (?J \<inter> {..<?nd})" "g_size g2 = (if ?J \<subseteq> {..<?nd} then 0 else group_sz ps)"
    using g1' by (simp_all add: g2_def)
  note r = rebuild_keep [OF cd J' g2f dl2 g3]
  have dlv: "trimShard (?B ! j) = Some (ps ! j)" if "j < ?nd"
  proof -
    have "length (ps ! j) < 65536" using that cd by (simp add: coded_def)
    then show ?thesis using that trim_mk_shard [of "ps ! j" "[]"] by (simp add: nth_append)
  qed
  have nopanic: "\<not> (kind = fecKindData \<and> length (g_delivered g1) \<le> j)"
    using g1' dl0 neq by (auto simp: kind_def)
  have hand: "handed ps (g_delivered g2) = (if fresh then {#ps ! j#} else {#}) + handed ps (g_delivered g0)"
    using g1' fr dl0 j handed_mark [of j "g_delivered g0" ps] by (auto simp: g2_def)
  define c1 where "c1 = (case fr_groups c grp of
                    Some g \<Rightarrow> c
                  | None \<Rightarrow> evict (c\<lparr>fr_groups := (fr_groups c)(grp \<mapsto> new_group ?nd ?np from),
                                     fr_order := fr_order c @ [grp]\<rparr>))"
  have pend: "fr_pending c1 = fr_pending c"
    using evict_new(6) [OF inv, of grp] by (auto simp: c1_def split: option.splits)
  define c3 where "c3 = c1\<lparr>fr_groups := (fr_groups c1)(grp \<mapsto> g3), fr_pending := fr_pending c1 @ out\<rparr>"
  have ab: "absorb rc ?nd ?np c kind grp (word_of_nat j) (?B ! j) from =
     Some (c3, if fresh then Some (ps ! j) else None)"
    using j nopanic g3 dlv fr uj
    unfolding absorb_def Let_def c3_def c1_def g2_def g1_def g0_def group_of_def fresh_def
    by auto
  have c3: "fr_groups c3 grp = Some g3" "mset (map fst (fr_pending c3)) = mset (map fst (fr_pending c)) + mset (map fst out)"
    by (simp_all add: c3_def pend)
  have "(case if fresh then Some (ps ! j) else None of None \<Rightarrow> {#} | Some p \<Rightarrow> {#p#}) = (if fresh then {#ps ! j#} else {#})"
    by simp
  then have "(case if fresh then Some (ps ! j) else None of None \<Rightarrow> {#} | Some p \<Rightarrow> {#p#})
      + mset (map fst (fr_pending c3)) + handed ps (g_delivered g0)
      = mset (map fst (fr_pending c)) + (mset (map fst out) + handed ps (g_delivered g2))"
    unfolding c3(2) hand by (simp only: ac_simps)
  then show ?thesis
    using ab c3(1) r(1) unfolding g0_def r(2) by blast
qed

lemma balance:
  fixes r :: "'x multiset"
  assumes "r + p1 + h0 = p0 + h1" and "t + p' + h1 = p1 + m"
  shows "r + (t + (p' + h0)) = p0 + m"
proof -
  have "r + (t + (p' + h0)) + (p1 + h1) = (r + p1 + h0) + (t + p' + h1)" by (simp add: ac_simps)
  also have "\<dots> = (p0 + m) + (p1 + h1)" using assms by (simp add: ac_simps)
  finally show ?thesis by simp
qed

lemma recv_run_group:
  assumes cd: "coded rc ps par" and inv: "fec_inv (length ps) (length par) c"
    and g: "recv_group ps par J (group_of (length ps) (length par) c grp from)"
    and J: "J \<subseteq> {..<length ps + length par}"
    and js: "distinct js" "set js \<subseteq> {..<length ps + length par} - J"
    and sz: "length ps \<le> card (J \<union> set js)"
  shows "\<exists>c' out. recv_run rc (length ps) (length par) c from
      (map (\<lambda>j. fec_frame (if j < length ps then fecKindData else fecKindParity, grp, word_of_nat j)
                  ((map mk_shard ps @ par) ! j)) js) = Some (c', out) \<and>
    mset out + mset (map fst (fr_pending c')) + handed ps (g_delivered (group_of (length ps) (length par) c grp from))
      = mset (map fst (fr_pending c)) + mset ps"
  using inv g J js sz
proof (induction js arbitrary: c J)
  case Nil
  have "handed ps (g_delivered (group_of (length ps) (length par) c grp from)) = mset ps"
    using recv_group_complete [OF Nil.prems(2,3)] Nil.prems(2,6)
    by (intro handed_all) (simp_all add: recv_group_def)
  then show ?case by simp
next
  case (Cons j js)
  let ?nd = "length ps" and ?np = "length par"
  let ?k = "if j < ?nd then fecKindData else fecKindParity"
  have j: "j < ?nd + ?np" "j \<notin> J" using Cons.prems(5) by auto
  obtain c1 r g1 where a: "absorb rc ?nd ?np c ?k grp (word_of_nat j) ((map mk_shard ps @ par) ! j) from = Some (c1, r)"
    and g1: "fr_groups c1 grp = Some g1" "recv_group ps par (insert j J) g1"
    and m: "(case r of None \<Rightarrow> {#} | Some p \<Rightarrow> {#p#}) + mset (map fst (fr_pending c1)) +
        handed ps (g_delivered (group_of ?nd ?np c grp from))
      = mset (map fst (fr_pending c)) + handed ps (g_delivered g1)"
    using absorb_shard [OF cd Cons.prems(1,2,3) j] by blast
  have go: "group_of ?nd ?np c1 grp from = g1" using g1 by (simp add: group_of_def)
  have uj: "unat (word_of_nat j :: byte) = j" using j cd by (simp add: coded_def unat_of_nat)
  have neq: "fecKindData \<noteq> fecKindParity" by (simp add: fec_consts)
  have "\<exists>c' r'. absorb rc ?nd ?np c ?k grp (word_of_nat j) ((map mk_shard ps @ par) ! j) from = Some (c', r')
      \<and> fec_inv ?nd ?np c'"
    by (rule absorb_returns [OF Cons.prems(1)]) (use uj j neq in auto)
  then have inv1: "fec_inv ?nd ?np c1" using a by auto
  obtain c' out where ih: "recv_run rc ?nd ?np c1 from
      (map (\<lambda>j. fec_frame (if j < ?nd then fecKindData else fecKindParity, grp, word_of_nat j)
                  ((map mk_shard ps @ par) ! j)) js) = Some (c', out)"
    and mo: "mset out + mset (map fst (fr_pending c')) + handed ps (g_delivered g1)
      = mset (map fst (fr_pending c1)) + mset ps"
    using Cons.IH [OF inv1, of "insert j J"] g1 go Cons.prems j by auto
  have ok: "fec_kind_ok (?k, grp, word_of_nat j)" by (simp add: fec_kind_ok_def)
  have run: "recv_run rc ?nd ?np c from (map (\<lambda>j. fec_frame (if j < ?nd then fecKindData else fecKindParity, grp, word_of_nat j)
                  ((map mk_shard ps @ par) ! j)) (j # js))
      = Some (c', case r of None \<Rightarrow> out | Some p \<Rightarrow> p # out)"
    using ih a by (simp add: parse_fec_frame [OF ok])
  have "mset (case r of None \<Rightarrow> out | Some p \<Rightarrow> p # out) = (case r of None \<Rightarrow> {#} | Some p \<Rightarrow> {#p#}) + mset out"
    by (cases r) auto
  then have "mset (case r of None \<Rightarrow> out | Some p \<Rightarrow> p # out) + mset (map fst (fr_pending c')) +
      handed ps (g_delivered (group_of ?nd ?np c grp from)) = mset (map fst (fr_pending c)) + mset ps"
    using balance [OF m mo] by (simp only: add.assoc)
  then show ?case using run by blast
qed

section \<open>Properties\<close>

text \<open>C14. Forward error correction recovers: when a sender at a group boundary writes a group of
  \<open>nd\<close> packets, a receiver that gets any \<open>nd\<close> or more of the \<open>nd + np\<close> datagrams, in any order,
  hands up every packet exactly once, directly or through its queue of rebuilt packets.\<close>

theorem fec_recovers_from_loss:
  assumes rs: "rs_ok encode rc nd np" and sizes: "0 < nd" "nd + np \<le> 256"
    and ps: "length ps = nd" "\<forall>p \<in> set ps. length p < 65536"
    and snd: "at_boundary s" "send_run encode nd np s addr ps = (s', ws)"
    and rcv: "fec_inv nd np c" "fr_groups c (sendGrp s) = None"
    and js: "distinct js" "set js \<subseteq> {..<nd + np}" "nd \<le> length js"
  shows "\<exists>c' out. recv_run rc nd np c from (map ((!) ws) js) = Some (c', out) \<and>
     mset out + mset (map fst (fr_pending c')) = mset (map fst (fr_pending c)) + mset ps"
proof -
  have szp: "0 < group_sz ps" using group_sz_ge [of "hd ps" ps] ps(1) sizes(1) by (cases ps) auto
  have "\<forall>d \<in> set (padded ps). length d = group_sz ps" by (auto simp: padded_def)
  then obtain par where par: "length par = np" "\<forall>d \<in> set par. length d = group_sz ps"
    "encode (padded ps @ replicate np (replicate (group_sz ps) 0)) = Some (padded ps @ par)"
    "\<forall>J \<subseteq> {..<nd + np}. nd \<le> card J \<longrightarrow> rc (keep J (padded ps @ par)) = Some (map Some (padded ps @ par))"
    using rs szp ps(1) unfolding rs_ok_def by (metis length_padded)
  have cd: "coded rc ps par" using par ps sizes by (auto simp: coded_def)
  have sh: "length ((padded ps @ par) ! i) = group_sz ps" if "i < nd + np" for i
    using that par ps(1) by (auto simp: nth_append padded_def)
  have "ps \<noteq> []" using ps sizes by auto
  then have ws: "ws = map (data_frame (sendGrp s) ps) [0..<nd] @ map (parity_frame (sendGrp s) (padded ps @ par)) [nd..<nd + np]"
    using send_run_frames [where encode = encode and addr = addr, OF mid_group_start [OF snd(1)] _ _ ps(1) par(3) sh] snd(2)
    by simp
  have "ws ! j = fec_frame (if j < length ps then fecKindData else fecKindParity, sendGrp s, word_of_nat j)
      ((map mk_shard ps @ par) ! j)" if "j < nd + np" for j
    using that ps(1) unfolding ws by (auto simp: nth_append data_frame_def parity_frame_def)
  then have mp: "map ((!) ws) js = map (\<lambda>j. fec_frame (if j < length ps then fecKindData else fecKindParity,
      sendGrp s, word_of_nat j) ((map mk_shard ps @ par) ! j)) js"
    using js(2) by auto
  have go: "group_of (length ps) (length par) c (sendGrp s) from = new_group (length ps) (length par) from"
    using rcv(2) by (simp add: group_of_def)
  have g0: "recv_group ps par {} (group_of (length ps) (length par) c (sendGrp s) from)"
    unfolding go using ps sizes by (intro recv_group_new) simp
  have "\<exists>c' out. recv_run rc (length ps) (length par) c from (map ((!) ws) js) = Some (c', out) \<and>
     mset out + mset (map fst (fr_pending c')) + handed ps (g_delivered (group_of (length ps) (length par) c (sendGrp s) from))
       = mset (map fst (fr_pending c)) + mset ps"
    unfolding mp
    by (rule recv_run_group [OF cd _ g0]) (use rcv(1) js ps(1) par(1) distinct_card [of js] in auto)
  moreover have "handed ps (g_delivered (group_of (length ps) (length par) c (sendGrp s) from)) = {#}"
    unfolding go by (simp add: new_group_def)
  ultimately show ?thesis using ps(1) par(1) by simp
qed

text \<open>A repetition code for the witness: one packet, one parity shard equal to it.\<close>

definition rep_encode :: "bytes list \<Rightarrow> bytes list option" where
  "rep_encode sh = (case sh of [d, _] \<Rightarrow> Some [d, d] | _ \<Rightarrow> None)"

definition rep_reconstruct :: "bytes option list \<Rightarrow> bytes option list option" where
  "rep_reconstruct sh =
     (case sh of [Some d, _] \<Rightarrow> Some [Some d, Some d] | [None, Some d] \<Rightarrow> Some [Some d, Some d] | _ \<Rightarrow> None)"

lemma rep_ok: "rs_ok rep_encode rep_reconstruct 1 1"
proof -
  have "\<exists>par. length par = 1 \<and> (\<forall>d \<in> set par. length d = sz) \<and>
      rep_encode (data @ replicate 1 (replicate sz 0)) = Some (data @ par) \<and>
      (\<forall>J \<subseteq> {..<1 + 1}. 1 \<le> card J \<longrightarrow> rep_reconstruct (keep J (data @ par)) = Some (map Some (data @ par)))"
    if dl: "length data = 1" and ds: "\<forall>d \<in> set data. length d = sz" for data :: "bytes list" and sz
  proof -
    obtain d where d: "data = [d]" using dl by (cases data) auto
    have "rep_reconstruct (keep J [d, d]) = Some [Some d, Some d]" if "J \<subseteq> {..<2}" "1 \<le> card J" for J
    proof -
      have "J \<noteq> {}" using that(2) by auto
      then have "0 \<in> J \<or> 1 \<in> J" using that(1) by (auto simp: less_2_cases_iff)
      then show ?thesis by (auto simp: keep_def rep_reconstruct_def upt_rec)
    qed
    then show ?thesis using d ds by (intro exI [of _ "[d]"]) (simp add: rep_encode_def numeral_2_eq_2)
  qed
  then show ?thesis by (auto simp: rs_ok_def)
qed

theorem fec_recovers_from_loss_witness:
  "\<exists>c' out. recv_run rep_reconstruct 1 1 fec_recv_init (7 :: nat)
      (map ((!) (snd (send_run rep_encode 1 1 fec_send_init (Some (7 :: nat)) [[1, 2, 3]]))) [1]) = Some (c', out) \<and>
     mset out + mset (map fst (fr_pending c')) = mset (map fst (fr_pending (fec_recv_init :: nat fec_recv))) + mset [[1, 2, 3]]"
proof -
  obtain s' ws where w: "send_run rep_encode 1 1 fec_send_init (Some (7 :: nat)) [[1, 2, 3]] = (s', ws)" by fastforce
  have "\<exists>c' out. recv_run rep_reconstruct 1 1 fec_recv_init (7 :: nat) (map ((!) ws) [1]) = Some (c', out) \<and>
     mset out + mset (map fst (fr_pending c')) = mset (map fst (fr_pending (fec_recv_init :: nat fec_recv))) + mset [[1, 2, 3]]"
    by (rule fec_recovers_from_loss [OF rep_ok _ _ _ _ _ w])
      (simp_all add: at_boundary_def fec_send_init_def fec_recv_init_def fec_inv_def)
  then show ?thesis using w by simp
qed

lemma absorb_inv:
  assumes "fec_inv nd np c" and "absorb rc nd np c kind grp index body addr = Some (c', r)"
  shows "fec_inv nd np c'"
proof (cases "unat index < nd + np \<and> (kind = fecKindData \<longrightarrow> unat index < nd)")
  case True
  then show ?thesis using absorb_returns [OF assms(1), of index kind rc grp body addr] assms(2) by auto
next
  case False
  show ?thesis
  proof (cases "nd + np \<le> unat index")
    case True
    then show ?thesis using assms by (simp add: absorb_def)
  next
    case out: False
    have "group_wf nd np (file_shard nd kind (unat index) body (group_of nd np c grp addr))"
      using assms(1) by (intro file_shard_wf group_of_wf)
    then show ?thesis
      using assms(2) False out by (auto simp: absorb_def Let_def group_of_def group_wf_def split: option.splits)
  qed
qed

lemma recv_run_inv:
  "fec_inv nd np c0 \<Longrightarrow> recv_run rc nd np c0 from fs = Some (c, out) \<Longrightarrow> fec_inv nd np c"
proof (induction fs arbitrary: c0 out)
  case (Cons f fs)
  then show ?case
    by (auto split: option.splits prod.splits dest: absorb_inv)
qed simp

text \<open>The receiver is bounded and consistent: over any run of received datagrams that does not
  panic, it keeps at most 16 groups, remembered exactly once each in arrival order, and
  every group's tables have the length of the scheme.\<close>

theorem fec_receiver_bounded:
  assumes "recv_run rc nd np fec_recv_init from fs = Some (c, out)"
  shows "fec_inv nd np c \<and> card (dom (fr_groups c)) \<le> 16"
proof -
  have inv: "fec_inv nd np c" by (rule recv_run_inv [OF fec_inv_init assms])
  then have "card (dom (fr_groups c)) = length (fr_order c)"
    by (metis distinct_card fec_inv_def)
  then show ?thesis using inv by (simp add: fec_inv_def fecWindow_def)
qed

theorem fec_receiver_bounded_witness:
  "fec_inv 1 1 (fst (the (recv_run rep_reconstruct 1 1 fec_recv_init (7 :: nat) [[0, 0, 0, 0, 9, 0, 0, 1, 5]])))"
proof -
  have "recv_run rep_reconstruct 1 1 fec_recv_init (7 :: nat) [[0, 0, 0, 0, 9, 0, 0, 1, 5]] \<noteq> None"
    by code_simp
  then obtain c out where r: "recv_run rep_reconstruct 1 1 fec_recv_init (7 :: nat) [[0, 0, 0, 0, 9, 0, 0, 1, 5]] = Some (c, out)"
    by auto
  show ?thesis using fec_receiver_bounded [OF r] r by simp
qed

text \<open>C16. A single unauthenticated datagram can crash the receiver: a shard marked as data whose
  index names a parity slot makes \<open>absorb\<close> index past \<open>delivered\<close>. Nothing else does.\<close>

theorem absorb_panics_iff:
  assumes "fec_inv nd np c"
  shows "absorb rc nd np c kind grp index body addr = None \<longleftrightarrow>
     kind = fecKindData \<and> nd \<le> unat index \<and> unat index < nd + np"
proof -
  have wf: "length (g_delivered (file_shard nd kind (unat index) body (group_of nd np c grp addr))) = nd"
    using file_shard_wf [OF group_of_wf [OF assms]] by (simp add: group_wf_def)
  show ?thesis
    using wf by (auto simp: absorb_def Let_def group_of_def split: option.splits prod.splits)
qed

theorem absorb_panics_iff_witness:
  "absorb rep_reconstruct 1 1 fec_recv_init fecKindData 5 1 [9] (7 :: nat) = None"
  using absorb_panics_iff [OF fec_inv_init, of rep_reconstruct 1 1 fecKindData 5 1 "[9]" "7 :: nat"] by simp

end
