(* ===== verification/GoNet.thy ===== *)
theory GoNet
  imports GoStrings
begin

text \<open>
  The parts of Go's \<open>net\<close> package that the sources use: textual IP addresses (\<open>ParseIP\<close>,
  \<open>ParseCIDR\<close>, \<open>IP.String\<close>), \<open>IP.Equal\<close>, and the addresses a datagram carrier reports, with the
  engine's own comparison \<open>sameAddr\<close> of \<open>internal/tunnel/l3/tunnel.go\<close>.
\<close>

section \<open>Reading addresses\<close>

text \<open>Four decimal fields without leading zeros, each at most 255.\<close>

definition v4_field :: "string \<Rightarrow> byte option" where
  "v4_field s =
     (if s = [] \<or> \<not> list_all is_digit s \<or> (length s > 1 \<and> hd s = CHR ''0'') \<or> digits_val s > 255 then None
      else Some (word_of_nat (digits_val s)))"

definition parse_v4 :: "string \<Rightarrow> bytes option" where
  "parse_v4 s =
     (case map v4_field (split_on CHR ''.'' s) of
        [Some a, Some b, Some c, Some d] \<Rightarrow> Some [a, b, c, d]
      | _ \<Rightarrow> None)"

definition hex_val :: "char \<Rightarrow> nat option" where
  "hex_val ch =
     (let n = of_char ch :: nat in
      if 48 \<le> n \<and> n \<le> 57 then Some (n - 48)
      else if 97 \<le> n \<and> n \<le> 102 then Some (n - 87)
      else if 65 \<le> n \<and> n \<le> 70 then Some (n - 55) else None)"

definition hex_num :: "string \<Rightarrow> nat" where
  "hex_num s = foldl (\<lambda>v ch. v * 16 + the (hex_val ch)) 0 s"

text \<open>The loop over the groups of an IPv6 address. \<open>acc\<close> holds the bytes read so far, \<open>ell\<close> the
  position of the ellipsis; a group is at most four hex digits, so at most eight rounds run. At
  least one group is read in every round, which is the measure.\<close>

function v6_groups :: "string \<Rightarrow> bytes \<Rightarrow> nat option \<Rightarrow> (bytes \<times> nat option) option" where
  "v6_groups s acc ell =
     (if 16 \<le> length acc then (if s = [] then Some (acc, ell) else None)
      else
        let ds = takeWhile (\<lambda>ch. hex_val ch \<noteq> None) s; rest = drop (length ds) s in
        if ds = [] \<or> 4 < length ds then None
        else if rest \<noteq> [] \<and> hd rest = CHR ''.'' then
          (if ell = None \<and> length acc \<noteq> 12 \<or> 12 < length acc then None
           else case parse_v4 s of None \<Rightarrow> None | Some v4 \<Rightarrow> Some (acc @ v4, ell))
        else
          let acc' = acc @ [word_of_nat (hex_num ds div 256), word_of_nat (hex_num ds)] in
          if rest = [] then Some (acc', ell)
          else if hd rest \<noteq> CHR '':'' \<or> length rest = 1 then None
          else if rest ! 1 = CHR '':'' then
            (if ell \<noteq> None then None
             else if length rest = 2 then Some (acc', Some (length acc'))
             else v6_groups (drop 2 rest) acc' (Some (length acc')))
          else v6_groups (tl rest) acc' ell)"
  by pat_completeness auto
termination by (relation "measure (\<lambda>(s, acc, ell). 16 - length acc)") auto

declare v6_groups.simps [simp del]

text \<open>\<open>None\<close> also for an address with a zone, which \<open>ParseIP\<close> and \<open>ParseCIDR\<close> refuse.\<close>

definition parse_v6 :: "string \<Rightarrow> bytes option" where
  "parse_v6 s =
     (if CHR ''%'' \<in> set s then None
      else let lead = (take 2 s = ''::''); s' = (if lead then drop 2 s else s) in
        if lead \<and> s' = [] then Some (replicate 16 0)
        else case v6_groups s' [] (if lead then Some 0 else None) of
               None \<Rightarrow> None
             | Some (bs, None) \<Rightarrow> if length bs = 16 then Some bs else None
             | Some (bs, Some e) \<Rightarrow>
                 if length bs = 16 then None
                 else Some (take e bs @ replicate (16 - length bs) 0 @ drop e bs))"

definition parse_addr :: "string \<Rightarrow> bytes option" where
  "parse_addr s =
     (case find (\<lambda>ch. ch \<in> {CHR ''.'', CHR '':'', CHR ''%''}) s of
        Some ch \<Rightarrow> if ch = CHR ''.'' then parse_v4 s else if ch = CHR '':'' then parse_v6 s else None
      | None \<Rightarrow> None)"

definition v4_in_v6 :: bytes where "v4_in_v6 = replicate 10 0 @ [0xff, 0xff]"

definition ParseIP :: "string \<Rightarrow> bytes option" where
  "ParseIP s = map_option (\<lambda>b. if length b = 4 then v4_in_v6 @ b else b) (parse_addr s)"

text \<open>The address and prefix length of \<open>ParseCIDR\<close>.\<close>

definition ParseCIDR :: "string \<Rightarrow> (bytes \<times> nat) option" where
  "ParseCIDR s =
     (let (a, mask, found) = cut CHR ''/'' s in
      if \<not> found then None
      else case parse_addr a of
             None \<Rightarrow> None
           | Some b \<Rightarrow>
               if mask = [] \<or> \<not> list_all is_digit mask \<or> digits_val mask > 8 * length b then None
               else Some (b, digits_val mask))"

section \<open>Printing addresses\<close>

definition hex_digit :: "nat \<Rightarrow> char" where
  "hex_digit n = char_of (if n < 10 then 48 + n else 87 + n)"

fun show_hex :: "nat \<Rightarrow> string" where
  "show_hex n = (if n < 16 then [hex_digit n] else show_hex (n div 16) @ [hex_digit (n mod 16)])"

declare show_hex.simps [simp del]

fun join_with :: "string \<Rightarrow> string list \<Rightarrow> string" where
  "join_with sep [] = []"
| "join_with sep [x] = x"
| "join_with sep (x # xs) = x @ sep @ join_with sep xs"

fun v6_words :: "bytes \<Rightarrow> nat list" where
  "v6_words (a # b # bs) = (unat a * 256 + unat b) # v6_words bs"
| "v6_words _ = []"

text \<open>The first longest run of at least two zero groups: its start and length.\<close>

definition zero_run :: "nat list \<Rightarrow> (nat \<times> nat) option" where
  "zero_run gs =
     (let z = (\<lambda>i. length (takeWhile (\<lambda>g. g = 0) (drop i gs)));
          best = fold max (map z [0..<length gs]) 0
      in if best < 2 then None else map_option (\<lambda>i. (i, best)) (find (\<lambda>i. z i = best) [0..<length gs]))"

definition v6_string :: "bytes \<Rightarrow> string" where
  "v6_string b =
     (let gs = v6_words b; sh = (\<lambda>xs. join_with '':'' (map show_hex xs)) in
      case zero_run gs of
        None \<Rightarrow> sh gs
      | Some (i, n) \<Rightarrow> sh (take i gs) @ ''::'' @ sh (drop (i + n) gs))"

definition v4_string :: "bytes \<Rightarrow> string" where
  "v4_string b = join_with ''.'' (map (\<lambda>x. show_nat (unat x)) b)"

definition hex_string :: "bytes \<Rightarrow> string" where
  "hex_string b = concat (map (\<lambda>x. [hex_digit (unat x div 16), hex_digit (unat x mod 16)]) b)"

definition to4 :: "bytes \<Rightarrow> bytes option" where
  "to4 ip =
     (if length ip = 4 then Some ip
      else if length ip = 16 \<and> take 12 ip = v4_in_v6 then Some (drop 12 ip) else None)"

definition ip_string :: "bytes \<Rightarrow> string" where
  "ip_string ip =
     (if ip = [] then ''<nil>''
      else if length ip \<noteq> 4 \<and> length ip \<noteq> 16 then ''?'' @ hex_string ip
      else case to4 ip of Some b \<Rightarrow> v4_string b | None \<Rightarrow> v6_string ip)"

section \<open>Carrier addresses\<close>

definition ip_equal :: "bytes \<Rightarrow> bytes \<Rightarrow> bool" where
  "ip_equal ip x =
     (if length ip = length x then ip = x
      else if length ip = 4 \<and> length x = 16 then take 12 x = v4_in_v6 \<and> ip = drop 12 x
      else if length ip = 16 \<and> length x = 4 then take 12 ip = v4_in_v6 \<and> drop 12 ip = x
      else False)"

text \<open>A \<open>*net.UDPAddr\<close> (IP, port, zone), a \<open>*net.IPAddr\<close> (IP, zone), or any other
  implementation, of which only \<open>String()\<close> is used.\<close>

datatype addr = UDPAddr bytes int string | IPAddr bytes string | OtherAddr string

fun addr_String :: "addr \<Rightarrow> string" where
  "addr_String (UDPAddr ip port zone) =
     (let h = (if ip = [] then [] else ip_string ip) in
      join_host_port (if zone \<noteq> [] then h @ ''%'' @ zone else h) (itoa port))"
| "addr_String (IPAddr ip zone) =
     (let h = (if ip = [] then [] else ip_string ip) in if zone \<noteq> [] then h @ ''%'' @ zone else h)"
| "addr_String (OtherAddr s) = s"

definition sameAddr :: "addr option \<Rightarrow> addr option \<Rightarrow> bool" where
  "sameAddr a b =
     (case (a, b) of
        (None, _) \<Rightarrow> b = None
      | (_, None) \<Rightarrow> False
      | (Some x, Some y) \<Rightarrow>
          (case x of
             UDPAddr ip port z \<Rightarrow> (case y of UDPAddr ip' port' z' \<Rightarrow> port = port' \<and> ip_equal ip ip' | _ \<Rightarrow> False)
           | IPAddr ip z \<Rightarrow> (case y of IPAddr ip' z' \<Rightarrow> ip_equal ip ip' | _ \<Rightarrow> False)
           | OtherAddr s \<Rightarrow> s = addr_String y))"

lemma ip_equal_refl [simp]: "ip_equal ip ip"
  by (simp add: ip_equal_def)

lemma sameAddr_refl [simp]: "sameAddr a a"
  by (auto simp: sameAddr_def split: option.splits addr.splits)

lemma sameAddr_None [simp]: "sameAddr None b \<longleftrightarrow> b = None" "sameAddr a None \<longleftrightarrow> a = None"
  by (auto simp: sameAddr_def split: option.splits)

lemma ip_equal_sym: "ip_equal a b \<longleftrightarrow> ip_equal b a"
  by (auto simp: ip_equal_def)

end
