(* ===== verification/Multipath.thy ===== *)
theory Multipath
  imports GoNet
begin

text \<open>
  Several sockets as one carrier: \<open>internal/tunnel/l3/multipath.go\<close> (configuration, round-robin
  writing, the shared receive queue, the derived ports) and the plain UDP carrier of
  \<open>internal/tunnel/l3/carrier.go\<close> (\<open>udpOverhead\<close>, \<open>knownCarrier\<close>, \<open>openUDPPaths\<close>,
  \<open>pinnedCarrier\<close>).

  The sockets are the kernel's: \<open>below\<close> is the result of a write on one, and a read is given as its
  outcome. What a write hands to a socket is returned as a list of datagrams with destinations. A
  \<open>select\<close> with several ready cases picks one of them: the pick is an argument.
\<close>

section \<open>Configuration\<close>

definition maxPaths :: int where "maxPaths = 8"
definition pathQueue :: nat where "pathQueue = 1024"
definition ipv4HeaderLen :: int where "ipv4HeaderLen = 20"
definition ipv6HeaderLen :: int where "ipv6HeaderLen = 40"
definition udpHeaderLen :: int where "udpHeaderLen = 8"

datatype path_error =
    pathsNegative int | pathsTooMany int | pathNoHostPort string | pathNoPort string | pathPastEnd int int
  | pathSocket string

record multipath_config = mc_Paths :: int

definition mp_Enabled :: "multipath_config \<Rightarrow> bool" where "mp_Enabled m \<longleftrightarrow> 1 < mc_Paths m"

definition mp_Validate :: "multipath_config \<Rightarrow> path_error + unit" where
  "mp_Validate m =
     (if mc_Paths m < 0 then Inl (pathsNegative (mc_Paths m))
      else if maxPaths < mc_Paths m then Inl (pathsTooMany (mc_Paths m))
      else Inr ())"

definition udpOverhead :: "addr \<Rightarrow> int" where
  "udpOverhead a =
     (case a of
        UDPAddr ip port zone \<Rightarrow>
          if to4 ip = None \<and> ip \<noteq> [] then ipv6HeaderLen + udpHeaderLen else ipv4HeaderLen + udpHeaderLen
      | _ \<Rightarrow> ipv4HeaderLen + udpHeaderLen)"

definition knownCarrier :: "string \<Rightarrow> bool" where
  "knownCarrier name \<longleftrightarrow> name \<in> {''udp'', ''pck'', ''xdi'', ''spoof'', ''quic'', ''sni''}"

section \<open>One path\<close>

type_synonym outgoing = "(bytes \<times> addr) list"

record pinned = pin_peer :: "addr option"

definition pinned_WriteTo ::
  "(bytes \<Rightarrow> addr \<Rightarrow> string + nat) \<Rightarrow> pinned \<Rightarrow> bytes \<Rightarrow> addr option \<Rightarrow> outgoing \<times> (string + nat)" where
  "pinned_WriteTo below c p a =
     (let dst = (case pin_peer c of None \<Rightarrow> a | Some d \<Rightarrow> Some d) in
      case dst of
        None \<Rightarrow> ([], Inr (length p))
      | Some d \<Rightarrow> ([(p, d)], below p d))"

definition pinned_ReadFrom ::
  "pinned \<Rightarrow> string + bytes \<times> addr option \<Rightarrow> pinned \<times> (string + bytes \<times> addr option)" where
  "pinned_ReadFrom c r =
     (case r of
        Inr (data, Some a) \<Rightarrow> (c\<lparr>pin_peer := Some a\<rparr>, r)
      | _ \<Rightarrow> (c, r))"

section \<open>Several paths\<close>

record multipath =
  mp_paths :: "pinned list"
  mp_next :: u32
  mp_reported :: "addr option"
  mp_in :: "(bytes \<times> addr option) list"
  mp_closed :: bool
  mp_stopped :: "nat list"

datatype udp_carrier = OnePath pinned | ManyPaths multipath

definition newMultipathCarrier :: "pinned list \<Rightarrow> addr option \<Rightarrow> udp_carrier" where
  "newMultipathCarrier paths reported =
     (if length paths = 1 then OnePath (hd paths)
      else ManyPaths \<lparr>mp_paths = paths, mp_next = 0, mp_reported = reported, mp_in = [], mp_closed = False,
                      mp_stopped = []\<rparr>)"

text \<open>One round of the pump of path \<open>i\<close>: a failed read stops the pump; a datagram is queued, or
  dropped when the queue is full. When the carrier is closed and the queue has room both cases
  are ready.\<close>

definition mp_pump :: "multipath \<Rightarrow> nat \<Rightarrow> string + bytes \<times> addr option \<Rightarrow> bool \<Rightarrow> multipath" where
  "mp_pump c i r pick_closed =
     (if i \<in> set (mp_stopped c) \<or> length (mp_paths c) \<le> i then c
      else let (pin, r') = pinned_ReadFrom (mp_paths c ! i) r;
               c = c\<lparr>mp_paths := (mp_paths c)[i := pin]\<rparr>
           in case r' of
                Inl e \<Rightarrow> c\<lparr>mp_stopped := i # mp_stopped c\<rparr>
              | Inr (data, a) \<Rightarrow>
                  if mp_closed c \<and> (pick_closed \<or> length (mp_in c) \<ge> pathQueue) then c\<lparr>mp_stopped := i # mp_stopped c\<rparr>
                  else if length (mp_in c) < pathQueue then c\<lparr>mp_in := mp_in c @ [(data, a)]\<rparr>
                  else c)"

definition mp_WriteTo ::
  "(nat \<Rightarrow> bytes \<Rightarrow> addr \<Rightarrow> string + nat) \<Rightarrow> multipath \<Rightarrow> bytes \<Rightarrow> addr option \<Rightarrow>
   multipath \<times> nat \<times> outgoing \<times> (string + nat)" where
  "mp_WriteTo below c p a =
     (let c = c\<lparr>mp_next := mp_next c + 1\<rparr>;
          i = unat (mp_next c - 1) mod length (mp_paths c);
          (out, r) = pinned_WriteTo (below i) (mp_paths c ! i) p None
      in (c, i, out, r))"

datatype mp_ready = readyPacket | readyClosed | readyTimeout

text \<open>\<open>None\<close> when the chosen case is not ready.\<close>

definition mp_ReadFrom ::
  "multipath \<Rightarrow> bool \<Rightarrow> mp_ready \<Rightarrow> nat \<Rightarrow> (multipath \<times> (string + bytes \<times> addr option)) option" where
  "mp_ReadFrom c deadline_passed pick len =
     (case pick of
        readyPacket \<Rightarrow>
          (case mp_in c of
             [] \<Rightarrow> None
           | (data, a) # rest \<Rightarrow> Some (c\<lparr>mp_in := rest\<rparr>, Inr (take len data, mp_reported c)))
      | readyClosed \<Rightarrow> if mp_closed c then Some (c, Inl ''closed'') else None
      | readyTimeout \<Rightarrow> if deadline_passed then Some (c, Inl ''i/o timeout'') else None)"

definition mp_Close :: "multipath \<Rightarrow> multipath" where
  "mp_Close c = c\<lparr>mp_closed := True\<rparr>"

section \<open>Opening\<close>

definition pathAddr :: "string \<Rightarrow> int \<Rightarrow> path_error + string" where
  "pathAddr base i =
     (case split_host_port base of
        None \<Rightarrow> Inl (pathNoHostPort base)
      | Some (host, portStr) \<Rightarrow>
          (case atoi portStr of
             None \<Rightarrow> Inl (pathNoPort base)
           | Some port \<Rightarrow>
               if port + i > 65535 then Inl (pathPastEnd (i + 1) port)
               else Inr (join_host_port host (itoa (port + i)))))"

text \<open>The two loops of \<open>openUDPPaths\<close>: \<open>dial\<close> resolves and opens one path and gives its peer,
  \<open>listen\<close> binds one.\<close>

fun open_dial :: "(string \<Rightarrow> string + addr) \<Rightarrow> string \<Rightarrow> int \<Rightarrow> nat \<Rightarrow> path_error + pinned list" where
  "open_dial dial base i 0 = Inr []"
| "open_dial dial base i (Suc left) =
     (case pathAddr base i of
        Inl e \<Rightarrow> Inl e
      | Inr a \<Rightarrow>
          (case dial a of
             Inl e \<Rightarrow> Inl (pathSocket e)
           | Inr peer \<Rightarrow>
               (case open_dial dial base (i + 1) left of
                  Inl e \<Rightarrow> Inl e
                | Inr ps \<Rightarrow> Inr (\<lparr>pin_peer = Some peer\<rparr> # ps))))"

fun open_listen :: "(string \<Rightarrow> string + unit) \<Rightarrow> string \<Rightarrow> int \<Rightarrow> nat \<Rightarrow> path_error + pinned list" where
  "open_listen listen base i 0 = Inr []"
| "open_listen listen base i (Suc left) =
     (case pathAddr base i of
        Inl e \<Rightarrow> Inl e
      | Inr a \<Rightarrow>
          (case listen a of
             Inl e \<Rightarrow> Inl (pathSocket e)
           | Inr _ \<Rightarrow>
               (case open_listen listen base (i + 1) left of
                  Inl e \<Rightarrow> Inl e
                | Inr ps \<Rightarrow> Inr (\<lparr>pin_peer = None\<rparr> # ps))))"

definition openUDPPaths ::
  "(string \<Rightarrow> string + addr) \<Rightarrow> (string \<Rightarrow> string + unit) \<Rightarrow> bool \<Rightarrow> string \<Rightarrow> int \<Rightarrow>
   path_error + udp_carrier \<times> addr option" where
  "openUDPPaths dial listen is_dial base paths =
     (let n = nat (if paths < 1 then 1 else paths) in
      if is_dial then
        (case open_dial dial base 0 n of
           Inl e \<Rightarrow> Inl e
         | Inr ps \<Rightarrow> let first = (case ps of [] \<Rightarrow> None | p # _ \<Rightarrow> pin_peer p)
                    in Inr (newMultipathCarrier ps first, first))
      else
        (case open_listen listen base 0 n of
           Inl e \<Rightarrow> Inl e
         | Inr ps \<Rightarrow> Inr (newMultipathCarrier ps None, None)))"

text \<open>The carrier as the tunnel holds it: one write and one read of either shape.\<close>

definition udp_WriteTo :: "udp_carrier \<Rightarrow> bytes \<Rightarrow> addr option \<Rightarrow> udp_carrier \<times> outgoing" where
  "udp_WriteTo c p a =
     (case c of
        OnePath pin \<Rightarrow> (c, fst (pinned_WriteTo (\<lambda>p d. Inr (length p)) pin p a))
      | ManyPaths m \<Rightarrow>
          (let (m', i, out, r) = mp_WriteTo (\<lambda>i p d. Inr (length p)) m p a in (ManyPaths m', out)))"

section \<open>Runs\<close>

text \<open>The paths a sequence of writes uses.\<close>

fun write_paths :: "(nat \<Rightarrow> bytes \<Rightarrow> addr \<Rightarrow> string + nat) \<Rightarrow> multipath \<Rightarrow> bytes list \<Rightarrow> nat list" where
  "write_paths below c [] = []"
| "write_paths below c (p # ps) = (let (c', i, _, _) = mp_WriteTo below c p None in i # write_paths below c' ps)"

lemma write_paths_eq:
  "unat (mp_next c) + length ps < 2 ^ 32 \<Longrightarrow>
   write_paths below c ps = map (\<lambda>j. (unat (mp_next c) + j) mod length (mp_paths c)) [0..<length ps]"
proof (induction ps arbitrary: c)
  case (Cons p ps)
  define c' where "c' = c\<lparr>mp_next := mp_next c + 1\<rparr>"
  have n: "unat (mp_next c + 1) = unat (mp_next c) + 1"
    using Cons.prems by (simp add: unat_word_ariths)
  have step: "write_paths below c (p # ps) = unat (mp_next c) mod length (mp_paths c) # write_paths below c' ps"
    by (simp add: mp_WriteTo_def Let_def c'_def split: prod.splits)
  have ih: "write_paths below c' ps = map (\<lambda>j. (unat (mp_next c) + 1 + j) mod length (mp_paths c)) [0..<length ps]"
    using Cons.IH [of c'] Cons.prems n by (simp add: c'_def)
  show ?case unfolding step ih
    by (simp add: upt_conv_Cons map_Suc_upt [symmetric] comp_def del: upt_Suc)
qed simp

lemma consecutive_residues:
  assumes "0 < n"
  shows "distinct (map (\<lambda>j. (s + j) mod n) [0..<n]) \<and> set (map (\<lambda>j. (s + j) mod n) [0..<n]) = {..<n}"
proof -
  have inj: "inj_on (\<lambda>j. (s + j) mod n) {0..<n}"
  proof (rule inj_onI)
    fix i j assume ij: "i \<in> {0..<n}" "j \<in> {0..<n}" "(s + i) mod n = (s + j) mod n"
    then show "i = j"
      using mod_eq_near [of "s + i" n "s + j"] mod_eq_near [of "s + j" n "s + i"] by (cases "i \<le> j") (auto simp: less_imp_diff_less)
  qed
  moreover have "(\<lambda>j. (s + j) mod n) ` {0..<n} = {..<n}"
    using inj assms by (intro card_subset_eq) (auto simp: card_image)
  ultimately show ?thesis by (simp add: distinct_map)
qed

lemma pathAddr_joined:
  assumes "CHR ''['' \<notin> set host" "CHR '']'' \<notin> set host" "0 \<le> port" "port + i \<le> 65535" "0 \<le> i"
  shows "pathAddr (join_host_port host (itoa port)) i = Inr (join_host_port host (itoa (port + i)))"
proof -
  have "ch \<notin> set (itoa port)" if "ch \<in> {CHR '':'', CHR ''['', CHR '']''}" for ch
  proof
    assume "ch \<in> set (itoa port)"
    then have "is_digit ch" using assms(3) show_nat_digits [of "nat port"] by (simp add: itoa_def list_all_iff)
    then show False using that by (auto simp: is_digit_def)
  qed
  then have "split_host_port (join_host_port host (itoa port)) = Some (host, itoa port)"
    using assms(1,2) by (intro split_join_host_port) auto
  moreover have "atoi (itoa port) = Some port" using assms by (intro atoi_itoa) auto
  ultimately show ?thesis using assms(4) by (simp add: pathAddr_def)
qed

lemma open_dial_peers:
  assumes h: "CHR ''['' \<notin> set host" "CHR '']'' \<notin> set host" "0 \<le> port"
    and d: "\<And>a. dial a = Inr (peer a)"
  shows "0 \<le> i \<Longrightarrow> port + i + int n \<le> 65536 \<Longrightarrow>
    open_dial dial (join_host_port host (itoa port)) i n =
      Inr (map (\<lambda>j. \<lparr>pin_peer = Some (peer (join_host_port host (itoa (port + i + int j))))\<rparr>) [0..<n])"
proof (induction n arbitrary: i)
  case (Suc n)
  have "pathAddr (join_host_port host (itoa port)) i = Inr (join_host_port host (itoa (port + i)))"
    using Suc.prems by (intro pathAddr_joined [OF h]) auto
  then show ?case using Suc d
    by (simp add: upt_conv_Cons map_Suc_upt [symmetric] comp_def add.assoc del: upt_Suc)
qed simp

lemma open_listen_paths:
  assumes h: "CHR ''['' \<notin> set host" "CHR '']'' \<notin> set host" "0 \<le> port" and l: "\<And>a. listen a = Inr ()"
  shows "0 \<le> i \<Longrightarrow> port + i + int n \<le> 65536 \<Longrightarrow>
    open_listen listen (join_host_port host (itoa port)) i n = Inr (replicate n \<lparr>pin_peer = None\<rparr>)"
proof (induction n arbitrary: i)
  case (Suc n)
  have "pathAddr (join_host_port host (itoa port)) i = Inr (join_host_port host (itoa (port + i)))"
    using Suc.prems by (intro pathAddr_joined [OF h]) auto
  then show ?case using Suc l by simp
qed simp

text \<open>A path follows whoever sent to it last, before anything has authenticated.\<close>

lemma pinned_follows_sender:
  "fst (pinned_WriteTo below (fst (pinned_ReadFrom c (Inr (junk, Some a)))) p dst) = [(p, a)]"
  by (simp add: pinned_ReadFrom_def pinned_WriteTo_def Let_def)

section \<open>Properties\<close>

text \<open>Writes are spread evenly: any \<open>n\<close> consecutive writes of a carrier of \<open>n\<close> paths use every
  path exactly once (as long as the 32-bit counter does not wrap among them).\<close>

theorem writes_use_every_path:
  assumes "length ps = length (mp_paths c)" "mp_paths c \<noteq> []" "unat (mp_next c) + length ps < 2 ^ 32"
  shows "distinct (write_paths below c ps) \<and> set (write_paths below c ps) = {..<length (mp_paths c)}"
  using write_paths_eq [OF assms(3)] consecutive_residues [of "length (mp_paths c)" "unat (mp_next c)"] assms(1,2)
  by simp

theorem writes_use_every_path_witness:
  "distinct (write_paths (\<lambda>i p d. Inr 0) \<lparr>mp_paths = replicate 4 \<lparr>pin_peer = None\<rparr>, mp_next = 7, mp_reported = None,
     mp_in = [], mp_closed = False, mp_stopped = []\<rparr> [[1], [2], [3], [4]])"
  using writes_use_every_path [of "[[1], [2], [3], [4]]" "\<lparr>mp_paths = replicate 4 \<lparr>pin_peer = None\<rparr>, mp_next = 7,
     mp_reported = None, mp_in = [], mp_closed = False, mp_stopped = []\<rparr>" "\<lambda>i p d. Inr 0"]
  by simp

text \<open>The ports are derived, not negotiated: dialling over \<open>n\<close> paths from \<open>host:port\<close> opens paths
  to \<open>port\<close>, \<open>port + 1\<close>, ..., in order, and reports the first peer as the tunnel's.\<close>

theorem dialled_paths_take_consecutive_ports:
  assumes "CHR ''['' \<notin> set host" "CHR '']'' \<notin> set host" "0 \<le> port" "1 < n" "port + n \<le> 65536"
    and "\<And>a. dial a = Inr (peer a)"
  shows "openUDPPaths dial listen True (join_host_port host (itoa port)) n =
     Inr (newMultipathCarrier (map (\<lambda>j. \<lparr>pin_peer = Some (peer (join_host_port host (itoa (port + int j))))\<rparr>) [0..<nat n])
            (Some (peer (join_host_port host (itoa port)))),
          Some (peer (join_host_port host (itoa port))))"
proof -
  have "0 < nat n" using assms(4) by simp
  then obtain k where "nat n = Suc k" using gr0_conv_Suc by blast
  then show ?thesis
    using open_dial_peers [OF assms(1-3,6), of 0 "nat n"] assms(4,5)
    by (simp add: openUDPPaths_def Let_def upt_conv_Cons del: upt_Suc)
qed

theorem dialled_paths_take_consecutive_ports_witness:
  "openUDPPaths (\<lambda>a. Inr (OtherAddr a)) (\<lambda>a. Inr ()) True (join_host_port ''h'' (itoa 9000)) 2 =
     Inr (newMultipathCarrier (map (\<lambda>j. \<lparr>pin_peer = Some (OtherAddr (join_host_port ''h'' (itoa (9000 + int j))))\<rparr>) [0..<nat 2])
            (Some (OtherAddr (join_host_port ''h'' (itoa 9000)))),
          Some (OtherAddr (join_host_port ''h'' (itoa 9000))))"
  by (rule dialled_paths_take_consecutive_ports [where peer = OtherAddr]) simp_all

end
