(* ===== verification/L3Config.thy ===== *)
theory L3Config
  imports Mtu MssClamp Portmap Fec Multipath
begin

text \<open>
  The configuration of a layer-3 tunnel (\<open>internal/tunnel/l3/config.go\<close>): the record, and
  \<open>Validate\<close> with \<open>validateTunnelAddr\<close>. The fields of the forged-source and packet-level carriers
  that this package only passes on are left out, but for \<open>spoof_peer_ip\<close>, which \<open>Validate\<close> reads.
\<close>

section \<open>The configuration\<close>

record l3_config =
  c_Mode :: string
  c_Addr :: string
  c_Token :: string
  c_Carrier :: string
  c_Encap :: string
  c_GREKey :: u32
  c_Iface :: string
  c_LocalIP :: string
  c_PeerIP :: string
  c_MTU :: int
  c_SockBuf :: int
  c_FEC :: fec_config
  c_Multipath :: multipath_config
  c_TxQueueLen :: int
  c_Qdisc :: string
  c_AutoMTU :: bool
  c_MSSClamp :: int
  c_Ports :: "string list"
  c_AcceptUDP :: bool
  c_MaxConnections :: int
  c_BandwidthMbps :: int
  c_SpoofPeerIP :: string

definition ModeDial :: string where "ModeDial = ''dial''"
definition ModeListen :: string where "ModeListen = ''listen''"
definition defaultIfaceName :: string where "defaultIfaceName = ''bp0''"
definition defaultTxQueueLen :: int where "defaultTxQueueLen = 4096"
definition defaultQdisc :: string where "defaultQdisc = ''fq_codel''"

datatype config_error =
    modeRequired | modeUnknown string | addrRequired | addrNotHostPort string | tokenRequired
  | badEncap encap_error | carrierUnknown string | spoofNeedsPeer | badFEC fec_error | badPaths path_error
  | pathsNotUDP string | ipRequired string | ipHasPrefix string string | ipBadPrefix string string
  | ipInvalid string string | peerRequired string | txQueueAbsurd int | mtuRange int
  | clampTooLarge int int | clampNotASize int | badPorts portmap_error

section \<open>Validation\<close>

definition validateTunnelAddr :: "string \<Rightarrow> string \<Rightarrow> bool \<Rightarrow> config_error + unit" where
  "validateTunnelAddr field value0 allowPrefix =
     (let value = trim_space value0 in
      if value = [] then Inl (ipRequired field)
      else if CHR ''/'' \<in> set value then
        (if \<not> allowPrefix then Inl (ipHasPrefix field value)
         else case ParseCIDR value of None \<Rightarrow> Inl (ipBadPrefix field value) | Some _ \<Rightarrow> Inr ())
      else case ParseIP value of None \<Rightarrow> Inl (ipInvalid field value) | Some _ \<Rightarrow> Inr ())"

text \<open>\<open>Validate\<close> in four stages, in the order of the code: who the tunnel is with, what it runs
  over, its addresses, and its sizes and ports. Each stage returns the configuration with its
  defaults filled in.\<close>

definition validate_peer :: "l3_config \<Rightarrow> config_error + l3_config" where
  "validate_peer c0 =
     (let c = c0\<lparr>c_Mode := to_lower (trim_space (c_Mode c0))\<rparr> in
      if c_Mode c = [] then Inl modeRequired
      else if c_Mode c \<noteq> ModeDial \<and> c_Mode c \<noteq> ModeListen then Inl (modeUnknown (c_Mode c))
      else if trim_space (c_Addr c) = [] then Inl addrRequired
      else if split_host_port (c_Addr c) = None then Inl (addrNotHostPort (c_Addr c))
      else if trim_space (c_Token c) = [] then Inl tokenRequired
      else Inr c)"

definition validate_carrier :: "l3_config \<Rightarrow> config_error + l3_config" where
  "validate_carrier c0 =
     (case NewEncap (c_Encap c0) (c_GREKey c0) of
        Inl e \<Rightarrow> Inl (badEncap e)
      | Inr _ \<Rightarrow>
          let carrier = to_lower (trim_space (c_Carrier c0));
              carrier = (if carrier = [] then ''udp'' else carrier);
              c = c0\<lparr>c_Encap := ''gre'', c_Carrier := carrier\<rparr> in
          if \<not> knownCarrier (c_Carrier c) then Inl (carrierUnknown (c_Carrier c))
          else if c_Carrier c = ''spoof'' \<and> c_Mode c = ModeListen \<and> c_SpoofPeerIP c = [] then Inl spoofNeedsPeer
          else case fec_Validate (c_FEC c) of
                 Inl e \<Rightarrow> Inl (badFEC e)
               | Inr _ \<Rightarrow>
                   (case mp_Validate (c_Multipath c) of
                      Inl e \<Rightarrow> Inl (badPaths e)
                    | Inr _ \<Rightarrow>
                        if mp_Enabled (c_Multipath c) \<and> c_Carrier c \<noteq> ''udp'' then Inl (pathsNotUDP (c_Carrier c))
                        else Inr c))"

definition validate_addrs :: "l3_config \<Rightarrow> config_error + l3_config" where
  "validate_addrs c0 =
     (let c = c0\<lparr>c_Iface := (if c_Iface c0 = [] then defaultIfaceName else c_Iface c0)\<rparr> in
      case validateTunnelAddr ''local_ip'' (c_LocalIP c) True of
        Inl e \<Rightarrow> Inl e
      | Inr _ \<Rightarrow>
          (case (if c_PeerIP c \<noteq> [] then validateTunnelAddr ''peer_ip'' (c_PeerIP c) False else Inr ()) of
             Inl e \<Rightarrow> Inl e
           | Inr _ \<Rightarrow>
               if CHR ''/'' \<notin> set (c_LocalIP c) \<and> c_PeerIP c = [] then Inl (peerRequired (c_LocalIP c)) else Inr c))"

definition validate_sizes :: "l3_config \<Rightarrow> config_error + l3_config" where
  "validate_sizes c0 =
     (let c = c0\<lparr>c_TxQueueLen := (if c_TxQueueLen c0 \<le> 0 then defaultTxQueueLen else c_TxQueueLen c0)\<rparr> in
      if c_TxQueueLen c > 2 ^ 20 then Inl (txQueueAbsurd (c_TxQueueLen c))
      else
        let c = c\<lparr>c_Qdisc := (if c_Qdisc c = [] then defaultQdisc else c_Qdisc c)\<rparr>;
            c = c\<lparr>c_MTU := (if c_MTU c = 0 then defaultMTU else c_MTU c)\<rparr> in
        if c_MTU c < minMTU \<or> c_MTU c > maxMTU then Inl (mtuRange (c_MTU c))
        else if c_MSSClamp c > 0 \<and> c_MSSClamp c > c_MTU c - OverheadV4 then Inl (clampTooLarge (c_MSSClamp c) (c_MTU c))
        else if c_MSSClamp c < 0 \<and> c_MSSClamp c \<noteq> mss_Off then Inl (clampNotASize (c_MSSClamp c))
        else if c_Ports c \<noteq> [] then
          (case Expand (c_Ports c) (c_PeerIP c) of Inl e \<Rightarrow> Inl (badPorts e) | Inr _ \<Rightarrow> Inr c)
        else Inr c)"

definition config_Validate :: "l3_config \<Rightarrow> config_error + l3_config" where
  "config_Validate c0 =
     (case validate_peer c0 of
        Inl e \<Rightarrow> Inl e
      | Inr c1 \<Rightarrow>
          (case validate_carrier c1 of
             Inl e \<Rightarrow> Inl e
           | Inr c2 \<Rightarrow> (case validate_addrs c2 of Inl e \<Rightarrow> Inl e | Inr c3 \<Rightarrow> validate_sizes c3)))"

section \<open>What a validated configuration satisfies\<close>

text \<open>Everything the engine relies on once \<open>Validate\<close> has returned.\<close>

definition config_ok :: "l3_config \<Rightarrow> bool" where
  "config_ok c \<longleftrightarrow>
     (c_Mode c = ModeDial \<or> c_Mode c = ModeListen) \<and> trim_space (c_Addr c) \<noteq> [] \<and> split_host_port (c_Addr c) \<noteq> None \<and>
     trim_space (c_Token c) \<noteq> [] \<and>
     c_Encap c = ''gre'' \<and> knownCarrier (c_Carrier c) \<and>
     \<not> (c_Carrier c = ''spoof'' \<and> c_Mode c = ModeListen \<and> c_SpoofPeerIP c = []) \<and>
     fec_Validate (c_FEC c) = Inr () \<and> mp_Validate (c_Multipath c) = Inr () \<and>
     (mp_Enabled (c_Multipath c) \<longrightarrow> c_Carrier c = ''udp'') \<and>
     c_Iface c \<noteq> [] \<and> validateTunnelAddr ''local_ip'' (c_LocalIP c) True = Inr () \<and>
     (c_PeerIP c \<noteq> [] \<longrightarrow> validateTunnelAddr ''peer_ip'' (c_PeerIP c) False = Inr ()) \<and>
     (CHR ''/'' \<in> set (c_LocalIP c) \<or> c_PeerIP c \<noteq> []) \<and>
     0 < c_TxQueueLen c \<and> c_TxQueueLen c \<le> 2 ^ 20 \<and> c_Qdisc c \<noteq> [] \<and>
     minMTU \<le> c_MTU c \<and> c_MTU c \<le> maxMTU \<and>
     (c_MSSClamp c = mss_Off \<or> 0 \<le> c_MSSClamp c \<and> c_MSSClamp c \<le> c_MTU c - OverheadV4) \<and>
     (c_Ports c \<noteq> [] \<longrightarrow> (\<exists>ms. Expand (c_Ports c) (c_PeerIP c) = Inr ms))"

lemma validate_peer_result:
  "validate_peer c = Inr c1 \<Longrightarrow>
   (c_Mode c1 = ModeDial \<or> c_Mode c1 = ModeListen) \<and> trim_space (c_Addr c1) \<noteq> [] \<and>
   split_host_port (c_Addr c1) \<noteq> None \<and> trim_space (c_Token c1) \<noteq> [] \<and> c1 = c\<lparr>c_Mode := c_Mode c1\<rparr>"
  by (auto simp: validate_peer_def Let_def split: if_splits)

lemma validate_carrier_result:
  "validate_carrier c = Inr c1 \<Longrightarrow>
   c_Encap c1 = ''gre'' \<and> knownCarrier (c_Carrier c1) \<and>
   \<not> (c_Carrier c1 = ''spoof'' \<and> c_Mode c1 = ModeListen \<and> c_SpoofPeerIP c1 = []) \<and>
   fec_Validate (c_FEC c1) = Inr () \<and> mp_Validate (c_Multipath c1) = Inr () \<and>
   (mp_Enabled (c_Multipath c1) \<longrightarrow> c_Carrier c1 = ''udp'') \<and> c1 = c\<lparr>c_Encap := ''gre'', c_Carrier := c_Carrier c1\<rparr>"
  by (auto simp: validate_carrier_def Let_def split: if_splits sum.splits)

lemma validate_addrs_result:
  "validate_addrs c = Inr c1 \<Longrightarrow>
   c_Iface c1 \<noteq> [] \<and> validateTunnelAddr ''local_ip'' (c_LocalIP c1) True = Inr () \<and>
   (c_PeerIP c1 \<noteq> [] \<longrightarrow> validateTunnelAddr ''peer_ip'' (c_PeerIP c1) False = Inr ()) \<and>
   (CHR ''/'' \<in> set (c_LocalIP c1) \<or> c_PeerIP c1 \<noteq> []) \<and> c1 = c\<lparr>c_Iface := c_Iface c1\<rparr>"
  by (auto simp: validate_addrs_def Let_def defaultIfaceName_def split: if_splits sum.splits)

lemma validate_sizes_result:
  assumes "validate_sizes c = Inr c1"
  shows "0 < c_TxQueueLen c1 \<and> c_TxQueueLen c1 \<le> 2 ^ 20 \<and> c_Qdisc c1 \<noteq> [] \<and>
   minMTU \<le> c_MTU c1 \<and> c_MTU c1 \<le> maxMTU \<and>
   (c_MSSClamp c1 = mss_Off \<or> 0 \<le> c_MSSClamp c1 \<and> c_MSSClamp c1 \<le> c_MTU c1 - OverheadV4) \<and>
   (c_Ports c1 \<noteq> [] \<longrightarrow> (\<exists>ms. Expand (c_Ports c1) (c_PeerIP c1) = Inr ms)) \<and>
   c1 = c\<lparr>c_TxQueueLen := c_TxQueueLen c1, c_Qdisc := c_Qdisc c1, c_MTU := c_MTU c1\<rparr>"
proof -
  define tx where "tx = (if c_TxQueueLen c \<le> 0 then defaultTxQueueLen else c_TxQueueLen c)"
  define qd where "qd = (if c_Qdisc c = [] then defaultQdisc else c_Qdisc c)"
  define mtu where "mtu = (if c_MTU c = 0 then defaultMTU else c_MTU c)"
  have d: "0 < tx" "qd \<noteq> []" by (auto simp: tx_def qd_def defaultTxQueueLen_def defaultQdisc_def)
  have r: "c1 = c\<lparr>c_TxQueueLen := tx, c_Qdisc := qd, c_MTU := mtu\<rparr> \<and> \<not> 2 ^ 20 < tx \<and>
      \<not> (mtu < minMTU \<or> maxMTU < mtu) \<and> \<not> (0 < c_MSSClamp c \<and> mtu - OverheadV4 < c_MSSClamp c) \<and>
      \<not> (c_MSSClamp c < 0 \<and> c_MSSClamp c \<noteq> mss_Off) \<and>
      (c_Ports c \<noteq> [] \<longrightarrow> (\<exists>ms. Expand (c_Ports c) (c_PeerIP c) = Inr ms))"
    using assms
    by (simp add: validate_sizes_def Let_def tx_def [symmetric] split: if_split_asm sum.split_asm)
      (auto simp: qd_def mtu_def)
  have m: "minMTU \<le> mtu" "mtu \<le> maxMTU" "OverheadV4 \<le> mtu" using r by (auto simp: minMTU_def OverheadV4_def)
  show ?thesis using r d m by (auto simp: not_less)
qed

lemma validate_peer_again:
  "c_Mode c = ModeDial \<or> c_Mode c = ModeListen \<Longrightarrow> trim_space (c_Addr c) \<noteq> [] \<Longrightarrow> split_host_port (c_Addr c) \<noteq> None \<Longrightarrow>
   trim_space (c_Token c) \<noteq> [] \<Longrightarrow> validate_peer c = Inr c"
proof -
  have w: "to_lower (trim_space ''dial'') = ''dial''" "to_lower (trim_space ''listen'') = ''listen''"
    by (simp_all add: trim_space_solid solid_def ascii_lower_def)
  assume a: "c_Mode c = ModeDial \<or> c_Mode c = ModeListen" "trim_space (c_Addr c) \<noteq> []" "split_host_port (c_Addr c) \<noteq> None"
    "trim_space (c_Token c) \<noteq> []"
  then have m: "to_lower (trim_space (c_Mode c)) = c_Mode c" using w by (auto simp: ModeDial_def ModeListen_def)
  show ?thesis using a unfolding validate_peer_def m Let_def by (auto simp: ModeDial_def ModeListen_def)
qed

lemma validate_carrier_again:
  assumes "c_Encap c = ''gre''" "knownCarrier (c_Carrier c)"
    "\<not> (c_Carrier c = ''spoof'' \<and> c_Mode c = ModeListen \<and> c_SpoofPeerIP c = [])"
    "fec_Validate (c_FEC c) = Inr ()" "mp_Validate (c_Multipath c) = Inr ()"
    "mp_Enabled (c_Multipath c) \<longrightarrow> c_Carrier c = ''udp''"
  shows "validate_carrier c = Inr c"
proof -
  have "to_lower (trim_space x) = x \<and> x \<noteq> []" if "knownCarrier x" for x
    using that by (auto simp: knownCarrier_def trim_space_solid solid_def ascii_lower_def)
  then have m: "to_lower (trim_space (c_Carrier c)) = c_Carrier c" "c_Carrier c \<noteq> []" using assms(2) by auto
  have "c\<lparr>c_Encap := ''gre'', c_Carrier := c_Carrier c\<rparr> = c" using assms(1) by simp
  then show ?thesis using assms m by (simp add: validate_carrier_def Let_def NewEncap_gre)
qed

lemma validate_addrs_again:
  "c_Iface c \<noteq> [] \<Longrightarrow> validateTunnelAddr ''local_ip'' (c_LocalIP c) True = Inr () \<Longrightarrow>
   c_PeerIP c \<noteq> [] \<longrightarrow> validateTunnelAddr ''peer_ip'' (c_PeerIP c) False = Inr () \<Longrightarrow>
   CHR ''/'' \<in> set (c_LocalIP c) \<or> c_PeerIP c \<noteq> [] \<Longrightarrow> validate_addrs c = Inr c"
  by (auto simp: validate_addrs_def Let_def)

lemma validate_sizes_again:
  assumes "0 < c_TxQueueLen c" "c_TxQueueLen c \<le> 2 ^ 20" "c_Qdisc c \<noteq> []" "minMTU \<le> c_MTU c" "c_MTU c \<le> maxMTU"
    "c_MSSClamp c = mss_Off \<or> 0 \<le> c_MSSClamp c \<and> c_MSSClamp c \<le> c_MTU c - OverheadV4"
    "c_Ports c \<noteq> [] \<longrightarrow> (\<exists>ms. Expand (c_Ports c) (c_PeerIP c) = Inr ms)"
  shows "validate_sizes c = Inr c"
proof -
  have "c_MTU c \<noteq> 0" "\<not> c_TxQueueLen c \<le> 0" using assms by (auto simp: minMTU_def)
  then have f: "c\<lparr>c_TxQueueLen := (if c_TxQueueLen c \<le> 0 then defaultTxQueueLen else c_TxQueueLen c)\<rparr> = c"
    "c\<lparr>c_Qdisc := (if c_Qdisc c = [] then defaultQdisc else c_Qdisc c)\<rparr> = c"
    "c\<lparr>c_MTU := (if c_MTU c = 0 then defaultMTU else c_MTU c)\<rparr> = c"
    using assms(3) by simp_all
  have "\<not> (c_MSSClamp c > 0 \<and> c_MSSClamp c > c_MTU c - OverheadV4)" "\<not> (c_MSSClamp c < 0 \<and> c_MSSClamp c \<noteq> mss_Off)"
    using assms(6) by (auto simp: mss_Off_def)
  then show ?thesis unfolding validate_sizes_def f Let_def using assms by auto
qed

lemma config_Validate_stages:
  "config_Validate c = Inr c4 \<longleftrightarrow>
   (\<exists>c1 c2 c3. validate_peer c = Inr c1 \<and> validate_carrier c1 = Inr c2 \<and> validate_addrs c2 = Inr c3 \<and>
      validate_sizes c3 = Inr c4)"
  by (auto simp: config_Validate_def split: sum.splits)

lemma config_Validate_ok:
  assumes "config_Validate c = Inr c4"
  shows "config_ok c4"
proof -
  obtain c1 c2 c3 where s: "validate_peer c = Inr c1" "validate_carrier c1 = Inr c2" "validate_addrs c2 = Inr c3"
    "validate_sizes c3 = Inr c4"
    using assms by (auto simp: config_Validate_stages)
  note r1 = validate_peer_result [OF s(1)] and r2 = validate_carrier_result [OF s(2)]
    and r3 = validate_addrs_result [OF s(3)] and r4 = validate_sizes_result [OF s(4)]
  obtain tx qd mtu where c4: "c4 = c3\<lparr>c_TxQueueLen := tx, c_Qdisc := qd, c_MTU := mtu\<rparr>" using r4 by blast
  obtain ifc where c3: "c3 = c2\<lparr>c_Iface := ifc\<rparr>" using r3 by blast
  obtain car where c2: "c2 = c1\<lparr>c_Encap := ''gre'', c_Carrier := car\<rparr>" using r2 by blast
  show ?thesis using r1 r2 r3 r4 unfolding config_ok_def c4 c3 c2 by simp
qed

lemma config_ok_Validate: "config_ok c \<Longrightarrow> config_Validate c = Inr c"
  unfolding config_ok_def config_Validate_stages
  by (intro exI conjI; (rule validate_peer_again validate_carrier_again validate_addrs_again validate_sizes_again)) simp_all

section \<open>Properties\<close>


definition demo_config :: "string \<Rightarrow> l3_config" where
  "demo_config mode = \<lparr>c_Mode = mode, c_Addr = ''h:9000'', c_Token = ''secret'', c_Carrier = ''udp'', c_Encap = ''gre'',
     c_GREKey = 0, c_Iface = ''bp0'', c_LocalIP = ''10.10.0.1/30'', c_PeerIP = ''10.10.0.2'', c_MTU = 1400, c_SockBuf = 0,
     c_FEC = \<lparr>fc_data = 10, fc_parity = 3\<rparr>, c_Multipath = \<lparr>mc_Paths = 4\<rparr>, c_TxQueueLen = 4096, c_Qdisc = ''fq_codel'',
     c_AutoMTU = True, c_MSSClamp = 0, c_Ports = [], c_AcceptUDP = False, c_MaxConnections = 0, c_BandwidthMbps = 0,
     c_SpoofPeerIP = []\<rparr>"

lemma demo_config_ok: "m = ModeDial \<or> m = ModeListen \<Longrightarrow> config_ok (demo_config m)"
proof -
  assume m: "m = ModeDial \<or> m = ModeListen"
  have t: "trim_space ''h:9000'' = ''h:9000''" "trim_space ''secret'' = ''secret''"
    "trim_space ''10.10.0.1/30'' = ''10.10.0.1/30''" "trim_space ''10.10.0.2'' = ''10.10.0.2''"
    by (simp_all add: trim_space_solid solid_def)
  have a: "split_host_port ''h:9000'' \<noteq> None" "ParseCIDR ''10.10.0.1/30'' = Some ([10, 10, 0, 1], 30)"
    "ParseIP ''10.10.0.2'' = Some [0, 0, 0, 0, 0, 0, 0, 0, 0, 0, 255, 255, 10, 10, 0, 2]"
    by code_simp+
  show ?thesis using m
    by (auto simp: config_ok_def demo_config_def t a validateTunnelAddr_def knownCarrier_def fec_Validate_def
        fec_Enabled_def mp_Validate_def maxPaths_def minMTU_def maxMTU_def OverheadV4_def)
qed


end
