(* ===== verification/Tunnel.thy ===== *)
theory Tunnel
  imports L3Config
begin

text \<open>
  The engine of \<open>internal/tunnel/l3/tunnel.go\<close> with the probe handlers of \<open>mtuprobe.go\<close>: the
  guarded state of a tunnel (which sessions are current, pending and previous, where the peer is,
  the cached handshake reply, the waiters of probes), every handler of the two pumps, the
  handshake loop of the dialling side, and the retirement of old sessions.

  Sessions are pointers in the code and one pump keeps using the pointer it resolved while the
  others move the slots, so the state has a store \<open>t_heap\<close> of sessions and the slots hold
  addresses in it. The environment of the engine is the record \<open>env\<close>: the Noise library, the cipher,
  and whether a write to the carrier or to the TUN device succeeds. Handlers return the new state
  and the writes they made; times, random draws and the outcome of a \<open>select\<close> are arguments. The
  receive handlers return \<open>None\<close> when the replay window's \<open>commit\<close> does not return. Log lines are
  left out, and so is the reuse of buffers.
\<close>

section \<open>State\<close>

definition handshakeAttempts :: nat where "handshakeAttempts = 6"
definition previousGrace :: int where "previousGrace = 30 * 1000000000"
definition repliesCap :: nat where "repliesCap = 4"

record stats =
  packetsIn :: u64
  packetsOut :: u64
  bytesIn :: u64
  bytesOut :: u64
  dropped :: u64
  handshakes :: u64

record 'k tunnel =
  t_cfg :: l3_config
  t_encap :: greEncap
  t_heap :: "'k session list"
  t_current :: "nat option"
  t_pending :: "nat option"
  t_previous :: "nat option"
  t_prevFrom :: int
  t_peer :: "addr option"
  t_mtuCurrent :: int
  t_waiters :: "u32 \<rightharpoonup> u32 list"
  t_replies :: "(u32 \<times> bytes) list"
  t_lastInitID :: u32
  t_lastReply :: "bytes option"
  t_stats :: stats
  t_published :: "string option"

record ('st, 'k) env =
  e_noise :: "('st, 'k) noise"
  e_enc :: "'k encrypt"
  e_dec :: "'k decrypt"
  e_write :: "bytes \<Rightarrow> addr option \<Rightarrow> bool"
  e_tun :: "bytes \<Rightarrow> bool"

datatype effect = ToCarrier bytes "addr option" | ToTun bytes

datatype tunnel_error =
    newConfig config_error | newEncap encap_error | errNoPeerAddress | errResolve | errSendHandshake
  | errHandshake session_error | errNoAnswer | errContextDone

definition tunnel_New :: "l3_config \<Rightarrow> tunnel_error + 'k tunnel" where
  "tunnel_New cfg0 =
     (case config_Validate cfg0 of
        Inl e \<Rightarrow> Inl (newConfig e)
      | Inr cfg \<Rightarrow>
          (case NewEncap (c_Encap cfg) (c_GREKey cfg) of
             Inl e \<Rightarrow> Inl (newEncap e)
           | Inr encap \<Rightarrow>
               Inr \<lparr>t_cfg = cfg, t_encap = encap, t_heap = [], t_current = None, t_pending = None, t_previous = None,
                    t_prevFrom = 0, t_peer = None, t_mtuCurrent = c_MTU cfg, t_waiters = Map.empty, t_replies = [],
                    t_lastInitID = 0, t_lastReply = None,
                    t_stats = \<lparr>packetsIn = 0, packetsOut = 0, bytesIn = 0, bytesOut = 0, dropped = 0, handshakes = 0\<rparr>,
                    t_published = None\<rparr>))"

definition add_dropped :: "'k tunnel \<Rightarrow> 'k tunnel" where
  "add_dropped t = t\<lparr>t_stats := (t_stats t)\<lparr>dropped := dropped (t_stats t) + 1\<rparr>\<rparr>"

definition add_handshake :: "'k tunnel \<Rightarrow> 'k tunnel" where
  "add_handshake t = t\<lparr>t_stats := (t_stats t)\<lparr>handshakes := handshakes (t_stats t) + 1\<rparr>\<rparr>"

definition add_in :: "nat \<Rightarrow> 'k tunnel \<Rightarrow> 'k tunnel" where
  "add_in n t = t\<lparr>t_stats := (t_stats t)\<lparr>packetsIn := packetsIn (t_stats t) + 1,
     bytesIn := bytesIn (t_stats t) + word_of_nat n\<rparr>\<rparr>"

definition add_out :: "nat \<Rightarrow> 'k tunnel \<Rightarrow> 'k tunnel" where
  "add_out n t = t\<lparr>t_stats := (t_stats t)\<lparr>packetsOut := packetsOut (t_stats t) + 1,
     bytesOut := bytesOut (t_stats t) + word_of_nat n\<rparr>\<rparr>"

text \<open>Operations on the session a pointer names.\<close>

definition seal_at :: "('st, 'k) env \<Rightarrow> 'k tunnel \<Rightarrow> nat \<Rightarrow> bytes \<Rightarrow> byte \<Rightarrow> 'k tunnel \<times> (session_error + bytes)" where
  "seal_at E t p plaintext kind =
     (let (s', r) = sealKind (e_enc E) (t_heap t ! p) plaintext kind in (t\<lparr>t_heap := (t_heap t)[p := s']\<rparr>, r))"

definition open_at ::
  "('st, 'k) env \<Rightarrow> 'k tunnel \<Rightarrow> nat \<Rightarrow> header \<Rightarrow> bytes \<Rightarrow> ('k tunnel \<times> (session_error + bytes)) option" where
  "open_at E t p h body =
     (case session_open (e_dec E) (t_heap t ! p) h body of
        None \<Rightarrow> None
      | Some (s', r) \<Rightarrow> Some (t\<lparr>t_heap := (t_heap t)[p := s']\<rparr>, r))"

definition alloc :: "'k tunnel \<Rightarrow> 'k session \<Rightarrow> 'k tunnel \<times> nat" where
  "alloc t s = (t\<lparr>t_heap := t_heap t @ [s]\<rparr>, length (t_heap t))"

section \<open>The guarded block\<close>

definition setPeer :: "addr option \<Rightarrow> 'k tunnel \<Rightarrow> 'k tunnel" where
  "setPeer a t = (if a = None then t else t\<lparr>t_peer := a\<rparr>)"

definition sendSession :: "'k tunnel \<Rightarrow> nat option" where
  "sendSession t = (if t_current t \<noteq> None then t_current t else t_pending t)"

definition slot_has :: "'k tunnel \<Rightarrow> nat option \<Rightarrow> u32 \<Rightarrow> bool" where
  "slot_has t sl sid = (case sl of None \<Rightarrow> False | Some p \<Rightarrow> s_id (t_heap t ! p) = sid)"

definition sessionFor :: "'k tunnel \<Rightarrow> u32 \<Rightarrow> nat option \<times> bool" where
  "sessionFor t sid =
     (if slot_has t (t_current t) sid then (t_current t, False)
      else if slot_has t (t_pending t) sid then (t_pending t, True)
      else if slot_has t (t_previous t) sid then (t_previous t, False)
      else (None, False))"

definition publishPeer :: "'k tunnel \<Rightarrow> 'k tunnel" where
  "publishPeer t = (case t_peer t of None \<Rightarrow> t | Some a \<Rightarrow> t\<lparr>t_published := Some (addr_String a)\<rparr>)"

definition installDialed :: "int \<Rightarrow> nat \<Rightarrow> 'k tunnel \<Rightarrow> 'k tunnel" where
  "installDialed now p t =
     publishPeer (add_handshake
       (t\<lparr>t_previous := t_current t, t_prevFrom := now, t_current := Some p, t_pending := None\<rparr>))"

definition promote :: "int \<Rightarrow> nat \<Rightarrow> 'k tunnel \<Rightarrow> 'k tunnel" where
  "promote now p t =
     (if t_pending t \<noteq> Some p then t
      else publishPeer (add_handshake
             (t\<lparr>t_previous := t_current t, t_prevFrom := now, t_current := Some p, t_pending := None\<rparr>)))"

definition slot_expired :: "'k tunnel \<Rightarrow> nat option \<Rightarrow> int \<Rightarrow> bool" where
  "slot_expired t sl now = (case sl of None \<Rightarrow> False | Some p \<Rightarrow> expired (t_heap t ! p) now)"

definition retireSessions :: "int \<Rightarrow> 'k tunnel \<Rightarrow> 'k tunnel" where
  "retireSessions now t =
     (let t = (if t_previous t \<noteq> None \<and> (now - t_prevFrom t > previousGrace \<or> slot_expired t (t_previous t) now)
               then t\<lparr>t_previous := None\<rparr> else t);
          t = (if slot_expired t (t_pending t) now then t\<lparr>t_pending := None\<rparr> else t);
          t = (if slot_expired t (t_current t) now then t\<lparr>t_current := None\<rparr> else t)
      in if t_current t = None \<and> t_pending t = None then t\<lparr>t_published := None\<rparr> else t)"

definition notePeer :: "addr option \<Rightarrow> 'k tunnel \<Rightarrow> 'k tunnel" where
  "notePeer from t =
     (if from = None then t else if sameAddr (t_peer t) from then t else t\<lparr>t_peer := from\<rparr>)"

section \<open>From the TUN device\<close>

text \<open>One packet of a batch, sealed under the session and sent to the peer that were resolved when the
  batch was read. The last component says that the pump stops.\<close>

definition pump_packet ::
  "('st, 'k) env \<Rightarrow> bool \<Rightarrow> nat option \<Rightarrow> addr option \<Rightarrow> bytes \<Rightarrow> 'k tunnel \<Rightarrow> 'k tunnel \<times> effect list \<times> bool" where
  "pump_packet E ended sess peer pkt t =
     (if pkt = [] then (t, [], False)
      else case sess of
             None \<Rightarrow> (add_dropped t, [], False)
           | Some p \<Rightarrow>
               if peer = None then (add_dropped t, [], False)
               else (case gre_Wrap (t_encap t) [] pkt of
                       Inl _ \<Rightarrow> (add_dropped t, [], False)
                     | Inr wrapped \<Rightarrow>
                         (case seal_at E t p wrapped typeData of
                            (t, Inl _) \<Rightarrow> (add_dropped t, [], False)
                          | (t, Inr sealed) \<Rightarrow>
                              if \<not> e_write E sealed peer then
                                (if ended then (t, [ToCarrier sealed peer], True)
                                 else (add_dropped t, [ToCarrier sealed peer], False))
                              else (add_out (length pkt) t, [ToCarrier sealed peer], False))))"

fun pump_packets ::
  "('st, 'k) env \<Rightarrow> bool \<Rightarrow> nat option \<Rightarrow> addr option \<Rightarrow> bytes list \<Rightarrow> 'k tunnel \<Rightarrow> 'k tunnel \<times> effect list \<times> bool" where
  "pump_packets E ended sess peer [] t = (t, [], False)"
| "pump_packets E ended sess peer (pkt # pkts) t =
     (let (t, out, stop) = pump_packet E ended sess peer pkt t in
      if stop then (t, out, True)
      else let (t, out', stop') = pump_packets E ended sess peer pkts t in (t, out @ out', stop'))"

definition pumpFromTUN ::
  "('st, 'k) env \<Rightarrow> bool \<Rightarrow> bytes list \<Rightarrow> 'k tunnel \<Rightarrow> 'k tunnel \<times> effect list \<times> bool" where
  "pumpFromTUN E ended batch t = pump_packets E ended (sendSession t) (t_peer t) batch t"

section \<open>From the carrier\<close>

definition handleInit ::
  "('st, 'k) env \<Rightarrow> int \<Rightarrow> nat \<Rightarrow> header \<Rightarrow> bytes \<Rightarrow> addr option \<Rightarrow> 'k tunnel \<Rightarrow> 'k tunnel \<times> effect list" where
  "handleInit E now seed h body from t =
     (if c_Mode (t_cfg t) \<noteq> ModeListen then (t, [])
      else case (if h_session h = t_lastInitID t then t_lastReply t else None) of
             Some reply \<Rightarrow> (t, [ToCarrier reply from])
           | None \<Rightarrow>
               let r = respond (e_noise E) seed now (c_Token (t_cfg t)) (h_session h) body (encapID (t_encap t)) in
               (case (r_error r, r_session r, r_reply r) of
                  (None, Some sess, Some reply) \<Rightarrow>
                    let (t, p) = alloc t sess;
                        t = t\<lparr>t_pending := Some p, t_lastInitID := h_session h, t_lastReply := Some reply\<rparr>;
                        t = (if t_current t = None then t\<lparr>t_peer := from\<rparr> else t)
                    in (publishPeer t, [ToCarrier reply from])
                | (_, _, Some reply) \<Rightarrow> (add_dropped t, [ToCarrier reply from])
                | (_, _, None) \<Rightarrow> (add_dropped t, [])))"

definition handleResp :: "header \<Rightarrow> bytes \<Rightarrow> 'k tunnel \<Rightarrow> 'k tunnel" where
  "handleResp h body t =
     (if c_Mode (t_cfg t) \<noteq> ModeDial then t
      else if length (t_replies t) < repliesCap then t\<lparr>t_replies := t_replies t @ [(h_session h, body)]\<rparr>
      else t)"

text \<open>The part \<open>handleData\<close> and \<open>handleProbeMessage\<close> have in common: find the session, open the
  datagram, and act on what its authentication implies. The plaintext is present on success.\<close>

definition authenticate ::
  "('st, 'k) env \<Rightarrow> int \<Rightarrow> header \<Rightarrow> bytes \<Rightarrow> addr option \<Rightarrow> 'k tunnel \<Rightarrow> ('k tunnel \<times> (nat \<times> bytes) option) option" where
  "authenticate E now h body from t =
     (case sessionFor t (h_session h) of
        (None, _) \<Rightarrow> Some (add_dropped t, None)
      | (Some p, isPending) \<Rightarrow>
          (case open_at E t p h body of
             None \<Rightarrow> None
           | Some (t, Inl _) \<Rightarrow> Some (add_dropped t, None)
           | Some (t, Inr opened) \<Rightarrow>
               Some (notePeer from (if isPending then promote now p t else t), Some (p, opened))))"

definition handleData ::
  "('st, 'k) env \<Rightarrow> int \<Rightarrow> header \<Rightarrow> bytes \<Rightarrow> addr option \<Rightarrow> 'k tunnel \<Rightarrow> ('k tunnel \<times> effect list) option" where
  "handleData E now h body from t =
     (case authenticate E now h body from t of
        None \<Rightarrow> None
      | Some (t, None) \<Rightarrow> Some (t, [])
      | Some (t, Some (p, opened)) \<Rightarrow>
          (case gre_Unwrap (t_encap t) opened of
             Inl _ \<Rightarrow> Some (add_dropped t, [])
           | Inr inner \<Rightarrow>
               if \<not> e_tun E inner then Some (add_dropped t, [ToTun inner])
               else Some (add_in (length inner) t, [ToTun inner])))"

definition answerProbe :: "('st, 'k) env \<Rightarrow> nat \<Rightarrow> bytes \<Rightarrow> 'k tunnel \<Rightarrow> 'k tunnel \<times> effect list" where
  "answerProbe E p body t =
     (case readProbe body of
        None \<Rightarrow> (t, [])
      | Some (i, sz) \<Rightarrow>
          (case seal_at E t p (buildProbeAck i sz) typeProbeAck of
             (t, Inl _) \<Rightarrow> (t, [])
           | (t, Inr ack) \<Rightarrow> (t, if t_peer t = None then [] else [ToCarrier ack (t_peer t)])))"

text \<open>A waiter is a channel of capacity one.\<close>

definition handleProbeAck :: "bytes \<Rightarrow> 'k tunnel \<Rightarrow> 'k tunnel" where
  "handleProbeAck body t =
     (case readProbe body of
        None \<Rightarrow> t
      | Some (i, _) \<Rightarrow>
          (case t_waiters t i of
             Some [] \<Rightarrow> t\<lparr>t_waiters := (t_waiters t)(i \<mapsto> [i])\<rparr>
           | _ \<Rightarrow> t))"

definition handleProbeMessage ::
  "('st, 'k) env \<Rightarrow> int \<Rightarrow> header \<Rightarrow> bytes \<Rightarrow> addr option \<Rightarrow> 'k tunnel \<Rightarrow> ('k tunnel \<times> effect list) option" where
  "handleProbeMessage E now h body from t =
     (case authenticate E now h body from t of
        None \<Rightarrow> None
      | Some (t, None) \<Rightarrow> Some (t, [])
      | Some (t, Some (p, opened)) \<Rightarrow>
          if h_kind h = typeProbe then Some (answerProbe E p opened t)
          else if h_kind h = typeProbeAck then Some (handleProbeAck opened t, [])
          else Some (t, []))"

text \<open>One datagram of \<open>pumpFromCarrier\<close>.\<close>

definition pumpFromCarrier ::
  "('st, 'k) env \<Rightarrow> int \<Rightarrow> nat \<Rightarrow> bytes \<Rightarrow> addr option \<Rightarrow> 'k tunnel \<Rightarrow> ('k tunnel \<times> effect list) option" where
  "pumpFromCarrier E now seed buf from t =
     (case parseHeader buf of
        Inl _ \<Rightarrow> Some (add_dropped t, [])
      | Inr (h, body) \<Rightarrow>
          if h_kind h = typeInit then Some (handleInit E now seed h body from t)
          else if h_kind h = typeResp then Some (handleResp h body t, [])
          else if h_kind h = typeData then handleData E now h body from t
          else if h_kind h = typeProbe \<or> h_kind h = typeProbeAck then handleProbeMessage E now h body from t
          else Some (t, []))"

section \<open>The handshake loop\<close>

definition needsSession :: "int \<Rightarrow> 'k tunnel \<Rightarrow> bool" where
  "needsSession now t = (case t_current t of None \<Rightarrow> True | Some p \<Rightarrow> dueForRekey (t_heap t ! p) now)"

definition resolvePeer :: "addr option \<Rightarrow> 'k tunnel \<Rightarrow> tunnel_error + 'k tunnel" where
  "resolvePeer resolved t =
     (case resolved of
        None \<Rightarrow> if t_peer t \<noteq> None then Inr t else Inl errResolve
      | Some a \<Rightarrow> Inr (setPeer (Some a) t))"

definition drainReplies :: "'k tunnel \<Rightarrow> 'k tunnel" where
  "drainReplies t = t\<lparr>t_replies := []\<rparr>"

text \<open>\<open>negotiate\<close> up to its loop: where the peer is, the first message, and a clean reply channel.\<close>

definition negotiate_begin ::
  "('st, 'k) env \<Rightarrow> addr option \<Rightarrow> nat \<Rightarrow> (nat \<Rightarrow> u32 option) \<Rightarrow> 'k tunnel \<Rightarrow>
   'k tunnel \<times> (tunnel_error + 'st initiatorHandshake \<times> addr option)" where
  "negotiate_begin E resolved seed draw t =
     (case resolvePeer resolved t of
        Inl e \<Rightarrow> (t, Inl e)
      | Inr t \<Rightarrow>
          if t_peer t = None then (t, Inl errNoPeerAddress)
          else
            let avoid = (case t_current t of None \<Rightarrow> 0 | Some p \<Rightarrow> s_id (t_heap t ! p)) in
            (case beginHandshake (e_noise E) seed draw (c_Token (t_cfg t)) avoid (encapID (t_encap t)) of
               Inl e \<Rightarrow> (t, Inl (errHandshake e))
             | Inr attempt \<Rightarrow> (drainReplies t, Inr (attempt, t_peer t))))"

definition negotiate_complete ::
  "('st, 'k) env \<Rightarrow> int \<Rightarrow> 'st initiatorHandshake \<Rightarrow> bytes \<Rightarrow> 'k tunnel \<Rightarrow> 'k tunnel \<times> tunnel_error option" where
  "negotiate_complete E now attempt body t =
     (case ih_complete (e_noise E) now attempt body of
        Inl e \<Rightarrow> (t, Some (errHandshake e))
      | Inr sess \<Rightarrow> (let (t, p) = alloc t sess in (installDialed now p t, None)))"

datatype select = selDone | selReply u32 bytes int | selRetry

text \<open>The loop of \<open>negotiate\<close>, with what each \<open>select\<close> chose; a reply carries its time.\<close>

fun negotiate_rounds ::
  "('st, 'k) env \<Rightarrow> 'st initiatorHandshake \<Rightarrow> addr option \<Rightarrow> (nat \<Rightarrow> select) \<Rightarrow> nat \<Rightarrow> nat \<Rightarrow> 'k tunnel \<Rightarrow>
   'k tunnel \<times> effect list \<times> tunnel_error option" where
  "negotiate_rounds E attempt peer sel i 0 t = (t, [], Some errNoAnswer)"
| "negotiate_rounds E attempt peer sel i (Suc left) t =
     (let w = ToCarrier (ih_datagram attempt) peer in
      if \<not> e_write E (ih_datagram attempt) peer then (t, [w], Some errSendHandshake)
      else
        (case sel i of
           selDone \<Rightarrow> (t, [w], Some errContextDone)
         | selReply sid body now \<Rightarrow>
             if sid \<noteq> ih_id attempt
             then (let (t, out, r) = negotiate_rounds E attempt peer sel (Suc i) left t in (t, w # out, r))
             else (let (t, r) = negotiate_complete E now attempt body t in (t, [w], r))
         | selRetry \<Rightarrow> (let (t, out, r) = negotiate_rounds E attempt peer sel (Suc i) left t in (t, w # out, r))))"

definition negotiate ::
  "('st, 'k) env \<Rightarrow> addr option \<Rightarrow> nat \<Rightarrow> (nat \<Rightarrow> u32 option) \<Rightarrow> (nat \<Rightarrow> select) \<Rightarrow> 'k tunnel \<Rightarrow>
   'k tunnel \<times> effect list \<times> tunnel_error option" where
  "negotiate E resolved seed draw sel t =
     (case negotiate_begin E resolved seed draw t of
        (t, Inl e) \<Rightarrow> (t, [], Some e)
      | (t, Inr (attempt, peer)) \<Rightarrow> negotiate_rounds E attempt peer sel 0 handshakeAttempts t)"

section \<open>The prober\<close>

text \<open>\<open>sendProbe\<close> up to its wait: whether the waiter was registered, and whether the probe was
  sent. \<open>None\<close> is the panic of \<open>buildProbe\<close>.\<close>

definition probe_start ::
  "('st, 'k) env \<Rightarrow> u32 \<Rightarrow> int \<Rightarrow> 'k tunnel \<Rightarrow> ('k tunnel \<times> effect list \<times> bool \<times> bool) option" where
  "probe_start E i p t =
     (case (sendSession t, t_peer t) of
        (Some q, Some peer) \<Rightarrow>
          (case buildProbe i p (int (gre_Overhead (t_encap t))) of
             None \<Rightarrow> None
           | Some body \<Rightarrow>
               (case seal_at E t q body typeProbe of
                  (t, Inl _) \<Rightarrow> Some (t, [], False, False)
                | (t, Inr sealed) \<Rightarrow>
                    Some (t\<lparr>t_waiters := (t_waiters t)(i \<mapsto> [])\<rparr>, [ToCarrier sealed (Some peer)], True,
                          e_write E sealed (Some peer))))
      | _ \<Rightarrow> Some (t, [], False, False))"

definition probe_end :: "u32 \<Rightarrow> 'k tunnel \<Rightarrow> 'k tunnel" where
  "probe_end i t = t\<lparr>t_waiters := (t_waiters t)(i := None)\<rparr>"

text \<open>The whole of \<open>sendProbe\<close>, with the random identifier and whether an answer came before the
  time-out.\<close>

definition sendProbe ::
  "('st, 'k) env \<Rightarrow> u32 \<Rightarrow> bool \<Rightarrow> int \<Rightarrow> 'k tunnel \<Rightarrow> ('k tunnel \<times> effect list \<times> bool) option" where
  "sendProbe E i answered p t =
     (case probe_start E i p t of
        None \<Rightarrow> None
      | Some (t, out, registered, sent) \<Rightarrow>
          Some (if registered then probe_end i t else t, out, sent \<and> answered))"

definition measureAndApply :: "mtu_error + int \<Rightarrow> bool \<Rightarrow> 'k tunnel \<Rightarrow> 'k tunnel" where
  "measureAndApply found setOK t =
     (case found of
        Inl _ \<Rightarrow> t
      | Inr m \<Rightarrow> if m = t_mtuCurrent t then t else if \<not> setOK then t else t\<lparr>t_mtuCurrent := m\<rparr>)"

section \<open>The engine as a step relation\<close>

text \<open>The goroutines of one tunnel: the receive pump, the retiring ticker, the TUN pump with the session
  and peer it resolved for the rest of its batch, the handshake loop with its attempt, the rounds it has
  left and whether it waits for an answer, and the prober. One step is one critical section or handler;
  between any two steps of one goroutine the others may run.\<close>

record ('st, 'k) world =
  w_t :: "'k tunnel"
  w_batch :: "(nat option \<times> addr option \<times> bytes list) option"
  w_att :: "('st initiatorHandshake \<times> addr option \<times> nat \<times> bool) option"

inductive tstep :: "('st, 'k) env \<Rightarrow> ('st, 'k) world \<Rightarrow> effect list \<Rightarrow> ('st, 'k) world \<Rightarrow> bool" for E where
  recv: "pumpFromCarrier E now seed buf from (w_t w) = Some (t', out) \<Longrightarrow> tstep E w out (w\<lparr>w_t := t'\<rparr>)"
| retire: "tstep E w [] (w\<lparr>w_t := retireSessions now (w_t w)\<rparr>)"
| tun_read: "w_batch w = None \<Longrightarrow>
    tstep E w [] (w\<lparr>w_batch := Some (sendSession (w_t w), t_peer (w_t w), pkts)\<rparr>)"
| tun_packet: "w_batch w = Some (sess, peer, pkt # pkts) \<Longrightarrow>
    pump_packet E ended sess peer pkt (w_t w) = (t', out, stop) \<Longrightarrow>
    tstep E w out (w\<lparr>w_t := t', w_batch := Some (sess, peer, if stop then [] else pkts)\<rparr>)"
| tun_done: "w_batch w = Some (sess, peer, []) \<Longrightarrow> tstep E w [] (w\<lparr>w_batch := None\<rparr>)"
| hs_begin: "c_Mode (t_cfg (w_t w)) = ModeDial \<Longrightarrow> w_att w = None \<Longrightarrow> needsSession now (w_t w) \<Longrightarrow>
    negotiate_begin E resolved seed draw (w_t w) = (t', r) \<Longrightarrow>
    tstep E w [] (w\<lparr>w_t := t', w_att := (case r of Inl e \<Rightarrow> None | Inr (a, peer) \<Rightarrow> Some (a, peer, handshakeAttempts, False))\<rparr>)"
| hs_send: "w_att w = Some (a, peer, Suc n, False) \<Longrightarrow>
    tstep E w [ToCarrier (ih_datagram a) peer]
      (w\<lparr>w_att := (if e_write E (ih_datagram a) peer then Some (a, peer, n, True) else None)\<rparr>)"
| hs_other: "w_att w = Some (a, peer, n, True) \<Longrightarrow> t_replies (w_t w) = (sid, body) # rest \<Longrightarrow> sid \<noteq> ih_id a \<Longrightarrow>
    tstep E w [] (w\<lparr>w_t := (w_t w)\<lparr>t_replies := rest\<rparr>, w_att := Some (a, peer, n, False)\<rparr>)"
| hs_answer: "w_att w = Some (a, peer, n, True) \<Longrightarrow> t_replies (w_t w) = (sid, body) # rest \<Longrightarrow> sid = ih_id a \<Longrightarrow>
    negotiate_complete E now a body ((w_t w)\<lparr>t_replies := rest\<rparr>) = (t', r) \<Longrightarrow>
    tstep E w [] (w\<lparr>w_t := t', w_att := None\<rparr>)"
| hs_retry: "w_att w = Some (a, peer, n, True) \<Longrightarrow> tstep E w [] (w\<lparr>w_att := Some (a, peer, n, False)\<rparr>)"
| hs_stop: "w_att w = Some (a, peer, n, wait) \<Longrightarrow> n = 0 \<and> \<not> wait \<or> ended \<Longrightarrow> tstep E w [] (w\<lparr>w_att := None\<rparr>)"
| probe: "probe_start E i p (w_t w) = Some (t', out, registered, sent) \<Longrightarrow> tstep E w out (w\<lparr>w_t := t'\<rparr>)"
| probe_return: "tstep E w [] (w\<lparr>w_t := probe_end i (w_t w)\<rparr>)"
| mtu: "tstep E w [] (w\<lparr>w_t := measureAndApply found setOK (w_t w)\<rparr>)"

definition start_world :: "'k tunnel \<Rightarrow> addr option \<Rightarrow> ('st, 'k) world" where
  "start_world t peer = \<lparr>w_t = setPeer peer t, w_batch = None, w_att = None\<rparr>"

inductive reachable :: "('st, 'k) env \<Rightarrow> ('st, 'k) world \<Rightarrow> ('st, 'k) world \<Rightarrow> bool" for E w0 where
  start: "reachable E w0 w0"
| step: "reachable E w0 w \<Longrightarrow> tstep E w out w' \<Longrightarrow> reachable E w0 w'"

section \<open>The invariant\<close>

text \<open>Every slot names a session of the store and no two slots name the same one; the dialling side has
  no pending session; the listening side's current and previous sessions have each accepted a
  packet; the reply channel is bounded.\<close>

definition slots_ok :: "'k tunnel \<Rightarrow> bool" where
  "slots_ok t \<longleftrightarrow>
     (\<forall>p. t_current t = Some p \<or> t_pending t = Some p \<or> t_previous t = Some p \<longrightarrow> p < length (t_heap t)) \<and>
     (\<forall>p. t_current t = Some p \<longrightarrow> t_pending t \<noteq> Some p \<and> t_previous t \<noteq> Some p) \<and>
     (\<forall>p. t_pending t = Some p \<longrightarrow> t_previous t \<noteq> Some p)"

definition confirmed :: "'k tunnel \<Rightarrow> nat \<Rightarrow> bool" where
  "confirmed t p \<longleftrightarrow> rw_seeded (s_replay (t_heap t ! p))"

definition tun_inv :: "'k tunnel \<Rightarrow> bool" where
  "tun_inv t \<longleftrightarrow> slots_ok t \<and>
     (c_Mode (t_cfg t) = ModeDial \<longrightarrow> t_pending t = None) \<and>
     (c_Mode (t_cfg t) = ModeListen \<longrightarrow>
        (\<forall>p. t_current t = Some p \<or> t_previous t = Some p \<longrightarrow> confirmed t p)) \<and>
     length (t_replies t) \<le> repliesCap"

definition world_inv :: "('st, 'k) world \<Rightarrow> bool" where
  "world_inv w \<longleftrightarrow> tun_inv (w_t w) \<and>
     (\<forall>sess peer pkts p. w_batch w = Some (sess, peer, pkts) \<longrightarrow> sess = Some p \<longrightarrow> p < length (t_heap (w_t w))) \<and>
     (w_att w \<noteq> None \<longrightarrow> c_Mode (t_cfg (w_t w)) = ModeDial)"

section \<open>What the helpers leave alone\<close>

lemma add_dropped_fields [simp]:
    "t_cfg (add_dropped t) = t_cfg t" "t_encap (add_dropped t) = t_encap t" "t_heap (add_dropped t) = t_heap t"
    "t_current (add_dropped t) = t_current t" "t_pending (add_dropped t) = t_pending t" "t_previous (add_dropped
    t) = t_previous t" "t_prevFrom (add_dropped t) = t_prevFrom t" "t_replies (add_dropped t) = t_replies t"
    "t_lastInitID (add_dropped t) = t_lastInitID t" "t_lastReply (add_dropped t) = t_lastReply t" "t_waiters
    (add_dropped t) = t_waiters t" "t_peer (add_dropped t) = t_peer t" "t_published (add_dropped t) = t_published
    t"
  by (simp_all add: add_dropped_def)

lemma add_handshake_fields [simp]:
    "t_cfg (add_handshake t) = t_cfg t" "t_encap (add_handshake t) = t_encap t" "t_heap (add_handshake t) = t_heap
    t" "t_current (add_handshake t) = t_current t" "t_pending (add_handshake t) = t_pending t" "t_previous
    (add_handshake t) = t_previous t" "t_prevFrom (add_handshake t) = t_prevFrom t" "t_replies (add_handshake t) =
    t_replies t" "t_lastInitID (add_handshake t) = t_lastInitID t" "t_lastReply (add_handshake t) = t_lastReply t"
    "t_waiters (add_handshake t) = t_waiters t" "t_peer (add_handshake t) = t_peer t" "t_published (add_handshake
    t) = t_published t"
  by (simp_all add: add_handshake_def)

lemma add_in_fields [simp]:
    "t_cfg (add_in n t) = t_cfg t" "t_encap (add_in n t) = t_encap t" "t_heap (add_in n t) = t_heap t" "t_current
    (add_in n t) = t_current t" "t_pending (add_in n t) = t_pending t" "t_previous (add_in n t) = t_previous t"
    "t_prevFrom (add_in n t) = t_prevFrom t" "t_replies (add_in n t) = t_replies t" "t_lastInitID (add_in n t) =
    t_lastInitID t" "t_lastReply (add_in n t) = t_lastReply t" "t_waiters (add_in n t) = t_waiters t" "t_peer
    (add_in n t) = t_peer t" "t_published (add_in n t) = t_published t"
  by (simp_all add: add_in_def)

lemma add_out_fields [simp]:
    "t_cfg (add_out n t) = t_cfg t" "t_encap (add_out n t) = t_encap t" "t_heap (add_out n t) = t_heap t"
    "t_current (add_out n t) = t_current t" "t_pending (add_out n t) = t_pending t" "t_previous (add_out n t) =
    t_previous t" "t_prevFrom (add_out n t) = t_prevFrom t" "t_replies (add_out n t) = t_replies t" "t_lastInitID
    (add_out n t) = t_lastInitID t" "t_lastReply (add_out n t) = t_lastReply t" "t_waiters (add_out n t) =
    t_waiters t" "t_peer (add_out n t) = t_peer t" "t_published (add_out n t) = t_published t"
  by (simp_all add: add_out_def)

lemma publishPeer_fields [simp]:
    "t_cfg (publishPeer t) = t_cfg t" "t_encap (publishPeer t) = t_encap t" "t_heap (publishPeer t) = t_heap t"
    "t_current (publishPeer t) = t_current t" "t_pending (publishPeer t) = t_pending t" "t_previous (publishPeer
    t) = t_previous t" "t_prevFrom (publishPeer t) = t_prevFrom t" "t_replies (publishPeer t) = t_replies t"
    "t_lastInitID (publishPeer t) = t_lastInitID t" "t_lastReply (publishPeer t) = t_lastReply t" "t_waiters
    (publishPeer t) = t_waiters t" "t_peer (publishPeer t) = t_peer t" "t_stats (publishPeer t) = t_stats t"
  by (simp_all add: publishPeer_def split: option.split)

lemma notePeer_fields [simp]:
    "t_cfg (notePeer a t) = t_cfg t" "t_encap (notePeer a t) = t_encap t" "t_heap (notePeer a t) = t_heap t"
    "t_current (notePeer a t) = t_current t" "t_pending (notePeer a t) = t_pending t" "t_previous (notePeer a t) =
    t_previous t" "t_prevFrom (notePeer a t) = t_prevFrom t" "t_replies (notePeer a t) = t_replies t"
    "t_lastInitID (notePeer a t) = t_lastInitID t" "t_lastReply (notePeer a t) = t_lastReply t" "t_waiters
    (notePeer a t) = t_waiters t" "t_stats (notePeer a t) = t_stats t" "t_published (notePeer a t) = t_published
    t"
  by (simp_all add: notePeer_def)

lemma setPeer_fields [simp]:
    "t_cfg (setPeer a t) = t_cfg t" "t_encap (setPeer a t) = t_encap t" "t_heap (setPeer a t) = t_heap t"
    "t_current (setPeer a t) = t_current t" "t_pending (setPeer a t) = t_pending t" "t_previous (setPeer a t) =
    t_previous t" "t_prevFrom (setPeer a t) = t_prevFrom t" "t_replies (setPeer a t) = t_replies t" "t_lastInitID
    (setPeer a t) = t_lastInitID t" "t_lastReply (setPeer a t) = t_lastReply t" "t_waiters (setPeer a t) =
    t_waiters t" "t_stats (setPeer a t) = t_stats t" "t_published (setPeer a t) = t_published t"
  by (simp_all add: setPeer_def)

text \<open>The store only grows, and a session that has accepted a packet stays so.\<close>

definition grows :: "'k tunnel \<Rightarrow> 'k tunnel \<Rightarrow> bool" where
  "grows t t' \<longleftrightarrow> t_cfg t' = t_cfg t \<and> t_encap t' = t_encap t \<and> length (t_heap t) \<le> length (t_heap t') \<and>
     (\<forall>p < length (t_heap t). confirmed t p \<longrightarrow> confirmed t' p)"

lemma grows_refl [simp]: "grows t t"
  by (simp add: grows_def)

lemma grows_trans: "grows t u \<Longrightarrow> grows u v \<Longrightarrow> grows t v"
  by (auto simp: grows_def)

lemma grows_same: "t_cfg t' = t_cfg t \<Longrightarrow> t_encap t' = t_encap t \<Longrightarrow> t_heap t' = t_heap t \<Longrightarrow> grows t t'"
  by (simp add: grows_def confirmed_def)

lemma grows_counters [simp]:
  "grows t (add_dropped u) \<longleftrightarrow> grows t u" "grows t (add_in n u) \<longleftrightarrow> grows t u" "grows t (add_out n u) \<longleftrightarrow> grows t u"
  by (simp_all add: grows_def confirmed_def)

lemma commit_seeded: "commit w c = Some w' \<Longrightarrow> rw_seeded w'"
  by (auto simp: commit_def split: if_splits option.splits)

lemma open_at_error: "open_at E t p h body = Some (t', Inl e) \<Longrightarrow> t' = t"
  by (auto simp: open_at_def session_open_def split: option.splits if_splits)

lemma open_at_fields:
  assumes "open_at E t p h body = Some (t', r)"
  shows "\<exists>s'. t' = t\<lparr>t_heap := (t_heap t)[p := s']\<rparr> \<and> s_id s' = s_id (t_heap t ! p) \<and>
    s_created s' = s_created (t_heap t ! p) \<and> s_recv s' = s_recv (t_heap t ! p) \<and> s_send s' = s_send (t_heap t ! p) \<and>
    s_sendCounter s' = s_sendCounter (t_heap t ! p) \<and>
    (rw_seeded (s_replay (t_heap t ! p)) \<longrightarrow> rw_seeded (s_replay s')) \<and>
    (\<forall>plain. r = Inr plain \<longrightarrow> rw_seeded (s_replay s') \<and>
       e_dec E (s_recv (t_heap t ! p)) (h_counter h) (header_bytes h) body = Some plain)"
proof -
  obtain s' where s': "session_open (e_dec E) (t_heap t ! p) h body = Some (s', r)" "t' = t\<lparr>t_heap := (t_heap t)[p := s']\<rparr>"
    using assms by (auto simp: open_at_def split: option.splits)
  show ?thesis
    by (intro exI [of _ s'])
      (use s' in \<open>auto simp: session_open_def split: option.splits if_splits dest: commit_seeded\<close>)
qed

lemma seal_at_fields:
  assumes "seal_at E t p pt kind = (t', r)"
  shows "t' = t\<lparr>t_heap := (t_heap t)[p := (t_heap t ! p)\<lparr>s_sendCounter := s_sendCounter (t_heap t ! p) + 1\<rparr>]\<rparr>"
  using assms by (auto simp: seal_at_def sealKind_def Let_def split: if_splits)

lemma open_at_grows:
  assumes "open_at E t p h body = Some (t', r)" "p < length (t_heap t)"
  shows "grows t t'"
proof -
  obtain s' where "t' = t\<lparr>t_heap := (t_heap t)[p := s']\<rparr>"
    "rw_seeded (s_replay (t_heap t ! p)) \<longrightarrow> rw_seeded (s_replay s')"
    using open_at_fields [OF assms(1)] by blast
  then show ?thesis using assms(2) by (auto simp: grows_def confirmed_def nth_list_update)
qed

lemma seal_at_grows:
  assumes "seal_at E t p pt kind = (t', r)"
  shows "grows t t'"
proof -
  have "confirmed t' q \<longleftrightarrow> confirmed t q" if "q < length (t_heap t)" for q
    using that unfolding seal_at_fields [OF assms] by (cases "p = q") (auto simp: confirmed_def)
  then show ?thesis unfolding seal_at_fields [OF assms] by (auto simp: grows_def)
qed

text \<open>The invariant survives every change that keeps the slots and lets the store grow.\<close>

lemma tun_inv_grows:
  assumes "tun_inv t" "grows t t'" "t_current t' = t_current t" "t_pending t' = t_pending t"
    "t_previous t' = t_previous t" "length (t_replies t') \<le> repliesCap"
  shows "tun_inv t'"
  using assms unfolding tun_inv_def slots_ok_def grows_def by (auto intro: less_le_trans)

lemma tun_inv_promoted:
  assumes "tun_inv t" "t_pending t = Some p" "confirmed t p"
    "t_cfg t' = t_cfg t" "t_heap t' = t_heap t" "t_current t' = Some p" "t_pending t' = None" "t_previous t' = t_current t"
    "t_replies t' = t_replies t"
  shows "tun_inv t'"
  using assms unfolding tun_inv_def slots_ok_def confirmed_def by auto

section \<open>Every operation keeps the invariant\<close>

lemma sessionFor_slot:
  assumes "sessionFor t sid = (Some p, isPending)"
  shows "s_id (t_heap t ! p) = sid" "isPending \<Longrightarrow> t_pending t = Some p"
    "\<not> isPending \<Longrightarrow> t_current t = Some p \<or> t_previous t = Some p"
  using assms by (auto simp: sessionFor_def slot_has_def split: if_splits option.splits)

lemma sessionFor_less: "tun_inv t \<Longrightarrow> sessionFor t sid = (Some p, b) \<Longrightarrow> p < length (t_heap t)"
  using sessionFor_slot [of t sid p b] unfolding tun_inv_def slots_ok_def by blast

lemma promote_fields [simp]:
  "t_cfg (promote now p t) = t_cfg t" "t_encap (promote now p t) = t_encap t" "t_heap (promote now p t) = t_heap t"
  "t_replies (promote now p t) = t_replies t" "t_peer (promote now p t) = t_peer t"
  by (simp_all add: promote_def)

lemma promote_inv: "tun_inv t \<Longrightarrow> confirmed t p \<Longrightarrow> tun_inv (promote now p t)"
  by (auto simp: promote_def intro: tun_inv_promoted)

lemma notePeer_inv: "tun_inv (notePeer a t) \<longleftrightarrow> tun_inv t"
  by (simp add: tun_inv_def slots_ok_def confirmed_def)

lemma add_dropped_inv [simp]: "tun_inv (add_dropped t) \<longleftrightarrow> tun_inv t"
  by (simp add: tun_inv_def slots_ok_def confirmed_def)

lemma add_in_inv [simp]: "tun_inv (add_in n t) \<longleftrightarrow> tun_inv t"
  by (simp add: tun_inv_def slots_ok_def confirmed_def)

lemma authenticate_inv:
  assumes inv: "tun_inv t" and a: "authenticate E now h body from t = Some (t', r)"
  shows "tun_inv t' \<and> grows t t'"
proof (cases "sessionFor t (h_session h)")
  case (Pair sl isPending)
  show ?thesis
  proof (cases sl)
    case None
    then show ?thesis using a Pair inv by (auto simp: authenticate_def intro: grows_same)
  next
    case (Some p)
    note p = sessionFor_less [OF inv Pair [unfolded Some]] and sf = sessionFor_slot [OF Pair [unfolded Some]]
    obtain t1 r1 where o: "open_at E t p h body = Some (t1, r1)"
      using a Pair Some by (auto simp: authenticate_def split: option.splits)
    have g: "grows t t1" by (rule open_at_grows [OF o p])
    obtain s' where s': "t1 = t\<lparr>t_heap := (t_heap t)[p := s']\<rparr>" "\<forall>plain. r1 = Inr plain \<longrightarrow> rw_seeded (s_replay s')"
      using open_at_fields [OF o] by blast
    have i1: "tun_inv t1"
      using tun_inv_grows [OF inv g] inv by (simp add: s'(1) tun_inv_def)
    show ?thesis
    proof (cases r1)
      case (Inl e)
      then have "t' = add_dropped t1" using a Pair Some o by (simp add: authenticate_def)
      then show ?thesis using i1 g grows_trans [OF g grows_same] by simp
    next
      case (Inr opened)
      then have t': "t' = notePeer from (if isPending then promote now p t1 else t1)"
        using a Pair Some o by (simp add: authenticate_def)
      have "confirmed t1 p" using s' p Inr by (simp add: confirmed_def)
      then have "tun_inv t'" unfolding t' using i1 by (simp add: notePeer_inv promote_inv)
      moreover have "grows t1 t'" unfolding t' by (intro grows_same) auto
      ultimately show ?thesis using g grows_trans by blast
    qed
  qed
qed

lemma handleData_inv:
  assumes "tun_inv t" "handleData E now h body from t = Some (t', out)"
  shows "tun_inv t' \<and> grows t t'"
proof -
  obtain t1 r where a: "authenticate E now h body from t = Some (t1, r)"
    using assms(2) by (auto simp: handleData_def split: option.splits)
  have i: "tun_inv t1" "grows t t1" using authenticate_inv [OF assms(1) a] by auto
  have "t' = t1 \<or> t' = add_dropped t1 \<or> (\<exists>n. t' = add_in n t1)"
    using assms(2) a by (auto simp: handleData_def split: option.splits sum.splits if_splits)
  then show ?thesis using i grows_trans [OF i(2) grows_same] by auto
qed

lemma seal_at_inv:
  assumes "tun_inv t" "seal_at E t p pt kind = (t', r)"
  shows "tun_inv t'"
  using tun_inv_grows [OF assms(1) seal_at_grows [OF assms(2)]] assms(1)
  unfolding seal_at_fields [OF assms(2)] by (simp add: tun_inv_def)

lemma answerProbe_inv:
  assumes "tun_inv t" "answerProbe E p body t = (t', out)"
  shows "tun_inv t' \<and> grows t t'"
proof -
  have "t' = t \<or> (\<exists>pt kind r. seal_at E t p pt kind = (t', r))"
    using assms(2) by (auto simp: answerProbe_def split: option.splits prod.splits sum.splits)
  then show ?thesis using assms(1) seal_at_inv [OF assms(1)] seal_at_grows grows_refl by blast
qed

lemma handleProbeAck_inv: "tun_inv t \<Longrightarrow> tun_inv (handleProbeAck body t) \<and> grows t (handleProbeAck body t)"
  by (auto simp: handleProbeAck_def tun_inv_def slots_ok_def confirmed_def grows_def split: option.splits list.splits)

lemma handleProbeMessage_inv:
  assumes "tun_inv t" "handleProbeMessage E now h body from t = Some (t', out)"
  shows "tun_inv t' \<and> grows t t'"
proof -
  obtain t1 r where a: "authenticate E now h body from t = Some (t1, r)"
    using assms(2) by (auto simp: handleProbeMessage_def split: option.splits)
  have i: "tun_inv t1" "grows t t1" using authenticate_inv [OF assms(1) a] by auto
  have "t' = t1 \<or> (\<exists>p b out. answerProbe E p b t1 = (t', out)) \<or> (\<exists>b. t' = handleProbeAck b t1)"
    using assms(2) a by (auto simp: handleProbeMessage_def split: option.splits if_splits)
  then show ?thesis using i answerProbe_inv [OF i(1)] handleProbeAck_inv [OF i(1)] grows_trans [OF i(2)] by blast
qed

lemma newSession_unseeded: "newSession now sid a b = Inr s \<Longrightarrow> \<not> rw_seeded (s_replay s) \<and> s_id s = sid"
  by (auto simp: newSession_def zero_window_def split: option.splits)

lemma handleInit_result:
  assumes "handleInit E now seed h body from t = (t', out)"
  shows "(t' = t \<or> t' = add_dropped t) \<or>
    (\<exists>sess reply. c_Mode (t_cfg t) = ModeListen \<and> \<not> (h_session h = t_lastInitID t \<and> t_lastReply t \<noteq> None) \<and>
       r_session (respond (e_noise E) seed now (c_Token (t_cfg t)) (h_session h) body (encapID (t_encap t))) = Some sess \<and>
       r_reply (respond (e_noise E) seed now (c_Token (t_cfg t)) (h_session h) body (encapID (t_encap t))) = Some reply \<and>
       t' = publishPeer (t\<lparr>t_heap := t_heap t @ [sess], t_pending := Some (length (t_heap t)),
              t_lastInitID := h_session h, t_lastReply := Some reply,
              t_peer := (if t_current t = None then from else t_peer t)\<rparr>))"
  using assms
  by (auto simp: handleInit_def alloc_def Let_def split: if_splits option.splits prod.splits)

lemma handleInit_inv:
  assumes inv: "tun_inv t" and h: "handleInit E now seed h body from t = (t', out)"
  shows "tun_inv t' \<and> grows t t'"
  using handleInit_result [OF h]
proof (elim disjE exE conjE)
  fix sess reply
  assume m: "c_Mode (t_cfg t) = ModeListen" and
    t': "t' = publishPeer (t\<lparr>t_heap := t_heap t @ [sess], t_pending := Some (length (t_heap t)),
              t_lastInitID := h_session h, t_lastReply := Some reply,
              t_peer := (if t_current t = None then from else t_peer t)\<rparr>)"
  have "grows t t'" unfolding t' by (auto simp: grows_def confirmed_def nth_append)
  moreover have "tun_inv t'" using inv m unfolding t'
    by (auto simp: tun_inv_def slots_ok_def confirmed_def nth_append ModeListen_def ModeDial_def less_Suc_eq)
  ultimately show ?thesis by blast
qed (use inv in \<open>auto intro: grows_same\<close>)

lemma pumpFromCarrier_inv:
  assumes "tun_inv t" "pumpFromCarrier E now seed buf from t = Some (t', out)"
  shows "tun_inv t' \<and> grows t t'"
proof (cases "parseHeader buf")
  case (Inl e)
  then show ?thesis using assms by (auto simp: pumpFromCarrier_def intro: grows_same)
next
  case (Inr hb)
  obtain h body where hb: "hb = (h, body)" by (cases hb)
  have r: "tun_inv (handleResp h body t) \<and> grows t (handleResp h body t)"
    using assms(1) by (auto simp: handleResp_def tun_inv_def slots_ok_def confirmed_def repliesCap_def intro: grows_same)
  have "handleInit E now seed h body from t = (t', out) \<or> t' = handleResp h body t \<or>
    handleData E now h body from t = Some (t', out) \<or> handleProbeMessage E now h body from t = Some (t', out) \<or> t' = t"
    using assms(2) Inr hb by (auto simp: pumpFromCarrier_def split: if_splits)
  then show ?thesis
    using r assms(1)
    by (auto dest: handleInit_inv [OF assms(1)] handleData_inv [OF assms(1)] handleProbeMessage_inv [OF assms(1)])
qed

lemma retireSessions_fields [simp]:
  "t_cfg (retireSessions now t) = t_cfg t" "t_encap (retireSessions now t) = t_encap t"
  "t_heap (retireSessions now t) = t_heap t" "t_replies (retireSessions now t) = t_replies t"
  "t_peer (retireSessions now t) = t_peer t"
  by (simp_all add: retireSessions_def Let_def)

lemma retireSessions_slots:
  "t_previous (retireSessions now t) =
     (if now - t_prevFrom t > previousGrace \<or> slot_expired t (t_previous t) now then None else t_previous t)"
  "t_pending (retireSessions now t) = (if slot_expired t (t_pending t) now then None else t_pending t)"
  "t_current (retireSessions now t) = (if slot_expired t (t_current t) now then None else t_current t)"
  by (auto simp: retireSessions_def Let_def slot_expired_def split: option.splits)

lemma retireSessions_inv: "tun_inv t \<Longrightarrow> tun_inv (retireSessions now t)"
  by (auto simp: tun_inv_def slots_ok_def confirmed_def retireSessions_slots)

lemma pump_packet_result:
  assumes "pump_packet E ended sess peer pkt t = (t', out, stop)"
  shows "\<exists>t1. (t1 = t \<or> (\<exists>p pt r. sess = Some p \<and> seal_at E t p pt typeData = (t1, r))) \<and>
    (t' = t1 \<or> t' = add_dropped t1 \<or> (\<exists>n. t' = add_out n t1))"
  using assms by (auto simp: pump_packet_def split: if_splits option.splits sum.splits prod.splits)

lemma add_out_inv [simp]: "tun_inv (add_out n t) \<longleftrightarrow> tun_inv t"
  by (simp add: tun_inv_def slots_ok_def confirmed_def)

lemma pump_packet_inv:
  assumes "tun_inv t" "pump_packet E ended sess peer pkt t = (t', out, stop)"
  shows "tun_inv t' \<and> grows t t'"
proof -
  obtain t1 where t1: "t1 = t \<or> (\<exists>p pt r. sess = Some p \<and> seal_at E t p pt typeData = (t1, r))"
    "t' = t1 \<or> t' = add_dropped t1 \<or> (\<exists>n. t' = add_out n t1)"
    using pump_packet_result [OF assms(2)] by blast
  have "tun_inv t1 \<and> grows t t1" using t1(1) assms(1) seal_at_inv seal_at_grows by fastforce
  then show ?thesis using t1(2) by auto
qed

lemma negotiate_begin_inv:
  assumes "tun_inv t" "negotiate_begin E resolved seed draw t = (t', r)"
  shows "tun_inv t' \<and> grows t t'"
proof -
  have "t_cfg t' = t_cfg t \<and> t_encap t' = t_encap t \<and> t_heap t' = t_heap t \<and> t_current t' = t_current t \<and>
    t_pending t' = t_pending t \<and> t_previous t' = t_previous t \<and> (t_replies t' = t_replies t \<or> t_replies t' = [])"
    using assms(2) by (auto simp: negotiate_begin_def resolvePeer_def drainReplies_def Let_def
        split: option.splits sum.splits if_splits)
  then show ?thesis using assms(1) by (auto simp: tun_inv_def slots_ok_def confirmed_def intro: grows_same)
qed

lemma negotiate_complete_inv:
  assumes inv: "tun_inv t" and m: "c_Mode (t_cfg t) = ModeDial" and n: "negotiate_complete E now a body t = (t', r)"
  shows "tun_inv t' \<and> grows t t'"
proof (cases "ih_complete (e_noise E) now a body")
  case (Inl e)
  then show ?thesis using n inv by (auto simp: negotiate_complete_def)
next
  case (Inr sess)
  then have t': "t' = installDialed now (length (t_heap t)) (t\<lparr>t_heap := t_heap t @ [sess]\<rparr>)"
    using n by (auto simp: negotiate_complete_def alloc_def)
  have "grows t t'" unfolding t' by (auto simp: installDialed_def grows_def confirmed_def nth_append)
  moreover have "tun_inv t'" using inv m unfolding t'
    by (auto simp: tun_inv_def slots_ok_def installDialed_def ModeListen_def ModeDial_def less_Suc_eq)
  ultimately show ?thesis by blast
qed

lemma probe_start_inv:
  assumes "tun_inv t" "probe_start E i p t = Some (t', out, reg, sent)"
  shows "tun_inv t' \<and> grows t t'"
proof -
  have "t' = t \<or> (\<exists>q pt r t1 wt. seal_at E t q pt typeProbe = (t1, r) \<and> (t' = t1 \<or> t' = t1\<lparr>t_waiters := wt\<rparr>))"
    using assms(2) by (auto simp: probe_start_def split: option.splits prod.splits sum.splits) blast+
  then show ?thesis
  proof (elim disjE exE conjE)
    fix q pt r t1 wt
    assume s: "seal_at E t q pt typeProbe = (t1, r)" and t': "t' = t1\<lparr>t_waiters := wt\<rparr>"
    have "tun_inv t1" "grows t t1" using seal_at_inv [OF assms(1) s] seal_at_grows [OF s] by auto
    moreover have "tun_inv t' \<longleftrightarrow> tun_inv t1" "grows t1 t'"
      unfolding t' by (auto simp: tun_inv_def slots_ok_def confirmed_def intro: grows_same)
    ultimately show ?thesis using grows_trans by blast
  qed (use assms(1) seal_at_inv seal_at_grows in \<open>fastforce+\<close>)
qed

text \<open>Rule induction over the runs of the engine.\<close>

lemma tstep_inv:
  assumes "tstep E w out w'" "world_inv w"
  shows "world_inv w' \<and> grows (w_t w) (w_t w')"
  using assms
proof cases
  case (recv now seed buf a t')
  then show ?thesis using assms(2) pumpFromCarrier_inv [OF _ recv(2)] by (auto simp: world_inv_def grows_def)
next
  case (retire now)
  then show ?thesis using assms(2) retireSessions_inv by (auto simp: world_inv_def grows_def confirmed_def)
next
  case (tun_read pkts)
  have "p < length (t_heap (w_t w))" if "sendSession (w_t w) = Some p" for p
    using assms(2) that by (auto simp: world_inv_def tun_inv_def slots_ok_def sendSession_def split: if_splits)
  then show ?thesis using tun_read assms(2) by (auto simp: world_inv_def)
next
  case (tun_packet sess peer pkt pkts ended t' stop)
  then show ?thesis using assms(2) pump_packet_inv [OF _ tun_packet(3)] by (fastforce simp: world_inv_def grows_def)
next
  case (hs_begin now resolved seed draw t' r)
  then show ?thesis using assms(2) negotiate_begin_inv [OF _ hs_begin(6)] by (fastforce simp: world_inv_def grows_def)
next
  case (hs_other a peer n sid body rest)
  then show ?thesis using assms(2)
    by (auto simp: world_inv_def tun_inv_def slots_ok_def confirmed_def intro: grows_same)
next
  case (hs_answer a peer n sid body rest now t' r)
  have i: "tun_inv ((w_t w)\<lparr>t_replies := rest\<rparr>)" "c_Mode (t_cfg (w_t w)) = ModeDial"
    using assms(2) hs_answer by (auto simp: world_inv_def tun_inv_def slots_ok_def confirmed_def)
  have "tun_inv t' \<and> grows ((w_t w)\<lparr>t_replies := rest\<rparr>) t'"
    using negotiate_complete_inv [OF i(1) _ hs_answer(6)] i(2) by simp
  then show ?thesis using assms(2) hs_answer by (fastforce simp: world_inv_def grows_def confirmed_def)
next
  case (probe i p t' registered sent)
  then show ?thesis using assms(2) probe_start_inv [OF _ probe(2)] by (fastforce simp: world_inv_def grows_def)
next
  case (probe_return i)
  then show ?thesis using assms(2)
    by (auto simp: world_inv_def probe_end_def tun_inv_def slots_ok_def confirmed_def intro: grows_same)
next
  case (mtu found setOK)
  then show ?thesis using assms(2)
    by (auto simp: world_inv_def measureAndApply_def tun_inv_def slots_ok_def confirmed_def grows_def split: sum.splits)
qed (use assms(2) in \<open>auto simp: world_inv_def split: if_splits\<close>)

lemma reachable_inv: "reachable E w0 w \<Longrightarrow> world_inv w0 \<Longrightarrow> world_inv w \<and> grows (w_t w0) (w_t w)"
proof (induction rule: reachable.induct)
  case (step w out w')
  then show ?case using tstep_inv grows_trans by blast
qed simp

lemma start_world_inv: "tunnel_New cfg = Inr t \<Longrightarrow> world_inv (start_world t peer)"
  by (auto simp: tunnel_New_def start_world_def world_inv_def tun_inv_def slots_ok_def split: sum.splits)

section \<open>Behaviour of the handlers\<close>

text \<open>A datagram somebody without the session keys can send: noise, any handshake message (recorded or
  fresh), or a data or probe message that no key opens.\<close>

definition forged :: "('st, 'k) env \<Rightarrow> bytes \<Rightarrow> bool" where
  "forged E buf =
     (case parseHeader buf of
        Inl _ \<Rightarrow> True
      | Inr (h, body) \<Rightarrow> h_kind h = typeInit \<or> h_kind h = typeResp \<or>
          (\<forall>k. e_dec E k (h_counter h) (header_bytes h) body = None))"

type_synonym arrival_log = "(int \<times> nat \<times> bytes \<times> addr option) list"

fun recv_all :: "('st, 'k) env \<Rightarrow> 'k tunnel \<Rightarrow> arrival_log \<Rightarrow> ('k tunnel \<times> effect list) option" where
  "recv_all E t [] = Some (t, [])"
| "recv_all E t ((now, seed, buf, from) # ds) =
     (case pumpFromCarrier E now seed buf from t of
        None \<Rightarrow> None
      | Some (t, out) \<Rightarrow> map_option (\<lambda>(t, out'). (t, out @ out')) (recv_all E t ds))"

text \<open>What an attacker must not move: the sessions in use, their state, and the peer.\<close>

definition untouched :: "'k tunnel \<Rightarrow> 'k tunnel \<Rightarrow> bool" where
  "untouched t t' \<longleftrightarrow> t_cfg t' = t_cfg t \<and> t_encap t' = t_encap t \<and> t_current t' = t_current t \<and>
     t_previous t' = t_previous t \<and> t_peer t' = t_peer t \<and> take (length (t_heap t)) (t_heap t') = t_heap t"

lemma untouched_refl [simp]: "untouched t t"
  by (simp add: untouched_def)

lemma untouched_dropped [simp]: "untouched t (add_dropped t)"
  by (simp add: untouched_def)

lemma untouched_trans:
  assumes "untouched t u" "untouched u v"
  shows "untouched t v"
proof -
  have "length (t_heap t) \<le> length (t_heap u)" using assms(1) unfolding untouched_def by (metis length_take min.cobounded1)
  then have "take (length (t_heap t)) (t_heap v) = take (length (t_heap t)) (take (length (t_heap u)) (t_heap v))"
    by (simp add: min.absorb1)
  also have "\<dots> = t_heap t" using assms unfolding untouched_def by simp
  finally show ?thesis using assms by (simp add: untouched_def)
qed

lemma authenticate_forged:
  assumes "\<And>k. e_dec E k (h_counter h) (header_bytes h) body = None"
  shows "authenticate E now h body from t = Some (add_dropped t, None)"
proof (cases "sessionFor t (h_session h)")
  case (Pair sl b)
  show ?thesis
  proof (cases sl)
    case (Some p)
    obtain e where "open_at E t p h body = Some (t, Inl e)"
      using assms by (cases "accept (s_replay (t_heap t ! p)) (h_counter h)") (auto simp: open_at_def session_open_def)
    then show ?thesis using Pair Some by (simp add: authenticate_def)
  qed (use Pair in \<open>simp add: authenticate_def\<close>)
qed

lemma handleInit_untouched:
  assumes "t_current t \<noteq> None" "handleInit E now seed h body from t = (t', out)"
  shows "untouched t t' \<and> (\<forall>x. ToTun x \<notin> set out)"
proof -
  have "untouched t t'" using handleInit_result [OF assms(2)] assms(1) by (auto simp: untouched_def)
  moreover have "\<forall>x. ToTun x \<notin> set out"
    using assms(2) by (auto simp: handleInit_def alloc_def Let_def split: if_splits option.splits)
  ultimately show ?thesis by blast
qed

lemma forged_untouched:
  assumes "t_current t \<noteq> None" "forged E buf"
  shows "\<exists>t' out. pumpFromCarrier E now seed buf from t = Some (t', out) \<and> untouched t t' \<and> (\<forall>x. ToTun x \<notin> set out)"
proof (cases "parseHeader buf")
  case (Inl e)
  then show ?thesis by (simp add: pumpFromCarrier_def)
next
  case (Inr hb)
  obtain h body where hb: "hb = (h, body)" by (cases hb)
  obtain ti oi where i: "handleInit E now seed h body from t = (ti, oi)" by fastforce
  have r: "untouched t (handleResp h body t)" by (simp add: handleResp_def untouched_def)
  show ?thesis
  proof (cases "h_kind h = typeInit \<or> h_kind h = typeResp")
    case True
    then show ?thesis using Inr hb i r handleInit_untouched [OF assms(1) i] by (auto simp: pumpFromCarrier_def)
  next
    case False
    then have "authenticate E now h body from t = Some (add_dropped t, None)"
      using assms(2) Inr hb by (intro authenticate_forged) (auto simp: forged_def)
    then show ?thesis using False Inr hb
      by (auto simp: pumpFromCarrier_def handleData_def handleProbeMessage_def)
  qed
qed

lemma recv_forged:
  "t_current t \<noteq> None \<Longrightarrow> list_all (\<lambda>(now, seed, buf, from). forged E buf) ds \<Longrightarrow>
   \<exists>t' out. recv_all E t ds = Some (t', out) \<and> untouched t t' \<and> (\<forall>x. ToTun x \<notin> set out)"
proof (induction ds arbitrary: t)
  case (Cons d ds)
  obtain now seed buf a where d: "d = (now, seed, buf, a)" by (cases d)
  obtain t1 out1 where 1: "pumpFromCarrier E now seed buf a t = Some (t1, out1)" "untouched t t1" "\<forall>x. ToTun x \<notin> set out1"
    using forged_untouched [OF Cons.prems(1), of E buf now seed a] Cons.prems(2) d by auto
  have c: "t_current t1 \<noteq> None" using 1(2) Cons.prems(1) by (simp add: untouched_def)
  have "list_all (\<lambda>(now, seed, buf, from). forged E buf) ds" using Cons.prems(2) by simp
  then obtain t2 out2 where 2: "recv_all E t1 ds = Some (t2, out2)" "untouched t1 t2" "\<forall>x. ToTun x \<notin> set out2"
    using Cons.IH [OF c] by blast
  then show ?case using 1 d untouched_trans [OF 1(2) 2(2)] by auto
qed simp

text \<open>What a packet of the TUN device costs the counters.\<close>

lemma pump_packet_counts:
  assumes "pump_packet E ended sess peer pkt t = (t', out, False)"
  shows "packetsOut (t_stats t') + dropped (t_stats t') =
      packetsOut (t_stats t) + dropped (t_stats t) + (if pkt = [] then 0 else 1)"
proof -
  have s: "t_stats (fst (seal_at E t p pt kind)) = t_stats t" for p pt kind
    by (auto simp: seal_at_def split: prod.splits)
  have s': "t_stats u = t_stats t" if "seal_at E t p pt kind = (u, r)" for p pt kind u r
    using s [of p pt kind] that by simp
  show ?thesis
    using assms by (auto simp: pump_packet_def add_dropped_def add_out_def dest!: s'
        split: if_splits option.splits sum.splits prod.splits)
qed

lemma pump_packets_counts:
  "pump_packets E ended sess peer pkts t = (t', out, False) \<Longrightarrow>
   packetsOut (t_stats t') + dropped (t_stats t') =
     packetsOut (t_stats t) + dropped (t_stats t) + word_of_nat (length (filter (\<lambda>p. p \<noteq> []) pkts))"
proof (induction pkts arbitrary: t out)
  case (Cons pkt pkts)
  obtain t1 out1 stop where 1: "pump_packet E ended sess peer pkt t = (t1, out1, stop)" by (metis prod_cases3)
  obtain t2 out2 stop2 where 2: "pump_packets E ended sess peer pkts t1 = (t2, out2, stop2)" by (metis prod_cases3)
  have st: "\<not> stop" "t' = t2" "\<not> stop2" using Cons.prems 1 2 by (auto split: if_splits)
  have c1: "packetsOut (t_stats t1) + dropped (t_stats t1) = packetsOut (t_stats t) + dropped (t_stats t) + (if pkt = [] then 0 else 1)"
    using pump_packet_counts 1 st(1) by fastforce
  have "packetsOut (t_stats t2) + dropped (t_stats t2) =
     packetsOut (t_stats t1) + dropped (t_stats t1) + word_of_nat (length (filter (\<lambda>p. p \<noteq> []) pkts))"
    using Cons.IH [of t1 out2] 2 st by simp
  then show ?case using c1 st(2) by (simp add: add.assoc)
qed simp

text \<open>The two receive paths of a tunnel coming up, with the state they leave.\<close>

lemma recv_init:
  assumes "c_Mode (t_cfg t) = ModeListen" "t_lastReply t = None \<or> sid \<noteq> t_lastInitID t"
    "respond (e_noise E) seed now (c_Token (t_cfg t)) sid msg (encapID (t_encap t))
       = \<lparr>r_session = Some sess, r_reply = Some reply, r_error = None\<rparr>"
  shows "pumpFromCarrier E now seed (header_bytes \<lparr>h_kind = typeInit, h_session = sid, h_counter = 0\<rparr> @ msg) from t =
    Some (publishPeer (t\<lparr>t_heap := t_heap t @ [sess], t_pending := Some (length (t_heap t)), t_lastInitID := sid,
            t_lastReply := Some reply, t_peer := (if t_current t = None then from else t_peer t)\<rparr>), [ToCarrier reply from])"
proof -
  have "known_kind typeInit" by (simp add: known_kind_def)
  then show ?thesis using assms
    by (auto simp: pumpFromCarrier_def parse_header_bytes handleInit_def alloc_def Let_def)
qed

lemma recv_resp:
  assumes "c_Mode (t_cfg t) = ModeDial" "length (t_replies t) < repliesCap"
  shows "pumpFromCarrier E now seed (header_bytes \<lparr>h_kind = typeResp, h_session = sid, h_counter = 0\<rparr> @ reply) from t =
    Some (t\<lparr>t_replies := t_replies t @ [(sid, reply)]\<rparr>, [])"
proof -
  have "known_kind typeResp" "typeResp \<noteq> typeInit" by (simp_all add: known_kind_def kind_defs)
  then show ?thesis using assms by (simp add: pumpFromCarrier_def parse_header_bytes handleResp_def)
qed

lemma recv_data:
  assumes "h_kind h = typeData" "sessionFor t (h_session h) = (Some p, b)"
    "session_open (e_dec E) (t_heap t ! p) h body = Some (s', Inr plain)"
    "gre_Unwrap (t_encap t) plain = Inr inner" "e_tun E inner"
  shows "pumpFromCarrier E now seed (header_bytes h @ body) from t =
    Some (add_in (length inner) (notePeer from (if b then promote now p (t\<lparr>t_heap := (t_heap t)[p := s']\<rparr>)
            else t\<lparr>t_heap := (t_heap t)[p := s']\<rparr>)), [ToTun inner])"
proof -
  have k: "known_kind (h_kind h)" "typeData \<noteq> typeInit" "typeData \<noteq> typeResp"
    using assms(1) by (simp_all add: known_kind_def kind_defs)
  have "authenticate E now h body from t = Some (notePeer from (if b then promote now p (t\<lparr>t_heap := (t_heap t)[p := s']\<rparr>)
            else t\<lparr>t_heap := (t_heap t)[p := s']\<rparr>), Some (p, plain))"
    using assms by (simp add: authenticate_def open_at_def)
  then show ?thesis using k assms by (simp add: pumpFromCarrier_def parse_header_bytes handleData_def)
qed

lemma fresh_session_open:
  assumes "s_replay s = zero_window" "dec (s_recv s) (h_counter h) (header_bytes h) body = Some plain"
  shows "\<exists>s'. session_open dec s h body = Some (s', Inr plain) \<and> s_id s' = s_id s \<and> s_send s' = s_send s \<and>
    s_recv s' = s_recv s \<and> s_created s' = s_created s \<and> s_sendCounter s' = s_sendCounter s"
proof -
  have "accept zero_window (h_counter h)" by (simp add: accept_def zero_window_def)
  moreover obtain w where "commit zero_window (h_counter h) = Some w" by (simp add: commit_def zero_window_def)
  ultimately show ?thesis using assms by (simp add: session_open_def)
qed

end
