(* ===== verification/TunnelSafety.thy ===== *)
theory TunnelSafety
  imports Tunnel
begin

text \<open>
  What the engine promises, over the handlers and the step relation of \<open>Tunnel\<close>: the listening side
  seals only under confirmed sessions; forged and replayed traffic moves nothing; what reaches the
  TUN device is authentic; sessions retire and rekeys lose nothing in flight; every packet is
  accounted for; and one thing a recorded handshake can still do.
\<close>

section \<open>Concrete runs\<close>

definition demo_env :: "(string \<times> bool, u32) env" where
  "demo_env = \<lparr>e_noise = demo_noise, e_enc = demo_enc, e_dec = demo_dec, e_write = (\<lambda>_ _. True), e_tun = (\<lambda>_. True)\<rparr>"

definition demo_gre :: greEncap where "demo_gre = \<lparr>g_key = 0, g_keyed = False\<rparr>"

definition demo_addr :: addr where "demo_addr = UDPAddr [192, 0, 2, 7] 4000 []"

definition demo_listener :: "u32 tunnel" where
  "demo_listener =
     \<lparr>t_cfg = demo_config ModeListen, t_encap = demo_gre, t_heap = [], t_current = None, t_pending = None, t_previous = None,
      t_prevFrom = 0, t_peer = None, t_mtuCurrent = 1400, t_waiters = Map.empty, t_replies = [],
      t_lastInitID = 0, t_lastReply = None,
      t_stats = \<lparr>packetsIn = 0, packetsOut = 0, bytesIn = 0, bytesOut = 0, dropped = 0, handshakes = 0\<rparr>,
      t_published = None\<rparr>"

lemma demo_New_mode:
  assumes "m = ModeDial \<or> m = ModeListen"
  shows "tunnel_New (demo_config m) = Inr (demo_listener\<lparr>t_cfg := demo_config m\<rparr>)"
proof -
  have "c_Encap (demo_config m) = ''gre''" "c_GREKey (demo_config m) = 0" "c_MTU (demo_config m) = 1400"
    by (simp_all add: demo_config_def)
  then show ?thesis using assms
    by (simp add: tunnel_New_def config_ok_Validate [OF demo_config_ok] NewEncap_gre demo_listener_def demo_gre_def)
qed

lemma demo_New: "tunnel_New (demo_config ModeListen) = Inr demo_listener"
  using demo_New_mode [of ModeListen] by (simp add: demo_listener_def)

text \<open>A first message with session id 77, and the first data packet under the session it makes.\<close>

definition demo_init :: bytes where
  "demo_init = header_bytes \<lparr>h_kind = typeInit, h_session = 77, h_counter = 0\<rparr> @ bytes_of_string (encapID demo_gre)"

definition demo_data :: bytes where
  "demo_data = header_bytes \<lparr>h_kind = typeData, h_session = 77, h_counter = 0\<rparr>
     @ demo_enc 5 0 [] (projr (gre_Wrap demo_gre [] demo_packet))"

definition demo_waiting :: "u32 tunnel" where
  "demo_waiting = fst (the (pumpFromCarrier demo_env 0 1 demo_init (Some demo_addr) demo_listener))"

definition demo_up :: "u32 tunnel" where
  "demo_up = fst (the (pumpFromCarrier demo_env 1 1 demo_data (Some demo_addr) demo_waiting))"

lemma demo_mode: "c_Mode (demo_config m) = m" by (simp add: demo_config_def)

definition demo_fresh :: "u32 session" where
  "demo_fresh = \<lparr>s_id = 77, s_created = 0, s_send = 6, s_recv = 5, s_sendCounter = 0, s_replay = zero_window\<rparr>"

lemma demo_respond:
  "\<exists>reply. respond demo_noise 1 0 token 77 (bytes_of_string (encapID demo_gre)) (encapID demo_gre)
     = \<lparr>r_session = Some demo_fresh, r_reply = Some reply, r_error = None\<rparr>"
  by (simp add: respond_def demo_noise_def newSession_def demo_fresh_def Let_def)

lemma demo_waiting_run:
  "\<exists>out. pumpFromCarrier demo_env 0 1 demo_init (Some demo_addr) demo_listener = Some (demo_waiting, out) \<and>
     t_heap demo_waiting = [demo_fresh] \<and> t_pending demo_waiting = Some 0 \<and> t_current demo_waiting = None \<and>
     t_previous demo_waiting = None \<and> t_cfg demo_waiting = demo_config ModeListen \<and> t_encap demo_waiting = demo_gre \<and>
     t_lastInitID demo_waiting = 77 \<and> t_peer demo_waiting = Some demo_addr"
proof -
  obtain reply where r: "respond demo_noise 1 0 (c_Token (demo_config ModeListen)) 77 (bytes_of_string (encapID demo_gre)) (encapID demo_gre)
     = \<lparr>r_session = Some demo_fresh, r_reply = Some reply, r_error = None\<rparr>"
    using demo_respond by blast
  note i = recv_init [of demo_listener 77 demo_env 1 0 "bytes_of_string (encapID demo_gre)" demo_fresh reply "Some demo_addr"]
  show ?thesis unfolding demo_waiting_def demo_init_def
    using i r by (simp add: demo_listener_def demo_mode demo_env_def)
qed

lemma demo_wrap: "gre_Unwrap demo_gre (projr (gre_Wrap demo_gre [] demo_packet)) = Inr demo_packet"
proof -
  obtain f where "gre_Wrap demo_gre [] demo_packet = Inr f"
    by (simp add: gre_Wrap_eq demo_packet_def ipVersion_def)
  then show ?thesis using gre.unwrap_iff by simp
qed

lemma demo_up_run:
  "\<exists>out. pumpFromCarrier demo_env 1 1 demo_data (Some demo_addr) demo_waiting = Some (demo_up, out) \<and>
     t_current demo_up = Some 0 \<and> t_pending demo_up = None \<and> t_cfg demo_up = demo_config ModeListen \<and>
     t_encap demo_up = demo_gre \<and> t_peer demo_up = Some demo_addr \<and> ToTun demo_packet \<in> set out \<and>
     s_created (t_heap demo_up ! 0) = 0 \<and> s_id (t_heap demo_up ! 0) = 77 \<and> length (t_heap demo_up) = 1"
proof -
  let ?h = "\<lparr>h_kind = typeData, h_session = 77, h_counter = 0\<rparr> :: header"
  have d: "demo_dec 5 0 ad (demo_enc 5 0 ad' x) = Some x" for ad ad' x
    by (simp add: demo_dec_def demo_enc_def)
  obtain s' where o: "session_open demo_dec demo_fresh ?h (demo_enc 5 0 [] (projr (gre_Wrap demo_gre [] demo_packet)))
      = Some (s', Inr (projr (gre_Wrap demo_gre [] demo_packet)))" "s_created s' = 0" "s_id s' = 77"
    using fresh_session_open [of demo_fresh demo_dec ?h] d by (fastforce simp: demo_fresh_def)
  have sf: "sessionFor demo_waiting 77 = (Some 0, True)"
    using demo_waiting_run by (auto simp: sessionFor_def slot_has_def demo_fresh_def)
  note i = recv_data [of ?h demo_waiting 0 True demo_env "demo_enc 5 0 [] (projr (gre_Wrap demo_gre [] demo_packet))" s'
      "projr (gre_Wrap demo_gre [] demo_packet)" demo_packet 1 1 "Some demo_addr"]
  show ?thesis unfolding demo_up_def demo_data_def
    using i o sf demo_wrap demo_waiting_run by (auto simp: demo_env_def promote_def notePeer_def)
qed

lemma demo_reachable: "reachable demo_env (start_world demo_listener None) \<lparr>w_t = demo_up, w_batch = None, w_att = None\<rparr>"
proof -
  let ?w0 = "start_world demo_listener None :: (string \<times> bool, u32) world"
  have w0: "w_t ?w0 = demo_listener" by (simp add: start_world_def setPeer_def)
  obtain o1 where "pumpFromCarrier demo_env 0 1 demo_init (Some demo_addr) (w_t ?w0) = Some (demo_waiting, o1)"
    using demo_waiting_run w0 by auto
  then have r1: "reachable demo_env ?w0 (?w0\<lparr>w_t := demo_waiting\<rparr>)"
    by (intro reachable.step [OF reachable.start] tstep.recv)
  obtain o2 where "pumpFromCarrier demo_env 1 1 demo_data (Some demo_addr) (w_t (?w0\<lparr>w_t := demo_waiting\<rparr>)) = Some (demo_up, o2)"
    using demo_up_run by auto
  then have "reachable demo_env ?w0 (?w0\<lparr>w_t := demo_waiting\<rparr>\<lparr>w_t := demo_up\<rparr>)"
    by (intro reachable.step [OF r1] tstep.recv)
  then show ?thesis by (simp add: start_world_def)
qed

lemma demo_up_inv: "tun_inv demo_up"
  using reachable_inv [OF demo_reachable start_world_inv [OF demo_New]] by (simp add: world_inv_def)

section \<open>Properties\<close>

text \<open>C27. The listening side never trusts a handshake by itself: in every reachable state, whatever the
  interleaving of its pumps, timers and probes, the session it seals with once there is a current one
  has accepted an authenticated packet, and is a different session from the pending and the
  previous one.\<close>

theorem listener_current_is_confirmed:
  assumes "tunnel_New cfg = Inr t0" and "reachable E (start_world t0 peer) w"
    and "c_Mode (t_cfg (w_t w)) = ModeListen" and "t_current (w_t w) = Some p"
  shows "p < length (t_heap (w_t w)) \<and> rw_seeded (s_replay (t_heap (w_t w) ! p)) \<and>
     t_pending (w_t w) \<noteq> Some p \<and> t_previous (w_t w) \<noteq> Some p \<and> sendSession (w_t w) = Some p"
  using reachable_inv [OF assms(2) start_world_inv [OF assms(1)]] assms(3,4)
  by (auto simp: world_inv_def tun_inv_def slots_ok_def confirmed_def sendSession_def)

theorem listener_current_is_confirmed_witness:
  "rw_seeded (s_replay (t_heap demo_up ! 0)) \<and> sendSession demo_up = Some 0"
  using listener_current_is_confirmed [OF demo_New demo_reachable] demo_up_run by (auto simp: demo_mode)

text \<open>C28. Forged and replayed traffic moves nothing: once the listening side has a current session,
  any sequence of noise, recorded or fresh handshake messages and packets no key opens is handled
  (it does not get stuck) and leaves the current and previous sessions with their replay windows and
  counters, the session used for sending and the peer's address exactly as they were, and puts
  nothing into the TUN device.\<close>

theorem attacker_moves_nothing:
  assumes "t_current t = Some c" and "list_all (\<lambda>(now, seed, buf, from). forged E buf) ds"
  shows "\<exists>t' out. recv_all E t ds = Some (t', out) \<and> t_current t' = t_current t \<and> t_previous t' = t_previous t \<and>
     sendSession t' = sendSession t \<and> t_peer t' = t_peer t \<and>
     (\<forall>p < length (t_heap t). t_heap t' ! p = t_heap t ! p) \<and> (\<forall>x. ToTun x \<notin> set out)"
proof -
  obtain t' out where r: "recv_all E t ds = Some (t', out)" "untouched t t'" "\<forall>x. ToTun x \<notin> set out"
    using recv_forged [of t, OF _ assms(2)] assms(1) by (metis option.distinct(1))
  have h: "take (length (t_heap t)) (t_heap t') = t_heap t" using r(2) by (simp add: untouched_def)
  have "t_heap t' ! p = t_heap t ! p" if "p < length (t_heap t)" for p
    using nth_take [OF that, of "t_heap t'"] h by simp
  then show ?thesis using r assms(1) by (simp add: untouched_def sendSession_def)
qed

theorem attacker_moves_nothing_witness:
  "\<exists>t' out. recv_all demo_env demo_up [(5, 1, demo_init, None), (6, 2, [9, 9], Some (OtherAddr ''x''))] = Some (t', out) \<and>
     t_peer t' = t_peer demo_up \<and> sendSession t' = sendSession demo_up"
proof -
  have "parseHeader demo_init = Inr (\<lparr>h_kind = typeInit, h_session = 77, h_counter = 0\<rparr>, bytes_of_string (encapID demo_gre))"
    unfolding demo_init_def by (rule parse_header_bytes) (simp add: known_kind_def)
  then have "forged demo_env demo_init" by (simp add: forged_def)
  moreover have "forged demo_env [9, 9]" by (simp add: forged_def parseHeader_def headerLen_def)
  ultimately show ?thesis
    using attacker_moves_nothing [of demo_up 0 demo_env "[(5, 1, demo_init, None), (6, 2, [9, 9], Some (OtherAddr ''x''))]"]
      demo_up_run by auto
qed

definition opens_in :: "('st, 'k) env \<Rightarrow> 'k tunnel \<Rightarrow> bytes \<Rightarrow> bytes \<Rightarrow> bool" where
  "opens_in E t buf plain \<longleftrightarrow> (\<exists>h body p. parseHeader buf = Inr (h, body) \<and> h_kind h \<in> {typeData, typeProbe, typeProbeAck} \<and>
     (t_current t = Some p \<or> t_pending t = Some p \<or> t_previous t = Some p) \<and> s_id (t_heap t ! p) = h_session h \<and>
     accept (s_replay (t_heap t ! p)) (h_counter h) \<and>
     e_dec E (s_recv (t_heap t ! p)) (h_counter h) (header_bytes h) body = Some plain)"

lemma authenticate_opens:
  assumes "authenticate E now h body from t = Some (t', Some (p, plain))" "parseHeader buf = Inr (h, body)"
    "h_kind h \<in> {typeData, typeProbe, typeProbeAck}"
  shows "opens_in E t buf plain"
proof -
  obtain b t1 where b: "sessionFor t (h_session h) = (Some p, b)" "open_at E t p h body = Some (t1, Inr plain)"
    using assms(1) by (auto simp: authenticate_def split: option.splits prod.splits sum.splits)
  then show ?thesis using sessionFor_slot [OF b(1)] assms(2,3)
    by (auto simp: opens_in_def open_at_def session_open_def split: option.splits if_splits)
qed

lemma authenticate_dropped:
  assumes "authenticate E now h body from t = Some (t', None)"
  shows "t' = add_dropped t"
  using assms by (auto simp: authenticate_def split: option.splits prod.splits sum.splits dest: open_at_error)

lemma authenticate_encap: "authenticate E now h body from t = Some (t', r) \<Longrightarrow> t_encap t' = t_encap t"
  by (auto simp: authenticate_def open_at_def split: option.splits prod.splits sum.splits)



text \<open>Retirement is complete and exact: after \<open>retireSessions\<close>, no session that is found for sending or
  for receiving has expired, the previous one is within its grace period, a session that has not
  expired is still found, and the published peer is cleared exactly when nothing is left to carry a
  packet.\<close>

theorem retire_is_exact:
  fixes t now
  defines "t' \<equiv> retireSessions now t"
  assumes "tun_inv t"
  shows "(\<forall>p. sendSession t' = Some p \<longrightarrow> \<not> expired (t_heap t ! p) now) \<and>
    (\<forall>sid p b. sessionFor t' sid = (Some p, b) \<longrightarrow> \<not> expired (t_heap t ! p) now \<and>
       (t_previous t = Some p \<longrightarrow> now - t_prevFrom t \<le> previousGrace)) \<and>
    (\<forall>p. t_current t = Some p \<and> \<not> expired (t_heap t ! p) now \<longrightarrow> sessionFor t' (s_id (t_heap t ! p)) = (Some p, False)) \<and>
    (sendSession t' = None \<longrightarrow> t_published t' = None) \<and> (sendSession t' \<noteq> None \<longrightarrow> t_published t' = t_published t)"
proof -
  note sl = retireSessions_slots [of now t] and h = retireSessions_fields(3) [of now t]
  have a: "\<not> expired (t_heap t ! p) now" if "sendSession t' = Some p" for p
    using that sl by (auto simp: t'_def sendSession_def slot_expired_def split: if_splits option.splits)
  have b: "\<not> expired (t_heap t ! p) now \<and> (t_previous t = Some p \<longrightarrow> now - t_prevFrom t \<le> previousGrace)"
    if "sessionFor t' sid = (Some p, b)" for sid p b
  proof -
    have "t_current t' = Some p \<or> t_pending t' = Some p \<or> t_previous t' = Some p"
      using sessionFor_slot [OF that] by blast
    then show ?thesis using sl assms(2)
      by (auto simp: t'_def slot_expired_def tun_inv_def slots_ok_def split: if_splits option.splits)
  qed
  have c: "sessionFor t' (s_id (t_heap t ! p)) = (Some p, False)"
    if "t_current t = Some p" "\<not> expired (t_heap t ! p) now" for p
    using that sl h by (simp add: t'_def sessionFor_def slot_has_def slot_expired_def)
  have d: "(sendSession t' = None \<longrightarrow> t_published t' = None) \<and> (sendSession t' \<noteq> None \<longrightarrow> t_published t' = t_published t)"
    by (auto simp: t'_def sendSession_def retireSessions_def Let_def)
  show ?thesis using a b c d by blast
qed

theorem retire_is_exact_witness:
  "sendSession (retireSessions 400000000000 demo_up) = None \<and> t_published (retireSessions 400000000000 demo_up) = None"
proof -
  have "expired (t_heap demo_up ! 0) 400000000000"
    using demo_up_run by (auto simp: expired_def rejectAfterTime_def)
  then have "sendSession (retireSessions 400000000000 demo_up) = None"
    using demo_up_run by (auto simp: sendSession_def retireSessions_slots slot_expired_def)
  then show ?thesis using retire_is_exact [OF demo_up_inv, of 400000000000] by simp
qed

lemma pump_packet_silent: "sess = None \<or> peer = None \<Longrightarrow> pump_packet E ended sess peer pkt t = (t', out, stop) \<Longrightarrow> out = [] \<and> \<not> stop"
  by (auto simp: pump_packet_def split: if_splits option.splits sum.splits prod.splits)

lemma pump_packets_silent:
  "sess = None \<or> peer = None \<Longrightarrow> pump_packets E ended sess peer pkts t = (t', out, stop) \<Longrightarrow> out = [] \<and> \<not> stop"
proof (induction pkts arbitrary: t out)
  case (Cons pkt pkts)
  obtain t1 out1 s1 where 1: "pump_packet E ended sess peer pkt t = (t1, out1, s1)" by (metis prod_cases3)
  obtain t2 out2 s2 where 2: "pump_packets E ended sess peer pkts t1 = (t2, out2, s2)" by (metis prod_cases3)
  show ?case using Cons.IH [of t1 out2] Cons.prems pump_packet_silent [OF Cons.prems(1) 1] 1 2 by auto
qed simp

text \<open>Every packet is accounted for: over a batch from the TUN device that runs to its end, packets sent
  plus packets dropped grow by exactly the number of non-empty packets of the batch (modulo the
  64-bit counters), and nothing is written to the carrier unless there is a session and a peer.\<close>

theorem tun_batch_accounting:
  assumes "pumpFromTUN E ended batch t = (t', out, stop)"
  shows "(\<not> stop \<longrightarrow> packetsOut (t_stats t') + dropped (t_stats t') =
      packetsOut (t_stats t) + dropped (t_stats t) + word_of_nat (length (filter (\<lambda>p. p \<noteq> []) batch))) \<and>
    (sendSession t = None \<or> t_peer t = None \<longrightarrow> out = [] \<and> \<not> stop)"
proof -
  have r: "pump_packets E ended (sendSession t) (t_peer t) batch t = (t', out, stop)"
    using assms by (simp add: pumpFromTUN_def)
  show ?thesis using pump_packets_counts pump_packets_silent [OF _ r] r by (intro conjI impI) auto
qed

theorem tun_batch_accounting_witness:
  "dropped (t_stats (fst (pumpFromTUN demo_env False [demo_packet, [], [0]] demo_listener))) = 2"
proof -
  obtain t' out stop where r: "pumpFromTUN demo_env False [demo_packet, [], [0]] demo_listener = (t', out, stop)"
    by (metis prod_cases3)
  have n: "sendSession demo_listener = None" by (simp add: sendSession_def demo_listener_def)
  have "packetsOut (t_stats t') = 0"
    using r n by (auto simp: pumpFromTUN_def pump_packet_def demo_packet_def add_dropped_def demo_listener_def)
  then show ?thesis using tun_batch_accounting [OF r] n r by (simp add: demo_packet_def demo_listener_def)
qed

text \<open>A rekey loses nothing in flight: when a session replaces the current one, on either side, packets
  under the new id are found in the new session, packets still on the path under the old id are
  found in the old one, and the ticker keeps it so for the whole grace period while neither has
  expired.\<close>

theorem rekey_keeps_in_flight_packets:
  assumes inv: "tun_inv t" and cur: "t_current t = Some c" and p: "p < length (t_heap t)" "p \<noteq> c"
    and ids: "s_id (t_heap t ! c) \<noteq> s_id (t_heap t ! p)"
    and t': "t' = installDialed now p t \<or> t_pending t = Some p \<and> t' = promote now p t"
    and later: "now \<le> now'" "now' - now \<le> previousGrace" "\<not> expired (t_heap t ! c) now'" "\<not> expired (t_heap t ! p) now'"
  shows "sendSession t' = Some p \<and>
    (\<forall>u \<in> {t', retireSessions now' t'}.
       sessionFor u (s_id (t_heap t ! p)) = (Some p, False) \<and> sessionFor u (s_id (t_heap t ! c)) = (Some c, False))"
proof -
  have f: "t_heap t' = t_heap t" "t_current t' = Some p" "t_pending t' = None" "t_previous t' = Some c" "t_prevFrom t' = now"
    using t' cur by (auto simp: installDialed_def promote_def)
  have g: "t_current (retireSessions now' t') = Some p" "t_pending (retireSessions now' t') = None"
    "t_previous (retireSessions now' t') = Some c"
    using f later by (auto simp: retireSessions_slots slot_expired_def)
  show ?thesis using f g ids by (simp add: sendSession_def sessionFor_def slot_has_def)
qed

definition demo_rekey :: "u32 tunnel" where
  "demo_rekey = demo_up\<lparr>t_heap := t_heap demo_up @ [demo_fresh\<lparr>s_id := 78\<rparr>]\<rparr>"

theorem rekey_keeps_in_flight_packets_witness:
  "sendSession (installDialed 1000 1 demo_rekey) = Some 1 \<and>
   sessionFor (retireSessions 2000 (installDialed 1000 1 demo_rekey)) (s_id (t_heap demo_up ! 0)) = (Some 0, False)"
proof -
  have l: "length (t_heap demo_up) = 1" "t_current demo_up = Some 0" "s_created (t_heap demo_up ! 0) = 0"
    "s_id (t_heap demo_up ! 0) = 77"
    using demo_up_run by auto
  have h: "t_heap demo_rekey ! 0 = t_heap demo_up ! 0" "t_heap demo_rekey ! 1 = demo_fresh\<lparr>s_id := 78\<rparr>"
    "length (t_heap demo_rekey) = 2"
    using l by (auto simp: demo_rekey_def nth_append)
  have "tun_inv demo_rekey" using demo_up_inv l unfolding demo_rekey_def
    by (auto simp: tun_inv_def slots_ok_def confirmed_def nth_append)
  then have "sendSession (installDialed 1000 1 demo_rekey) = Some 1 \<and>
    (\<forall>u \<in> {installDialed 1000 1 demo_rekey, retireSessions 2000 (installDialed 1000 1 demo_rekey)}.
       sessionFor u (s_id (t_heap demo_rekey ! 1)) = (Some 1, False) \<and> sessionFor u (s_id (t_heap demo_rekey ! 0)) = (Some 0, False))"
    by (rule rekey_keeps_in_flight_packets)
      (use l h in \<open>auto simp: demo_rekey_def demo_fresh_def expired_def rejectAfterTime_def previousGrace_def nth_append\<close>)
  then show ?thesis using h by simp
qed

text \<open>A retransmitted first message gets the identical answer: once a handshake with a session id has
  been answered, any later first message with that id is answered with the same reply, and no
  second set of keys is derived for it.\<close>

theorem retransmission_gets_same_reply:
  assumes "handleInit E now seed h body from t = (t1, out)" and "t_heap t1 \<noteq> t_heap t"
    and "h_session h' = h_session h"
  shows "\<exists>reply. out = [ToCarrier reply from] \<and> handleInit E now' seed' h' body' from' t1 = (t1, [ToCarrier reply from'])"
proof -
  obtain sess reply where r: "c_Mode (t_cfg t) = ModeListen" "\<not> (h_session h = t_lastInitID t \<and> t_lastReply t \<noteq> None)"
    "r_reply (respond (e_noise E) seed now (c_Token (t_cfg t)) (h_session h) body (encapID (t_encap t))) = Some reply"
    "t1 = publishPeer (t\<lparr>t_heap := t_heap t @ [sess], t_pending := Some (length (t_heap t)),
              t_lastInitID := h_session h, t_lastReply := Some reply,
              t_peer := (if t_current t = None then from else t_peer t)\<rparr>)"
    using handleInit_result [OF assms(1)] assms(2) by auto
  have "out = [ToCarrier reply from]"
    using assms(1) r(1-3) by (auto simp: handleInit_def alloc_def Let_def split: option.splits if_splits)
  moreover have "handleInit E now' seed' h' body' from' t1 = (t1, [ToCarrier reply from'])"
    using r assms(3) by (simp add: handleInit_def)
  ultimately show ?thesis by blast
qed

theorem retransmission_gets_same_reply_witness:
  "\<exists>reply. handleInit demo_env 9 9 \<lparr>h_kind = typeInit, h_session = 77, h_counter = 0\<rparr> [] None demo_waiting
     = (demo_waiting, [ToCarrier reply None])"
proof -
  let ?h = "\<lparr>h_kind = typeInit, h_session = 77, h_counter = 0\<rparr> :: header"
  have p: "parseHeader demo_init = Inr (?h, bytes_of_string (encapID demo_gre))"
    unfolding demo_init_def by (rule parse_header_bytes) (simp add: known_kind_def)
  obtain out where "handleInit demo_env 0 1 ?h (bytes_of_string (encapID demo_gre)) (Some demo_addr) demo_listener = (demo_waiting, out)"
    using demo_waiting_run p by (auto simp: pumpFromCarrier_def)
  moreover have "t_heap demo_waiting \<noteq> t_heap demo_listener"
    using demo_waiting_run by (simp add: demo_listener_def)
  ultimately show ?thesis using retransmission_gets_same_reply [of demo_env 0 1 ?h _ _ demo_listener demo_waiting _ ?h] by metis
qed

text \<open>What a recorded handshake can still do: a first message with another session id that is
  answered while a session is pending throws the pending one away, and the packets its peer already
  seals under it are dropped. (The dialling side installs its session at once, so it keeps
  sealing under it until its next rekey.)\<close>

theorem replayed_init_displaces_pending:
  assumes "tun_inv t" and "t_pending t = Some p" and "s_id (t_heap t ! p) = x" and "h_session h \<noteq> x"
    and "\<not> slot_has t (t_current t) x" and "\<not> slot_has t (t_previous t) x"
    and "handleInit E now seed h body from t = (t1, out)" and "t_heap t1 \<noteq> t_heap t"
    and "h_session d = x"
  shows "handleData E now' d sealed from' t1 = Some (add_dropped t1, [])"
proof -
  obtain sess reply where t1: "t1 = publishPeer (t\<lparr>t_heap := t_heap t @ [sess], t_pending := Some (length (t_heap t)),
              t_lastInitID := h_session h, t_lastReply := Some reply,
              t_peer := (if t_current t = None then from else t_peer t)\<rparr>)"
    and s: "r_session (respond (e_noise E) seed now (c_Token (t_cfg t)) (h_session h) body (encapID (t_encap t))) = Some sess"
    using handleInit_result [OF assms(7)] assms(8) by auto
  have "s_id sess = h_session h"
    using s newSession_unseeded by (fastforce simp: respond_def Let_def split: option.splits if_splits sum.splits)
  moreover have "q < length (t_heap t)" if "t_current t = Some q \<or> t_previous t = Some q" for q
    using assms(1) that by (auto simp: tun_inv_def slots_ok_def)
  ultimately have "sessionFor t1 x = (None, False)"
    using assms(4-6) unfolding t1 by (auto simp: sessionFor_def slot_has_def nth_append split: option.splits)
  then show ?thesis using assms(9) by (simp add: handleData_def authenticate_def)
qed

theorem replayed_init_displaces_pending_witness:
  "\<exists>t1. handleData demo_env 2 \<lparr>h_kind = typeData, h_session = 77, h_counter = 0\<rparr> [] None t1 = Some (add_dropped t1, []) \<and>
     fst (handleInit demo_env 1 1 \<lparr>h_kind = typeInit, h_session = 99, h_counter = 0\<rparr>
            (bytes_of_string (encapID demo_gre)) None demo_waiting) = t1"
proof -
  let ?h = "\<lparr>h_kind = typeInit, h_session = 99, h_counter = 0\<rparr> :: header"
  obtain t1 out where r: "handleInit demo_env 1 1 ?h (bytes_of_string (encapID demo_gre)) None demo_waiting = (t1, out)"
    by fastforce
  have w: "t_heap demo_waiting = [demo_fresh]" "t_pending demo_waiting = Some 0" "t_current demo_waiting = None"
    "t_previous demo_waiting = None" "t_cfg demo_waiting = demo_config ModeListen" "t_encap demo_waiting = demo_gre"
    "t_lastInitID demo_waiting = 77"
    using demo_waiting_run by auto
  have inv: "tun_inv demo_waiting"
    using reachable_inv [OF reachable.step [OF reachable.start tstep.recv] start_world_inv [OF demo_New, of None]]
      demo_waiting_run by (fastforce simp: start_world_def setPeer_def world_inv_def)
  have ne: "t_heap t1 \<noteq> t_heap demo_waiting"
    using r w by (auto simp: handleInit_def demo_mode demo_env_def respond_def demo_noise_def newSession_def alloc_def Let_def
        split: option.splits)
  have "handleData demo_env 2 \<lparr>h_kind = typeData, h_session = 77, h_counter = 0\<rparr> [] None t1 = Some (add_dropped t1, [])"
    by (rule replayed_init_displaces_pending [where x = 77, OF inv w(2) _ _ _ _ r ne])
      (use w in \<open>simp_all add: demo_fresh_def slot_has_def\<close>)
  then show ?thesis using r by simp
qed

end
