(* ===== verification/Limits.thy ===== *)
theory Limits
  imports Prelude
begin

text \<open>
  The caps of a tunnel: \<open>internal/tunnel/limits/limits.go\<close> and its twin for the reverse transports,
  \<open>internal/server/transport/limits.go\<close>. A Go \<open>int32\<close> is a 32-bit word read with \<open>sint\<close>; the
  configured \<open>int\<close> is truncated to it as in the code. A nil limiter is \<open>None\<close>.

  The token bucket is a library: \<open>waitN\<close> is its \<open>WaitN\<close> on an abstract bucket, \<open>None\<close> its error, and
  what is relied on is that a request of at most the burst is granted. The rate is a floating-point
  number in the code, exact for every bandwidth below 2^33 megabit; it is an integer here.
\<close>

section \<open>The limiter of the tunnels\<close>

record limiter =
  l_maxConns :: "32 word"
  l_active :: "32 word"
  l_burst :: "int option"

definition limits_New :: "int \<Rightarrow> int \<Rightarrow> limiter option" where
  "limits_New maxConnections bandwidthMbps =
     (if maxConnections \<le> 0 \<and> bandwidthMbps \<le> 0 then None
      else Some \<lparr>l_maxConns = word_of_int maxConnections, l_active = 0,
                 l_burst = (if 0 < bandwidthMbps then Some (bandwidthMbps * 1000000 div 8) else None)\<rparr>)"

definition limits_Acquire :: "limiter option \<Rightarrow> limiter option \<times> bool" where
  "limits_Acquire lo =
     (case lo of
        None \<Rightarrow> (None, True)
      | Some l \<Rightarrow>
          if sint (l_maxConns l) \<le> 0 then (Some l, True)
          else let l1 = l\<lparr>l_active := l_active l + 1\<rparr> in
               if sint (l_maxConns l1) < sint (l_active l1) then (Some (l1\<lparr>l_active := l_active l1 - 1\<rparr>), False)
               else (Some l1, True))"

definition limits_Release :: "limiter option \<Rightarrow> limiter option" where
  "limits_Release lo =
     (case lo of
        None \<Rightarrow> None
      | Some l \<Rightarrow> if sint (l_maxConns l) \<le> 0 then Some l else Some (l\<lparr>l_active := l_active l - 1\<rparr>))"

definition limits_Active :: "limiter option \<Rightarrow> int" where
  "limits_Active lo = (case lo of None \<Rightarrow> 0 | Some l \<Rightarrow> sint (l_active l))"

text \<open>\<open>Wrap\<close>: the burst a wrapped connection is paced with, if any.\<close>

definition limits_Wrap :: "limiter option \<Rightarrow> int option" where
  "limits_Wrap lo = (case lo of None \<Rightarrow> None | Some l \<Rightarrow> l_burst l)"

function limits_wait :: "('b \<Rightarrow> int \<Rightarrow> 'b option) \<Rightarrow> int \<Rightarrow> int \<Rightarrow> 'b \<Rightarrow> 'b" where
  "limits_wait waitN burst n st =
     (if n \<le> 0 then st
      else let chunk = (if 0 < burst \<and> burst < n then burst else n) in
           case waitN st chunk of None \<Rightarrow> st | Some st' \<Rightarrow> limits_wait waitN burst (n - chunk) st')"
  by pat_completeness auto
termination by (relation "measure (\<lambda>(_, _, n, _). nat n)") (auto split: if_splits)

declare limits_wait.simps [simp del]

section \<open>The limiter of the reverse transports\<close>

record rev_limiter =
  rl_maxConns :: "32 word"
  rl_active :: "32 word"
  rl_burst :: "int option"

definition newLimiter :: "int \<Rightarrow> int \<Rightarrow> rev_limiter option" where
  "newLimiter maxConnections bandwidthMbps =
     (if maxConnections \<le> 0 \<and> bandwidthMbps \<le> 0 then None
      else Some \<lparr>rl_maxConns = word_of_int maxConnections, rl_active = 0,
                 rl_burst = (if 0 < bandwidthMbps then Some (bandwidthMbps * 1000000 div 8) else None)\<rparr>)"

definition lim_acquire :: "rev_limiter option \<Rightarrow> rev_limiter option \<times> bool" where
  "lim_acquire lo =
     (case lo of
        None \<Rightarrow> (None, True)
      | Some l \<Rightarrow>
          if sint (rl_maxConns l) \<le> 0 then (Some l, True)
          else let l1 = l\<lparr>rl_active := rl_active l + 1\<rparr> in
               if sint (rl_maxConns l1) < sint (rl_active l1) then (Some (l1\<lparr>rl_active := rl_active l1 - 1\<rparr>), False)
               else (Some l1, True))"

definition lim_release :: "rev_limiter option \<Rightarrow> rev_limiter option" where
  "lim_release lo =
     (case lo of
        None \<Rightarrow> None
      | Some l \<Rightarrow> if sint (rl_maxConns l) \<le> 0 then Some l else Some (l\<lparr>rl_active := rl_active l - 1\<rparr>))"

definition lim_wrap :: "rev_limiter option \<Rightarrow> int option" where
  "lim_wrap lo = (case lo of None \<Rightarrow> None | Some l \<Rightarrow> rl_burst l)"

function lim_wait :: "('b \<Rightarrow> int \<Rightarrow> 'b option) \<Rightarrow> int \<Rightarrow> int \<Rightarrow> 'b \<Rightarrow> 'b" where
  "lim_wait waitN burst n st =
     (if n \<le> 0 then st
      else let chunk = (if 0 < burst \<and> burst < n then burst else n) in
           case waitN st chunk of None \<Rightarrow> st | Some st' \<Rightarrow> lim_wait waitN burst (n - chunk) st')"
  by pat_completeness auto
termination by (relation "measure (\<lambda>(_, _, n, _). nat n)") (auto split: if_splits)

declare lim_wait.simps [simp del]

section \<open>The contract of a slot limiter\<close>

text \<open>What the users of a limiter rely on: a slot is granted exactly while fewer than \<open>cap\<close> are held,
  and giving one back makes room for another.\<close>

datatype slot_op = Take | Give

locale slot_limiter =
  fixes take_slot :: "'s \<Rightarrow> 's \<times> bool"
    and give_slot :: "'s \<Rightarrow> 's"
    and held :: "'s \<Rightarrow> nat"
    and good :: "'s \<Rightarrow> bool"
    and cap :: nat
  assumes take_good: "good s \<Longrightarrow> good (fst (take_slot s))"
    and take_iff: "good s \<Longrightarrow> snd (take_slot s) \<longleftrightarrow> held s < cap"
    and take_held: "good s \<Longrightarrow> held (fst (take_slot s)) = held s + (if snd (take_slot s) then 1 else 0)"
    and give_good: "good s \<Longrightarrow> 0 < held s \<Longrightarrow> good (give_slot s) \<and> held (give_slot s) = held s - 1"
begin

text \<open>Users: \<open>Give\<close> is performed only by one that holds a slot.\<close>

fun use_slots :: "'s \<Rightarrow> nat \<Rightarrow> slot_op list \<Rightarrow> 's \<times> nat" where
  "use_slots s users [] = (s, users)"
| "use_slots s users (Take # ops) =
     (let (s', got) = take_slot s in use_slots s' (if got then users + 1 else users) ops)"
| "use_slots s users (Give # ops) =
     (if users = 0 then use_slots s users ops else use_slots (give_slot s) (users - 1) ops)"

lemma users_held:
  "good s \<Longrightarrow> users = held s \<Longrightarrow> users \<le> cap \<Longrightarrow> use_slots s users ops = (s', users') \<Longrightarrow>
   good s' \<and> users' = held s' \<and> users' \<le> cap"
proof (induction s users ops rule: use_slots.induct)
  case (2 s users ops)
  obtain s1 got where t: "take_slot s = (s1, got)" by fastforce
  show ?case
    using "2.IH" [OF t [symmetric] refl] "2.prems" take_good [of s] take_iff [of s] take_held [of s] t by (auto split: if_splits)
next
  case (3 s users ops)
  show ?case
  proof (cases "users = 0")
    case False
    then have "good (give_slot s)" "held (give_slot s) = users - 1" using give_good [of s] "3.prems" by auto
    then show ?thesis by (intro "3.IH"(2) [OF False]) (use "3.prems" False in auto)
  qed (use 3 in auto)
qed auto

end

section \<open>Both limiters keep the contract\<close>

lemma sint_succ:
  assumes "sint (a :: 32 word) < 2 ^ 31 - 1"
  shows "sint (a + 1) = sint a + 1"
proof -
  have "- (2 ^ 31) \<le> sint a" using sint_ge [of a] by simp
  then show ?thesis using assms by (simp add: signed_take_bit_int_eq_self sint_word_ariths(1))
qed

lemma sint_pred:
  assumes "- (2 ^ 31) < sint (a :: 32 word)"
  shows "sint (a - 1) = sint a - 1"
proof -
  have "sint a < 2 ^ 31" using sint_lt [of a] by simp
  then show ?thesis using assms by (simp add: signed_take_bit_int_eq_self sint_word_ariths(2))
qed

definition lim_good :: "nat \<Rightarrow> limiter option \<Rightarrow> bool" where
  "lim_good n lo \<longleftrightarrow> (\<exists>l. lo = Some l \<and> sint (l_maxConns l) = int n \<and> 0 < n \<and> n < 2 ^ 31 - 1 \<and> 0 \<le> sint (l_active l) \<and> sint (l_active l) \<le> int n)"

definition lim_held :: "limiter option \<Rightarrow> nat" where
  "lim_held lo = nat (limits_Active lo)"

definition rev_good :: "nat \<Rightarrow> rev_limiter option \<Rightarrow> bool" where
  "rev_good n lo \<longleftrightarrow> (\<exists>l. lo = Some l \<and> sint (rl_maxConns l) = int n \<and> 0 < n \<and> n < 2 ^ 31 - 1 \<and> 0 \<le> sint (rl_active l) \<and> sint (rl_active l) \<le> int n)"

definition rev_held :: "rev_limiter option \<Rightarrow> nat" where
  "rev_held lo = (case lo of None \<Rightarrow> 0 | Some l \<Rightarrow> nat (sint (rl_active l)))"

lemma Acquire_good:
  assumes "lim_good n lo"
  shows "lim_good n (fst (limits_Acquire lo)) \<and> (snd (limits_Acquire lo) \<longleftrightarrow> lim_held lo < n) \<and>
    lim_held (fst (limits_Acquire lo)) = lim_held lo + (if snd (limits_Acquire lo) then 1 else 0)"
proof -
  obtain l where l: "lo = Some l" "sint (l_maxConns l) = int n" "0 < n" "n < 2 ^ 31 - 1" "0 \<le> sint (l_active l)" "sint (l_active l) \<le> int n"
    using assms by (auto simp: lim_good_def)
  have s: "sint (l_active l + 1) = sint (l_active l) + 1" using l by (intro sint_succ) simp
  show ?thesis using l s
    by (auto simp: limits_Acquire_def lim_good_def lim_held_def limits_Active_def Let_def nat_add_distrib)
qed

lemma Release_good:
  assumes "lim_good n lo" "0 < lim_held lo"
  shows "lim_good n (limits_Release lo) \<and> lim_held (limits_Release lo) = lim_held lo - 1"
proof -
  obtain l where l: "lo = Some l" "sint (l_maxConns l) = int n" "0 < n" "n < 2 ^ 31 - 1" "0 \<le> sint (l_active l)" "sint (l_active l) \<le> int n"
    using assms by (auto simp: lim_good_def)
  have "sint (l_active l - 1) = sint (l_active l) - 1" using l by (intro sint_pred) simp
  then show ?thesis using l assms(2)
    by (auto simp: limits_Release_def lim_good_def lim_held_def limits_Active_def)
qed

interpretation lim: slot_limiter limits_Acquire limits_Release lim_held "lim_good n" n for n
  by unfold_locales (use Acquire_good Release_good in blast)+

text \<open>The twin, related field by field.\<close>

definition twin :: "limiter \<Rightarrow> rev_limiter" where
  "twin l = \<lparr>rl_maxConns = l_maxConns l, rl_active = l_active l, rl_burst = l_burst l\<rparr>"

lemma twin_acquire: "lim_acquire (map_option twin lo) = map_prod (map_option twin) id (limits_Acquire lo)"
  by (cases lo) (auto simp: lim_acquire_def limits_Acquire_def twin_def Let_def)

lemma twin_release: "lim_release (map_option twin lo) = map_option twin (limits_Release lo)"
  by (cases lo) (auto simp: lim_release_def limits_Release_def twin_def)

lemma twin_wait: "lim_wait waitN burst n st = limits_wait waitN burst n st"
proof (induction waitN burst n st rule: limits_wait.induct)
  case (1 waitN burst n st)
  then show ?case
    by (subst lim_wait.simps, subst limits_wait.simps) (auto simp: Let_def split: option.split)
qed

lemma twin_held: "rev_held (map_option twin lo) = lim_held lo"
  by (cases lo) (auto simp: rev_held_def lim_held_def limits_Active_def twin_def)

lemma twin_good: "rev_good n (map_option twin lo) \<longleftrightarrow> lim_good n lo"
  by (cases lo) (auto simp: rev_good_def lim_good_def twin_def)

lemma twin_surj: "\<exists>lo. r = map_option twin lo"
proof (cases r)
  case (Some l)
  have "l = twin \<lparr>l_maxConns = rl_maxConns l, l_active = rl_active l, l_burst = rl_burst l\<rparr>" by (simp add: twin_def)
  then show ?thesis using Some by (metis option.map(2))
qed auto

interpretation rlim: slot_limiter lim_acquire lim_release rev_held "rev_good n" n for n
proof
  fix s :: "rev_limiter option"
  obtain lo where s: "s = map_option twin lo" using twin_surj by blast
  { assume g: "rev_good n s"
    then have "lim_good n lo" using s twin_good by simp
    note A = Acquire_good [OF this] and R = Release_good [OF this]
    show "rev_good n (fst (lim_acquire s))" "snd (lim_acquire s) \<longleftrightarrow> rev_held s < n"
      "rev_held (fst (lim_acquire s)) = rev_held s + (if snd (lim_acquire s) then 1 else 0)"
      using A s by (simp_all add: twin_acquire twin_good twin_held)
    show "0 < rev_held s \<Longrightarrow> rev_good n (lim_release s) \<and> rev_held (lim_release s) = rev_held s - 1"
      using R s by (simp add: twin_release twin_good twin_held) }
qed

section \<open>Goroutines racing for slots\<close>

text \<open>\<open>Acquire\<close> is two atomic additions, not one: between them the counter overshoots. The world is the
  limiter with the number of goroutines that hold a slot and of those that are about to undo their
  addition; fewer than 2^31 goroutines take part.\<close>

record race =
  q_lim :: limiter
  q_holders :: nat
  q_undoing :: nat

inductive race_step :: "race \<Rightarrow> race \<Rightarrow> bool" where
  grant: "q_holders q + q_undoing q < 2 ^ 31 - 2 \<Longrightarrow> l = q_lim q\<lparr>l_active := l_active (q_lim q) + 1\<rparr> \<Longrightarrow>
    \<not> sint (l_maxConns l) < sint (l_active l) \<Longrightarrow> race_step q (q\<lparr>q_lim := l, q_holders := q_holders q + 1\<rparr>)"
| overshoot: "q_holders q + q_undoing q < 2 ^ 31 - 2 \<Longrightarrow> l = q_lim q\<lparr>l_active := l_active (q_lim q) + 1\<rparr> \<Longrightarrow>
    sint (l_maxConns l) < sint (l_active l) \<Longrightarrow> race_step q (q\<lparr>q_lim := l, q_undoing := q_undoing q + 1\<rparr>)"
| undo: "0 < q_undoing q \<Longrightarrow> l = q_lim q\<lparr>l_active := l_active (q_lim q) - 1\<rparr> \<Longrightarrow>
    race_step q (q\<lparr>q_lim := l, q_undoing := q_undoing q - 1\<rparr>)"
| give: "0 < q_holders q \<Longrightarrow> l = q_lim q\<lparr>l_active := l_active (q_lim q) - 1\<rparr> \<Longrightarrow>
    race_step q (q\<lparr>q_lim := l, q_holders := q_holders q - 1\<rparr>)"

definition race_inv :: "int \<Rightarrow> race \<Rightarrow> bool" where
  "race_inv n q \<longleftrightarrow> sint (l_maxConns (q_lim q)) = n \<and> sint (l_active (q_lim q)) = int (q_holders q + q_undoing q) \<and>
     int (q_holders q) \<le> n \<and> q_holders q + q_undoing q < 2 ^ 31 - 1"

lemma race_step_inv: "race_step q q' \<Longrightarrow> race_inv n q \<Longrightarrow> race_inv n q'"
proof (induction rule: race_step.induct)
  case (grant q l)
  have "sint (l_active (q_lim q) + 1) = sint (l_active (q_lim q)) + 1"
    using grant by (intro sint_succ) (auto simp: race_inv_def)
  then show ?case using grant by (auto simp: race_inv_def)
next
  case (overshoot q l)
  have "sint (l_active (q_lim q) + 1) = sint (l_active (q_lim q)) + 1"
    using overshoot by (intro sint_succ) (auto simp: race_inv_def)
  then show ?case using overshoot by (auto simp: race_inv_def)
next
  case (undo q l)
  have "sint (l_active (q_lim q) - 1) = sint (l_active (q_lim q)) - 1"
    using undo by (intro sint_pred) (auto simp: race_inv_def)
  then show ?case using undo by (auto simp: race_inv_def)
next
  case (give q l)
  have "sint (l_active (q_lim q) - 1) = sint (l_active (q_lim q)) - 1"
    using give by (intro sint_pred) (auto simp: race_inv_def)
  then show ?case using give by (auto simp: race_inv_def)
qed

lemma races_inv: "race_step\<^sup>*\<^sup>* q q' \<Longrightarrow> race_inv n q \<Longrightarrow> race_inv n q'"
  by (induction rule: rtranclp.induct) (auto intro: race_step_inv)

text \<open>The pieces a wait is charged in.\<close>

definition log_wait :: "int \<Rightarrow> int list \<Rightarrow> int \<Rightarrow> int list option" where
  "log_wait burst st chunk = (if 0 < burst \<and> burst < chunk then None else Some (st @ [chunk]))"

lemma limits_wait_charges:
  "0 < burst \<Longrightarrow> \<exists>cs. limits_wait (log_wait burst) burst n st = st @ cs \<and> sum_list cs = max n 0 \<and> (\<forall>c \<in> set cs. 0 < c \<and> c \<le> burst)"
proof (induction "nat n" arbitrary: n st rule: less_induct)
  case less
  show ?case
  proof (cases "n \<le> 0")
    case True
    then show ?thesis by (simp add: limits_wait.simps)
  next
    case False
    define chunk where "chunk = (if 0 < burst \<and> burst < n then burst else n)"
    have c: "0 < chunk" "chunk \<le> burst" "chunk \<le> n" using False less.prems by (auto simp: chunk_def)
    have step: "limits_wait (log_wait burst) burst n st = limits_wait (log_wait burst) burst (n - chunk) (st @ [chunk])"
      using False c by (subst limits_wait.simps) (auto simp: chunk_def Let_def log_wait_def)
    obtain cs where "limits_wait (log_wait burst) burst (n - chunk) (st @ [chunk]) = (st @ [chunk]) @ cs"
      "sum_list cs = max (n - chunk) 0" "\<forall>c \<in> set cs. 0 < c \<and> c \<le> burst"
      using less.hyps [of "n - chunk" "st @ [chunk]"] c less.prems False by auto
    then show ?thesis unfolding step using c by (intro exI [of _ "chunk # cs"]) auto
  qed
qed

section \<open>Properties\<close>

text \<open>The connection cap holds under every interleaving: however many goroutines race through the two
  atomic additions of \<open>Acquire\<close>, the goroutines that were granted a slot and have not released it are
  never more than the configured maximum, and when all of them and all undoers are done the counter
  is back at zero.\<close>

theorem connection_cap_holds:
  assumes "limits_New n bw = Some l" and "0 < n" "n < 2 ^ 31"
    and "race_step\<^sup>*\<^sup>* \<lparr>q_lim = l, q_holders = 0, q_undoing = 0\<rparr> q"
  shows "int (q_holders q) \<le> n \<and> (q_holders q = 0 \<and> q_undoing q = 0 \<longrightarrow> l_active (q_lim q) = 0)"
proof -
  have "sint (word_of_int n :: 32 word) = n"
    using assms(2,3) by (simp add: signed_of_int signed_take_bit_int_eq_self)
  then have "race_inv n \<lparr>q_lim = l, q_holders = 0, q_undoing = 0\<rparr>"
    using assms(1-3) by (auto simp: race_inv_def limits_New_def split: if_splits)
  then have i: "race_inv n q" by (rule races_inv [OF assms(4)])
  have "l_active (q_lim q) = 0" if "q_holders q = 0 \<and> q_undoing q = 0"
    using i that by (simp add: race_inv_def signed_eq_0_iff)
  then show ?thesis using i by (simp add: race_inv_def)
qed

theorem connection_cap_holds_witness:
  "int (q_holders \<lparr>q_lim = \<lparr>l_maxConns = 2, l_active = 1, l_burst = None\<rparr>, q_holders = 1, q_undoing = 0\<rparr>) \<le> 2"
proof -
  let ?l = "\<lparr>l_maxConns = 2, l_active = 0, l_burst = None\<rparr> :: limiter"
  have "race_step \<lparr>q_lim = ?l, q_holders = 0, q_undoing = 0\<rparr>
     (\<lparr>q_lim = ?l, q_holders = 0, q_undoing = 0\<rparr>\<lparr>q_lim := ?l\<lparr>l_active := l_active ?l + 1\<rparr>, q_holders := 0 + 1\<rparr>)"
    using race_step.grant [of "\<lparr>q_lim = ?l, q_holders = 0, q_undoing = 0\<rparr>"] by simp
  then have "race_step\<^sup>*\<^sup>* \<lparr>q_lim = ?l, q_holders = 0, q_undoing = 0\<rparr>
     \<lparr>q_lim = \<lparr>l_maxConns = 2, l_active = 1, l_burst = None\<rparr>, q_holders = 1, q_undoing = 0\<rparr>" by simp
  moreover have "limits_New 2 0 = Some ?l" by (simp add: limits_New_def)
  ultimately show ?thesis by (intro conjunct1 [OF connection_cap_holds [of 2 0 ?l]]) simp_all
qed

end
