(* ===== verification/Forward.thy ===== *)
theory Forward
  imports L3Config Limits "HOL-Library.Signed_Division"
begin

text \<open>
  The port forwarder of \<open>internal/tunnel/l3/forward.go\<close>: choosing a backend, the record of which
  backends answer, TCP connections from accept to close, and UDP flows from the first datagram to
  their end. Sockets are the kernel's: \<open>dial\<close> is one dial and its outcome, reads are given as their
  results. A TCP connection is two steps, everything before \<open>pipe\<close> and the deferred clean-up after
  it; the copying between is not modelled. Log lines are kept only where the code decides whether to
  speak.
\<close>

section \<open>State\<close>

definition deadBackendRepeat :: int where "deadBackendRepeat = 60 * 1000000000"
definition udpFlowIdle :: int where "udpFlowIdle = 2 * 60 * 1000000000"

record backend_state =
  bs_down :: bool
  bs_said :: int
  bs_failures :: u64

record forwarder =
  f_mappings :: "mapping list"
  f_acceptUDP :: bool
  f_limiter :: "limiter option"
  f_accepted :: u64
  f_refused :: u64
  f_active :: "64 word"
  f_reach :: "string \<rightharpoonup> backend_state"

definition NewForwarder :: "l3_config \<Rightarrow> portmap_error + forwarder option" where
  "NewForwarder cfg =
     (if c_Ports cfg = [] then Inr None
      else case Expand (c_Ports cfg) (c_PeerIP cfg) of
             Inl e \<Rightarrow> Inl e
           | Inr mappings \<Rightarrow>
               if mappings = [] then Inr None
               else Inr (Some \<lparr>f_mappings = mappings, f_acceptUDP = c_AcceptUDP cfg,
                 f_limiter = limits_New (c_MaxConnections cfg) (c_BandwidthMbps cfg),
                 f_accepted = 0, f_refused = 0, f_active = 0, f_reach = Map.empty\<rparr>))"

definition add_refused :: "forwarder \<Rightarrow> forwarder" where
  "add_refused f = f\<lparr>f_refused := f_refused f + 1\<rparr>"

section \<open>Backends\<close>

text \<open>The dial loop from offset \<open>i\<close> with \<open>left\<close> members to go. Go's \<open>%\<close> keeps the sign of its left
  operand, so a negative start would make the index negative: \<open>None\<close> is that panic.\<close>

fun dial_loop :: "(string \<Rightarrow> string + 'c) \<Rightarrow> string list \<Rightarrow> int \<Rightarrow> nat \<Rightarrow> nat \<Rightarrow> string \<Rightarrow> (string + 'c) option" where
  "dial_loop dial targets start i 0 lastErr = Some (Inl lastErr)"
| "dial_loop dial targets start i (Suc left) lastErr =
     (let idx = (start + int i) smod int (length targets) in
      if idx < 0 then None
      else case dial (targets ! nat idx) of
             Inr conn \<Rightarrow> Some (Inr conn)
           | Inl e \<Rightarrow> dial_loop dial targets start (Suc i) left e)"

definition dialBackend :: "(string \<Rightarrow> string + 'c) \<Rightarrow> string list \<Rightarrow> u64 \<Rightarrow> u64 \<times> (string + 'c) option" where
  "dialBackend dial targets cursor =
     (if targets = [] then (cursor, Some (Inl ''no backends configured''))
      else let cursor' = cursor + 1;
               start = sint (cursor' - 1) smod int (length targets)
           in (cursor', dial_loop dial targets start 0 (length targets) []))"

datatype spoken = noteQuiet | noteAnswering u64 | noteDead | noteStillDead u64

definition noteBackend :: "int \<Rightarrow> mapping \<Rightarrow> bool \<Rightarrow> forwarder \<Rightarrow> forwarder \<times> spoken" where
  "noteBackend now m failed f =
     (let st = (case f_reach f (m_Listen m) of
                  None \<Rightarrow> \<lparr>bs_down = False, bs_said = 0, bs_failures = 0\<rparr> | Some st \<Rightarrow> st);
          put = (\<lambda>st. f\<lparr>f_reach := (f_reach f)(m_Listen m \<mapsto> st)\<rparr>)
      in if \<not> failed then
           (put (st\<lparr>bs_down := False, bs_failures := 0\<rparr>), if bs_down st then noteAnswering (bs_failures st) else noteQuiet)
         else
           let st = st\<lparr>bs_failures := bs_failures st + 1\<rparr> in
           if bs_down st \<and> now - bs_said st < deadBackendRepeat then (put st, noteQuiet)
           else (put (st\<lparr>bs_down := True, bs_said := now\<rparr>),
                 if \<not> bs_down st then noteDead else noteStillDead (bs_failures st)))"

section \<open>TCP\<close>

datatype 'c tcp_result = TcpLimited | TcpNoBackend | TcpOpen 'c

text \<open>\<open>handleTCP\<close> up to \<open>pipe\<close>. On every return but the last the deferred calls run here.\<close>

definition tcp_release :: "forwarder \<Rightarrow> forwarder" where
  "tcp_release f = f\<lparr>f_active := f_active f - 1, f_limiter := limits_Release (f_limiter f)\<rparr>"

definition handleTCP ::
  "(string \<Rightarrow> string + 'c) \<Rightarrow> int \<Rightarrow> mapping \<Rightarrow> u64 \<Rightarrow> forwarder \<Rightarrow> (forwarder \<times> u64 \<times> 'c tcp_result) option" where
  "handleTCP dial now m cursor f =
     (case limits_Acquire (f_limiter f) of
        (lim, False) \<Rightarrow> Some (add_refused (f\<lparr>f_limiter := lim\<rparr>), cursor, TcpLimited)
      | (lim, True) \<Rightarrow>
          let f = f\<lparr>f_limiter := lim, f_active := f_active f + 1\<rparr> in
          (case dialBackend dial (m_Targets m) cursor of
             (cursor, None) \<Rightarrow> None
           | (cursor, Some (Inl e)) \<Rightarrow>
               Some (tcp_release (fst (noteBackend now m True (add_refused f))), cursor, TcpNoBackend)
           | (cursor, Some (Inr conn)) \<Rightarrow>
               let f = fst (noteBackend now m False f)
               in Some (f\<lparr>f_accepted := f_accepted f + 1\<rparr>, cursor, TcpOpen conn)))"

section \<open>UDP\<close>

record udp_flow =
  uf_lastSeen :: int
  uf_closed :: bool

definition flow_touch :: "int \<Rightarrow> udp_flow \<Rightarrow> udp_flow" where
  "flow_touch now fl = fl\<lparr>uf_lastSeen := now\<rparr>"

definition flow_idle :: "udp_flow \<Rightarrow> int \<Rightarrow> int \<Rightarrow> bool" where
  "flow_idle fl now limit \<longleftrightarrow> limit < now - uf_lastSeen fl"

type_synonym flow_table = "string \<rightharpoonup> udp_flow"

text \<open>\<open>flows\<close> is the table at the first lookup and \<open>flows'\<close> the table when the new flow is stored; a
  dialled backend comes with whether it is a UDP socket. The result is the table, the counters and
  whether there is a flow.\<close>

definition udpFlowFor ::
  "(string \<Rightarrow> string + bool) \<Rightarrow> int \<Rightarrow> string list \<Rightarrow> string \<Rightarrow> flow_table \<Rightarrow> flow_table \<Rightarrow> u64 \<Rightarrow> forwarder \<Rightarrow>
   (forwarder \<times> flow_table \<times> u64 \<times> bool) option" where
  "udpFlowFor dial now targets key flows flows' cursor f =
     (if flows key \<noteq> None then Some (f, flows, cursor, True)
      else case limits_Acquire (f_limiter f) of
             (lim, False) \<Rightarrow> Some (f\<lparr>f_limiter := lim\<rparr>, flows', cursor, False)
           | (lim, True) \<Rightarrow>
               let f = f\<lparr>f_limiter := lim\<rparr> in
               (case dialBackend dial targets cursor of
                  (cursor, None) \<Rightarrow> None
                | (cursor, Some (Inl e)) \<Rightarrow> Some (f\<lparr>f_limiter := limits_Release (f_limiter f)\<rparr>, flows', cursor, False)
                | (cursor, Some (Inr isUDP)) \<Rightarrow>
                    if \<not> isUDP then Some (f\<lparr>f_limiter := limits_Release (f_limiter f)\<rparr>, flows', cursor, False)
                    else if flows' key \<noteq> None then
                      Some (f\<lparr>f_limiter := limits_Release (f_limiter f)\<rparr>, flows', cursor, True)
                    else Some (f\<lparr>f_accepted := f_accepted f + 1, f_active := f_active f + 1\<rparr>,
                               flows'(key \<mapsto> \<lparr>uf_lastSeen = now, uf_closed = False\<rparr>), cursor, True)))"

text \<open>One datagram of \<open>serveUDP\<close>; the last component is what is written to the flow's backend.\<close>

definition udp_datagram ::
  "(string \<Rightarrow> string + bool) \<Rightarrow> int \<Rightarrow> string list \<Rightarrow> string \<Rightarrow> bytes \<Rightarrow> flow_table \<Rightarrow> u64 \<Rightarrow> forwarder \<Rightarrow>
   (forwarder \<times> flow_table \<times> u64 \<times> bytes option) option" where
  "udp_datagram dial now targets key payload flows cursor f =
     (case udpFlowFor dial now targets key flows flows cursor f of
        None \<Rightarrow> None
      | Some (f, flows, cursor, False) \<Rightarrow> Some (add_refused f, flows, cursor, None)
      | Some (f, flows, cursor, True) \<Rightarrow>
          Some (f, flows(key := map_option (flow_touch now) (flows key)), cursor, Some payload))"

datatype read_result = ReadData bytes | ReadError bool

text \<open>One round of the reply pump: the flow, the datagram for the client, and whether the pump goes on.
  A read error carries whether it is a time-out.\<close>

definition pumpUDPReplies :: "bool \<Rightarrow> int \<Rightarrow> bool \<Rightarrow> read_result \<Rightarrow> udp_flow \<Rightarrow> udp_flow \<times> bytes option \<times> bool" where
  "pumpUDPReplies ended now writeOK r fl =
     (case r of
        ReadError timeout \<Rightarrow>
          if ended then (fl, None, False)
          else if timeout \<and> \<not> flow_idle fl now udpFlowIdle then (fl, None, True)
          else (fl, None, False)
      | ReadData b \<Rightarrow> (flow_touch now fl, Some b, writeOK))"

text \<open>The deferred end of the pump.\<close>

definition flow_end :: "string \<Rightarrow> flow_table \<Rightarrow> forwarder \<Rightarrow> forwarder \<times> flow_table" where
  "flow_end key flows f =
     (f\<lparr>f_active := f_active f - 1, f_limiter := limits_Release (f_limiter f)\<rparr>, flows(key := None))"

definition reapUDPFlows :: "int \<Rightarrow> flow_table \<Rightarrow> flow_table" where
  "reapUDPFlows now flows =
     (\<lambda>key. map_option (\<lambda>fl. if flow_idle fl now udpFlowIdle then fl\<lparr>uf_closed := True\<rparr> else fl) (flows key))"

section \<open>Choosing a backend\<close>

lemma smod_nonneg: "0 \<le> a \<Longrightarrow> 0 < b \<Longrightarrow> a smod b = a mod (b :: int)"
  by (cases "a = 0") (auto simp: smod_int_alt_def)

lemma dial_loop_eq:
  assumes "0 \<le> start" "start < int (length targets)"
  shows "i + left \<le> length targets \<Longrightarrow>
    dial_loop dial targets start i left e =
      Some (foldr (\<lambda>t rest e. case dial t of Inr c \<Rightarrow> Inr c | Inl e' \<Rightarrow> rest e')
              (map (\<lambda>j. targets ! ((nat start + j) mod length targets)) [i..<i + left]) Inl e)"
proof (induction left arbitrary: i e)
  case (Suc left)
  have l: "0 < int (length targets)" using assms by linarith
  have idx: "(start + int i) smod int (length targets) = int ((nat start + i) mod length targets)"
    using assms l by (simp add: smod_nonneg zmod_int)
  show ?case using Suc idx by (simp add: upt_conv_Cons split: sum.split del: upt_Suc)
qed simp

text \<open>The members in the order they are tried.\<close>

definition tried_from :: "u64 \<Rightarrow> string list \<Rightarrow> string list" where
  "tried_from cursor targets = rotate (unat cursor mod length targets) targets"

lemma tried_nth:
  assumes "targets \<noteq> []"
  shows "map (\<lambda>j. targets ! ((s + j) mod length targets)) [0..<length targets] = rotate s targets"
  using assms by (intro nth_equalityI) (auto simp: nth_rotate)

lemma first_answer:
  "foldr (\<lambda>t rest e. case dial t of Inr c \<Rightarrow> Inr c | Inl e' \<Rightarrow> rest e') ts Inl e =
   (case find (\<lambda>t. \<not> isl (dial t)) ts of Some t \<Rightarrow> dial t | None \<Rightarrow> if ts = [] then Inl e else dial (last ts))"
proof (induction ts arbitrary: e)
  case (Cons t ts)
  then show ?case by (cases "dial t") (auto split: option.splits)
qed simp

lemma dialBackend_eq:
  assumes "targets \<noteq> []" "unat cursor < 2 ^ 63"
  shows "dialBackend dial targets cursor =
    (cursor + 1, Some (case find (\<lambda>t. \<not> isl (dial t)) (tried_from cursor targets) of
                         Some t \<Rightarrow> dial t | None \<Rightarrow> dial (last (tried_from cursor targets))))"
proof -
  let ?n = "length targets"
  have "uint cursor = int (unat cursor)" by simp
  then have s: "sint cursor = int (unat cursor)"
    using assms(2) by (simp add: sint_uint signed_take_bit_int_eq_self del: of_nat_unat)
  have start: "sint (cursor + 1 - 1) smod int ?n = int (unat cursor mod ?n)"
    using assms(1) s by (simp add: smod_nonneg zmod_int)
  have b: "0 \<le> int (unat cursor mod ?n)" "int (unat cursor mod ?n) < int ?n" using assms(1) by auto
  have "dial_loop dial targets (int (unat cursor mod ?n)) 0 ?n [] =
      Some (foldr (\<lambda>t rest e. case dial t of Inr c \<Rightarrow> Inr c | Inl e' \<Rightarrow> rest e') (tried_from cursor targets) Inl [])"
    using dial_loop_eq [OF b, of 0 ?n dial "[]"] tried_nth [OF assms(1), of "unat cursor mod ?n"]
    by (simp add: tried_from_def)
  then show ?thesis
    using assms(1) start by (simp add: dialBackend_def Let_def first_answer tried_from_def split: option.split)
qed

section \<open>The forwarder as a step relation\<close>

text \<open>One mapping being served: the open TCP connections, the UDP flows (each with its reply pump) and the
  two cursors. Every limiter call is atomic here; racing ones are the subject of \<open>Limits\<close>.\<close>

record fwd_world =
  v_f :: forwarder
  v_tcp :: nat
  v_flows :: flow_table
  v_tcpCursor :: u64
  v_udpCursor :: u64

inductive fstep :: "mapping \<Rightarrow> fwd_world \<Rightarrow> fwd_world \<Rightarrow> bool" for m where
  tcp_limited: "handleTCP dial now m (v_tcpCursor v) (v_f v) = Some (f', c', TcpLimited :: string tcp_result) \<Longrightarrow>
    fstep m v (v\<lparr>v_f := f', v_tcpCursor := c'\<rparr>)"
| tcp_refused: "handleTCP dial now m (v_tcpCursor v) (v_f v) = Some (f', c', TcpNoBackend :: string tcp_result) \<Longrightarrow>
    fstep m v (v\<lparr>v_f := f', v_tcpCursor := c'\<rparr>)"
| tcp_open: "handleTCP dial now m (v_tcpCursor v) (v_f v) = Some (f', c', TcpOpen (conn :: string)) \<Longrightarrow>
    fstep m v (v\<lparr>v_f := f', v_tcpCursor := c', v_tcp := v_tcp v + 1\<rparr>)"
| tcp_close: "0 < v_tcp v \<Longrightarrow> fstep m v (v\<lparr>v_f := tcp_release (v_f v), v_tcp := v_tcp v - 1\<rparr>)"
| udp_in: "udp_datagram dial now (m_Targets m) key payload (v_flows v) (v_udpCursor v) (v_f v) = Some (f', fl', c', sent) \<Longrightarrow>
    fstep m v (v\<lparr>v_f := f', v_flows := fl', v_udpCursor := c'\<rparr>)"
| udp_reply: "v_flows v key = Some fl \<Longrightarrow> pumpUDPReplies ended now writeOK r fl = (fl', out, True) \<Longrightarrow>
    fstep m v (v\<lparr>v_flows := (v_flows v)(key \<mapsto> fl')\<rparr>)"
| udp_end: "v_flows v key = Some fl \<Longrightarrow> pumpUDPReplies ended now writeOK r fl = (fl', out, False) \<Longrightarrow>
    flow_end key (v_flows v) (v_f v) = (f', flows') \<Longrightarrow> fstep m v (v\<lparr>v_f := f', v_flows := flows'\<rparr>)"
| reap: "fstep m v (v\<lparr>v_flows := reapUDPFlows now (v_flows v)\<rparr>)"

definition open_count :: "fwd_world \<Rightarrow> nat" where
  "open_count v = v_tcp v + card (dom (v_flows v))"

text \<open>The limiter holds exactly one slot for everything that is open, and so does the statistic.\<close>

definition fwd_inv :: "nat \<Rightarrow> fwd_world \<Rightarrow> bool" where
  "fwd_inv n v \<longleftrightarrow> lim_good n (f_limiter (v_f v)) \<and> lim_held (f_limiter (v_f v)) = open_count v \<and>
     f_active (v_f v) = word_of_nat (open_count v) \<and> finite (dom (v_flows v))"

lemma noteBackend_fields [simp]:
  "f_limiter (fst (noteBackend now m failed f)) = f_limiter f" "f_active (fst (noteBackend now m failed f)) = f_active f"
  by (simp_all add: noteBackend_def Let_def)

lemma limiter_cases:
  assumes "lim_good n lo"
  obtains (granted) lo' where "limits_Acquire lo = (lo', True)" "lim_good n lo'" "lim_held lo' = lim_held lo + 1"
    "lim_good n (limits_Release lo')" "lim_held (limits_Release lo') = lim_held lo"
  | (refused) lo' where "limits_Acquire lo = (lo', False)" "lim_good n lo'" "lim_held lo' = lim_held lo"
proof (cases "limits_Acquire lo")
  case (Pair lo' b)
  have g: "lim_good n lo'" using lim.take_good [OF assms] Pair by simp
  have h: "lim_held lo' = lim_held lo + (if b then 1 else 0)" using lim.take_held [OF assms] Pair by simp
  show ?thesis
  proof (cases b)
    case True
    then show ?thesis using granted [of lo'] Pair g h lim.give_good [OF g] by simp
  next
    case False
    then show ?thesis using refused [of lo'] Pair g h by simp
  qed
qed

lemma handleTCP_inv:
  assumes g: "lim_good n (f_limiter f)" and h: "handleTCP dial now m cursor f = Some (f', c', r)"
  shows "lim_good n (f_limiter f') \<and>
    (case r of TcpOpen conn \<Rightarrow> lim_held (f_limiter f') = lim_held (f_limiter f) + 1 \<and> f_active f' = f_active f + 1
     | _ \<Rightarrow> lim_held (f_limiter f') = lim_held (f_limiter f) \<and> f_active f' = f_active f)"
  using g
proof (cases rule: limiter_cases)
  case (granted lo')
  then show ?thesis using h
    by (auto simp: handleTCP_def Let_def tcp_release_def add_refused_def split: prod.splits option.splits sum.splits)
next
  case (refused lo')
  then show ?thesis using h by (auto simp: handleTCP_def add_refused_def)
qed

lemma udpFlowFor_inv:
  assumes g: "lim_good n (f_limiter f)" and h: "udpFlowFor dial now targets key flows flows cursor f = Some (f', flows', c', ok)"
  shows "lim_good n (f_limiter f') \<and>
    (flows' = flows \<and> lim_held (f_limiter f') = lim_held (f_limiter f) \<and> f_active f' = f_active f \<or>
     (\<exists>fl. flows key = None \<and> flows' = flows(key \<mapsto> fl)) \<and> lim_held (f_limiter f') = lim_held (f_limiter f) + 1 \<and>
       f_active f' = f_active f + 1)"
  using g
proof (cases rule: limiter_cases)
  case (granted lo')
  then show ?thesis using h g
    by (auto simp: udpFlowFor_def Let_def split: if_splits prod.splits option.splits sum.splits)
next
  case (refused lo')
  then show ?thesis using h g by (auto simp: udpFlowFor_def split: if_splits)
qed

lemma dom_touch: "dom (flows(key := map_option g (flows key))) = dom flows"
  by (auto simp: dom_def)

lemma udp_datagram_inv:
  assumes g: "lim_good n (f_limiter f)" and fin: "finite (dom flows)"
    and h: "udp_datagram dial now targets key payload flows cursor f = Some (f', flows', c', sent)"
  shows "lim_good n (f_limiter f') \<and> finite (dom flows') \<and>
    (\<exists>k. card (dom flows') = card (dom flows) + k \<and> lim_held (f_limiter f') = lim_held (f_limiter f) + k \<and>
       f_active f' = f_active f + word_of_nat k)"
proof -
  obtain f1 fl1 ok where u: "udpFlowFor dial now targets key flows flows cursor f = Some (f1, fl1, c', ok)"
    and r: "(f', flows') = (if ok then (f1, fl1(key := map_option (flow_touch now) (fl1 key))) else (add_refused f1, fl1))"
    using h by (auto simp: udp_datagram_def split: option.splits bool.splits)
  have d: "dom flows' = dom fl1" "f_limiter f' = f_limiter f1" "f_active f' = f_active f1"
    using r by (auto simp: dom_touch add_refused_def split: if_splits)
  note i = udpFlowFor_inv [OF g u]
  show ?thesis
  proof (cases "fl1 = flows")
    case True
    then show ?thesis using i fin d by (auto intro!: exI [of _ 0] dest: fun_cong [of _ _ key])
  next
    case False
    then obtain fl where "flows key = None" "fl1 = flows(key \<mapsto> fl)" "lim_held (f_limiter f1) = lim_held (f_limiter f) + 1"
      "f_active f1 = f_active f + 1" "lim_good n (f_limiter f1)"
      using i by blast
    then show ?thesis using fin d by (intro conjI exI [of _ 1]) (auto simp: card_insert_if domIff)
  qed
qed

lemma fstep_inv:
  assumes "fstep m v v'" "fwd_inv n v"
  shows "fwd_inv n v'"
  using assms
proof cases
  case (tcp_close)
  have "lim_good n (limits_Release (f_limiter (v_f v))) \<and> lim_held (limits_Release (f_limiter (v_f v))) = open_count v - 1"
    using lim.give_good [of n "f_limiter (v_f v)"] assms(2) tcp_close by (simp add: fwd_inv_def open_count_def)
  then show ?thesis using tcp_close assms(2)
    by (auto simp: fwd_inv_def open_count_def tcp_release_def of_nat_diff)
next
  case (udp_in dial now key payload f' fl' c' sent)
  have g: "lim_good n (f_limiter (v_f v))" "finite (dom (v_flows v))" using assms(2) by (simp_all add: fwd_inv_def)
  obtain k where "lim_good n (f_limiter f')" "finite (dom fl')" "card (dom fl') = card (dom (v_flows v)) + k"
    "lim_held (f_limiter f') = lim_held (f_limiter (v_f v)) + k" "f_active f' = f_active (v_f v) + word_of_nat k"
    using udp_datagram_inv [OF g udp_in(2)] by blast
  then show ?thesis using assms(2) udp_in(1) by (simp add: fwd_inv_def open_count_def)
next
  case (udp_reply key fl ended now writeOK r fl' out)
  have "dom ((v_flows v)(key \<mapsto> fl')) = dom (v_flows v)" using udp_reply(2) by (auto simp: dom_def)
  then show ?thesis using udp_reply(1) assms(2) by (simp add: fwd_inv_def open_count_def)
next
  case (udp_end key fl ended now writeOK r fl' out f' flows')
  have k: "key \<in> dom (v_flows v)" using udp_end(2) by auto
  have c: "card (dom (v_flows v)) = Suc (card (dom (v_flows v) - {key}))"
    using k assms(2) card_Suc_Diff1 [of "dom (v_flows v)" key] by (simp add: fwd_inv_def)
  have e: "f' = (v_f v)\<lparr>f_active := f_active (v_f v) - 1, f_limiter := limits_Release (f_limiter (v_f v))\<rparr>"
    "flows' = (v_flows v)(key := None)" using udp_end(4) by (auto simp: flow_end_def)
  have "lim_good n (limits_Release (f_limiter (v_f v))) \<and> lim_held (limits_Release (f_limiter (v_f v))) = open_count v - 1"
    using lim.give_good [of n "f_limiter (v_f v)"] assms(2) c by (simp add: fwd_inv_def open_count_def)
  then show ?thesis using udp_end(1) e assms(2) c by (simp add: fwd_inv_def open_count_def)
next
  case (reap now)
  have "dom (reapUDPFlows now (v_flows v)) = dom (v_flows v)" by (auto simp: reapUDPFlows_def dom_def)
  then show ?thesis using reap assms(2) by (simp add: fwd_inv_def open_count_def)
qed (use assms(2) handleTCP_inv in \<open>fastforce simp: fwd_inv_def open_count_def\<close>)+

lemma fsteps_inv: "(fstep m)\<^sup>*\<^sup>* v v' \<Longrightarrow> fwd_inv n v \<Longrightarrow> fwd_inv n v'"
  by (induction rule: rtranclp.induct) (auto intro: fstep_inv)

lemma new_forwarder_inv:
  assumes "NewForwarder cfg = Inr (Some f)" "c_MaxConnections cfg = int n" "0 < n" "n < 2 ^ 31 - 1"
  shows "fwd_inv n \<lparr>v_f = f, v_tcp = 0, v_flows = Map.empty, v_tcpCursor = 0, v_udpCursor = 0\<rparr>"
proof -
  have "sint (word_of_int (int n) :: 32 word) = int n"
    using assms(4) by (subst signed_of_int) (simp add: signed_take_bit_int_eq_self)
  then show ?thesis
    using assms by (auto simp: fwd_inv_def open_count_def NewForwarder_def limits_New_def lim_good_def lim_held_def
        limits_Active_def split: if_splits sum.splits)
qed

section \<open>Properties\<close>

text \<open>C39. The cap an operator configures bounds what the forwarder has open: from a new forwarder, after any
  sequence of connections, datagrams, replies, failed dials, closes and idle sweeps on a mapping, the
  open TCP connections and UDP flows together are never more than \<open>MaxConnections\<close>, and the limiter's
  counter and the reported \<open>Active\<close> are both exactly their number: no path takes a slot without
  giving it back.\<close>

theorem forwarder_respects_cap:
  assumes "NewForwarder cfg = Inr (Some f)" "c_MaxConnections cfg = int n" "0 < n" "n < 2 ^ 31 - 1"
    and "(fstep m)\<^sup>*\<^sup>* \<lparr>v_f = f, v_tcp = 0, v_flows = Map.empty, v_tcpCursor = 0, v_udpCursor = 0\<rparr> v"
  shows "v_tcp v + card (dom (v_flows v)) \<le> n \<and>
    limits_Active (f_limiter (v_f v)) = int (v_tcp v + card (dom (v_flows v))) \<and>
    f_active (v_f v) = word_of_nat (v_tcp v + card (dom (v_flows v)))"
proof -
  have i: "fwd_inv n v" by (rule fsteps_inv [OF assms(5) new_forwarder_inv [OF assms(1-4)]])
  then obtain l where "f_limiter (v_f v) = Some l" "0 \<le> sint (l_active l)" "sint (l_active l) \<le> int n"
    by (auto simp: fwd_inv_def lim_good_def)
  then show ?thesis using i by (auto simp: fwd_inv_def open_count_def lim_held_def limits_Active_def)
qed

definition demo_forwarder :: forwarder where
  "demo_forwarder = \<lparr>f_mappings = offset_mappings 10000 20000 2 ''10.10.0.2'', f_acceptUDP = False,
     f_limiter = limits_New 2 0, f_accepted = 0, f_refused = 0, f_active = 0, f_reach = Map.empty\<rparr>"

theorem forwarder_respects_cap_witness:
  "\<exists>v :: fwd_world. v_tcp v = 1 \<and> v_tcp v + card (dom (v_flows v)) \<le> 2 \<and> limits_Active (f_limiter (v_f v)) = int (v_tcp v + card (dom (v_flows v)))"
proof -
  let ?cfg = "(demo_config ModeDial)\<lparr>c_Ports := [span_text 10000 10001 @ ''='' @ span_text 20000 20001], c_MaxConnections := 2\<rparr>"
  let ?v = "\<lparr>v_f = demo_forwarder, v_tcp = 0, v_flows = Map.empty, v_tcpCursor = 0, v_udpCursor = 0\<rparr>"
  let ?m = "\<lparr>m_Listen = '':10000'', m_Targets = [''10.10.0.2:20000'']\<rparr>"
  have "Expand (c_Ports ?cfg) (c_PeerIP ?cfg) = Inr (offset_mappings 10000 20000 2 ''10.10.0.2'')"
    using Expand_range_pair [of 10000 20000 2 "''10.10.0.2''"] by (simp add: demo_config_def)
  then have n: "NewForwarder ?cfg = Inr (Some demo_forwarder)"
    by (simp add: NewForwarder_def demo_forwarder_def offset_mappings_def demo_config_def)
  obtain f' c' where h: "handleTCP (\<lambda>t. Inr t) 0 ?m 0 demo_forwarder = Some (f', c', TcpOpen ''10.10.0.2:20000'')"
    by (simp add: handleTCP_def demo_forwarder_def limits_New_def limits_Acquire_def dialBackend_def Let_def)
  have "\<exists>v. (fstep ?m)\<^sup>*\<^sup>* ?v v \<and> v_tcp v = 1"
    by (intro exI [of _ "?v\<lparr>v_f := f', v_tcpCursor := c', v_tcp := v_tcp ?v + 1\<rparr>"] conjI r_into_rtranclp
        fstep.tcp_open [of "\<lambda>t. Inr t" 0]) (use h in simp_all)
  then obtain v where v: "(fstep ?m)\<^sup>*\<^sup>* ?v v" "v_tcp v = 1" by blast
  have "c_MaxConnections ?cfg = int 2" "0 < (2 :: nat)" "2 < (2 :: nat) ^ 31 - 1" by simp_all
  from forwarder_respects_cap [OF n this v(1)] v(2) show ?thesis by blast
qed

text \<open>A backend that refuses is skipped rather than failing the connection: the members are tried in
  configuration order starting at the cursor, wrapping around, the first that answers is used, the
  dial fails only when every member refuses, and the next connection starts one further along.\<close>

theorem dialBackend_skips_dead_members:
  assumes "targets \<noteq> []" "unat cursor < 2 ^ 63"
  shows "\<exists>r. dialBackend dial targets cursor = (cursor + 1, Some r) \<and>
    (isl r \<longleftrightarrow> (\<forall>t \<in> set targets. isl (dial t))) \<and>
    (\<forall>i < length targets. \<not> isl (dial (targets ! ((unat cursor + i) mod length targets))) \<and>
       (\<forall>j < i. isl (dial (targets ! ((unat cursor + j) mod length targets)))) \<longrightarrow>
       r = dial (targets ! ((unat cursor + i) mod length targets)))"
proof -
  let ?ts = "tried_from cursor targets"
  let ?r = "case find (\<lambda>t. \<not> isl (dial t)) ?ts of Some t \<Rightarrow> dial t | None \<Rightarrow> dial (last ?ts)"
  have ts: "set ?ts = set targets" "length ?ts = length targets" "?ts \<noteq> []" using assms(1) by (simp_all add: tried_from_def)
  have nth: "?ts ! i = targets ! ((unat cursor + i) mod length targets)" if "i < length targets" for i
    using that by (simp add: tried_from_def nth_rotate mod_add_right_eq add.commute)
  have fails: "isl ?r \<longleftrightarrow> (\<forall>t \<in> set targets. isl (dial t))"
    using ts(1,3) last_in_set [OF ts(3)] by (auto simp: find_None_iff find_Some_iff ts(1) [symmetric] split: option.split)
  have "?r = dial (?ts ! i)" if "i < length targets" "\<not> isl (dial (?ts ! i))" "\<forall>j < i. isl (dial (?ts ! j))" for i
  proof -
    have "find (\<lambda>t. \<not> isl (dial t)) ?ts = Some (?ts ! i)"
      using that ts(2) by (auto simp: find_Some_iff intro!: exI [of _ i])
    then show ?thesis by simp
  qed
  then show ?thesis using dialBackend_eq [OF assms, of dial] fails nth by auto
qed

theorem dialBackend_skips_dead_members_witness:
  "\<exists>r. dialBackend (\<lambda>t. if t = ''b:1'' then Inr t else Inl ''refused'') [''a:1'', ''b:1'', ''c:1''] 2 = (2 + 1, Some r) \<and> r = Inr ''b:1''"
proof -
  let ?d = "(\<lambda>t. if t = ''b:1'' then Inr t else Inl ''refused'') :: string \<Rightarrow> string + string"
  let ?ts = "[''a:1'', ''b:1'', ''c:1'']"
  have h: "?ts \<noteq> []" "unat (2 :: u64) < 2 ^ 63" by simp_all
  have "2 < length ?ts" by simp
  then obtain r where r: "dialBackend ?d ?ts 2 = (2 + 1, Some r)"
    and a: "\<not> isl (?d (?ts ! ((unat (2 :: u64) + 2) mod length ?ts))) \<and> (\<forall>j < 2. isl (?d (?ts ! ((unat (2 :: u64) + j) mod length ?ts))))
       \<longrightarrow> r = ?d (?ts ! ((unat (2 :: u64) + 2) mod length ?ts))"
    using dialBackend_skips_dead_members [OF h, of ?d] by blast
  have "isl (?d (?ts ! ((unat (2 :: u64) + j) mod length ?ts)))" if "j < 2" for j
    using that less_2_cases [OF that] by (elim disjE) simp_all
  then have "r = Inr ''b:1''" using a by simp
  then show ?thesis using r by blast
qed

end
