(* ===== verification/PckFrame.thy ===== *)
theory PckFrame
  imports GoNet
begin

text \<open>
  The frames of the packet-level TCP carrier (\<open>internal/utils/network/pckframe.go\<close>) and the internet
  checksum they share with the forged-source carrier (\<open>spoofpacket.go\<close>): the frame assembled in place
  in a pooled buffer, the layer-by-layer builders, and the parser of received frames.

  A buffer is the list of its bytes; a slice of it is an offset, so writing through \<open>ip\<close> or \<open>tcp\<close>
  writes the frame. An \<open>IP\<close> is its bytes, \<open>To4\<close> of anything that is not an IPv4 address is empty.
\<close>

section \<open>Constants and records\<close>

definition pckEthHeaderLen :: nat where "pckEthHeaderLen = 14"
definition pckTCPHeaderLen :: nat where "pckTCPHeaderLen = 20"
definition pckTCPOptionsLen :: nat where "pckTCPOptionsLen = 12"
definition ip_HeaderLen :: nat where "ip_HeaderLen = 20"
definition pckWindow :: u16 where "pckWindow = 65535"
definition etherTypeIPv4 :: u16 where "etherTypeIPv4 = 0x0800"

lemmas pck_consts = pckEthHeaderLen_def pckTCPHeaderLen_def pckTCPOptionsLen_def ip_HeaderLen_def

definition to4 :: "bytes \<Rightarrow> bytes" where
  "to4 ip = (if length ip = 4 then ip else if length ip = 16 \<and> take 12 ip = v4_in_v6 then drop 12 ip else [])"

record pckSegment =
  sg_SrcIP :: bytes
  sg_SrcPort :: u16
  sg_DstPort :: u16
  sg_Seq :: u32
  sg_TSVal :: u32
  sg_Payload :: bytes

record pckFrameParams =
  fp_SrcMAC :: bytes
  fp_DstMAC :: bytes
  fp_SrcIP :: bytes
  fp_DstIP :: bytes
  fp_SrcPort :: u16
  fp_DstPort :: u16
  fp_Seq :: u32
  fp_Ack :: u32
  fp_Flags :: byte
  fp_TSVal :: u32
  fp_TSEcr :: u32
  fp_ID :: u16
  fp_Payload :: bytes

section \<open>The internet checksum\<close>

text \<open>The 16-bit sum of one slice, added to \<open>acc\<close> modulo 2^32; an odd last byte is the high one.\<close>

fun sum16 :: "u32 \<Rightarrow> bytes \<Rightarrow> u32" where
  "sum16 acc [] = acc"
| "sum16 acc [b] = acc + push_bit 8 (ucast b)"
| "sum16 acc (a # b # bs) = sum16 (acc + (push_bit 8 (ucast a) OR ucast b)) bs"

lemma unat_low16: "unat ((x :: u32) AND 0xffff) = unat x mod 65536"
proof -
  have "x AND 0xffff = take_bit 16 x" by (simp add: take_bit_eq_mask mask_eq_exp_minus_1)
  then show ?thesis by (simp add: take_bit_eq_mod unat_mod)
qed

lemma unat_high16: "unat (drop_bit 16 (x :: u32)) = unat x div 65536"
  by (simp add: drop_bit_eq_div unat_div)

lemma unat_carry: "unat ((x AND 0xffff) + drop_bit 16 (x :: u32)) = unat x mod 65536 + unat x div 65536"
proof -
  have "unat x < 2 ^ 32" using unsigned_less [of x] by simp
  then have "unat x mod 65536 + unat x div 65536 < 2 ^ 32" by (simp add: less_mult_imp_div_less)
  then show ?thesis by (simp add: unat_word_ariths unat_low16 unat_high16)
qed

lemma carry_decreases: "drop_bit 16 (x :: u32) \<noteq> 0 \<Longrightarrow> unat ((x AND 0xffff) + drop_bit 16 x) < unat x"
proof -
  assume "drop_bit 16 x \<noteq> 0"
  then have "unat x div 65536 \<noteq> 0" by (metis unat_high16 unsigned_eq_0_iff)
  then have "0 < unat x div 65536" by simp
  then show ?thesis using div_mult_mod_eq [of "unat x" 65536] unfolding unat_carry by linarith
qed

function fold_carry :: "u32 \<Rightarrow> u32" where
  "fold_carry acc = (if drop_bit 16 acc \<noteq> 0 then fold_carry ((acc AND 0xffff) + drop_bit 16 acc) else acc)"
  by pat_completeness auto
termination by (relation "measure unat") (auto intro: carry_decreases)

declare fold_carry.simps [simp del]

definition onesComplement :: "bytes list \<Rightarrow> u16" where
  "onesComplement parts = NOT (ucast (fold_carry (foldl sum16 0 parts)))"

text \<open>The pseudo-header of an IPv4 segment. \<open>copy\<close> into a four-byte field writes what there is.\<close>

definition field4 :: "bytes \<Rightarrow> bytes" where
  "field4 b = take 4 (b @ replicate 4 0)"

definition pseudo :: "bytes \<Rightarrow> bytes \<Rightarrow> byte \<Rightarrow> bytes \<Rightarrow> bytes" where
  "pseudo src dst proto segment = field4 (to4 src) @ field4 (to4 dst) @ [0, proto] @ be_put 2 (word_of_nat (length segment) :: u16)"

definition l4Checksum :: "bytes \<Rightarrow> bytes \<Rightarrow> byte \<Rightarrow> bytes \<Rightarrow> u16" where
  "l4Checksum src dst proto segment = onesComplement [pseudo src dst proto segment, segment]"

section \<open>Building frames\<close>

definition pckFrameLen :: "nat \<Rightarrow> nat" where
  "pckFrameLen payload = pckEthHeaderLen + ip_HeaderLen + pckTCPHeaderLen + pckTCPOptionsLen + payload"

definition pckIPOffset :: nat where "pckIPOffset = pckEthHeaderLen"
definition pckTCPOffset :: nat where "pckTCPOffset = pckIPOffset + ip_HeaderLen"
definition pckPayloadOffset :: nat where "pckPayloadOffset = pckTCPOffset + pckTCPHeaderLen + pckTCPOptionsLen"

text \<open>\<open>copy(b[lo:hi], src)\<close>.\<close>

definition copy_field :: "nat \<Rightarrow> nat \<Rightarrow> bytes \<Rightarrow> bytes \<Rightarrow> bytes" where
  "copy_field lo hi src b = copy_at lo (take (hi - lo) src) b"

text \<open>The three parts of \<open>assemblePckFrame\<close>, each with the writes of the code in their order.\<close>

definition put_ethernet :: "pckFrameParams \<Rightarrow> bytes \<Rightarrow> bytes" where
  "put_ethernet p frame =
     (let frame = copy_field 0 6 (fp_DstMAC p) frame;
          frame = copy_field 6 12 (fp_SrcMAC p) frame
      in copy_at 12 (be_put 2 etherTypeIPv4) frame)"

definition put_ipv4 :: "pckFrameParams \<Rightarrow> nat \<Rightarrow> bytes \<Rightarrow> bytes" where
  "put_ipv4 p tot frame =
     (let ip = pckIPOffset;
          frame = copy_at ip [0x45] frame;
          frame = copy_at (ip + 1) [46 * 4] frame;
          frame = copy_at (ip + 2) (be_put 2 (word_of_nat (tot - pckEthHeaderLen) :: u16)) frame;
          frame = copy_at (ip + 4) (be_put 2 (fp_ID p)) frame;
          frame = copy_at (ip + 6) (be_put 2 (0x4000 :: u16)) frame;
          frame = copy_at (ip + 8) [64] frame;
          frame = copy_at (ip + 9) [6] frame;
          frame = copy_at (ip + 10) [0, 0] frame;
          frame = copy_field (ip + 12) (ip + 16) (to4 (fp_SrcIP p)) frame;
          frame = copy_field (ip + 16) (ip + 20) (to4 (fp_DstIP p)) frame
      in copy_at (ip + 10) (be_put 2 (onesComplement [slice pckIPOffset pckTCPOffset frame])) frame)"

definition put_tcp :: "pckFrameParams \<Rightarrow> bytes \<Rightarrow> bytes" where
  "put_tcp p frame =
     (let tcp = pckTCPOffset;
          frame = copy_at tcp (be_put 2 (fp_SrcPort p)) frame;
          frame = copy_at (tcp + 2) (be_put 2 (fp_DstPort p)) frame;
          frame = copy_at (tcp + 4) (be_put 4 (fp_Seq p)) frame;
          frame = copy_at (tcp + 8) (be_put 4 (fp_Ack p)) frame;
          frame = copy_at (tcp + 12) [push_bit 4 (word_of_nat ((pckTCPHeaderLen + pckTCPOptionsLen) div 4))] frame;
          frame = copy_at (tcp + 13) [fp_Flags p] frame;
          frame = copy_at (tcp + 14) (be_put 2 pckWindow) frame;
          frame = copy_at (tcp + 16) [0, 0] frame;
          frame = copy_at (tcp + 18) [0, 0] frame;
          frame = copy_at (tcp + 20) [1, 1] frame;
          frame = copy_at (tcp + 22) [8, 10] frame;
          frame = copy_at (tcp + 24) (be_put 4 (fp_TSVal p)) frame;
          frame = copy_at (tcp + 28) (be_put 4 (fp_TSEcr p)) frame;
          frame = copy_at pckPayloadOffset (fp_Payload p) frame
      in copy_at (tcp + 16) (be_put 2 (l4Checksum (fp_SrcIP p) (fp_DstIP p) 6 (drop pckTCPOffset frame))) frame)"

text \<open>\<open>buf[:total]\<close> panics (\<open>None\<close>) when the buffer is too small.\<close>

definition assemblePckFrame :: "bytes \<Rightarrow> pckFrameParams \<Rightarrow> bytes option" where
  "assemblePckFrame buf p =
     (let tot = pckFrameLen (length (fp_Payload p)) in
      if length buf < tot then None
      else Some (put_tcp p (put_ipv4 p tot (put_ethernet p (take tot buf)))))"

text \<open>The builders of each layer, which start from zeroed slices.\<close>

definition buildPckTCP ::
  "u16 \<Rightarrow> u16 \<Rightarrow> u32 \<Rightarrow> u32 \<Rightarrow> byte \<Rightarrow> u32 \<Rightarrow> u32 \<Rightarrow> bytes \<Rightarrow> bytes \<Rightarrow> bytes \<Rightarrow> bytes" where
  "buildPckTCP srcPort dstPort seq ack flags tsVal tsEcr src dst payload =
     (let b = be_put 2 srcPort @ be_put 2 dstPort @ be_put 4 seq @ be_put 4 ack @
              [push_bit 4 (word_of_nat ((pckTCPHeaderLen + pckTCPOptionsLen) div 4)), flags] @ be_put 2 pckWindow @
              [0, 0] @ [0, 0] @ [1, 1, 8, 10] @ be_put 4 tsVal @ be_put 4 tsEcr @ payload
      in copy_at 16 (be_put 2 (l4Checksum src dst 6 b)) b)"

definition buildPckIPv4 :: "u16 \<Rightarrow> bytes \<Rightarrow> bytes \<Rightarrow> bytes \<Rightarrow> bytes" where
  "buildPckIPv4 ident src dst l4 =
     (let b = [0x45, 46 * 4] @ be_put 2 (word_of_nat (ip_HeaderLen + length l4) :: u16) @ be_put 2 ident @
              be_put 2 (0x4000 :: u16) @ [64, 6] @ [0, 0] @ field4 (to4 src) @ field4 (to4 dst)
      in copy_at 10 (be_put 2 (onesComplement [b])) b @ l4)"

definition buildPckEthernet :: "bytes \<Rightarrow> bytes \<Rightarrow> bytes \<Rightarrow> bytes" where
  "buildPckEthernet dstMAC srcMAC ip =
     take 6 (dstMAC @ replicate 6 0) @ take 6 (srcMAC @ replicate 6 0) @ be_put 2 etherTypeIPv4 @ ip"

section \<open>Parsing frames\<close>

text \<open>The walk over the options from offset \<open>i\<close>.\<close>

function ts_walk :: "bytes \<Rightarrow> nat \<Rightarrow> u32" where
  "ts_walk opts i =
     (if length opts \<le> i then 0
      else if opts ! i = 0 then 0
      else if opts ! i = 1 then ts_walk opts (i + 1)
      else if length opts \<le> i + 1 then 0
      else let l = unat (opts ! (i + 1)) in
           if l < 2 \<or> length opts < i + l then 0
           else if opts ! i = 8 \<and> l = 10 then be_get (slice (i + 2) (i + 6) opts)
           else ts_walk opts (i + l))"
  by pat_completeness auto
termination by (relation "measure (\<lambda>(opts, i). length opts - i)") (auto simp: Let_def)

declare ts_walk.simps [simp del]

definition tcpTimestamp :: "bytes \<Rightarrow> u32" where
  "tcpTimestamp opts = ts_walk opts 0"

definition parsePckFrame :: "bytes \<Rightarrow> nat \<Rightarrow> u16 \<Rightarrow> pckSegment option" where
  "parsePckFrame frame linkLen wantPort =
     (if length frame < linkLen + ip_HeaderLen then None
      else if linkLen = pckEthHeaderLen \<and> be_get (slice 12 14 frame) \<noteq> etherTypeIPv4 then None
      else
        let ip = drop linkLen frame in
        if drop_bit 4 (ip ! 0) \<noteq> 4 then None
        else
          let ihl = unat (ip ! 0 AND 0x0f) * 4 in
          if ihl < ip_HeaderLen \<or> length ip < ihl then None
          else if ip ! 9 \<noteq> 6 then None
          else if (be_get (slice 6 8 ip) :: u16) AND 0x1fff \<noteq> 0 then None
          else
            let tot = unat (be_get (slice 2 4 ip) :: u16) in
            if tot < ihl \<or> length ip < tot then None
            else
              let tcp = slice ihl tot ip in
              if length tcp < pckTCPHeaderLen then None
              else
                let dstPort = be_get (slice 2 4 tcp) in
                if dstPort \<noteq> wantPort then None
                else
                  let off = unat (drop_bit 4 (tcp ! 12)) * 4 in
                  if off < pckTCPHeaderLen \<or> length tcp < off then None
                  else Some \<lparr>sg_SrcIP = slice 12 16 ip, sg_SrcPort = be_get (slice 0 2 tcp), sg_DstPort = dstPort,
                             sg_Seq = be_get (slice 4 8 tcp), sg_TSVal = tcpTimestamp (slice pckTCPHeaderLen off tcp),
                             sg_Payload = drop off tcp\<rparr>)"

section \<open>Writing in place\<close>

lemma copy_at_skip: "length a \<le> n \<Longrightarrow> copy_at n src (a @ b) = a @ copy_at (n - length a) src b"
  by (simp add: copy_at_def add.commute)

lemma copy_at_skip1: "0 < n \<Longrightarrow> copy_at n src (x # b) = x # copy_at (n - 1) src b"
  using copy_at_skip [of "[x]" n src b] by simp

lemma copy_at_here: "length src \<le> length b \<Longrightarrow> copy_at 0 src b = src @ drop (length src) b"
  by (simp add: copy_at_def)

lemmas copy_simps = copy_at_skip copy_at_skip1 copy_at_here

definition eth_header :: "pckFrameParams \<Rightarrow> bytes" where
  "eth_header p = fp_DstMAC p @ fp_SrcMAC p @ be_put 2 etherTypeIPv4"

definition ip_header :: "pckFrameParams \<Rightarrow> nat \<Rightarrow> bytes \<Rightarrow> bytes" where
  "ip_header p len ck =
     [0x45, 46 * 4] @ be_put 2 (word_of_nat len :: u16) @ be_put 2 (fp_ID p) @ be_put 2 (0x4000 :: u16) @ [64, 6] @
     ck @ to4 (fp_SrcIP p) @ to4 (fp_DstIP p)"

definition tcp_segment :: "pckFrameParams \<Rightarrow> bytes \<Rightarrow> bytes" where
  "tcp_segment p ck =
     be_put 2 (fp_SrcPort p) @ be_put 2 (fp_DstPort p) @ be_put 4 (fp_Seq p) @ be_put 4 (fp_Ack p) @
     [push_bit 4 (word_of_nat ((pckTCPHeaderLen + pckTCPOptionsLen) div 4)), fp_Flags p] @ be_put 2 pckWindow @
     ck @ [0, 0] @ [1, 1, 8, 10] @ be_put 4 (fp_TSVal p) @ be_put 4 (fp_TSEcr p) @ fp_Payload p"

text \<open>What the carrier has checked before it builds a frame: both hardware addresses have six bytes
  (\<open>parseMAC\<close>) and both hosts are IPv4.\<close>

definition params_ok :: "pckFrameParams \<Rightarrow> bool" where
  "params_ok p \<longleftrightarrow> length (fp_DstMAC p) = 6 \<and> length (fp_SrcMAC p) = 6 \<and> length (to4 (fp_SrcIP p)) = 4 \<and> length (to4 (fp_DstIP p)) = 4"

lemma put_ethernet_eq:
  assumes "params_ok p" "14 \<le> length f"
  shows "put_ethernet p f = eth_header p @ drop 14 f"
  using assms by (simp add: put_ethernet_def copy_field_def params_ok_def eth_header_def copy_simps)

lemma put_ipv4_eq:
  assumes "params_ok p" "length e = 14" "20 \<le> length f"
  shows "put_ipv4 p tot (e @ f) =
    e @ ip_header p (tot - 14) (be_put 2 (onesComplement [ip_header p (tot - 14) [0, 0]])) @ drop 20 f"
  using assms
  by (simp add: put_ipv4_def copy_field_def params_ok_def ip_header_def copy_simps pckIPOffset_def pckTCPOffset_def pck_consts slice_def)

lemma put_tcp_eq:
  assumes "length e = 34" "length f = 32 + length (fp_Payload p)"
  shows "put_tcp p (e @ f) =
    e @ tcp_segment p (be_put 2 (l4Checksum (fp_SrcIP p) (fp_DstIP p) 6 (tcp_segment p [0, 0])))"
  using assms
  by (simp add: put_tcp_def tcp_segment_def copy_simps pckIPOffset_def pckTCPOffset_def pckPayloadOffset_def pck_consts)

lemma length_segment [simp]: "length ck = 2 \<Longrightarrow> length (tcp_segment p ck) = 32 + length (fp_Payload p)"
  by (simp add: tcp_segment_def)

lemma assemble_eq:
  assumes "params_ok p" "pckFrameLen (length (fp_Payload p)) \<le> length buf"
  shows "assemblePckFrame buf p = Some (eth_header p @
    ip_header p (52 + length (fp_Payload p)) (be_put 2 (onesComplement [ip_header p (52 + length (fp_Payload p)) [0, 0]])) @
    tcp_segment p (be_put 2 (l4Checksum (fp_SrcIP p) (fp_DstIP p) 6 (tcp_segment p [0, 0]))))"
proof -
  let ?n = "length (fp_Payload p)"
  have tot: "pckFrameLen ?n = 66 + ?n" by (simp add: pckFrameLen_def pck_consts)
  have e: "length (eth_header p) = 14" and i: "length (ip_header p k ck) = 20" if "length ck = 2" for k ck
    using assms(1) that by (simp_all add: eth_header_def ip_header_def params_ok_def)
  let ?b = "drop 14 (take (66 + ?n) buf)"
  have l: "20 \<le> length ?b" "length (drop 20 ?b) = 32 + ?n" using assms(2) tot by simp_all
  let ?i = "ip_header p (52 + ?n) (be_put 2 (onesComplement [ip_header p (52 + ?n) [0, 0]]))"
  have "put_ethernet p (take (66 + ?n) buf) = eth_header p @ ?b"
    using assms tot by (intro put_ethernet_eq) simp_all
  moreover have "put_ipv4 p (66 + ?n) (eth_header p @ ?b) = (eth_header p @ ?i) @ drop 20 ?b"
    using put_ipv4_eq [OF assms(1) e [of "[0, 0]"] l(1), of "66 + ?n"] by simp
  moreover have "put_tcp p ((eth_header p @ ?i) @ drop 20 ?b) =
      (eth_header p @ ?i) @ tcp_segment p (be_put 2 (l4Checksum (fp_SrcIP p) (fp_DstIP p) 6 (tcp_segment p [0, 0])))"
    using e [of "[0, 0]"] i by (intro put_tcp_eq l(2)) simp
  ultimately show ?thesis using assms(2) tot by (simp add: assemblePckFrame_def Let_def)
qed

lemma builders_eq:
  assumes "params_ok p"
  shows "buildPckEthernet (fp_DstMAC p) (fp_SrcMAC p) (buildPckIPv4 (fp_ID p) (fp_SrcIP p) (fp_DstIP p)
      (buildPckTCP (fp_SrcPort p) (fp_DstPort p) (fp_Seq p) (fp_Ack p) (fp_Flags p) (fp_TSVal p) (fp_TSEcr p)
         (fp_SrcIP p) (fp_DstIP p) (fp_Payload p))) =
    eth_header p @
    ip_header p (52 + length (fp_Payload p)) (be_put 2 (onesComplement [ip_header p (52 + length (fp_Payload p)) [0, 0]])) @
    tcp_segment p (be_put 2 (l4Checksum (fp_SrcIP p) (fp_DstIP p) 6 (tcp_segment p [0, 0])))"
proof -
  let ?ck = "be_put 2 (l4Checksum (fp_SrcIP p) (fp_DstIP p) 6 (tcp_segment p [0, 0]))"
  have t: "buildPckTCP (fp_SrcPort p) (fp_DstPort p) (fp_Seq p) (fp_Ack p) (fp_Flags p) (fp_TSVal p) (fp_TSEcr p)
      (fp_SrcIP p) (fp_DstIP p) (fp_Payload p) = tcp_segment p ?ck"
    by (simp add: buildPckTCP_def tcp_segment_def copy_simps)
  have "buildPckIPv4 (fp_ID p) (fp_SrcIP p) (fp_DstIP p) l4 =
      ip_header p (20 + length l4) (be_put 2 (onesComplement [ip_header p (20 + length l4) [0, 0]])) @ l4" for l4
    using assms by (simp add: buildPckIPv4_def ip_header_def copy_simps field4_def params_ok_def ip_HeaderLen_def)
  then show ?thesis using assms unfolding t by (simp add: buildPckEthernet_def eth_header_def params_ok_def)
qed

section \<open>Reading back\<close>

lemma ts_walk_linux: "tcpTimestamp ([1, 1, 8, 10] @ be_put 4 v @ be_put 4 w) = v"
  by (simp add: tcpTimestamp_def ts_walk.simps slice_def)

lemma parse_frame:
  assumes "length e = 14" "slice 12 14 e = be_put 2 etherTypeIPv4" "params_ok p" "length ck = 2" "length ck' = 2"
    "52 + length (fp_Payload p) < 65536"
  shows "parsePckFrame (e @ ip_header p (52 + length (fp_Payload p)) ck @ tcp_segment p ck' @ pad) 14 (fp_DstPort p) =
    Some \<lparr>sg_SrcIP = to4 (fp_SrcIP p), sg_SrcPort = fp_SrcPort p, sg_DstPort = fp_DstPort p, sg_Seq = fp_Seq p,
          sg_TSVal = fp_TSVal p, sg_Payload = fp_Payload p\<rparr>"
proof -
  let ?n = "length (fp_Payload p)"
  let ?h = "ip_header p (52 + ?n) ck" and ?t = "tcp_segment p ck'"
  let ?ip = "?h @ ?t @ pad"
  have h: "length ?h = 20" using assms(3,4) by (simp add: ip_header_def params_ok_def)
  have ip: "?ip ! 0 = 0x45" "?ip ! 9 = 6" "slice 2 4 ?ip = be_put 2 (word_of_nat (52 + ?n) :: u16)"
    "slice 6 8 ?ip = be_put 2 (0x4000 :: u16)" "slice 12 16 ?ip = to4 (fp_SrcIP p)"
    using assms(3,4) by (simp_all add: ip_header_def params_ok_def slice_def nth_append)
  have tcp: "slice 20 (52 + ?n) ?ip = ?t" using h assms(5) by (simp add: slice_def)
  have f: "slice 0 2 ?t = be_put 2 (fp_SrcPort p)" "slice 2 4 ?t = be_put 2 (fp_DstPort p)"
    "slice 4 8 ?t = be_put 4 (fp_Seq p)" "slice 20 32 ?t = [1, 1, 8, 10] @ be_put 4 (fp_TSVal p) @ be_put 4 (fp_TSEcr p)"
    "drop 32 ?t = fp_Payload p" "?t ! 12 = 128"
    using assms(5) by (simp_all add: tcp_segment_def slice_def nth_append pck_consts)
  have b: "drop_bit 4 (0x45 :: byte) = 4" "unat ((0x45 :: byte) AND 0x0f) * 4 = 20" "unat (drop_bit 4 (128 :: byte)) * 4 = 32"
    "(0x4000 :: u16) AND 0x1fff = 0"
    by simp_all
  have tot: "unat (be_get (slice 2 4 ?ip) :: u16) = 52 + ?n"
    unfolding ip(3) be_get_put16 by (rule unat_of_nat16 [OF assms(6)])
  have l: "slice 12 14 (e @ ?ip) = be_put 2 etherTypeIPv4" using assms(1,2) by (simp add: slice_append_left)
  have len: "length ?ip = 52 + ?n + length pad" using h assms(5) by simp
  show ?thesis
    unfolding parsePckFrame_def Let_def using len h assms(1) ip(1,2,4,5) tot tcp f b l assms(5) ts_walk_linux
    by (simp add: pck_consts)
qed

section \<open>Checksum arithmetic\<close>

text \<open>The sum without the 32-bit bound.\<close>

fun nsum :: "bytes \<Rightarrow> nat" where
  "nsum [] = 0"
| "nsum [b] = unat b * 256"
| "nsum (a # b # bs) = unat a * 256 + unat b + nsum bs"

lemma unat_ucast8 [simp]: "unat (ucast (b :: byte) :: u32) = unat b"
proof -
  have "unat b < 2 ^ 32" using unat_byte_less [of b] by (rule less_le_trans) simp
  then show ?thesis by (simp add: unsigned_ucast_eq take_bit_nat_eq_self)
qed

lemma unat_high_byte: "unat (push_bit 8 (ucast (a :: byte) :: u32)) = unat a * 256"
  using unat_byte_less [of a]
  by (simp add: push_bit_eq_mult unat_word_ariths(2) del: unat_byte_less)

lemma pair_or: "push_bit 8 (ucast (a :: byte) :: u32) OR ucast (b :: byte) = push_bit 8 (ucast a) + ucast b"
  by (rule disjunctive_add [symmetric]) (auto simp: bit_simps dest: bit_imp_le_length)

lemma unat_sum16: "unat acc + nsum bs < 2 ^ 32 \<Longrightarrow> unat (sum16 acc bs) = unat acc + nsum bs"
proof (induction acc bs rule: sum16.induct)
  case (2 acc b)
  then show ?case by (simp add: unat_word_ariths(1) unat_high_byte)
next
  case (3 acc a b bs)
  have "unat (acc + (push_bit 8 (ucast a) OR ucast b)) = unat acc + (unat a * 256 + unat b)"
    using "3.prems" by (simp add: pair_or unat_word_ariths(1) unat_high_byte)
  then show ?case using "3.IH" "3.prems" by (simp add: add.assoc)
qed simp

lemma nsum_append: "even (length a) \<Longrightarrow> nsum (a @ b) = nsum a + nsum b"
  by (induction a rule: nsum.induct) auto

lemma nsum_bound: "nsum bs \<le> 32768 * (length bs + 1)"
proof (induction bs rule: nsum.induct)
  case (2 b)
  show ?case using unat_byte_less [of b] by (simp del: unat_byte_less)
next
  case (3 a b bs)
  then show ?case using unat_byte_less [of a] unat_byte_less [of b] by (simp del: unat_byte_less)
qed simp

lemma nsum_be: "nsum (be_put 2 (c :: u16) @ bs) = unat c + nsum bs"
proof -
  have "unat c < 65536" using unsigned_less [of c] by simp
  then have "unat c div 256 < 256" by (simp add: less_mult_imp_div_less)
  then show ?thesis by (simp add: be_put_def numeral_2_eq_2 unat_of_nat)
qed

text \<open>The folded sum: the residue modulo 65535, with 0 only for 0.\<close>

lemma fold_carry_spec:
  "unat (fold_carry x) < 65536 \<and> unat (fold_carry x) mod 65535 = unat x mod 65535 \<and>
   (unat (fold_carry x) = 0 \<longleftrightarrow> unat x = 0) \<and> unat (fold_carry x) \<le> unat x"
proof (induction x rule: fold_carry.induct)
  case (1 x)
  let ?y = "(x AND 0xffff) + drop_bit 16 x"
  show ?case
  proof (cases "drop_bit 16 x \<noteq> 0")
    case True
    have f: "fold_carry x = fold_carry ?y" using True by (subst fold_carry.simps) simp
    have y: "unat x = unat ?y + 65535 * (unat x div 65536)"
      unfolding unat_carry using div_mult_mod_eq [of "unat x" 65536] by linarith
    have "unat ?y mod 65535 = unat x mod 65535" by (subst y) simp
    moreover have "unat ?y = 0 \<longleftrightarrow> unat x = 0"
      using y unfolding unat_carry by (intro iffI) linarith+
    ultimately show ?thesis using 1 [OF True] less_imp_le [OF carry_decreases [OF True]] unfolding f by (elim conjE, intro conjI) (assumption | simp)+
  next
    case False
    have "unat x div 65536 = 0" using False by (metis unat_high16 unsigned_0)
    then have "unat x < 65536" by (simp add: div_eq_0_iff)
    moreover have "fold_carry x = x" using False by (subst fold_carry.simps) simp
    ultimately show ?thesis by simp
  qed
qed

lemma unat_onesComplement:
  "unat (onesComplement ps) = 65535 - unat (fold_carry (foldl sum16 0 ps))"
proof -
  let ?r = "fold_carry (foldl sum16 0 ps)"
  have "unat ?r < 65536" using fold_carry_spec by blast
  then have "unat (ucast ?r :: u16) = unat ?r" by (simp add: unsigned_ucast_eq take_bit_nat_eq_self)
  moreover have "unat (NOT (w :: u16)) = 65535 - unat w" for w
  proof -
    have "NOT w = - 1 - w" by (simp add: not_eq_complement)
    moreover have "unat (- 1 :: u16) = 65535" by (simp add: unsigned_minus_1_eq_mask mask_eq_exp_minus_1)
    ultimately show ?thesis using unat_sub [of w "- 1"] by simp
  qed
  ultimately show ?thesis by (simp add: onesComplement_def)
qed

text \<open>Inserting the checksum into its zeroed field makes the whole sum to zero, wherever the field
  stands at an even offset.\<close>

lemma checksum_verifies:
  assumes "even (length pre)" and "nsum ps + nsum (pre @ [0, 0] @ post) + 65535 < 2 ^ 32"
  shows "onesComplement [ps, pre @ be_put 2 (onesComplement [ps, pre @ [0, 0] @ post]) @ post] = 0"
proof -
  let ?x = "nsum ps + nsum (pre @ [0, 0] @ post)"
  let ?c = "onesComplement [ps, pre @ [0, 0] @ post]"
  let ?sx = "foldl sum16 0 [ps, pre @ [0, 0] @ post]"
  let ?sy = "foldl sum16 0 [ps, pre @ be_put 2 ?c @ post]"
  have c: "unat ?c \<le> 65535" using unat_onesComplement [of "[ps, pre @ [0, 0] @ post]"] by simp
  have ny: "nsum (pre @ be_put 2 ?c @ post) = nsum (pre @ [0, 0] @ post) + unat ?c"
    using assms(1) by (simp add: nsum_append nsum_be)
  have x: "unat ?sx = ?x" using assms(2) by (simp add: unat_sum16)
  have y: "unat ?sy = ?x + unat ?c" using assms(2) c ny by (simp add: unat_sum16)
  note fx = fold_carry_spec [of ?sx] and fy = fold_carry_spec [of ?sy]
  have uc: "unat ?c + unat (fold_carry ?sx) = 65535"
    using unat_onesComplement [of "[ps, pre @ [0, 0] @ post]"] fx by simp
  have "unat ?sy mod 65535 = (unat (fold_carry ?sx) + unat ?c) mod 65535"
    unfolding y using fx unfolding x by (intro mod_add_cong) simp_all
  then have "unat ?sy mod 65535 = 0" using uc by (simp add: add.commute)
  moreover have "unat ?sy \<noteq> 0" unfolding y using uc fx x by linarith
  ultimately have "unat (fold_carry ?sy) mod 65535 = 0" "unat (fold_carry ?sy) \<noteq> 0" "unat (fold_carry ?sy) < 65536"
    using fy by simp_all
  then have "unat (fold_carry ?sy) = 65535" by (cases "unat (fold_carry ?sy) < 65535") auto
  then have "unat (onesComplement [ps, pre @ be_put 2 ?c @ post]) = 0" by (simp add: unat_onesComplement)
  then show ?thesis by (simp add: unsigned_eq_0_iff)
qed

text \<open>A checksum that comes out as 0 may be sent as 0xffff, as UDP requires.\<close>

lemma checksum_zero_verifies:
  assumes "even (length pre)" "nsum ps + nsum (pre @ [0, 0] @ post) + 65535 < 2 ^ 32"
    and "onesComplement [ps, pre @ [0, 0] @ post] = 0"
  shows "onesComplement [ps, pre @ be_put 2 (0xffff :: u16) @ post] = 0"
proof -
  let ?x = "nsum ps + nsum (pre @ [0, 0] @ post)"
  let ?sx = "foldl sum16 0 [ps, pre @ [0, 0] @ post]"
  let ?sy = "foldl sum16 0 [ps, pre @ be_put 2 (0xffff :: u16) @ post]"
  have ny: "nsum (pre @ be_put 2 (0xffff :: u16) @ post) = nsum (pre @ [0, 0] @ post) + 65535"
    using assms(1) by (simp add: nsum_append nsum_be)
  have x: "unat ?sx = ?x" using assms(2) by (simp add: unat_sum16)
  have y: "unat ?sy = ?x + 65535" using assms(2) ny by (simp add: unat_sum16)
  note fx = fold_carry_spec [of ?sx] and fy = fold_carry_spec [of ?sy]
  have "unat (fold_carry ?sx) = 65535"
    using unat_onesComplement [of "[ps, pre @ [0, 0] @ post]"] assms(3) fx by simp
  then have "?x mod 65535 = 0" using fx x by simp
  then have "unat (fold_carry ?sy) mod 65535 = 0" "unat (fold_carry ?sy) \<noteq> 0" "unat (fold_carry ?sy) < 65536"
    using fy unfolding y by simp_all
  then have "unat (fold_carry ?sy) = 65535" by (cases "unat (fold_carry ?sy) < 65535") auto
  then have "unat (onesComplement [ps, pre @ be_put 2 (0xffff :: u16) @ post]) = 0" by (simp add: unat_onesComplement)
  then show ?thesis by (simp add: unsigned_eq_0_iff)
qed

lemma nsum_pseudo: "nsum (pseudo src dst proto seg) \<le> 32768 * 13"
  using nsum_bound [of "pseudo src dst proto seg"] by (simp add: pseudo_def field4_def)

lemma segment_verifies:
  assumes "32 + length (fp_Payload p) < 65536"
  shows "onesComplement [pseudo (fp_SrcIP p) (fp_DstIP p) 6 (tcp_segment p [0, 0]),
    tcp_segment p (be_put 2 (l4Checksum (fp_SrcIP p) (fp_DstIP p) 6 (tcp_segment p [0, 0])))] = 0"
proof -
  let ?ps = "pseudo (fp_SrcIP p) (fp_DstIP p) 6 (tcp_segment p [0, 0])"
  let ?pre = "take 16 (tcp_segment p [0, 0])" and ?post = "drop 18 (tcp_segment p [0, 0])"
  have t: "tcp_segment p ck = ?pre @ ck @ ?post" for ck by (simp add: tcp_segment_def)
  have "nsum (?pre @ [0, 0] @ ?post) \<le> 32768 * (33 + length (fp_Payload p))"
    unfolding t [symmetric] using nsum_bound [of "tcp_segment p [0, 0]"] by simp
  then have "nsum ?ps + nsum (?pre @ [0, 0] @ ?post) + 65535 < 2 ^ 32"
    using nsum_pseudo [of "fp_SrcIP p" "fp_DstIP p" 6 "tcp_segment p [0, 0]"] assms by simp
  moreover have "even (length ?pre)" by simp
  ultimately show ?thesis
    using checksum_verifies [of ?pre ?ps ?post] unfolding l4Checksum_def t [symmetric] by simp
qed

lemma header_verifies:
  assumes "params_ok p"
  shows "onesComplement [ip_header p n (be_put 2 (onesComplement [ip_header p n [0, 0]]))] = 0"
proof -
  let ?pre = "take 10 (ip_header p n [0, 0])" and ?post = "drop 12 (ip_header p n [0, 0])"
  have t: "ip_header p n ck = ?pre @ ck @ ?post" for ck by (simp add: ip_header_def)
  have "length (ip_header p n [0, 0]) = 20" using assms by (simp add: ip_header_def params_ok_def)
  then have "nsum (?pre @ [0, 0] @ ?post) \<le> 32768 * 21"
    unfolding t [symmetric] using nsum_bound [of "ip_header p n [0, 0]"] by simp
  moreover have "even (length ?pre)" by (simp add: ip_header_def)
  ultimately show ?thesis
    using checksum_verifies [of ?pre "[]" ?post] unfolding onesComplement_def t [symmetric] by simp
qed

section \<open>Properties\<close>

text \<open>C6. What one end sends the other reads: the frame assembled for a datagram parses, on the port it is
  addressed to and whatever padding the link added behind it, to exactly that datagram with the
  sender's address, ports, sequence number and timestamp.\<close>

theorem pck_frame_roundtrip:
  assumes "params_ok p" "52 + length (fp_Payload p) < 65536" "pckFrameLen (length (fp_Payload p)) \<le> length buf"
  shows "\<exists>frame. assemblePckFrame buf p = Some frame \<and>
    parsePckFrame (frame @ pad) pckEthHeaderLen (fp_DstPort p) =
      Some \<lparr>sg_SrcIP = to4 (fp_SrcIP p), sg_SrcPort = fp_SrcPort p, sg_DstPort = fp_DstPort p, sg_Seq = fp_Seq p,
            sg_TSVal = fp_TSVal p, sg_Payload = fp_Payload p\<rparr>"
proof -
  have "length (eth_header p) = 14" "slice 12 14 (eth_header p) = be_put 2 etherTypeIPv4"
    using assms(1) by (simp_all add: eth_header_def params_ok_def slice_def)
  then show ?thesis
    using parse_frame [OF _ _ assms(1) _ _ assms(2)] assemble_eq [OF assms(1,3)] by (simp add: pckEthHeaderLen_def)
qed

definition demo_params :: pckFrameParams where
  "demo_params = \<lparr>fp_SrcMAC = [2, 0, 0, 0, 0, 1], fp_DstMAC = [2, 0, 0, 0, 0, 2], fp_SrcIP = [10, 0, 0, 1],
     fp_DstIP = [10, 0, 0, 2], fp_SrcPort = 40000, fp_DstPort = 443, fp_Seq = 7, fp_Ack = 9, fp_Flags = 24, fp_TSVal = 5,
     fp_TSEcr = 3, fp_ID = 1, fp_Payload = [1, 2, 3]\<rparr>"

lemma demo_params_ok: "params_ok demo_params" "length (fp_Payload demo_params) = 3"
  by (simp_all add: params_ok_def demo_params_def to4_def)

theorem pck_frame_roundtrip_witness:
  "\<exists>frame. assemblePckFrame (replicate 1500 255) demo_params = Some frame \<and>
    parsePckFrame (frame @ [0, 0]) pckEthHeaderLen (fp_DstPort demo_params) =
      Some \<lparr>sg_SrcIP = to4 (fp_SrcIP demo_params), sg_SrcPort = fp_SrcPort demo_params, sg_DstPort = fp_DstPort demo_params,
            sg_Seq = fp_Seq demo_params, sg_TSVal = fp_TSVal demo_params, sg_Payload = fp_Payload demo_params\<rparr>"
  by (rule pck_frame_roundtrip) (simp_all add: demo_params_ok pckFrameLen_def pck_consts)

text \<open>Assembling in place is building layer by layer: the frame written into a pooled buffer is byte for
  byte what the three builders produce from zeroed slices, so nothing of an earlier frame in the
  buffer survives into the next.\<close>

theorem assemble_is_layered:
  assumes "params_ok p" "pckFrameLen (length (fp_Payload p)) \<le> length buf"
  shows "assemblePckFrame buf p =
    Some (buildPckEthernet (fp_DstMAC p) (fp_SrcMAC p) (buildPckIPv4 (fp_ID p) (fp_SrcIP p) (fp_DstIP p)
      (buildPckTCP (fp_SrcPort p) (fp_DstPort p) (fp_Seq p) (fp_Ack p) (fp_Flags p) (fp_TSVal p) (fp_TSEcr p)
         (fp_SrcIP p) (fp_DstIP p) (fp_Payload p))))"
  using assemble_eq [OF assms] builders_eq [OF assms(1)] by simp

theorem assemble_is_layered_witness:
  "assemblePckFrame (replicate 1500 255) demo_params =
    Some (buildPckEthernet (fp_DstMAC demo_params) (fp_SrcMAC demo_params)
      (buildPckIPv4 (fp_ID demo_params) (fp_SrcIP demo_params) (fp_DstIP demo_params)
      (buildPckTCP (fp_SrcPort demo_params) (fp_DstPort demo_params) (fp_Seq demo_params) (fp_Ack demo_params)
         (fp_Flags demo_params) (fp_TSVal demo_params) (fp_TSEcr demo_params) (fp_SrcIP demo_params) (fp_DstIP demo_params)
         (fp_Payload demo_params))))"
  by (rule assemble_is_layered) (simp_all add: demo_params_ok pckFrameLen_def pck_consts)

text \<open>The checksums are the ones a receiving kernel checks: in every assembled frame the IPv4 header sums
  to zero, and so does the TCP segment together with its pseudo-header.\<close>

theorem assembled_checksums_verify:
  assumes "params_ok p" "32 + length (fp_Payload p) < 65536" "assemblePckFrame buf p = Some frame"
  shows "onesComplement [slice pckIPOffset pckTCPOffset frame] = 0 \<and>
    l4Checksum (fp_SrcIP p) (fp_DstIP p) 6 (drop pckTCPOffset frame) = 0"
proof -
  have b: "pckFrameLen (length (fp_Payload p)) \<le> length buf"
    using assms(3) by (auto simp: assemblePckFrame_def Let_def split: if_splits)
  let ?i = "ip_header p (52 + length (fp_Payload p)) (be_put 2 (onesComplement [ip_header p (52 + length (fp_Payload p)) [0, 0]]))"
  let ?t = "tcp_segment p (be_put 2 (l4Checksum (fp_SrcIP p) (fp_DstIP p) 6 (tcp_segment p [0, 0])))"
  have f: "frame = eth_header p @ ?i @ ?t" using assemble_eq [OF assms(1) b] assms(3) by simp
  have "length (eth_header p) = 14" "length ?i = 20"
    using assms(1) by (simp_all add: eth_header_def ip_header_def params_ok_def)
  then have "slice pckIPOffset pckTCPOffset frame = ?i" "drop pckTCPOffset frame = ?t"
    by (simp_all add: f pckIPOffset_def pckTCPOffset_def pck_consts slice_def)
  moreover have "l4Checksum (fp_SrcIP p) (fp_DstIP p) 6 ?t = 0"
    using segment_verifies [OF assms(2)] by (simp add: l4Checksum_def pseudo_def)
  ultimately show ?thesis using header_verifies [OF assms(1)] by simp
qed

theorem assembled_checksums_verify_witness:
  "\<exists>frame. assemblePckFrame (replicate 1500 255) demo_params = Some frame \<and> onesComplement [slice pckIPOffset pckTCPOffset frame] = 0"
proof -
  have "pckFrameLen (length (fp_Payload demo_params)) \<le> length (replicate 1500 (255 :: byte))"
    by (simp add: demo_params_ok pckFrameLen_def pck_consts)
  from assemble_eq [OF demo_params_ok(1) this] obtain frame where f: "assemblePckFrame (replicate 1500 255) demo_params = Some frame"
    by blast
  have "32 + length (fp_Payload demo_params) < 65536" by (simp add: demo_params_ok)
  from assembled_checksums_verify [OF demo_params_ok(1) this f] f show ?thesis by blast
qed

end
