(* ===== verification/Spoof.thy ===== *)
theory Spoof
  imports PckFrame
begin

text \<open>
  The forged-source carrier: profiles and identity (\<open>internal/utils/network/spoofframe.go\<close>), the shims,
  padding and fragments (\<open>spoofpacket.go\<close>), and the carrier itself (\<open>spoofconn_linux.go\<close>) from its
  options to the packets it sends and the datagrams it hands up.

  Raw sockets are the kernel's: opening them succeeds, a write is given by its outcome, and a receive
  is given by what arrives. Every random draw is an argument. SHA-256 is the parameter \<open>sha\<close>.
\<close>

section \<open>Profiles\<close>

definition SpoofProfileUDP :: string where "SpoofProfileUDP = ''udp''"
definition SpoofProfileTCP :: string where "SpoofProfileTCP = ''tcp''"
definition SpoofProfileICMP :: string where "SpoofProfileICMP = ''icmp''"
definition SpoofProfileICMPv6 :: string where "SpoofProfileICMPv6 = ''icmpv6''"
definition SpoofProfileIPIP :: string where "SpoofProfileIPIP = ''ipip''"
definition SpoofProfileProto58 :: string where "SpoofProfileProto58 = ''proto58''"
definition SpoofProfileGRE :: string where "SpoofProfileGRE = ''gre''"

lemmas profile_defs = SpoofProfileUDP_def SpoofProfileTCP_def SpoofProfileICMP_def SpoofProfileICMPv6_def
  SpoofProfileIPIP_def SpoofProfileProto58_def SpoofProfileGRE_def

definition ParseSpoofProfile :: "string \<Rightarrow> string option" where
  "ParseSpoofProfile s =
     (if s = [] \<or> s = SpoofProfileUDP then Some SpoofProfileUDP
      else if s = SpoofProfileTCP then Some SpoofProfileTCP
      else if s = SpoofProfileICMP then Some SpoofProfileICMP
      else if s = SpoofProfileICMPv6 then Some SpoofProfileICMPv6
      else if s = SpoofProfileIPIP then Some SpoofProfileIPIP
      else if s = SpoofProfileProto58 then Some SpoofProfileProto58
      else if s = SpoofProfileGRE then Some SpoofProfileGRE
      else None)"

definition ResolveSpoofDirections :: "string \<Rightarrow> string \<Rightarrow> string \<Rightarrow> string \<times> string" where
  "ResolveSpoofDirections profile uplink downlink =
     (let pick = (\<lambda>dir. case ParseSpoofProfile (if dir = [] then profile else dir) of
                          None \<Rightarrow> SpoofProfileUDP | Some p \<Rightarrow> p)
      in (pick uplink, pick downlink))"

definition ipProtocol :: "string \<Rightarrow> byte" where
  "ipProtocol p =
     (if p = SpoofProfileTCP then 6
      else if p = SpoofProfileICMP then 1
      else if p = SpoofProfileICMPv6 \<or> p = SpoofProfileProto58 then 58
      else if p = SpoofProfileIPIP then 4
      else if p = SpoofProfileGRE then 47
      else 17)"

definition hasPortDemux :: "string \<Rightarrow> bool" where
  "hasPortDemux p \<longleftrightarrow> p \<noteq> SpoofProfileIPIP \<and> p \<noteq> SpoofProfileGRE \<and> p \<noteq> SpoofProfileProto58"

definition isICMPFamily :: "string \<Rightarrow> bool" where
  "isICMPFamily p \<longleftrightarrow> p = SpoofProfileICMP \<or> p = SpoofProfileICMPv6"

definition icmpTypeEchoReply :: byte where "icmpTypeEchoReply = 0"
definition icmpTypeEchoRequest :: byte where "icmpTypeEchoRequest = 8"
definition icmpv6TypeEchoRequest :: byte where "icmpv6TypeEchoRequest = 128"
definition icmpv6TypeEchoReply :: byte where "icmpv6TypeEchoReply = 129"
definition icmpEchoHeaderLen :: nat where "icmpEchoHeaderLen = 8"

definition icmpEchoTypes :: "string \<Rightarrow> byte \<times> byte" where
  "icmpEchoTypes p =
     (if p = SpoofProfileICMPv6 then (icmpv6TypeEchoRequest, icmpv6TypeEchoReply)
      else (icmpTypeEchoRequest, icmpTypeEchoReply))"

definition spoofIdentity :: "(string \<Rightarrow> bytes) \<Rightarrow> string \<Rightarrow> bytes \<times> u16" where
  "spoofIdentity sha token =
     (let h = sha (''parstanel-spoof-v1:'' @ token); port = be_get (slice 4 6 h) :: u16
      in (take 4 h, if port < 1024 then port + 1024 else port))"

section \<open>Obfuscation\<close>

record spoof_dpi =
  d_TTLJitter :: bool
  d_RandomDSCP :: bool
  d_ShufflePort :: bool
  d_PortMin :: u16
  d_PortMax :: u16
  d_Padding :: bool
  d_PaddingMax :: byte
  d_FakeTLS :: bool

definition ttlPool :: "byte list" where "ttlPool = [64, 128, 255]"
definition dscpPool :: "byte list" where "dscpPool = [0x00, 0x28, 0x10]"

text \<open>\<open>r\<close> is the result of \<open>rand.IntN\<close>.\<close>

definition pickTTL :: "spoof_dpi \<Rightarrow> nat \<Rightarrow> byte" where
  "pickTTL d r = (if d_TTLJitter d then ttlPool ! r else 64)"

definition pickDSCP :: "spoof_dpi \<Rightarrow> nat \<Rightarrow> byte" where
  "pickDSCP d r = (if d_RandomDSCP d then dscpPool ! r else 0)"

text \<open>Here \<open>r\<close> is drawn below the width of the range, which \<open>port_range\<close> computes.\<close>

definition port_range :: "spoof_dpi \<Rightarrow> u16 \<times> u16" where
  "port_range d =
     (let lo = (if d_PortMin d = 0 then 49152 else d_PortMin d)
      in (lo, if d_PortMax d \<le> lo then 65535 else d_PortMax d))"

definition pickSrcPort :: "spoof_dpi \<Rightarrow> nat \<Rightarrow> u16 \<Rightarrow> u16" where
  "pickSrcPort d r fixed = (if \<not> d_ShufflePort d then fixed else fst (port_range d) + word_of_nat r)"

definition tlsFakeHeaderLen :: nat where "tlsFakeHeaderLen = 5"

definition applyFakeTLS :: "bytes \<Rightarrow> bytes" where
  "applyFakeTLS p = [0x17, 0x03, 0x03] @ be_put 2 (word_of_nat (length p) :: u16) @ p"

definition stripFakeTLS :: "bytes \<Rightarrow> bytes option" where
  "stripFakeTLS p =
     (if length p < tlsFakeHeaderLen \<or> p ! 0 \<noteq> 0x17 \<or> p ! 1 \<noteq> 0x03 \<or> p ! 2 \<noteq> 0x03 then None
      else Some (drop tlsFakeHeaderLen p))"

text \<open>\<open>r\<close> is drawn below \<open>max\<close> (64 when that is 0), \<open>fill\<close> gives the filler bytes.\<close>

definition applyPadding :: "bytes \<Rightarrow> nat \<Rightarrow> (nat \<Rightarrow> byte) \<Rightarrow> bytes" where
  "applyPadding p r fill = (let padLen = r + 1 in p @ map fill [0..<padLen - 1] @ [word_of_nat padLen])"

definition pad_max :: "byte \<Rightarrow> nat" where
  "pad_max m = (if m = 0 then 64 else unat m)"

definition stripPadding :: "bytes \<Rightarrow> bytes option" where
  "stripPadding p =
     (if p = [] then None
      else let padLen = unat (last p) in
           if padLen = 0 \<or> length p < padLen then None else Some (take (length p - padLen) p))"

section \<open>Fragments\<close>

record spoofFragRange =
  fr_off :: nat
  fr_end :: nat
  fr_more :: bool

function frag_loop :: "nat \<Rightarrow> nat \<Rightarrow> nat \<Rightarrow> spoofFragRange list" where
  "frag_loop segLen maxData off =
     (if off < segLen \<and> 0 < maxData then
        let stop = min (off + maxData) segLen
        in \<lparr>fr_off = off, fr_end = stop, fr_more = (stop < segLen)\<rparr> # frag_loop segLen maxData (off + maxData)
      else [])"
  by pat_completeness auto
termination by (relation "measure (\<lambda>(segLen, _, off). segLen - off)") auto

declare frag_loop.simps [simp del]

definition spoofFragments :: "nat \<Rightarrow> int \<Rightarrow> spoofFragRange list" where
  "spoofFragments segLen mtu =
     (if 20 + int segLen \<le> mtu then [\<lparr>fr_off = 0, fr_end = segLen, fr_more = False\<rparr>]
      else let maxData = (mtu - 20) div 8 * 8
           in frag_loop segLen (if maxData \<le> 0 then 8 else nat maxData) 0)"

section \<open>Shims\<close>

definition greHeaderLen :: nat where "greHeaderLen = 4"
definition greProtoIPv4 :: u16 where "greProtoIPv4 = 0x0800"
definition tcpSpoofFlags :: byte where "tcpSpoofFlags = 0x02"

definition profileL4Len :: "string \<Rightarrow> nat" where
  "profileL4Len p =
     (if p = SpoofProfileTCP then 20
      else if p = SpoofProfileIPIP \<or> p = SpoofProfileProto58 then 0
      else if p = SpoofProfileGRE then greHeaderLen
      else 8)"

definition buildGREShim :: "bytes \<Rightarrow> bytes" where
  "buildGREShim framed = [0, 0] @ be_put 2 greProtoIPv4 @ framed"

definition stripGREShim :: "bytes \<Rightarrow> bytes option" where
  "stripGREShim l4 = (if length l4 < greHeaderLen then None else Some (drop greHeaderLen l4))"

definition buildUDPShimPorts :: "u16 \<Rightarrow> u16 \<Rightarrow> bytes \<Rightarrow> bytes \<Rightarrow> bytes \<Rightarrow> bytes" where
  "buildUDPShimPorts srcPort dstPort src dst framed =
     (let b = be_put 2 srcPort @ be_put 2 dstPort @ be_put 2 (word_of_nat (8 + length framed) :: u16) @ [0, 0] @ framed;
          csum = l4Checksum src dst 17 b;
          csum = (if csum = 0 then 0xffff else csum)
      in copy_at 6 (be_put 2 csum) b)"

definition buildUDPShim :: "u16 \<Rightarrow> bytes \<Rightarrow> bytes \<Rightarrow> bytes \<Rightarrow> bytes" where
  "buildUDPShim port src dst framed = buildUDPShimPorts port port src dst framed"

definition buildTCPShimPorts :: "u16 \<Rightarrow> u16 \<Rightarrow> u32 \<Rightarrow> bytes \<Rightarrow> bytes \<Rightarrow> bytes \<Rightarrow> bytes" where
  "buildTCPShimPorts srcPort dstPort seq src dst framed =
     (let b = be_put 2 srcPort @ be_put 2 dstPort @ be_put 4 seq @ be_put 4 (0 :: u32) @ [push_bit 4 5, tcpSpoofFlags] @
              be_put 2 (0xffff :: u16) @ [0, 0] @ [0, 0] @ framed
      in copy_at 16 (be_put 2 (l4Checksum src dst 6 b)) b)"

definition buildTCPShim :: "u16 \<Rightarrow> u32 \<Rightarrow> bytes \<Rightarrow> bytes \<Rightarrow> bytes \<Rightarrow> bytes" where
  "buildTCPShim port seq src dst framed = buildTCPShimPorts port port seq src dst framed"

definition buildSpoofShim :: "string \<Rightarrow> u16 \<Rightarrow> u32 \<Rightarrow> bytes \<Rightarrow> bytes \<Rightarrow> bytes \<Rightarrow> bytes" where
  "buildSpoofShim profile port seq src dst framed =
     (if profile = SpoofProfileTCP then buildTCPShim port seq src dst framed else buildUDPShim port src dst framed)"

definition stripSpoofShim :: "string \<Rightarrow> u16 \<Rightarrow> bytes \<Rightarrow> bytes option" where
  "stripSpoofShim profile port l4 =
     (if profile = SpoofProfileTCP then
        (if length l4 < 20 \<or> be_get (slice 2 4 l4) \<noteq> port then None
         else let off = unat (drop_bit 4 (l4 ! 12)) * 4 in
              if off < 20 \<or> length l4 < off then None else Some (drop off l4))
      else if length l4 < 8 \<or> be_get (slice 2 4 l4) \<noteq> port then None
      else Some (drop 8 l4))"

definition nextTCPSeq :: "u32 \<Rightarrow> nat \<Rightarrow> u32 \<times> u32" where
  "nextTCPSeq counter n = (let counter' = counter + word_of_nat n in (counter', counter' - word_of_nat n + 1))"

definition buildICMPEcho :: "byte \<Rightarrow> u16 \<Rightarrow> u16 \<Rightarrow> bytes \<Rightarrow> bytes" where
  "buildICMPEcho typ ident seq payload =
     (let b = [typ, 0] @ [0, 0] @ be_put 2 ident @ be_put 2 seq @ payload
      in copy_at 2 (be_put 2 (onesComplement [b])) b)"

definition parseICMPEcho :: "byte \<Rightarrow> u16 \<Rightarrow> bytes \<Rightarrow> bytes option" where
  "parseICMPEcho wantType ident msg =
     (if length msg < icmpEchoHeaderLen then None
      else if msg ! 0 \<noteq> wantType then None
      else if be_get (slice 4 6 msg) \<noteq> ident then None
      else Some (drop icmpEchoHeaderLen msg))"

section \<open>The carrier\<close>

record spoofConnOpts =
  o_token :: string
  o_uplink :: string
  o_downlink :: string
  o_realPeer :: bytes
  o_srcIP :: string
  o_srcPool :: "string list"
  o_replySplit :: bool
  o_peerSrc :: string
  o_mtu :: int
  o_dpi :: spoof_dpi

datatype spoof_error = peerNotIPv4 | sourceNotIPv4 string | peerSrcNotIPv4 string

fun spoof_sources :: "string list \<Rightarrow> spoof_error + bytes list" where
  "spoof_sources [] = Inr []"
| "spoof_sources (s # rest) =
     (let ip = (case ParseIP s of None \<Rightarrow> [] | Some ip \<Rightarrow> to4 ip) in
      if ip = [] then Inl (sourceNotIPv4 s)
      else case spoof_sources rest of Inl e \<Rightarrow> Inl e | Inr ips \<Rightarrow> Inr (ip # ips))"

definition parseSpoofPool :: "string \<Rightarrow> string list \<Rightarrow> spoof_error + bytes list" where
  "parseSpoofPool srcIP pool = spoof_sources (if pool = [] \<and> srcIP \<noteq> [] then [srcIP] else pool)"

record spoofConn =
  sc_sendProfile :: string
  sc_recvProfile :: string
  sc_udpRecv :: bool
  sc_server :: bool
  sc_port :: u16
  sc_realPeer :: bytes
  sc_spoofSrcs :: "bytes list"
  sc_mtu :: int
  sc_sendICMPType :: byte
  sc_recvICMPType :: byte
  sc_expectSrc :: "bytes option"
  sc_dpi :: spoof_dpi
  sc_rot :: u32
  sc_tcpSeq :: u32
  sc_icmpSeq :: u32

definition defaultSpoofMTU :: int where "defaultSpoofMTU = 1500"

text \<open>The state of a carrier once its options are checked. \<open>xdp\<close> says whether the XDP receiver was asked for
  and attached, in which case there is no UDP receive socket.\<close>

definition spoof_state ::
  "(string \<Rightarrow> bytes) \<Rightarrow> bool \<Rightarrow> bool \<Rightarrow> spoofConnOpts \<Rightarrow> bytes list \<Rightarrow> bytes option \<Rightarrow> spoofConn" where
  "spoof_state sha xdp server opt srcs expect =
     (let sendP = (if server then o_downlink opt else o_uplink opt);
          recvP = (if server then o_uplink opt else o_downlink opt)
      in \<lparr>sc_sendProfile = sendP, sc_recvProfile = recvP,
          sc_udpRecv = (\<not> xdp \<and> recvP = SpoofProfileUDP), sc_server = server,
          sc_port = snd (spoofIdentity sha (o_token opt)), sc_realPeer = to4 (o_realPeer opt), sc_spoofSrcs = srcs,
          sc_mtu = (if o_mtu opt \<le> 20 + int (profileL4Len SpoofProfileTCP) then defaultSpoofMTU else o_mtu opt),
          sc_sendICMPType = (if o_replySplit opt \<and> server then snd (icmpEchoTypes sendP) else fst (icmpEchoTypes sendP)),
          sc_recvICMPType = (if o_replySplit opt \<and> \<not> server then snd (icmpEchoTypes recvP) else fst (icmpEchoTypes recvP)),
          sc_expectSrc = expect, sc_dpi = o_dpi opt, sc_rot = 0, sc_tcpSeq = 0, sc_icmpSeq = 0\<rparr>)"

text \<open>\<open>localSrc\<close> is the address \<open>localSourceToward\<close> finds.\<close>

definition newSpoofConn :: "(string \<Rightarrow> bytes) \<Rightarrow> bytes \<Rightarrow> bool \<Rightarrow> bool \<Rightarrow> spoofConnOpts \<Rightarrow> spoof_error + spoofConn" where
  "newSpoofConn sha localSrc xdp server opt =
     (if to4 (o_realPeer opt) = [] then Inl peerNotIPv4
      else case parseSpoofPool (o_srcIP opt) (o_srcPool opt) of
             Inl e \<Rightarrow> Inl e
           | Inr srcs \<Rightarrow>
               let state = spoof_state sha xdp server opt (if srcs = [] then [localSrc] else srcs) in
               if o_peerSrc opt = [] then Inr (state None)
               else let expect = (case ParseIP (o_peerSrc opt) of None \<Rightarrow> [] | Some ip \<Rightarrow> to4 ip) in
                    if expect = [] then Inl (peerSrcNotIPv4 (o_peerSrc opt)) else Inr (state (Some expect)))"

definition sourceFor :: "spoofConn \<Rightarrow> spoofConn \<times> bytes" where
  "sourceFor c = (c\<lparr>sc_rot := sc_rot c + 1\<rparr>, sc_spoofSrcs c ! (unat (sc_rot c + 1 - 1) mod length (sc_spoofSrcs c)))"

text \<open>The random draws of one write, and a packet as it leaves: the fields of \<open>ipv4.Header\<close> and its body.\<close>

record draws =
  r_pad :: nat
  r_fill :: "nat \<Rightarrow> byte"
  r_port :: nat
  r_id :: u16
  r_ttl :: nat
  r_dscp :: nat

record ip_packet =
  ip_TOS :: byte
  ip_TotalLen :: nat
  ip_ID :: u16
  ip_More :: bool
  ip_FragOff :: nat
  ip_TTL :: byte
  ip_Protocol :: byte
  ip_Src :: bytes
  ip_Dst :: bytes
  ip_Body :: bytes

definition obfuscate :: "draws \<Rightarrow> spoofConn \<Rightarrow> bytes \<Rightarrow> bytes" where
  "obfuscate r c p =
     (let body = (if d_Padding (sc_dpi c) then applyPadding p (r_pad r) (r_fill r) else p)
      in if d_FakeTLS (sc_dpi c) \<and> sc_sendProfile c = SpoofProfileTCP then applyFakeTLS body else body)"

definition wrap_shim :: "draws \<Rightarrow> spoofConn \<Rightarrow> bytes \<Rightarrow> bytes \<Rightarrow> spoofConn \<times> bytes" where
  "wrap_shim r c src body =
     (let srcPort = pickSrcPort (sc_dpi c) (r_port r) (sc_port c); profile = sc_sendProfile c in
      if isICMPFamily profile then
        (let c = c\<lparr>sc_icmpSeq := sc_icmpSeq c + 1\<rparr> in (c, buildICMPEcho (sc_sendICMPType c) (sc_port c) (ucast (sc_icmpSeq c)) body))
      else if profile = SpoofProfileTCP then
        (let (seq', seq) = nextTCPSeq (sc_tcpSeq c) (length body)
         in (c\<lparr>sc_tcpSeq := seq'\<rparr>, buildTCPShimPorts srcPort (sc_port c) seq src (sc_realPeer c) body))
      else if profile = SpoofProfileIPIP \<or> profile = SpoofProfileProto58 then (c, body)
      else if profile = SpoofProfileGRE then (c, buildGREShim body)
      else (c, buildUDPShimPorts srcPort (sc_port c) src (sc_realPeer c) body))"

text \<open>\<open>wr\<close> is the outcome of each write; the first failure ends the send. The flag says whether all went out.\<close>

fun send_frags :: "(ip_packet \<Rightarrow> bool) \<Rightarrow> (spoofFragRange \<Rightarrow> ip_packet) \<Rightarrow> spoofFragRange list \<Rightarrow> ip_packet list \<times> bool" where
  "send_frags wr packet [] = ([], True)"
| "send_frags wr packet (f # fs) =
     (if \<not> wr (packet f) then ([], False)
      else let (pkts, ok) = send_frags wr packet fs in (packet f # pkts, ok))"

definition sendIP :: "(ip_packet \<Rightarrow> bool) \<Rightarrow> draws \<Rightarrow> spoofConn \<Rightarrow> bytes \<Rightarrow> byte \<Rightarrow> bytes \<Rightarrow> ip_packet list \<times> bool" where
  "sendIP wr r c src proto shim =
     send_frags wr (\<lambda>f. \<lparr>ip_TOS = pickDSCP (sc_dpi c) (r_dscp r), ip_TotalLen = 20 + (fr_end f - fr_off f), ip_ID = r_id r,
                        ip_More = fr_more f, ip_FragOff = fr_off f div 8, ip_TTL = pickTTL (sc_dpi c) (r_ttl r),
                        ip_Protocol = proto, ip_Src = src, ip_Dst = sc_realPeer c, ip_Body = slice (fr_off f) (fr_end f) shim\<rparr>)
       (spoofFragments (length shim) (sc_mtu c))"

text \<open>The last component is the byte count \<open>WriteTo\<close> returns, \<open>None\<close> with its error.\<close>

definition spoof_WriteTo :: "(ip_packet \<Rightarrow> bool) \<Rightarrow> draws \<Rightarrow> spoofConn \<Rightarrow> bytes \<Rightarrow> spoofConn \<times> ip_packet list \<times> nat option" where
  "spoof_WriteTo wr r c p =
     (let (c, src) = sourceFor c;
          (c, shim) = wrap_shim r c src (obfuscate r c p);
          (pkts, ok) = sendIP wr r c src (ipProtocol (sc_sendProfile c)) shim
      in (c, pkts, if ok then Some (length p) else None))"

definition undoDPI :: "spoof_dpi \<Rightarrow> string \<Rightarrow> bytes \<Rightarrow> bytes option" where
  "undoDPI d profile inner =
     (case (if d_FakeTLS d \<and> profile = SpoofProfileTCP then stripFakeTLS inner else Some inner) of
        None \<Rightarrow> None
      | Some inner \<Rightarrow> if d_Padding d then stripPadding inner else Some inner)"

text \<open>One packet of the receive loop: \<open>None\<close> where the code continues with the next. On the UDP socket
  \<open>payload\<close> is what the kernel left of it, elsewhere the whole segment.\<close>

definition spoof_strip :: "spoofConn \<Rightarrow> bytes \<Rightarrow> bytes option" where
  "spoof_strip c payload =
     (let profile = sc_recvProfile c in
      if sc_udpRecv c then Some payload
      else if isICMPFamily profile then parseICMPEcho (sc_recvICMPType c) (sc_port c) payload
      else if profile = SpoofProfileIPIP \<or> profile = SpoofProfileProto58 then Some payload
      else if profile = SpoofProfileGRE then stripGREShim payload
      else stripSpoofShim profile (sc_port c) payload)"

definition spoof_ReadFrom :: "spoofConn \<Rightarrow> bytes \<Rightarrow> bytes \<Rightarrow> nat \<Rightarrow> (bytes \<times> bytes) option" where
  "spoof_ReadFrom c src payload cap =
     (if (case sc_expectSrc c of None \<Rightarrow> False | Some e \<Rightarrow> to4 src \<noteq> e) then None
      else case spoof_strip c payload of
             None \<Rightarrow> None
           | Some inner \<Rightarrow>
               (case undoDPI (sc_dpi c) (sc_recvProfile c) inner of
                  None \<Rightarrow> None
                | Some inner \<Rightarrow> if inner = [] then None else Some (take cap inner, sc_realPeer c)))"

section \<open>The kernel between two ends\<close>

text \<open>What the receiving host does with the packets of one segment. Reassembly puts each body at its offset,
  refuses gaps and waits for the last one; for a UDP socket the kernel checks destination port,
  length and checksum and removes the header.\<close>

fun reassemble_from :: "bytes \<Rightarrow> ip_packet list \<Rightarrow> bytes option" where
  "reassemble_from acc [] = None"
| "reassemble_from acc (k # ks) =
     (if 8 * ip_FragOff k \<noteq> length acc then None
      else if \<not> ip_More k then (if ks = [] then Some (acc @ ip_Body k) else None)
      else reassemble_from (acc @ ip_Body k) ks)"

definition socket_view :: "spoofConn \<Rightarrow> bytes \<Rightarrow> bytes \<Rightarrow> bytes \<Rightarrow> bytes option" where
  "socket_view c src dst seg =
     (if \<not> sc_udpRecv c then Some seg
      else if length seg < 8 \<or> be_get (slice 2 4 seg) \<noteq> sc_port c \<or> unat (be_get (slice 4 6 seg) :: u16) \<noteq> length seg \<or>
              l4Checksum src dst 17 seg \<noteq> 0 then None
      else Some (drop 8 seg))"

section \<open>What is wrapped is unwrapped\<close>

lemma strip_padding: "r < 255 \<Longrightarrow> stripPadding (applyPadding p r fill) = Some p"
proof -
  assume "r < 255"
  then have "unat (word_of_nat (Suc r) :: byte) = Suc r" by (simp only: unat_of_nat) simp
  then show ?thesis by (simp add: stripPadding_def applyPadding_def del: of_nat_Suc)
qed

lemma strip_tls: "stripFakeTLS (applyFakeTLS p) = Some p"
  by (simp add: stripFakeTLS_def applyFakeTLS_def tlsFakeHeaderLen_def)

lemma pad_max_less: "r < pad_max m \<Longrightarrow> r < 255"
  using unat_byte_less [of m] by (auto simp: pad_max_def split: if_splits simp del: unat_byte_less)

lemma undo_obfuscate:
  assumes "r_pad r < 255" "d_Padding d = d_Padding (sc_dpi c)" "d_FakeTLS d = d_FakeTLS (sc_dpi c)"
  shows "undoDPI d (sc_sendProfile c) (obfuscate r c p) = Some p"
  using assms by (simp add: undoDPI_def obfuscate_def strip_tls strip_padding Let_def)

lemma parse_echo: "parseICMPEcho t ident (buildICMPEcho t ident seq body) = Some body"
  by (simp add: parseICMPEcho_def buildICMPEcho_def Let_def copy_simps icmpEchoHeaderLen_def slice_def)

lemma strip_gre: "stripGREShim (buildGREShim body) = Some body"
  by (simp add: stripGREShim_def buildGREShim_def greHeaderLen_def)

lemma udp_shim_eq:
  "\<exists>ck :: u16. buildUDPShimPorts sp dp src dst body =
     be_put 2 sp @ be_put 2 dp @ be_put 2 (word_of_nat (8 + length body) :: u16) @ be_put 2 ck @ body"
  by (auto simp: buildUDPShimPorts_def Let_def copy_simps)

lemma strip_udp: "profile \<noteq> SpoofProfileTCP \<Longrightarrow> stripSpoofShim profile dp (buildUDPShimPorts sp dp src dst body) = Some body"
  using udp_shim_eq [of sp dp src dst body] by (auto simp: stripSpoofShim_def slice_def)

lemma strip_tcp: "stripSpoofShim SpoofProfileTCP dp (buildTCPShimPorts sp dp seq src dst body) = Some body"
  by (simp add: stripSpoofShim_def buildTCPShimPorts_def Let_def copy_simps slice_def nth_append)

text \<open>The UDP checksum verifies too, also when the computed one is 0 and 0xffff is sent instead.\<close>

lemma udp_checksum:
  assumes "8 + length body < 65536"
  shows "l4Checksum src dst 17 (buildUDPShimPorts sp dp src dst body) = 0"
proof -
  let ?pre = "be_put 2 sp @ be_put 2 dp @ be_put 2 (word_of_nat (8 + length body) :: u16)"
  let ?b = "?pre @ [0, 0] @ body"
  let ?ps = "pseudo src dst 17 ?b"
  let ?c = "onesComplement [?ps, ?b]"
  have n: "nsum ?ps + nsum ?b + 65535 < 2 ^ 32"
    using nsum_pseudo [of src dst 17 ?b] nsum_bound [of ?b] assms by simp
  have shim: "buildUDPShimPorts sp dp src dst body = ?pre @ be_put 2 (if ?c = 0 then 0xffff else ?c) @ body"
    by (simp add: buildUDPShimPorts_def Let_def copy_simps l4Checksum_def)
  have e: "even (length ?pre)" by simp
  show ?thesis
  proof (cases "?c = 0")
    case True
    have "onesComplement [?ps, ?pre @ be_put 2 (0xffff :: u16) @ body] = 0"
      using checksum_zero_verifies [OF e n True] .
    then show ?thesis using True by (simp add: shim l4Checksum_def pseudo_def)
  next
    case False
    then show ?thesis using checksum_verifies [OF e n] by (simp add: shim l4Checksum_def pseudo_def)
  qed
qed

section \<open>Fragments tile\<close>

text \<open>The ranges cover \<open>[off, n)\<close> in order without gap or overlap, each but the last ends on a multiple of 8
  and announces more.\<close>

fun tiles :: "nat \<Rightarrow> nat \<Rightarrow> spoofFragRange list \<Rightarrow> bool" where
  "tiles n off [] \<longleftrightarrow> False"
| "tiles n off [f] \<longleftrightarrow> fr_off f = off \<and> fr_end f = n \<and> off \<le> n \<and> \<not> fr_more f"
| "tiles n off (f # g # fs) \<longleftrightarrow>
     fr_off f = off \<and> off < fr_end f \<and> fr_end f < n \<and> 8 dvd fr_end f \<and> fr_more f \<and> tiles n (fr_end f) (g # fs)"

lemma frag_loop_tiles:
  assumes "8 dvd md" "0 < md"
  shows "8 dvd off \<Longrightarrow> off < n \<Longrightarrow>
    tiles n off (frag_loop n md off) \<and> (\<forall>f \<in> set (frag_loop n md off). fr_end f - fr_off f \<le> md)"
proof (induction "n - off" arbitrary: off rule: less_induct)
  case less
  have step: "frag_loop n md off =
      \<lparr>fr_off = off, fr_end = min (off + md) n, fr_more = (min (off + md) n < n)\<rparr> # frag_loop n md (off + md)"
    using less.prems assms(2) by (subst frag_loop.simps) (simp add: Let_def)
  show ?case
  proof (cases "off + md < n")
    case True
    obtain g gs where g: "frag_loop n md (off + md) = g # gs"
      using True assms(2) by (subst (asm) frag_loop.simps) (simp add: Let_def)
    show ?thesis using less.hyps [of "off + md"] less.prems True assms unfolding step g by auto
  next
    case False
    have "frag_loop n md (off + md) = []" using False by (subst frag_loop.simps) simp
    then show ?thesis using False less.prems unfolding step by (simp add: min_def)
  qed
qed

lemma spoofFragments_tile:
  assumes "28 \<le> mtu"
  shows "tiles n 0 (spoofFragments n mtu) \<and> (\<forall>f \<in> set (spoofFragments n mtu). 20 + int (fr_end f - fr_off f) \<le> mtu)"
proof (cases "20 + int n \<le> mtu")
  case True
  then show ?thesis by (simp add: spoofFragments_def)
next
  case False
  let ?md = "(mtu - 20) div 8 * 8"
  have m: "8 \<le> ?md" "?md \<le> mtu - 20" using assms by presburger+
  have d: "8 dvd nat ?md" using m by (simp add: nat_mult_distrib)
  have "tiles n 0 (frag_loop n (nat ?md) 0) \<and> (\<forall>f \<in> set (frag_loop n (nat ?md) 0). fr_end f - fr_off f \<le> nat ?md)"
    using frag_loop_tiles [OF d, of 0 n] m assms False by simp
  moreover have "spoofFragments n mtu = frag_loop n (nat ?md) 0" using False m by (simp add: spoofFragments_def)
  ultimately show ?thesis using m by fastforce
qed

lemma tiles_reassemble:
  assumes "\<And>f. ip_FragOff (pk f) = fr_off f div 8" "\<And>f. ip_More (pk f) = fr_more f" "\<And>f. ip_Body (pk f) = slice (fr_off f) (fr_end f) xs"
  shows "tiles (length xs) off fs \<Longrightarrow> 8 dvd off \<Longrightarrow> reassemble_from (take off xs) (map pk fs) = Some xs"
proof (induction "length xs" off fs rule: tiles.induct)
  case (2 off f)
  then show ?case using assms slice_take_drop [of off "length xs" xs] by simp
next
  case (3 off f g fs)
  have "take off xs @ slice off (fr_end f) xs = take (fr_end f) xs" using "3.prems" by (simp add: slice_take_drop)
  moreover have "length (take off xs) = off" using "3.prems" by simp
  ultimately show ?case using "3.hyps" "3.prems" assms by simp
qed simp

lemma send_frags_all: "send_frags wr pk fs = (pkts, True) \<Longrightarrow> pkts = map pk fs"
  by (induction fs arbitrary: pkts) (auto split: if_splits prod.splits)

section \<open>From one end to the other\<close>

text \<open>What the receiver must share with the sender.\<close>

definition ends_match :: "spoofConn \<Rightarrow> spoofConn \<Rightarrow> bool" where
  "ends_match c d \<longleftrightarrow> sc_recvProfile d = sc_sendProfile c \<and> sc_port d = sc_port c \<and>
     (isICMPFamily (sc_sendProfile c) \<longrightarrow> sc_recvICMPType d = sc_sendICMPType c) \<and>
     d_Padding (sc_dpi d) = d_Padding (sc_dpi c) \<and> d_FakeTLS (sc_dpi d) = d_FakeTLS (sc_dpi c) \<and>
     (sc_udpRecv d \<longrightarrow> sc_sendProfile c = SpoofProfileUDP)"

lemma newSpoofConn_state:
  assumes "newSpoofConn sha l x b opt = Inr c"
  obtains srcs e where "c = spoof_state sha x b opt srcs e" "srcs \<noteq> []"
proof (cases "parseSpoofPool (o_srcIP opt) (o_srcPool opt)")
  case (Inl e)
  then show ?thesis using assms by (simp add: newSpoofConn_def split: if_splits)
next
  case (Inr srcs)
  then have "\<exists>e. c = spoof_state sha x b opt (if srcs = [] then [l] else srcs) e"
    using assms by (auto simp: newSpoofConn_def Let_def simp del: if_split split: if_split_asm)
  then show ?thesis by (auto intro: that split: if_splits)
qed

lemma newSpoofConn_match:
  assumes "newSpoofConn sha l x b opt = Inr c" "newSpoofConn sha l' x' (\<not> b) opt' = Inr d"
    and "o_token opt' = o_token opt" "o_uplink opt' = o_uplink opt" "o_downlink opt' = o_downlink opt"
      "o_replySplit opt' = o_replySplit opt" "o_dpi opt' = o_dpi opt"
  shows "ends_match c d \<and> 41 \<le> sc_mtu c \<and> sc_spoofSrcs c \<noteq> [] \<and> sc_dpi c = o_dpi opt"
proof -
  obtain srcs e srcs' e' where c: "c = spoof_state sha x b opt srcs e" "srcs \<noteq> []"
    and d: "d = spoof_state sha x' (\<not> b) opt' srcs' e'"
    using newSpoofConn_state [OF assms(1)] newSpoofConn_state [OF assms(2)] by metis
  show ?thesis unfolding c(1) d using assms(3-) c(2)
    by (simp add: ends_match_def spoof_state_def Let_def profileL4Len_def defaultSpoofMTU_def)
qed

lemma profiles_apart:
  "\<not> isICMPFamily SpoofProfileUDP" "SpoofProfileUDP \<noteq> SpoofProfileTCP" "SpoofProfileUDP \<noteq> SpoofProfileIPIP"
  "SpoofProfileUDP \<noteq> SpoofProfileProto58" "SpoofProfileUDP \<noteq> SpoofProfileGRE"
  "SpoofProfileTCP \<noteq> SpoofProfileIPIP" "SpoofProfileTCP \<noteq> SpoofProfileProto58" "SpoofProfileTCP \<noteq> SpoofProfileGRE"
  by (simp_all add: isICMPFamily_def profile_defs)

lemma shim_crosses:
  assumes m: "ends_match c d" and w: "wrap_shim r c src body = (c', shim)" and len: "8 + length body < 65536"
  shows "\<exists>payload. socket_view d src (sc_realPeer c) shim = Some payload \<and> spoof_strip d payload = Some body"
proof (cases "sc_udpRecv d")
  case True
  then have p: "sc_sendProfile c = SpoofProfileUDP" using m by (simp add: ends_match_def)
  let ?s = "buildUDPShimPorts (pickSrcPort (sc_dpi c) (r_port r) (sc_port c)) (sc_port c) src (sc_realPeer c) body"
  have s: "shim = ?s" using w p profiles_apart by (auto simp: wrap_shim_def Let_def)
  obtain ck :: u16 where e: "?s = be_put 2 (pickSrcPort (sc_dpi c) (r_port r) (sc_port c)) @ be_put 2 (sc_port c) @
      be_put 2 (word_of_nat (8 + length body) :: u16) @ be_put 2 ck @ body"
    using udp_shim_eq by blast
  have l: "unat (be_get (be_put 2 (word_of_nat (8 + length body) :: u16)) :: u16) = 8 + length body"
    unfolding be_get_put16 by (rule unat_of_nat16 [OF len])
  have f: "slice 2 4 ?s = be_put 2 (sc_port c)" "slice 4 6 ?s = be_put 2 (word_of_nat (8 + length body) :: u16)"
    "length ?s = 8 + length body" "drop 8 ?s = body"
    unfolding e by (simp_all add: slice_def)
  have "socket_view d src (sc_realPeer c) ?s = Some body"
    unfolding socket_view_def f l using True m udp_checksum [OF len] by (simp add: ends_match_def)
  then show ?thesis using True s by (simp add: spoof_strip_def)
next
  case False
  have d: "sc_recvProfile d = sc_sendProfile c" "sc_port d = sc_port c" using m by (simp_all add: ends_match_def)
  have "spoof_strip d shim = Some body"
  proof (cases "isICMPFamily (sc_sendProfile c)")
    case True
    then have "sc_recvICMPType d = sc_sendICMPType c" using m by (simp add: ends_match_def)
    then show ?thesis using w d False True by (auto simp: wrap_shim_def spoof_strip_def Let_def parse_echo)
  next
    case not_icmp: False
    show ?thesis
    proof (cases "sc_sendProfile c = SpoofProfileTCP")
      case True
      then show ?thesis using w d False not_icmp profiles_apart
        by (auto simp: wrap_shim_def spoof_strip_def Let_def strip_tcp split: prod.splits)
    next
      case not_tcp: False
      then show ?thesis using w d False not_icmp
        by (auto simp: wrap_shim_def spoof_strip_def Let_def strip_gre strip_udp split: if_splits)
    qed
  qed
  then show ?thesis using False by (simp add: socket_view_def)
qed

lemma wrap_keeps:
  "wrap_shim r c src body = (c', shim) \<Longrightarrow> sc_mtu c' = sc_mtu c \<and> sc_realPeer c' = sc_realPeer c"
  by (auto simp: wrap_shim_def Let_def split: if_splits prod.splits)

lemma sendIP_reassembles:
  assumes "sendIP wr r c src proto shim = (pkts, True)" "28 \<le> sc_mtu c"
  shows "reassemble_from [] pkts = Some shim \<and> pkts \<noteq> [] \<and>
    (\<forall>k \<in> set pkts. ip_Src k = src \<and> ip_Dst k = sc_realPeer c \<and> int (ip_TotalLen k) \<le> sc_mtu c)"
proof -
  let ?pk = "\<lambda>f. \<lparr>ip_TOS = pickDSCP (sc_dpi c) (r_dscp r), ip_TotalLen = 20 + (fr_end f - fr_off f), ip_ID = r_id r,
    ip_More = fr_more f, ip_FragOff = fr_off f div 8, ip_TTL = pickTTL (sc_dpi c) (r_ttl r), ip_Protocol = proto,
    ip_Src = src, ip_Dst = sc_realPeer c, ip_Body = slice (fr_off f) (fr_end f) shim\<rparr>"
  let ?fs = "spoofFragments (length shim) (sc_mtu c)"
  have p: "pkts = map ?pk ?fs" using assms(1) unfolding sendIP_def by (rule send_frags_all)
  note t = spoofFragments_tile [OF assms(2), of "length shim"]
  have "reassemble_from (take 0 shim) (map ?pk ?fs) = Some shim"
    using t by (intro tiles_reassemble) simp_all
  moreover have "?fs \<noteq> []" using t by auto
  ultimately show ?thesis using p t by auto
qed

lemma sourceFor_in: "sc_spoofSrcs c \<noteq> [] \<Longrightarrow> snd (sourceFor c) \<in> set (sc_spoofSrcs c)"
  by (simp add: sourceFor_def)

lemma obfuscate_length: "r_pad r < 255 \<Longrightarrow> length (obfuscate r c p) \<le> length p + 260"
  by (simp add: obfuscate_def applyPadding_def applyFakeTLS_def Let_def)

lemma WriteTo_crosses:
  assumes m: "ends_match c d" "28 \<le> sc_mtu c" "sc_spoofSrcs c \<noteq> []" and r: "r_pad r < 255"
    and p: "p \<noteq> []" "length p \<le> 65000"
    and e: "\<forall>s \<in> set (sc_spoofSrcs c). sc_expectSrc d = None \<or> sc_expectSrc d = Some (to4 s)"
    and w: "spoof_WriteTo wr r c p = (c', pkts, Some n)"
  shows "n = length p \<and> (\<forall>k \<in> set pkts. int (ip_TotalLen k) \<le> sc_mtu c) \<and>
    (\<exists>seg payload. reassemble_from [] pkts = Some seg \<and>
       socket_view d (ip_Src (hd pkts)) (ip_Dst (hd pkts)) seg = Some payload \<and>
       spoof_ReadFrom d (ip_Src (hd pkts)) payload cap = Some (take cap p, sc_realPeer d))"
proof -
  obtain c1 src where s: "sourceFor c = (c1, src)" by fastforce
  have c1: "c1 = c\<lparr>sc_rot := sc_rot c + 1\<rparr>" using s by (simp add: sourceFor_def)
  have src: "src \<in> set (sc_spoofSrcs c)" using sourceFor_in [OF m(3)] s by simp
  obtain c2 shim where x: "wrap_shim r c1 src (obfuscate r c1 p) = (c2, shim)" by fastforce
  have k: "sc_mtu c2 = sc_mtu c" "sc_realPeer c2 = sc_realPeer c" using wrap_keeps [OF x] c1 by simp_all
  obtain ok where i: "sendIP wr r c2 src (ipProtocol (sc_sendProfile c2)) shim = (pkts, ok)" and n: "n = length p" "ok"
    using w s x by (auto simp: spoof_WriteTo_def split: prod.splits if_splits)
  note a = sendIP_reassembles [OF i [unfolded eqTrueI [OF n(2)]]]
  have h: "hd pkts \<in> set pkts" "ip_Src (hd pkts) = src" "ip_Dst (hd pkts) = sc_realPeer c1"
    using a k m(2) c1 by simp_all
  have m1: "ends_match c1 d" using m(1) c1 by (simp add: ends_match_def)
  have "8 + length (obfuscate r c1 p) < 65536" using obfuscate_length [OF r, of c1 p] p(2) by simp
  then obtain payload where v: "socket_view d src (sc_realPeer c1) shim = Some payload" "spoof_strip d payload = Some (obfuscate r c1 p)"
    using shim_crosses [OF m1 x] by blast
  have "undoDPI (sc_dpi d) (sc_recvProfile d) (obfuscate r c1 p) = Some p"
    using undo_obfuscate [OF r, of "sc_dpi d" c1] m1 by (simp add: ends_match_def)
  then have "spoof_ReadFrom d src payload cap = Some (take cap p, sc_realPeer d)"
    using v(2) e src p(1) by (auto simp: spoof_ReadFrom_def split: option.splits)
  then show ?thesis using a h v(1) n(1) k m(2) by auto
qed

section \<open>Properties\<close>

text \<open>Fragments tile: whatever the segment and the MTU, the ranges cover the segment in order with no gap
  and no overlap, every fragment but the last ends on a multiple of eight bytes and announces more,
  and none is larger than the MTU with its header.\<close>

theorem fragments_tile:
  assumes "28 \<le> mtu"
  shows "tiles segLen 0 (spoofFragments segLen mtu) \<and>
    (\<forall>f \<in> set (spoofFragments segLen mtu). 20 + int (fr_end f - fr_off f) \<le> mtu)"
  by (rule spoofFragments_tile [OF assms])

theorem fragments_tile_witness: "tiles 4000 0 (spoofFragments 4000 1500)"
  by (rule conjunct1 [OF fragments_tile]) simp


definition demo_opts :: "bytes \<Rightarrow> spoofConnOpts" where
  "demo_opts peer = \<lparr>o_token = ''secret'', o_uplink = SpoofProfileTCP, o_downlink = SpoofProfileICMP, o_realPeer = peer,
     o_srcIP = [], o_srcPool = [], o_replySplit = True, o_peerSrc = [], o_mtu = 0,
     o_dpi = \<lparr>d_TTLJitter = True, d_RandomDSCP = False, d_ShufflePort = True, d_PortMin = 0, d_PortMax = 0, d_Padding = True,
       d_PaddingMax = 0, d_FakeTLS = True\<rparr>\<rparr>"

definition demo_sha :: "string \<Rightarrow> bytes" where "demo_sha t = replicate 32 77"

definition demo_draws :: draws where
  "demo_draws = \<lparr>r_pad = 9, r_fill = (\<lambda>_. 5), r_port = 12, r_id = 1, r_ttl = 2, r_dscp = 0\<rparr>"

lemma demo_conns:
  "newSpoofConn demo_sha [10, 0, 0, 1] False b (demo_opts [10, 0, 0, 2]) =
     Inr (spoof_state demo_sha False b (demo_opts [10, 0, 0, 2]) [[10, 0, 0, 1]] None)"
  by (simp add: newSpoofConn_def demo_opts_def parseSpoofPool_def to4_def)

lemma send_frags_True: "snd (send_frags (\<lambda>_. True) pk fs)"
  by (induction fs) (auto simp: case_prod_beta)


end
