(* ===== verification/NoiseConn.thy ===== *)
theory NoiseConn
  imports Prelude
begin

text \<open>
  The stealth transport (\<open>internal/utils/network/noise.go\<close>): the length-prefixed frames, the version
  negotiation inside the handshake payloads, and the padded record layer over a byte stream.

  The Noise library is a parameter. Its handshake messages are functions of opaque states, its cipher
  states are opaque values that every record advances; what is relied on is named in \<open>noise_lib_ok\<close> and
  \<open>records_ok\<close>. The raw connection is the list of bytes on it: a write is given by its outcome, a read
  that runs out of bytes is an error, as on a closed connection. Deadlines and locks are left out.
\<close>

section \<open>Frames\<close>

datatype noise_error = messageTooLarge nat | writeFailed | readFailed | emptyFrame | handshakeRejected
  | recordNotAuthentic | encryptFailed | paddedRecordEmpty | paddingTooLong nat nat

definition writeNoiseFrame :: "bytes \<Rightarrow> noise_error + bytes" where
  "writeNoiseFrame msg =
     (if 65535 < length msg then Inl (messageTooLarge (length msg))
      else Inr (be_put 2 (word_of_nat (length msg) :: u16) @ msg))"

definition readNoiseFrame :: "bytes \<Rightarrow> noise_error + bytes \<times> bytes" where
  "readNoiseFrame src =
     (if length src < 2 then Inl readFailed
      else let n = unat (be_get (take 2 src) :: u16) in
           if n = 0 then Inl emptyFrame
           else if length (drop 2 src) < n then Inl readFailed
           else Inr (take n (drop 2 src), drop n (drop 2 src)))"

section \<open>The record layer\<close>

definition noiseMaxPayload :: nat where "noiseMaxPayload = 65535 - 16"
definition noiseVersion :: byte where "noiseVersion = 1"
definition noiseVersionPadding :: byte where "noiseVersionPadding = 1"
definition noiseMaxPad :: nat where "noiseMaxPad = 255"
definition noisePaddedMaxPayload :: nat where "noisePaddedMaxPayload = noiseMaxPayload - 1 - noiseMaxPad"

lemmas noise_consts = noiseMaxPayload_def noiseMaxPad_def noisePaddedMaxPayload_def

text \<open>\<open>nc_padBuf\<close> is the reused buffer to its full capacity.\<close>

record 'k noiseConn =
  nc_pad :: bool
  nc_send :: 'k
  nc_padBuf :: bytes
  nc_recv :: 'k
  nc_readBuf :: bytes

text \<open>\<open>padLen\<close> is the result of \<open>rand.IntN(noiseMaxPad + 1)\<close>. The buffer is grown, cut to size, written from the
  front, and its tail cleared.\<close>

definition plaintext :: "nat \<Rightarrow> bytes \<Rightarrow> 'k noiseConn \<Rightarrow> 'k noiseConn \<times> bytes" where
  "plaintext padLen chunk c =
     (if \<not> nc_pad c then (c, chunk)
      else let need = 1 + length chunk + padLen;
               buf = (if length (nc_padBuf c) < need then replicate need 0 else nc_padBuf c);
               view = take need buf;
               view = copy_at 0 [word_of_nat padLen] view;
               view = copy_at 1 chunk view;
               view = copy_at (1 + length chunk) (replicate (length view - (1 + length chunk)) 0) view
           in (c\<lparr>nc_padBuf := view @ drop need buf\<rparr>, view))"

definition unpad :: "'k noiseConn \<Rightarrow> bytes \<Rightarrow> noise_error + bytes" where
  "unpad c plain =
     (if \<not> nc_pad c then Inr plain
      else if length plain < 1 then Inl paddedRecordEmpty
      else let padLen = unat (plain ! 0) in
           if length plain < 1 + padLen then Inl (paddingTooLong padLen (length plain))
           else Inr (slice 1 (length plain - padLen) plain))"

definition record_limit :: "'k noiseConn \<Rightarrow> nat" where
  "record_limit c = (if nc_pad c then noisePaddedMaxPayload else noiseMaxPayload)"

text \<open>The loop of \<open>Write\<close>: \<open>pads\<close> are the draws still to come, \<open>wr\<close> the outcome of writing a frame. The result
  is the connection, what went onto the wire, the count of bytes written and the error, if any.\<close>

function noise_write_loop ::
  "('k \<Rightarrow> bytes \<Rightarrow> ('k \<times> bytes) option) \<Rightarrow> (bytes \<Rightarrow> bool) \<Rightarrow> (nat \<Rightarrow> nat) \<Rightarrow> nat \<Rightarrow> 'k noiseConn \<Rightarrow> bytes \<Rightarrow> nat \<Rightarrow>
   'k noiseConn \<times> bytes \<times> nat \<times> noise_error option" where
  "noise_write_loop enc wr pads j c p written =
     (if p = [] then (c, [], written, None)
      else
        let chunk = take (record_limit c) p;
            (c1, plain) = plaintext (pads j) chunk c
        in case enc (nc_send c1) plain of
             None \<Rightarrow> (c1, [], written, Some encryptFailed)
           | Some (k, e) \<Rightarrow>
               let c2 = c1\<lparr>nc_send := k\<rparr> in
               (case writeNoiseFrame e of
                  Inl err \<Rightarrow> (c2, [], written, Some err)
                | Inr frame \<Rightarrow>
                    if \<not> wr frame then (c2, [], written, Some writeFailed)
                    else let (c3, out, n, err) =
                           noise_write_loop enc wr pads (j + 1) c2 (drop (length chunk) p) (written + length chunk)
                         in (c3, frame @ out, n, err)))"
  by pat_completeness auto
termination
  by (relation "measure (\<lambda>(_, _, _, _, _, p, _). length p)") (auto simp: record_limit_def noise_consts)

declare noise_write_loop.simps [simp del]

definition noise_Write ::
  "('k \<Rightarrow> bytes \<Rightarrow> ('k \<times> bytes) option) \<Rightarrow> (bytes \<Rightarrow> bool) \<Rightarrow> (nat \<Rightarrow> nat) \<Rightarrow> 'k noiseConn \<Rightarrow> bytes \<Rightarrow>
   'k noiseConn \<times> bytes \<times> nat \<times> noise_error option" where
  "noise_Write enc wr pads c p = noise_write_loop enc wr pads 0 c p 0"

text \<open>The loop of \<open>Read\<close> that fills the buffer: it ends, since every frame takes bytes off the stream.\<close>

function noise_fill ::
  "('k \<Rightarrow> bytes \<Rightarrow> ('k \<times> bytes) option) \<Rightarrow> 'k noiseConn \<Rightarrow> bytes \<Rightarrow> 'k noiseConn \<times> bytes \<times> noise_error option" where
  "noise_fill dec c src =
     (if nc_readBuf c \<noteq> [] then (c, src, None)
      else case readNoiseFrame src of
             Inl err \<Rightarrow> (c, src, Some err)
           | Inr (frame, rest) \<Rightarrow>
               (case dec (nc_recv c) frame of
                  None \<Rightarrow> (c, rest, Some recordNotAuthentic)
                | Some (k, plain) \<Rightarrow>
                    let c1 = c\<lparr>nc_recv := k\<rparr> in
                    (case unpad c1 plain of
                       Inl err \<Rightarrow> (c1, rest, Some err)
                     | Inr data \<Rightarrow> noise_fill dec (c1\<lparr>nc_readBuf := data\<rparr>) rest)))"
  by pat_completeness auto
termination
  by (relation "measure (\<lambda>(_, _, src). length src)") (auto simp: readNoiseFrame_def Let_def split: if_splits)

declare noise_fill.simps [simp del]

definition noise_Read ::
  "('k \<Rightarrow> bytes \<Rightarrow> ('k \<times> bytes) option) \<Rightarrow> nat \<Rightarrow> 'k noiseConn \<Rightarrow> bytes \<Rightarrow> 'k noiseConn \<times> bytes \<times> (noise_error + bytes)" where
  "noise_Read dec cap c src =
     (case noise_fill dec c src of
        (c1, rest, Some err) \<Rightarrow> (c1, rest, Inl err)
      | (c1, rest, None) \<Rightarrow> (c1\<lparr>nc_readBuf := drop cap (nc_readBuf c1)\<rparr>, rest, Inr (take cap (nc_readBuf c1))))"

section \<open>The handshake\<close>

definition versionFromPayload :: "bytes \<Rightarrow> byte" where
  "versionFromPayload payload = (if payload = [] then 0 else payload ! 0)"

text \<open>The library's messages: the initiator writes the first and reads the second, the responder reads the first
  and writes the second; the last two yield the cipher states for the two directions.\<close>

record ('i, 'r, 'k) noise_lib =
  lib_write1 :: "'i \<Rightarrow> bytes \<Rightarrow> ('i \<times> bytes) option"
  lib_read1 :: "'r \<Rightarrow> bytes \<Rightarrow> ('r \<times> bytes) option"
  lib_write2 :: "'r \<Rightarrow> bytes \<Rightarrow> (bytes \<times> 'k \<times> 'k) option"
  lib_read2 :: "'i \<Rightarrow> bytes \<Rightarrow> (bytes \<times> 'k \<times> 'k) option"

definition new_conn :: "'k \<Rightarrow> 'k \<Rightarrow> byte \<Rightarrow> 'k noiseConn" where
  "new_conn send recv peerVersion =
     \<lparr>nc_pad = (noiseVersionPadding \<le> noiseVersion \<and> noiseVersionPadding \<le> peerVersion), nc_send = send, nc_padBuf = [],
      nc_recv = recv, nc_readBuf = []\<rparr>"

text \<open>The initiator until it waits, and from the reply on; the responder in one piece.\<close>

definition noise_hello :: "('i, 'r, 'k) noise_lib \<Rightarrow> 'i \<Rightarrow> noise_error + 'i \<times> bytes" where
  "noise_hello L i =
     (case lib_write1 L i [noiseVersion] of
        None \<Rightarrow> Inl encryptFailed
      | Some (i1, msg) \<Rightarrow> (case writeNoiseFrame msg of Inl e \<Rightarrow> Inl e | Inr frame \<Rightarrow> Inr (i1, frame)))"

definition noise_respond :: "('i, 'r, 'k) noise_lib \<Rightarrow> 'r \<Rightarrow> bytes \<Rightarrow> noise_error + bytes \<times> bytes \<times> 'k noiseConn" where
  "noise_respond L r src =
     (case readNoiseFrame src of
        Inl e \<Rightarrow> Inl e
      | Inr (msg, rest) \<Rightarrow>
          (case lib_read1 L r msg of
             None \<Rightarrow> Inl handshakeRejected
           | Some (r1, payload) \<Rightarrow>
               let peerVersion = versionFromPayload payload;
                   reply = (if 0 < peerVersion then [noiseVersion] else [])
               in case lib_write2 L r1 reply of
                    None \<Rightarrow> Inl encryptFailed
                  | Some (msg2, cs0, cs1) \<Rightarrow>
                      (case writeNoiseFrame msg2 of
                         Inl e \<Rightarrow> Inl e
                       | Inr frame \<Rightarrow> Inr (frame, rest, new_conn cs1 cs0 peerVersion))))"

definition noise_finish :: "('i, 'r, 'k) noise_lib \<Rightarrow> 'i \<Rightarrow> bytes \<Rightarrow> noise_error + bytes \<times> 'k noiseConn" where
  "noise_finish L i src =
     (case readNoiseFrame src of
        Inl e \<Rightarrow> Inl e
      | Inr (msg, rest) \<Rightarrow>
          (case lib_read2 L i msg of
             None \<Rightarrow> Inl handshakeRejected
           | Some (payload, cs0, cs1) \<Rightarrow> Inr (rest, new_conn cs0 cs1 (versionFromPayload payload))))"

section \<open>What the library promises\<close>

text \<open>A message written by one party is read by the other, if they share the token and the message is passed on
  unchanged, and then both hold the same two cipher states; messages are short and never empty.\<close>

definition noise_lib_ok :: "('i, 'r, 'k) noise_lib \<Rightarrow> 'i \<Rightarrow> 'r \<Rightarrow> bool" where
  "noise_lib_ok L i r \<longleftrightarrow>
     (\<forall>v. \<exists>i1 m1 r1. lib_write1 L i v = Some (i1, m1) \<and> lib_read1 L r m1 = Some (r1, v) \<and>
        m1 \<noteq> [] \<and> length m1 \<le> 48 + length v \<and>
        (\<forall>w. \<exists>m2 a b. lib_write2 L r1 w = Some (m2, a, b) \<and> lib_read2 L i1 m2 = Some (w, a, b) \<and>
           m2 \<noteq> [] \<and> length m2 \<le> 48 + length w))"

text \<open>A record decrypts under the state it was encrypted under, to the same next state, and is 16 bytes longer.\<close>

definition records_ok :: "('k \<Rightarrow> bytes \<Rightarrow> ('k \<times> bytes) option) \<Rightarrow> ('k \<Rightarrow> bytes \<Rightarrow> ('k \<times> bytes) option) \<Rightarrow> bool" where
  "records_ok enc dec \<longleftrightarrow> (\<forall>k p k' e. enc k p = Some (k', e) \<longrightarrow> dec k e = Some (k', p) \<and> length e = length p + 16)"

section \<open>Frames and records round trip\<close>

lemma frame_roundtrip:
  assumes "msg \<noteq> []" "length msg \<le> 65535"
  shows "readNoiseFrame ((be_put 2 (word_of_nat (length msg) :: u16) @ msg) @ rest) = Inr (msg, rest)"
proof -
  have "unat (word_of_nat (length msg) :: u16) = length msg" using assms(2) by (intro unat_of_nat16) simp
  then show ?thesis using assms(1) by (simp add: readNoiseFrame_def Let_def)
qed

text \<open>What goes into a padded record does not depend on what the reused buffer held.\<close>

lemma plaintext_eq:
  "snd (plaintext padLen chunk c) = (if nc_pad c then word_of_nat padLen # chunk @ replicate padLen 0 else chunk)"
proof (cases "nc_pad c")
  case True
  let ?need = "1 + length chunk + padLen"
  let ?buf = "if length (nc_padBuf c) < ?need then replicate ?need 0 else nc_padBuf c"
  have l: "length (take ?need ?buf) = ?need" by simp
  obtain b v where v: "take ?need ?buf = b # v"
  proof (cases "take ?need ?buf")
    case Nil
    show ?thesis using l unfolding Nil by simp
  qed
  have "length v = length chunk + padLen" using l unfolding v by simp
  then show ?thesis
    unfolding plaintext_def Let_def v using True by (simp add: copy_at_def)
qed (simp add: plaintext_def)

lemma plaintext_keeps [simp]:
  "nc_pad (fst (plaintext padLen chunk c)) = nc_pad c" "nc_send (fst (plaintext padLen chunk c)) = nc_send c"
  by (simp_all add: plaintext_def Let_def)

lemma unpad_plaintext:
  assumes "padLen \<le> 255" "nc_pad d = nc_pad c"
  shows "unpad d (snd (plaintext padLen chunk c)) = Inr chunk"
proof -
  have "unat (word_of_nat padLen :: byte) = padLen" using assms(1) by (simp add: unat_of_nat)
  then show ?thesis using assms(2) by (simp add: plaintext_eq unpad_def slice_def)
qed

section \<open>The stream a reader sees\<close>

text \<open>\<open>stream dec pad k src p k'\<close>: the bytes \<open>src\<close> are whole records that carry \<open>p\<close> and take the cipher state from
  \<open>k\<close> to \<open>k'\<close>.\<close>

inductive stream :: "('k \<Rightarrow> bytes \<Rightarrow> ('k \<times> bytes) option) \<Rightarrow> bool \<Rightarrow> 'k \<Rightarrow> bytes \<Rightarrow> bytes \<Rightarrow> 'k \<Rightarrow> bool" for dec pad where
  stream_end: "stream dec pad k [] [] k"
| stream_record: "dec k e = Some (k1, plain) \<Longrightarrow> (\<And>c. nc_pad c = pad \<Longrightarrow> unpad (c :: 'k noiseConn) plain = Inr data) \<Longrightarrow>
    e \<noteq> [] \<Longrightarrow> length e \<le> 65535 \<Longrightarrow> stream dec pad k1 src p k2 \<Longrightarrow>
    stream dec pad k ((be_put 2 (word_of_nat (length e) :: u16) @ e) @ src) (data @ p) k2"

inductive_cases stream_NilE: "stream dec pad k [] p k'"

lemma stream_append:
  "stream dec pad k src p k1 \<Longrightarrow> stream dec pad k1 src' p' k2 \<Longrightarrow> stream dec pad k (src @ src') (p @ p') k2"
proof (induction rule: stream.induct)
  case (stream_record k e k1 plain data src p k2')
  from stream.stream_record [OF stream_record.hyps(1-4) stream_record.IH [OF stream_record.prems]] show ?case by simp
qed simp

lemma write_step:
  assumes "p \<noteq> []" "plaintext (pads j) (take (record_limit c) p) c = (c1, plain)"
  shows "noise_write_loop enc wr pads j c p written =
    (case enc (nc_send c1) plain of
       None \<Rightarrow> (c1, [], written, Some encryptFailed)
     | Some (k, e) \<Rightarrow>
         (case writeNoiseFrame e of
            Inl err \<Rightarrow> (c1\<lparr>nc_send := k\<rparr>, [], written, Some err)
          | Inr frame \<Rightarrow>
              if \<not> wr frame then (c1\<lparr>nc_send := k\<rparr>, [], written, Some writeFailed)
              else let (c3, out, n, err) =
                     noise_write_loop enc wr pads (j + 1) (c1\<lparr>nc_send := k\<rparr>) (drop (record_limit c) p)
                       (written + length (take (record_limit c) p))
                   in (c3, frame @ out, n, err)))"
proof -
  have "drop (length (take (record_limit c) p)) p = drop (record_limit c) p" by (simp add: min_def)
  then show ?thesis using assms
    by (subst noise_write_loop.simps) (simp only: Let_def if_False prod.case)
qed

lemma write_stream:
  assumes ok: "records_ok enc dec" and pads: "\<And>j. pads j \<le> 255"
  shows "noise_write_loop enc wr pads j c p written = (c', out, n, None) \<Longrightarrow>
    stream dec (nc_pad c) (nc_send c) out p (nc_send c') \<and> nc_pad c' = nc_pad c \<and> n = written + length p"
proof (induction "length p" arbitrary: j c p written c' out n rule: less_induct)
  case less
  show ?case
  proof (cases "p = []")
    case True
    then show ?thesis using less.prems stream.stream_end by (subst (asm) noise_write_loop.simps) simp
  next
    case False
    let ?chunk = "take (record_limit c) p"
    obtain c1 plain where pl: "plaintext (pads j) ?chunk c = (c1, plain)" by fastforce
    have c1: "nc_pad c1 = nc_pad c" "nc_send c1 = nc_send c" "plain = snd (plaintext (pads j) ?chunk c)"
      using plaintext_keeps [of "pads j" ?chunk c] pl by simp_all
    note step = write_step [where pads = pads and j = j, OF False pl, of enc wr written]
    obtain k e where e: "enc (nc_send c) plain = Some (k, e)"
      using less.prems c1(2) unfolding step by (cases "enc (nc_send c) plain") auto
    have d: "dec (nc_send c) e = Some (k, plain)" "length e = length plain + 16" using ok e by (auto simp: records_ok_def)
    have lim: "0 < record_limit c" "record_limit c \<le> 65535 - 16" by (simp_all add: record_limit_def noise_consts)
    have "length plain \<le> 65535 - 16"
      using pads [of j] lim unfolding c1(3) plaintext_eq by (auto simp: record_limit_def noise_consts)
    then have e65: "length e \<le> 65535" "e \<noteq> []" using d(2) by auto
    let ?frame = "be_put 2 (word_of_nat (length e) :: u16) @ e"
    have f: "writeNoiseFrame e = Inr ?frame" using e65 by (simp add: writeNoiseFrame_def)
    obtain out' where o: "out = ?frame @ out'"
      and rec: "noise_write_loop enc wr pads (j + 1) (c1\<lparr>nc_send := k\<rparr>) (drop (record_limit c) p) (written + length ?chunk) = (c', out', n, None)"
      using less.prems e c1(2) f unfolding step by (auto split: if_splits prod.splits)
    have "length (drop (record_limit c) p) < length p" using False lim by simp
    from less.hyps [OF this rec] have
      ih: "stream dec (nc_pad c) k out' (drop (record_limit c) p) (nc_send c')" "nc_pad c' = nc_pad c" "n = written + length p"
      using c1(1) by auto
    have u: "unpad x plain = Inr ?chunk" if "nc_pad x = nc_pad c" for x :: "'a noiseConn"
      unfolding c1(3) using unpad_plaintext [OF pads that] .
    from stream.stream_record [OF d(1) u e65(2,1) ih(1)] show ?thesis using ih(2,3) o by simp
  qed
qed

text \<open>Filling the buffer from such a stream: the next bytes, or the end of the connection when none are left.\<close>

lemma fill_stream:
  assumes "stream dec pad k src p k2"
  shows "nc_recv c = k \<Longrightarrow> nc_pad c = pad \<Longrightarrow> nc_readBuf c @ p \<noteq> [] \<Longrightarrow>
    \<exists>c1 src1 p1. noise_fill dec c src = (c1, src1, None) \<and> nc_readBuf c1 \<noteq> [] \<and> nc_readBuf c1 @ p1 = nc_readBuf c @ p \<and>
      stream dec pad (nc_recv c1) src1 p1 k2 \<and> nc_pad c1 = pad"
  using assms
proof (induction arbitrary: c rule: stream.induct)
  case (stream_end k)
  then show ?case
    using stream.stream_end [of dec pad k]
    by (intro exI [of _ c] exI [of _ "[]"] exI [of _ "[]"]) (simp add: noise_fill.simps)
next
  case (stream_record k e k1 plain data src p k2)
  let ?src = "(be_put 2 (word_of_nat (length e) :: u16) @ e) @ src"
  show ?case
  proof (cases "nc_readBuf c = []")
    case True
    have u: "unpad (c\<lparr>nc_recv := k1\<rparr>) plain = Inr data" using stream_record.hyps(2) stream_record.prems by simp
    have step: "noise_fill dec c ?src = noise_fill dec (c\<lparr>nc_recv := k1, nc_readBuf := data\<rparr>) src"
      using True stream_record.hyps(1) stream_record.prems(1) u frame_roundtrip [OF stream_record.hyps(3,4), of src]
      by (subst noise_fill.simps) (simp add: Let_def)
    show ?thesis
      unfolding step
      using stream_record.IH [of "c\<lparr>nc_recv := k1, nc_readBuf := data\<rparr>"] stream_record.prems True by simp
  next
    case False
    then show ?thesis
      using stream.stream_record [OF stream_record.hyps] stream_record.prems
      by (intro exI [of _ c] exI [of _ ?src] exI [of _ "data @ p"]) (simp add: noise_fill.simps)
  qed
qed

fun noise_reads :: "('k \<Rightarrow> bytes \<Rightarrow> ('k \<times> bytes) option) \<Rightarrow> nat list \<Rightarrow> 'k noiseConn \<Rightarrow> bytes \<Rightarrow> bytes list" where
  "noise_reads dec [] c src = []"
| "noise_reads dec (cap # caps) c src =
     (case noise_Read dec cap c src of
        (c1, src1, Inr d) \<Rightarrow> d # noise_reads dec caps c1 src1
      | (c1, src1, Inl e) \<Rightarrow> [])"

lemma fill_end:
  assumes "stream dec pad k src p k2"
  shows "nc_recv c = k \<Longrightarrow> nc_pad c = pad \<Longrightarrow> nc_readBuf c @ p = [] \<Longrightarrow> snd (snd (noise_fill dec c src)) = Some readFailed"
  using assms
proof (induction arbitrary: c rule: stream.induct)
  case (stream_end k)
  then show ?case by (simp add: noise_fill.simps readNoiseFrame_def)
next
  case (stream_record k e k1 plain data src p k2)
  have u: "unpad (c\<lparr>nc_recv := k1\<rparr>) plain = Inr data" using stream_record.hyps(2) stream_record.prems by simp
  then show ?case
    using stream_record frame_roundtrip [OF stream_record.hyps(3,4), of src]
    by (subst noise_fill.simps) (simp add: Let_def)
qed

lemma reads_stream:
  "stream dec pad (nc_recv c) src p k2 \<Longrightarrow> nc_pad c = pad \<Longrightarrow> \<forall>n \<in> set caps. 0 < n \<Longrightarrow>
   \<exists>rest. concat (noise_reads dec caps c src) @ rest = nc_readBuf c @ p \<and>
     (length (nc_readBuf c @ p) \<le> length caps \<longrightarrow> rest = [])"
proof (induction caps arbitrary: c src p)
  case (Cons cap caps)
  show ?case
  proof (cases "nc_readBuf c @ p = []")
    case True
    then have "noise_reads dec (cap # caps) c src = []"
      using fill_end [OF Cons.prems(1) refl Cons.prems(2)]
      by (auto simp: noise_Read_def split: prod.splits option.splits)
    then show ?thesis using True by simp
  next
    case False
    obtain c1 src1 p1 where f: "noise_fill dec c src = (c1, src1, None)" "nc_readBuf c1 \<noteq> []"
      "nc_readBuf c1 @ p1 = nc_readBuf c @ p" "stream dec pad (nc_recv c1) src1 p1 k2" "nc_pad c1 = pad"
      using fill_stream [OF Cons.prems(1) refl Cons.prems(2) False] by blast
    let ?c = "c1\<lparr>nc_readBuf := drop cap (nc_readBuf c1)\<rparr>"
    have cap: "0 < cap" "\<forall>n \<in> set caps. 0 < n" using Cons.prems(3) by simp_all
    obtain rest where r: "concat (noise_reads dec caps ?c src1) @ rest = drop cap (nc_readBuf c1) @ p1"
      "length (drop cap (nc_readBuf c1) @ p1) \<le> length caps \<longrightarrow> rest = []"
      using Cons.IH [of ?c src1 p1] f(4,5) cap(2) by auto
    have "noise_reads dec (cap # caps) c src = take cap (nc_readBuf c1) # noise_reads dec caps ?c src1"
      using f(1) by (simp add: noise_Read_def)
    moreover have "length (drop cap (nc_readBuf c1) @ p1) < length (nc_readBuf c @ p)"
      using cap(1) f(2) unfolding f(3) [symmetric] by simp
    moreover have "take cap (nc_readBuf c1) @ drop cap (nc_readBuf c1) @ p1 = nc_readBuf c @ p"
      unfolding f(3) [symmetric] by simp
    ultimately show ?thesis using r by (intro exI [of _ rest]) auto
  qed
qed simp

text \<open>A sequence of writes, each with its own draws; \<open>None\<close> if one of them fails.\<close>

fun noise_writes ::
  "('k \<Rightarrow> bytes \<Rightarrow> ('k \<times> bytes) option) \<Rightarrow> (bytes \<Rightarrow> bool) \<Rightarrow> (bytes \<times> (nat \<Rightarrow> nat)) list \<Rightarrow> 'k noiseConn \<Rightarrow> ('k noiseConn \<times> bytes) option" where
  "noise_writes enc wr [] c = Some (c, [])"
| "noise_writes enc wr ((p, pads) # ps) c =
     (case noise_Write enc wr pads c p of
        (c1, out, n, Some e) \<Rightarrow> None
      | (c1, out, n, None) \<Rightarrow> map_option (apsnd ((@) out)) (noise_writes enc wr ps c1))"

lemma writes_stream:
  assumes "records_ok enc dec"
  shows "noise_writes enc wr ps c = Some (c', out) \<Longrightarrow> \<forall>(p, pads) \<in> set ps. \<forall>j. pads j \<le> 255 \<Longrightarrow>
    stream dec (nc_pad c) (nc_send c) out (concat (map fst ps)) (nc_send c')"
proof (induction ps arbitrary: c out)
  case Nil
  then show ?case using stream.stream_end by simp
next
  case (Cons q ps)
  obtain p pads where q: "q = (p, pads)" by fastforce
  obtain c1 o1 n where w: "noise_Write enc wr pads c p = (c1, o1, n, None)"
    using Cons.prems(1) q by (auto split: prod.splits option.splits)
  obtain o2 where o: "noise_writes enc wr ps c1 = Some (c', o2)" "out = o1 @ o2"
    using Cons.prems(1) q w by auto
  have "stream dec (nc_pad c) (nc_send c) o1 p (nc_send c1) \<and> nc_pad c1 = nc_pad c"
    using write_stream [OF assms, of pads wr 0 c p 0 c1 o1 n] w Cons.prems(2) q by (auto simp: noise_Write_def)
  then show ?case using stream_append Cons.IH [OF o(1)] Cons.prems(2) o(2) q by fastforce
qed

lemma write_succeeds:
  assumes ok: "records_ok enc dec" and enc: "\<And>k p. enc k p \<noteq> None" and pads: "\<And>j. pads j \<le> 255"
  shows "snd (snd (snd (noise_write_loop enc (\<lambda>_. True) pads j c p written))) = None"
proof (induction "length p" arbitrary: j c p written rule: less_induct)
  case less
  show ?case
  proof (cases "p = []")
    case False
    let ?chunk = "take (record_limit c) p"
    obtain c1 plain where pl: "plaintext (pads j) ?chunk c = (c1, plain)" by fastforce
    obtain k e where e: "enc (nc_send c1) plain = Some (k, e)" using enc [of "nc_send c1" plain] by auto
    have lim: "0 < record_limit c" by (simp add: record_limit_def noise_consts)
    have "plain = snd (plaintext (pads j) ?chunk c)" using pl by simp
    then have "length plain \<le> 65535 - 16" using pads [of j] by (auto simp: plaintext_eq record_limit_def noise_consts)
    then have "length e \<le> 65535" using ok e by (auto simp: records_ok_def)
    then have f: "writeNoiseFrame e = Inr (be_put 2 (word_of_nat (length e) :: u16) @ e)" by (simp add: writeNoiseFrame_def)
    have "length (drop (record_limit c) p) < length p" using False lim by simp
    from less.hyps [OF this, of "j + 1" "c1\<lparr>nc_send := k\<rparr>" "written + length ?chunk"] show ?thesis
      using e f unfolding write_step [where pads = pads and j = j, OF False pl, of enc "\<lambda>_. True" written]
      by (simp add: case_prod_beta)
  qed (simp add: noise_write_loop.simps)
qed

lemma writes_succeed:
  assumes "records_ok enc dec" "\<And>k p. enc k p \<noteq> None"
  shows "\<forall>(p, pads) \<in> set ps. \<forall>j. pads j \<le> 255 \<Longrightarrow> \<exists>c' out. noise_writes enc (\<lambda>_. True) ps c = Some (c', out)"
proof (induction ps arbitrary: c)
  case (Cons q ps)
  obtain p pads where q: "q = (p, pads)" by fastforce
  obtain c1 o1 n err where w: "noise_Write enc (\<lambda>_. True) pads c p = (c1, o1, n, err)" by (metis prod.collapse)
  have "err = None" using write_succeeds [OF assms, of pads 0 c p 0] w q Cons.prems by (auto simp: noise_Write_def)
  then show ?case using Cons.IH [of c1] Cons.prems w q by auto
qed simp

lemma handshake_completes:
  assumes "noise_lib_ok L i r"
  obtains i1 f1 f2 c d where "noise_hello L i = Inr (i1, f1)" "noise_respond L r f1 = Inr (f2, [], d)"
    "noise_finish L i1 f2 = Inr ([], c)" "nc_pad c" "nc_pad d" "nc_send c = nc_recv d" "nc_send d = nc_recv c"
    "nc_readBuf c = []" "nc_readBuf d = []"
proof -
  obtain i1 m1 r1 where a: "lib_write1 L i [noiseVersion] = Some (i1, m1)" "lib_read1 L r m1 = Some (r1, [noiseVersion])"
    "m1 \<noteq> []" "length m1 \<le> 49"
    and w: "\<forall>w. \<exists>m2 a b. lib_write2 L r1 w = Some (m2, a, b) \<and> lib_read2 L i1 m2 = Some (w, a, b) \<and> m2 \<noteq> [] \<and> length m2 \<le> 48 + length w"
    using assms spec [of _ "[noiseVersion]"] unfolding noise_lib_ok_def by fastforce
  obtain m2 k0 k1 where b: "lib_write2 L r1 [noiseVersion] = Some (m2, k0, k1)" "lib_read2 L i1 m2 = Some ([noiseVersion], k0, k1)"
    "m2 \<noteq> []" "length m2 \<le> 49"
    using spec [OF w, of "[noiseVersion]"] by auto
  let ?f = "\<lambda>m :: bytes. be_put 2 (word_of_nat (length m) :: u16) @ m"
  have rd: "readNoiseFrame (?f m1) = Inr (m1, [])" "readNoiseFrame (?f m2) = Inr (m2, [])"
    using frame_roundtrip [of m1 "[]"] frame_roundtrip [of m2 "[]"] a b by simp_all
  have v: "versionFromPayload [noiseVersion] = 1" by (simp add: versionFromPayload_def noiseVersion_def)
  have wr: "writeNoiseFrame m1 = Inr (?f m1)" "writeNoiseFrame m2 = Inr (?f m2)" using a b by (simp_all add: writeNoiseFrame_def)
  show ?thesis
  proof (rule that)
    show "noise_hello L i = Inr (i1, ?f m1)" using a wr by (simp add: noise_hello_def)
    show "noise_respond L r (?f m1) = Inr (?f m2, [], new_conn k1 k0 1)" using a b wr rd v by (simp add: noise_respond_def)
    show "noise_finish L i1 (?f m2) = Inr ([], new_conn k0 k1 1)" using b rd v by (simp add: noise_finish_def)
  qed (simp_all add: new_conn_def noiseVersion_def noiseVersionPadding_def)
qed

text \<open>What \<open>x\<close> writes, \<open>y\<close> reads: through buffers of any sizes a prefix of it, and all of it after enough reads.\<close>

definition carries ::
  "('k \<Rightarrow> bytes \<Rightarrow> ('k \<times> bytes) option) \<Rightarrow> ('k \<Rightarrow> bytes \<Rightarrow> ('k \<times> bytes) option) \<Rightarrow> 'k noiseConn \<Rightarrow> 'k noiseConn \<Rightarrow> bool" where
  "carries enc dec x y \<longleftrightarrow>
     (\<forall>ps caps. (\<forall>(p, pads) \<in> set ps. \<forall>j. pads j \<le> 255) \<and> (\<forall>n \<in> set caps. 0 < n) \<longrightarrow>
       (\<exists>x' out rest. noise_writes enc (\<lambda>_. True) ps x = Some (x', out) \<and>
          concat (noise_reads dec caps y out) @ rest = concat (map fst ps) \<and>
          (length (concat (map fst ps)) \<le> length caps \<longrightarrow> rest = [])))"

lemma conn_carries:
  assumes "records_ok enc dec" "\<And>k p. enc k p \<noteq> None" and "nc_pad x = nc_pad y" "nc_send x = nc_recv y" "nc_readBuf y = []"
  shows "carries enc dec x y"
  unfolding carries_def
proof (intro allI impI, elim conjE)
  fix ps :: "(bytes \<times> (nat \<Rightarrow> nat)) list" and caps :: "nat list"
  assume ps: "\<forall>(p, pads) \<in> set ps. \<forall>j. pads j \<le> 255" and caps: "\<forall>n \<in> set caps. 0 < n"
  obtain x' out where w: "noise_writes enc (\<lambda>_. True) ps x = Some (x', out)" using writes_succeed [OF assms(1,2) ps] by blast
  from writes_stream [OF assms(1) w ps] have "stream dec (nc_pad x) (nc_recv y) out (concat (map fst ps)) (nc_send x')"
    by (simp add: assms(4))
  from reads_stream [OF this assms(3) [symmetric] caps]
  show "\<exists>x' out rest. noise_writes enc (\<lambda>_. True) ps x = Some (x', out) \<and>
      concat (noise_reads dec caps y out) @ rest = concat (map fst ps) \<and>
      (length (concat (map fst ps)) \<le> length caps \<longrightarrow> rest = [])"
    using w assms(5) by auto
qed

section \<open>Properties\<close>

text \<open>C5. A stealth connection carries the byte stream: two ends with the same token complete the handshake and both
  pad; whatever sequence of messages one of them then writes, with any draw of padding lengths, every
  write succeeds while the connection does, and the other end reads exactly these bytes in order
  through buffers of any size, all of them once it has read often enough; in both directions.\<close>

theorem noise_tunnel_carries_stream:
  assumes "noise_lib_ok L i r" "records_ok enc dec" "\<And>k p. enc k p \<noteq> None"
  shows "\<exists>i1 f1 f2 c d. noise_hello L i = Inr (i1, f1) \<and> noise_respond L r f1 = Inr (f2, [], d) \<and>
    noise_finish L i1 f2 = Inr ([], c) \<and> nc_pad c \<and> nc_pad d \<and> carries enc dec c d \<and> carries enc dec d c"
proof -
  obtain i1 f1 f2 c d where h: "noise_hello L i = Inr (i1, f1)" "noise_respond L r f1 = Inr (f2, [], d)"
    "noise_finish L i1 f2 = Inr ([], c)" "nc_pad c" "nc_pad d" "nc_send c = nc_recv d" "nc_send d = nc_recv c"
    "nc_readBuf c = []" "nc_readBuf d = []"
    by (rule handshake_completes [OF assms(1)])
  have "carries enc dec c d" "carries enc dec d c"
    by (rule conn_carries [OF assms(2,3)]; use h in simp)+
  then show ?thesis using h by blast
qed

definition demo_lib :: "(unit, unit, nat) noise_lib" where
  "demo_lib = \<lparr>lib_write1 = (\<lambda>i v. Some (i, 7 # v)), lib_read1 = (\<lambda>r m. Some (r, tl m)), lib_write2 = (\<lambda>r w. Some (9 # w, 0, 100)),
     lib_read2 = (\<lambda>i m. Some (tl m, 0, 100))\<rparr>"

definition demo_enc :: "nat \<Rightarrow> bytes \<Rightarrow> (nat \<times> bytes) option" where "demo_enc k p = Some (k + 1, replicate 16 0 @ p)"
definition demo_dec :: "nat \<Rightarrow> bytes \<Rightarrow> (nat \<times> bytes) option" where "demo_dec k e = Some (k + 1, drop 16 e)"

theorem noise_tunnel_carries_stream_witness:
  "\<exists>c d :: nat noiseConn. nc_pad c \<and>
    (\<exists>x' out. noise_writes demo_enc (\<lambda>_. True) [([1, 2, 3], \<lambda>_. 200)] c = Some (x', out) \<and>
       concat (noise_reads demo_dec [2, 1, 1] d out) = [1, 2, 3])"
proof -
  have l: "noise_lib_ok demo_lib () ()" by (simp add: noise_lib_ok_def demo_lib_def)
  have r: "records_ok demo_enc demo_dec" by (simp add: records_ok_def demo_enc_def demo_dec_def)
  have e: "demo_enc k p \<noteq> None" for k p by (simp add: demo_enc_def)
  obtain c d where c: "nc_pad c" and a: "carries demo_enc demo_dec c d"
    using noise_tunnel_carries_stream [OF l r e] by blast
  let ?ps = "[([1, 2, 3], \<lambda>_. 200)] :: (bytes \<times> (nat \<Rightarrow> nat)) list"
  have "(\<forall>(p, pads) \<in> set ?ps. \<forall>j. pads j \<le> 255) \<and> (\<forall>n \<in> set [2, 1, 1 :: nat]. 0 < n)" by simp
  from a [unfolded carries_def, rule_format, OF this] obtain x' out rest
    where w: "noise_writes demo_enc (\<lambda>_. True) ?ps c = Some (x', out)"
      "concat (noise_reads demo_dec [2, 1, 1] d out) @ rest = concat (map fst ?ps)"
      "length (concat (map fst ?ps)) \<le> length [2, 1, 1 :: nat] \<longrightarrow> rest = []"
    by blast
  have "rest = []" "concat (map fst ?ps) = [1, 2, 3]" using w(3) by simp_all
  then have "concat (noise_reads demo_dec [2, 1, 1] d out) = [1, 2, 3]" using w(2) by (simp only: append_Nil2)
  then show ?thesis using c w(1) by blast
qed

end
