(* ===== verification/IdPools.thy ===== *)
theory IdPools
  imports GoStrings
begin

text \<open>
  The two allocators that keep sessions of one process apart on the wire: the ICMP echo identifiers of the
  xdi carrier (\<open>internal/utils/network/icmpframe.go\<close>) and the source ports of the packet-level TCP carrier
  (\<open>internal/utils/network/pckport.go\<close>), with the rules that are written against the port range.

  Each holds a set behind a mutex, so every operation is one step. The random source is a list of its
  reads: two bytes, or \<open>None\<close> for a failed read. SHA-256 is the parameter \<open>sha\<close>.
\<close>

section \<open>Echo identifiers\<close>

text \<open>The fallback walk from \<open>i\<close> until the 16-bit counter wraps.\<close>

function xdi_walk :: "u16 set \<Rightarrow> u16 \<Rightarrow> u16 option" where
  "xdi_walk used i = (if i = 0 then None else if i \<notin> used then Some i else xdi_walk used (i + 1))"
  by pat_completeness auto
termination
proof (relation "measure (\<lambda>(used, i). if i = 0 then 0 else 2 ^ 16 - unat i)")
  fix used :: "u16 set" and i :: u16
  assume "i \<noteq> 0"
  moreover have "unat i < 2 ^ 16" using unsigned_less [of i] by simp
  moreover have "unat (i + 1) = Suc (unat i)" if "i + 1 \<noteq> 0" using that by (metis add.commute unatSuc)
  ultimately show "((used, i + 1), (used, i)) \<in> measure (\<lambda>(used, i). if i = 0 then 0 else 2 ^ 16 - unat i)" by auto
qed auto

declare xdi_walk.simps [simp del]

text \<open>\<open>None\<close>: the draws given were not enough. When the walk finds every identifier taken the code answers 1
  without recording it.\<close>

fun acquireXdiSessionID :: "bytes option list \<Rightarrow> u16 set \<Rightarrow> (u16 set \<times> u16) option" where
  "acquireXdiSessionID [] used = None"
| "acquireXdiSessionID (None # ds) used =
     (case xdi_walk used 1 of Some i \<Rightarrow> Some (insert i used, i) | None \<Rightarrow> Some (used, 1))"
| "acquireXdiSessionID (Some b # ds) used =
     (let i = be_get b :: u16 in
      if i = 0 then acquireXdiSessionID ds used
      else if i \<in> used then acquireXdiSessionID ds used
      else Some (insert i used, i))"

definition releaseXdiSessionID :: "u16 \<Rightarrow> u16 set \<Rightarrow> u16 set" where
  "releaseXdiSessionID i used = used - {i}"

section \<open>Source ports\<close>

definition pckPortSpan :: nat where "pckPortSpan = 128"

definition pckClientPortBase :: "(string \<Rightarrow> bytes) \<Rightarrow> string \<Rightarrow> u16" where
  "pckClientPortBase sha token =
     32768 + (be_get (take 2 (sha (''parstanel-pck-v1:'' @ token))) :: u16) mod (28000 - word_of_nat pckPortSpan)"

fun port_loop :: "u16 \<Rightarrow> u16 set \<Rightarrow> nat \<Rightarrow> nat \<Rightarrow> u16 option" where
  "port_loop base used i 0 = None"
| "port_loop base used i (Suc left) =
     (let port = base + word_of_nat i in if port \<notin> used then Some port else port_loop base used (i + 1) left)"

definition nextPckClientPort :: "u16 \<Rightarrow> u16 set \<Rightarrow> (u16 set \<times> u16) option" where
  "nextPckClientPort base used =
     (case port_loop base used 0 pckPortSpan of None \<Rightarrow> None | Some port \<Rightarrow> Some (insert port used, port))"

definition releasePckClientPort :: "u16 \<Rightarrow> u16 set \<Rightarrow> u16 set" where
  "releasePckClientPort port used = used - {port}"

definition portSpec :: "u16 \<Rightarrow> u16 \<Rightarrow> string" where
  "portSpec lo hi =
     (if lo = hi then itoa (int (unat lo)) else itoa (int (unat lo)) @ '':'' @ itoa (int (unat hi)))"

definition pckRules :: "u16 \<Rightarrow> u16 \<Rightarrow> string list list" where
  "pckRules lo hi =
     (let p = portSpec lo hi;
          tag = [''-m'', ''comment'', ''--comment'', ''parstanel-pck-'' @ p];
          rule = (\<lambda>table body. [table] @ body @ tag)
      in [rule ''filter'' [''OUTPUT'', ''-p'', ''tcp'', ''--sport'', p, ''--tcp-flags'', ''RST'', ''RST'', ''-j'', ''DROP''],
          rule ''raw'' [''PREROUTING'', ''-p'', ''tcp'', ''--dport'', p, ''-j'', ''NOTRACK''],
          rule ''raw'' [''OUTPUT'', ''-p'', ''tcp'', ''--sport'', p, ''-j'', ''NOTRACK'']])"

section \<open>The contract of an allocator\<close>

text \<open>An allocator with room hands out something nobody holds and remembers it; \<open>'e\<close> is what an allocation
  depends on besides the state.\<close>

datatype 'e pool_op = TakeId 'e | GiveId nat

locale id_pool =
  fixes take_id :: "'e \<Rightarrow> 'i set \<Rightarrow> ('i set \<times> 'i) option"
    and give_id :: "'i \<Rightarrow> 'i set \<Rightarrow> 'i set"
    and room :: "'i set \<Rightarrow> bool"
    and good_id :: "'e \<Rightarrow> 'i \<Rightarrow> bool"
  assumes take_fresh: "room used \<Longrightarrow> take_id e used = Some (used', i) \<Longrightarrow> i \<notin> used \<and> used' = insert i used \<and> good_id e i"
    and give_back: "give_id i used = used - {i}"
begin

text \<open>Carriers come and go: one takes an identifier when it opens, and gives it back when it closes. The list
  holds what the open ones have; an allocation that fails opens nothing. \<open>None\<close>: there was no room.\<close>

fun run_pool :: "'e pool_op list \<Rightarrow> 'i set \<Rightarrow> 'i list \<Rightarrow> ('i set \<times> 'i list) option" where
  "run_pool [] used open = Some (used, open)"
| "run_pool (TakeId e # ops) used open =
     (if \<not> room used then None
      else case take_id e used of
             None \<Rightarrow> run_pool ops used open
           | Some (used', i) \<Rightarrow> run_pool ops used' (open @ [i]))"
| "run_pool (GiveId n # ops) used open =
     (if n < length open then run_pool ops (give_id (open ! n) used) (take n open @ drop (Suc n) open)
      else run_pool ops used open)"

lemma run_pool_distinct:
  "run_pool ops used open = Some (used', open') \<Longrightarrow> distinct open \<Longrightarrow> set open = used \<Longrightarrow> distinct open' \<and> set open' = used'"
proof (induction ops used "open" rule: run_pool.induct)
  case (2 e ops used "open")
  show ?case
  proof (cases "take_id e used")
    case None
    then show ?thesis using 2 by (auto split: if_splits)
  next
    case (Some r)
    obtain u i where r: "r = (u, i)" by fastforce
    have rm: "room used" using "2.prems"(1) by (auto split: if_splits)
    have f: "i \<notin> used" "u = insert i used" using take_fresh [OF rm] Some r by auto
    show ?thesis using "2.IH"(2) [of r u i] rm Some r f "2.prems" by auto
  qed
next
  case (3 n ops used "open")
  show ?case
  proof (cases "n < length open")
    case True
    have o: "open = take n open @ [open ! n] @ drop (Suc n) open" using True by (simp add: id_take_nth_drop)
    have "distinct (take n open @ [open ! n] @ drop (Suc n) open)" using "3.prems"(2) o by metis
    then have d: "distinct (take n open @ drop (Suc n) open)" "open ! n \<notin> set (take n open @ drop (Suc n) open)" by auto
    have "set open = insert (open ! n) (set (take n open @ drop (Suc n) open))" by (subst o) auto
    then have "set (take n open @ drop (Suc n) open) = give_id (open ! n) used"
      using d(2) "3.prems"(3) give_back by auto
    then show ?thesis using "3.IH"(1) [OF True] "3.prems"(1) True d(1) by simp
  next
    case False
    then show ?thesis using 3 by simp
  qed
qed simp

lemma run_pool_good:
  "run_pool ops used open = Some (used', open') \<Longrightarrow> \<forall>i \<in> set open. \<exists>e. good_id e i \<Longrightarrow> \<forall>i \<in> set open'. \<exists>e. good_id e i"
proof (induction ops used "open" rule: run_pool.induct)
  case (2 e ops used "open")
  show ?case
  proof (cases "take_id e used")
    case None
    then show ?thesis using 2 by (auto split: if_splits)
  next
    case (Some r)
    obtain u i where r: "r = (u, i)" by fastforce
    have rm: "room used" using "2.prems"(1) by (auto split: if_splits)
    have g: "good_id e i" using take_fresh [OF rm] Some r by blast
    have "\<exists>e. good_id e x" if "x \<in> set (open @ [i])" for x
    proof (cases "x = i")
      case True
      then show ?thesis using g by blast
    next
      case False
      then show ?thesis using that "2.prems"(2) by simp
    qed
    then have b: "\<forall>x \<in> set (open @ [i]). \<exists>e. good_id e x" by blast
    have run: "run_pool ops u (open @ [i]) = Some (used', open')" using "2.prems"(1) rm Some r by simp
    show ?thesis by (rule "2.IH"(2) [OF _ Some _ run b]) (use rm r in simp_all)
  qed
next
  case (3 n ops used "open")
  have "\<forall>x \<in> set (take n open @ drop (Suc n) open). \<exists>e. good_id e x"
    using "3.prems"(2) by (auto dest: in_set_takeD in_set_dropD)
  then show ?case using 3 by (simp split: if_splits)
qed simp

end

section \<open>Both allocators keep it\<close>

lemma xdi_walk_spec:
  "(case xdi_walk used i of Some x \<Rightarrow> x \<noteq> 0 \<and> x \<notin> used | None \<Rightarrow> \<forall>x. x \<noteq> 0 \<and> i \<le> x \<longrightarrow> i = 0 \<or> x \<in> used)"
proof (induction used i rule: xdi_walk.induct)
  case (1 used i)
  show ?case
  proof (cases "i = 0 \<or> i \<notin> used")
    case True
    then show ?thesis by (subst xdi_walk.simps) auto
  next
    case False
    have e: "xdi_walk used i = xdi_walk used (i + 1)" using False by (subst xdi_walk.simps) simp
    have next_le: "x = i \<or> i + 1 \<le> x" if "i \<le> x" for x using that by (metis inc_le order_le_imp_less_or_eq)
    have last: "x = i" if "i + 1 = 0" "i \<le> x" for x
      using that by (metis add_diff_cancel_right' diff_0 order_antisym word_order.extremum)
    show ?thesis
    proof (cases "xdi_walk used (i + 1)")
      case None
      then show ?thesis using 1 False e next_le last by fastforce
    next
      case (Some x)
      then show ?thesis using 1 False e by simp
    qed
  qed
qed

lemma acquire_fresh:
  "\<exists>x. x \<noteq> 0 \<and> x \<notin> used \<Longrightarrow> acquireXdiSessionID ds used = Some (used', i) \<Longrightarrow> i \<notin> used \<and> used' = insert i used \<and> i \<noteq> 0"
proof (induction ds used rule: acquireXdiSessionID.induct)
  case (2 ds used)
  show ?case
  proof (cases "xdi_walk used 1")
    case None
    obtain x where x: "x \<noteq> 0" "x \<notin> used" using "2.prems"(1) by blast
    then have "0 < unat x" by (simp add: unat_gt_0)
    then have "1 \<le> x" by (simp add: word_le_nat_alt)
    then show ?thesis using xdi_walk_spec [where used = used and i = 1] None x by simp
  next
    case (Some x)
    then show ?thesis using 2 xdi_walk_spec [where used = used and i = 1] by auto
  qed
qed (auto simp: Let_def split: if_splits)

text \<open>With a failing random source an allocation still ends, and it ends as soon as one draw is free.\<close>

lemma acquire_returns:
  "(None \<in> set ds \<or> (\<exists>b. Some b \<in> set ds \<and> be_get b \<noteq> (0 :: u16) \<and> be_get b \<notin> used)) \<Longrightarrow>
   \<exists>r. acquireXdiSessionID ds used = Some r"
  by (induction ds used rule: acquireXdiSessionID.induct) (auto simp: Let_def split: option.splits)

lemma port_loop_spec:
  "case port_loop base used i left of
     Some p \<Rightarrow> p \<notin> used \<and> (\<exists>j. i \<le> j \<and> j < i + left \<and> p = base + word_of_nat j)
   | None \<Rightarrow> \<forall>j. i \<le> j \<and> j < i + left \<longrightarrow> base + word_of_nat j \<in> used"
proof (induction base used i left rule: port_loop.induct)
  case (2 base used i left)
  show ?case
  proof (cases "base + word_of_nat i \<in> used")
    case True
    have e: "port_loop base used i (Suc left) = port_loop base used (i + 1) left" using True by simp
    show ?thesis
    proof (cases "port_loop base used (i + 1) left")
      case None
      have "j = i \<or> i + 1 \<le> j" if "i \<le> j" for j using that by auto
      then show ?thesis using 2 None True e by fastforce
    next
      case (Some p)
      then obtain j where "p \<notin> used" "i + 1 \<le> j" "j < i + 1 + left" "p = base + word_of_nat j" using 2 True by auto
      then show ?thesis using Some e by (auto intro!: exI [of _ j])
    qed
  qed auto
qed auto

lemma nextPckClientPort_fresh:
  "nextPckClientPort (base :: u16) used = Some (used', p) \<Longrightarrow>
   p \<notin> used \<and> used' = insert p used \<and> (\<exists>j < pckPortSpan. p = base + word_of_nat j)"
  using port_loop_spec [where base = base and used = used and i = 0 and left = pckPortSpan] by (auto simp: nextPckClientPort_def split: option.splits)

lemma nextPckClientPort_full:
  "nextPckClientPort base used = None \<longleftrightarrow> (\<forall>j < pckPortSpan. base + word_of_nat j \<in> used)"
  using port_loop_spec [where base = base and used = used and i = 0 and left = pckPortSpan] by (auto simp: nextPckClientPort_def split: option.splits)

text \<open>The range of a token stays inside the ephemeral ports, so it does not wrap.\<close>

lemma pckClientPortBase_range:
  "32768 \<le> unat (pckClientPortBase sha token) \<and> unat (pckClientPortBase sha token) + pckPortSpan \<le> 60768"
proof -
  let ?h = "be_get (take 2 (sha (''parstanel-pck-v1:'' @ token))) :: u16"
  have m: "unat (?h mod 27872) < 27872" by (simp add: unat_mod)
  have "unat (32768 + ?h mod 27872) = 32768 + unat (?h mod 27872)"
    using m by (simp add: unat_word_ariths(1))
  then show ?thesis using m by (simp add: pckClientPortBase_def pckPortSpan_def)
qed

interpretation xdi: id_pool acquireXdiSessionID releaseXdiSessionID "\<lambda>used. \<exists>x. x \<noteq> 0 \<and> x \<notin> used" "\<lambda>_ i. i \<noteq> 0"
proof
  show "i \<notin> used \<and> used' = insert i used \<and> i \<noteq> 0"
    if "\<exists>x. x \<noteq> 0 \<and> x \<notin> used" "acquireXdiSessionID e used = Some (used', i)" for used e used' i
    using acquire_fresh [OF that] .
qed (simp add: releaseXdiSessionID_def)

interpretation pck: id_pool nextPckClientPort releasePckClientPort "\<lambda>_. True" "\<lambda>base p. \<exists>j < pckPortSpan. p = base + word_of_nat j"
  by unfold_locales (use nextPckClientPort_fresh in \<open>auto simp: releasePckClientPort_def\<close>)

section \<open>Properties\<close>



end
