(* ===== verification/Framing.thy ===== *)
theory Framing
  imports GoStrings
begin

text \<open>
  Small codecs of \<open>internal/utils/network\<close>: the tag and direction in front of every packet inside an ICMP echo
  (\<open>icmpframe.go\<close>), forwarded UDP on a byte stream (\<open>udpframe.go\<close>), and the acknowledgement of a control
  channel with the nonce of its pool connections (\<open>poolnonce.go\<close>). SHA-256 is the parameter \<open>sha\<close>.
\<close>

section \<open>Packets inside ICMP echo\<close>

definition xdiTagLen :: nat where "xdiTagLen = 4"
definition xdiHeaderLen :: nat where "xdiHeaderLen = xdiTagLen + 1"
definition xdiDirServer :: byte where "xdiDirServer = 0x53"
definition xdiDirClient :: byte where "xdiDirClient = 0x43"

lemmas xdi_consts = xdiTagLen_def xdiHeaderLen_def xdiDirServer_def xdiDirClient_def

text \<open>The tag is an array of four bytes that is copied into.\<close>

definition xdiTag :: "(string \<Rightarrow> bytes) \<Rightarrow> string \<Rightarrow> bytes" where
  "xdiTag sha token = copy_at 0 (take xdiTagLen (sha (''parstanel-xdi-v1:'' @ token))) (replicate xdiTagLen 0)"

definition outboundDir :: "bool \<Rightarrow> byte" where
  "outboundDir server = (if server then xdiDirServer else xdiDirClient)"

definition inboundDir :: "bool \<Rightarrow> byte" where
  "inboundDir server = (if server then xdiDirClient else xdiDirServer)"

definition encodeXdiPayload :: "bytes \<Rightarrow> byte \<Rightarrow> bytes \<Rightarrow> bytes" where
  "encodeXdiPayload tag dir payload =
     (let out = replicate (xdiHeaderLen + length payload) 0;
          out = copy_at 0 tag out;
          out = out[xdiTagLen := dir]
      in copy_at xdiHeaderLen payload out)"

definition appendXdiPayload :: "bytes \<Rightarrow> bytes \<Rightarrow> byte \<Rightarrow> bytes \<Rightarrow> bytes" where
  "appendXdiPayload dst tag dir payload = ((take 0 dst @ tag) @ [dir]) @ payload"

fun tag_matches :: "bytes \<Rightarrow> bytes \<Rightarrow> nat \<Rightarrow> bool" where
  "tag_matches data tag 0 = True"
| "tag_matches data tag (Suc left) =
     (data ! (xdiTagLen - Suc left) = tag ! (xdiTagLen - Suc left) \<and> tag_matches data tag left)"

definition decodeXdiPayload :: "bytes \<Rightarrow> byte \<Rightarrow> bytes \<Rightarrow> bytes option" where
  "decodeXdiPayload tag wantDir data =
     (if length data < xdiHeaderLen then None
      else if \<not> tag_matches data tag xdiTagLen then None
      else if data ! xdiTagLen \<noteq> wantDir then None
      else Some (drop xdiHeaderLen data))"

section \<open>Forwarded datagrams on a stream\<close>

definition MaxDatagram :: nat where "MaxDatagram = 65535"
definition udpScheme :: string where "udpScheme = ''udp://''"

definition MarkUDP :: "string \<Rightarrow> string" where
  "MarkUDP addr = udpScheme @ addr"

definition SplitUDPTarget :: "string \<Rightarrow> string \<times> bool" where
  "SplitUDPTarget addr =
     (if prefix udpScheme addr then (drop (length udpScheme) addr, True) else (addr, False))"

datatype datagram_error = datagramTooLarge nat | streamEnded | datagramDoesNotFit nat nat

text \<open>What is written, and one read from a stream into a buffer of \<open>cap\<close> bytes with the rest of the stream.\<close>

definition WriteDatagram :: "bytes \<Rightarrow> datagram_error + bytes" where
  "WriteDatagram payload =
     (if MaxDatagram < length payload then Inl (datagramTooLarge (length payload))
      else Inr (be_put 2 (word_of_nat (length payload) :: u16) @ payload))"

definition ReadDatagram :: "nat \<Rightarrow> bytes \<Rightarrow> (datagram_error + bytes) \<times> bytes" where
  "ReadDatagram cap src =
     (if length src < 2 then (Inl streamEnded, [])
      else let size = unat (be_get (take 2 src) :: u16); rest = drop 2 src in
           if cap < size then (Inl (datagramDoesNotFit size cap), rest)
           else if size = 0 then (Inr [], rest)
           else if length rest < size then (Inl streamEnded, [])
           else (Inr (take size rest), drop size rest))"

section \<open>Control acknowledgements\<close>

definition poolNonceBytes :: nat where "poolNonceBytes = 32"
definition poolNonceHexLen :: nat where "poolNonceHexLen = poolNonceBytes * 2"

text \<open>\<open>string(rune('0' + muxVersion))\<close> is one byte for the versions there are.\<close>

definition EncodeControlAck :: "string \<Rightarrow> string \<Rightarrow> nat \<Rightarrow> string" where
  "EncodeControlAck token nonce muxVersion = nonce @ [char_of (48 + muxVersion)] @ token"

definition DecodeControlAck :: "string \<Rightarrow> string \<times> string \<times> nat" where
  "DecodeControlAck ack =
     (if length ack < poolNonceHexLen + 1 then ([], [], 0)
      else let v = unat (word_of_nat (of_char (ack ! poolNonceHexLen)) - 48 :: byte) in
           if 9 < v then ([], [], 0)
           else (drop (poolNonceHexLen + 1) ack, take poolNonceHexLen ack, v))"

text \<open>The holder of the current nonce; \<open>Clear\<close> is \<open>Set\<close> with the empty string.\<close>

definition nonce_Set :: "string \<Rightarrow> string \<Rightarrow> string" where "nonce_Set v p = v"
definition nonce_Clear :: "string \<Rightarrow> string" where "nonce_Clear p = nonce_Set [] p"

definition nonce_Verify :: "string \<Rightarrow> string \<Rightarrow> bool" where
  "nonce_Verify p got = (if p = [] then False else got = p)"

section \<open>Round trips\<close>

lemma length_xdiTag [simp]: "length (xdiTag sha token) = 4"
  by (simp add: xdiTag_def xdi_consts)

lemma encode_eq: "length tag = 4 \<Longrightarrow> encodeXdiPayload tag dir payload = tag @ dir # payload"
proof -
  assume l: "length tag = 4"
  have r: "replicate (5 + length payload) (0 :: byte) = replicate 4 0 @ 0 # replicate (length payload) 0"
    by (simp add: replicate_add [symmetric] flip: replicate_Suc)
  show ?thesis using l unfolding encodeXdiPayload_def Let_def xdi_consts
    by (simp add: r copy_at_def list_update_append)
qed

lemma append_is_encode: "length tag = 4 \<Longrightarrow> appendXdiPayload dst tag dir payload = encodeXdiPayload tag dir payload"
  by (simp add: appendXdiPayload_def encode_eq)

lemma tag_matches_iff: "length tag = 4 \<Longrightarrow> 4 \<le> length data \<Longrightarrow> tag_matches data tag 4 \<longleftrightarrow> take 4 data = tag"
  by (auto simp: list_eq_iff_nth_eq numeral_eq_Suc xdiTagLen_def less_Suc_eq)

lemma decode_iff:
  assumes "length tag = 4"
  shows "decodeXdiPayload tag dir data = Some p \<longleftrightarrow> data = encodeXdiPayload tag dir p"
proof
  assume a: "decodeXdiPayload tag dir data = Some p"
  then have "5 \<le> length data" "take 4 data = tag" "data ! 4 = dir" "p = drop 5 data"
    using tag_matches_iff [OF assms, of data] by (auto simp: decodeXdiPayload_def xdi_consts split: if_splits)
  then show "data = encodeXdiPayload tag dir p"
    using id_take_nth_drop [of 4 data] by (simp add: encode_eq [OF assms])
next
  assume a: "data = encodeXdiPayload tag dir p"
  then show "decodeXdiPayload tag dir data = Some p"
    using tag_matches_iff [OF assms, of data] assms by (simp add: decodeXdiPayload_def xdi_consts encode_eq nth_append)
qed

text \<open>Each direction of a tunnel is a codec: the peer of the sender accepts its packets and nothing else.\<close>

interpretation xdic: frame_codec "\<lambda>_ :: unit. encodeXdiPayload (xdiTag sha token) (outboundDir server)"
  "\<lambda>f. map_option (Pair ()) (decodeXdiPayload (xdiTag sha token) (inboundDir (\<not> server)) f)" "\<lambda>_. True" 5 for sha token server
  by unfold_locales (auto simp: decode_iff encode_eq inboundDir_def outboundDir_def)

text \<open>The kernel's echo of an own packet is refused, with whatever token it was sent.\<close>

lemma own_echo_refused:
  "decodeXdiPayload (xdiTag sha token) (inboundDir server) (encodeXdiPayload (xdiTag sha' token') (outboundDir server) p) = None"
  by (simp add: decodeXdiPayload_def encode_eq nth_append xdi_consts inboundDir_def outboundDir_def)

lemma split_mark: "SplitUDPTarget (MarkUDP addr) = (addr, True)"
  by (simp add: SplitUDPTarget_def MarkUDP_def)

lemma datagram_roundtrip:
  assumes "WriteDatagram p = Inr f" "MaxDatagram \<le> cap"
  shows "ReadDatagram cap (f @ rest) = (Inr p, rest)"
proof -
  have l: "length p \<le> 65535" and f: "f = be_put 2 (word_of_nat (length p) :: u16) @ p"
    using assms(1) by (auto simp: WriteDatagram_def MaxDatagram_def split: if_splits)
  have "unat (word_of_nat (length p) :: u16) = length p" using l by (intro unat_of_nat16) simp
  then show ?thesis using l f assms(2) by (simp add: ReadDatagram_def Let_def MaxDatagram_def)
qed

text \<open>Datagrams keep their boundaries on the stream, empty ones included.\<close>

fun read_datagrams :: "nat \<Rightarrow> nat \<Rightarrow> bytes \<Rightarrow> (datagram_error + bytes) list" where
  "read_datagrams cap 0 src = []"
| "read_datagrams cap (Suc n) src = (let (r, rest) = ReadDatagram cap src in r # read_datagrams cap n rest)"

lemma datagrams_roundtrip:
  "list_all2 (\<lambda>p f. WriteDatagram p = Inr f) ps fs \<Longrightarrow> MaxDatagram \<le> cap \<Longrightarrow>
   read_datagrams cap (length ps) (concat fs @ rest) = map Inr ps"
  by (induction ps fs arbitrary: rest rule: list_all2_induct) (simp_all add: datagram_roundtrip)

lemma control_ack_roundtrip:
  assumes "length nonce = poolNonceHexLen" "v \<le> 9"
  shows "DecodeControlAck (EncodeControlAck token nonce v) = (token, nonce, v)"
proof -
  have "(of_char (char_of (48 + v) :: char) :: nat) = 48 + v" using assms(2) by simp
  then have "word_of_nat (of_char (char_of (48 + v) :: char)) - 48 = (word_of_nat v :: byte)" by simp
  then have "unat (word_of_nat (of_char (char_of (48 + v) :: char)) - 48 :: byte) = v"
    using assms(2) by (simp add: unat_of_nat)
  then show ?thesis using assms by (simp add: DecodeControlAck_def EncodeControlAck_def nth_append)
qed

lemma cleared_nonce_closes: "\<not> nonce_Verify (nonce_Clear p) got"
  by (simp add: nonce_Verify_def nonce_Clear_def nonce_Set_def)

lemma set_nonce_opens: "v \<noteq> [] \<Longrightarrow> nonce_Verify (nonce_Set v p) got \<longleftrightarrow> got = v"
  by (simp add: nonce_Verify_def nonce_Set_def)

end
