(* ===== verification/DirectAuth.thy ===== *)
theory DirectAuth
  imports Framing GoNet
begin

text \<open>
  The direct tunnel's exchanges: the mutual proof of the token, the request that opens a stream and the
  datagrams on it (\<open>internal/tunnel/direct/handshake.go\<close>), and what the origin refuses to dial
  (\<open>target.go\<close>). The connection is the bytes on it; each side is split where it waits for the other.
  HMAC-SHA256 is the parameter \<open>mac\<close>, DNS the parameter \<open>lookup\<close>, random nonces are arguments.
\<close>

section \<open>The proof of the token\<close>

definition nonceLen :: nat where "nonceLen = 32"
definition proofLen :: nat where "proofLen = 32"
definition protocolVersion :: byte where "protocolVersion = 1"

datatype direct_error = errBadProof | errNonce | errWrite | errBadVersion | errShortRead | errTargetLength nat | errStreamKind byte
  | errTargetNotHostPort string | errMetadataTarget

definition transcript :: "string \<Rightarrow> bytes \<Rightarrow> bytes \<Rightarrow> bytes" where
  "transcript label nonceEdge nonceOrigin =
     str_bytes ''parstanel-direct-v1|'' @ str_bytes label @ [0x7c] @ nonceEdge @ nonceOrigin"

definition proof_mac :: "(string \<Rightarrow> bytes \<Rightarrow> bytes) \<Rightarrow> string \<Rightarrow> string \<Rightarrow> bytes \<Rightarrow> bytes \<Rightarrow> bytes" where
  "proof_mac mac token label nonceEdge nonceOrigin = mac token (transcript label nonceEdge nonceOrigin)"

text \<open>
  Each half is a function of what arrives on the connection, giving what it wrote and how it ended. The nonce is
  the random draw (\<open>None\<close> when the source fails), \<open>wr\<close> tells which writes the connection takes, and a stream
  that is shorter than what is read is a connection that closed or ran into its deadline. \<open>hmac.Equal\<close> is equality.
\<close>

type_synonym handshake_run = "bytes list \<times> (direct_error + unit)"

definition edgeHandshake ::
    "(string \<Rightarrow> bytes \<Rightarrow> bytes) \<Rightarrow> (bytes \<Rightarrow> bool) \<Rightarrow> string \<Rightarrow> bytes option \<Rightarrow> bytes \<Rightarrow> handshake_run" where
  "edgeHandshake mac wr token draw stream =
     (case draw of None \<Rightarrow> ([], Inl errNonce)
      | Some nonceEdge \<Rightarrow>
          let opening = protocolVersion # nonceEdge in
          if \<not> wr opening then ([], Inl errWrite)
          else if length stream < nonceLen + proofLen then ([opening], Inl errShortRead)
          else let reply = take (nonceLen + proofLen) stream;
                   nonceOrigin = take nonceLen reply;
                   given = drop nonceLen reply;
                   own = proof_mac mac token ''edge'' nonceEdge nonceOrigin
               in if given \<noteq> proof_mac mac token ''origin'' nonceEdge nonceOrigin then ([opening], Inl errBadProof)
                  else if \<not> wr own then ([opening], Inl errWrite)
                  else ([opening, own], Inr ()))"

definition originHandshake ::
    "(string \<Rightarrow> bytes \<Rightarrow> bytes) \<Rightarrow> (bytes \<Rightarrow> bool) \<Rightarrow> string \<Rightarrow> bytes option \<Rightarrow> bytes \<Rightarrow> handshake_run" where
  "originHandshake mac wr token draw stream =
     (if length stream < 1 + nonceLen then ([], Inl errShortRead)
      else let opening = take (1 + nonceLen) stream in
           if opening ! 0 \<noteq> protocolVersion then ([], Inl errBadVersion)
           else case draw of None \<Rightarrow> ([], Inl errNonce)
           | Some nonceOrigin \<Rightarrow>
               let nonceEdge = drop 1 opening;
                   reply = nonceOrigin @ proof_mac mac token ''origin'' nonceEdge nonceOrigin;
                   rest = drop (1 + nonceLen) stream
               in if \<not> wr reply then ([], Inl errWrite)
                  else if length rest < proofLen then ([reply], Inl errShortRead)
                  else if take proofLen rest \<noteq> proof_mac mac token ''edge'' nonceEdge nonceOrigin
                  then ([reply], Inl errBadProof)
                  else ([reply], Inr ()))"

section \<open>Opening a stream\<close>

definition kindTCP :: byte where "kindTCP = 1"
definition kindUDP :: byte where "kindUDP = 2"
definition maxTargetLen :: nat where "maxTargetLen = 512"

definition writeRequest :: "byte \<Rightarrow> bytes \<Rightarrow> direct_error + bytes" where
  "writeRequest kind target =
     (if length target = 0 \<or> maxTargetLen < length target then Inl (errTargetLength (length target))
      else Inr ([kind] @ be_put 2 (word_of_nat (length target) :: u16) @ target))"

definition readRequest :: "bytes \<Rightarrow> direct_error + (byte \<times> bytes) \<times> bytes" where
  "readRequest src =
     (if length src < 3 then Inl errShortRead
      else let kind = src ! 0 in
           if kind \<noteq> kindTCP \<and> kind \<noteq> kindUDP then Inl (errStreamKind kind)
           else let n = unat (be_get (slice 1 3 src) :: u16) in
                if n = 0 \<or> maxTargetLen < n then Inl (errTargetLength n)
                else if length (drop 3 src) < n then Inl errShortRead
                else Inr ((kind, take n (drop 3 src)), drop n (drop 3 src)))"

definition maxDatagram :: nat where "maxDatagram = 65535"

definition writeDatagram :: "bytes \<Rightarrow> datagram_error + bytes" where
  "writeDatagram payload =
     (if maxDatagram < length payload then Inl (datagramTooLarge (length payload))
      else Inr (be_put 2 (word_of_nat (length payload) :: u16) @ payload))"

definition readDatagram :: "nat \<Rightarrow> bytes \<Rightarrow> (datagram_error + bytes) \<times> bytes" where
  "readDatagram cap src =
     (if length src < 2 then (Inl streamEnded, [])
      else let n = unat (be_get (take 2 src) :: u16) in
           if cap < n then (Inl (datagramDoesNotFit n cap), drop 2 src)
           else if n = 0 then (Inr [], drop 2 src)
           else if length (drop 2 src) < n then (Inl streamEnded, [])
           else (Inr (take n (drop 2 src)), drop n (drop 2 src)))"

section \<open>Targets\<close>

definition metadataAddrs :: "bytes option list" where
  "metadataAddrs = [ParseIP ''169.254.169.254'', ParseIP ''100.100.100.200'', ParseIP ''fd00:ec2::254'', ParseIP ''169.254.169.253'']"

fun addr_in :: "bytes \<Rightarrow> bytes option list \<Rightarrow> bool" where
  "addr_in ip [] = False"
| "addr_in ip (None # ms) = addr_in ip ms"
| "addr_in ip (Some m # ms) = (ip_equal m ip \<or> addr_in ip ms)"

definition isMetadataAddr :: "bytes \<Rightarrow> bool" where
  "isMetadataAddr ip = addr_in ip metadataAddrs"

definition vetTarget :: "(string \<Rightarrow> bytes list option) \<Rightarrow> string \<Rightarrow> direct_error + unit" where
  "vetTarget lookup target =
     (case split_host_port target of
        None \<Rightarrow> Inl (errTargetNotHostPort target)
      | Some (host, _) \<Rightarrow>
          (case ParseIP host of
             Some ip \<Rightarrow> if isMetadataAddr ip then Inl errMetadataTarget else Inr ()
           | None \<Rightarrow>
               (case lookup host of
                  None \<Rightarrow> Inr ()
                | Some ips \<Rightarrow> if list_ex isMetadataAddr ips then Inl errMetadataTarget else Inr ())))"

section \<open>What a proof proves\<close>

text \<open>
  What the exchange relies on of HMAC-SHA256: its width, and that the inputs \<open>S\<close> that are compared do not collide.
\<close>

definition mac_ok :: "(string \<Rightarrow> bytes \<Rightarrow> bytes) \<Rightarrow> (string \<times> bytes) set \<Rightarrow> bool" where
  "mac_ok mac S \<longleftrightarrow> (\<forall>t m. length (mac t m) = proofLen) \<and> inj_on (\<lambda>(t, m). mac t m) S"

lemma proof_length: "mac_ok mac S \<Longrightarrow> length (proof_mac mac t l a b) = proofLen"
  by (simp add: mac_ok_def proof_mac_def)

lemma proof_eqD:
  assumes "mac_ok mac S" "(t, transcript l a b) \<in> S" "(t', transcript l' a' b') \<in> S"
  shows "proof_mac mac t l a b = proof_mac mac t' l' a' b' \<longleftrightarrow> t = t' \<and> transcript l a b = transcript l' a' b'"
  using assms inj_on_eq_iff [of "\<lambda>(t, m). mac t m" S "(t, transcript l a b)" "(t', transcript l' a' b')"]
  by (simp add: mac_ok_def proof_mac_def)

text \<open>One transcript does not read as another: nonces have a fixed width, so labels end where they end.\<close>

lemma transcript_inj:
  assumes "length a = nonceLen" "length a' = nonceLen" "length b = nonceLen" "length b' = nonceLen"
  shows "transcript l a b = transcript l' a' b' \<longleftrightarrow> l = l' \<and> a = a' \<and> b = b'"
proof
  assume "transcript l a b = transcript l' a' b'"
  then have e: "str_bytes l @ [0x7c] @ a @ b = str_bytes l' @ [0x7c] @ a' @ b'" by (simp add: transcript_def)
  have "length (str_bytes l) = length (str_bytes l')" using arg_cong [OF e, of length] assms by simp
  with e have "str_bytes l = str_bytes l'" "a @ b = a' @ b'" by auto
  then show "l = l' \<and> a = a' \<and> b = b'" using assms by (simp add: str_bytes_inj)
qed simp

lemma edge_run:
  assumes "length nO = nonceLen" "length given = proofLen" "\<And>x. wr x"
  shows "edgeHandshake mac wr token (Some nE) (nO @ given @ more) =
    (if given = proof_mac mac token ''origin'' nE nO
     then ([protocolVersion # nE, proof_mac mac token ''edge'' nE nO], Inr ())
     else ([protocolVersion # nE], Inl errBadProof))"
  using assms by (simp add: edgeHandshake_def Let_def)

lemma origin_run:
  assumes "length nE = nonceLen" "length given = proofLen" "\<And>x. wr x"
  shows "originHandshake mac wr token (Some nO) (protocolVersion # nE @ given @ more) =
    ([nO @ proof_mac mac token ''origin'' nE nO],
     if given = proof_mac mac token ''edge'' nE nO then Inr () else Inl errBadProof)"
  using assms by (simp add: originHandshake_def Let_def)

text \<open>
  Replayed and reflected proofs are refused: of all the proofs ever made, in either direction and under any
  token, an end accepts the one made for its own nonce, by the other side, with its own token.
\<close>

theorem edge_accepts_iff:
  assumes "mac_ok mac {(token, transcript ''origin'' nE nO), (t, transcript l a b)}"
    "length nE = nonceLen" "length nO = nonceLen" "length a = nonceLen" "length b = nonceLen" "\<And>x. wr x"
  shows "snd (edgeHandshake mac wr token (Some nE) (nO @ proof_mac mac t l a b @ more)) = Inr () \<longleftrightarrow>
    t = token \<and> l = ''origin'' \<and> a = nE \<and> b = nO"
proof -
  note e = proof_eqD [OF assms(1), of t l a b token "''origin''" nE nO] transcript_inj [OF assms(4,2,5,3), of l "''origin''"]
  show ?thesis unfolding edge_run [OF assms(3) proof_length [OF assms(1)] assms(6)] using e by simp
qed

theorem origin_accepts_iff:
  assumes "mac_ok mac {(token, transcript ''edge'' nE nO), (t, transcript l a b)}"
    "length nE = nonceLen" "length nO = nonceLen" "length a = nonceLen" "length b = nonceLen" "\<And>x. wr x"
  shows "snd (originHandshake mac wr token (Some nO) (protocolVersion # nE @ proof_mac mac t l a b @ more)) = Inr () \<longleftrightarrow>
    t = token \<and> l = ''edge'' \<and> a = nE \<and> b = nO"
proof -
  note e = proof_eqD [OF assms(1), of t l a b token "''edge''" nE nO] transcript_inj [OF assms(4,2,5,3), of l "''edge''"]
  show ?thesis unfolding origin_run [OF assms(2) proof_length [OF assms(1)] assms(6)] using e by simp
qed

lemma linked_streams:
  assumes "length nE = nonceLen" "\<And>x. wr x"
    "se = concat (fst (originHandshake mac wr tO (Some nO) so))" "so = concat (fst (edgeHandshake mac wr tE (Some nE) se))"
  shows "se = nO @ proof_mac mac tO ''origin'' nE nO" "take (1 + nonceLen) so = protocolVersion # nE"
proof -
  have "\<exists>x. so = (protocolVersion # nE) @ x"
    unfolding assms(4) using assms(2) by (auto simp: edgeHandshake_def Let_def)
  then obtain x where x: "so = (protocolVersion # nE) @ x" ..
  show "take (1 + nonceLen) so = protocolVersion # nE" using x assms(1) by simp
  show "se = nO @ proof_mac mac tO ''origin'' nE nO"
    unfolding assms(3) x using assms(1,2) by (simp add: originHandshake_def Let_def)
qed



section \<open>Requests, datagrams and targets\<close>

lemma request_roundtrip:
  assumes "writeRequest kind target = Inr f" "kind = kindTCP \<or> kind = kindUDP"
  shows "readRequest (f @ rest) = Inr ((kind, target), rest)"
proof -
  have l: "target \<noteq> []" "length target \<le> 512" and f: "f = kind # be_put 2 (word_of_nat (length target) :: u16) @ target"
    using assms(1) by (auto simp: writeRequest_def maxTargetLen_def split: if_splits)
  have u: "unat (word_of_nat (length target) :: u16) = length target" using l by (intro unat_of_nat16) simp
  have s: "slice 1 3 (f @ rest) = be_put 2 (word_of_nat (length target) :: u16)" by (simp add: f slice_def)
  show ?thesis unfolding readRequest_def s using l u assms(2) by (simp add: f Let_def maxTargetLen_def)
qed

text \<open>The direct tunnel repeats the datagram framing of the reverse transports to the letter.\<close>

lemma datagram_twins: "writeDatagram = WriteDatagram" "readDatagram = ReadDatagram"
  by (simp_all add: fun_eq_iff writeDatagram_def WriteDatagram_def readDatagram_def ReadDatagram_def Let_def
      maxDatagram_def MaxDatagram_def)

text \<open>The list is what it says, in the four-byte and the mapped form of each address.\<close>

lemma metadata_parsed:
  "metadataAddrs = [Some (v4_in_v6 @ [169, 254, 169, 254]), Some (v4_in_v6 @ [100, 100, 100, 200]),
     Some ([0xfd, 0, 0x0e, 0xc2] @ replicate 10 0 @ [0x02, 0x54]), Some (v4_in_v6 @ [169, 254, 169, 253])]"
  by (simp add: metadataAddrs_def ParseIP_def parse_addr_def parse_v4_def parse_v6_def v6_groups.simps v4_field_def hex_num_def hex_val_def
      digits_val_def digit_val_def is_digit_def Let_def v4_in_v6_def)

definition mapped_form :: "bytes \<Rightarrow> bytes" where
  "mapped_form ip = (if length ip = 4 then v4_in_v6 @ ip else ip)"

lemma ip_equal_mapped: "length m = 16 \<Longrightarrow> ip_equal m ip \<longleftrightarrow> mapped_form ip = m"
proof -
  assume m: "length m = 16"
  have c: "length v4_in_v6 = 12" by (simp add: v4_in_v6_def)
  have "take 12 m = v4_in_v6 \<and> drop 12 m = ip \<longleftrightarrow> m = v4_in_v6 @ ip"
    using c by (metis append_eq_conv_conj append_take_drop_id)
  then show ?thesis using m by (auto simp: ip_equal_def mapped_form_def)
qed

lemma metadata_iff: "isMetadataAddr ip \<longleftrightarrow> Some (mapped_form ip) \<in> set metadataAddrs"
proof -
  have l: "length v4_in_v6 = 12" by (simp add: v4_in_v6_def)
  have "addr_in ip (map Some ms) \<longleftrightarrow> mapped_form ip \<in> set ms" if "list_all (\<lambda>m. length m = 16) ms" for ms
    using that by (induction ms) (auto simp: ip_equal_mapped)
  from this [of "map the metadataAddrs"] show ?thesis by (simp add: isMetadataAddr_def metadata_parsed l)
qed

definition target_addrs :: "(string \<Rightarrow> bytes list option) \<Rightarrow> string \<Rightarrow> bytes list" where
  "target_addrs lookup host =
     (case ParseIP host of Some ip \<Rightarrow> [ip] | None \<Rightarrow> (case lookup host of None \<Rightarrow> [] | Some ips \<Rightarrow> ips))"

text \<open>
  The origin passes a target exactly when it is a host and a port and none of the addresses the host stands for,
  however they are written, is a metadata service.
\<close>

theorem vetTarget_iff:
  "vetTarget lookup target = Inr () \<longleftrightarrow>
   (\<exists>host port. split_host_port target = Some (host, port) \<and>
      list_all (\<lambda>ip. Some (mapped_form ip) \<notin> set metadataAddrs) (target_addrs lookup host))"
  by (auto simp: vetTarget_def target_addrs_def metadata_iff list_all_iff list_ex_iff
      split: option.splits prod.splits)

end
