(* ===== verification/DirectEdge.thy ===== *)
theory DirectEdge
  imports DirectAuth Forward
begin

text \<open>
  The two halves of the direct tunnel (\<open>internal/tunnel/direct\<close>): its configuration (\<open>config.go\<close>), the edge that keeps
  sessions to the origin and serves the forwarded ports (\<open>edge.go\<close>, \<open>session.go\<close>), and the origin that joins streams to
  backends (\<open>origin.go\<close>). The mux below is a library: a session is a number, whether it is usable and what opening a
  stream on it gives are arguments. Times are nanoseconds.
\<close>

section \<open>Configuration\<close>

text \<open>The fields that \<open>Validate\<close> and the two halves read; names, certificates' domains and socket options are only handed on.\<close>

definition RoleEdge :: string where "RoleEdge = ''edge''"
definition RoleOrigin :: string where "RoleOrigin = ''origin''"

definition knownTransport :: "string \<Rightarrow> bool" where
  "knownTransport t \<longleftrightarrow> t = ''tcp'' \<or> t = ''stealth'' \<or> t = ''ws'' \<or> t = ''wss''"

definition defaultDialTimeout :: int where "defaultDialTimeout = 10 * 1000000000"
definition defaultRetryDelay :: int where "defaultRetryDelay = 3 * 1000000000"
definition defaultMaxFrameSize :: int where "defaultMaxFrameSize = 32768"
definition defaultMaxReceive :: int where "defaultMaxReceive = 4194304"
definition defaultMaxStream :: int where "defaultMaxStream = 65536"
definition defaultACMECacheDir :: string where "defaultACMECacheDir = ''/etc/parstanel/acme''"
definition DefaultBackendHost :: string where "DefaultBackendHost = ''127.0.0.1''"

record direct_config =
  d_Role :: string
  d_Addr :: string
  d_Token :: string
  d_Transport :: string
  d_TLSCertFile :: string
  d_TLSKeyFile :: string
  d_ACMECacheDir :: string
  d_Ports :: "string list"
  d_AcceptUDP :: bool
  d_MaxConnections :: int
  d_BandwidthMbps :: int
  d_Sessions :: int
  d_DialTimeout :: int
  d_RetryDelay :: int
  d_MaxFrameSize :: int
  d_MaxReceiveBuffer :: int
  d_MaxStreamBuffer :: int

datatype direct_config_error = RoleRequired | UnknownRole string | AddrRequired string | AddrNotHostPort string | TokenRequired
  | UnknownTransport string | CertWithoutKey | NoPorts | BadPorts portmap_error | TooManySessions int

text \<open>The four stages of \<open>Validate\<close>: who and where, how, the ports, the numbers.\<close>

definition validate_role :: "direct_config \<Rightarrow> direct_config_error + direct_config" where
  "validate_role c0 =
     (let c = c0\<lparr>d_Role := to_lower (trim_space (d_Role c0))\<rparr> in
      if d_Role c \<noteq> RoleEdge \<and> d_Role c \<noteq> RoleOrigin then Inl (if d_Role c = [] then RoleRequired else UnknownRole (d_Role c))
      else if trim_space (d_Addr c) = [] then Inl (AddrRequired (d_Role c))
      else if split_host_port (d_Addr c) = None then Inl (AddrNotHostPort (d_Addr c))
      else if trim_space (d_Token c) = [] then Inl TokenRequired
      else Inr c)"

definition validate_transport :: "direct_config \<Rightarrow> direct_config_error + direct_config" where
  "validate_transport c0 =
     (let t = to_lower (trim_space (d_Transport c0)); c = c0\<lparr>d_Transport := (if t = [] then ''tcp'' else t)\<rparr> in
      if t \<noteq> [] \<and> \<not> knownTransport t then Inl (UnknownTransport t)
      else if (d_TLSCertFile c = []) \<noteq> (d_TLSKeyFile c = []) then Inl CertWithoutKey
      else Inr (if d_ACMECacheDir c = [] then c\<lparr>d_ACMECacheDir := defaultACMECacheDir\<rparr> else c))"

definition validate_ports :: "direct_config \<Rightarrow> direct_config_error + direct_config" where
  "validate_ports c =
     (if d_Role c \<noteq> RoleEdge then Inr c
      else if d_Ports c = [] then Inl NoPorts
      else case Expand (d_Ports c) DefaultBackendHost of Inl e \<Rightarrow> Inl (BadPorts e) | Inr _ \<Rightarrow> Inr c)"

definition or_default :: "int \<Rightarrow> int \<Rightarrow> int" where
  "or_default dflt x = (if x \<le> 0 then dflt else x)"

definition validate_numbers :: "direct_config \<Rightarrow> direct_config_error + direct_config" where
  "validate_numbers c0 =
     (let c = c0\<lparr>d_Sessions := or_default 1 (d_Sessions c0)\<rparr> in
      if 64 < d_Sessions c then Inl (TooManySessions (d_Sessions c))
      else Inr (c\<lparr>d_DialTimeout := or_default defaultDialTimeout (d_DialTimeout c), d_RetryDelay := or_default defaultRetryDelay (d_RetryDelay c),
                  d_MaxFrameSize := or_default defaultMaxFrameSize (d_MaxFrameSize c),
                  d_MaxReceiveBuffer := or_default defaultMaxReceive (d_MaxReceiveBuffer c),
                  d_MaxStreamBuffer := or_default defaultMaxStream (d_MaxStreamBuffer c)\<rparr>))"

definition direct_Validate :: "direct_config \<Rightarrow> direct_config_error + direct_config" where
  "direct_Validate c =
     (case validate_role c of Inl e \<Rightarrow> Inl e
      | Inr c \<Rightarrow> (case validate_transport c of Inl e \<Rightarrow> Inl e
        | Inr c \<Rightarrow> (case validate_ports c of Inl e \<Rightarrow> Inl e | Inr c \<Rightarrow> validate_numbers c)))"

section \<open>The edge\<close>

record edge =
  ed_cfg :: direct_config
  ed_mappings :: "mapping list"
  ed_limiter :: "limiter option"
  ed_sessions :: "nat list"
  ed_cursor :: u64
  ed_nsessions :: "64 word"
  ed_accepted :: u64
  ed_refused :: u64
  ed_active :: "64 word"

definition NewEdge :: "direct_config \<Rightarrow> direct_config_error + edge" where
  "NewEdge cfg =
     (case direct_Validate (cfg\<lparr>d_Role := RoleEdge\<rparr>) of
        Inl e \<Rightarrow> Inl e
      | Inr cfg \<Rightarrow>
          (case Expand (d_Ports cfg) DefaultBackendHost of
             Inl e \<Rightarrow> Inl (BadPorts e)
           | Inr mappings \<Rightarrow>
               Inr \<lparr>ed_cfg = cfg, ed_mappings = mappings, ed_limiter = limits_New (d_MaxConnections cfg) (d_BandwidthMbps cfg),
                    ed_sessions = [], ed_cursor = 0, ed_nsessions = 0, ed_accepted = 0, ed_refused = 0, ed_active = 0\<rparr>))"

definition addSession :: "nat \<Rightarrow> edge \<Rightarrow> edge" where
  "addSession s e = e\<lparr>ed_sessions := ed_sessions e @ [s], ed_nsessions := ed_nsessions e + 1\<rparr>"

definition removeSession :: "nat \<Rightarrow> edge \<Rightarrow> edge" where
  "removeSession s e =
     (let next = filter (\<lambda>x. x \<noteq> s) (ed_sessions e); removed = list_ex (\<lambda>x. x = s) (ed_sessions e) in
      e\<lparr>ed_sessions := next, ed_nsessions := (if removed then ed_nsessions e - 1 else ed_nsessions e)\<rparr>)"

text \<open>\<open>keepSession\<close>, one of a fixed number of goroutines: what it holds, and each of its steps.\<close>

datatype keeper = Keep_dialing | Keep_open nat | Keep_sleeping | Keep_ended

datatype keeper_event = K_dialed "nat option" | K_dead | K_wake | K_cancel

definition keepSession :: "keeper_event \<Rightarrow> keeper \<times> edge \<Rightarrow> keeper \<times> edge" where
  "keepSession ev st =
     (case (ev, st) of
        (K_dialed None, (Keep_dialing, e)) \<Rightarrow> (Keep_sleeping, e)
      | (K_dialed (Some s), (Keep_dialing, e)) \<Rightarrow> (Keep_open s, addSession s e)
      | (K_dead, (Keep_open s, e)) \<Rightarrow> (Keep_sleeping, removeSession s e)
      | (K_wake, (Keep_sleeping, e)) \<Rightarrow> (Keep_dialing, e)
      | (K_cancel, (Keep_open s, e)) \<Rightarrow> (Keep_ended, removeSession s e)
      | (K_cancel, (_, e)) \<Rightarrow> (Keep_ended, e)
      | _ \<Rightarrow> st)"

text \<open>The scan of \<open>pickSession\<close> from offset \<open>i\<close>; \<open>None\<close> is the panic on a negative index.\<close>

fun usable_from :: "(nat \<Rightarrow> bool) \<Rightarrow> nat list \<Rightarrow> int \<Rightarrow> nat \<Rightarrow> nat \<Rightarrow> nat option option" where
  "usable_from usable sessions start i 0 = Some None"
| "usable_from usable sessions start i (Suc left) =
     (let idx = (start + int i) smod int (length sessions) in
      if idx < 0 then None
      else if usable (sessions ! nat idx) then Some (Some (sessions ! nat idx)) else usable_from usable sessions start (Suc i) left)"

definition pickSession :: "(nat \<Rightarrow> bool) \<Rightarrow> edge \<Rightarrow> edge \<times> nat option option" where
  "pickSession usable e =
     (let sessions = ed_sessions e in
      if sessions = [] then (e, Some None)
      else let e = e\<lparr>ed_cursor := ed_cursor e + 1\<rparr>; start = sint (ed_cursor e - 1) smod int (length sessions) in
           (e, usable_from usable sessions start 0 (length sessions)))"

definition streamOK :: byte where "streamOK = 1"
definition streamFailed :: byte where "streamFailed = 2"

text \<open>\<open>openStream\<close>: whether the session opens a stream, and the byte that comes back on it, if one does. The result is
  what was written.\<close>

datatype open_error = NoSession | OpenFailed | BadRequest direct_error | NoAnswer | OriginRefused string

definition openStream :: "bool \<Rightarrow> byte \<Rightarrow> string \<Rightarrow> (bytes \<Rightarrow> byte option) \<Rightarrow> open_error + bytes" where
  "openStream opened kind target answer =
     (if \<not> opened then Inl OpenFailed
      else case writeRequest kind (str_bytes target) of
             Inl e \<Rightarrow> Inl (BadRequest e)
           | Inr req \<Rightarrow>
               (case answer req of
                  None \<Rightarrow> Inl NoAnswer
                | Some b \<Rightarrow> if b \<noteq> streamOK then Inl (OriginRefused target) else Inr req))"

text \<open>The loop over the backends of a mapping, from a rotating start.\<close>

fun open_loop :: "(string \<Rightarrow> open_error + 'c) \<Rightarrow> string list \<Rightarrow> int \<Rightarrow> nat \<Rightarrow> nat \<Rightarrow> open_error \<Rightarrow> (open_error + 'c) option" where
  "open_loop opener targets start i 0 lastErr = Some (Inl lastErr)"
| "open_loop opener targets start i (Suc left) lastErr =
     (let idx = (start + int i) smod int (length targets) in
      if idx < 0 then None
      else case opener (targets ! nat idx) of
             Inr stream \<Rightarrow> Some (Inr stream)
           | Inl e \<Rightarrow> open_loop opener targets start (Suc i) left e)"

text \<open>A mapping without targets divides by zero.\<close>

definition openFor :: "(nat \<Rightarrow> bool) \<Rightarrow> (nat \<Rightarrow> byte \<Rightarrow> string \<Rightarrow> open_error + 'c) \<Rightarrow> byte \<Rightarrow> mapping \<Rightarrow> edge \<Rightarrow> edge \<times> (open_error + 'c) option" where
  "openFor usable opener kind m e =
     (case pickSession usable e of
        (e, None) \<Rightarrow> (e, None)
      | (e, Some None) \<Rightarrow> (e, Some (Inl NoSession))
      | (e, Some (Some s)) \<Rightarrow>
          let e = e\<lparr>ed_cursor := ed_cursor e + 1\<rparr> in
          if m_Targets m = [] then (e, None)
          else (e, open_loop (opener s kind) (m_Targets m) (sint (ed_cursor e - 1) smod int (length (m_Targets m))) 0 (length (m_Targets m)) NoSession))"

section \<open>Users\<close>

text \<open>\<open>handle\<close> up to \<open>pipe\<close>, and the deferred calls after it.\<close>

definition edge_handle ::
    "(nat \<Rightarrow> bool) \<Rightarrow> (nat \<Rightarrow> byte \<Rightarrow> string \<Rightarrow> open_error + 'c) \<Rightarrow> mapping \<Rightarrow> edge \<Rightarrow> (edge \<times> 'c option) option" where
  "edge_handle usable opener m e =
     (case limits_Acquire (ed_limiter e) of
        (lim, False) \<Rightarrow> Some (e\<lparr>ed_limiter := lim, ed_refused := ed_refused e + 1\<rparr>, None)
      | (lim, True) \<Rightarrow>
          (case openFor usable opener kindTCP m (e\<lparr>ed_limiter := lim\<rparr>) of
             (e, None) \<Rightarrow> None
           | (e, Some (Inl _)) \<Rightarrow> Some (e\<lparr>ed_refused := ed_refused e + 1, ed_limiter := limits_Release (ed_limiter e)\<rparr>, None)
           | (e, Some (Inr stream)) \<Rightarrow> Some (e\<lparr>ed_accepted := ed_accepted e + 1, ed_active := ed_active e + 1\<rparr>, Some stream)))"

definition edge_handle_end :: "edge \<Rightarrow> edge" where
  "edge_handle_end e = e\<lparr>ed_active := ed_active e - 1, ed_limiter := limits_Release (ed_limiter e)\<rparr>"

record direct_flow =
  df_lastSeen :: int
  df_closed :: bool

definition direct_idle :: "direct_flow \<Rightarrow> int \<Rightarrow> int \<Rightarrow> bool" where
  "direct_idle f now limit \<longleftrightarrow> limit < now - df_lastSeen f"

type_synonym direct_flows = "nat \<times> string \<rightharpoonup> direct_flow"

text \<open>Flows are kept per mapping, by the client's address. \<open>flows'\<close> is the table when the new flow is stored.\<close>

definition edge_udpFlowFor ::
    "(nat \<Rightarrow> bool) \<Rightarrow> (nat \<Rightarrow> byte \<Rightarrow> string \<Rightarrow> open_error + 'c) \<Rightarrow> int \<Rightarrow> mapping \<Rightarrow> nat \<times> string \<Rightarrow> direct_flows \<Rightarrow> direct_flows \<Rightarrow> edge \<Rightarrow>
     (edge \<times> direct_flows \<times> bool) option" where
  "edge_udpFlowFor usable opener now m key flows flows' e =
     (if flows key \<noteq> None then Some (e, flows, True)
      else case limits_Acquire (ed_limiter e) of
             (lim, False) \<Rightarrow> Some (e\<lparr>ed_limiter := lim\<rparr>, flows', False)
           | (lim, True) \<Rightarrow>
               (case openFor usable opener kindUDP m (e\<lparr>ed_limiter := lim\<rparr>) of
                  (e, None) \<Rightarrow> None
                | (e, Some (Inl _)) \<Rightarrow> Some (e\<lparr>ed_limiter := limits_Release (ed_limiter e)\<rparr>, flows', False)
                | (e, Some (Inr _)) \<Rightarrow>
                    if flows' key \<noteq> None then Some (e\<lparr>ed_limiter := limits_Release (ed_limiter e)\<rparr>, flows', True)
                    else Some (e\<lparr>ed_accepted := ed_accepted e + 1, ed_active := ed_active e + 1\<rparr>,
                               flows'(key \<mapsto> \<lparr>df_lastSeen = now, df_closed = False\<rparr>), True)))"

text \<open>A datagram of \<open>serveUDP\<close>, and what is written to the flow's stream; \<open>wrote\<close> is whether the stream takes it.\<close>

definition edge_datagram ::
    "(nat \<Rightarrow> bool) \<Rightarrow> (nat \<Rightarrow> byte \<Rightarrow> string \<Rightarrow> open_error + 'c) \<Rightarrow> int \<Rightarrow> mapping \<Rightarrow> nat \<times> string \<Rightarrow> bytes \<Rightarrow> bool \<Rightarrow> direct_flows \<Rightarrow> edge \<Rightarrow>
     (edge \<times> direct_flows \<times> bytes option) option" where
  "edge_datagram usable opener now m key payload wrote flows e =
     (case edge_udpFlowFor usable opener now m key flows flows e of
        None \<Rightarrow> None
      | Some (e, flows, False) \<Rightarrow> Some (e\<lparr>ed_refused := ed_refused e + 1\<rparr>, flows, None)
      | Some (e, flows, True) \<Rightarrow>
          let touched = (\<lambda>ok. flows(key := map_option (\<lambda>f. f\<lparr>df_lastSeen := now, df_closed := df_closed f \<or> \<not> ok\<rparr>) (flows key))) in
          (case writeDatagram payload of
             Inl _ \<Rightarrow> Some (e, touched False, None)
           | Inr b \<Rightarrow> Some (e, touched wrote, if wrote then Some b else None)))"

definition edge_flow_end :: "nat \<times> string \<Rightarrow> direct_flows \<Rightarrow> edge \<Rightarrow> edge \<times> direct_flows" where
  "edge_flow_end key flows e =
     (e\<lparr>ed_active := ed_active e - 1, ed_limiter := limits_Release (ed_limiter e)\<rparr>, flows(key := None))"

definition edge_reap :: "int \<Rightarrow> direct_flows \<Rightarrow> direct_flows" where
  "edge_reap now flows =
     (\<lambda>key. map_option (\<lambda>f. if direct_idle f now udpFlowIdle then f\<lparr>df_closed := True\<rparr> else f) (flows key))"

section \<open>The origin\<close>

record origin =
  or_streams :: u64
  or_failed :: u64
  or_active :: "64 word"

text \<open>\<open>serveStream\<close> up to the copying: what it answers, and the backend it joined with its network and the bytes after the
  request. \<open>dial\<close> is one dial, \<open>wrote\<close> whether the answer could be written.\<close>

definition direct_dialBackend :: "(string \<Rightarrow> bytes list option) \<Rightarrow> (string \<Rightarrow> string \<Rightarrow> bool) \<Rightarrow> string \<Rightarrow> string \<Rightarrow> bool" where
  "direct_dialBackend lookup dial network target = (case vetTarget lookup target of Inl _ \<Rightarrow> False | Inr _ \<Rightarrow> dial network target)"

definition serveStream ::
    "(string \<Rightarrow> bytes list option) \<Rightarrow> (string \<Rightarrow> string \<Rightarrow> bool) \<Rightarrow> bool \<Rightarrow> bytes \<Rightarrow> origin \<Rightarrow> origin \<times> byte option \<times> (string \<times> string \<times> bytes) option" where
  "serveStream lookup dial wrote src og =
     (case readRequest src of
        Inl _ \<Rightarrow> (og\<lparr>or_failed := or_failed og + 1\<rparr>, None, None)
      | Inr ((kind, target), rest) \<Rightarrow>
          let network = (if kind = kindUDP then ''udp'' else ''tcp''); target = bytes_str target in
          if \<not> direct_dialBackend lookup dial network target then (og\<lparr>or_failed := or_failed og + 1\<rparr>, Some streamFailed, None)
          else if \<not> wrote then (og, None, None)
          else (og\<lparr>or_streams := or_streams og + 1, or_active := or_active og + 1\<rparr>, Some streamOK, Some (network, target, rest)))"

definition serveStream_end :: "origin \<Rightarrow> origin" where
  "serveStream_end og = og\<lparr>or_active := or_active og - 1\<rparr>"

section \<open>Validation is final\<close>

lemma role_word: "r = RoleEdge \<or> r = RoleOrigin \<Longrightarrow> to_lower (trim_space r) = r"
  by (auto simp: RoleEdge_def RoleOrigin_def trim_space_solid solid_def ascii_lower_def)

lemma transport_word: "knownTransport t \<Longrightarrow> to_lower (trim_space t) = t \<and> t \<noteq> []"
  by (auto simp: knownTransport_def trim_space_solid solid_def ascii_lower_def)

text \<open>What each stage leaves, and that it leaves that alone.\<close>

definition role_ok :: "direct_config \<Rightarrow> bool" where
  "role_ok c \<longleftrightarrow> (d_Role c = RoleEdge \<or> d_Role c = RoleOrigin) \<and> trim_space (d_Addr c) \<noteq> [] \<and> split_host_port (d_Addr c) \<noteq> None \<and>
     trim_space (d_Token c) \<noteq> []"

definition transport_ok :: "direct_config \<Rightarrow> bool" where
  "transport_ok c \<longleftrightarrow> knownTransport (d_Transport c) \<and> (d_TLSCertFile c = []) = (d_TLSKeyFile c = []) \<and> d_ACMECacheDir c \<noteq> []"

definition ports_ok :: "direct_config \<Rightarrow> bool" where
  "ports_ok c \<longleftrightarrow> d_Role c = RoleEdge \<longrightarrow> d_Ports c \<noteq> [] \<and> \<not> isl (Expand (d_Ports c) DefaultBackendHost)"

definition numbers_ok :: "direct_config \<Rightarrow> bool" where
  "numbers_ok c \<longleftrightarrow> 1 \<le> d_Sessions c \<and> d_Sessions c \<le> 64 \<and> 0 < d_DialTimeout c \<and> 0 < d_RetryDelay c \<and> 0 < d_MaxFrameSize c \<and>
     0 < d_MaxReceiveBuffer c \<and> 0 < d_MaxStreamBuffer c"

definition direct_ok :: "direct_config \<Rightarrow> bool" where
  "direct_ok c \<longleftrightarrow> role_ok c \<and> transport_ok c \<and> ports_ok c \<and> numbers_ok c"

lemma direct_Validate_stages:
  "direct_Validate c = Inr c' \<longleftrightarrow>
   (\<exists>c1 c2 c3. validate_role c = Inr c1 \<and> validate_transport c1 = Inr c2 \<and> validate_ports c2 = Inr c3 \<and> validate_numbers c3 = Inr c')"
  by (auto simp: direct_Validate_def split: sum.splits)

lemma stage_results:
  "validate_role c = Inr c1 \<Longrightarrow> role_ok c1"
  "validate_transport c1 = Inr c2 \<Longrightarrow> role_ok c1 \<Longrightarrow> role_ok c2 \<and> transport_ok c2"
  "validate_ports c2 = Inr c3 \<Longrightarrow> c3 = c2 \<and> ports_ok c2"
  "validate_numbers c3 = Inr c4 \<Longrightarrow> role_ok c3 \<and> transport_ok c3 \<and> ports_ok c3 \<Longrightarrow> direct_ok c4"
proof -
  show "validate_role c = Inr c1 \<Longrightarrow> role_ok c1" by (auto simp: validate_role_def role_ok_def Let_def split: if_splits)
  show "validate_transport c1 = Inr c2 \<Longrightarrow> role_ok c1 \<Longrightarrow> role_ok c2 \<and> transport_ok c2"
    by (auto simp: validate_transport_def role_ok_def transport_ok_def knownTransport_def defaultACMECacheDir_def Let_def split: if_splits)
  show "validate_ports c2 = Inr c3 \<Longrightarrow> c3 = c2 \<and> ports_ok c2"
    by (auto simp: validate_ports_def ports_ok_def split: if_splits sum.splits)
  assume n: "validate_numbers c3 = Inr c4" "role_ok c3 \<and> transport_ok c3 \<and> ports_ok c3"
  define d where "d = c3\<lparr>d_Sessions := or_default 1 (d_Sessions c3)\<rparr>"
  have c4: "c4 = d\<lparr>d_DialTimeout := or_default defaultDialTimeout (d_DialTimeout d), d_RetryDelay := or_default defaultRetryDelay (d_RetryDelay d),
      d_MaxFrameSize := or_default defaultMaxFrameSize (d_MaxFrameSize d), d_MaxReceiveBuffer := or_default defaultMaxReceive (d_MaxReceiveBuffer d),
      d_MaxStreamBuffer := or_default defaultMaxStream (d_MaxStreamBuffer d)\<rparr>" and s: "d_Sessions d \<le> 64"
    using n(1) unfolding validate_numbers_def Let_def d_def [symmetric] by (simp_all split: if_splits)
  have "1 \<le> d_Sessions d" by (simp add: d_def or_default_def)
  moreover have p: "0 < or_default x y" if "0 < x" for x y using that by (simp add: or_default_def)
  ultimately have "numbers_ok c4" using s unfolding c4 numbers_ok_def
    by (simp add: p defaultDialTimeout_def defaultRetryDelay_def defaultMaxFrameSize_def defaultMaxReceive_def defaultMaxStream_def)
  then show "direct_ok c4" using n(2) unfolding c4 d_def direct_ok_def by (simp add: role_ok_def transport_ok_def ports_ok_def)
qed

lemma direct_ok_stays:
  assumes "direct_ok c"
  shows "direct_Validate c = Inr c"
proof -
  note ok = assms [unfolded direct_ok_def role_ok_def transport_ok_def ports_ok_def numbers_ok_def]
  have "validate_role c = Inr c" using ok role_word [of "d_Role c"] by (auto simp: validate_role_def Let_def)
  moreover have "validate_transport c = Inr c" using ok transport_word [of "d_Transport c"] by (simp add: validate_transport_def Let_def)
  moreover have "validate_ports c = Inr c" using ok by (auto simp: validate_ports_def isl_def split: sum.split)
  moreover have "validate_numbers c = Inr c" using ok by (simp add: validate_numbers_def or_default_def)
  ultimately show ?thesis by (simp add: direct_Validate_def)
qed

text \<open>An accepted configuration is one the tunnel can run, and validating it again changes nothing.\<close>

lemma direct_Validate_final: "direct_Validate c = Inr c' \<Longrightarrow> direct_ok c' \<and> direct_Validate c' = Inr c'"
  using stage_results direct_ok_stays by (metis direct_Validate_stages)

section \<open>Which session a user gets\<close>

lemma sint_cursor: "unat (c :: u64) < 2 ^ 63 \<Longrightarrow> sint c = int (unat c)"
proof -
  assume c: "unat c < 2 ^ 63"
  have "uint c = int (unat c)" by simp
  then show ?thesis using c by (simp add: sint_uint signed_take_bit_int_eq_self del: of_nat_unat)
qed

lemma start_index: "unat (c :: u64) < 2 ^ 63 \<Longrightarrow> 0 < n \<Longrightarrow> sint c smod int n = int (unat c mod n)"
  by (simp add: sint_cursor smod_nonneg zmod_int)

lemma pickSession_all:
  assumes "ed_sessions e \<noteq> []" "list_all usable (ed_sessions e)" "unat (ed_cursor e) < 2 ^ 63"
  shows "pickSession usable e =
    (e\<lparr>ed_cursor := ed_cursor e + 1\<rparr>, Some (Some (ed_sessions e ! (unat (ed_cursor e) mod length (ed_sessions e)))))"
proof -
  let ?n = "length (ed_sessions e)"
  obtain k where k: "?n = Suc k" using assms(1) by (cases "ed_sessions e") auto
  have i: "unat (ed_cursor e) mod ?n < ?n" using k by simp
  have u: "usable (ed_sessions e ! (unat (ed_cursor e) mod ?n))" using assms(2) i by (simp add: list_all_length)
  have s: "sint (ed_cursor e) smod int ?n = int (unat (ed_cursor e) mod ?n)"
    using assms(1) by (intro start_index [OF assms(3)]) simp
  have "int (unat (ed_cursor e) mod ?n) smod int ?n = int (unat (ed_cursor e) mod ?n)" using k by (simp add: smod_nonneg zmod_int)
  then have "usable_from usable (ed_sessions e) (int (unat (ed_cursor e) mod ?n)) 0 ?n = Some (Some (ed_sessions e ! (unat (ed_cursor e) mod ?n)))"
    using u k by simp
  then show ?thesis using assms(1) s by (simp add: pickSession_def Let_def)
qed

lemma openFor_cursor:
  assumes "ed_sessions e \<noteq> []" "list_all usable (ed_sessions e)" "unat (ed_cursor e) < 2 ^ 63"
  shows "fst (openFor usable opener kind m e) = e\<lparr>ed_cursor := ed_cursor e + 2\<rparr>"
  by (simp add: openFor_def pickSession_all [OF assms] Let_def add.assoc)

text \<open>The sessions that requests get, one after the other; what becomes of the streams is the opener's.\<close>

fun picks :: "(nat \<Rightarrow> bool) \<Rightarrow> (nat \<Rightarrow> byte \<Rightarrow> string \<Rightarrow> open_error + 'c) \<Rightarrow> (byte \<times> mapping) list \<Rightarrow> edge \<Rightarrow> nat option option list" where
  "picks usable opener [] e = []"
| "picks usable opener ((kind, m) # rs) e = snd (pickSession usable e) # picks usable opener rs (fst (openFor usable opener kind m e))"

lemma unat_plus2: "unat (c :: u64) + 2 < 2 ^ 63 \<Longrightarrow> unat (c + 2) = unat c + 2"
  by (subst unat_word_ariths(1)) simp

lemma picks_eq:
  assumes "ed_sessions e \<noteq> []" "list_all usable (ed_sessions e)" "unat (ed_cursor e) + 2 * length reqs < 2 ^ 63"
  shows "picks usable opener reqs e =
    map (\<lambda>j. Some (Some (ed_sessions e ! ((unat (ed_cursor e) + 2 * j) mod length (ed_sessions e))))) [0..<length reqs]"
  using assms
proof (induction reqs arbitrary: e)
  case (Cons r reqs)
  obtain kind m where r: "r = (kind, m)" by fastforce
  let ?e = "e\<lparr>ed_cursor := ed_cursor e + 2\<rparr>"
  have c: "unat (ed_cursor e) < 2 ^ 63" "unat (ed_cursor e + 2) = unat (ed_cursor e) + 2"
    using Cons.prems(3) unat_plus2 [of "ed_cursor e"] by simp_all
  have "picks usable opener reqs ?e =
      map (\<lambda>j. Some (Some (ed_sessions e ! ((unat (ed_cursor e) + 2 + 2 * j) mod length (ed_sessions e))))) [0..<length reqs]"
    using Cons.IH [of ?e] Cons.prems c(2) by simp
  also have "\<dots> = map (\<lambda>j. Some (Some (ed_sessions e ! ((unat (ed_cursor e) + 2 * j) mod length (ed_sessions e))))) [1..<length (r # reqs)]"
    by (rule nth_equalityI) (simp_all add: add.assoc del: upt_Suc)
  finally show ?case using r openFor_cursor [OF Cons.prems(1,2) c(1), of opener kind m] pickSession_all [OF Cons.prems(1,2) c(1)]
    by (simp add: upt_conv_Cons del: upt_Suc)
qed simp

lemma same_parity: "even n \<Longrightarrow> even ((c + 2 * j) mod n) \<longleftrightarrow> even (c :: nat)"
  by (simp add: dvd_mod_iff)

text \<open>The backends are tried in the order of a rotation that starts one further on.\<close>

lemma open_loop_hit:
  assumes "targets \<noteq> []" "0 \<le> start" "start < int (length targets)" "opener (targets ! nat start) = Inr c"
  shows "open_loop opener targets start 0 (length targets) err = Some (Inr c)"
proof -
  obtain k where "length targets = Suc k" using assms(1) by (cases targets) auto
  moreover have "start smod int (length targets) = start" using assms(2,3) by (subst smod_nonneg) auto
  ultimately show ?thesis using assms(2,4) by simp
qed

lemma openFor_first:
  assumes "ed_sessions e \<noteq> []" "list_all usable (ed_sessions e)" "unat (ed_cursor e) + 1 < 2 ^ 63" "m_Targets m \<noteq> []"
    "s = ed_sessions e ! (unat (ed_cursor e) mod length (ed_sessions e))" "t = m_Targets m ! ((unat (ed_cursor e) + 1) mod length (m_Targets m))"
    "opener s kind t = Inr c"
  shows "snd (openFor usable opener kind m e) = Some (Inr c)"
proof -
  have u: "unat (ed_cursor e + 1) = unat (ed_cursor e) + 1" using assms(3) by (subst unat_word_ariths(1)) simp
  have p: "pickSession usable e = (e\<lparr>ed_cursor := ed_cursor e + 1\<rparr>, Some (Some s))"
    using pickSession_all [OF assms(1,2)] assms(3,5) by simp
  have st: "sint (1 + ed_cursor e) smod int (length (m_Targets m)) = int ((unat (ed_cursor e) + 1) mod length (m_Targets m))"
    using start_index [of "ed_cursor e + 1" "length (m_Targets m)"] u assms(3,4) by (simp add: add.commute)
  have "open_loop (opener s kind) (m_Targets m) (int ((unat (ed_cursor e) + 1) mod length (m_Targets m))) 0 (length (m_Targets m)) NoSession =
      Some (Inr c)"
    using assms(4,6,7) by (intro open_loop_hit) simp_all
  then show ?thesis using p st assms(4) by (simp add: openFor_def Let_def)
qed

section \<open>One slot for everything open\<close>

record edge_world =
  w_edge :: edge
  w_tcp :: nat
  w_flows :: direct_flows

datatype edge_event =
    E_user mapping "(nat \<Rightarrow> bool) \<times> (nat \<Rightarrow> byte \<Rightarrow> string \<Rightarrow> open_error + bytes)"
  | E_user_end
  | E_datagram mapping "(nat \<Rightarrow> bool) \<times> (nat \<Rightarrow> byte \<Rightarrow> string \<Rightarrow> open_error + bytes)" "nat \<times> string" bytes bool int
  | E_flow_end "nat \<times> string"
  | E_reap int
  | E_session keeper_event keeper

text \<open>\<open>None\<close> is a panic.\<close>

fun edge_step :: "edge_event \<Rightarrow> edge_world \<Rightarrow> edge_world option" where
  "edge_step (E_user m (usable, opener)) w =
     map_option (\<lambda>(e, r). w\<lparr>w_edge := e, w_tcp := (if r = None then w_tcp w else w_tcp w + 1)\<rparr>) (edge_handle usable opener m (w_edge w))"
| "edge_step E_user_end w = Some (if 0 < w_tcp w then w\<lparr>w_edge := edge_handle_end (w_edge w), w_tcp := w_tcp w - 1\<rparr> else w)"
| "edge_step (E_datagram m (usable, opener) key payload wrote now) w =
     map_option (\<lambda>(e, fl, _). w\<lparr>w_edge := e, w_flows := fl\<rparr>) (edge_datagram usable opener now m key payload wrote (w_flows w) (w_edge w))"
| "edge_step (E_flow_end key) w =
     Some (if w_flows w key = None then w
           else let (e, fl) = edge_flow_end key (w_flows w) (w_edge w) in w\<lparr>w_edge := e, w_flows := fl\<rparr>)"
| "edge_step (E_reap now) w = Some (w\<lparr>w_flows := edge_reap now (w_flows w)\<rparr>)"
| "edge_step (E_session ev k) w = Some (w\<lparr>w_edge := snd (keepSession ev (k, w_edge w))\<rparr>)"

definition edge_open :: "edge_world \<Rightarrow> nat" where
  "edge_open w = w_tcp w + card (dom (w_flows w))"

definition edge_inv :: "nat \<Rightarrow> edge_world \<Rightarrow> bool" where
  "edge_inv n w \<longleftrightarrow> lim_good n (ed_limiter (w_edge w)) \<and> lim_held (ed_limiter (w_edge w)) = edge_open w \<and>
     ed_active (w_edge w) = word_of_nat (edge_open w) \<and> finite (dom (w_flows w))"

lemma openFor_keeps:
  "ed_limiter (fst (openFor usable opener kind m e)) = ed_limiter e" "ed_active (fst (openFor usable opener kind m e)) = ed_active e"
  by (auto simp: openFor_def pickSession_def Let_def split: prod.split option.split)

lemma keepSession_keeps:
  "ed_limiter (snd (keepSession ev (k, e))) = ed_limiter e" "ed_active (snd (keepSession ev (k, e))) = ed_active e"
  by (auto simp: keepSession_def addSession_def removeSession_def Let_def split: keeper_event.split keeper.split option.split)

lemma edge_handle_inv:
  assumes g: "lim_good n (ed_limiter e)" and h: "edge_handle usable opener m e = Some (e', r)"
  shows "lim_good n (ed_limiter e') \<and> lim_held (ed_limiter e') = lim_held (ed_limiter e) + (if r = None then 0 else 1) \<and>
    ed_active e' = ed_active e + (if r = None then 0 else 1)"
  using g
proof (cases rule: limiter_cases)
  case (granted lo')
  obtain e1 q where o: "openFor usable opener kindTCP m (e\<lparr>ed_limiter := lo'\<rparr>) = (e1, q)" by fastforce
  then have "ed_limiter e1 = lo'" "ed_active e1 = ed_active e" using openFor_keeps [of usable opener kindTCP m "e\<lparr>ed_limiter := lo'\<rparr>"] by simp_all
  then show ?thesis using h granted o by (auto simp: edge_handle_def split: option.splits sum.splits)
next
  case (refused lo')
  then show ?thesis using h by (auto simp: edge_handle_def)
qed

lemma edge_flow_inv:
  assumes g: "lim_good n (ed_limiter e)" and h: "edge_udpFlowFor usable opener now m key flows flows e = Some (e', flows', ok)"
  shows "lim_good n (ed_limiter e') \<and>
    (flows' = flows \<and> lim_held (ed_limiter e') = lim_held (ed_limiter e) \<and> ed_active e' = ed_active e \<or>
     (\<exists>fl. flows key = None \<and> flows' = flows(key \<mapsto> fl)) \<and> lim_held (ed_limiter e') = lim_held (ed_limiter e) + 1 \<and> ed_active e' = ed_active e + 1)"
  using g
proof (cases rule: limiter_cases)
  case (granted lo')
  obtain e1 q where o: "openFor usable opener kindUDP m (e\<lparr>ed_limiter := lo'\<rparr>) = (e1, q)" by fastforce
  then have "ed_limiter e1 = lo'" "ed_active e1 = ed_active e" using openFor_keeps [of usable opener kindUDP m "e\<lparr>ed_limiter := lo'\<rparr>"] by simp_all
  then show ?thesis using h g granted o by (auto simp: edge_udpFlowFor_def split: if_splits option.splits sum.splits)
next
  case (refused lo')
  then show ?thesis using h g by (auto simp: edge_udpFlowFor_def split: if_splits)
qed

lemma edge_datagram_inv:
  assumes g: "lim_good n (ed_limiter e)" and fin: "finite (dom flows)"
    and h: "edge_datagram usable opener now m key payload wrote flows e = Some (e', flows', out)"
  shows "lim_good n (ed_limiter e') \<and> finite (dom flows') \<and>
    (\<exists>k. card (dom flows') = card (dom flows) + k \<and> lim_held (ed_limiter e') = lim_held (ed_limiter e) + k \<and> ed_active e' = ed_active e + word_of_nat k)"
proof -
  obtain e1 fl1 ok where u: "edge_udpFlowFor usable opener now m key flows flows e = Some (e1, fl1, ok)"
    and r: "ed_limiter e' = ed_limiter e1" "ed_active e' = ed_active e1" "dom flows' = dom fl1"
    using h by (auto simp: edge_datagram_def Let_def dom_touch simp del: dom_fun_upd split: option.splits bool.splits sum.splits)
  note i = edge_flow_inv [OF g u]
  show ?thesis
  proof (cases "fl1 = flows")
    case True
    then show ?thesis using i fin r by (auto intro!: exI [of _ 0] dest: fun_cong [of _ _ key])
  next
    case False
    then obtain fl where "flows key = None" "fl1 = flows(key \<mapsto> fl)" "lim_held (ed_limiter e1) = lim_held (ed_limiter e) + 1"
      "ed_active e1 = ed_active e + 1" "lim_good n (ed_limiter e1)"
      using i by blast
    then show ?thesis using fin r by (intro conjI exI [of _ 1]) (auto simp: card_insert_if domIff)
  qed
qed

lemma edge_release:
  assumes "lim_good n lo" "lim_held lo = Suc k"
  shows "lim_good n (limits_Release lo)" "lim_held (limits_Release lo) = k"
  using lim.give_good [OF assms(1)] assms(2) by simp_all

lemma edge_step_inv:
  assumes "edge_inv n w" "edge_step ev w = Some w'"
  shows "edge_inv n w'"
proof -
  have i: "lim_good n (ed_limiter (w_edge w))" "lim_held (ed_limiter (w_edge w)) = edge_open w" "finite (dom (w_flows w))"
    "ed_active (w_edge w) = word_of_nat (edge_open w)" using assms(1) by (simp_all add: edge_inv_def)
  show ?thesis
  proof (cases ev)
    case (E_user m uo)
    obtain usable opener where uo: "uo = (usable, opener)" by fastforce
    from assms(2) E_user uo obtain e' r where h: "edge_handle usable opener m (w_edge w) = Some (e', r)"
      "w' = w\<lparr>w_edge := e', w_tcp := (if r = None then w_tcp w else w_tcp w + 1)\<rparr>" by auto
    show ?thesis using edge_handle_inv [OF i(1) h(1)] i h(2) by (simp add: edge_inv_def edge_open_def)
  next
    case E_user_end
    then show ?thesis using assms i edge_release [OF i(1), of "edge_open w - 1"]
      by (auto simp: edge_inv_def edge_open_def edge_handle_end_def of_nat_diff)
  next
    case (E_datagram m uo key payload wrote now)
    obtain usable opener where uo: "uo = (usable, opener)" by fastforce
    from assms(2) E_datagram uo obtain e' fl out where h: "edge_datagram usable opener now m key payload wrote (w_flows w) (w_edge w) = Some (e', fl, out)"
      "w' = w\<lparr>w_edge := e', w_flows := fl\<rparr>" by auto
    show ?thesis using edge_datagram_inv [OF i(1,3) h(1)] i h(2) by (auto simp: edge_inv_def edge_open_def)
  next
    case (E_flow_end key)
    show ?thesis
    proof (cases "w_flows w key = None")
      case False
      then have c: "edge_open w = Suc (w_tcp w + card (dom (w_flows w) - {key}))"
        using card_Suc_Diff1 [OF i(3), of key] by (simp add: edge_open_def domIff)
      show ?thesis using assms(2) False E_flow_end i c edge_release [OF i(1)]
        by (auto simp: edge_flow_end_def edge_inv_def edge_open_def)
    qed (use assms E_flow_end in simp)
  next
    case (E_reap now)
    have "dom (edge_reap now (w_flows w)) = dom (w_flows w)" by (auto simp: edge_reap_def dom_def)
    then show ?thesis using assms E_reap by (auto simp: edge_inv_def edge_open_def)
  next
    case (E_session kv k)
    then show ?thesis using assms by (auto simp: edge_inv_def edge_open_def keepSession_keeps)
  qed
qed

fun edge_run :: "edge_event list \<Rightarrow> edge_world \<Rightarrow> edge_world option" where
  "edge_run [] w = Some w"
| "edge_run (ev # evs) w = (case edge_step ev w of None \<Rightarrow> None | Some w \<Rightarrow> edge_run evs w)"

lemma edge_run_inv: "edge_inv n w \<Longrightarrow> edge_run evs w = Some w' \<Longrightarrow> edge_inv n w'"
  by (induction evs arbitrary: w) (auto split: option.splits intro: edge_step_inv)

text \<open>The cap bounds what an edge has open, over TCP and by datagrams together, and the counter is exact.\<close>

lemma edge_respects_cap:
  assumes "NewEdge cfg = Inr e" "d_MaxConnections cfg = int n" "0 < n" "n < 2 ^ 31 - 1"
    "edge_run evs \<lparr>w_edge = e, w_tcp = 0, w_flows = Map.empty\<rparr> = Some w"
  shows "edge_open w \<le> n \<and> ed_active (w_edge w) = word_of_nat (edge_open w)"
proof -
  obtain c' where "direct_Validate (cfg\<lparr>d_Role := RoleEdge\<rparr>) = Inr c'" "ed_limiter e = limits_New (d_MaxConnections c') (d_BandwidthMbps c')" "ed_active e = 0"
    using assms(1) by (auto simp: NewEdge_def split: sum.splits)
  moreover from this have "d_MaxConnections c' = int n"
    using assms(2) by (auto simp: direct_Validate_stages validate_role_def validate_transport_def validate_ports_def validate_numbers_def Let_def
        split: if_splits sum.splits)
  moreover have "sint (word_of_int (int n) :: 32 word) = int n"
    using assms(4) by (subst signed_of_int) (simp add: signed_take_bit_int_eq_self)
  ultimately have "edge_inv n \<lparr>w_edge = e, w_tcp = 0, w_flows = Map.empty\<rparr>"
    using assms(3,4) by (simp add: edge_inv_def edge_open_def limits_New_def lim_good_def lim_held_def limits_Active_def)
  then have "edge_inv n w" using assms(5) by (rule edge_run_inv)
  then show ?thesis by (auto simp: edge_inv_def lim_good_def lim_held_def limits_Active_def)
qed

section \<open>A stream reaches the backend it names\<close>

text \<open>Edge and origin on one stream: the edge is told yes exactly when the target fits a request and the origin may and
  can dial it; the origin then joins that target, on the network of the kind, to the bytes that follow.\<close>

definition stream_network :: "byte \<Rightarrow> string" where
  "stream_network kind = (if kind = kindUDP then ''udp'' else ''tcp'')"

lemma stream_joins:
  assumes "kind = kindTCP \<or> kind = kindUDP"
  shows "(\<exists>req. openStream True kind target (\<lambda>req. fst (snd (serveStream lookup dial True (req @ data) og))) = Inr req \<and>
      snd (snd (serveStream lookup dial True (req @ data) og)) = Some (stream_network kind, target, data)) \<longleftrightarrow>
    target \<noteq> [] \<and> length target \<le> maxTargetLen \<and> direct_dialBackend lookup dial (stream_network kind) target"
proof (cases "target \<noteq> [] \<and> length target \<le> maxTargetLen")
  case True
  then obtain f where f: "writeRequest kind (str_bytes target) = Inr f" by (simp add: writeRequest_def)
  have "readRequest (f @ data) = Inr ((kind, str_bytes target), data)" by (rule request_roundtrip [OF f assms])
  then show ?thesis using f True
    by (auto simp: openStream_def serveStream_def stream_network_def streamOK_def streamFailed_def Let_def)
next
  case False
  then have "writeRequest kind (str_bytes target) = Inl (errTargetLength (length target))" by (auto simp: writeRequest_def)
  then show ?thesis using False by (auto simp: openStream_def)
qed

section \<open>Half the sessions\<close>

text \<open>C8. An edge with an even number of sessions uses half of them. One cursor is advanced both to pick the session and to
  pick the backend, so that consecutive users get every second session: while all sessions are usable, the users that
  follow one another, over TCP or by datagrams, whatever becomes of their streams, get the sessions at the cursor, two
  further on, four further on, and so forth, and when their number is even, a session at a place of the other parity
  gets none.\<close>

theorem edge_uses_every_second_session:
  assumes "ed_sessions e \<noteq> []" "list_all usable (ed_sessions e)" "unat (ed_cursor e) + 2 * length reqs < 2 ^ 63"
    "even (length (ed_sessions e))" "distinct (ed_sessions e)" "i < length (ed_sessions e)" "odd (i + unat (ed_cursor e))"
  shows "picks usable opener reqs e =
      map (\<lambda>j. Some (Some (ed_sessions e ! ((unat (ed_cursor e) + 2 * j) mod length (ed_sessions e))))) [0..<length reqs] \<and>
    \<not> list_ex (\<lambda>p. p = Some (Some (ed_sessions e ! i))) (picks usable opener reqs e)"
proof -
  let ?n = "length (ed_sessions e)"
  have "ed_sessions e ! i \<noteq> ed_sessions e ! ((unat (ed_cursor e) + 2 * j) mod ?n)" for j
  proof -
    have "(unat (ed_cursor e) + 2 * j) mod ?n < ?n" using assms(1) by simp
    moreover have "i \<noteq> (unat (ed_cursor e) + 2 * j) mod ?n"
      using same_parity [OF assms(4), of "unat (ed_cursor e)" j] assms(7) by auto
    ultimately show ?thesis using assms(5,6) by (simp add: nth_eq_iff_index_eq)
  qed
  then show ?thesis by (auto simp: picks_eq [OF assms(1-3)] list_ex_iff)
qed

definition demo_direct :: direct_config where
  "demo_direct = \<lparr>d_Role = ''edge'', d_Addr = ''198.51.100.7:8443'', d_Token = ''t'', d_Transport = ''tcp'', d_TLSCertFile = [], d_TLSKeyFile = [],
     d_ACMECacheDir = [], d_Ports = [''80''], d_AcceptUDP = True, d_MaxConnections = 0, d_BandwidthMbps = 0, d_Sessions = 2, d_DialTimeout = 0,
     d_RetryDelay = 0, d_MaxFrameSize = 0, d_MaxReceiveBuffer = 0, d_MaxStreamBuffer = 0\<rparr>"

definition two_sessions :: edge where
  "two_sessions = addSession 8 (addSession 7 \<lparr>ed_cfg = demo_direct, ed_mappings = [], ed_limiter = None, ed_sessions = [], ed_cursor = 0,
     ed_nsessions = 0, ed_accepted = 0, ed_refused = 0, ed_active = 0\<rparr>)"

definition web_mapping :: mapping where
  "web_mapping = \<lparr>m_Listen = '':80'', m_Targets = [''10.0.0.1:80'', ''10.0.0.2:80'']\<rparr>"

theorem edge_uses_every_second_session_witness:
  "picks (\<lambda>_. True) (\<lambda>s kind target. Inr (s, target)) (replicate 3 (kindTCP, web_mapping)) two_sessions =
   [Some (Some 7), Some (Some 7), Some (Some 7)]"
  using edge_uses_every_second_session [of two_sessions "\<lambda>_. True" "replicate 3 (kindTCP, web_mapping)" 1 "\<lambda>s kind target. Inr (s, target)"]
  by (simp add: two_sessions_def addSession_def upt_conv_Cons numeral_2_eq_2 [symmetric])

end
