(* ===== verification/BackendPool.thy ===== *)
theory BackendPool
  imports GoNet "HOL-Library.AList" "HOL-Library.Multiset"
begin

text \<open>
  The health-checked pool of backends of \<open>internal/client/transport/backendpool.go\<close>. A target that names
  several backends is a group; groups are objects that a running check keeps alive after they left the map, so
  they live in a heap and the map holds references. A check pass is a goroutine: \<open>passes\<close> lists the running ones
  with the member each probes next. What the runtime and the network choose are arguments: the clock, the order
  in which a map is walked (\<open>walk\<close>), and the answers of the probes. The zero \<open>time.Time\<close> is \<open>None\<close>.
\<close>

section \<open>State\<close>

definition backendSep :: char where "backendSep = CHR ''|''"
definition backendCheckInterval :: int where "backendCheckInterval = 10 * 1000000000"
definition backendMaxFailed :: nat where "backendMaxFailed = 3"
definition backendMaxGroups :: nat where "backendMaxGroups = 256"
definition backendMaxMembers :: nat where "backendMaxMembers = 32"

lemmas backend_consts = backendMaxFailed_def backendMaxGroups_def backendMaxMembers_def

record backendGroup =
  g_list :: "string list"
  g_healthy :: "bool list"
  g_fails :: "nat list"
  g_next :: nat
  g_checking :: bool
  g_lastCheck :: "int option"
  g_lastUsed :: int

record backendPool =
  heap :: "backendGroup list"
  groups :: "(string \<times> nat) list"
  passes :: "(nat \<times> nat) list"

definition backends :: backendPool where
  "backends = \<lparr>heap = [], groups = [], passes = []\<rparr>"

section \<open>Parsing a target\<close>

definition splitBackends :: "string \<Rightarrow> string list" where
  "splitBackends list = filter (\<lambda>p. p \<noteq> []) (map trim_space (split_on backendSep list))"

definition firstBackend :: "string \<Rightarrow> string" where
  "firstBackend target = (case splitBackends target of b # _ \<Rightarrow> b | [] \<Rightarrow> target)"

section \<open>One group\<close>

definition touch :: "int \<Rightarrow> backendGroup \<Rightarrow> backendGroup" where
  "touch now g = g\<lparr>g_lastUsed := now\<rparr>"

text \<open>Whether a check pass starts, and the group after deciding.\<close>

definition startCheck :: "int \<Rightarrow> backendGroup \<Rightarrow> backendGroup \<times> bool" where
  "startCheck now g =
     (if g_checking g \<or> (case g_lastCheck g of None \<Rightarrow> False | Some t \<Rightarrow> now - t < backendCheckInterval) then (g, False)
      else (g\<lparr>g_checking := True, g_lastCheck := Some now\<rparr>, True))"

text \<open>The rounds of the round robin: \<open>left\<close> of them remain.\<close>

fun pick_loop :: "nat \<Rightarrow> backendGroup \<Rightarrow> backendGroup \<times> string" where
  "pick_loop 0 g = (g\<lparr>g_next := g_next g + 1\<rparr>, g_list g ! (g_next g mod length (g_list g)))"
| "pick_loop (Suc left) g =
     (let idx = g_next g mod length (g_list g); g' = g\<lparr>g_next := g_next g + 1\<rparr> in
      if g_healthy g ! idx then (g', g_list g ! idx) else pick_loop left g')"

definition group_pick :: "int \<Rightarrow> backendGroup \<Rightarrow> (backendGroup \<times> string) \<times> bool" where
  "group_pick now g =
     (let (g, started) = startCheck now g; g = g\<lparr>g_lastUsed := now\<rparr> in
      (if length (g_list g) = 0 then (g, []) else pick_loop (length (g_list g)) g, started))"

text \<open>What a check does with the answer of one member.\<close>

definition check_member :: "nat \<Rightarrow> bool \<Rightarrow> backendGroup \<Rightarrow> backendGroup" where
  "check_member i ok g =
     (if ok then g\<lparr>g_healthy := (g_healthy g)[i := True], g_fails := (g_fails g)[i := 0]\<rparr>
      else let f = g_fails g ! i + 1; g = g\<lparr>g_fails := (g_fails g)[i := f]\<rparr> in
           if backendMaxFailed \<le> f then g\<lparr>g_healthy := (g_healthy g)[i := False]\<rparr> else g)"

definition check_done :: "int \<Rightarrow> backendGroup \<Rightarrow> backendGroup" where
  "check_done now g = g\<lparr>g_checking := False, g_lastCheck := Some now\<rparr>"

section \<open>The pool\<close>

text \<open>The empty key stands for none found yet, as in the code.\<close>

definition older :: "backendPool \<Rightarrow> string \<times> nat \<Rightarrow> string \<times> int \<Rightarrow> string \<times> int" where
  "older p = (\<lambda>(key, r) (oldestKey, oldest).
     let used = g_lastUsed (heap p ! r) in
     if oldestKey = [] \<or> used < oldest then (key, used) else (oldestKey, oldest))"

definition evictOldestLocked :: "((string \<times> nat) list \<Rightarrow> (string \<times> nat) list) \<Rightarrow> backendPool \<Rightarrow> backendPool" where
  "evictOldestLocked walk p =
     p\<lparr>groups := AList.delete (fst (fold (older p) (walk (groups p)) ([], 0))) (groups p)\<rparr>"

definition new_group :: "int \<Rightarrow> string list \<Rightarrow> backendGroup" where
  "new_group now list = \<lparr>g_list = list, g_healthy = replicate (length list) True, g_fails = replicate (length list) 0,
     g_next = 0, g_checking = False, g_lastCheck = None, g_lastUsed = now\<rparr>"

definition pool_group ::
    "((string \<times> nat) list \<Rightarrow> (string \<times> nat) list) \<Rightarrow> int \<Rightarrow> string \<Rightarrow> string list \<Rightarrow> backendPool \<Rightarrow> backendPool \<times> nat" where
  "pool_group walk now key list p =
     (case map_of (groups p) key of
        Some r \<Rightarrow> (p\<lparr>heap := (heap p)[r := touch now (heap p ! r)]\<rparr>, r)
      | None \<Rightarrow>
          let p = (if backendMaxGroups \<le> length (groups p) then evictOldestLocked walk p else p);
              r = length (heap p)
          in (p\<lparr>heap := heap p @ [new_group now list], groups := AList.update key r (groups p)\<rparr>, r))"

text \<open>What a target asks for: an address to dial as it is, or a group with its key and members.\<close>

definition target_list :: "string \<Rightarrow> string + string list" where
  "target_list target =
     (if backendSep \<notin> set target then Inl target
      else let list = splitBackends target in
        if length list = 0 then Inl target
        else if length list = 1 then Inl (list ! 0)
        else if backendMaxMembers < length list then Inr (take backendMaxMembers list)
        else Inr list)"

definition group_key :: "string list \<Rightarrow> string" where
  "group_key list = join_with [backendSep] list"

definition ref_pick :: "int \<Rightarrow> nat \<Rightarrow> backendPool \<Rightarrow> backendPool \<times> string" where
  "ref_pick now r p =
     (let ((g, b), started) = group_pick now (heap p ! r) in
      (p\<lparr>heap := (heap p)[r := g], passes := (if started then passes p @ [(r, 0)] else passes p)\<rparr>, b))"

definition pool_pick ::
    "((string \<times> nat) list \<Rightarrow> (string \<times> nat) list) \<Rightarrow> int \<Rightarrow> string \<Rightarrow> backendPool \<Rightarrow> backendPool \<times> string" where
  "pool_pick walk now target p =
     (case target_list target of
        Inl addr \<Rightarrow> (p, addr)
      | Inr list \<Rightarrow> let (p, r) = pool_group walk now (group_key list) list p in ref_pick now r p)"

text \<open>One round of a running pass: it probes its next member, or ends after the last.\<close>

definition pass_step :: "nat \<Rightarrow> bool \<Rightarrow> int \<Rightarrow> backendPool \<Rightarrow> backendPool" where
  "pass_step k ok now p =
     (let (r, i) = passes p ! k; g = heap p ! r in
      if i < length (g_list g)
      then p\<lparr>heap := (heap p)[r := check_member i ok g], passes := (passes p)[k := (r, i + 1)]\<rparr>
      else p\<lparr>heap := (heap p)[r := check_done now g], passes := take k (passes p) @ drop (k + 1) (passes p)\<rparr>)"

text \<open>
  The locks order the critical sections in any way: looking a group up, drawing from a group that was looked up
  before (it may have been evicted meanwhile), and the rounds of the passes.
\<close>

inductive pool_step :: "backendPool \<Rightarrow> backendPool \<Rightarrow> bool" where
  step_group: "pool_step p (fst (pool_group walk now (group_key list) list p))"
    if "target_list target = Inr list" "mset (walk (groups p)) = mset (groups p)"
| step_pick: "pool_step p (fst (ref_pick now r p))" if "r < length (heap p)"
| step_pass: "pool_step p (pass_step k ok now p)" if "k < length (passes p)"

inductive pool_reach :: "backendPool \<Rightarrow> bool" where
  reach_start: "pool_reach backends"
| reach_step: "pool_reach p \<Longrightarrow> pool_step p p' \<Longrightarrow> pool_reach p'"

section \<open>Targets and keys\<close>

definition clean :: "string \<Rightarrow> bool" where
  "clean b \<longleftrightarrow> b \<noteq> [] \<and> backendSep \<notin> set b"

lemma split_on_parts: "x \<in> set (split_on c s) \<Longrightarrow> c \<notin> set x"
  by (induction c s arbitrary: x rule: split_on.induct) (auto split: list.splits if_splits)

lemma trim_with_set: "set (trim_with seqs s) \<subseteq> set s"
proof (induction seqs s rule: trim_with.induct)
  case (1 seqs s)
  then show ?case
    by (subst trim_with.simps) (auto split: option.splits dest: in_set_dropD in_set_takeD)
qed

lemma trim_space_set: "set (trim_space s) \<subseteq> set s"
  using trim_with_set [of "map rev ws_seqs" "rev (trim_with ws_seqs s)"] trim_with_set [of ws_seqs s]
  by (auto simp: trim_space_def)

lemma splitBackends_clean: "list_all clean (splitBackends s)"
  using trim_space_set split_on_parts by (fastforce simp: splitBackends_def list_all_iff clean_def)

lemma target_list_ok:
  assumes "target_list target = Inr list"
  shows "list_all clean list" "2 \<le> length list" "length list \<le> backendMaxMembers"
proof -
  let ?l = "splitBackends target"
  have l: "list = take backendMaxMembers ?l" "length ?l \<noteq> 0" "length ?l \<noteq> 1"
    using assms by (auto simp: target_list_def Let_def split: if_splits)
  then show "list_all clean list" using splitBackends_clean [of target]
    by (auto simp: list_all_iff dest: in_set_takeD)
  show "2 \<le> length list" "length list \<le> backendMaxMembers" unfolding l(1) using l(2,3)
    by (simp_all only: length_take backend_consts)
qed

lemma split_join: "list_all clean xs \<Longrightarrow> xs \<noteq> [] \<Longrightarrow> split_on backendSep (group_key xs) = xs"
  unfolding group_key_def
proof (induction xs rule: induct_list012)
  case (3 x y zs)
  have "split_on c (a @ c # b) = a # split_on c b" if "c \<notin> set a" for c a b
    using that by (induction a) auto
  then show ?case using 3 by (auto simp: clean_def)
qed (auto simp: clean_def split_on_absent)

lemma group_key_inj: "list_all clean xs \<Longrightarrow> list_all clean ys \<Longrightarrow> xs \<noteq> [] \<Longrightarrow> ys \<noteq> [] \<Longrightarrow> group_key xs = group_key ys \<longleftrightarrow> xs = ys"
  using split_join [of xs] split_join [of ys] by metis

lemma group_key_ne: "2 \<le> length xs \<Longrightarrow> group_key xs \<noteq> []"
  by (auto simp: group_key_def numeral_2_eq_2 Suc_le_length_iff)

section \<open>Round robin\<close>

lemma pick_loop_cases:
  assumes "length (g_list g) \<noteq> 0"
  shows "(\<exists>j < n. g_healthy g ! ((g_next g + j) mod length (g_list g)) \<and>
      (\<forall>i < j. \<not> g_healthy g ! ((g_next g + i) mod length (g_list g))) \<and>
      pick_loop n g = (g\<lparr>g_next := g_next g + j + 1\<rparr>, g_list g ! ((g_next g + j) mod length (g_list g)))) \<or>
    ((\<forall>j < n. \<not> g_healthy g ! ((g_next g + j) mod length (g_list g))) \<and>
      pick_loop n g = (g\<lparr>g_next := g_next g + n + 1\<rparr>, g_list g ! ((g_next g + n) mod length (g_list g))))"
  using assms
proof (induction n arbitrary: g)
  case (Suc n)
  show ?case
  proof (cases "g_healthy g ! (g_next g mod length (g_list g))")
    case True
    then show ?thesis by (intro disjI1 exI [of _ 0]) (simp add: Let_def)
  next
    case False
    have all: "(\<forall>j < Suc m. P j) \<longleftrightarrow> P 0 \<and> (\<forall>j < m. P (Suc j))" for m and P :: "nat \<Rightarrow> bool"
      using less_Suc_eq_0_disj by auto
    have ex: "(\<exists>j < Suc m. P j) \<longleftrightarrow> P 0 \<or> (\<exists>j < m. P (Suc j))" for m and P :: "nat \<Rightarrow> bool"
      using less_Suc_eq_0_disj by auto
    show ?thesis
      using Suc.IH [of "g\<lparr>g_next := g_next g + 1\<rparr>"] Suc.prems False
      unfolding ex all by (simp add: Let_def all)
  qed
qed simp

lemma covers_ring:
  assumes "i < n"
  shows "\<exists>j < n. (s + j) mod n = (i :: nat)"
proof (intro exI conjI)
  show "(i + (n - s mod n)) mod n < n" using assms by simp
  have "(s + (i + (n - s mod n)) mod n) mod n = (s mod n + (i + (n - s mod n))) mod n" by (simp add: mod_simps)
  also have "s mod n + (i + (n - s mod n)) = i + n" using assms mod_less_divisor [of n s] by linarith
  finally show "(s + (i + (n - s mod n)) mod n) mod n = i" using assms by simp
qed

section \<open>Eviction\<close>

text \<open>The walk ends at a least recently used group, in whatever order the map is walked.\<close>

lemma older_fold:
  assumes "oldestKey \<noteq> []" "[] \<notin> fst ` set es" "fold (older p) es (oldestKey, oldest) = (k, t)"
  shows "((k, t) = (oldestKey, oldest) \<or> (\<exists>r. (k, r) \<in> set es \<and> t = g_lastUsed (heap p ! r))) \<and> t \<le> oldest \<and>
    (\<forall>k' r'. (k', r') \<in> set es \<longrightarrow> t \<le> g_lastUsed (heap p ! r'))"
  using assms
proof (induction es arbitrary: oldestKey oldest)
  case (Cons e es)
  obtain ke re where e: "e = (ke, re)" by (cases e)
  have ke: "ke \<noteq> []" using Cons.prems(2) e by auto
  show ?case
  proof (cases "g_lastUsed (heap p ! re) < oldest")
    case True
    then have "fold (older p) es (ke, g_lastUsed (heap p ! re)) = (k, t)"
      using Cons.prems(1,3) e by (simp add: older_def Let_def)
    from Cons.IH [OF ke _ this] Cons.prems(2) True e show ?thesis by fastforce
  next
    case False
    then have "fold (older p) es (oldestKey, oldest) = (k, t)"
      using Cons.prems(1,3) e by (simp add: older_def Let_def)
    from Cons.IH [OF Cons.prems(1) _ this] Cons.prems(2) False e show ?thesis by fastforce
  qed
qed simp

lemma evicts_oldest:
  assumes "groups p \<noteq> []" "[] \<notin> fst ` set (groups p)" "mset (walk (groups p)) = mset (groups p)"
  obtains k r where "(k, r) \<in> set (groups p)" "groups (evictOldestLocked walk p) = AList.delete k (groups p)"
    "\<And>k' r'. (k', r') \<in> set (groups p) \<Longrightarrow> g_lastUsed (heap p ! r) \<le> g_lastUsed (heap p ! r')"
proof -
  have s: "set (walk (groups p)) = set (groups p)" using assms(3) by (metis set_mset_mset)
  then obtain ke re es where w: "walk (groups p) = (ke, re) # es" using assms(1) by (cases "walk (groups p)") auto
  have ne: "ke \<noteq> []" "[] \<notin> fst ` set es" using s [symmetric] w assms(2) by (auto simp: image_iff)
  obtain k t where f: "fold (older p) (walk (groups p)) ([], 0) = (k, t)" by fastforce
  then have "fold (older p) es (ke, g_lastUsed (heap p ! re)) = (k, t)" by (simp add: w older_def Let_def)
  note o = older_fold [OF ne this]
  then obtain r where r: "(k, r) \<in> set (groups p)" "t = g_lastUsed (heap p ! r)" using s w by auto
  have "g_lastUsed (heap p ! r) \<le> g_lastUsed (heap p ! r')" if "(k', r') \<in> set (groups p)" for k' r'
    using that o r(2) w unfolding s [symmetric] by auto
  then show thesis using that [OF r(1)] f by (simp add: evictOldestLocked_def)
qed

section \<open>The invariant\<close>

text \<open>
  Of a group: 2 to 32 members, tables of that length, and a member is healthy exactly while it has failed fewer
  than three times in a row. Of the pool: at most 256 groups, each under the key of its own list, and as many
  passes on a group as its flag says, which is at most one.
\<close>

definition group_ok :: "backendGroup \<Rightarrow> bool" where
  "group_ok g \<longleftrightarrow> list_all clean (g_list g) \<and> 2 \<le> length (g_list g) \<and> length (g_list g) \<le> backendMaxMembers \<and>
     length (g_healthy g) = length (g_list g) \<and> length (g_fails g) = length (g_list g) \<and>
     (\<forall>i < length (g_list g). g_healthy g ! i \<longleftrightarrow> g_fails g ! i < backendMaxFailed)"

definition running :: "(nat \<times> nat) list \<Rightarrow> nat \<Rightarrow> nat" where
  "running ps r = length (filter (\<lambda>x. fst x = r) ps)"

definition pool_ok :: "backendPool \<Rightarrow> bool" where
  "pool_ok p \<longleftrightarrow> list_all group_ok (heap p) \<and> length (groups p) \<le> backendMaxGroups \<and> distinct (map fst (groups p)) \<and>
     (\<forall>(k, r) \<in> set (groups p). r < length (heap p) \<and> k = group_key (g_list (heap p ! r))) \<and>
     (\<forall>r < length (heap p). running (passes p) r = of_bool (g_checking (heap p ! r))) \<and>
     (\<forall>(r, i) \<in> set (passes p). r < length (heap p))"

lemma group_ok_cong:
  "g_list g' = g_list g \<Longrightarrow> g_healthy g' = g_healthy g \<Longrightarrow> g_fails g' = g_fails g \<Longrightarrow> group_ok g' \<longleftrightarrow> group_ok g"
  by (simp add: group_ok_def)

lemma group_ok_new: "target_list target = Inr list \<Longrightarrow> group_ok (new_group now list)"
  using target_list_ok [of target list] by (simp add: group_ok_def new_group_def backend_consts)

lemma group_ok_member:
  assumes "group_ok g" "i < length (g_list g)"
  shows "group_ok (check_member i ok g)"
  using assms by (auto simp: group_ok_def check_member_def Let_def nth_list_update backend_consts)

lemma pool_ok_group: "pool_ok p \<Longrightarrow> r < length (heap p) \<Longrightarrow> group_ok (heap p ! r)"
  by (simp add: pool_ok_def list_all_length)

lemma pool_ok_update:
  assumes "pool_ok p" "r < length (heap p)" "group_ok g" "g_list g = g_list (heap p ! r)"
    "\<And>q. q < length (heap p) \<Longrightarrow> running ps q = of_bool (g_checking ((heap p)[r := g] ! q))"
    "\<And>q i. (q, i) \<in> set ps \<Longrightarrow> q < length (heap p)"
  shows "pool_ok (p\<lparr>heap := (heap p)[r := g], passes := ps\<rparr>)"
  using assms by (auto simp: pool_ok_def list_all_length nth_list_update)

lemma pool_ok_touch:
  assumes "pool_ok p" "r < length (heap p)" "group_ok g" "g_list g = g_list (heap p ! r)" "g_checking g = g_checking (heap p ! r)"
  shows "pool_ok (p\<lparr>heap := (heap p)[r := g]\<rparr>)"
  using assms by (auto simp: pool_ok_def list_all_length nth_list_update)

lemma pick_loop_keeps:
  "g_list (fst (pick_loop n g)) = g_list g \<and> g_healthy (fst (pick_loop n g)) = g_healthy g \<and>
   g_fails (fst (pick_loop n g)) = g_fails g \<and> g_checking (fst (pick_loop n g)) = g_checking g"
  by (induction n g rule: pick_loop.induct) (simp_all add: Let_def)

lemma startCheck_keeps:
  assumes "startCheck now g = (g', started)"
  shows "g_list g' = g_list g \<and> g_healthy g' = g_healthy g \<and> g_fails g' = g_fails g \<and> g_next g' = g_next g \<and>
    g_checking g' = (g_checking g \<or> started) \<and> (started \<longrightarrow> \<not> g_checking g)"
  using assms by (auto simp: startCheck_def split: if_splits)

lemma group_pick_keeps:
  assumes "group_pick now g = ((g', b), started)"
  shows "g_list g' = g_list g \<and> g_healthy g' = g_healthy g \<and> g_fails g' = g_fails g \<and>
    g_checking g' = (g_checking g \<or> started) \<and> (started \<longrightarrow> \<not> g_checking g)"
proof -
  obtain g1 s where s1: "startCheck now g = (g1, s)" by fastforce
  let ?g = "g1\<lparr>g_lastUsed := now\<rparr>"
  have "(if length (g_list ?g) = 0 then (?g, []) else pick_loop (length (g_list ?g)) ?g) = (g', b)" "s = started"
    using assms s1 by (simp_all add: group_pick_def Let_def)
  then have "g' = ?g \<or> g' = fst (pick_loop (length (g_list ?g)) ?g)" "s = started" by (auto split: if_splits)
  then show ?thesis using startCheck_keeps [OF s1] pick_loop_keeps [of "length (g_list ?g)" ?g] by auto
qed

text \<open>A draw hands out the first healthy member from the cursor on, and any member only when none is healthy.\<close>

lemma group_pick_sound:
  assumes "group_ok g" "group_pick now g = ((g', b), started)"
  shows "\<exists>i < length (g_list g). b = g_list g ! i \<and>
    (g_healthy g ! i \<or> (\<forall>j < length (g_list g). backendMaxFailed \<le> g_fails g ! j))"
proof -
  obtain g1 s where s1: "startCheck now g = (g1, s)" by fastforce
  let ?g = "g1\<lparr>g_lastUsed := now\<rparr>" and ?n = "length (g_list g)"
  have k: "g_list ?g = g_list g" "g_healthy ?g = g_healthy g" "g_next ?g = g_next g" using startCheck_keeps [OF s1] by simp_all
  have n: "?n \<noteq> 0" using assms(1) by (auto simp: group_ok_def)
  have "pick_loop ?n ?g = (g', b)" using assms(2) s1 n k by (simp add: group_pick_def Let_def split: if_splits)
  then consider j where "j < ?n" "g_healthy g ! ((g_next g + j) mod ?n)" "b = g_list g ! ((g_next g + j) mod ?n)"
    | "\<forall>j < ?n. \<not> g_healthy g ! ((g_next g + j) mod ?n)" "b = g_list g ! ((g_next g + ?n) mod ?n)"
    using pick_loop_cases [of ?g ?n] n unfolding k by auto
  then show ?thesis
  proof cases
    case 1
    then show ?thesis using n by (intro exI [of _ "(g_next g + j) mod ?n"]) simp
  next
    case 2
    have "\<not> g_healthy g ! i" if "i < ?n" for i using 2(1) covers_ring [OF that, of "g_next g"] by auto
    then have "\<forall>j < ?n. backendMaxFailed \<le> g_fails g ! j" using assms(1) by (auto simp: group_ok_def not_less)
    then show ?thesis using 2(2) n by (intro exI [of _ "(g_next g + ?n) mod ?n"]) simp
  qed
qed

section \<open>Every step keeps it\<close>

lemma keys_nonempty: "pool_ok p \<Longrightarrow> [] \<notin> fst ` set (groups p)"
  using group_key_ne by (fastforce simp: pool_ok_def list_all_length group_ok_def)

text \<open>Room is made before a group is added, so that the bound holds after it.\<close>

lemma make_room:
  assumes "pool_ok p" "mset (walk (groups p)) = mset (groups p)"
    "q = (if backendMaxGroups \<le> length (groups p) then evictOldestLocked walk p else p)"
  shows "pool_ok q \<and> length (groups q) < backendMaxGroups \<and> heap q = heap p \<and> passes q = passes p \<and> fst ` set (groups q) \<subseteq> fst ` set (groups p)"
proof (cases "backendMaxGroups \<le> length (groups p)")
  case True
  have d: "distinct (map fst (groups p))" and l: "length (groups p) \<le> backendMaxGroups" using assms(1) by (simp_all add: pool_ok_def)
  have ne: "groups p \<noteq> []" using True by (auto simp: backend_consts)
  obtain k r where kr: "(k, r) \<in> set (groups p)" "groups (evictOldestLocked walk p) = AList.delete k (groups p)"
    using evicts_oldest [where p = p and walk = walk] ne keys_nonempty [OF assms(1)] assms(2) by metis
  have q: "q = p\<lparr>groups := AList.delete k (groups p)\<rparr>"
    using kr(2) True assms(3) by (simp add: evictOldestLocked_def)
  have "length (AList.delete k (groups p)) < backendMaxGroups"
    using length_delete [OF d kr(1)] l ne by (cases "groups p") auto
  moreover have "set (AList.delete k (groups p)) \<subseteq> set (groups p)" by (auto simp: AList.delete_eq)
  ultimately show ?thesis using assms(1) d unfolding q by (auto simp: pool_ok_def AList.distinct_delete)
next
  case False
  then show ?thesis using assms(1,3) by auto
qed

lemma pool_ok_add:
  assumes "pool_ok p" "target_list target = Inr list" "length (groups p) < backendMaxGroups" "group_key list \<notin> fst ` set (groups p)"
  shows "pool_ok (p\<lparr>heap := heap p @ [new_group now list], groups := AList.update (group_key list) (length (heap p)) (groups p)\<rparr>)"
proof -
  note u = update_absent [OF assms(4)]
  have none: "running (passes p) (length (heap p)) = 0"
    using assms(1) by (auto simp: pool_ok_def running_def filter_empty_conv)
  have c: "\<not> g_checking (new_group now list)" "g_list (new_group now list) = list" by (simp_all add: new_group_def)
  show ?thesis
    using assms none c group_ok_new [OF assms(2)] unfolding u
    by (auto simp: pool_ok_def nth_append less_Suc_eq)
qed

lemma pool_group_ok:
  assumes "pool_ok p" "target_list target = Inr list" "mset (walk (groups p)) = mset (groups p)"
    "pool_group walk now (group_key list) list p = (p', r)"
  shows "pool_ok p' \<and> r < length (heap p') \<and> map_of (groups p') (group_key list) = Some r \<and> g_list (heap p' ! r) = list"
proof (cases "map_of (groups p) (group_key list)")
  case None
  define q where "q = (if backendMaxGroups \<le> length (groups p) then evictOldestLocked walk p else p)"
  note m = make_room [OF assms(1,3) q_def]
  have "group_key list \<notin> fst ` set (groups q)" using None m by (auto simp: map_of_eq_None_iff)
  then have "pool_ok (q\<lparr>heap := heap q @ [new_group now list], groups := AList.update (group_key list) (length (heap q)) (groups q)\<rparr>)"
    using pool_ok_add m assms(2) by blast
  then show ?thesis using assms(4) None
    by (auto simp: pool_group_def q_def [symmetric] Let_def AList.update_conv' new_group_def)
next
  case (Some r0)
  then have p: "p' = p\<lparr>heap := (heap p)[r := touch now (heap p ! r)]\<rparr>" "r = r0" using assms(4) by (auto simp: pool_group_def)
  have r: "r < length (heap p)" "group_key list = group_key (g_list (heap p ! r))"
    using assms(1) map_of_SomeD [OF Some] p(2) by (auto simp: pool_ok_def)
  have g: "group_ok (heap p ! r)" by (rule pool_ok_group [OF assms(1) r(1)])
  have "list \<noteq> []" "g_list (heap p ! r) \<noteq> []" using g target_list_ok [OF assms(2)] by (auto simp: group_ok_def)
  then have "list = g_list (heap p ! r)"
    using r(2) g target_list_ok [OF assms(2)] group_key_inj [of list "g_list (heap p ! r)"] by (auto simp: group_ok_def)
  moreover have "pool_ok p'" unfolding p(1)
    using pool_ok_touch [OF assms(1) r(1), of "touch now (heap p ! r)"] g by (simp add: touch_def group_ok_def)
  ultimately show ?thesis using r p Some by (simp add: touch_def)
qed

lemma ref_pick_ok:
  assumes "pool_ok p" "r < length (heap p)" "ref_pick now r p = (p', b)"
  shows "pool_ok p' \<and> groups p' = groups p \<and> length (heap p') = length (heap p) \<and>
    g_list (heap p' ! r) = g_list (heap p ! r) \<and> g_healthy (heap p' ! r) = g_healthy (heap p ! r) \<and> g_fails (heap p' ! r) = g_fails (heap p ! r)"
proof -
  obtain g st where g: "group_pick now (heap p ! r) = ((g, b), st)" using assms(3) by (auto simp: ref_pick_def Let_def split: prod.splits)
  note k = group_pick_keeps [OF g]
  let ?ps = "if st then passes p @ [(r, 0)] else passes p"
  have p': "p' = p\<lparr>heap := (heap p)[r := g], passes := ?ps\<rparr>" using assms(3) g by (simp add: ref_pick_def)
  have ok: "group_ok g" using pool_ok_group [OF assms(1,2)] k group_ok_cong [of g "heap p ! r"] by blast
  have "running ?ps q = of_bool (g_checking ((heap p)[r := g] ! q))" if "q < length (heap p)" for q
    using assms(1,2) that k by (auto simp: pool_ok_def running_def nth_list_update)
  moreover have "q < length (heap p)" if "(q, i) \<in> set ?ps" for q i
    using assms(1,2) that by (auto simp: pool_ok_def split: if_splits)
  ultimately have "pool_ok p'" unfolding p' using pool_ok_update [OF assms(1,2) ok] k by blast
  then show ?thesis using assms(2) k by (simp add: p')
qed

lemma pass_step_ok:
  assumes "pool_ok p" "k < length (passes p)"
  shows "pool_ok (pass_step k ok now p)"
proof -
  obtain r i where ri: "passes p ! k = (r, i)" by fastforce
  then have r: "r < length (heap p)" using assms nth_mem [OF assms(2)] by (auto simp: pool_ok_def)
  have g: "group_ok (heap p ! r)" by (rule pool_ok_group [OF assms(1) r])
  note ps = id_take_nth_drop [OF assms(2), unfolded ri]
  have run: "running (passes p) q = running (take k (passes p)) q + of_bool (r = q) + running (drop (Suc k) (passes p)) q" for q
    by (subst ps) (simp add: running_def)
  have of: "running (passes p) q = of_bool (g_checking (heap p ! q))" if "q < length (heap p)" for q
    using assms(1) that by (simp add: pool_ok_def)
  have v: "q < length (heap p)" if "(q, j) \<in> set (passes p)" for q j using assms(1) that by (auto simp: pool_ok_def)
  show ?thesis
  proof (cases "i < length (g_list (heap p ! r))")
    case True
    let ?ps = "(passes p)[k := (r, i + 1)]"
    have u: "?ps = take k (passes p) @ (r, i + 1) # drop (Suc k) (passes p)" using assms(2) by (simp add: upd_conv_take_nth_drop)
    have c: "g_list (check_member i ok (heap p ! r)) = g_list (heap p ! r)" "g_checking (check_member i ok (heap p ! r)) = g_checking (heap p ! r)"
      by (simp_all add: check_member_def Let_def)
    have "running ?ps q = of_bool (g_checking ((heap p)[r := check_member i ok (heap p ! r)] ! q))" if "q < length (heap p)" for q
      using of [OF that] run [of q] c r unfolding u by (auto simp: running_def nth_list_update)
    moreover have "q < length (heap p)" if "(q, j) \<in> set ?ps" for q j
      using that v r set_update_subset_insert [of "passes p" k "(r, i + 1)"] by auto
    ultimately show ?thesis
      using pool_ok_update [OF assms(1) r group_ok_member [OF g True]] c True ri by (simp add: pass_step_def Let_def)
  next
    case False
    let ?ps = "take k (passes p) @ drop (k + 1) (passes p)"
    have "running ?ps q = of_bool (g_checking ((heap p)[r := check_done now (heap p ! r)] ! q))" if "q < length (heap p)" for q
    proof -
      have "running ?ps q + of_bool (r = q) = of_bool (g_checking (heap p ! q))"
        using of [OF that] run [of q] by (simp add: running_def)
      then show ?thesis using r by (cases "r = q"; cases "g_checking (heap p ! q)") (simp_all add: check_done_def)
    qed
    moreover have "q < length (heap p)" if "(q, j) \<in> set ?ps" for q j using that v by (auto dest: in_set_takeD in_set_dropD)
    moreover have "group_ok (check_done now (heap p ! r))" using g by (simp add: check_done_def group_ok_def)
    ultimately show ?thesis
      using pool_ok_update [OF assms(1) r, of "check_done now (heap p ! r)" ?ps] False ri by (simp add: pass_step_def Let_def check_done_def)
  qed
qed

lemma pool_step_ok: "pool_step p p' \<Longrightarrow> pool_ok p \<Longrightarrow> pool_ok p'"
proof (induction rule: pool_step.induct)
  case (step_group target list walk p now)
  then show ?case using pool_group_ok [where p = p and walk = walk] by (metis prod.collapse)
next
  case (step_pick r p now)
  then show ?case using ref_pick_ok by (metis prod.collapse)
next
  case (step_pass k p ok now)
  then show ?case by (rule pass_step_ok [rotated])
qed

lemma pool_reach_ok: "pool_reach p \<Longrightarrow> pool_ok p"
proof (induction rule: pool_reach.induct)
  case reach_start
  then show ?case by (simp add: backends_def pool_ok_def)
qed (rule pool_step_ok)

text \<open>At most one pass runs on a group.\<close>

lemma one_pass_per_group: "pool_reach p \<Longrightarrow> r < length (heap p) \<Longrightarrow> running (passes p) r \<le> 1"
  using pool_reach_ok by (force simp: pool_ok_def)

text \<open>C4. The backend pool serves what the target names and stays bounded: in every state it reaches, whatever the
  interleaving of connections and health checks and whatever targets the far end sends, a target with several
  backends gets one of its first 32; that one is healthy unless every member has failed its last three checks
  or more; and afterwards at most 256 groups are kept, the one just used among them.\<close>

theorem backend_pool_sound:
  assumes "pool_reach p" "target_list target = Inr list" "mset (walk (groups p)) = mset (groups p)"
    "pool_pick walk now target p = (p', b)"
  shows "length (groups p') \<le> backendMaxGroups \<and> length list \<le> backendMaxMembers \<and>
    (\<exists>r g i. map_of (groups p') (group_key list) = Some r \<and> heap p' ! r = g \<and> g_list g = list \<and>
       i < length list \<and> b = list ! i \<and> (g_healthy g ! i \<or> (\<forall>j < length list. backendMaxFailed \<le> g_fails g ! j)))"
proof -
  obtain q r where q: "pool_group walk now (group_key list) list p = (q, r)" by fastforce
  note g = pool_group_ok [where p = p and walk = walk, OF pool_reach_ok [OF assms(1)] assms(2,3) q]
  have pick: "ref_pick now r q = (p', b)" using assms(2,4) q by (simp add: pool_pick_def)
  then obtain g' st where g': "group_pick now (heap q ! r) = ((g', b), st)" by (auto simp: ref_pick_def Let_def split: prod.splits)
  note k = ref_pick_ok [OF _ _ pick]
  have "group_ok (heap q ! r)" using pool_ok_group g by blast
  from group_pick_sound [OF this g'] obtain i where i: "i < length list" "b = list ! i"
    "g_healthy (heap q ! r) ! i \<or> (\<forall>j < length list. backendMaxFailed \<le> g_fails (heap q ! r) ! j)" using g by auto
  have "length (groups p') \<le> backendMaxGroups" using k g by (simp add: pool_ok_def)
  moreover have "map_of (groups p') (group_key list) = Some r" "g_list (heap p' ! r) = list"
    "g_healthy (heap p' ! r) = g_healthy (heap q ! r)" "g_fails (heap p' ! r) = g_fails (heap q ! r)" using k g by auto
  ultimately show ?thesis using i target_list_ok(3) [OF assms(2)] by metis
qed

theorem backend_pool_sound_witness:
  "\<exists>p' b. pool_pick (\<lambda>xs. xs) 7 ''a:1|b:2'' backends = (p', b) \<and> length (groups p') \<le> 256 \<and>
     (b = ''a:1'' \<or> b = ''b:2'')"
proof -
  have t: "trim_space ''a:1'' = ''a:1''" "trim_space ''b:2'' = ''b:2''" by (simp_all add: trim_space_solid solid_def)
  have l: "target_list ''a:1|b:2'' = Inr [''a:1'', ''b:2'']"
    by (simp add: target_list_def splitBackends_def backendSep_def t backend_consts)
  obtain p' b where r: "pool_pick (\<lambda>xs. xs) 7 ''a:1|b:2'' backends = (p', b)" by fastforce
  from backend_pool_sound [where walk = "\<lambda>xs. xs", OF reach_start l refl r] have "length (groups p') \<le> 256"
    "\<exists>i < 2. b = [''a:1'', ''b:2''] ! i" by (auto simp: backend_consts numeral_2_eq_2)
  then show ?thesis using r by (auto simp: less_2_cases_iff)
qed

end
