(* ===== verification/Endpoints.thy ===== *)
theory Endpoints
  imports GoStrings "HOL-Library.Signed_Division" "HOL-Library.Sublist"
begin

text \<open>
  The list of server addresses a client dials (\<open>internal/utils/network/endpoints.go\<close>) and the loop that steers it to
  the healthiest one (\<open>healthscore.go\<close>). Cursors are \<open>int64\<close>; an index out of range, which a wrapped cursor can give,
  is \<open>None\<close>. A nil list behaves as an empty one. What a burst of pings measured is an argument: a score of a linearly
  ordered type (the code's \<open>float64\<close>) and whether there was an answer; \<open>clearly a b\<close> is the code's \<open>a <= 0.85 * b\<close>.
\<close>

section \<open>The rotating list\<close>

type_synonym i64 = "64 word"

record endpoints =
  e_list :: "string list"
  e_idx :: i64
  e_spreadIdx :: i64
  e_spread :: bool
  e_steer :: bool
  e_preferred :: i64

definition ep_add :: "string \<Rightarrow> string list \<Rightarrow> string list" where
  "ep_add a list = (let a = trim_space a in if a = [] \<or> a \<in> set list then list else list @ [a])"

definition NewEndpoints :: "string \<Rightarrow> string list \<Rightarrow> endpoints" where
  "NewEndpoints primary fallbacks =
     \<lparr>e_list = fold ep_add fallbacks (ep_add primary []), e_idx = 0, e_spreadIdx = 0, e_spread = False,
      e_steer = False, e_preferred = 0\<rparr>"

definition index_at :: "string list \<Rightarrow> int \<Rightarrow> string option" where
  "index_at list i = (if 0 \<le> i \<and> nat i < length list then Some (list ! nat i) else None)"

definition clampIdx :: "endpoints \<Rightarrow> i64 \<Rightarrow> int" where
  "clampIdx e v =
     (let i = sint v smod int (length (e_list e)) in if i < 0 then i + int (length (e_list e)) else i)"

definition Current :: "endpoints \<Rightarrow> string option" where
  "Current e =
     (if length (e_list e) = 0 then Some []
      else if e_steer e then index_at (e_list e) (clampIdx e (e_preferred e))
      else index_at (e_list e) (sint (e_idx e) smod int (length (e_list e))))"

definition Rotate :: "endpoints \<Rightarrow> endpoints \<times> string option" where
  "Rotate e =
     (if length (e_list e) \<le> 1 then (e, Current e)
      else let e = (if e_steer e then e\<lparr>e_preferred := word_of_int (clampIdx e (e_preferred e + 1))\<rparr>
                    else e\<lparr>e_idx := e_idx e + 1\<rparr>)
           in (e, Current e))"

definition Next :: "endpoints \<Rightarrow> endpoints \<times> string option" where
  "Next e =
     (if length (e_list e) = 0 then (e, Some [])
      else if e_steer e then (e, index_at (e_list e) (clampIdx e (e_preferred e)))
      else if \<not> e_spread e \<or> length (e_list e) = 1 then (e, Current e)
      else let e = e\<lparr>e_spreadIdx := e_spreadIdx e + 1\<rparr>;
               i = sint (e_spreadIdx e - 1) smod int (length (e_list e));
               i = (if i < 0 then 0 else i)
           in (e, index_at (e_list e) i))"

definition SetSpread :: "bool \<Rightarrow> endpoints \<Rightarrow> endpoints" where
  "SetSpread on e = e\<lparr>e_spread := on\<rparr>"

section \<open>Steering\<close>

definition EnableHealthSteering :: "endpoints \<Rightarrow> endpoints" where
  "EnableHealthSteering e =
     (if length (e_list e) \<le> 1 then e else e\<lparr>e_spread := False, e_preferred := e_idx e, e_steer := True\<rparr>)"

type_synonym 'f measured = "bool \<times> 'f"

definition needStreak :: nat where "needStreak = 3"

text \<open>The scan for the best answer: the first of the lowest.\<close>

fun best_from :: "nat \<Rightarrow> 'f::linorder measured list \<Rightarrow> (nat \<times> 'f) option \<Rightarrow> (nat \<times> 'f) option" where
  "best_from i [] best = best"
| "best_from i ((reachable, score) # ms) best =
     best_from (i + 1) ms (if reachable \<and> (case best of None \<Rightarrow> True | Some (_, b) \<Rightarrow> score < b) then Some (i, score) else best)"

definition best_exit :: "'f::linorder measured list \<Rightarrow> nat option" where
  "best_exit scores = map_option fst (best_from 0 scores None)"

text \<open>The loop's own variables: the candidate (\<open>-1\<close> is \<open>None\<close>) and how often in a row it was better.\<close>

record steering =
  candidate :: "nat option"
  streak :: nat

definition steer_start :: steering where "steer_start = \<lparr>candidate = None, streak = 0\<rparr>"

text \<open>One round of \<open>steerLoop\<close> after its ticker fired, with what the round measured for each endpoint.\<close>

definition steer_round :: "('f \<Rightarrow> 'f \<Rightarrow> bool) \<Rightarrow> 'f::linorder measured list \<Rightarrow> steering \<times> endpoints \<Rightarrow> steering \<times> endpoints" where
  "steer_round clearly scores = (\<lambda>(s, e).
     case best_exit scores of
       None \<Rightarrow> (s, e)
     | Some best \<Rightarrow>
         let cur = nat (clampIdx e (e_preferred e)) in
         if best = cur then (steer_start, e)
         else let curDead = \<not> fst (scores ! cur);
                  clearlyBetter = clearly (snd (scores ! best)) (snd (scores ! cur))
              in if \<not> curDead \<and> \<not> clearlyBetter then (steer_start, e)
                 else let s = (if candidate s = Some best then s\<lparr>streak := streak s + 1\<rparr>
                               else \<lparr>candidate = Some best, streak = 1\<rparr>)
                      in if curDead \<or> needStreak \<le> streak s
                         then (steer_start, e\<lparr>e_preferred := word_of_nat best\<rparr>)
                         else (s, e))"

text \<open>Cancelling the loop hands the list back to the plain cursor.\<close>

definition steer_stop :: "endpoints \<Rightarrow> endpoints" where
  "steer_stop e = e\<lparr>e_steer := False\<rparr>"

section \<open>The list and its cursors\<close>

definition listing_ok :: "string list \<Rightarrow> bool" where
  "listing_ok list \<longleftrightarrow> distinct list \<and> [] \<notin> set list"

lemma ep_add_ok: "listing_ok list \<Longrightarrow> listing_ok (ep_add a list)"
  by (auto simp: ep_add_def Let_def listing_ok_def)

lemma NewEndpoints_ok: "listing_ok (e_list (NewEndpoints a fs))"
proof -
  have "listing_ok (fold ep_add fs l)" if "listing_ok l" for l
    using that by (induction fs arbitrary: l) (simp_all add: ep_add_ok)
  then show ?thesis using ep_add_ok [of "[]" a] by (simp add: NewEndpoints_def listing_ok_def)
qed

lemma smod_bounds:
  assumes "0 < n"
  shows "- int n < v smod int n \<and> v smod int n < int n \<and> (0 \<le> v \<longrightarrow> v smod int n = v mod int n)"
proof -
  define m where "m = v mod int n"
  have "0 \<le> m" "m < int n" "v = 0 \<Longrightarrow> m = 0" using assms by (simp_all add: m_def)
  then show ?thesis
    by (auto simp: smod_int_alt_def sgn_if abs_if zmod_zminus1_eq_if zmod_zminus2_eq_if m_def [symmetric])
qed

lemma clampIdx_bounds: "e_list e \<noteq> [] \<Longrightarrow> 0 \<le> clampIdx e v \<and> clampIdx e v < int (length (e_list e))"
  using smod_bounds [of "length (e_list e)" "sint v"] by (auto simp: clampIdx_def Let_def)

text \<open>Under steering an address is always found, whatever the cursor holds.\<close>

lemma steered_never_panics: "e_list e \<noteq> [] \<Longrightarrow> e_steer e \<Longrightarrow> \<exists>a \<in> set (e_list e). Current e = Some a \<and> snd (Next e) = Some a"
  using clampIdx_bounds [of e "e_preferred e"] by (auto simp: Current_def Next_def index_at_def nat_less_iff)

text \<open>Failed dials walk the whole list: \<open>k\<close> rotations after cursor \<open>i\<close> the address is the one \<open>i + k\<close> places on.\<close>

fun rotations :: "nat \<Rightarrow> endpoints \<Rightarrow> endpoints" where
  "rotations 0 e = e"
| "rotations (Suc k) e = rotations k (fst (Rotate e))"

lemma rotations_cursor:
  "1 < length (e_list e) \<Longrightarrow> \<not> e_steer e \<Longrightarrow> rotations k e = e\<lparr>e_idx := e_idx e + word_of_nat k\<rparr>"
  by (induction k arbitrary: e) (auto simp: Rotate_def Let_def)

lemma sint_small: "n < 2 ^ 63 \<Longrightarrow> sint (word_of_nat n :: i64) = int n"
  by (simp add: sint_uint signed_take_bit_int_eq_self unsigned_of_nat take_bit_nat_eq_self)

lemma rotation_walks_list:
  assumes "1 < length (e_list e)" "\<not> e_steer e" "e_idx e = word_of_nat i" "i + k < 2 ^ 63"
  shows "Current (rotations k e) = Some (e_list e ! ((i + k) mod length (e_list e)))"
proof -
  have s: "sint (word_of_nat (i + k) :: i64) = int (i + k)" by (rule sint_small [OF assms(4)])
  have "int (i + k) smod int (length (e_list e)) = int ((i + k) mod length (e_list e))"
    using smod_bounds [of "length (e_list e)" "int (i + k)"] assms(1) by (simp only: zmod_int)
  then have "Current (e\<lparr>e_idx := word_of_nat (i + k)\<rparr>) = Some (e_list e ! ((i + k) mod length (e_list e)))"
    unfolding Current_def index_at_def using s assms(1,2) by (auto simp: nat_less_iff simp del: of_nat_add)
  then show ?thesis using rotations_cursor [OF assms(1,2), of k] assms(3) by simp
qed

section \<open>When steering moves\<close>

text \<open>The scan finds an endpoint that answered and that none that answered beats.\<close>

lemma best_from_spec:
  assumes "best_from i ms best = Some (j, b)"
  shows "(best = Some (j, b) \<or> (i \<le> j \<and> j < i + length ms \<and> ms ! (j - i) = (True, b))) \<and>
    (\<forall>k c. best = Some (k, c) \<longrightarrow> b \<le> c) \<and> (\<forall>m < length ms. fst (ms ! m) \<longrightarrow> b \<le> snd (ms ! m))"
  using assms
proof (induction i ms best rule: best_from.induct)
  case (2 i reachable score ms best)
  let ?n = "if reachable \<and> (case best of None \<Rightarrow> True | Some (_, b) \<Rightarrow> score < b) then Some (i, score) else best"
  have run: "best_from (i + 1) ms ?n = Some (j, b)" using "2.prems" by simp
  note ih = "2.IH" [OF run]
  have le: "reachable \<Longrightarrow> b \<le> score" "\<And>k c. best = Some (k, c) \<Longrightarrow> b \<le> c"
    using ih by (auto split: if_splits option.splits prod.splits)
  have "b \<le> snd (((reachable, score) # ms) ! m)" if "m < length ((reachable, score) # ms)" "fst (((reachable, score) # ms) ! m)" for m
    using that ih le by (cases m) auto
  moreover have "best = Some (j, b) \<or> (i \<le> j \<and> j < i + length ((reachable, score) # ms) \<and> ((reachable, score) # ms) ! (j - i) = (True, b))"
    using ih by (auto simp: nth_Cons' split: if_splits)
  ultimately show ?case using le(2) by blast
qed simp

lemma best_exit_spec:
  assumes "best_exit scores = Some b"
  shows "b < length scores \<and> fst (scores ! b) \<and> (\<forall>m < length scores. fst (scores ! m) \<longrightarrow> snd (scores ! b) \<le> snd (scores ! m))"
proof -
  obtain sc where sc: "best_from 0 scores None = Some (b, sc)" using assms by (auto simp: best_exit_def)
  show ?thesis using best_from_spec [OF sc] by auto
qed

lemma best_exit_none: "best_exit scores = None \<longleftrightarrow> \<not> list_ex fst scores"
proof -
  have "best_from i ms best = None \<longleftrightarrow> best = None \<and> \<not> list_ex fst ms" for i and ms :: "'a measured list" and best
    by (induction i ms best rule: best_from.induct) auto
  then show ?thesis by (simp add: best_exit_def)
qed

text \<open>
  The contract of the loop, over the verdicts of its rounds instead of a candidate and a counter. The log holds one
  verdict for each answered round since steering last moved: \<open>Some b\<close> when the best exit \<open>b\<close> was clearly better than
  an incumbent that answered. Steering moves when the incumbent is silent, or on the third such verdict in a row.
\<close>

datatype 'f steer_event = Dial_failed | Round "'f measured list"

definition spec_round :: "('f \<Rightarrow> 'f \<Rightarrow> bool) \<Rightarrow> 'f::linorder measured list \<Rightarrow> nat option list \<times> endpoints \<Rightarrow> nat option list \<times> endpoints" where
  "spec_round clearly scores = (\<lambda>(log, e).
     case best_exit scores of None \<Rightarrow> (log, e)
     | Some b \<Rightarrow>
         let cur = nat (clampIdx e (e_preferred e));
             wins = (b \<noteq> cur \<and> fst (scores ! cur) \<and> clearly (snd (scores ! b)) (snd (scores ! cur)));
             silent = (b \<noteq> cur \<and> \<not> fst (scores ! cur))
         in if silent \<or> wins \<and> suffix [Some b, Some b] log then ([], e\<lparr>e_preferred := word_of_nat b\<rparr>)
            else (log @ [if wins then Some b else None], e))"

text \<open>A run: rounds of the loop, with failed dials rotating the list between them.\<close>

fun steer_ev :: "('f::linorder measured list \<Rightarrow> 's \<times> endpoints \<Rightarrow> 's \<times> endpoints) \<Rightarrow> 's \<times> endpoints \<Rightarrow> 'f steer_event \<Rightarrow> 's \<times> endpoints" where
  "steer_ev rnd (s, e) Dial_failed = (s, fst (Rotate e))"
| "steer_ev rnd (s, e) (Round scores) = rnd scores (s, e)"

definition streak_ok :: "nat option list \<Rightarrow> steering \<Rightarrow> bool" where
  "streak_ok log s \<longleftrightarrow>
     (case candidate s of None \<Rightarrow> streak s = 0 \<and> (log = [] \<or> last log = None)
      | Some b \<Rightarrow> (streak s = 1 \<and> (\<exists>pre. log = pre @ [Some b] \<and> (pre = [] \<or> last pre \<noteq> Some b))) \<or>
                 (streak s = 2 \<and> suffix [Some b, Some b] log))"

lemma suffix_two: "suffix [x, x] (xs @ [x]) \<longleftrightarrow> xs \<noteq> [] \<and> last xs = x"
  by (cases xs rule: rev_cases) (auto simp: suffix_def)

lemma streak_suffix: "streak_ok log s \<Longrightarrow> suffix [Some b, Some b] log \<longleftrightarrow> candidate s = Some b \<and> streak s = 2"
  by (cases log rule: rev_cases) (auto simp: streak_ok_def suffix_two suffix_def split: option.splits)

lemma streak_last: "streak_ok log s \<Longrightarrow> log \<noteq> [] \<and> last log = Some b \<longleftrightarrow> candidate s = Some b"
  by (auto simp: streak_ok_def suffix_def split: option.splits)

lemma streak_vote:
  assumes "streak_ok log s" "\<not> suffix [Some b, Some b] log"
    "s' = (if candidate s = Some b then s\<lparr>streak := streak s + 1\<rparr> else \<lparr>candidate = Some b, streak = 1\<rparr>)"
  shows "streak_ok (log @ [Some b]) s' \<and> streak s' < needStreak"
  using assms(1) streak_suffix [OF assms(1), of b] streak_last [OF assms(1), of b] assms(2)
  by (auto simp: streak_ok_def assms(3) needStreak_def suffix_two split: option.splits)

lemma streak_reset: "streak_ok [] steer_start" "streak_ok (log @ [None]) steer_start"
  by (simp_all add: streak_ok_def steer_start_def)

lemma round_simulates:
  assumes "streak_ok log s" "steer_round clearly scores (s, e) = (s', e')" "spec_round clearly scores (log, e) = (log', e'')"
  shows "streak_ok log' s' \<and> e' = e''"
proof (cases "best_exit scores")
  case None
  then show ?thesis using assms by (simp add: steer_round_def spec_round_def)
next
  case (Some b)
  let ?c = "nat (clampIdx e (e_preferred e))"
  let ?s = "if candidate s = Some b then s\<lparr>streak := streak s + 1\<rparr> else \<lparr>candidate = Some b, streak = 1\<rparr>"
  consider (same) "b = ?c" | (silent) "b \<noteq> ?c" "\<not> fst (scores ! ?c)"
    | (keep) "b \<noteq> ?c" "fst (scores ! ?c)" "\<not> clearly (snd (scores ! b)) (snd (scores ! ?c))"
    | (wins) "b \<noteq> ?c" "fst (scores ! ?c)" "clearly (snd (scores ! b)) (snd (scores ! ?c))" by blast
  then show ?thesis
  proof cases
    case wins
    show ?thesis
    proof (cases "suffix [Some b, Some b] log")
      case True
      then have "candidate s = Some b" "streak s = 2" using streak_suffix [OF assms(1)] by auto
      then show ?thesis using assms(2,3) Some wins True
        by (auto simp: steer_round_def spec_round_def Let_def needStreak_def streak_reset)
    next
      case False
      note v = streak_vote [OF assms(1) False refl]
      then have "s' = ?s" "e' = e" "log' = log @ [Some b]" "e'' = e"
        using assms(2,3) Some wins False by (simp_all add: steer_round_def spec_round_def Let_def not_le [symmetric] split: if_splits)
      then show ?thesis using v by simp
    qed
  qed (use assms(2,3) Some in \<open>auto simp: steer_round_def spec_round_def Let_def streak_reset\<close>)
qed

text \<open>Steering does what its hysteresis promises: over any run of measuring rounds with failed dials in between, the
  loop with its candidate and counter sends traffic to the same endpoints as the contract does: away from a silent
  exit at once, and away from one that answers only when the same other exit was the best and clearly better in
  three answered rounds in a row.\<close>

theorem steering_refines_hysteresis:
  "snd (foldl (steer_ev (steer_round clearly)) (steer_start, e) evs) = snd (foldl (steer_ev (spec_round clearly)) ([], e) evs)"
proof -
  have "streak_ok (fst (foldl (steer_ev (spec_round clearly)) (log, e) evs)) (fst (foldl (steer_ev (steer_round clearly)) (s, e) evs)) \<and>
    snd (foldl (steer_ev (steer_round clearly)) (s, e) evs) = snd (foldl (steer_ev (spec_round clearly)) (log, e) evs)"
    if "streak_ok log s" for log s e
    using that
  proof (induction evs arbitrary: log s e)
    case (Cons ev evs)
    show ?case
    proof (cases ev)
      case Dial_failed
      then show ?thesis using Cons by simp
    next
      case (Round scores)
      obtain s' e' log' e'' where r: "steer_round clearly scores (s, e) = (s', e')" "spec_round clearly scores (log, e) = (log', e'')"
        by fastforce
      show ?thesis using round_simulates [OF Cons.prems r] Cons.IH [of log' s' e'] r Round by simp
    qed
  qed simp
  then show ?thesis using streak_reset(1) by blast
qed

end
