(* ===== verification/Signals.thy ===== *)
theory Signals
  imports Framing
begin

text \<open>
  Messages between the two ends of a reverse tunnel: the signals (\<open>internal/utils/signals.go\<close>) and the
  length-prefixed strings and single bytes (\<open>internal/utils/binary.go\<close>). A connection is the bytes on it; a read that
  does not get all it asks for fails.
\<close>

section \<open>Signals\<close>

definition SG_HB :: byte where "SG_HB = 0"
definition SG_Chan :: byte where "SG_Chan = 1"
definition SG_Ping :: byte where "SG_Ping = 2"
definition SG_Closed :: byte where "SG_Closed = 3"
definition SG_TCP :: byte where "SG_TCP = 4"
definition SG_UDP :: byte where "SG_UDP = 5"
definition SG_RTT :: byte where "SG_RTT = 6"
definition SG_ChanV2 :: byte where "SG_ChanV2 = 7"
definition SG_Pool :: byte where "SG_Pool = 8"
definition SG_Refused :: byte where "SG_Refused = 9"

lemmas signal_defs = SG_HB_def SG_Chan_def SG_Ping_def SG_Closed_def SG_TCP_def SG_UDP_def SG_RTT_def SG_ChanV2_def
  SG_Pool_def SG_Refused_def

definition RefusedBadToken :: string where "RefusedBadToken = ''token''"
definition RefusedInUse :: string where "RefusedInUse = ''in-use''"

definition WebSocketSignal :: "bool \<Rightarrow> bytes \<Rightarrow> byte option" where
  "WebSocketSignal binary payload = (if \<not> binary \<or> length payload \<noteq> 1 then None else Some (payload ! 0))"

section \<open>Strings on a connection\<close>

text \<open>The length field is sixteen bits: \<open>uint16(len(message))\<close> wraps for anything longer.\<close>

definition SendBinaryString :: "string \<Rightarrow> bytes" where
  "SendBinaryString message =
     (let buf = replicate (2 + length message) 0;
          buf = copy_at 0 (be_put 2 (word_of_nat (length message) :: u16)) buf
      in copy_at 2 (str_bytes message) buf)"

definition ReceiveBinaryString :: "bytes \<Rightarrow> (string \<times> bytes) option" where
  "ReceiveBinaryString src =
     (if length src < 2 then None
      else let n = unat (be_get (take 2 src) :: u16); rest = drop 2 src in
           if length rest < n then None else Some (bytes_str (take n rest), drop n rest))"

definition SendBinaryTransportString :: "string \<Rightarrow> byte \<Rightarrow> bytes" where
  "SendBinaryTransportString message transport =
     (let buf = replicate (3 + length message) 0;
          buf = copy_at 0 (be_put 2 (word_of_nat (length message) :: u16)) buf;
          buf = buf[2 := transport]
      in copy_at 3 (str_bytes message) buf)"

definition ReceiveBinaryTransportString :: "bytes \<Rightarrow> ((string \<times> byte) \<times> bytes) option" where
  "ReceiveBinaryTransportString src =
     (if length src < 3 then None
      else let n = unat (be_get (take 2 src) :: u16); transport = src ! 2; rest = drop 3 src in
           if length rest < n then None else Some ((bytes_str (take n rest), transport), drop n rest))"

definition SendBinaryByte :: "byte \<Rightarrow> bytes" where "SendBinaryByte message = [message]"

definition ReceiveBinaryByte :: "bytes \<Rightarrow> (byte \<times> bytes) option" where
  "ReceiveBinaryByte src = (case src of [] \<Rightarrow> None | b # rest \<Rightarrow> Some (b, rest))"

section \<open>What is sent is received\<close>

lemma sent_string: "SendBinaryString m = be_put 2 (word_of_nat (length m) :: u16) @ str_bytes m"
proof -
  have "replicate (2 + length m) (0 :: byte) = replicate 2 0 @ replicate (length m) 0"
    by (simp add: numeral_2_eq_2)
  then show ?thesis by (simp add: SendBinaryString_def Let_def copy_at_def)
qed

lemma sent_transport_string:
  "SendBinaryTransportString m t = be_put 2 (word_of_nat (length m) :: u16) @ t # str_bytes m"
proof -
  have "replicate (3 + length m) (0 :: byte) = replicate 2 0 @ 0 # replicate (length m) 0"
    by (simp add: numeral_3_eq_3 numeral_2_eq_2)
  then show ?thesis by (simp add: SendBinaryTransportString_def Let_def copy_at_def list_update_append)
qed

lemma receive_string:
  "length m < 65536 \<Longrightarrow> ReceiveBinaryString (SendBinaryString m @ rest) = Some (m, rest)"
  using unat_of_nat16 [of "length m"] by (simp add: sent_string ReceiveBinaryString_def Let_def)

lemma receive_transport_string:
  "length m < 65536 \<Longrightarrow> ReceiveBinaryTransportString (SendBinaryTransportString m t @ rest) = Some ((m, t), rest)"
  using unat_of_nat16 [of "length m"]
  by (simp add: sent_transport_string ReceiveBinaryTransportString_def Let_def nth_append)

text \<open>A string of 65536 bytes arrives as the empty one, and its text as the next message.\<close>

lemma long_string_wraps:
  "length m = 65536 \<Longrightarrow> ReceiveBinaryTransportString (SendBinaryTransportString m t) = Some (([], t), str_bytes m)"
  by (simp add: sent_transport_string ReceiveBinaryTransportString_def Let_def nth_append bytes_str_def)

lemma receive_byte: "ReceiveBinaryByte (SendBinaryByte b @ rest) = Some (b, rest)"
  by (simp add: ReceiveBinaryByte_def SendBinaryByte_def)

end
