(* ===== verification/ReverseServer.thy ===== *)
theory ReverseServer
  imports Signals Limits GoNet
begin

text \<open>
  The listening side of a reverse tunnel over TCP (\<open>internal/server/transport/tcp.go\<close>, with \<open>announce.go\<close>, \<open>control.go\<close>
  and the admission of forwarded datagrams in \<open>udpforward.go\<close>): which connections become the control channel or join
  the pool, how accepted users are queued and paired with pool connections, and what a restart replaces.

  Connections are numbers; \<open>addr\<close> gives the remote address of each. A run of the transport is a generation, and the
  goroutines of an old one go on with its channels after a restart: generations are a list, the current one is the
  last. A goroutine is what it holds between two blocking points: a connection whose announcement is awaited, a claim
  that was acknowledged and not yet offered, a worker of \<open>handleLoop\<close>, a transfer. One event is one goroutine going
  from one such point to the next. Outcomes of I/O, random nonces and the clock (ms) are arguments of the events.
\<close>

section \<open>State\<close>

record tcpConfig =
  cfg_token :: string
  cfg_channelSize :: nat
  cfg_stealth :: bool
  cfg_numCPU :: nat

record local_conn =
  lc_conn :: nat
  lc_remoteAddr :: string
  lc_timeCreated :: int

record controlCandidate =
  cc_conn :: nat
  cc_nonce :: string

text \<open>A worker that returned keeps what it had in its hands.\<close>

datatype worker = Idle | Holding local_conn | Exited "local_conn option"

datatype phase = Waiting | Serving | Over

record tcpGen =
  g_done :: bool
  g_tunnel :: "nat list"
  g_local :: "local_conn list"
  g_req :: nat
  g_handshake :: "controlCandidate option"
  g_phase :: phase
  g_handler :: bool
  g_workers :: "worker list"

record server =
  v_control :: "nat option"
  v_nonce :: string
  v_limits :: "rev_limiter option"
  v_gens :: "tcpGen list"
  v_reading :: "(nat \<times> nat) list"
  v_claims :: "(nat \<times> controlCandidate) list"
  v_transfers :: "(nat \<times> local_conn \<times> nat) list"
  v_restarting :: bool

datatype act = CloseConn nat | SendMsg nat string byte | SendByte nat byte

definition new_gen :: tcpGen where
  "new_gen = \<lparr>g_done = False, g_tunnel = [], g_local = [], g_req = 0, g_handshake = None, g_phase = Waiting, g_handler = False, g_workers = []\<rparr>"

definition NewTCPServer :: "int \<Rightarrow> int \<Rightarrow> server" where
  "NewTCPServer maxConnections bandwidthMbps =
     \<lparr>v_control = None, v_nonce = [], v_limits = newLimiter maxConnections bandwidthMbps, v_gens = [new_gen],
      v_reading = [], v_claims = [], v_transfers = [], v_restarting = False\<rparr>"

definition upd_gen :: "nat \<Rightarrow> (tcpGen \<Rightarrow> tcpGen) \<Rightarrow> server \<Rightarrow> server" where
  "upd_gen i f v = v\<lparr>v_gens := (v_gens v)[i := f (v_gens v ! i)]\<rparr>"

definition remove_at :: "nat \<Rightarrow> 'a list \<Rightarrow> 'a list" where
  "remove_at k xs = take k xs @ drop (k + 1) xs"

section \<open>Admitting a tunnel connection\<close>

text \<open>Addresses as \<open>host:port\<close>; \<open>None\<close> is a nil address.\<close>

definition sameHost :: "string option \<Rightarrow> string option \<Rightarrow> bool" where
  "sameHost a b =
     (case (a, b) of
        (Some a, Some b) \<Rightarrow>
          (case (split_host_port a, split_host_port b) of
             (Some (ha, _), Some (hb, _)) \<Rightarrow>
               (case (ParseIP ha, ParseIP hb) of
                  (Some ipa, Some ipb) \<Rightarrow> ip_equal ipa ipb
                | _ \<Rightarrow> ha = hb)
           | _ \<Rightarrow> False)
      | _ \<Rightarrow> False)"

definition deliverTunnelConn :: "tcpConfig \<Rightarrow> nat \<Rightarrow> nat \<Rightarrow> server \<Rightarrow> server \<times> act list" where
  "deliverTunnelConn cfg i c v =
     (if length (g_tunnel (v_gens v ! i)) < cfg_channelSize cfg
      then (upd_gen i (\<lambda>g. g\<lparr>g_tunnel := g_tunnel g @ [c]\<rparr>) v, [])
      else (v, [CloseConn c]))"

text \<open>Up to the read of the announcement: the stealth handshake, and the branch for a legacy client.\<close>

definition admit_open :: "tcpConfig \<Rightarrow> (nat \<Rightarrow> string option) \<Rightarrow> bool \<Rightarrow> nat \<Rightarrow> nat \<Rightarrow> server \<Rightarrow> server \<times> act list" where
  "admit_open cfg addr stealth_ok i c v =
     (if cfg_stealth cfg \<and> \<not> stealth_ok then (v, [CloseConn c])
      else case v_control v of
        Some p \<Rightarrow>
          if v_nonce v = [] then
            (if addr p \<noteq> None \<and> \<not> sameHost (addr p) (addr c) then (v, [CloseConn c]) else deliverTunnelConn cfg i c v)
          else (v\<lparr>v_reading := v_reading v @ [(i, c)]\<rparr>, [])
      | None \<Rightarrow> (v\<lparr>v_reading := v_reading v @ [(i, c)]\<rparr>, []))"

definition isControlSignal :: "byte \<Rightarrow> bool" where
  "isControlSignal sig \<longleftrightarrow> sig = SG_Chan \<or> sig = SG_ChanV2"

definition tokenMatches :: "string \<Rightarrow> string \<Rightarrow> bool" where
  "tokenMatches got want \<longleftrightarrow> got = want"

text \<open>The answer and the nonce it carries; \<open>fresh\<close> is the draw of a nonce, which can fail.\<close>

definition controlAck :: "byte \<Rightarrow> string \<Rightarrow> nat \<Rightarrow> string option \<Rightarrow> (string \<times> string \<times> nat) option" where
  "controlAck sig token muxVersion fresh =
     (if sig \<noteq> SG_ChanV2 then Some (token, [], 0)
      else case fresh of None \<Rightarrow> None | Some nonce \<Rightarrow> Some (EncodeControlAck token nonce muxVersion, nonce, muxVersion))"

definition refuseControl :: "nat \<Rightarrow> string \<Rightarrow> act list" where
  "refuseControl c reason = [SendMsg c reason SG_Refused, CloseConn c]"

text \<open>A claim to the control channel, up to the acknowledgement.\<close>

definition admitControlChannel ::
    "tcpConfig \<Rightarrow> nat \<Rightarrow> nat \<Rightarrow> string \<Rightarrow> byte \<Rightarrow> string option \<Rightarrow> bool \<Rightarrow> server \<Rightarrow> server \<times> act list" where
  "admitControlChannel cfg i c payload sig fresh wrote v =
     (if v_control v \<noteq> None then (v, refuseControl c RefusedInUse)
      else if \<not> tokenMatches payload (cfg_token cfg) then (v, refuseControl c RefusedBadToken)
      else case controlAck sig (cfg_token cfg) 0 fresh of
             None \<Rightarrow> (v, [CloseConn c])
           | Some (ack, nonce, _) \<Rightarrow>
               if \<not> wrote then (v, [CloseConn c])
               else (v\<lparr>v_claims := v_claims v @ [(i, \<lparr>cc_conn = c, cc_nonce = nonce\<rparr>)]\<rparr>, [SendMsg c ack sig]))"

definition admit_announced ::
    "tcpConfig \<Rightarrow> nat \<Rightarrow> nat \<Rightarrow> (string \<times> byte) option \<Rightarrow> string option \<Rightarrow> bool \<Rightarrow> server \<Rightarrow> server \<times> act list" where
  "admit_announced cfg i c ann fresh wrote v =
     (case ann of
        None \<Rightarrow> (v, [CloseConn c])
      | Some (payload, sig) \<Rightarrow>
          if isControlSignal sig then admitControlChannel cfg i c payload sig fresh wrote v
          else if sig = SG_Pool then
            (if \<not> nonce_Verify (v_nonce v) payload then (v, [CloseConn c]) else deliverTunnelConn cfg i c v)
          else (v, [CloseConn c]))"

text \<open>The end of \<open>admitControlChannel\<close>: the channel holds one candidate.\<close>

definition offer_candidate :: "nat \<Rightarrow> controlCandidate \<Rightarrow> server \<Rightarrow> server \<times> act list" where
  "offer_candidate i cand v =
     (if g_handshake (v_gens v ! i) = None then (upd_gen i (\<lambda>g. g\<lparr>g_handshake := Some cand\<rparr>) v, [])
      else (v, [CloseConn (cc_conn cand)]))"

section \<open>A generation\<close>

text \<open>What \<open>start\<close> does after \<open>channelHandshake\<close> returned.\<close>

definition start_rest :: "tcpConfig \<Rightarrow> nat \<Rightarrow> server \<Rightarrow> server" where
  "start_rest cfg i v =
     (if v_control v \<noteq> None
      then upd_gen i (\<lambda>g. g\<lparr>g_phase := Serving, g_handler := True, g_workers := replicate (min 4 (cfg_numCPU cfg)) Idle\<rparr>) v
      else upd_gen i (\<lambda>g. g\<lparr>g_phase := Over\<rparr>) v)"

definition channelHandshake :: "tcpConfig \<Rightarrow> nat \<Rightarrow> bool \<Rightarrow> server \<Rightarrow> server" where
  "channelHandshake cfg i cancelled v =
     (let g = v_gens v ! i in
      if g_phase g \<noteq> Waiting then v
      else if cancelled then (if g_done g then start_rest cfg i v else v)
      else case g_handshake g of
             None \<Rightarrow> v
           | Some cand \<Rightarrow>
               start_rest cfg i (upd_gen i (\<lambda>g. g\<lparr>g_handshake := None\<rparr>)
                 (v\<lparr>v_nonce := cc_nonce cand, v_control := Some (cc_conn cand)\<rparr>)))"

text \<open>One round of \<open>channelHandler\<close>, whose first act is \<open>H_start\<close>; the flag asks for a restart, and the handler ends
  with it. \<open>wrote\<close> is whether the control channel took the byte in time.\<close>

datatype handler_event = H_start | H_done | H_request | H_tick | H_message byte

definition control_send :: "byte \<Rightarrow> bool \<Rightarrow> server \<Rightarrow> act list \<times> bool" where
  "control_send b wrote v =
     (case v_control v of None \<Rightarrow> ([], False) | Some c \<Rightarrow> if wrote then ([SendByte c b], True) else ([], False))"

definition handler_end :: "nat \<Rightarrow> server \<Rightarrow> server" where
  "handler_end i v = upd_gen i (\<lambda>g. g\<lparr>g_handler := False\<rparr>) v"

definition handler_sends :: "nat \<Rightarrow> byte \<Rightarrow> bool \<Rightarrow> server \<Rightarrow> server \<times> act list \<times> bool" where
  "handler_sends i b wrote v =
     (let (acts, ok) = control_send b wrote v in if ok then (v, acts, False) else (handler_end i v, acts, True))"

definition channelHandler :: "nat \<Rightarrow> handler_event \<Rightarrow> bool \<Rightarrow> server \<Rightarrow> server \<times> act list \<times> bool" where
  "channelHandler i ev wrote v =
     (let g = v_gens v ! i in
      if \<not> g_handler g then (v, [], False)
      else case ev of
        H_start \<Rightarrow> handler_sends i SG_RTT wrote v
      | H_done \<Rightarrow> if g_done g then (handler_end i v, fst (control_send SG_Closed wrote v), False) else (v, [], False)
      | H_request \<Rightarrow>
          if g_req g = 0 then (v, [], False)
          else handler_sends i SG_Chan wrote (upd_gen i (\<lambda>g. g\<lparr>g_req := g_req g - 1\<rparr>) v)
      | H_tick \<Rightarrow> handler_sends i SG_HB wrote v
      | H_message b \<Rightarrow> if b = SG_Closed then (handler_end i v, [], True) else (v, [], False))"

text \<open>\<open>Restart\<close> in two parts: before its pause and after it.\<close>

definition Restart_begin :: "server \<Rightarrow> server \<times> act list" where
  "Restart_begin v =
     (if v_restarting v then (v, [])
      else (upd_gen (length (v_gens v) - 1) (\<lambda>g. g\<lparr>g_done := True\<rparr>) (v\<lparr>v_restarting := True\<rparr>),
            case v_control v of None \<Rightarrow> [] | Some c \<Rightarrow> [CloseConn c]))"

definition Restart_finish :: "bool \<Rightarrow> server \<Rightarrow> server" where
  "Restart_finish parent_done v =
     (if \<not> v_restarting v then v
      else if parent_done then v\<lparr>v_restarting := False\<rparr>
      else v\<lparr>v_gens := v_gens v @ [new_gen], v_control := None, v_nonce := nonce_Clear (v_nonce v), v_restarting := False\<rparr>)"

section \<open>Users\<close>

definition acceptLocalConn :: "tcpConfig \<Rightarrow> nat \<Rightarrow> nat \<Rightarrow> string \<Rightarrow> int \<Rightarrow> server \<Rightarrow> server \<times> act list" where
  "acceptLocalConn cfg i c remoteAddr now v =
     (let (lim, got) = lim_acquire (v_limits v); v = v\<lparr>v_limits := lim\<rparr>; g = v_gens v ! i in
      if \<not> got then (v, [CloseConn c])
      else if length (g_local g) < cfg_channelSize cfg then
        (upd_gen i (\<lambda>g. g\<lparr>g_local := g_local g @ [\<lparr>lc_conn = c, lc_remoteAddr = remoteAddr, lc_timeCreated = now\<rparr>],
                          g_req := (if g_req g < cfg_channelSize cfg then g_req g + 1 else g_req g)\<rparr>) v, [])
      else (v\<lparr>v_limits := lim_release (v_limits v)\<rparr>, [CloseConn c]))"

text \<open>A flow of forwarded datagrams is admitted the same way; its caller closes a refused one.\<close>

definition udpAdmitter :: "tcpConfig \<Rightarrow> nat \<Rightarrow> nat \<Rightarrow> string \<Rightarrow> int \<Rightarrow> server \<Rightarrow> server \<times> bool" where
  "udpAdmitter cfg i c target now v =
     (let (lim, got) = lim_acquire (v_limits v); v = v\<lparr>v_limits := lim\<rparr>; g = v_gens v ! i in
      if \<not> got then (v, False)
      else if length (g_local g) < cfg_channelSize cfg then
        (upd_gen i (\<lambda>g. g\<lparr>g_local := g_local g @ [\<lparr>lc_conn = c, lc_remoteAddr = target, lc_timeCreated = now\<rparr>],
                          g_req := (if g_req g < cfg_channelSize cfg then g_req g + 1 else g_req g)\<rparr>) v, True)
      else (v\<lparr>v_limits := lim_release (v_limits v)\<rparr>, False))"

section \<open>Pairing\<close>

definition set_worker :: "nat \<Rightarrow> worker \<Rightarrow> tcpGen \<Rightarrow> tcpGen" where
  "set_worker k w g = g\<lparr>g_workers := (g_workers g)[k := w]\<rparr>"

text \<open>The head of the inner loop of \<open>handleLoop\<close>: a user that waited more than three seconds is given up.\<close>

definition loop_head :: "nat \<Rightarrow> nat \<Rightarrow> local_conn \<Rightarrow> int \<Rightarrow> server \<Rightarrow> server \<times> act list" where
  "loop_head i k l now v =
     (if 3000 < now - lc_timeCreated l
      then (upd_gen i (set_worker k Idle) (v\<lparr>v_limits := lim_release (v_limits v)\<rparr>), [CloseConn (lc_conn l)])
      else (upd_gen i (set_worker k (Holding l)) v, []))"

datatype loop_event = L_take | L_pair bool | L_exit

definition handleLoop :: "nat \<Rightarrow> nat \<Rightarrow> loop_event \<Rightarrow> int \<Rightarrow> server \<Rightarrow> server \<times> act list" where
  "handleLoop i k ev now v =
     (let g = v_gens v ! i in
      case ev of
        L_take \<Rightarrow>
          (case (g_workers g ! k, g_local g) of
             (Idle, l # ls) \<Rightarrow> loop_head i k l now (upd_gen i (\<lambda>g. g\<lparr>g_local := ls\<rparr>) v)
           | _ \<Rightarrow> (v, []))
      | L_pair wrote \<Rightarrow>
          (case (g_workers g ! k, g_tunnel g) of
             (Holding l, t # ts) \<Rightarrow>
               let v = upd_gen i (\<lambda>g. g\<lparr>g_tunnel := ts\<rparr>) v in
               if wrote then (upd_gen i (set_worker k Idle) (v\<lparr>v_transfers := v_transfers v @ [(i, l, t)]\<rparr>),
                              [SendMsg t (lc_remoteAddr l) SG_TCP])
               else let (v, acts) = loop_head i k l now v in (v, CloseConn t # acts)
           | _ \<Rightarrow> (v, []))
      | L_exit \<Rightarrow>
          if \<not> g_done g then (v, [])
          else (case g_workers g ! k of
                  Idle \<Rightarrow> (upd_gen i (set_worker k (Exited None)) v, [])
                | Holding l \<Rightarrow> (upd_gen i (set_worker k (Exited (Some l))) v, [])
                | Exited _ \<Rightarrow> (v, [])))"

text \<open>The goroutine of a pair, when the transfer is over.\<close>

definition transfer_end :: "nat \<Rightarrow> server \<Rightarrow> server" where
  "transfer_end k v = v\<lparr>v_transfers := remove_at k (v_transfers v), v_limits := lim_release (v_limits v)\<rparr>"

section \<open>Runs\<close>

datatype event =
    Ev_open nat nat bool
  | Ev_announced nat "(string \<times> byte) option" "string option" bool
  | Ev_offer nat
  | Ev_handshake nat bool
  | Ev_handler nat handler_event bool
  | Ev_restart_begin
  | Ev_restart_finish bool
  | Ev_local nat nat string int
  | Ev_flow nat nat string int
  | Ev_loop nat nat loop_event int
  | Ev_transfer_end nat

text \<open>An event of a goroutine that does not exist changes nothing; the listeners of a generation start with its service.\<close>

fun step :: "tcpConfig \<Rightarrow> (nat \<Rightarrow> string option) \<Rightarrow> event \<Rightarrow> server \<Rightarrow> server \<times> act list" where
  "step cfg addr (Ev_open i c ok) v = (if i < length (v_gens v) then admit_open cfg addr ok i c v else (v, []))"
| "step cfg addr (Ev_announced k ann fresh wrote) v =
     (if k < length (v_reading v)
      then let (i, c) = v_reading v ! k in
           admit_announced cfg i c ann fresh wrote (v\<lparr>v_reading := remove_at k (v_reading v)\<rparr>)
      else (v, []))"
| "step cfg addr (Ev_offer k) v =
     (if k < length (v_claims v)
      then let (i, cand) = v_claims v ! k in offer_candidate i cand (v\<lparr>v_claims := remove_at k (v_claims v)\<rparr>)
      else (v, []))"
| "step cfg addr (Ev_handshake i cancelled) v =
     (if i < length (v_gens v) then (channelHandshake cfg i cancelled v, []) else (v, []))"
| "step cfg addr (Ev_handler i ev wrote) v =
     (if i < length (v_gens v) then let (v, acts, _) = channelHandler i ev wrote v in (v, acts) else (v, []))"
| "step cfg addr Ev_restart_begin v = Restart_begin v"
| "step cfg addr (Ev_restart_finish parent_done) v = (Restart_finish parent_done v, [])"
| "step cfg addr (Ev_local i c remote now) v =
     (if i < length (v_gens v) \<and> g_phase (v_gens v ! i) = Serving then acceptLocalConn cfg i c remote now v else (v, []))"
| "step cfg addr (Ev_flow i c target now) v =
     (if i < length (v_gens v) \<and> g_phase (v_gens v ! i) = Serving then (fst (udpAdmitter cfg i c target now v), []) else (v, []))"
| "step cfg addr (Ev_loop i k ev now) v =
     (if i < length (v_gens v) \<and> k < length (g_workers (v_gens v ! i)) then handleLoop i k ev now v else (v, []))"
| "step cfg addr (Ev_transfer_end k) v = (if k < length (v_transfers v) then (transfer_end k v, []) else (v, []))"

definition run :: "tcpConfig \<Rightarrow> (nat \<Rightarrow> string option) \<Rightarrow> event list \<Rightarrow> server \<Rightarrow> server" where
  "run cfg addr evs v = foldl (\<lambda>v e. fst (step cfg addr e v)) v evs"

section \<open>Slots\<close>

text \<open>The users a generation is responsible for, and all that a slot was taken for.\<close>

definition in_hand :: "worker \<Rightarrow> local_conn list" where
  "in_hand w = (case w of Idle \<Rightarrow> [] | Holding l \<Rightarrow> [l] | Exited lo \<Rightarrow> (case lo of None \<Rightarrow> [] | Some l \<Rightarrow> [l]))"

definition gen_held :: "tcpGen \<Rightarrow> nat" where
  "gen_held g = length (g_local g) + (\<Sum>w \<leftarrow> g_workers g. length (in_hand w))"

definition in_service :: "server \<Rightarrow> nat" where
  "in_service v = (\<Sum>g \<leftarrow> v_gens v. gen_held g) + length (v_transfers v)"

definition slots_ok :: "nat \<Rightarrow> server \<Rightarrow> bool" where
  "slots_ok n v \<longleftrightarrow> rev_good n (v_limits v) \<and> rev_held (v_limits v) = in_service v \<and>
     list_all (\<lambda>g. g_phase g = Waiting \<longrightarrow> g_workers g = []) (v_gens v)"

lemma in_hand_simps [simp]:
  "in_hand Idle = []" "in_hand (Holding l) = [l]" "in_hand (Exited None) = []" "in_hand (Exited (Some l)) = [l]"
  by (simp_all add: in_hand_def)

lemma sum_update: "i < length xs \<Longrightarrow> sum_list (map f (xs[i := y])) + f (xs ! i) = sum_list (map f xs) + (f y :: nat)"
  by (induction xs arbitrary: i) (auto split: nat.splits simp: nth_Cons')

lemma length_remove_at [simp]: "k < length xs \<Longrightarrow> length (remove_at k xs) = length xs - 1"
  by (simp add: remove_at_def)

lemma upd_gen_fields [simp]:
  "v_limits (upd_gen i f v) = v_limits v" "v_transfers (upd_gen i f v) = v_transfers v" "length (v_gens (upd_gen i f v)) = length (v_gens v)"
  "v_control (upd_gen i f v) = v_control v" "v_nonce (upd_gen i f v) = v_nonce v"
  "v_reading (upd_gen i f v) = v_reading v" "v_claims (upd_gen i f v) = v_claims v"
  by (simp_all add: upd_gen_def)

lemma upd_gen_nth [simp]: "i < length (v_gens v) \<Longrightarrow> v_gens (upd_gen i f v) ! j = (if j = i then f (v_gens v ! i) else v_gens v ! j)"
  by (simp add: upd_gen_def)

text \<open>What a step does to one generation, and what that does to the count.\<close>

lemma in_service_upd:
  "i < length (v_gens v) \<Longrightarrow> in_service (upd_gen i f v) + gen_held (v_gens v ! i) = in_service v + gen_held (f (v_gens v ! i))"
  using sum_update [of i "v_gens v" gen_held "f (v_gens v ! i)"] by (simp add: in_service_def upd_gen_def)

lemma slots_ok_upd:
  assumes "slots_ok n v" "i < length (v_gens v)" "gen_held (f (v_gens v ! i)) = gen_held (v_gens v ! i)"
    "g_phase (f (v_gens v ! i)) = Waiting \<Longrightarrow> g_workers (f (v_gens v ! i)) = []"
  shows "slots_ok n (upd_gen i f v)"
  using assms in_service_upd [OF assms(2), of f]
  by (auto simp: slots_ok_def list_all_length upd_gen_def nth_list_update)

lemma slots_ok_cong:
  "v_limits v' = v_limits v \<Longrightarrow> v_gens v' = v_gens v \<Longrightarrow> v_transfers v' = v_transfers v \<Longrightarrow> slots_ok n v' \<longleftrightarrow> slots_ok n v"
  by (simp add: slots_ok_def in_service_def)

lemma slots_waiting: "slots_ok n v \<Longrightarrow> i < length (v_gens v) \<Longrightarrow> g_phase (v_gens v ! i) = Waiting \<Longrightarrow> g_workers (v_gens v ! i) = []"
  by (simp add: slots_ok_def list_all_length)

lemma set_worker_held:
  "k < length (g_workers g) \<Longrightarrow> gen_held (set_worker k w g) + length (in_hand (g_workers g ! k)) = gen_held g + length (in_hand w)"
  using sum_update [of k "g_workers g" "\<lambda>w. length (in_hand w)" w] by (simp add: gen_held_def set_worker_def)

text \<open>Admission and the control channel leave the count alone.\<close>

lemma slots_deliver: "slots_ok n v \<Longrightarrow> i < length (v_gens v) \<Longrightarrow> slots_ok n (fst (deliverTunnelConn cfg i c v))"
  by (auto simp: deliverTunnelConn_def gen_held_def intro!: slots_ok_upd slots_waiting)

lemma slots_open: "slots_ok n v \<Longrightarrow> i < length (v_gens v) \<Longrightarrow> slots_ok n (fst (admit_open cfg addr ok i c v))"
  by (auto simp: admit_open_def slots_deliver split: option.split cong: slots_ok_cong)

lemma slots_announced: "slots_ok n v \<Longrightarrow> i < length (v_gens v) \<Longrightarrow> slots_ok n (fst (admit_announced cfg i c ann fresh wrote v))"
  by (auto simp: admit_announced_def admitControlChannel_def slots_deliver split: option.split)
    (simp_all add: slots_ok_def in_service_def)

lemma slots_offer: "slots_ok n v \<Longrightarrow> i < length (v_gens v) \<Longrightarrow> slots_ok n (fst (offer_candidate i cand v))"
  by (auto simp: offer_candidate_def gen_held_def intro!: slots_ok_upd slots_waiting)

lemma slots_start_rest:
  assumes "slots_ok n v" "i < length (v_gens v)" "g_phase (v_gens v ! i) = Waiting"
  shows "slots_ok n (start_rest cfg i v)"
  using slots_waiting [OF assms]
  by (auto simp: start_rest_def gen_held_def sum_list_replicate intro!: slots_ok_upd assms)

lemma slots_handshake: "slots_ok n v \<Longrightarrow> i < length (v_gens v) \<Longrightarrow> slots_ok n (channelHandshake cfg i cancelled v)"
proof -
  assume a: "slots_ok n v" "i < length (v_gens v)"
  have "slots_ok n (start_rest cfg i (upd_gen i (\<lambda>g. g\<lparr>g_handshake := None\<rparr>) (v\<lparr>v_nonce := x, v_control := y\<rparr>)))"
    if "g_phase (v_gens v ! i) = Waiting" for x y
    using a that slots_waiting [OF a that]
    by (intro slots_start_rest slots_ok_upd) (simp_all add: gen_held_def slots_ok_def in_service_def)
  then show ?thesis using a by (auto simp: channelHandshake_def Let_def slots_start_rest split: option.split)
qed

lemma slots_handler: "slots_ok n v \<Longrightarrow> i < length (v_gens v) \<Longrightarrow> slots_ok n (fst (channelHandler i ev wrote v))"
proof -
  assume a: "slots_ok n v" "i < length (v_gens v)"
  have e: "slots_ok n (handler_end i u)" if "slots_ok n u" "i < length (v_gens u)" for u
    using that by (auto simp: handler_end_def gen_held_def intro!: slots_ok_upd slots_waiting)
  have s: "slots_ok n (fst (handler_sends i b wrote u))" if "slots_ok n u" "i < length (v_gens u)" for u b
    using that e by (auto simp: handler_sends_def split: prod.split)
  have r: "slots_ok n (upd_gen i (\<lambda>g. g\<lparr>g_req := g_req g - 1\<rparr>) v)"
    using a by (auto simp: gen_held_def intro!: slots_ok_upd slots_waiting)
  show ?thesis using a e s [OF r] s [OF a] by (auto simp: channelHandler_def Let_def split: handler_event.split)
qed

lemma slots_restart_begin:
  assumes "slots_ok n v" "v_gens v \<noteq> []"
  shows "slots_ok n (fst (Restart_begin v))"
proof -
  let ?v = "v\<lparr>v_restarting := True\<rparr>" and ?i = "length (v_gens v) - 1"
  have "slots_ok n ?v" using assms(1) by (simp add: slots_ok_def in_service_def)
  moreover have "?i < length (v_gens ?v)" using assms(2) by simp
  ultimately have "slots_ok n (upd_gen ?i (\<lambda>g. g\<lparr>g_done := True\<rparr>) ?v)"
    using slots_waiting [OF assms(1), of ?i] by (intro slots_ok_upd) (simp_all add: gen_held_def)
  then show ?thesis using assms(1) by (simp add: Restart_begin_def)
qed

lemma slots_restart_finish: "slots_ok n v \<Longrightarrow> slots_ok n (Restart_finish parent_done v)"
  by (auto simp: Restart_finish_def slots_ok_def in_service_def new_gen_def gen_held_def)

text \<open>Accepting takes a slot exactly for what is queued.\<close>

lemma slots_local:
  assumes "slots_ok n v" "i < length (v_gens v)" "g_phase (v_gens v ! i) = Serving"
  shows "slots_ok n (fst (acceptLocalConn cfg i c remote now v))" "slots_ok n (fst (udpAdmitter cfg i c target now v))"
proof -
  have good: "rev_good n (v_limits v)" and held: "rev_held (v_limits v) = in_service v" using assms(1) by (simp_all add: slots_ok_def)
  obtain lim got where a: "lim_acquire (v_limits v) = (lim, got)" by fastforce
  have l: "rev_good n lim" "rev_held lim = in_service v + (if got then 1 else 0)"
    using rlim.take_good [OF good] rlim.take_held [OF good] a held by auto
  let ?v = "v\<lparr>v_limits := lim\<rparr>"
  have i: "i < length (v_gens ?v)" using assms(2) by simp
  have w: "list_all (\<lambda>g. g_phase g = Waiting \<longrightarrow> g_workers g = []) (v_gens v)" using assms(1) by (simp add: slots_ok_def)
  have q: "slots_ok n (upd_gen i (\<lambda>g. g\<lparr>g_local := g_local g @ [x], g_req := y g\<rparr>) ?v)" if got for x y
    using in_service_upd [OF i, of "\<lambda>g. g\<lparr>g_local := g_local g @ [x], g_req := y g\<rparr>"] l w that assms(2,3)
    by (auto simp: slots_ok_def list_all_length upd_gen_def nth_list_update gen_held_def in_service_def)
  have r: "slots_ok n (?v\<lparr>v_limits := lim_release lim\<rparr>)" if got
    using rlim.give_good [OF l(1)] l(2) w that by (simp add: slots_ok_def in_service_def)
  have u: "slots_ok n ?v" if "\<not> got" using l w that by (simp add: slots_ok_def in_service_def)
  show "slots_ok n (fst (acceptLocalConn cfg i c remote now v))" using q r u a by (auto simp: acceptLocalConn_def Let_def)
  show "slots_ok n (fst (udpAdmitter cfg i c target now v))" using q r u a by (auto simp: udpAdmitter_def Let_def)
qed

text \<open>A user between the queue and the hands of a worker, or between two of its turns.\<close>

lemma slots_loop_head:
  assumes "rev_good n (v_limits v)" "i < length (v_gens v)"
    "rev_held (v_limits v) + length (in_hand (g_workers (v_gens v ! i) ! k)) = in_service v + 1"
    "list_all (\<lambda>g. g_phase g = Waiting \<longrightarrow> g_workers g = []) (v_gens v)"
    "k < length (g_workers (v_gens v ! i))"
  shows "slots_ok n (fst (loop_head i k l now v))"
proof -
  have w: "list_all (\<lambda>g. g_phase g = Waiting \<longrightarrow> g_workers g = []) (v_gens (upd_gen i (set_worker k x) v))" for x
    using assms(2,4) by (auto simp: list_all_length upd_gen_def nth_list_update set_worker_def)
  have h: "in_service (upd_gen i (set_worker k x) v) + length (in_hand (g_workers (v_gens v ! i) ! k)) = in_service v + length (in_hand x)" for x
    using in_service_upd [OF assms(2), of "set_worker k x"] set_worker_held [OF assms(5), of x] by simp
  have c: "upd_gen i f (v\<lparr>v_limits := y\<rparr>) = (upd_gen i f v)\<lparr>v_limits := y\<rparr>" for f y by (simp add: upd_gen_def)
  have s: "in_service (u\<lparr>v_limits := y\<rparr>) = in_service u" for u y by (simp add: in_service_def)
  have "rev_held (v_limits v) = in_service (upd_gen i (set_worker k (Holding l)) v)"
    "rev_held (v_limits v) = in_service (upd_gen i (set_worker k Idle) v) + 1"
    using h [of "Holding l"] h [of Idle] assms(3) by simp_all
  moreover from this(2) have "rev_good n (lim_release (v_limits v))"
    "rev_held (lim_release (v_limits v)) = in_service (upd_gen i (set_worker k Idle) v)"
    using rlim.give_good [OF assms(1)] by simp_all
  ultimately show ?thesis using assms(1) w by (simp add: loop_head_def slots_ok_def c s)
qed

lemma slots_hand_over:
  assumes "slots_ok n v" "i < length (v_gens v)" "k < length (g_workers (v_gens v ! i))" "g_workers (v_gens v ! i) ! k = Holding l"
  shows "slots_ok n (upd_gen i (set_worker k Idle) (v\<lparr>v_transfers := v_transfers v @ [x]\<rparr>))"
proof -
  let ?v = "v\<lparr>v_transfers := v_transfers v @ [x]\<rparr>"
  have i: "i < length (v_gens ?v)" using assms(2) by simp
  have "in_service (upd_gen i (set_worker k Idle) ?v) = in_service v"
    using in_service_upd [OF i, of "set_worker k Idle"] set_worker_held [OF assms(3), of Idle] assms(4) by (simp add: in_service_def)
  moreover have "list_all (\<lambda>g. g_phase g = Waiting \<longrightarrow> g_workers g = []) (v_gens (upd_gen i (set_worker k Idle) ?v))"
    using assms(1,2) by (auto simp: slots_ok_def list_all_length upd_gen_def nth_list_update set_worker_def)
  ultimately show ?thesis using assms(1) by (simp add: slots_ok_def)
qed

lemma slots_loop:
  assumes ok: "slots_ok n v" and i: "i < length (v_gens v)" and k: "k < length (g_workers (v_gens v ! i))"
  shows "slots_ok n (fst (handleLoop i k ev now v))"
proof -
  let ?g = "v_gens v ! i"
  have lim: "rev_good n (v_limits v)" "rev_held (v_limits v) = in_service v"
    and w: "list_all (\<lambda>g. g_phase g = Waiting \<longrightarrow> g_workers g = []) (v_gens v)" using ok by (simp_all add: slots_ok_def)
  show ?thesis
  proof (cases ev)
    case L_take
    show ?thesis
    proof (cases "g_workers ?g ! k = Idle \<and> g_local ?g \<noteq> []")
      case True
      then obtain l ls where l: "g_local ?g = l # ls" by (cases "g_local ?g") auto
      let ?v = "upd_gen i (\<lambda>g. g\<lparr>g_local := ls\<rparr>) v"
      have "rev_held (v_limits ?v) + length (in_hand (g_workers (v_gens ?v ! i) ! k)) = in_service ?v + 1"
        using lim in_service_upd [OF i, of "\<lambda>g. g\<lparr>g_local := ls\<rparr>"] l i True by (simp add: gen_held_def)
      moreover have "list_all (\<lambda>g. g_phase g = Waiting \<longrightarrow> g_workers g = []) (v_gens ?v)"
        using w i by (auto simp: list_all_length upd_gen_def nth_list_update)
      ultimately have "slots_ok n (fst (loop_head i k l now ?v))"
        using lim i k True by (intro slots_loop_head) simp_all
      then show ?thesis using L_take True l by (simp add: handleLoop_def Let_def)
    next
      case False
      then show ?thesis using ok L_take by (auto simp: handleLoop_def Let_def split: worker.split list.split)
    qed
  next
    case (L_pair wrote)
    show ?thesis
    proof (cases "\<exists>l t ts. g_workers ?g ! k = Holding l \<and> g_tunnel ?g = t # ts")
      case True
      then obtain l t ts where l: "g_workers ?g ! k = Holding l" "g_tunnel ?g = t # ts" by blast
      let ?v = "upd_gen i (\<lambda>g. g\<lparr>g_tunnel := ts\<rparr>) v"
      have v: "slots_ok n ?v" using slots_ok_upd [OF ok i, of "\<lambda>g. g\<lparr>g_tunnel := ts\<rparr>"] slots_waiting [OF ok i] by (simp add: gen_held_def)
      have w': "g_workers (v_gens ?v ! i) = g_workers ?g" using i by simp
      have "slots_ok n (fst (loop_head i k l now ?v))"
        using v i k l w' by (intro slots_loop_head) (simp_all add: slots_ok_def)
      moreover have "slots_ok n (upd_gen i (set_worker k Idle) (?v\<lparr>v_transfers := v_transfers ?v @ [(i, l, t)]\<rparr>))"
        using slots_hand_over [OF v _ _, of i k l] l w' i k by simp
      ultimately show ?thesis using L_pair l by (auto simp: handleLoop_def Let_def split: prod.split)
    next
      case False
      then show ?thesis using ok L_pair by (auto simp: handleLoop_def Let_def split: worker.split list.split)
    qed
  next
    case L_exit
    have "slots_ok n (upd_gen i (set_worker k x) v)" if "in_hand x = in_hand (g_workers ?g ! k)" for x
      using set_worker_held [OF k, of x] slots_waiting [OF ok i] that
      by (intro slots_ok_upd [OF ok i]) (auto simp: set_worker_def)
    then show ?thesis using L_exit ok by (auto simp: handleLoop_def Let_def split: worker.split)
  qed
qed

lemma slots_transfer_end:
  assumes "slots_ok n v" "k < length (v_transfers v)"
  shows "slots_ok n (transfer_end k v)"
proof -
  have "rev_good n (v_limits v)" "rev_held (v_limits v) = in_service v" "0 < in_service v"
    using assms by (auto simp: slots_ok_def in_service_def)
  then have "rev_good n (lim_release (v_limits v)) \<and> rev_held (lim_release (v_limits v)) = in_service v - 1"
    using rlim.give_good by metis
  then show ?thesis using assms by (auto simp: transfer_end_def slots_ok_def in_service_def)
qed

text \<open>Goroutines refer to generations that exist.\<close>

definition refs_ok :: "server \<Rightarrow> bool" where
  "refs_ok v \<longleftrightarrow> v_gens v \<noteq> [] \<and> (\<forall>(i, c) \<in> set (v_reading v). i < length (v_gens v)) \<and>
     (\<forall>(i, c) \<in> set (v_claims v). i < length (v_gens v))"

lemma set_remove_at: "set (remove_at k xs) \<subseteq> set xs"
  by (auto simp: remove_at_def dest: in_set_takeD in_set_dropD)

lemma gens_deliver [simp]: "length (v_gens (fst (deliverTunnelConn cfg i c v))) = length (v_gens v)"
  "v_reading (fst (deliverTunnelConn cfg i c v)) = v_reading v" "v_claims (fst (deliverTunnelConn cfg i c v)) = v_claims v"
  by (simp_all add: deliverTunnelConn_def)

lemma gens_loop [simp]:
  "length (v_gens (fst (handleLoop i k ev now v))) = length (v_gens v)"
  "v_reading (fst (handleLoop i k ev now v)) = v_reading v" "v_claims (fst (handleLoop i k ev now v)) = v_claims v"
  by (simp_all add: handleLoop_def loop_head_def Let_def split: loop_event.split worker.split list.split prod.split)

lemma gens_handler [simp]:
  "length (v_gens (fst (channelHandler i ev wrote v))) = length (v_gens v)"
  "v_reading (fst (channelHandler i ev wrote v)) = v_reading v" "v_claims (fst (channelHandler i ev wrote v)) = v_claims v"
  by (simp_all add: channelHandler_def handler_sends_def handler_end_def Let_def split: handler_event.split prod.split)

lemma gens_handshake [simp]:
  "length (v_gens (channelHandshake cfg i cancelled v)) = length (v_gens v)"
  "v_reading (channelHandshake cfg i cancelled v) = v_reading v" "v_claims (channelHandshake cfg i cancelled v) = v_claims v"
  by (simp_all add: channelHandshake_def start_rest_def Let_def split: option.split)

lemma gens_local [simp]:
  "length (v_gens (fst (acceptLocalConn cfg i c r now v))) = length (v_gens v)"
  "v_reading (fst (acceptLocalConn cfg i c r now v)) = v_reading v" "v_claims (fst (acceptLocalConn cfg i c r now v)) = v_claims v"
  "length (v_gens (fst (udpAdmitter cfg i c r now v))) = length (v_gens v)"
  "v_reading (fst (udpAdmitter cfg i c r now v)) = v_reading v" "v_claims (fst (udpAdmitter cfg i c r now v)) = v_claims v"
  by (simp_all add: acceptLocalConn_def udpAdmitter_def Let_def split: prod.split)

lemma refs_announced:
  "refs_ok v \<Longrightarrow> i < length (v_gens v) \<Longrightarrow> refs_ok (fst (admit_announced cfg i c ann fresh wrote v))"
  by (auto simp: refs_ok_def admit_announced_def admitControlChannel_def deliverTunnelConn_def upd_gen_def split: option.split)

lemma refs_open: "refs_ok v \<Longrightarrow> i < length (v_gens v) \<Longrightarrow> refs_ok (fst (admit_open cfg addr ok i c v))"
  by (auto simp: refs_ok_def admit_open_def deliverTunnelConn_def upd_gen_def split: option.split)

lemma refs_cong:
  "refs_ok v \<Longrightarrow> length (v_gens v') \<ge> length (v_gens v) \<Longrightarrow> set (v_reading v') \<subseteq> set (v_reading v) \<Longrightarrow>
   set (v_claims v') \<subseteq> set (v_claims v) \<Longrightarrow> refs_ok v'"
  unfolding refs_ok_def by fastforce

lemma refs_step:
  assumes "refs_ok v"
  shows "refs_ok (fst (step cfg addr e v))"
proof (cases e)
  case (Ev_announced k ann fresh wrote)
  show ?thesis
  proof (cases "k < length (v_reading v)")
    case True
    obtain i c where ic: "v_reading v ! k = (i, c)" by fastforce
    have "i < length (v_gens v)" using assms True nth_mem [OF True] ic by (auto simp: refs_ok_def)
    moreover have "refs_ok (v\<lparr>v_reading := remove_at k (v_reading v)\<rparr>)"
      using set_remove_at [of k "v_reading v"] by (intro refs_cong [OF assms]) simp_all
    ultimately show ?thesis using True ic refs_announced Ev_announced by simp
  qed (use assms Ev_announced in simp)
next
  case (Ev_offer k)
  show ?thesis using Ev_offer set_remove_at [of k "v_claims v"]
    by (auto simp: offer_candidate_def assms split: prod.split intro!: refs_cong [OF assms])
next
  case Ev_restart_begin
  then show ?thesis by (auto simp: Restart_begin_def intro!: refs_cong [OF assms])
next
  case (Ev_restart_finish x)
  then show ?thesis by (auto simp: Restart_finish_def intro!: refs_cong [OF assms])
next
  case (Ev_transfer_end k)
  then show ?thesis by (auto simp: transfer_end_def intro!: refs_cong [OF assms])
next
  case (Ev_handler i ev wrote)
  have "refs_ok (fst (channelHandler i ev wrote v))" by (rule refs_cong [OF assms]) simp_all
  then show ?thesis using assms Ev_handler by (auto split: prod.split)
qed (use assms in \<open>auto simp: refs_open intro!: refs_cong [OF assms]\<close>)

lemma slots_step:
  assumes "slots_ok n v" "refs_ok v"
  shows "slots_ok n (fst (step cfg addr e v))"
proof (cases e)
  case (Ev_announced k ann fresh wrote)
  show ?thesis
  proof (cases "k < length (v_reading v)")
    case True
    obtain i c where ic: "v_reading v ! k = (i, c)" by fastforce
    have "i < length (v_gens v)" using assms(2) nth_mem [OF True] ic by (auto simp: refs_ok_def)
    moreover have "slots_ok n (v\<lparr>v_reading := remove_at k (v_reading v)\<rparr>)"
      using assms(1) by (simp add: slots_ok_def in_service_def)
    ultimately show ?thesis using True ic slots_announced Ev_announced by simp
  qed (use assms Ev_announced in simp)
next
  case (Ev_offer k)
  show ?thesis
  proof (cases "k < length (v_claims v)")
    case True
    obtain i c where ic: "v_claims v ! k = (i, c)" by fastforce
    have "i < length (v_gens v)" using assms(2) nth_mem [OF True] ic by (auto simp: refs_ok_def)
    moreover have "slots_ok n (v\<lparr>v_claims := remove_at k (v_claims v)\<rparr>)"
      using assms(1) by (simp add: slots_ok_def in_service_def)
    ultimately show ?thesis using True ic slots_offer Ev_offer by simp
  qed (use assms Ev_offer in simp)
next
  case (Ev_handler i ev wrote)
  then show ?thesis using assms slots_handler [OF assms(1), of i ev wrote] by (auto split: prod.split)
next
  case Ev_restart_begin
  then show ?thesis using assms slots_restart_begin by (simp add: refs_ok_def)
qed (use assms in \<open>auto simp: slots_open slots_handshake slots_restart_finish slots_local slots_loop slots_transfer_end\<close>)

lemma run_simps [simp]: "run cfg addr [] v = v" "run cfg addr (e # es) v = run cfg addr es (fst (step cfg addr e v))"
  by (simp_all add: run_def)

lemma run_append: "run cfg addr (a @ b) v = run cfg addr b (run cfg addr a v)"
  by (simp add: run_def)

lemma run_ok: "slots_ok n v \<Longrightarrow> refs_ok v \<Longrightarrow> slots_ok n (run cfg addr evs v) \<and> refs_ok (run cfg addr evs v)"
  by (induction evs arbitrary: v) (simp_all add: slots_step refs_step)

lemma new_server_ok:
  assumes "0 < n" "n < 2 ^ 31 - 1"
  shows "slots_ok n (NewTCPServer (int n) bw)" "refs_ok (NewTCPServer (int n) bw)"
proof -
  have "sint (word_of_int (int n) :: 32 word) = int n" using assms
    unfolding sint_sbintrunc' by (intro signed_take_bit_int_eq_self) simp_all
  then show "slots_ok n (NewTCPServer (int n) bw)"
    using assms by (simp add: slots_ok_def NewTCPServer_def newLimiter_def rev_good_def rev_held_def in_service_def new_gen_def gen_held_def)
  show "refs_ok (NewTCPServer (int n) bw)" by (simp add: refs_ok_def NewTCPServer_def)
qed

end
