(* ===== verification/ReverseSafety.thy ===== *)
theory ReverseSafety
  imports ReverseServer
begin

text \<open>
  What the reverse server promises over every interleaving of its goroutines: each slot of the connection cap stands
  for one user that is being served (and what a restart does to that), and who gets to be the control channel or a
  member of the pool.
\<close>

section \<open>What a restart loses\<close>

definition exited :: "worker \<Rightarrow> bool" where
  "exited w = (case w of Exited _ \<Rightarrow> True | _ \<Rightarrow> False)"

definition gen_dead :: "tcpGen \<Rightarrow> bool" where
  "gen_dead g \<longleftrightarrow> g_phase g \<noteq> Waiting \<and> list_all exited (g_workers g)"

definition outlives :: "nat \<Rightarrow> server \<Rightarrow> server \<Rightarrow> bool" where
  "outlives i v v' \<longleftrightarrow> i < length (v_gens v') \<and> gen_dead (v_gens v' ! i) \<and> gen_held (v_gens v ! i) \<le> gen_held (v_gens v' ! i)"

lemma outlives_upd:
  assumes "i < length (v_gens v)" "gen_dead (v_gens v ! i)" "j < length (v_gens v)"
    "j = i \<Longrightarrow> gen_dead (f (v_gens v ! i)) \<and> gen_held (v_gens v ! i) \<le> gen_held (f (v_gens v ! i))"
  shows "outlives i v (upd_gen j f v)"
  using assms by (auto simp: outlives_def)

lemma outlives_cong:
  "outlives i v v' \<Longrightarrow> v_gens v'' = v_gens v' \<Longrightarrow> outlives i v v''" "v_gens u = v_gens v \<Longrightarrow> outlives i u v' \<Longrightarrow> outlives i v v'"
  by (simp_all add: outlives_def)

lemma outlives_refl: "i < length (v_gens v) \<Longrightarrow> gen_dead (v_gens v ! i) \<Longrightarrow> v_gens v' = v_gens v \<Longrightarrow> outlives i v v'"
  by (simp add: outlives_def)

lemma outlives_trans: "outlives i v v' \<Longrightarrow> outlives i v' v'' \<Longrightarrow> outlives i v v''"
  by (auto simp: outlives_def)

text \<open>The generations before and after a step: same, one changed, or one more.\<close>

lemma dead_deliver:
  assumes "i < length (v_gens v)" "gen_dead (v_gens v ! i)" "j < length (v_gens v)"
  shows "outlives i v (fst (deliverTunnelConn cfg j c v))"
  using assms by (auto simp: deliverTunnelConn_def outlives_refl gen_dead_def gen_held_def intro!: outlives_upd)

lemma dead_loop:
  assumes "i < length (v_gens v)" "gen_dead (v_gens v ! i)" "j < length (v_gens v)" "k < length (g_workers (v_gens v ! j))"
  shows "outlives i v (fst (handleLoop j k ev now v))"
proof (cases "j = i")
  case True
  then have "exited (g_workers (v_gens v ! j) ! k)" using assms(2,4) by (simp add: gen_dead_def list_all_length)
  then have "fst (handleLoop j k ev now v) = v"
    by (auto simp: handleLoop_def exited_def Let_def split: loop_event.split worker.splits)
  then show ?thesis using outlives_refl [OF assms(1,2)] by simp
next
  case False
  then have "v_gens (fst (handleLoop j k ev now v)) ! i = v_gens v ! i"
    using assms(3) by (simp add: handleLoop_def loop_head_def Let_def upd_gen_def split: loop_event.split worker.split list.split prod.split)
  then show ?thesis using assms by (simp add: outlives_def)
qed

lemma dead_handshake:
  assumes "i < length (v_gens v)" "gen_dead (v_gens v ! i)" "j < length (v_gens v)"
  shows "outlives i v (channelHandshake cfg j cancelled v)"
proof (cases "j = i")
  case True
  then show ?thesis using assms outlives_refl [OF assms(1,2)] by (simp add: channelHandshake_def Let_def gen_dead_def)
next
  case False
  then have "v_gens (channelHandshake cfg j cancelled v) ! i = v_gens v ! i"
    using assms(3) by (simp add: channelHandshake_def start_rest_def Let_def upd_gen_def split: option.split)
  then show ?thesis using assms by (simp add: outlives_def)
qed

lemma dead_handler:
  assumes "i < length (v_gens v)" "gen_dead (v_gens v ! i)" "j < length (v_gens v)"
  shows "outlives i v (fst (channelHandler j ev wrote v))"
proof -
  have e: "outlives i u (handler_end j u)" if "i < length (v_gens u)" "gen_dead (v_gens u ! i)" "j < length (v_gens u)" for u
    unfolding handler_end_def using that by (intro outlives_upd) (auto simp: gen_dead_def gen_held_def)
  have s: "outlives i u (fst (handler_sends j b wrote u))" if "i < length (v_gens u)" "gen_dead (v_gens u ! i)" "j < length (v_gens u)" for u b
    using that e outlives_refl by (auto simp: handler_sends_def split: prod.split)
  let ?u = "upd_gen j (\<lambda>g. g\<lparr>g_req := g_req g - 1\<rparr>) v"
  have r: "outlives i v ?u" using assms by (intro outlives_upd) (auto simp: gen_dead_def gen_held_def)
  then have "outlives i v (fst (handler_sends j SG_Chan wrote ?u))"
    using s [of ?u SG_Chan] assms outlives_trans by (auto simp: outlives_def)
  then show ?thesis using assms e s [OF assms] outlives_refl
    by (auto simp: channelHandler_def Let_def split: handler_event.split)
qed

lemma dead_local:
  assumes "i < length (v_gens v)" "gen_dead (v_gens v ! i)" "j < length (v_gens v)"
  shows "outlives i v (fst (acceptLocalConn cfg j c r now v))" "outlives i v (fst (udpAdmitter cfg j c r now v))"
proof -
  have q: "outlives i v (upd_gen j (\<lambda>g. g\<lparr>g_local := g_local g @ [x], g_req := y g\<rparr>) (v\<lparr>v_limits := l\<rparr>))" for x y l
    by (rule outlives_cong(2) [of "v\<lparr>v_limits := l\<rparr>"])
      (use assms in \<open>auto simp: gen_dead_def gen_held_def intro!: outlives_upd\<close>)
  show "outlives i v (fst (acceptLocalConn cfg j c r now v))" "outlives i v (fst (udpAdmitter cfg j c r now v))"
    using q outlives_refl [OF assms(1,2)] by (auto simp: acceptLocalConn_def udpAdmitter_def Let_def split: prod.split)
qed

lemma dead_announced:
  assumes "i < length (v_gens v)" "gen_dead (v_gens v ! i)" "j < length (v_gens v)"
  shows "outlives i v (fst (admit_announced cfg j c ann fresh wrote v))"
  using assms dead_deliver [OF assms] outlives_refl [OF assms(1,2)]
  by (auto simp: admit_announced_def admitControlChannel_def split: option.split)

lemma dead_step:
  assumes "refs_ok v" "i < length (v_gens v)" "gen_dead (v_gens v ! i)"
  shows "outlives i v (fst (step cfg addr e v))"
proof (cases e)
  case (Ev_open j c ok)
  then show ?thesis using assms dead_deliver [OF assms(2,3), of j] outlives_refl [OF assms(2,3)]
    by (auto simp: admit_open_def split: option.split)
next
  case (Ev_announced k ann fresh wrote)
  let ?v = "v\<lparr>v_reading := remove_at k (v_reading v)\<rparr>"
  have "outlives i ?v (fst (admit_announced cfg j c ann fresh wrote ?v))" if "(j, c) \<in> set (v_reading v)" for j c
    using assms that by (intro dead_announced) (auto simp: refs_ok_def)
  then have "outlives i v (fst (admit_announced cfg j c ann fresh wrote ?v))" if "(j, c) \<in> set (v_reading v)" for j c
    using that outlives_cong(2) [of ?v v] by simp
  then show ?thesis using Ev_announced outlives_refl [OF assms(2,3)] by (auto split: prod.split) (metis nth_mem)
next
  case (Ev_offer k)
  let ?v = "v\<lparr>v_claims := remove_at k (v_claims v)\<rparr>"
  have "outlives i ?v (fst (offer_candidate j c ?v))" if "(j, c) \<in> set (v_claims v)" for j c
    using assms that outlives_refl [of i ?v]
    by (auto simp: offer_candidate_def refs_ok_def gen_dead_def gen_held_def intro!: outlives_upd)
  then have "outlives i v (fst (offer_candidate j c ?v))" if "(j, c) \<in> set (v_claims v)" for j c
    using that outlives_cong(2) [of ?v v] by simp
  then show ?thesis using Ev_offer outlives_refl [OF assms(2,3)] by (auto split: prod.split) (metis nth_mem)
next
  case (Ev_handler j ev wrote)
  then show ?thesis using dead_handler [OF assms(2,3), of j ev wrote] outlives_refl [OF assms(2,3)] by (auto split: prod.split)
next
  case Ev_restart_begin
  have "outlives i (v\<lparr>v_restarting := True\<rparr>) (upd_gen (length (v_gens v) - 1) (\<lambda>g. g\<lparr>g_done := True\<rparr>) (v\<lparr>v_restarting := True\<rparr>))"
    using assms by (intro outlives_upd) (auto simp: gen_dead_def gen_held_def refs_ok_def)
  then show ?thesis using Ev_restart_begin outlives_refl [OF assms(2,3)] outlives_cong(2) [of "v\<lparr>v_restarting := True\<rparr>" v]
    by (simp add: Restart_begin_def)
next
  case (Ev_restart_finish x)
  then show ?thesis using assms by (simp add: Restart_finish_def outlives_def nth_append)
qed (use assms in \<open>auto simp: dead_handshake dead_local dead_loop outlives_refl transfer_end_def\<close>)

lemma dead_run:
  assumes "refs_ok v" "i < length (v_gens v)" "gen_dead (v_gens v ! i)"
  shows "outlives i v (run cfg addr evs v)"
  using assms
proof (induction evs arbitrary: v)
  case (Cons e evs)
  have o: "outlives i v (fst (step cfg addr e v))" using dead_step [OF Cons.prems] .
  then have "outlives i (fst (step cfg addr e v)) (run cfg addr evs (fst (step cfg addr e v)))"
    using Cons.IH refs_step [OF Cons.prems(1)] by (simp add: outlives_def)
  then show ?case using outlives_trans [OF o] by simp
qed (simp add: outlives_refl)

lemma held_in_service: "slots_ok n v \<Longrightarrow> i < length (v_gens v) \<Longrightarrow> gen_held (v_gens v ! i) \<le> rev_held (v_limits v)"
  using member_le_sum_list [of "gen_held (v_gens v ! i)" "map gen_held (v_gens v)"]
  by (simp add: slots_ok_def in_service_def trans_le_add1)

text \<open>Every slot of the connection cap stands for one user: whatever connections, restarts and failures a server goes
  through, in any interleaving, the slots taken are the users that wait in a queue, are in the hands of a worker or
  are being served, and never more than the cap.\<close>

theorem reverse_slots_accounted:
  assumes "0 < n" "n < 2 ^ 31 - 1"
  shows "rev_held (v_limits (run cfg addr evs (NewTCPServer (int n) bw))) = in_service (run cfg addr evs (NewTCPServer (int n) bw)) \<and>
    in_service (run cfg addr evs (NewTCPServer (int n) bw)) \<le> n"
proof -
  have ok: "slots_ok n (run cfg addr evs (NewTCPServer (int n) bw))" using run_ok new_server_ok [OF assms] by blast
  then have "rev_held (v_limits (run cfg addr evs (NewTCPServer (int n) bw))) \<le> n" by (auto simp: slots_ok_def rev_good_def rev_held_def)
  then show ?thesis using ok by (simp add: slots_ok_def)
qed

theorem reverse_slots_accounted_witness:
  "in_service (run \<lparr>cfg_token = ''t'', cfg_channelSize = 8, cfg_stealth = False, cfg_numCPU = 1\<rparr> (\<lambda>_. None)
     [Ev_restart_begin, Ev_restart_finish False] (NewTCPServer (int 5) 0)) \<le> 5"
  by (rule conjunct2 [OF reverse_slots_accounted]) simp_all

text \<open>C34. A restart does not give back the slots of the users it left behind: once the workers of a generation have
  ended, the slots of the users still in its queue, or in the hands of a worker as it ended, are taken for as long as the
  process runs, whatever happens afterwards. A server that restarted while as many users waited as its cap allows
  refuses every user from then on.\<close>

theorem restart_leaks_slots:
  assumes "0 < n" "n < 2 ^ 31 - 1" "v = run cfg addr evs (NewTCPServer (int n) bw)" "i < length (v_gens v)" "gen_dead (v_gens v ! i)"
    "v' = run cfg addr evs' v"
  shows "gen_held (v_gens v ! i) \<le> rev_held (v_limits v') \<and> (gen_held (v_gens v ! i) = n \<longrightarrow> \<not> snd (lim_acquire (v_limits v')))"
proof -
  have v: "slots_ok n v" "refs_ok v" unfolding assms(3) using run_ok new_server_ok [OF assms(1,2)] by blast+
  have v': "slots_ok n v'" unfolding assms(6) using run_ok [OF v] by blast
  have "outlives i v v'" unfolding assms(6) by (rule dead_run [OF v(2) assms(4,5)])
  then have h: "gen_held (v_gens v ! i) \<le> rev_held (v_limits v')"
    using held_in_service [OF v', of i] by (auto simp: outlives_def)
  moreover have "rev_good n (v_limits v')" using v' by (simp add: slots_ok_def)
  ultimately show ?thesis using rlim.take_iff [of n "v_limits v'"] by auto
qed

text \<open>An instance: one user waits, the cap is one, the server restarts.\<close>

definition leak_config :: tcpConfig where
  "leak_config = \<lparr>cfg_token = ''t'', cfg_channelSize = 8, cfg_stealth = False, cfg_numCPU = 1\<rparr>"

definition leak_events :: "event list" where
  "leak_events = [Ev_open 0 0 True, Ev_announced 0 (Some (''t'', SG_Chan)) None True, Ev_offer 0, Ev_handshake 0 False,
     Ev_local 0 9 ''80'' 0, Ev_restart_begin, Ev_loop 0 0 L_exit 0, Ev_restart_finish False]"

definition leak_state :: server where
  "leak_state = run leak_config (\<lambda>_. None) leak_events (NewTCPServer (int 1) 0)"

lemma leak_state_gen:
  "0 < length (v_gens leak_state) \<and> gen_dead (v_gens leak_state ! 0) \<and> gen_held (v_gens leak_state ! 0) = 1 \<and> v_transfers leak_state = []"
  by (simp add: leak_state_def leak_events_def leak_config_def NewTCPServer_def newLimiter_def new_gen_def admit_open_def
      admit_announced_def isControlSignal_def admitControlChannel_def tokenMatches_def controlAck_def signal_defs remove_at_def
      offer_candidate_def channelHandshake_def start_rest_def acceptLocalConn_def lim_acquire_def Restart_begin_def handleLoop_def
      Restart_finish_def upd_gen_def set_worker_def gen_dead_def exited_def gen_held_def Let_def)

theorem restart_leaks_slots_witness:
  "v_transfers leak_state = [] \<and> \<not> snd (lim_acquire (v_limits leak_state))"
  using restart_leaks_slots [OF _ _ leak_state_def _ _ refl, where i = 0 and evs' = "[]"] leak_state_gen by simp

section \<open>Who is let in\<close>

text \<open>
  Two things an event can do in a state: announce the configured token on a connection, which is then told a nonce (the
  empty one in the legacy form), and let a connection into the pool, because it names the current nonce or, after a
  legacy handshake, because it comes from the host of the control channel.
\<close>

definition proves_token :: "tcpConfig \<Rightarrow> server \<Rightarrow> event \<Rightarrow> nat \<Rightarrow> string \<Rightarrow> bool" where
  "proves_token cfg v e c nonce \<longleftrightarrow>
     (\<exists>k fresh sig. e = Ev_announced k (Some (cfg_token cfg, sig)) fresh True \<and> k < length (v_reading v) \<and> snd (v_reading v ! k) = c \<and>
        (sig = SG_Chan \<and> nonce = [] \<or> sig = SG_ChanV2 \<and> fresh = Some nonce))"

definition lets_in :: "(nat \<Rightarrow> string option) \<Rightarrow> server \<Rightarrow> event \<Rightarrow> nat \<Rightarrow> bool" where
  "lets_in addr v e c \<longleftrightarrow>
     (\<exists>k fresh wrote. e = Ev_announced k (Some (v_nonce v, SG_Pool)) fresh wrote \<and> k < length (v_reading v) \<and>
        snd (v_reading v ! k) = c \<and> v_nonce v \<noteq> []) \<or>
     (\<exists>i ok p. e = Ev_open i c ok \<and> v_control v = Some p \<and> v_nonce v = [] \<and> (addr p = None \<or> sameHost (addr p) (addr c)))"

text \<open>The authority of a state, relative to what happened before it.\<close>

definition auth_ok :: "(nat \<Rightarrow> string \<Rightarrow> bool) \<Rightarrow> (nat \<Rightarrow> bool) \<Rightarrow> server \<Rightarrow> bool" where
  "auth_ok H J v \<longleftrightarrow>
     (\<forall>(i, cand) \<in> set (v_claims v). H (cc_conn cand) (cc_nonce cand)) \<and>
     (\<forall>g \<in> set (v_gens v). \<forall>cand. g_handshake g = Some cand \<longrightarrow> H (cc_conn cand) (cc_nonce cand)) \<and>
     (\<forall>c. v_control v = Some c \<longrightarrow> H c (v_nonce v)) \<and> (v_control v = None \<longrightarrow> v_nonce v = []) \<and>
     (\<forall>g \<in> set (v_gens v). \<forall>c \<in> set (g_tunnel g). J c) \<and> (\<forall>(i, l, c) \<in> set (v_transfers v). J c)"

lemma auth_mono: "auth_ok H J v \<Longrightarrow> (\<And>c n. H c n \<Longrightarrow> H' c n) \<Longrightarrow> (\<And>c. J c \<Longrightarrow> J' c) \<Longrightarrow> auth_ok H' J' v"
  unfolding auth_ok_def case_prod_beta by meson

lemma auth_gen:
  "auth_ok H J v \<Longrightarrow> i < length (v_gens v) \<Longrightarrow> (\<forall>cand. g_handshake (v_gens v ! i) = Some cand \<longrightarrow> H (cc_conn cand) (cc_nonce cand)) \<and>
    (\<forall>c \<in> set (g_tunnel (v_gens v ! i)). J c)"
  unfolding auth_ok_def by (meson nth_mem)

lemma auth_upd:
  assumes "auth_ok H J v" "i < length (v_gens v)"
    "\<And>cand. g_handshake (f (v_gens v ! i)) = Some cand \<Longrightarrow> H (cc_conn cand) (cc_nonce cand)"
    "\<And>c. c \<in> set (g_tunnel (f (v_gens v ! i))) \<Longrightarrow> J c"
  shows "auth_ok H J (upd_gen i f v)"
  using assms unfolding auth_ok_def upd_gen_def by (auto dest!: set_update_subset_insert [THEN subsetD])

lemma auth_keep:
  assumes "auth_ok H J v" "i < length (v_gens v)" "g_handshake (f (v_gens v ! i)) = g_handshake (v_gens v ! i)"
    "set (g_tunnel (f (v_gens v ! i))) \<subseteq> set (g_tunnel (v_gens v ! i))"
  shows "auth_ok H J (upd_gen i f v)"
  using assms auth_gen [OF assms(1,2)] by (intro auth_upd) auto

lemma auth_deliver:
  assumes "auth_ok H J v" "i < length (v_gens v)" "J c"
  shows "auth_ok H J (fst (deliverTunnelConn cfg i c v))"
  using assms auth_gen [OF assms(1,2)] by (auto simp: deliverTunnelConn_def intro!: auth_upd)

lemma auth_announced:
  assumes "auth_ok H J v" "i < length (v_gens v)"
    "\<And>n. fst (the ann) = cfg_token cfg \<Longrightarrow> ann \<noteq> None \<Longrightarrow> wrote \<Longrightarrow>
       snd (the ann) = SG_Chan \<and> n = [] \<or> snd (the ann) = SG_ChanV2 \<and> fresh = Some n \<Longrightarrow> H c n"
    "ann = Some (v_nonce v, SG_Pool) \<Longrightarrow> v_nonce v \<noteq> [] \<Longrightarrow> J c"
  shows "auth_ok H J (fst (admit_announced cfg i c ann fresh wrote v))"
proof (cases ann)
  case None
  then show ?thesis using assms(1) by (simp add: admit_announced_def)
next
  case (Some a)
  obtain payload sig where p: "ann = Some (payload, sig)" using Some by (cases a) auto
  consider (ctl) "isControlSignal sig" | (pool) "\<not> isControlSignal sig" "sig = SG_Pool" | (other) "\<not> isControlSignal sig" "sig \<noteq> SG_Pool" by blast
  then show ?thesis
  proof cases
    case ctl
    have add: "auth_ok H J (v\<lparr>v_claims := v_claims v @ [(i, \<lparr>cc_conn = c, cc_nonce = n\<rparr>)]\<rparr>)" if "H c n" for n
      using assms(1) that by (simp add: auth_ok_def)
    have n: "H c (fst (snd x))" if "payload = cfg_token cfg" wrote "controlAck sig (cfg_token cfg) 0 fresh = Some x" for x
      using that ctl assms(3) [of "fst (snd x)"] p
      by (auto simp: controlAck_def isControlSignal_def split: if_splits option.splits)
    show ?thesis using p ctl assms(1) add n
      by (auto simp: admit_announced_def admitControlChannel_def tokenMatches_def split: option.split)
  next
    case pool
    then show ?thesis using assms(1,4) p auth_deliver [OF assms(1,2), of c cfg]
      by (auto simp: admit_announced_def nonce_Verify_def split: if_splits)
  next
    case other
    then show ?thesis using assms(1) p by (simp add: admit_announced_def)
  qed
qed

lemma auth_handshake:
  assumes "auth_ok H J v" "i < length (v_gens v)"
  shows "auth_ok H J (channelHandshake cfg i cancelled v)"
proof -
  have r: "auth_ok H J (start_rest cfg i u)" if "auth_ok H J u" "i < length (v_gens u)" for u
    using that by (auto simp: start_rest_def intro!: auth_keep)
  have "auth_ok H J (upd_gen i (\<lambda>g. g\<lparr>g_handshake := None\<rparr>) (v\<lparr>v_nonce := cc_nonce cand, v_control := Some (cc_conn cand)\<rparr>))"
    if "g_handshake (v_gens v ! i) = Some cand" for cand
  proof (rule auth_upd)
    show "auth_ok H J (v\<lparr>v_nonce := cc_nonce cand, v_control := Some (cc_conn cand)\<rparr>)"
      using assms auth_gen [OF assms] that by (simp add: auth_ok_def)
  qed (use assms auth_gen [OF assms] in auto)
  then show ?thesis using assms r by (auto simp: channelHandshake_def Let_def split: option.split)
qed

lemma auth_handler:
  assumes "auth_ok H J v" "i < length (v_gens v)"
  shows "auth_ok H J (fst (channelHandler i ev wrote v))"
proof -
  have e: "auth_ok H J (handler_end i u)" if "auth_ok H J u" "i < length (v_gens u)" for u
    using that by (auto simp: handler_end_def intro!: auth_keep)
  have s: "auth_ok H J (fst (handler_sends i b wrote u))" if "auth_ok H J u" "i < length (v_gens u)" for u b
    using that e by (auto simp: handler_sends_def split: prod.split)
  have "auth_ok H J (upd_gen i (\<lambda>g. g\<lparr>g_req := g_req g - 1\<rparr>) v)" using assms by (auto intro!: auth_keep)
  then show ?thesis using assms e s by (auto simp: channelHandler_def Let_def split: handler_event.split)
qed

lemma auth_limits: "auth_ok H J (v\<lparr>v_limits := l\<rparr>) \<longleftrightarrow> auth_ok H J v"
  by (simp add: auth_ok_def)

lemma auth_local:
  assumes "auth_ok H J v" "i < length (v_gens v)"
  shows "auth_ok H J (fst (acceptLocalConn cfg i c r now v))" "auth_ok H J (fst (udpAdmitter cfg i c r now v))"
  using assms by (auto simp: acceptLocalConn_def udpAdmitter_def Let_def auth_limits split: prod.split intro!: auth_keep)

lemma auth_loop:
  assumes "auth_ok H J v" "i < length (v_gens v)"
  shows "auth_ok H J (fst (handleLoop i k ev now v))"
proof -
  have w: "auth_ok H J (upd_gen i (set_worker k x) u)" if "auth_ok H J u" "i < length (v_gens u)" for x u
    using that by (intro auth_keep) (simp_all add: set_worker_def)
  have h: "auth_ok H J (fst (loop_head i k l now u))" if "auth_ok H J u" "i < length (v_gens u)" for l u
    using that w by (simp add: loop_head_def auth_limits)
  have t: "auth_ok H J (upd_gen i (\<lambda>g. g\<lparr>g_local := ls\<rparr>) v)" for ls using assms by (intro auth_keep) simp_all
  have p: "auth_ok H J (upd_gen i (\<lambda>g. g\<lparr>g_tunnel := cs\<rparr>) v)" "J c" if "g_tunnel (v_gens v ! i) = c # cs" for c cs
    using assms auth_gen [OF assms] that by (auto intro!: auth_keep)
  have x: "auth_ok H J (u\<lparr>v_transfers := v_transfers u @ [(i, l, c)]\<rparr>)" if "auth_ok H J u" "J c" for u l c
    using that by (simp add: auth_ok_def)
  show ?thesis
  proof (cases ev)
    case L_take
    then show ?thesis using assms h [OF t] by (auto simp: handleLoop_def Let_def split: worker.split list.split)
  next
    case (L_pair wrote)
    have "auth_ok H J (upd_gen i (set_worker k Idle) ((upd_gen i (\<lambda>g. g\<lparr>g_tunnel := cs\<rparr>) v)\<lparr>v_transfers := v_transfers v @ [(i, l, c)]\<rparr>))"
      if "g_tunnel (v_gens v ! i) = c # cs" for c cs l
      using w [OF x [OF p [OF that], of l]] assms(2) by simp
    moreover have "auth_ok H J (fst (loop_head i k l now (upd_gen i (\<lambda>g. g\<lparr>g_tunnel := cs\<rparr>) v)))"
      if "g_tunnel (v_gens v ! i) = c # cs" for c cs l
      using h [OF p(1) [OF that]] assms(2) by simp
    ultimately show ?thesis using L_pair assms(1)
      by (auto simp: handleLoop_def Let_def split: worker.split list.split prod.split) (metis fst_conv)+
  next
    case L_exit
    then show ?thesis using assms w by (auto simp: handleLoop_def Let_def split: worker.split)
  qed
qed

lemma auth_step:
  assumes "auth_ok H J v" "refs_ok v" "\<And>c n. proves_token cfg v e c n \<Longrightarrow> H c n" "\<And>c. lets_in addr v e c \<Longrightarrow> J c"
  shows "auth_ok H J (fst (step cfg addr e v))"
proof (cases e)
  case (Ev_open i c ok)
  have r: "auth_ok H J (v\<lparr>v_reading := rs\<rparr>)" for rs using assms(1) by (simp add: auth_ok_def)
  have "J c" if "v_control v = Some p" "v_nonce v = []" "addr p = None \<or> sameHost (addr p) (addr c)" for p
    using assms(4) [of c] that Ev_open by (auto simp: lets_in_def)
  then show ?thesis using Ev_open r assms(1) auth_deliver [OF assms(1)] by (auto simp: admit_open_def split: option.split)
next
  case (Ev_announced k ann fresh wrote)
  show ?thesis
  proof (cases "k < length (v_reading v)")
    case True
    let ?v = "v\<lparr>v_reading := remove_at k (v_reading v)\<rparr>"
    obtain i c where ic: "v_reading v ! k = (i, c)" by fastforce
    have i: "i < length (v_gens ?v)" using assms(2) nth_mem [OF True] ic by (auto simp: refs_ok_def)
    have v: "auth_ok H J ?v" using assms(1) by (simp add: auth_ok_def)
    have "auth_ok H J (fst (admit_announced cfg i c ann fresh wrote ?v))"
    proof (rule auth_announced [OF v i])
      fix n assume "fst (the ann) = cfg_token cfg" "ann \<noteq> None" wrote "snd (the ann) = SG_Chan \<and> n = [] \<or> snd (the ann) = SG_ChanV2 \<and> fresh = Some n"
      then show "H c n" using assms(3) [of c n] Ev_announced True ic by (auto simp: proves_token_def)
    next
      assume "ann = Some (v_nonce ?v, SG_Pool)" "v_nonce ?v \<noteq> []"
      then show "J c" using assms(4) [of c] Ev_announced True ic by (auto simp: lets_in_def)
    qed
    then show ?thesis using True ic Ev_announced by simp
  qed (use assms(1) Ev_announced in simp)
next
  case (Ev_offer k)
  show ?thesis
  proof (cases "k < length (v_claims v)")
    case True
    let ?v = "v\<lparr>v_claims := remove_at k (v_claims v)\<rparr>"
    obtain i cand where ic: "v_claims v ! k = (i, cand)" by fastforce
    have i: "i < length (v_gens ?v)" and h: "H (cc_conn cand) (cc_nonce cand)"
      using assms(1,2) nth_mem [OF True] ic by (auto simp: refs_ok_def auth_ok_def)
    have v: "auth_ok H J ?v" using assms(1) set_remove_at [of k "v_claims v"] by (auto simp: auth_ok_def)
    have "auth_ok H J (fst (offer_candidate i cand ?v))"
      using v i h auth_gen [OF v i] by (auto simp: offer_candidate_def intro!: auth_upd)
    then show ?thesis using True ic Ev_offer by simp
  qed (use assms(1) Ev_offer in simp)
next
  case (Ev_handler i ev wrote)
  then show ?thesis using assms auth_handler [OF assms(1), of i ev wrote] by (auto split: prod.split)
next
  case Ev_restart_begin
  have "auth_ok H J (v\<lparr>v_restarting := True\<rparr>)" using assms(1) by (simp add: auth_ok_def)
  then show ?thesis using Ev_restart_begin assms(1,2) by (auto simp: Restart_begin_def refs_ok_def intro!: auth_keep)
next
  case (Ev_restart_finish x)
  then show ?thesis using assms(1)
    by (auto simp: Restart_finish_def auth_ok_def new_gen_def nonce_Clear_def nonce_Set_def)
next
  case (Ev_transfer_end k)
  then show ?thesis using assms(1) set_remove_at [of k "v_transfers v"] by (auto simp: transfer_end_def auth_ok_def)
qed (use assms in \<open>auto simp: auth_handshake auth_local auth_loop\<close>)

text \<open>Over a run, \<open>H\<close> and \<open>J\<close> are what happened in it.\<close>

definition happened :: "(server \<Rightarrow> event \<Rightarrow> bool) \<Rightarrow> tcpConfig \<Rightarrow> (nat \<Rightarrow> string option) \<Rightarrow> event list \<Rightarrow> server \<Rightarrow> bool" where
  "happened P cfg addr evs v \<longleftrightarrow> (\<exists>pre e post. evs = pre @ e # post \<and> P (run cfg addr pre v) e)"

lemma happened_snoc: "happened P cfg addr (evs @ [e]) v \<longleftrightarrow> happened P cfg addr evs v \<or> P (run cfg addr evs v) e"
proof
  assume "happened P cfg addr (evs @ [e]) v"
  then obtain pre x post where p: "evs @ [e] = pre @ x # post" "P (run cfg addr pre v) x" by (auto simp: happened_def)
  then show "happened P cfg addr evs v \<or> P (run cfg addr evs v) e"
    by (cases post rule: rev_cases) (auto simp: happened_def)
next
  assume "happened P cfg addr evs v \<or> P (run cfg addr evs v) e"
  then show "happened P cfg addr (evs @ [e]) v" unfolding happened_def by (metis append.assoc append_Cons)
qed

lemma auth_run:
  assumes "refs_ok v0" "auth_ok (\<lambda>_ _. False) (\<lambda>_. False) v0"
  shows "auth_ok (\<lambda>c n. happened (\<lambda>v e. proves_token cfg v e c n) cfg addr evs v0)
    (\<lambda>c. happened (\<lambda>v e. lets_in addr v e c) cfg addr evs v0) (run cfg addr evs v0) \<and> refs_ok (run cfg addr evs v0)"
proof (induction evs rule: rev_induct)
  case Nil
  then show ?case using assms by (simp add: happened_def)
next
  case (snoc e evs)
  let ?H = "\<lambda>evs c n. happened (\<lambda>v e. proves_token cfg v e c n) cfg addr evs v0"
    and ?J = "\<lambda>evs c. happened (\<lambda>v e. lets_in addr v e c) cfg addr evs v0"
  have h: "auth_ok (?H evs) (?J evs) (run cfg addr evs v0)" and r: "refs_ok (run cfg addr evs v0)" using snoc by blast+
  from h have "auth_ok (?H (evs @ [e])) (?J (evs @ [e])) (run cfg addr evs v0)"
    by (rule auth_mono) (simp_all add: happened_snoc)
  then have "auth_ok (?H (evs @ [e])) (?J (evs @ [e])) (fst (step cfg addr e (run cfg addr evs v0)))"
    by (rule auth_step [OF _ r]) (simp_all add: happened_snoc)
  then show ?case using refs_step [OF r] by (simp add: run_append)
qed

definition in_pool :: "server \<Rightarrow> nat \<Rightarrow> bool" where
  "in_pool v c \<longleftrightarrow> list_ex (\<lambda>g. c \<in> set (g_tunnel g)) (v_gens v) \<or> list_ex (\<lambda>(i, l, t). t = c) (v_transfers v)"


definition pool_events :: "event list" where
  "pool_events = [Ev_open 0 0 True, Ev_announced 0 (Some (''t'', SG_ChanV2)) (Some ''n'') True, Ev_offer 0, Ev_handshake 0 False,
     Ev_open 0 1 True, Ev_announced 0 (Some (''n'', SG_Pool)) None True]"


end
