(* ===== verification/ReverseClient.thy ===== *)
theory ReverseClient
  imports Signals Endpoints BackendPool "HOL-Library.Signed_Division"
begin

text \<open>
  The dialling side of a reverse tunnel over TCP (\<open>internal/client/transport/tcp.go\<close>): the control handshake with its
  fallback for old servers (\<open>handshake.go\<close>), the size of the pool (\<open>poolload.go\<close>), the control loop, what a pool
  connection does with the target it is sent (\<open>resolver.go\<close>), and the two ends' pacing of retries. A dial, a write and
  what the server answers are arguments; so is the throughput, which the code takes from its metrics as a float.
\<close>

section \<open>The handshake\<close>

definition legacyMissThreshold :: int where "legacyMissThreshold = 2"

record legacyProbe =
  lp_legacy :: bool
  lp_answered :: bool
  lp_misses :: "32 word"
  lp_warned :: bool

definition new_probe :: legacyProbe where
  "new_probe = \<lparr>lp_legacy = False, lp_answered = False, lp_misses = 0, lp_warned = False\<rparr>"

definition probe_signal :: "legacyProbe \<Rightarrow> byte" where
  "probe_signal p = (if lp_legacy p then SG_Chan else SG_ChanV2)"

definition probe_ack :: "byte \<Rightarrow> legacyProbe \<Rightarrow> legacyProbe" where
  "probe_ack ackSignal p =
     (let p = p\<lparr>lp_misses := 0\<rparr> in
      if ackSignal = SG_ChanV2 then p\<lparr>lp_answered := True, lp_legacy := False\<rparr> else p)"

text \<open>\<open>legacy.Swap(true) || warned.Swap(true)\<close> sets the second flag only when the first was clear.\<close>

definition probe_miss :: "byte \<Rightarrow> legacyProbe \<Rightarrow> legacyProbe" where
  "probe_miss sent p =
     (if sent \<noteq> SG_ChanV2 then p
      else if lp_answered p then p
      else let p = p\<lparr>lp_misses := lp_misses p + 1\<rparr> in
           if sint (lp_misses p) < legacyMissThreshold then p
           else if lp_legacy p then p
           else p\<lparr>lp_legacy := True, lp_warned := True\<rparr>)"

definition probe_reset :: "legacyProbe \<Rightarrow> legacyProbe" where
  "probe_reset p = p\<lparr>lp_legacy := False, lp_misses := 0\<rparr>"

datatype refusal = RejectedToken | AlreadyInUse | RefusedWith string

definition refusalReason :: "string \<Rightarrow> byte \<Rightarrow> refusal option" where
  "refusalReason ack signal =
     (if signal \<noteq> SG_Refused then None
      else Some (if ack = RefusedBadToken then RejectedToken
                 else if ack = RefusedInUse then AlreadyInUse else RefusedWith ack))"

definition decodeControlAck :: "string \<Rightarrow> byte \<Rightarrow> string \<times> string \<times> nat" where
  "decodeControlAck ack signal = (if signal \<noteq> SG_ChanV2 then (ack, [], 0) else DecodeControlAck ack)"

definition announcePoolConn :: "string \<Rightarrow> bytes" where
  "announcePoolConn nonce = (if nonce = [] then [] else SendBinaryTransportString nonce SG_Pool)"

text \<open>Durations in nanoseconds; Go's integer division by two of a positive one.\<close>

definition controlIdleFallback :: int where "controlIdleFallback = 120 * 1000000000"
definition controlIdleFloor :: int where "controlIdleFloor = 30 * 1000000000"

definition controlDeadline :: "int \<Rightarrow> int" where
  "controlDeadline keepAlive =
     (if keepAlive \<le> 0 then controlIdleFallback
      else let d = keepAlive + keepAlive div 2 in if controlIdleFloor < d then d else controlIdleFloor)"

section \<open>The client\<close>

record clientConfig =
  cc_token :: string
  cc_stealth :: bool
  cc_poolSize :: int
  cc_aggressive :: bool

record client =
  cl_endpoints :: endpoints
  cl_probe :: legacyProbe
  cl_nonce :: string
  cl_conn :: "nat option"
  cl_poolConnections :: "32 word"
  cl_loadConnections :: "32 word"
  cl_controlFlow :: nat
  cl_poolSize :: int
  cl_poolSum :: "32 word"
  cl_blocked :: bool
  cl_dialers :: nat

definition NewTCPClient :: "endpoints \<Rightarrow> client" where
  "NewTCPClient e = \<lparr>cl_endpoints = e, cl_probe = new_probe, cl_nonce = [], cl_conn = None, cl_poolConnections = 0,
     cl_loadConnections = 0, cl_controlFlow = 0, cl_poolSize = 0, cl_poolSum = 0, cl_blocked = False, cl_dialers = 0\<rparr>"

datatype answer = Timeout | ReadError | Answer string byte

text \<open>What became of an attempt, in the order of the checks; \<open>Panicked\<close> is an endpoint index out of range.\<close>

datatype attempt =
    Panicked | DialFailed | StealthFailed | NotSent | DeadlineFailed | NoAnswer | Refused refusal | WrongToken | Connected

definition poolMaintainer_start :: "clientConfig \<Rightarrow> client \<Rightarrow> client" where
  "poolMaintainer_start cfg c = c\<lparr>cl_dialers := cl_dialers c + nat (cc_poolSize cfg), cl_poolSize := cc_poolSize cfg, cl_poolSum := 0, cl_blocked := False\<rparr>"

text \<open>
  One attempt of \<open>channelDialer\<close>: the client after it, what it wrote on the connection, and what became of it. \<open>dial\<close>
  gives the connection, if there is one; the other arguments are the outcomes of the stealth handshake, of the write
  and of setting the deadline, and what the read returned.
\<close>

definition channelDialer ::
    "clientConfig \<Rightarrow> (string \<Rightarrow> nat option) \<Rightarrow> bool \<Rightarrow> bool \<Rightarrow> bool \<Rightarrow> answer \<Rightarrow> client \<Rightarrow> client \<times> bytes \<times> attempt" where
  "channelDialer cfg dial stealth_ok wrote deadline_ok ans c =
     (case Current (cl_endpoints c) of
        None \<Rightarrow> (c, [], Panicked)
      | Some target \<Rightarrow>
        case dial target of
          None \<Rightarrow> (c\<lparr>cl_endpoints := fst (Rotate (cl_endpoints c))\<rparr>, [], DialFailed)
        | Some conn \<Rightarrow>
          if cc_stealth cfg \<and> \<not> stealth_ok then (c, [], StealthFailed)
          else let signal = probe_signal (cl_probe c); msg = SendBinaryTransportString (cc_token cfg) signal in
            if \<not> wrote then (c, [], NotSent)
            else if \<not> deadline_ok then (c, msg, DeadlineFailed)
            else case ans of
                Timeout \<Rightarrow> (c, msg, NoAnswer)
              | ReadError \<Rightarrow> (c\<lparr>cl_probe := probe_miss signal (cl_probe c)\<rparr>, msg, NoAnswer)
              | Answer message ackSignal \<Rightarrow>
                  (case refusalReason message ackSignal of
                     Some why \<Rightarrow> (c\<lparr>cl_probe := probe_ack ackSignal (cl_probe c)\<rparr>, msg, Refused why)
                   | None \<Rightarrow>
                       let (token, nonce, _) = decodeControlAck message ackSignal in
                       if token = cc_token cfg
                       then (poolMaintainer_start cfg (c\<lparr>cl_probe := probe_ack ackSignal (cl_probe c),
                               cl_nonce := nonce_Set nonce (cl_nonce c), cl_conn := Some conn\<rparr>), msg, Connected)
                       else (c, msg, WrongToken)))"

text \<open>\<open>Restart\<close> once the tunnel is known to live on. The drain of \<open>controlFlow\<close> lets a maintainer that is blocked on it go.\<close>

definition client_Restart :: "client \<Rightarrow> client" where
  "client_Restart c = c\<lparr>cl_conn := None, cl_nonce := nonce_Clear (cl_nonce c), cl_probe := probe_reset (cl_probe c),
     cl_poolConnections := 0, cl_loadConnections := 0, cl_controlFlow := 0, cl_blocked := False\<rparr>"

section \<open>The size of the pool\<close>

definition poolScaleMbpsPerConn :: int where "poolScaleMbpsPerConn = 12"
definition poolGrowthLimit :: int where "poolGrowthLimit = 4"

definition poolCanGrow :: "int \<Rightarrow> int \<Rightarrow> bool" where
  "poolCanGrow poolSize configuredSize =
     (if configuredSize \<le> 0 then False else poolSize < configuredSize * poolGrowthLimit)"

definition wantsMore :: "int \<Rightarrow> int \<Rightarrow> int \<Rightarrow> int \<Rightarrow> bool" where
  "wantsMore mbps liveConns poolSize configuredSize =
     (if mbps \<le> 0 \<or> liveConns \<le> 0 then False
      else if \<not> poolCanGrow poolSize configuredSize then False
      else poolScaleMbpsPerConn \<le> mbps sdiv liveConns)"

text \<open>
  The two tickers of \<open>poolMaintainer\<close>. The comparison with the factor \<open>y\<close> is in floats: 4.0 or 0.75 times an average of
  a few thousand is exact, so it is one of integers. A shrinking pool sends on \<open>controlFlow\<close>, which holds 100; when that
  is full the maintainer blocks, and misses its ticks, until the control loop takes one.
\<close>

definition pool_tick :: "client \<Rightarrow> client" where
  "pool_tick c = (if cl_blocked c then c else c\<lparr>cl_poolSum := cl_poolSum c + cl_poolConnections c\<rparr>)"

definition load_tick :: "clientConfig \<Rightarrow> int \<Rightarrow> client \<Rightarrow> client" where
  "load_tick cfg mbps c =
     (let a = (if cc_aggressive cfg then 1 else 4); b = (if cc_aggressive cfg then 2 else 5);
          loadConnections = (sint (cl_loadConnections c) + 9) sdiv 10;
          avg = (sint (cl_poolSum c) + 9) sdiv 10;
          c' = c\<lparr>cl_loadConnections := 0, cl_poolSum := 0\<rparr>
      in if cl_blocked c then c
         else if (avg * b < loadConnections + a \<and> poolCanGrow (cl_poolSize c) (cc_poolSize cfg)) \<or>
            wantsMore mbps avg (cl_poolSize c) (cc_poolSize cfg)
         then c'\<lparr>cl_poolSize := cl_poolSize c + 1, cl_dialers := cl_dialers c + 1\<rparr>
         else if (if cc_aggressive cfg then 4 * loadConnections < 3 * avg else loadConnections + 3 < 4 * avg) \<and>
                 cc_poolSize cfg < cl_poolSize c
         then (if cl_controlFlow c < 100 then c'\<lparr>cl_poolSize := cl_poolSize c - 1, cl_controlFlow := cl_controlFlow c + 1\<rparr>
               else c'\<lparr>cl_poolSize := cl_poolSize c - 1, cl_blocked := True\<rparr>)
         else c')"

section \<open>The control loop\<close>

text \<open>One message: the client, whether it answers with \<open>SG_RTT\<close>, and whether it asks for a restart.\<close>

definition client_channelHandler :: "byte \<Rightarrow> bool \<Rightarrow> client \<Rightarrow> client \<times> bool \<times> bool" where
  "client_channelHandler msg wrote c =
     (if msg = SG_Chan then
        (let c = c\<lparr>cl_loadConnections := cl_loadConnections c + 1\<rparr> in
         (if cl_blocked c then c\<lparr>cl_blocked := False\<rparr>
          else if 0 < cl_controlFlow c then c\<lparr>cl_controlFlow := cl_controlFlow c - 1\<rparr>
          else c\<lparr>cl_dialers := cl_dialers c + 1\<rparr>, False, False))
      else if msg = SG_HB then (c, False, False)
      else if msg = SG_Closed then (c, False, True)
      else if msg = SG_RTT then (c, True, \<not> wrote)
      else (c, False, True))"

section \<open>A pool connection\<close>

fun resolve_one :: "string \<Rightarrow> (int \<times> string) option" where
  "resolve_one remoteAddr =
     (case split_on CHR '':'' remoteAddr of
        [p] \<Rightarrow> map_option (\<lambda>port. (port, ''127.0.0.1:'' @ itoa port)) (atoi p)
      | h # p # _ \<Rightarrow> map_option (\<lambda>port. (port, remoteAddr)) (atoi p)
      | [] \<Rightarrow> None)"

text \<open>The walk over a list of backends with its index: the port of the one at index zero is reported.\<close>

fun resolve_parts :: "nat \<Rightarrow> string list \<Rightarrow> int \<Rightarrow> string list \<Rightarrow> (int \<times> string list) option" where
  "resolve_parts i [] firstPort resolved = Some (firstPort, resolved)"
| "resolve_parts i (part # parts) firstPort resolved =
     (let part = trim_space part in
      if part = [] then resolve_parts (i + 1) parts firstPort resolved
      else case resolve_one part of
             None \<Rightarrow> None
           | Some (p, full) \<Rightarrow> resolve_parts (i + 1) parts (if i = 0 then p else firstPort) (resolved @ [full]))"

definition ResolveRemoteAddr :: "string \<Rightarrow> (int \<times> string) option" where
  "ResolveRemoteAddr remoteAddr =
     (if CHR ''|'' \<in> set remoteAddr
      then map_option (\<lambda>(port, rs). (port, join_with ''|'' rs)) (resolve_parts 0 (split_on CHR ''|'' remoteAddr) 0 [])
      else resolve_one remoteAddr)"

datatype destination = ToUDP string int | ToTCP string int

text \<open>\<open>None\<close> is a target that is not UDP; \<open>Some None\<close> one that does not resolve, and the stream is closed.\<close>

definition dialForwardedUDP :: "string \<Rightarrow> destination option option" where
  "dialForwardedUDP remoteAddr =
     (let (target, isUDP) = SplitUDPTarget remoteAddr in
      if \<not> isUDP then None
      else Some (map_option (\<lambda>(port, resolved). ToUDP resolved port) (ResolveRemoteAddr target)))"

text \<open>
  \<open>tunnelDialer\<close> up to the read that waits for a target, and what it does with the bytes that arrive: \<open>None\<close> closes the
  connection. \<open>poolConnections\<close> counts the ones that wait.
\<close>

definition tunnelDialer_open ::
    "clientConfig \<Rightarrow> (string \<Rightarrow> nat option) \<Rightarrow> bool \<Rightarrow> bool \<Rightarrow> client \<Rightarrow> client \<times> bytes \<times> attempt" where
  "tunnelDialer_open cfg dial stealth_ok wrote c =
     (let (e, next) = Next (cl_endpoints c); c = c\<lparr>cl_endpoints := e\<rparr> in
      case next of
        None \<Rightarrow> (c, [], Panicked)
      | Some target \<Rightarrow>
        case dial target of
          None \<Rightarrow> (c, [], DialFailed)
        | Some conn \<Rightarrow>
          if cc_stealth cfg \<and> \<not> stealth_ok then (c, [], StealthFailed)
          else if cl_nonce c \<noteq> [] \<and> \<not> wrote then (c, [], NotSent)
          else (c\<lparr>cl_poolConnections := cl_poolConnections c + 1\<rparr>, announcePoolConn (cl_nonce c), Connected))"

definition tunnelDialer :: "bytes \<Rightarrow> client \<Rightarrow> client \<times> destination option" where
  "tunnelDialer stream c =
     (c\<lparr>cl_poolConnections := cl_poolConnections c - 1\<rparr>,
      case ReceiveBinaryTransportString stream of
        None \<Rightarrow> None
      | Some ((remoteAddr, transport), _) \<Rightarrow>
          (case dialForwardedUDP remoteAddr of
             Some dest \<Rightarrow> dest
           | None \<Rightarrow>
               (case ResolveRemoteAddr remoteAddr of
                  None \<Rightarrow> None
                | Some (port, resolved) \<Rightarrow> if transport = SG_TCP then Some (ToTCP resolved port) else None)))"

definition localDialer ::
    "((string \<times> nat) list \<Rightarrow> (string \<times> nat) list) \<Rightarrow> int \<Rightarrow> string \<Rightarrow> backendPool \<Rightarrow> backendPool \<times> string" where
  "localDialer walk now resolvedAddr pool = pool_pick walk now resolvedAddr pool"

section \<open>Runs\<close>

datatype client_event =
    C_attempt "string \<Rightarrow> nat option" bool bool bool answer
  | C_restart
  | C_pool_open "string \<Rightarrow> nat option" bool bool
  | C_pool_target bytes
  | C_pool_tick
  | C_load_tick int
  | C_message byte bool

text \<open>The dialler of the control channel ends once it is connected; the maintainer and the control loop run from then on.\<close>

fun client_step :: "clientConfig \<Rightarrow> client_event \<Rightarrow> client \<Rightarrow> client" where
  "client_step cfg (C_attempt dial ok wrote deadline ans) c =
     (if cl_conn c = None then fst (channelDialer cfg dial ok wrote deadline ans c) else c)"
| "client_step cfg C_restart c = client_Restart c"
| "client_step cfg (C_pool_open dial ok wrote) c = fst (tunnelDialer_open cfg dial ok wrote c)"
| "client_step cfg (C_pool_target stream) c = fst (tunnelDialer stream c)"
| "client_step cfg C_pool_tick c = (if cl_conn c \<noteq> None then pool_tick c else c)"
| "client_step cfg (C_load_tick mbps) c = (if cl_conn c \<noteq> None then load_tick cfg mbps c else c)"
| "client_step cfg (C_message msg wrote) c = (if cl_conn c \<noteq> None then fst (client_channelHandler msg wrote c) else c)"

definition client_run :: "clientConfig \<Rightarrow> client_event list \<Rightarrow> client \<Rightarrow> client" where
  "client_run cfg evs c = foldl (\<lambda>c e. client_step cfg e c) c evs"

section \<open>The pool stays within its limits\<close>

definition pool_ok :: "clientConfig \<Rightarrow> client \<Rightarrow> bool" where
  "pool_ok cfg c \<longleftrightarrow> cl_controlFlow c \<le> 100 \<and> (cl_blocked c \<longrightarrow> cl_controlFlow c = 100) \<and>
     (cl_conn c \<noteq> None \<longrightarrow> cc_poolSize cfg \<le> cl_poolSize c \<and> cl_poolSize c \<le> max (cc_poolSize cfg) (4 * cc_poolSize cfg))"

lemma poolCanGrow_iff: "poolCanGrow p n \<longleftrightarrow> 0 < n \<and> p < 4 * n"
  by (auto simp: poolCanGrow_def poolGrowthLimit_def)

lemma wantsMore_iff: "wantsMore m l p n \<longleftrightarrow> poolCanGrow p n \<and> 0 < m \<and> 0 < l \<and> 12 \<le> m sdiv l"
  by (auto simp: wantsMore_def poolScaleMbpsPerConn_def)

text \<open>A tick leaves the pool alone, grows it by one where it can grow, or shrinks it by one where it is above its size.\<close>

lemma load_tick_shape:
  "cl_conn (load_tick cfg mbps c) = cl_conn c \<and>
   (cl_poolSize (load_tick cfg mbps c) = cl_poolSize c \<and> cl_controlFlow (load_tick cfg mbps c) = cl_controlFlow c \<and>
      cl_blocked (load_tick cfg mbps c) = cl_blocked c \<or>
    poolCanGrow (cl_poolSize c) (cc_poolSize cfg) \<and> cl_poolSize (load_tick cfg mbps c) = cl_poolSize c + 1 \<and>
      cl_controlFlow (load_tick cfg mbps c) = cl_controlFlow c \<and> cl_blocked (load_tick cfg mbps c) = cl_blocked c \<or>
    cc_poolSize cfg < cl_poolSize c \<and> cl_poolSize (load_tick cfg mbps c) = cl_poolSize c - 1 \<and> \<not> cl_blocked c \<and>
      (if cl_controlFlow c < 100 then cl_controlFlow (load_tick cfg mbps c) = cl_controlFlow c + 1 \<and> \<not> cl_blocked (load_tick cfg mbps c)
       else cl_controlFlow (load_tick cfg mbps c) = cl_controlFlow c))"
proof -
  define grow where "grow = (((sint (cl_poolSum c) + 9) sdiv 10 * (if cc_aggressive cfg then 2 else 5)
      < (sint (cl_loadConnections c) + 9) sdiv 10 + (if cc_aggressive cfg then 1 else 4) \<and> poolCanGrow (cl_poolSize c) (cc_poolSize cfg)) \<or>
      wantsMore mbps ((sint (cl_poolSum c) + 9) sdiv 10) (cl_poolSize c) (cc_poolSize cfg))"
  have "grow \<Longrightarrow> poolCanGrow (cl_poolSize c) (cc_poolSize cfg)" by (auto simp: grow_def wantsMore_iff)
  then show ?thesis unfolding load_tick_def Let_def grow_def [symmetric] by simp
qed

lemma pool_load_tick: "pool_ok cfg c \<Longrightarrow> pool_ok cfg (load_tick cfg mbps c)"
  using load_tick_shape [of cfg mbps c] unfolding pool_ok_def poolCanGrow_iff by (elim conjE disjE) (auto split: if_splits)

lemma pool_attempt: "pool_ok cfg c \<Longrightarrow> pool_ok cfg (fst (channelDialer cfg dial ok wrote deadline ans c))"
  by (auto simp: pool_ok_def channelDialer_def poolMaintainer_start_def Let_def split: option.split answer.split prod.split)

lemma pool_step: "pool_ok cfg c \<Longrightarrow> pool_ok cfg (client_step cfg e c)"
proof (cases e)
  case (C_attempt d a w l r)
  then show "pool_ok cfg c \<Longrightarrow> pool_ok cfg (client_step cfg e c)" by (simp add: pool_attempt)
next
  case (C_load_tick m)
  then show "pool_ok cfg c \<Longrightarrow> pool_ok cfg (client_step cfg e c)" by (simp add: pool_load_tick)
qed (auto simp: pool_ok_def client_Restart_def tunnelDialer_open_def tunnelDialer_def pool_tick_def client_channelHandler_def Let_def
    split: option.split prod.split)

lemma client_run_simps [simp]:
  "client_run cfg [] c = c" "client_run cfg (e # es) c = client_run cfg es (client_step cfg e c)"
  by (simp_all add: client_run_def)

lemma client_run_snoc: "client_run cfg (es @ [e]) c = client_step cfg e (client_run cfg es c)"
  by (simp add: client_run_def)

text \<open>A connected client aims for at least the configured number of pool connections and at most four times as many.\<close>

lemma pool_stays_bounded: "pool_ok cfg (client_run cfg evs (NewTCPClient e))"
proof (induction evs rule: rev_induct)
  case Nil
  then show ?case by (simp add: pool_ok_def NewTCPClient_def)
qed (simp add: client_run_snoc pool_step)

section \<open>When a client falls back\<close>

text \<open>
  What a run shows of the server: it closed an attempt of the current handshake without a word, it answered something, it
  settled on the current handshake, or the client started afresh.
\<close>

datatype mark = Silent | Heard | Settled | Fresh

definition attempt_mark :: "byte \<Rightarrow> answer \<Rightarrow> attempt \<Rightarrow> mark list" where
  "attempt_mark sent ans outcome =
     (case (outcome, ans) of
        (NoAnswer, ReadError) \<Rightarrow> if sent = SG_ChanV2 then [Silent] else []
      | (Refused _, _) \<Rightarrow> [Heard]
      | (Connected, Answer _ ackSignal) \<Rightarrow> if ackSignal = SG_ChanV2 then [Settled] else [Heard]
      | _ \<Rightarrow> [])"

fun event_mark :: "clientConfig \<Rightarrow> client \<Rightarrow> client_event \<Rightarrow> mark list" where
  "event_mark cfg c (C_attempt dial ok wrote deadline ans) =
     (if cl_conn c = None
      then attempt_mark (probe_signal (cl_probe c)) ans (snd (snd (channelDialer cfg dial ok wrote deadline ans c))) else [])"
| "event_mark cfg c C_restart = [Fresh]"
| "event_mark cfg c _ = []"

fun run_marks :: "clientConfig \<Rightarrow> client_event list \<Rightarrow> client \<Rightarrow> mark list" where
  "run_marks cfg [] c = []"
| "run_marks cfg (e # es) c = event_mark cfg c e @ run_marks cfg es (client_step cfg e c)"

definition falls_back :: "mark list \<Rightarrow> bool" where
  "falls_back log \<longleftrightarrow> Settled \<notin> set log \<and> (\<exists>a b. log = a @ [Silent, Silent] @ b \<and> Fresh \<notin> set b)"

lemma falls_back_nil [simp]: "\<not> falls_back []"
  by (simp add: falls_back_def)

lemma falls_back_snoc:
  "falls_back (log @ [m]) \<longleftrightarrow> m \<noteq> Settled \<and> m \<noteq> Fresh \<and> Settled \<notin> set log \<and> (falls_back log \<or> m = Silent \<and> log \<noteq> [] \<and> last log = Silent)"
proof
  assume h: "falls_back (log @ [m])"
  then obtain a b where ab: "log @ [m] = a @ [Silent, Silent] @ b" "Fresh \<notin> set b" "Settled \<notin> set log" "m \<noteq> Settled"
    by (auto simp: falls_back_def)
  show "m \<noteq> Settled \<and> m \<noteq> Fresh \<and> Settled \<notin> set log \<and> (falls_back log \<or> m = Silent \<and> log \<noteq> [] \<and> last log = Silent)"
  proof (cases b rule: rev_cases)
    case Nil
    then have "(a @ [Silent]) @ [Silent] = log @ [m]" using ab(1) by simp
    then have "log = a @ [Silent]" "m = Silent" by auto
    then show ?thesis using ab by simp
  next
    case (snoc b' x)
    then have "log = a @ [Silent, Silent] @ b'" "x = m" using ab(1) by auto
    then show ?thesis using ab snoc by (auto simp: falls_back_def)
  qed
next
  assume h: "m \<noteq> Settled \<and> m \<noteq> Fresh \<and> Settled \<notin> set log \<and> (falls_back log \<or> m = Silent \<and> log \<noteq> [] \<and> last log = Silent)"
  show "falls_back (log @ [m])"
  proof (cases "falls_back log")
    case True
    then obtain a b where "log = a @ [Silent, Silent] @ b" "Fresh \<notin> set b" by (auto simp: falls_back_def)
    then have "log @ [m] = a @ [Silent, Silent] @ (b @ [m])" "Fresh \<notin> set (b @ [m])" using h by auto
    then show ?thesis using h unfolding falls_back_def by (metis UnE empty_iff empty_set set_ConsD set_append)
  next
    case False
    then have "log @ [m] = butlast log @ [Silent, Silent] @ []" using h append_butlast_last_id [of log] by simp
    then show ?thesis using h unfolding falls_back_def by fastforce
  qed
qed

definition probe_ok :: "mark list \<Rightarrow> legacyProbe \<Rightarrow> bool" where
  "probe_ok log p \<longleftrightarrow> (lp_answered p \<longleftrightarrow> Settled \<in> set log) \<and> (lp_legacy p \<longleftrightarrow> falls_back log) \<and>
     (\<not> lp_legacy p \<longrightarrow> \<not> lp_answered p \<longrightarrow> lp_misses p = (if log \<noteq> [] \<and> last log = Silent then 1 else 0))"

lemma probe_ok_legacy: "probe_ok log p \<Longrightarrow> lp_legacy p \<Longrightarrow> \<not> lp_answered p"
  by (auto simp: probe_ok_def falls_back_def)

lemma probe_ok_miss:
  assumes "probe_ok log p"
  shows "probe_ok (log @ (if probe_signal p = SG_ChanV2 then [Silent] else [])) (probe_miss (probe_signal p) p)"
proof (cases "lp_legacy p \<or> lp_answered p")
  case True
  show ?thesis
  proof (cases "lp_legacy p")
    case True
    then show ?thesis using assms by (simp add: probe_signal_def probe_miss_def signal_defs)
  next
    case False
    then have "lp_answered p" using \<open>lp_legacy p \<or> lp_answered p\<close> by simp
    then have "probe_miss (probe_signal p) p = p" "Settled \<in> set log" using assms by (simp_all add: probe_miss_def probe_ok_def)
    then show ?thesis using assms False by (simp add: probe_ok_def falls_back_snoc)
  qed
next
  case False
  let ?l = "log \<noteq> [] \<and> last log = Silent"
  have l: "Settled \<notin> set log" "\<not> falls_back log" "lp_misses p = (if ?l then 1 else 0)" using assms False by (auto simp: probe_ok_def)
  have s: "probe_signal p = SG_ChanV2" using False by (simp add: probe_signal_def)
  then have "probe_miss (probe_signal p) p = (if ?l then p\<lparr>lp_misses := 2, lp_legacy := True, lp_warned := True\<rparr> else p\<lparr>lp_misses := 1\<rparr>)"
    using False l(3) by (simp add: probe_miss_def legacyMissThreshold_def Let_def)
  then show ?thesis using s False l by (simp add: probe_ok_def falls_back_snoc)
qed

lemma probe_ok_ack: "probe_ok log p \<Longrightarrow> probe_ok (log @ [if s = SG_ChanV2 then Settled else Heard]) (probe_ack s p)"
  by (auto simp: probe_ok_def probe_ack_def falls_back_snoc Let_def) (auto simp: falls_back_def)

lemma probe_ok_reset: "probe_ok log p \<Longrightarrow> probe_ok (log @ [Fresh]) (probe_reset p)"
  by (auto simp: probe_ok_def probe_reset_def falls_back_snoc)

lemma probe_attempt:
  assumes "probe_ok log (cl_probe c)"
  shows "probe_ok (log @ attempt_mark (probe_signal (cl_probe c)) ans (snd (snd (channelDialer cfg dial ok wrote deadline ans c))))
    (cl_probe (fst (channelDialer cfg dial ok wrote deadline ans c)))"
proof -
  have r: "probe_ok (log @ [Heard]) (probe_ack s (cl_probe c))" if "refusalReason m s = Some why" for m s why
    using probe_ok_ack [OF assms, of s] that by (auto simp: refusalReason_def signal_defs split: if_splits)
  have a: "probe_ok (log @ [Settled]) (probe_ack SG_ChanV2 (cl_probe c))" "s \<noteq> SG_ChanV2 \<Longrightarrow> probe_ok (log @ [Heard]) (probe_ack s (cl_probe c))" for s
    using probe_ok_ack [OF assms, of SG_ChanV2] probe_ok_ack [OF assms, of s] by simp_all
  show ?thesis
    using assms probe_ok_miss [OF assms] a r
    by (auto simp: channelDialer_def attempt_mark_def poolMaintainer_start_def Let_def split: option.split answer.split prod.split)
qed

lemma probe_step: "probe_ok log (cl_probe c) \<Longrightarrow> probe_ok (log @ event_mark cfg c e) (cl_probe (client_step cfg e c))"
proof (cases e)
  case (C_attempt d a w l r)
  then show "probe_ok log (cl_probe c) \<Longrightarrow> probe_ok (log @ event_mark cfg c e) (cl_probe (client_step cfg e c))"
    by (simp add: probe_attempt)
qed (auto simp: client_Restart_def probe_ok_reset tunnelDialer_open_def tunnelDialer_def pool_tick_def load_tick_def
    client_channelHandler_def Let_def split: option.split prod.split)

lemma probe_run: "probe_ok log (cl_probe c) \<Longrightarrow> probe_ok (log @ run_marks cfg evs c) (cl_probe (client_run cfg evs c))"
proof (induction evs arbitrary: log c)
  case (Cons e evs)
  then show ?case using Cons.IH [OF probe_step [OF Cons.prems, of cfg e]] by simp
qed simp

text \<open>C30. A client falls back to the older handshake, in which pool connections are told by their source address, exactly when
  the server has never settled on the current one and, since the client last started afresh, has twice in a row closed
  an attempt of it without an answer: timeouts, failed dials and refusals never count, and no later answer or
  silence of a server that once spoke the current handshake can bring a client down to the older.\<close>

theorem legacy_fallback_iff:
  "probe_signal (cl_probe (client_run cfg evs (NewTCPClient e))) = SG_Chan \<longleftrightarrow> falls_back (run_marks cfg evs (NewTCPClient e))"
proof -
  have "probe_ok [] (cl_probe (NewTCPClient e))" by (simp add: probe_ok_def NewTCPClient_def new_probe_def)
  from probe_run [OF this, of cfg evs] show ?thesis by (simp add: probe_ok_def probe_signal_def signal_defs)
qed

end
