(* ===== verification/ReversePorts.thy ===== *)
theory ReversePorts
  imports Portmap ReverseClient
begin

text \<open>
  The forwarded ports of a reverse tunnel: what the server listens on (\<open>parsePortMappings\<close> of
  \<open>internal/server/transport/tcp.go\<close>, \<open>listenAddrFor\<close> of \<open>shared.go\<close>), the pause of its accept loops
  (\<open>acceptbackoff.go\<close>), what the setup lets into a configuration (\<open>internal/manage/validate.go\<close>), and that the client resolves what the server sends for a port to where the mapping points. A
  listener is its address and the target sent for its users; \<open>Fatalf\<close> ends the process and is an error.
\<close>

section \<open>Mappings\<close>

datatype ports_error = InvalidRange string | InvalidStart string | InvalidEnd string | InvalidPort string | InvalidMapping string

definition listenAddrFor :: "string \<Rightarrow> string" where
  "listenAddrFor localPortOrAddr =
     (let value = trim_space localPortOrAddr in
      case atoi value of
        Some port \<Rightarrow> if 1 \<le> port \<and> port \<le> 65535 then '':'' @ itoa port else value
      | None \<Rightarrow> value)"

text \<open>The bounds of a range, with the checks in the order of the code.\<close>

definition range_bounds :: "string \<Rightarrow> ports_error + int \<times> int" where
  "range_bounds localPortOrRange =
     (case split_on CHR ''-'' localPortOrRange of
        [a, b] \<Rightarrow>
          (case atoi (trim_space a) of
             None \<Rightarrow> Inl (InvalidStart a)
           | Some startPort \<Rightarrow>
               if startPort < 1 \<or> 65535 < startPort then Inl (InvalidStart a)
               else case atoi (trim_space b) of
                      None \<Rightarrow> Inl (InvalidEnd b)
                    | Some endPort \<Rightarrow>
                        if endPort < 1 \<or> 65535 < endPort \<or> endPort < startPort then Inl (InvalidEnd b)
                        else Inr (startPort, endPort))
      | _ \<Rightarrow> Inl (InvalidRange localPortOrRange))"

definition listeners :: "(int \<Rightarrow> string) \<Rightarrow> int \<times> int \<Rightarrow> (string \<times> string) list" where
  "listeners remote r = map (\<lambda>port. ('':'' @ itoa port, remote port)) [fst r..snd r]"

definition parse_mapping :: "string \<Rightarrow> ports_error + (string \<times> string) list" where
  "parse_mapping portMapping =
     (case split_on CHR ''='' portMapping of
        [p] \<Rightarrow>
          let localPortOrRange = trim_space p in
          if CHR ''-'' \<in> set localPortOrRange
          then (case range_bounds localPortOrRange of Inl e \<Rightarrow> Inl e | Inr r \<Rightarrow> Inr (listeners itoa r))
          else (case atoi localPortOrRange of
                  None \<Rightarrow> Inl (InvalidPort localPortOrRange)
                | Some port \<Rightarrow>
                    if port < 1 \<or> 65535 < port then Inl (InvalidPort localPortOrRange)
                    else Inr [('':'' @ itoa port, localPortOrRange)])
      | [p, q] \<Rightarrow>
          let localPortOrRange = trim_space p; remoteAddr = trim_space q in
          if CHR ''-'' \<in> set localPortOrRange
          then (case range_bounds localPortOrRange of Inl e \<Rightarrow> Inl e | Inr r \<Rightarrow> Inr (listeners (\<lambda>_. remoteAddr) r))
          else Inr [(listenAddrFor localPortOrRange, remoteAddr)]
      | _ \<Rightarrow> Inl (InvalidMapping portMapping))"

text \<open>Listeners are started as the walk goes: those before a bad mapping were, when the process ends.\<close>

fun parsePortMappings :: "string list \<Rightarrow> (string \<times> string) list \<times> ports_error option" where
  "parsePortMappings [] = ([], None)"
| "parsePortMappings (m # ms) =
     (case parse_mapping m of
        Inl e \<Rightarrow> ([], Some e)
      | Inr ls \<Rightarrow> let (rest, err) = parsePortMappings ms in (ls @ rest, err))"

section \<open>Failing accepts\<close>

text \<open>The pause in milliseconds.\<close>

definition acceptBackoffFirst :: int where "acceptBackoffFirst = 5"
definition acceptBackoffMax :: int where "acceptBackoffMax = 100"

definition backoff_fail :: "int \<Rightarrow> int" where
  "backoff_fail delay =
     (if delay = 0 then acceptBackoffFirst
      else if delay < acceptBackoffMax then (let d = delay * 2 in if acceptBackoffMax < d then acceptBackoffMax else d)
      else delay)"

definition backoff_ok :: "int \<Rightarrow> int" where "backoff_ok delay = 0"

lemma backoff_after: "(backoff_fail ^^ (n + 1)) 0 = min 100 (5 * 2 ^ n)"
proof (induction n)
  case (Suc n)
  have "(5 :: int) * 2 ^ Suc n = 2 * (5 * 2 ^ n)" by simp
  moreover have "(0 :: int) < 5 * 2 ^ n" by simp
  ultimately show ?case using Suc by (simp add: backoff_fail_def acceptBackoffFirst_def acceptBackoffMax_def Let_def min_def)
qed (simp add: backoff_fail_def acceptBackoffFirst_def)

section \<open>What a forwarded port means\<close>

lemma atoi_no_sep: "atoi s = Some i \<Longrightarrow> CHR '':'' \<notin> set s \<and> CHR ''|'' \<notin> set s \<and> CHR ''u'' \<notin> set s"
  using atoi_chars [of s i "CHR '':''"] atoi_chars [of s i "CHR ''|''"] atoi_chars [of s i "CHR ''u''"] by (auto simp: is_digit_def)

lemma resolve_port:
  assumes "atoi s = Some i"
  shows "ResolveRemoteAddr s = Some (i, ''127.0.0.1:'' @ itoa i)" "SplitUDPTarget s = (s, False)"
  using assms atoi_no_sep [OF assms] by (auto simp: ResolveRemoteAddr_def split_on_absent SplitUDPTarget_def udpScheme_def prefix_def)

lemma resolve_host_port:
  assumes "CHR '':'' \<notin> set h" "CHR '':'' \<notin> set p" "CHR ''|'' \<notin> set h" "atoi p = Some i"
  shows "ResolveRemoteAddr (h @ '':'' @ p) = Some (i, h @ '':'' @ p)"
proof -
  have "split_on CHR '':'' (h @ '':'' @ p) = [h, p]" using assms(1,2) by (simp add: split_on_append split_on_absent)
  then show ?thesis using assms(3,4) atoi_no_sep [OF assms(4)] by (simp add: ResolveRemoteAddr_def)
qed

text \<open>The resolver cuts at every colon, so that no target with an IPv6 host resolves.\<close>

lemma resolve_bracketed: "CHR '':'' \<notin> set a \<Longrightarrow> CHR ''|'' \<notin> set (a @ rest) \<Longrightarrow> ResolveRemoteAddr (''['' @ a @ ''::'' @ rest) = None"
proof -
  assume a: "CHR '':'' \<notin> set a" "CHR ''|'' \<notin> set (a @ rest)"
  have "split_on CHR '':'' ((CHR ''['' # a) @ CHR '':'' # CHR '':'' # rest) = (CHR ''['' # a) # [] # split_on CHR '':'' rest"
    using a(1) by (subst split_on_append) auto
  then show ?thesis using a(2) by (simp add: ResolveRemoteAddr_def atoi_def)
qed

lemma range_bounds_ok: "range_bounds s = Inr (lo, hi) \<Longrightarrow> port_ok lo \<and> port_ok hi \<and> lo \<le> hi"
  by (auto simp: range_bounds_def port_ok_def split: list.splits option.splits if_splits)

lemma range_bounds_text:
  assumes "port_ok lo" "port_ok hi" "lo \<le> hi"
  shows "range_bounds (span_text lo hi) = Inr (lo, hi)"
proof -
  have "split_on CHR ''-'' (span_text lo hi) = [itoa lo, itoa hi]"
    using assms(1,2) itoa_no_sep [of lo "CHR ''-''"] itoa_no_sep [of hi "CHR ''-''"]
    by (simp add: span_text_def port_ok_def split_on_append split_on_absent)
  then show ?thesis using assms by (simp add: range_bounds_def port_ok_def trim_itoa atoi_itoa)
qed

text \<open>A forwarded port without a target reaches the same port of the client's host, and every port of a range does.\<close>

definition same_port :: "string \<times> string \<Rightarrow> bool" where
  "same_port l \<longleftrightarrow> (\<exists>p. port_ok p \<and> fst l = '':'' @ itoa p \<and> SplitUDPTarget (snd l) = (snd l, False) \<and>
     ResolveRemoteAddr (snd l) = Some (p, ''127.0.0.1:'' @ itoa p))"

lemma bare_mapping_same_port:
  assumes "CHR ''='' \<notin> set m" "parse_mapping m = Inr ls"
  shows "list_all same_port ls"
proof -
  have one: "same_port ('':'' @ itoa p, s)" if "port_ok p" "atoi s = Some p" for p s
    using that resolve_port [OF that(2)] unfolding same_port_def by (intro exI [of _ p]) simp
  have "same_port ('':'' @ itoa p, itoa p)" if "port_ok p" for p
    using one [OF that, of "itoa p"] that atoi_itoa [of p] by (simp add: port_ok_def)
  then have many: "list_all same_port (listeners itoa r)" if "range_bounds s = Inr r" for s r
    using range_bounds_ok [of s "fst r" "snd r"] that by (auto simp: listeners_def list_all_iff port_ok_def)
  show ?thesis using assms one many
    by (auto simp: parse_mapping_def split_on_absent Let_def port_ok_def split: if_splits sum.splits option.splits)
qed

lemma range_mapping:
  assumes "port_ok lo" "port_ok hi" "lo \<le> hi" "CHR ''='' \<notin> set t"
  shows "parse_mapping (span_text lo hi @ ''='' @ t) = Inr (listeners (\<lambda>_. trim_space t) (lo, hi))"
proof -
  have "split_on CHR ''='' (span_text lo hi @ ''='' @ t) = [span_text lo hi, t]"
    using assms span_text_sep [OF assms(1,2), of "CHR ''=''"] by (simp add: split_on_append split_on_absent)
  moreover have "CHR ''-'' \<in> set (span_text lo hi)" by (simp add: span_text_def)
  ultimately show ?thesis using assms range_bounds_text [OF assms(1-3)] trim_span_text [OF assms(1,2)]
    by (simp add: parse_mapping_def Let_def)
qed

lemma parsePortMappings_same_port:
  assumes "list_all (\<lambda>m. CHR ''='' \<notin> set m) ms"
  shows "list_all same_port (fst (parsePortMappings ms))"
  using assms by (induction ms) (auto simp: bare_mapping_same_port split: sum.split prod.split)

section \<open>What the setup accepts\<close>

definition validPort :: "string \<Rightarrow> bool" where
  "validPort s = (case atoi s of Some n \<Rightarrow> 1 \<le> n \<and> n \<le> 65535 | None \<Rightarrow> False)"

definition parsePorts :: "string \<Rightarrow> string list" where
  "parsePorts raw = filter (\<lambda>p. p \<noteq> []) (map trim_space (split_on CHR '','' raw))"

text \<open>\<open>SplitN(spec, "=", 2)\<close> cuts at the first sign only.\<close>

definition validPortSpec :: "string \<Rightarrow> bool" where
  "validPortSpec spec =
     (let (l, q, mapping) = cut CHR ''='' (trim_space spec); local = trim_space l in
      if local = [] then False
      else if mapping \<and> trim_space q = [] then False
      else let range = (if CHR ''-'' \<in> set local
                        then (case split_on CHR ''-'' local of
                                [a, b] \<Rightarrow>
                                  let lo = trim_space a; hi = trim_space b in
                                  if \<not> validPort lo \<or> \<not> validPort hi then False else the (atoi lo) \<le> the (atoi hi)
                              | _ \<Rightarrow> False)
                        else validPort local)
           in case split_host_port local of
                Some (h, p) \<Rightarrow> if h \<noteq> [] then mapping \<and> validPort p else range
              | None \<Rightarrow> range)"

fun validatePortSpecs :: "string list \<Rightarrow> string option" where
  "validatePortSpecs [] = None"
| "validatePortSpecs (p # ps) = (if \<not> validPortSpec p then Some (trim_space p) else validatePortSpecs ps)"

lemma split_on_cut: "c \<in> set s \<Longrightarrow> split_on c s = takeWhile (\<lambda>x. x \<noteq> c) s # split_on c (tl (dropWhile (\<lambda>x. x \<noteq> c) s))"
  by (induction s) auto

lemma split_on_single: "split_on c s = [a] \<longleftrightarrow> c \<notin> set s \<and> a = s"
  using split_on_cut [of c s] split_on_absent [of c s] split_on_ne by (cases "c \<in> set s") auto

text \<open>The two shapes in which the engine reads an entry differently: a second sign, and a host with a dash.\<close>

definition misread :: "string \<Rightarrow> bool" where
  "misread spec =
     (let (l, q, mapping) = cut CHR ''='' spec; local = trim_space l in
      CHR ''='' \<in> set q \<or> (CHR ''-'' \<in> set local \<and> (case split_host_port local of Some (h, _) \<Rightarrow> h \<noteq> [] | None \<Rightarrow> False)))"

lemma range_bounds_valid:
  "(\<exists>r. range_bounds s = Inr r) \<longleftrightarrow>
     (case split_on CHR ''-'' s of
        [a, b] \<Rightarrow> validPort (trim_space a) \<and> validPort (trim_space b) \<and> the (atoi (trim_space a)) \<le> the (atoi (trim_space b))
      | _ \<Rightarrow> False)"
  by (auto simp: range_bounds_def validPort_def split: list.splits option.splits)

lemma trim_with_done: "p \<in> set seqs \<Longrightarrow> p \<noteq> [] \<Longrightarrow> \<not> prefix p (trim_with seqs s)"
proof (induction seqs s rule: trim_with.induct)
  case (1 seqs s)
  then show ?case by (subst trim_with.simps) (auto simp: find_None_iff split: option.split)
qed

lemma trim_with_suffix: "suffix (trim_with seqs s) s"
proof (induction seqs s rule: trim_with.induct)
  case (1 seqs s)
  then show ?case by (subst trim_with.simps) (auto split: option.split intro: suffix_order.trans suffix_drop)
qed

lemma trim_with_keeps:
  "(\<And>p x. p \<in> set seqs \<Longrightarrow> x \<in> set p \<Longrightarrow> \<not> solid x) \<Longrightarrow> solid c \<Longrightarrow> c \<in> set s \<Longrightarrow> c \<in> set (trim_with seqs s)"
proof (induction seqs s rule: trim_with.induct)
  case (1 seqs s)
  show ?case
  proof (cases "find (\<lambda>p. p \<noteq> [] \<and> prefix p s) seqs")
    case None
    then show ?thesis using "1.prems"(3) by (subst trim_with.simps) simp
  next
    case (Some p)
    then have p: "p \<in> set seqs" "prefix p s" by (auto simp: find_Some_iff)
    then obtain r where "s = p @ r" by (auto simp: prefix_def)
    then have "c \<in> set (drop (length p) s)" using "1.prems" p(1) by auto
    then show ?thesis using "1.IH" [OF Some] "1.prems"(1,2) Some by (subst trim_with.simps) simp
  qed
qed

lemma ws_not_solid: "p \<in> set ws_seqs \<Longrightarrow> x \<in> set p \<Longrightarrow> \<not> solid x"
  by (auto simp: ws_seqs_def solid_def Let_def)

lemma trim_space_keeps: "solid c \<Longrightarrow> c \<in> set s \<Longrightarrow> c \<in> set (trim_space s)"
proof -
  assume c: "solid c" "c \<in> set s"
  have "c \<in> set (trim_with ws_seqs s)" using trim_with_keeps [of ws_seqs c s] ws_not_solid c by blast
  moreover have "\<not> solid x" if "p \<in> set (map rev ws_seqs)" "x \<in> set p" for p x using that ws_not_solid by auto
  ultimately show ?thesis using trim_with_keeps [of "map rev ws_seqs" c "rev (trim_with ws_seqs s)"] c(1) by (simp add: trim_space_def)
qed

lemma trim_space_idem: "trim_space (trim_space s) = trim_space s"
proof -
  let ?l = "trim_with ws_seqs s"
  let ?t = "trim_with (map rev ws_seqs) (rev ?l)"
  have "prefix (rev ?t) ?l" using trim_with_suffix [of "map rev ws_seqs" "rev ?l"] by (simp add: suffix_to_prefix)
  then have "\<not> prefix p (rev ?t)" if "p \<in> set ws_seqs" "p \<noteq> []" for p
    using trim_with_done [OF that, of s] prefix_order.trans by blast
  then have "trim_with ws_seqs (rev ?t) = rev ?t" by (intro trim_with_id) auto
  moreover have "trim_with (map rev ws_seqs) ?t = ?t" by (intro trim_with_id) (use trim_with_done in blast)
  ultimately show ?thesis by (simp add: trim_space_def)
qed

lemma validPort_chars: "validPort (trim_space a) \<Longrightarrow> CHR '':'' \<notin> set a"
  using trim_space_keeps [of "CHR '':''" a] atoi_no_sep [of "trim_space a"] by (auto simp: validPort_def solid_def split: option.splits)

lemma host_dash_fatal:
  assumes "split_host_port s = Some (h, p)" "CHR ''-'' \<in> set s"
  shows "\<not> (\<exists>r. range_bounds s = Inr r)"
proof
  assume "\<exists>r. range_bounds s = Inr r"
  then obtain a b where ab: "split_on CHR ''-'' s = [a, b]" "validPort (trim_space a)" "validPort (trim_space b)"
    unfolding range_bounds_valid by (auto split: list.splits)
  have "split_on CHR ''-'' (tl (dropWhile (\<lambda>x. x \<noteq> CHR ''-'') s)) = [b]" "a = takeWhile (\<lambda>x. x \<noteq> CHR ''-'') s"
    using ab(1) split_on_cut [OF assms(2)] by auto
  then have "b = tl (dropWhile (\<lambda>x. x \<noteq> CHR ''-'') s)" "a = takeWhile (\<lambda>x. x \<noteq> CHR ''-'') s" by (simp_all add: split_on_single)
  moreover have "dropWhile (\<lambda>x. x \<noteq> CHR ''-'') s = CHR ''-'' # tl (dropWhile (\<lambda>x. x \<noteq> CHR ''-'') s)"
    using assms(2) by (induction s) auto
  ultimately have "s = a @ CHR ''-'' # b" by (metis takeWhile_dropWhile_id)
  then have "CHR '':'' \<notin> set s" using validPort_chars ab(2,3) by auto
  then show False using assms(1) by (simp add: split_host_port_def)
qed



end
