(* ===== verification/ReverseTunnel.thy ===== *)
theory ReverseTunnel
  imports ReverseSafety ReversePorts
begin

text \<open>
  The two ends of a reverse tunnel over TCP, connected to each other: the client's handshake meets the server's
  admission, a pool connection of a connected client is let in, and the user it is paired with reaches the backend its
  port is mapped to. What a server sends on a connection is read off its actions.
\<close>

section \<open>What one end writes and the other reads\<close>

fun act_bytes :: "nat \<Rightarrow> act \<Rightarrow> bytes" where
  "act_bytes c (SendMsg d m s) = (if d = c then SendBinaryTransportString m s else [])"
| "act_bytes c (SendByte d b) = (if d = c then SendBinaryByte b else [])"
| "act_bytes c (CloseConn d) = []"

definition sent_to :: "nat \<Rightarrow> act list \<Rightarrow> bytes" where
  "sent_to c acts = concat (map (act_bytes c) acts)"

text \<open>A connection that is closed with nothing on it is a failed read, not a timeout.\<close>

definition answer_from :: "bytes \<Rightarrow> answer" where
  "answer_from stream = (case ReceiveBinaryTransportString stream of None \<Rightarrow> ReadError | Some ((m, s), _) \<Rightarrow> Answer m s)"

lemma sent_to_simps [simp]:
  "sent_to c [] = []" "sent_to c (SendMsg c m s # as) = SendBinaryTransportString m s @ sent_to c as"
  "sent_to c (CloseConn d # as) = sent_to c as"
  by (simp_all add: sent_to_def)

lemma answer_from_message: "length m < 65536 \<Longrightarrow> answer_from (SendBinaryTransportString m s) = Answer m s"
  using receive_transport_string [of m s "[]"] by (simp add: answer_from_def)

lemma answer_from_nothing: "answer_from [] = ReadError"
  by (simp add: answer_from_def ReceiveBinaryTransportString_def)

section \<open>The handshake\<close>

text \<open>The client's first message, and both ends after the server read it and the client read the answer.\<close>

definition client_hello :: "clientConfig \<Rightarrow> client \<Rightarrow> bytes" where
  "client_hello ccfg c = fst (snd (channelDialer ccfg (\<lambda>_. Some 0) True True True Timeout c))"

definition reverse_handshake ::
    "tcpConfig \<Rightarrow> clientConfig \<Rightarrow> nat \<Rightarrow> nat \<Rightarrow> string option \<Rightarrow> (string \<Rightarrow> nat option) \<Rightarrow> client \<Rightarrow> server \<Rightarrow> server \<times> client \<times> attempt" where
  "reverse_handshake scfg ccfg i conn fresh dial c v =
     (let (v, acts) = admit_announced scfg i conn (map_option fst (ReceiveBinaryTransportString (client_hello ccfg c))) fresh True v;
          (c, _, outcome) = channelDialer ccfg dial True True True (answer_from (sent_to conn acts)) c
      in (v, c, outcome))"

lemma client_hello_eq:
  "Current (cl_endpoints c) \<noteq> None \<Longrightarrow> client_hello ccfg c = SendBinaryTransportString (cc_token ccfg) (probe_signal (cl_probe c))"
  by (auto simp: client_hello_def channelDialer_def Let_def)

lemma probe_signal_control: "isControlSignal (probe_signal p)"
  by (simp add: probe_signal_def isControlSignal_def)

lemma dialer_outcome:
  assumes "Current (cl_endpoints c) = Some a" "dial a = Some k"
  shows "channelDialer ccfg dial True True True (Answer m s) c =
    (case refusalReason m s of
       Some why \<Rightarrow> (c\<lparr>cl_probe := probe_ack s (cl_probe c)\<rparr>, SendBinaryTransportString (cc_token ccfg) (probe_signal (cl_probe c)), Refused why)
     | None \<Rightarrow> let (token, nonce, _) = decodeControlAck m s in
         if token = cc_token ccfg
         then (poolMaintainer_start ccfg (c\<lparr>cl_probe := probe_ack s (cl_probe c), cl_nonce := nonce, cl_conn := Some k\<rparr>),
               SendBinaryTransportString (cc_token ccfg) (probe_signal (cl_probe c)), Connected)
         else (c, SendBinaryTransportString (cc_token ccfg) (probe_signal (cl_probe c)), WrongToken))"
  using assms by (simp add: channelDialer_def Let_def nonce_Set_def split: option.split prod.split)

text \<open>C31. The handshake of the reverse tunnel decides, and both ends know how: connected to a server, a client is told that the
  place is taken exactly when there is a control channel, that its token is wrong exactly when the tokens differ, and
  is connected otherwise, holding the nonce that the server keeps with its claim (none in the legacy form). A server
  that cannot draw a nonce closes without a word and the client counts a miss.\<close>

theorem reverse_handshake_decides:
  assumes "Current (cl_endpoints c) = Some a" "dial a = Some k" "length (cc_token ccfg) < 65000" "length (cfg_token scfg) < 65000"
    "\<And>n. fresh = Some n \<Longrightarrow> length n = poolNonceHexLen" "reverse_handshake scfg ccfg i conn fresh dial c v = (v', c', outcome)"
  shows "if v_control v \<noteq> None then outcome = Refused AlreadyInUse \<and> v' = v
    else if cc_token ccfg \<noteq> cfg_token scfg then outcome = Refused RejectedToken \<and> v' = v
    else if \<not> lp_legacy (cl_probe c) \<and> fresh = None then outcome = NoAnswer \<and> v' = v \<and> cl_probe c' = probe_miss SG_ChanV2 (cl_probe c)
    else outcome = Connected \<and> cl_nonce c' = (if lp_legacy (cl_probe c) then [] else the fresh) \<and>
      v_claims v' = v_claims v @ [(i, \<lparr>cc_conn = conn, cc_nonce = cl_nonce c'\<rparr>)]"
proof -
  let ?s = "probe_signal (cl_probe c)"
  have ann: "map_option fst (ReceiveBinaryTransportString (client_hello ccfg c)) = Some (cc_token ccfg, ?s)"
    using assms(1,3) receive_transport_string [of "cc_token ccfg" ?s "[]"] by (simp add: client_hello_eq)
  have adm: "admit_announced scfg i conn (Some (cc_token ccfg, ?s)) fresh True v = admitControlChannel scfg i conn (cc_token ccfg) ?s fresh True v"
    by (simp add: admit_announced_def probe_signal_control)
  have refused: "outcome = Refused why \<and> v' = v"
    if "admitControlChannel scfg i conn (cc_token ccfg) ?s fresh True v = (v, refuseControl conn m)" "length m < 65536"
      "refusalReason m SG_Refused = Some why" for m why
    using assms(6) that dialer_outcome [where ccfg = ccfg and dial = dial and c = c, OF assms(1,2)]
    by (simp add: reverse_handshake_def ann adm refuseControl_def answer_from_message Let_def)
  have close: "outcome = NoAnswer \<and> v' = v \<and> cl_probe c' = probe_miss ?s (cl_probe c)"
    if "admitControlChannel scfg i conn (cc_token ccfg) ?s fresh True v = (v, [CloseConn conn])"
    using assms(1,2,6) that by (auto simp: reverse_handshake_def ann adm answer_from_nothing channelDialer_def Let_def)
  have conn: "outcome = Connected \<and> cl_nonce c' = nonce \<and> v_claims v' = v_claims v @ [(i, \<lparr>cc_conn = conn, cc_nonce = nonce\<rparr>)]"
    if "admitControlChannel scfg i conn (cc_token ccfg) ?s fresh True v =
        (v\<lparr>v_claims := v_claims v @ [(i, \<lparr>cc_conn = conn, cc_nonce = nonce\<rparr>)]\<rparr>, [SendMsg conn m ?s])" "length m < 65536"
      "decodeControlAck m ?s = (cc_token ccfg, nonce, x)" for m nonce x
  proof -
    have "refusalReason m ?s = None" by (simp add: refusalReason_def probe_signal_def signal_defs)
    then show ?thesis using assms(6) that dialer_outcome [where ccfg = ccfg and dial = dial and c = c, OF assms(1,2)]
      by (auto simp: reverse_handshake_def ann adm answer_from_message poolMaintainer_start_def Let_def)
  qed
  consider "v_control v \<noteq> None" | "v_control v = None" "cc_token ccfg \<noteq> cfg_token scfg"
    | "v_control v = None" "cc_token ccfg = cfg_token scfg" "lp_legacy (cl_probe c)"
    | "v_control v = None" "cc_token ccfg = cfg_token scfg" "\<not> lp_legacy (cl_probe c)" "fresh = None"
    | n where "v_control v = None" "cc_token ccfg = cfg_token scfg" "\<not> lp_legacy (cl_probe c)" "fresh = Some n" by auto
  then show ?thesis
  proof cases
    case 1
    then show ?thesis using refused [of RefusedInUse AlreadyInUse]
      by (simp add: admitControlChannel_def RefusedInUse_def RefusedBadToken_def refusalReason_def)
  next
    case 2
    then show ?thesis using refused [of RefusedBadToken RejectedToken]
      by (simp add: admitControlChannel_def tokenMatches_def RefusedBadToken_def refusalReason_def)
  next
    case 3
    then show ?thesis using conn [of "[]" "cfg_token scfg" 0] assms(4)
      by (simp add: admitControlChannel_def tokenMatches_def controlAck_def probe_signal_def decodeControlAck_def signal_defs)
  next
    case 4
    then show ?thesis using close
      by (simp add: admitControlChannel_def tokenMatches_def controlAck_def probe_signal_def signal_defs)
  next
    case (5 n)
    have n: "length n = poolNonceHexLen" using assms(5) 5 by simp
    have "decodeControlAck (EncodeControlAck (cfg_token scfg) n 0) ?s = (cc_token ccfg, n, 0)"
      using 5 n control_ack_roundtrip [of n 0 "cfg_token scfg"] by (simp add: decodeControlAck_def probe_signal_def)
    then show ?thesis using 5 n assms(4) conn [of n "EncodeControlAck (cfg_token scfg) n 0" 0]
      by (simp add: admitControlChannel_def tokenMatches_def controlAck_def probe_signal_def EncodeControlAck_def poolNonceHexLen_def poolNonceBytes_def)
  qed
qed

text \<open>An instance: both outcomes of the token, on a new server.\<close>

definition rt_server :: tcpConfig where
  "rt_server = \<lparr>cfg_token = ''t'', cfg_channelSize = 8, cfg_stealth = False, cfg_numCPU = 2\<rparr>"

definition rt_client :: clientConfig where
  "rt_client = \<lparr>cc_token = ''t'', cc_stealth = False, cc_poolSize = 8, cc_aggressive = False\<rparr>"

definition rt_nonce :: string where "rt_nonce = replicate poolNonceHexLen CHR ''a''"

definition rt_dialling :: client where "rt_dialling = NewTCPClient (NewEndpoints ''h'' [])"

lemma rt_current: "Current (cl_endpoints rt_dialling) = Some ''h''"
  by (simp add: rt_dialling_def NewTCPClient_def NewEndpoints_def ep_add_def Let_def Current_def trim_space_solid solid_def index_at_def)

theorem reverse_handshake_decides_witness:
  "snd (snd (reverse_handshake rt_server rt_client 0 5 (Some rt_nonce) (\<lambda>_. Some 9) rt_dialling (NewTCPServer 0 0))) = Connected \<and>
   cl_nonce (fst (snd (reverse_handshake rt_server rt_client 0 5 (Some rt_nonce) (\<lambda>_. Some 9) rt_dialling (NewTCPServer 0 0)))) = rt_nonce"
proof -
  obtain v c r where h: "reverse_handshake rt_server rt_client 0 5 (Some rt_nonce) (\<lambda>_. Some 9) rt_dialling (NewTCPServer 0 0) = (v, c, r)"
    using prod_cases3 by blast
  have "\<not> lp_legacy (cl_probe rt_dialling)" by (simp add: rt_dialling_def NewTCPClient_def new_probe_def)
  then show ?thesis using reverse_handshake_decides [OF rt_current _ _ _ _ h, where k = 9] h
    by (simp add: rt_server_def rt_client_def rt_nonce_def NewTCPServer_def)
qed

section \<open>A user is served\<close>

text \<open>
  The whole way: the handshake, the offer and its acceptance, a pool connection and its announcement, a user (or the first
  datagram of one) on a forwarded port, a worker that takes it and pairs it, and the client reading the target.
\<close>

definition read_msg :: "bytes \<Rightarrow> (string \<times> byte) option" where
  "read_msg stream = map_option fst (ReceiveBinaryTransportString stream)"

definition serve_user ::
    "tcpConfig \<Rightarrow> clientConfig \<Rightarrow> (nat \<Rightarrow> string option) \<Rightarrow> (string \<Rightarrow> nat option) \<Rightarrow> string \<Rightarrow> nat \<times> nat \<Rightarrow> event \<Rightarrow> int \<Rightarrow> client \<Rightarrow> server \<Rightarrow> server \<times> destination option" where
  "serve_user scfg ccfg addr dial nonce conns user now c v =
     (let (v, acts) = step scfg addr (Ev_announced 0 (read_msg (client_hello ccfg c)) (Some nonce) True)
            (run scfg addr [Ev_open 0 (fst conns) True] v);
          (c, _, _) = channelDialer ccfg dial True True True (answer_from (sent_to (fst conns) acts)) c;
          v = run scfg addr [Ev_offer 0, Ev_handshake 0 False, Ev_open 0 (snd conns) True] v;
          (c, announced, _) = tunnelDialer_open ccfg dial True True c;
          (v, acts) = step scfg addr (Ev_loop 0 0 (L_pair True) now)
            (run scfg addr [Ev_announced 0 (read_msg announced) None True, user, Ev_loop 0 0 L_take now] v)
      in (v, snd (tunnelDialer (sent_to (snd conns) acts) c)))"

lemma first_slot: "snd (lim_acquire (newLimiter mc bw))"
  by (auto simp: newLimiter_def lim_acquire_def Let_def)

lemma new_endpoint: "\<exists>a. Current (NewEndpoints p fs) = Some a \<and> Next (NewEndpoints p fs) = (NewEndpoints p fs, Some a)"
  by (auto simp: NewEndpoints_def Current_def Next_def index_at_def)

lemma reads_back: "length m < 65536 \<Longrightarrow> read_msg (SendBinaryTransportString m s) = Some (m, s)"
  using receive_transport_string [of m s "[]"] by (simp add: read_msg_def)

lemma target_dialled:
  assumes "SplitUDPTarget t = (t, False)" "ResolveRemoteAddr t = Some (p, r)" "length t < 65000"
  shows "snd (tunnelDialer (SendBinaryTransportString t SG_TCP) c) = Some (ToTCP r p)"
    "snd (tunnelDialer (SendBinaryTransportString (MarkUDP t) SG_TCP) c) = Some (ToUDP r p)"
proof -
  show "snd (tunnelDialer (SendBinaryTransportString t SG_TCP) c) = Some (ToTCP r p)"
    using assms receive_transport_string [of t SG_TCP "[]"] by (simp add: tunnelDialer_def dialForwardedUDP_def)
  have "length (MarkUDP t) < 65536" using assms(3) by (simp add: MarkUDP_def udpScheme_def)
  then show "snd (tunnelDialer (SendBinaryTransportString (MarkUDP t) SG_TCP) c) = Some (ToUDP r p)"
    using assms receive_transport_string [of "MarkUDP t" SG_TCP "[]"]
    by (simp add: tunnelDialer_def dialForwardedUDP_def split_mark)
qed

text \<open>The two halves of the way: the pool connection is in, and the user is paired.\<close>

definition with_pool :: "tcpConfig \<Rightarrow> string \<Rightarrow> nat \<times> nat \<Rightarrow> server \<Rightarrow> server" where
  "with_pool scfg nonce conns v =
     v\<lparr>v_control := Some (fst conns), v_nonce := nonce,
       v_gens := [new_gen\<lparr>g_phase := Serving, g_handler := True, g_workers := replicate (min 4 (cfg_numCPU scfg)) Idle, g_tunnel := [snd conns]\<rparr>]\<rparr>"

lemma pool_joins:
  assumes "cc_token ccfg = cfg_token scfg" "length (cfg_token scfg) < 65000" "length nonce = poolNonceHexLen"
    "0 < cfg_channelSize scfg" "\<And>a. dial a \<noteq> None"
    "c0 = NewTCPClient (NewEndpoints primary fallbacks)" "v0 = NewTCPServer mc bw"
    "(v1, acts) = step scfg addr (Ev_announced 0 (read_msg (client_hello ccfg c0)) (Some nonce) True) (run scfg addr [Ev_open 0 (fst conns) True] v0)"
    "(c1, x, r1) = channelDialer ccfg dial True True True (answer_from (sent_to (fst conns) acts)) c0"
    "(c2, announced, r2) = tunnelDialer_open ccfg dial True True c1"
  shows "run scfg addr [Ev_announced 0 (read_msg announced) None True]
      (run scfg addr [Ev_offer 0, Ev_handshake 0 False, Ev_open 0 (snd conns) True] v1) = with_pool scfg nonce conns v0"
proof -
  obtain a k where a: "Current (NewEndpoints primary fallbacks) = Some a" "Next (NewEndpoints primary fallbacks) = (NewEndpoints primary fallbacks, Some a)"
    and k: "dial a = Some k" using new_endpoint assms(5) by (metis not_None_eq)
  have ne: "nonce \<noteq> []" using assms(3) by (auto simp: poolNonceHexLen_def poolNonceBytes_def)
  have hello: "client_hello ccfg c0 = SendBinaryTransportString (cfg_token scfg) SG_ChanV2"
    using a assms(1,6) by (simp add: client_hello_eq NewTCPClient_def new_probe_def probe_signal_def)
  let ?ack = "EncodeControlAck (cfg_token scfg) nonce 0"
  have ack: "length ?ack < 65536" using assms(2,3) by (simp add: EncodeControlAck_def poolNonceHexLen_def poolNonceBytes_def)
  have one: "v1 = v0\<lparr>v_claims := [(0, \<lparr>cc_conn = fst conns, cc_nonce = nonce\<rparr>)]\<rparr>" "acts = [SendMsg (fst conns) ?ack SG_ChanV2]"
    using assms(2,7,8) by (simp_all add: hello reads_back NewTCPServer_def admit_open_def admit_announced_def isControlSignal_def
        admitControlChannel_def tokenMatches_def controlAck_def remove_at_def)
  have dec: "decodeControlAck ?ack SG_ChanV2 = (cc_token ccfg, nonce, 0)"
    using control_ack_roundtrip [OF assms(3), of 0] assms(1) by (simp add: decodeControlAck_def)
  have cur: "Current (cl_endpoints c0) = Some a" using a(1) assms(6) by (simp add: NewTCPClient_def)
  have two: "cl_nonce c1 = nonce" "cl_endpoints c1 = NewEndpoints primary fallbacks"
    using assms(6,9) dialer_outcome [where ccfg = ccfg and dial = dial and c = c0, OF cur k] ack dec
    by (simp_all add: one answer_from_message refusalReason_def signal_defs poolMaintainer_start_def NewTCPClient_def)
  have "announced = SendBinaryTransportString nonce SG_Pool"
    using assms(10) a k ne by (simp add: tunnelDialer_open_def two announcePoolConn_def)
  then have ann: "read_msg announced = Some (nonce, SG_Pool)"
    using assms(3) by (simp add: reads_back poolNonceHexLen_def poolNonceBytes_def)
  show ?thesis unfolding one ann
    using assms(4,7) ne
    by (simp add: with_pool_def NewTCPServer_def new_gen_def remove_at_def offer_candidate_def upd_gen_def channelHandshake_def
        start_rest_def Let_def admit_open_def admit_announced_def isControlSignal_def signal_defs nonce_Verify_def deliverTunnelConn_def)
qed

definition user_event :: "bool \<Rightarrow> nat \<Rightarrow> string \<Rightarrow> int \<Rightarrow> event" where
  "user_event udp u target now = (if udp then Ev_flow 0 u (MarkUDP target) now else Ev_local 0 u target now)"

lemma user_paired:
  assumes "0 < cfg_channelSize scfg" "0 < cfg_numCPU scfg" "v = with_pool scfg nonce conns (NewTCPServer mc bw)"
    "(v', acts) = step scfg addr (Ev_loop 0 0 (L_pair True) now) (run scfg addr [user_event udp u target now, Ev_loop 0 0 L_take now] v)"
  shows "acts = [SendMsg (snd conns) (if udp then MarkUDP target else target) SG_TCP] \<and> map (\<lambda>(i, l, t). (lc_conn l, t)) (v_transfers v') = [(u, snd conns)]"
proof -
  obtain lim where l: "lim_acquire (newLimiter mc bw) = (lim, True)" using first_slot prod.collapse by metis
  obtain n where n: "min 4 (cfg_numCPU scfg) = Suc n" using assms(2) by (cases "min 4 (cfg_numCPU scfg)") auto
  show ?thesis
  proof (cases udp)
    case True
    then show ?thesis using assms(1,3,4) l
      by (simp add: user_event_def with_pool_def NewTCPServer_def new_gen_def n udpAdmitter_def upd_gen_def handleLoop_def
          loop_head_def set_worker_def Let_def)
  next
    case False
    then show ?thesis using assms(1,3,4) l
      by (simp add: user_event_def with_pool_def NewTCPServer_def new_gen_def n acceptLocalConn_def upd_gen_def handleLoop_def
          loop_head_def set_worker_def Let_def)
  qed
qed



end
