(* ===== verification/UdpFlow.thy ===== *)
theory UdpFlow
  imports Framing "HOL-Library.AList"
begin

text \<open>
  Forwarded UDP on the server of a reverse tunnel (\<open>internal/server/transport/udpforward.go\<close>): the flows of one port,
  each dressed as a byte stream, and the far end's two copying loops (\<open>internal/client/transport/udpforward.go\<close>). Flows
  are objects in a heap, the table holds references. The clock, whether a send succeeds, whether the transport
  admits a flow, and what \<open>select\<close> picks when two cases are ready are arguments.
\<close>

section \<open>One flow\<close>

definition udpIdleTimeout :: int where "udpIdleTimeout = 60 * 1000000000"
definition udpFlowQueue :: nat where "udpFlowQueue = 256"

record udpFlow =
  f_peer :: string
  f_in :: "bytes list"
  f_done :: bool
  f_lastSeen :: int
  f_pending :: bytes
  f_hdr :: bytes
  f_hdrN :: nat
  f_body :: bytes
  f_want :: nat

definition newUDPFlow :: "string \<Rightarrow> int \<Rightarrow> udpFlow" where
  "newUDPFlow peer now = \<lparr>f_peer = peer, f_in = [], f_done = False, f_lastSeen = now, f_pending = [],
     f_hdr = [0, 0], f_hdrN = 0, f_body = [], f_want = 0\<rparr>"

text \<open>On a closed flow with room both cases of the \<open>select\<close> are ready; \<open>queue\<close> is the pick.\<close>

definition deliver :: "bool \<Rightarrow> int \<Rightarrow> bytes \<Rightarrow> udpFlow \<Rightarrow> udpFlow" where
  "deliver queue now payload f =
     (if length (f_in f) < udpFlowQueue \<and> (\<not> f_done f \<or> queue)
      then f\<lparr>f_in := f_in f @ [payload], f_lastSeen := now\<rparr> else f)"

definition flow_frame :: "bytes \<Rightarrow> bytes" where
  "flow_frame payload = [word_of_nat (length payload div 256), word_of_nat (length payload)] @ payload"

text \<open>A read with a buffer of \<open>cap\<close> bytes. It blocks while the flow is open and nothing is queued; a closed flow is
  drained before its end is reported.\<close>

datatype flow_read = Blocks | Eof | Got bytes

definition flow_Read :: "nat \<Rightarrow> int \<Rightarrow> udpFlow \<Rightarrow> flow_read \<times> udpFlow" where
  "flow_Read cap now f =
     (let take_out = (\<lambda>f. (Got (take cap (f_pending f)), f\<lparr>f_pending := drop cap (f_pending f), f_lastSeen := now\<rparr>)) in
      if f_pending f \<noteq> [] then take_out f
      else case f_in f of
             payload # rest \<Rightarrow> take_out (f\<lparr>f_in := rest, f_pending := flow_frame payload\<rparr>)
           | [] \<Rightarrow> if f_done f then (Eof, f) else (Blocks, f))"

datatype write_end = Wrote nat | WriteClosed nat | SendFailed nat

text \<open>
  The loop of \<open>Write\<close> on what is left of the chunk; \<open>whole\<close> is the length of the whole chunk, \<open>sent\<close> what has gone out.
  A body longer than announced would loop for ever, so whether the loop returns is a matter of proof.
\<close>

definition take_hdr :: "bytes \<Rightarrow> udpFlow \<Rightarrow> udpFlow" where
  "take_hdr p f = (let n = min (2 - f_hdrN f) (length p) in
     f\<lparr>f_hdr := copy_at (f_hdrN f) (take n p) (f_hdr f), f_hdrN := f_hdrN f + n\<rparr>)"

definition hdr_want :: "udpFlow \<Rightarrow> nat" where
  "hdr_want f = unat (f_hdr f ! 0) * 256 + unat (f_hdr f ! 1)"

definition take_body :: "bytes \<Rightarrow> udpFlow \<Rightarrow> udpFlow" where
  "take_body p f = f\<lparr>f_body := f_body f @ take (min (f_want f - length (f_body f)) (length p)) p\<rparr>"

partial_function (option) write_loop ::
    "(bytes \<Rightarrow> bool) \<Rightarrow> int \<Rightarrow> nat \<Rightarrow> bytes \<Rightarrow> bytes list \<Rightarrow> udpFlow \<Rightarrow> (bytes list \<times> udpFlow \<times> write_end) option" where
  "write_loop send now whole p sent f =
     (if p = [] then Some (sent, f, Wrote whole)
      else if f_done f then Some (sent, f, WriteClosed (whole - length p))
      else if f_hdrN f < 2 then
        (let p' = drop (2 - f_hdrN f) p; f1 = take_hdr p f in
         if f_hdrN f1 < 2 then Some (sent, f1, Wrote whole)
         else let f2 = f1\<lparr>f_want := hdr_want f1, f_body := []\<rparr> in
              if f_want f2 \<noteq> 0 then write_loop send now whole p' sent f2
              else if send [] then write_loop send now whole p' (sent @ [[]]) (f2\<lparr>f_lastSeen := now, f_hdrN := 0\<rparr>)
              else Some (sent, f2, SendFailed (whole - length p')))
      else
        (let p' = drop (f_want f - length (f_body f)) p; f1 = take_body p f in
         if length (f_body f1) \<noteq> f_want f1 then write_loop send now whole p' sent f1
         else if send (f_body f1)
         then write_loop send now whole p' (sent @ [f_body f1]) (f1\<lparr>f_lastSeen := now, f_hdrN := 0, f_want := 0, f_body := []\<rparr>)
         else Some (sent, f1, SendFailed (whole - length p'))))"

declare write_loop.simps [code]

definition flow_Write :: "(bytes \<Rightarrow> bool) \<Rightarrow> int \<Rightarrow> bytes \<Rightarrow> udpFlow \<Rightarrow> (bytes list \<times> udpFlow \<times> write_end) option" where
  "flow_Write send now p f = write_loop send now (length p) p [] f"

section \<open>The flows of a port\<close>

record udpForwarder =
  u_heap :: "udpFlow list"
  u_flows :: "(string \<times> nat) list"
  u_closed :: bool

definition newUDPForwarder :: udpForwarder where
  "newUDPForwarder = \<lparr>u_heap = [], u_flows = [], u_closed = False\<rparr>"

definition forget :: "string \<Rightarrow> nat \<Rightarrow> udpForwarder \<Rightarrow> udpForwarder" where
  "forget key r u = (if map_of (u_flows u) key = Some r then u\<lparr>u_flows := AList.delete key (u_flows u)\<rparr> else u)"

definition flow_Close :: "nat \<Rightarrow> udpForwarder \<Rightarrow> udpForwarder" where
  "flow_Close r u =
     (let f = u_heap u ! r in
      if f_done f then u else forget (f_peer f) r (u\<lparr>u_heap := (u_heap u)[r := f\<lparr>f_done := True\<rparr>]\<rparr>))"

text \<open>One datagram of \<open>run\<close>: the flow it went to (\<open>None\<close> while shutting down) and whether a new flow was offered.\<close>

definition run_datagram :: "bool \<Rightarrow> bool \<Rightarrow> int \<Rightarrow> string \<Rightarrow> bytes \<Rightarrow> udpForwarder \<Rightarrow> udpForwarder \<times> nat option \<times> bool" where
  "run_datagram admit queue now key payload u =
     (case map_of (u_flows u) key of
        Some r \<Rightarrow> (u\<lparr>u_heap := (u_heap u)[r := deliver queue now payload (u_heap u ! r)]\<rparr>, Some r, False)
      | None \<Rightarrow>
          if u_closed u then (u, None, False)
          else let r = length (u_heap u);
                   u = u\<lparr>u_heap := u_heap u @ [deliver queue now payload (newUDPFlow key now)],
                         u_flows := AList.update key r (u_flows u)\<rparr>
               in (if admit then u else flow_Close r u, Some r, True))"

definition reap :: "int \<Rightarrow> udpForwarder \<Rightarrow> udpForwarder" where
  "reap now u =
     (let stale = filter (\<lambda>r. f_lastSeen (u_heap u ! r) < now - udpIdleTimeout) (map snd (u_flows u))
      in fold flow_Close stale u)"

definition forwarder_close :: "udpForwarder \<Rightarrow> udpForwarder" where
  "forwarder_close u = (let u = u\<lparr>u_closed := True\<rparr> in fold flow_Close (map snd (u_flows u)) u)"

section \<open>The far end\<close>

text \<open>\<open>tunnelToBackend\<close> over a stream that ends: what the backend is sent until a read or a write fails.\<close>

function tunnelToBackend :: "(bytes \<Rightarrow> bool) \<Rightarrow> bytes \<Rightarrow> bytes list" where
  "tunnelToBackend write stream =
     (case ReadDatagram MaxDatagram stream of
        (Inl _, _) \<Rightarrow> []
      | (Inr d, rest) \<Rightarrow> if length stream \<le> length rest \<or> \<not> write d then [] else d # tunnelToBackend write rest)"
  by pat_completeness auto
termination by (relation "measure (\<lambda>(_, s). length s)") auto

declare tunnelToBackend.simps [simp del]

fun backendToTunnel :: "(bytes \<Rightarrow> bool) \<Rightarrow> bytes list \<Rightarrow> bytes list" where
  "backendToTunnel write [] = []"
| "backendToTunnel write (d # ds) =
     (case WriteDatagram d of
        Inl _ \<Rightarrow> []
      | Inr f \<Rightarrow> if write f then f # backendToTunnel write ds else [])"

definition firstUDPBackend :: "string \<Rightarrow> string" where
  "firstUDPBackend addr = takeWhile (\<lambda>c. c \<noteq> CHR ''|'') addr"

section \<open>Reassembly is independent of how the bytes arrive\<close>

text \<open>The reference: one byte at a time, a datagram goes out when its frame is complete.\<close>

definition complete :: "bytes \<Rightarrow> bool" where
  "complete a \<longleftrightarrow> 2 \<le> length a \<and> length a = 2 + be_nat (take 2 a)"

fun feeds :: "bytes \<Rightarrow> bytes \<Rightarrow> bytes list \<times> bytes" where
  "feeds acc [] = ([], acc)"
| "feeds acc (b # p) =
     (if complete (acc @ [b]) then let (s, r) = feeds [] p in (drop 2 (acc @ [b]) # s, r) else feeds (acc @ [b]) p)"

lemma feeds_append: "feeds acc (p @ q) = (fst (feeds acc p) @ fst (feeds (snd (feeds acc p)) q), snd (feeds (snd (feeds acc p)) q))"
  by (induction acc p rule: feeds.induct) (auto simp: Let_def split: prod.split)

lemma feeds_none: "(\<And>k. 0 < k \<Longrightarrow> k \<le> length p \<Longrightarrow> \<not> complete (acc @ take k p)) \<Longrightarrow> feeds acc p = ([], acc @ p)"
proof (induction p arbitrary: acc)
  case (Cons b p)
  have "\<not> complete (acc @ [b])" using Cons.prems [of 1] by simp
  moreover have "feeds (acc @ [b]) p = ([], (acc @ [b]) @ p)"
  proof (rule Cons.IH)
    fix k assume "0 < k" "k \<le> length p"
    then show "\<not> complete ((acc @ [b]) @ take k p)" using Cons.prems [of "Suc k"] by simp
  qed
  ultimately show ?case by simp
qed simp

lemma feeds_last:
  assumes "\<And>k. 0 < k \<Longrightarrow> k < length h \<Longrightarrow> \<not> complete (acc @ take k h)" "complete (acc @ h)" "h \<noteq> []"
  shows "feeds acc h = ([drop 2 (acc @ h)], [])"
proof -
  obtain h' b where h: "h = h' @ [b]" using assms(3) by (cases h rule: rev_cases) auto
  have "\<not> complete (acc @ take k h')" if "0 < k" "k \<le> length h'" for k using assms(1) [of k] that h by simp
  then have "feeds acc h' = ([], acc @ h')" by (rule feeds_none)
  then show ?thesis using assms(2) unfolding h by (simp add: feeds_append)
qed

text \<open>The frame under way, out of the pieces a flow keeps it in.\<close>

definition under_way :: "udpFlow \<Rightarrow> bytes" where
  "under_way f = take (f_hdrN f) (f_hdr f) @ (if f_hdrN f = 2 then f_body f else [])"

definition flow_ok :: "udpFlow \<Rightarrow> bool" where
  "flow_ok f \<longleftrightarrow> length (f_hdr f) = 2 \<and> f_hdrN f \<le> 2 \<and>
     (f_hdrN f = 2 \<longrightarrow> f_want f = be_nat (f_hdr f) \<and> length (f_body f) < f_want f)"

lemma be_nat_two: "be_nat [a, b] = unat a * 256 + unat b"
  by (simp add: be_nat_def)

lemma hdr_want_eq: "length (f_hdr f) = 2 \<Longrightarrow> hdr_want f = be_nat (f_hdr f)"
  by (auto simp: hdr_want_def be_nat_two numeral_2_eq_2 length_Suc_conv)

lemma take_hdr_eq:
  assumes "flow_ok f" "f_hdrN f < 2"
  shows "f_hdrN (take_hdr p f) = min 2 (f_hdrN f + length p)" "length (f_hdr (take_hdr p f)) = 2"
    "take (f_hdrN (take_hdr p f)) (f_hdr (take_hdr p f)) = take (f_hdrN f) (f_hdr f) @ take (2 - f_hdrN f) p"
  using assms by (auto simp: take_hdr_def flow_ok_def Let_def copy_at_def min_def)

lemma complete_short: "length a < 2 \<Longrightarrow> \<not> complete a"
  by (simp add: complete_def)

lemma complete_frame: "length H = 2 \<Longrightarrow> complete (H @ b) \<longleftrightarrow> length b = be_nat H"
  by (auto simp: complete_def)

lemma feeds_header:
  assumes "length acc + length h = 2" "h \<noteq> []"
  shows "feeds acc h = (if be_nat (acc @ h) = 0 then ([[]], []) else ([], acc @ h))"
proof -
  have n: "\<not> complete (acc @ take k h)" if "k < length h" for k using that assms by (intro complete_short) simp
  have c: "complete (acc @ h) \<longleftrightarrow> be_nat (acc @ h) = 0" using assms complete_frame [of "acc @ h" "[]"] by auto
  show ?thesis
  proof (cases "be_nat (acc @ h) = 0")
    case True
    then have "feeds acc h = ([drop 2 (acc @ h)], [])" using n c assms(2) by (intro feeds_last) auto
    then show ?thesis using True assms(1) by simp
  next
    case False
    then show ?thesis using n c by (subst feeds_none) (auto simp: le_less)
  qed
qed

lemma feeds_body:
  assumes "length H = 2" "length b < be_nat H" "length b + length h \<le> be_nat H" "h \<noteq> []"
  shows "feeds (H @ b) h = (if length b + length h = be_nat H then ([b @ h], []) else ([], H @ b @ h))"
proof -
  have n: "complete ((H @ b) @ take k h) \<longleftrightarrow> length b + min k (length h) = be_nat H" for k
    using complete_frame [OF assms(1), of "b @ take k h"] by (simp add: min.commute)
  show ?thesis
  proof (cases "length b + length h = be_nat H")
    case True
    then have "feeds (H @ b) h = ([drop 2 ((H @ b) @ h)], [])"
      using n [of "length h"] n assms(4) by (intro feeds_last) auto
    then show ?thesis using True assms(1) by simp
  next
    case False
    then have "feeds (H @ b) h = ([], (H @ b) @ h)" using n assms(3) by (intro feeds_none) (auto simp: min_def)
    then show ?thesis using False by simp
  qed
qed

text \<open>A chunk on an open flow whose sends succeed: the loop returns, and does what the reference does.\<close>

lemma write_loop_feeds:
  assumes "flow_ok f" "\<not> f_done f" "\<And>x. send x"
  shows "\<exists>f'. write_loop send now whole p sent f = Some (sent @ fst (feeds (under_way f) p), f', Wrote whole) \<and>
    flow_ok f' \<and> \<not> f_done f' \<and> under_way f' = snd (feeds (under_way f) p)"
  using assms(1,2)
proof (induction "length p" arbitrary: p sent f rule: less_induct)
  case less
  note ok = less.prems(1)
  consider (empty) "p = []" | (hdr) "p \<noteq> []" "f_hdrN f < 2" | (body) "p \<noteq> []" "f_hdrN f = 2"
    using ok by (fastforce simp: flow_ok_def)
  then show ?case
  proof cases
    case empty
    then show ?thesis using less.prems by (simp add: write_loop.simps)
  next
    case hdr
    let ?n = "2 - f_hdrN f" and ?f1 = "take_hdr p f"
    note t = take_hdr_eq [OF ok hdr(2), of p]
    have u: "under_way f = take (f_hdrN f) (f_hdr f)" "length (under_way f) = f_hdrN f" using hdr ok by (auto simp: under_way_def flow_ok_def)
    have d: "\<not> f_done ?f1" using less.prems(2) by (simp add: take_hdr_def Let_def)
    show ?thesis
    proof (cases "f_hdrN ?f1 < 2")
      case True
      then have l: "f_hdrN f + length p < 2" "take ?n p = p" using t(1) by auto
      have "feeds (under_way f) p = ([], under_way f @ p)" using l u by (intro feeds_none complete_short) auto
      moreover have "flow_ok ?f1" "under_way ?f1 = under_way f @ p" using t True l u by (auto simp: flow_ok_def under_way_def)
      moreover have "write_loop send now whole p sent f = Some (sent, ?f1, Wrote whole)"
        using hdr less.prems(2) True by (subst write_loop.simps) (simp add: Let_def)
      ultimately show ?thesis using d by simp
    next
      case False
      define h p' where "h = take ?n p" "p' = drop ?n p"
      have l: "length h = ?n" "f_hdrN ?f1 = 2" using t(1) False hdr(2) by (auto simp: h_p'_def)
      have p: "p = h @ p'" "h \<noteq> []" "length p' < length p" using l hdr by (auto simp: h_p'_def)
      have H: "f_hdr ?f1 = under_way f @ h" using t(2,3) l(2) u(1) by (simp add: h_p'_def)
      let ?f2 = "?f1\<lparr>f_want := hdr_want ?f1, f_body := []\<rparr>"
      have w: "hdr_want ?f1 = be_nat (under_way f @ h)" using hdr_want_eq [OF t(2)] H by simp
      have fh: "feeds (under_way f) h = (if be_nat (under_way f @ h) = 0 then ([[]], []) else ([], under_way f @ h))"
        using u(2) l(1) hdr(2) p(2) by (intro feeds_header) auto
      show ?thesis
      proof (cases "be_nat (under_way f @ h) = 0")
        case True
        let ?f3 = "?f2\<lparr>f_lastSeen := now, f_hdrN := 0\<rparr>"
        have "write_loop send now whole p sent f = write_loop send now whole p' (sent @ [[]]) ?f3"
          using hdr less.prems(2) False w True assms(3) by (subst write_loop.simps) (simp add: Let_def h_p'_def)
        moreover have "flow_ok ?f3" "\<not> f_done ?f3" "under_way ?f3 = []" using t(2) d by (simp_all add: flow_ok_def under_way_def)
        ultimately show ?thesis using less.hyps [OF p(3), of ?f3 "sent @ [[]]"] fh True unfolding p(1) feeds_append by simp
      next
        case nz: False
        have "write_loop send now whole p sent f = write_loop send now whole p' sent ?f2"
          using hdr less.prems(2) False w nz by (subst write_loop.simps) (simp add: Let_def h_p'_def)
        moreover have "under_way ?f2 = f_hdr ?f1" using t(2) l(2) by (simp add: under_way_def)
        moreover have "flow_ok ?f2" "\<not> f_done ?f2" using t(2) d l(2) w H nz by (simp_all add: flow_ok_def)
        ultimately show ?thesis using less.hyps [OF p(3), of ?f2 sent] fh nz H unfolding p(1) feeds_append by simp
      qed
    qed
  next
    case body
    let ?need = "f_want f - length (f_body f)" and ?f1 = "take_body p f"
    define h p' where "h = take ?need p" "p' = drop ?need p"
    have b: "f_want f = be_nat (f_hdr f)" "length (f_body f) < f_want f" "length (f_hdr f) = 2" using ok body by (auto simp: flow_ok_def)
    have p12: "p = h @ p'" "h \<noteq> []" using b body by (auto simp: h_p'_def)
    then have "length p' < length p" by (metis length_append length_greater_0_conv less_add_same_cancel2)
    note p = p12 this
    have u: "under_way f = f_hdr f @ f_body f" using body b by (simp add: under_way_def)
    have lh: "length h \<le> f_want f - length (f_body f)" by (simp add: h_p'_def)
    have f1: "?f1 = f\<lparr>f_body := f_body f @ h\<rparr>" by (simp add: take_body_def h_p'_def min_def)
    have fb: "feeds (under_way f) h = (if length (f_body f) + length h = f_want f then ([f_body f @ h], []) else ([], under_way f @ h))"
      unfolding u b(1) using b p(2) by (subst feeds_body) (auto simp: h_p'_def)
    show ?thesis
    proof (cases "length (f_body f) + length h = f_want f")
      case True
      let ?f3 = "?f1\<lparr>f_lastSeen := now, f_hdrN := 0, f_want := 0, f_body := []\<rparr>"
      have "write_loop send now whole p sent f = write_loop send now whole p' (sent @ [f_body f @ h]) ?f3"
        using body less.prems(2) True f1 assms(3) by (subst write_loop.simps) (simp add: Let_def h_p'_def)
      moreover have "flow_ok ?f3" "\<not> f_done ?f3" "under_way ?f3 = []" using b less.prems(2) f1 by (simp_all add: flow_ok_def under_way_def)
      ultimately show ?thesis using less.hyps [OF p(3), of ?f3 "sent @ [f_body f @ h]"] fb True unfolding p(1) feeds_append by simp
    next
      case False
      have "write_loop send now whole p sent f = write_loop send now whole p' sent ?f1"
        using body less.prems(2) False f1 by (subst write_loop.simps) (simp add: Let_def h_p'_def)
      moreover have "flow_ok ?f1" "\<not> f_done ?f1" "under_way ?f1 = under_way f @ h"
        using b body False less.prems(2) f1 u lh by (auto simp: flow_ok_def under_way_def)
      ultimately show ?thesis using less.hyps [OF p(3), of ?f1 sent] fb False unfolding p(1) feeds_append by simp
    qed
  qed
qed

section \<open>Both directions of a flow\<close>

text \<open>Chunks written one after the other, and reads with buffers of the given sizes.\<close>

fun writes :: "(bytes \<Rightarrow> bool) \<Rightarrow> int \<Rightarrow> bytes list \<Rightarrow> udpFlow \<Rightarrow> (bytes list \<times> udpFlow) option" where
  "writes send now [] f = Some ([], f)"
| "writes send now (c # cs) f =
     (case flow_Write send now c f of
        Some (sent, f', Wrote n) \<Rightarrow>
          (if n = length c then map_option (\<lambda>(more, f''). (sent @ more, f'')) (writes send now cs f') else None)
      | _ \<Rightarrow> None)"

lemma writes_feed:
  assumes "flow_ok f" "\<not> f_done f" "\<And>x. send x"
  shows "\<exists>f'. writes send now cs f = Some (fst (feeds (under_way f) (concat cs)), f') \<and> under_way f' = snd (feeds (under_way f) (concat cs))"
  using assms(1,2)
proof (induction cs arbitrary: f)
  case (Cons c cs)
  obtain f1 where f1: "flow_Write send now c f = Some (fst (feeds (under_way f) c), f1, Wrote (length c))" "flow_ok f1" "\<not> f_done f1"
    "under_way f1 = snd (feeds (under_way f) c)"
    using write_loop_feeds [OF Cons.prems, of send now "length c" c "[]"] assms(3) by (auto simp: flow_Write_def)
  obtain f2 where "writes send now cs f1 = Some (fst (feeds (under_way f1) (concat cs)), f2)"
    "under_way f2 = snd (feeds (under_way f1) (concat cs))" using Cons.IH [OF f1(2,3)] by blast
  then show ?case using f1(1,4) by (simp add: feeds_append)
qed simp

fun reads :: "nat list \<Rightarrow> int \<Rightarrow> udpFlow \<Rightarrow> bytes \<times> udpFlow" where
  "reads [] now f = ([], f)"
| "reads (cap # caps) now f =
     (case flow_Read cap now f of
        (Got b, f') \<Rightarrow> (let (bs, f'') = reads caps now f' in (b @ bs, f''))
      | (_, f') \<Rightarrow> ([], f'))"

definition unread :: "udpFlow \<Rightarrow> bytes" where
  "unread f = f_pending f @ concat (map flow_frame (f_in f))"

lemma flow_frame_ne [simp]: "flow_frame d \<noteq> []"
  by (simp add: flow_frame_def)

lemma flow_Read_law:
  "flow_Read cap now f = (r, f') \<Longrightarrow> (case r of Got b \<Rightarrow> unread f = b @ unread f' \<and> (0 < cap \<longrightarrow> b \<noteq> []) | _ \<Rightarrow> unread f = [] \<and> f' = f)"
  by (auto simp: flow_Read_def unread_def Let_def split: if_splits list.splits)

lemma reads_law: "reads caps now f = (bs, f') \<Longrightarrow> unread f = bs @ unread f'"
proof (induction caps arbitrary: f bs)
  case (Cons cap caps)
  obtain r f1 where r: "flow_Read cap now f = (r, f1)" by fastforce
  show ?case using Cons.prems Cons.IH flow_Read_law [OF r] r by (auto split: flow_read.splits prod.splits)
qed simp

lemma flow_frame_eq: "length d \<le> MaxDatagram \<Longrightarrow> WriteDatagram d = Inr (flow_frame d)"
proof -
  assume l: "length d \<le> MaxDatagram"
  have b: "word_of_nat (length d mod 256) = (word_of_nat (length d) :: byte)"
    by (simp add: word_unat_eq_iff unat_of_nat)
  have "unat (word_of_nat (length d) :: u16) = length d" using l by (intro unat_of_nat16) (simp add: MaxDatagram_def)
  moreover have "length d div 256 mod 256 = length d div 256" using l by (simp add: MaxDatagram_def)
  ultimately show ?thesis using l b by (simp add: WriteDatagram_def flow_frame_def be_put_def numeral_2_eq_2)
qed

lemma feeds_frame: "length d \<le> MaxDatagram \<Longrightarrow> feeds [] (flow_frame d) = ([d], [])"
proof -
  assume l: "length d \<le> MaxDatagram"
  define H :: bytes where "H = [word_of_nat (length d div 256), word_of_nat (length d)]"
  have H: "length H = 2" "be_nat H = length d"
    using l by (simp_all add: H_def be_nat_two unat_of_nat MaxDatagram_def)
  have h: "feeds [] H = (if length d = 0 then ([[]], []) else ([], H))" using feeds_header [of "[]" H] H by (simp add: H_def)
  have "flow_frame d = H @ d" by (simp add: flow_frame_def H_def)
  then show ?thesis using h feeds_body [OF H(1), of "[]" d] H by (cases d) (auto simp: feeds_append)
qed

lemma feeds_frames: "list_all (\<lambda>d. length d \<le> MaxDatagram) ds \<Longrightarrow> feeds [] (concat (map flow_frame ds)) = (ds, [])"
  by (induction ds) (simp_all add: feeds_append feeds_frame)

lemma backend_frames: "list_all (\<lambda>d. length d \<le> MaxDatagram) ds \<Longrightarrow> backendToTunnel (\<lambda>_. True) ds = map flow_frame ds"
  by (induction ds) (simp_all add: flow_frame_eq)

lemma tunnel_frames: "list_all (\<lambda>d. length d \<le> MaxDatagram) ds \<Longrightarrow> tunnelToBackend (\<lambda>_. True) (concat (map flow_frame ds)) = ds"
proof (induction ds)
  case Nil
  then show ?case by (simp add: tunnelToBackend.simps ReadDatagram_def)
next
  case (Cons d ds)
  have "WriteDatagram d = Inr (flow_frame d)" using Cons.prems flow_frame_eq by simp
  from datagram_roundtrip [OF this order_refl]
  have r: "ReadDatagram MaxDatagram (flow_frame d @ concat (map flow_frame ds)) = (Inr d, concat (map flow_frame ds))" .
  show ?case using Cons r by (simp add: tunnelToBackend.simps [of _ "flow_frame d @ concat (map flow_frame ds)"])
qed

text \<open>C25. Forwarded datagrams keep their boundaries both ways: whatever buffer sizes the relay reads a flow with, the far
  end sends the backend exactly the datagrams that were queued, in order; and however the tunnel cuts the bytes that
  carry the replies into chunks, the flow sends the user exactly the datagrams the backend answered with.\<close>

theorem forwarded_udp_keeps_datagrams:
  assumes "flow_ok f" "\<not> f_done f" "under_way f = []" "f_pending f = []" "\<And>x. send x"
    "list_all (\<lambda>d. length d \<le> MaxDatagram) (f_in f)" "reads caps now f = (bs, f')" "unread f' = []"
    "list_all (\<lambda>d. length d \<le> MaxDatagram) ds" "concat chunks = concat (backendToTunnel (\<lambda>_. True) ds)"
  shows "tunnelToBackend (\<lambda>_. True) bs = f_in f \<and> (\<exists>f''. writes send now chunks f = Some (ds, f''))"
proof
  have "bs = concat (map flow_frame (f_in f))" using reads_law [OF assms(7)] assms(4,8) by (simp add: unread_def)
  then show "tunnelToBackend (\<lambda>_. True) bs = f_in f" using tunnel_frames [OF assms(6)] by simp
  have "feeds (under_way f) (concat chunks) = (ds, [])"
    using assms(3) feeds_frames [OF assms(9)] backend_frames [OF assms(9)] assms(10) by simp
  then show "\<exists>f''. writes send now chunks f = Some (ds, f'')" using writes_feed [OF assms(1,2), of send now chunks] assms(5) by auto
qed

theorem forwarded_udp_keeps_datagrams_witness:
  "tunnelToBackend (\<lambda>_. True) (fst (reads [3, 9, 1, 9] 0 ((newUDPFlow ''p'' 0)\<lparr>f_in := [[1, 2], []]\<rparr>))) = [[1, 2], []]"
proof -
  let ?f = "(newUDPFlow ''p'' 0)\<lparr>f_in := [[1, 2], []]\<rparr>"
  have r: "reads [3, 9, 1, 9] 0 ?f = ([0, 2, 1, 2, 0, 0], ?f\<lparr>f_in := [], f_pending := []\<rparr>)"
    by (simp add: newUDPFlow_def flow_Read_def flow_frame_def)
  have "tunnelToBackend (\<lambda>_. True) [0, 2, 1, 2, 0, 0] = f_in ?f \<and> (\<exists>f''. writes (\<lambda>_. True) 0 [[0], [1, 7]] ?f = Some ([[7]], f''))"
    by (rule forwarded_udp_keeps_datagrams [OF _ _ _ _ _ _ r])
      (simp_all add: newUDPFlow_def flow_ok_def under_way_def unread_def MaxDatagram_def WriteDatagram_def be_put_def numeral_2_eq_2)
  from conjunct1 [OF this] show ?thesis by (simp only: r fst_conv) simp
qed

section \<open>The table\<close>

text \<open>Every flow in the table is open, under its own address, with a bounded queue.\<close>

definition table_ok :: "udpForwarder \<Rightarrow> bool" where
  "table_ok u \<longleftrightarrow> distinct (map fst (u_flows u)) \<and>
     (\<forall>(k, r) \<in> set (u_flows u). r < length (u_heap u) \<and> f_peer (u_heap u ! r) = k \<and> \<not> f_done (u_heap u ! r)) \<and>
     list_all (\<lambda>f. length (f_in f) \<le> udpFlowQueue) (u_heap u)"

lemma deliver_keeps [simp]: "f_peer (deliver q now p f) = f_peer f" "f_done (deliver q now p f) = f_done f"
  by (simp_all add: deliver_def)

lemma deliver_bounded: "length (f_in f) \<le> udpFlowQueue \<Longrightarrow> length (f_in (deliver q now p f)) \<le> udpFlowQueue"
  by (simp add: deliver_def)

lemma close_flows: "set (u_flows (flow_Close r u)) \<subseteq> set (u_flows u)" "length (u_heap (flow_Close r u)) = length (u_heap u)"
  by (auto simp: flow_Close_def forget_def Let_def AList.delete_eq)

lemma close_table:
  assumes "table_ok u" "r < length (u_heap u)"
  shows "table_ok (flow_Close r u) \<and> r \<notin> snd ` set (u_flows (flow_Close r u))"
proof (cases "f_done (u_heap u ! r)")
  case True
  then show ?thesis using assms by (force simp: flow_Close_def table_ok_def)
next
  case False
  let ?k = "f_peer (u_heap u ! r)" and ?u = "flow_Close r u"
  have d: "distinct (map fst (u_flows u))" and e: "\<And>k q. (k, q) \<in> set (u_flows u) \<Longrightarrow> q < length (u_heap u) \<and> f_peer (u_heap u ! q) = k \<and> \<not> f_done (u_heap u ! q)"
    using assms(1) by (auto simp: table_ok_def)
  have h: "u_heap ?u = (u_heap u)[r := (u_heap u ! r)\<lparr>f_done := True\<rparr>]" using False by (simp add: flow_Close_def forget_def Let_def)
  have fl: "u_flows ?u = (if map_of (u_flows u) ?k = Some r then AList.delete ?k (u_flows u) else u_flows u)"
    using False by (simp add: flow_Close_def forget_def Let_def)
  have out: "(k, r) \<notin> set (u_flows ?u)" for k
  proof
    assume a: "(k, r) \<in> set (u_flows ?u)"
    then have m: "(k, r) \<in> set (u_flows u)" using close_flows(1) by blast
    then have "k = ?k" "map_of (u_flows u) ?k = Some r" using e d by auto
    then show False using a fl AList.delete_notin_dom [of ?k "u_flows u"] by force
  qed
  have "distinct (map fst (u_flows ?u))" using d fl by (simp add: AList.distinct_delete)
  moreover have "q < length (u_heap ?u) \<and> f_peer (u_heap ?u ! q) = k \<and> \<not> f_done (u_heap ?u ! q)" if "(k, q) \<in> set (u_flows ?u)" for k q
  proof -
    have "q \<noteq> r" using out that by auto
    then show ?thesis using e [of k q] that close_flows(1) [of r u] h by auto
  qed
  moreover have "list_all (\<lambda>f. length (f_in f) \<le> udpFlowQueue) (u_heap ?u)"
    using assms h by (auto simp: table_ok_def list_all_length nth_list_update)
  ultimately show ?thesis using out by (auto simp: table_ok_def)
qed

lemma closes_table:
  assumes "table_ok u" "\<And>r. r \<in> set rs \<Longrightarrow> r < length (u_heap u)"
  shows "table_ok (fold flow_Close rs u) \<and> set (u_flows (fold flow_Close rs u)) \<subseteq> set (u_flows u) \<and>
    (\<forall>r \<in> set rs. r \<notin> snd ` set (u_flows (fold flow_Close rs u)))"
  using assms
proof (induction rs arbitrary: u)
  case (Cons r rs)
  have c: "table_ok (flow_Close r u)" "r \<notin> snd ` set (u_flows (flow_Close r u))" using close_table Cons.prems by simp_all
  have "table_ok (fold flow_Close rs (flow_Close r u)) \<and> set (u_flows (fold flow_Close rs (flow_Close r u))) \<subseteq> set (u_flows (flow_Close r u)) \<and>
    (\<forall>q \<in> set rs. q \<notin> snd ` set (u_flows (fold flow_Close rs (flow_Close r u))))"
    using Cons.IH [OF c(1)] Cons.prems(2) close_flows(2) by simp
  then show ?case using c(2) close_flows(1) [of r u] by auto
qed simp

text \<open>A flow the transport does not take leaves nothing behind, so that the next datagram starts afresh; a closed
  forwarder has no flows; and the table is kept by every datagram, sweep and close.\<close>

lemma run_datagram_table:
  assumes "table_ok u" "run_datagram admit queue now key payload u = (u', r, offered)"
  shows "table_ok u' \<and> (offered \<and> \<not> admit \<longrightarrow> map_of (u_flows u') key = None)"
proof (cases "map_of (u_flows u) key")
  case (Some q)
  have "q < length (u_heap u)" using map_of_SomeD [OF Some] assms(1) by (auto simp: table_ok_def)
  then show ?thesis using assms Some
    by (auto simp: run_datagram_def table_ok_def list_all_length nth_list_update deliver_bounded split: if_splits)
next
  case None
  let ?f = "deliver queue now payload (newUDPFlow key now)"
  let ?u = "u\<lparr>u_heap := u_heap u @ [?f], u_flows := AList.update key (length (u_heap u)) (u_flows u)\<rparr>"
  have k: "key \<notin> fst ` set (u_flows u)" using None by (simp add: map_of_eq_None_iff)
  note up = update_absent [OF k, of "length (u_heap u)"]
  have t: "table_ok ?u" using assms(1) k unfolding up
    by (auto simp: table_ok_def nth_append newUDPFlow_def deliver_bounded list_all_length)
  have c: "table_ok (flow_Close (length (u_heap u)) ?u)" "length (u_heap u) \<notin> snd ` set (u_flows (flow_Close (length (u_heap u)) ?u))"
    using close_table [OF t] by simp_all
  have "map_of (u_flows (flow_Close (length (u_heap u)) ?u)) key = None"
  proof (rule ccontr)
    assume "map_of (u_flows (flow_Close (length (u_heap u)) ?u)) key \<noteq> None"
    then obtain q where q: "(key, q) \<in> set (u_flows (flow_Close (length (u_heap u)) ?u))" by (auto dest: map_of_SomeD)
    then have "(key, q) \<in> set (u_flows ?u)" using close_flows(1) by blast
    then have "q = length (u_heap u)" using k unfolding up by force
    then show False using q c(2) by force
  qed
  then show ?thesis using assms None t c(1) by (auto simp: run_datagram_def Let_def split: if_splits)
qed

lemma reap_table: "table_ok u \<Longrightarrow> table_ok (reap now u)"
  unfolding reap_def Let_def by (intro conjunct1 [OF closes_table]) (auto simp: table_ok_def)

lemma close_empties: "table_ok u \<Longrightarrow> u_flows (forwarder_close u) = []"
proof -
  assume a: "table_ok u"
  let ?u = "u\<lparr>u_closed := True\<rparr>"
  have "table_ok ?u" using a by (simp add: table_ok_def)
  moreover have "\<And>r. r \<in> set (map snd (u_flows ?u)) \<Longrightarrow> r < length (u_heap ?u)" using a by (auto simp: table_ok_def)
  ultimately have "\<forall>r \<in> set (map snd (u_flows ?u)). r \<notin> snd ` set (u_flows (forwarder_close u))"
    and "set (u_flows (forwarder_close u)) \<subseteq> set (u_flows u)"
    using closes_table [of ?u "map snd (u_flows ?u)"] unfolding forwarder_close_def Let_def by simp_all
  then have "x \<notin> set (u_flows (forwarder_close u))" for x by auto
  then show ?thesis by (cases "u_flows (forwarder_close u)") auto
qed

end
