(* ===== verification/ReverseUdp.thy ===== *)
theory ReverseUdp
  imports ReversePorts ReverseServer
begin

text \<open>
  The UDP transport of the reverse tunnel (\<open>internal/server/transport/udp.go\<close>, \<open>internal/client/transport/udp.go\<close>): the
  control channel is a TCP connection, users and pool connections are source addresses of datagrams, each with a queue.

  A table maps addresses to connections, which live in a heap; a connection is its index there. Sending on a closed queue
  and closing one twice panic: \<open>None\<close>. An event is what a goroutine does from one blocking point to the next. A
  restart is one event: by the end of its pause the goroutines that look at the context are gone; the copy loops do
  not look at it and go on.
\<close>

section \<open>Tables of flows\<close>

record flow =
  fl_addr :: string
  fl_payload :: "bytes list"
  fl_closed :: bool

record 'f udpTable =
  tb_heap :: "'f list"
  tb_active :: "(string \<times> nat) list"

definition payloadQueue :: nat where "payloadQueue = 100000"

definition flow_put :: "nat \<Rightarrow> bytes \<Rightarrow> 'x flow_scheme udpTable \<Rightarrow> 'x flow_scheme udpTable option" where
  "flow_put r data tb =
     (let f = tb_heap tb ! r in
      if fl_closed f then None
      else if length (fl_payload f) < payloadQueue
      then Some (tb\<lparr>tb_heap := (tb_heap tb)[r := f\<lparr>fl_payload := fl_payload f @ [data]\<rparr>]\<rparr>)
      else Some tb)"

definition flow_new :: "'x flow_scheme \<Rightarrow> 'x flow_scheme udpTable \<Rightarrow> 'x flow_scheme udpTable" where
  "flow_new f tb = tb\<lparr>tb_heap := tb_heap tb @ [f], tb_active := AList.update (fl_addr f) (length (tb_heap tb)) (tb_active tb)\<rparr>"

definition flow_drop :: "nat \<Rightarrow> 'x flow_scheme udpTable \<Rightarrow> 'x flow_scheme udpTable option" where
  "flow_drop r tb =
     (let f = tb_heap tb ! r in
      if fl_closed f then None
      else Some (tb\<lparr>tb_heap := (tb_heap tb)[r := f\<lparr>fl_closed := True\<rparr>], tb_active := AList.delete (fl_addr f) (tb_active tb)\<rparr>))"

definition flow_take :: "nat \<Rightarrow> 'x flow_scheme udpTable \<Rightarrow> (bytes \<times> 'x flow_scheme udpTable) option" where
  "flow_take r tb =
     (case fl_payload (tb_heap tb ! r) of
        [] \<Rightarrow> None
      | d # ds \<Rightarrow> Some (d, tb\<lparr>tb_heap := (tb_heap tb)[r := (tb_heap tb ! r)\<lparr>fl_payload := ds\<rparr>]\<rparr>))"

section \<open>The server\<close>

record udpConfig =
  uc_token :: string
  uc_channelSize :: nat

record udpLocal = flow +
  ul_remote :: string
  ul_created :: int

record udpTunnel = flow +
  ut_ping :: bool
  ut_locked :: bool

record udpListener =
  ls_remote :: string
  ls_table :: "udpLocal udpTable"
  ls_chan :: "nat list"
  ls_held :: "nat option"
  ls_done :: bool

text \<open>A pair: which listener and connections it joins, and which of its two directions still runs.\<close>

record udpPair =
  pr_listener :: nat
  pr_local :: nat
  pr_tunnel :: nat
  pr_up :: bool
  pr_down :: bool

record udpServer =
  us_control :: "nat option"
  us_established :: bool
  us_table :: "udpTunnel udpTable"
  us_tunnelChan :: "nat list"
  us_req :: nat
  us_listeners :: "udpListener list"
  us_pairs :: "udpPair list"

datatype udp_out = To_tunnel string bytes | To_user nat string bytes | To_control nat bytes | Close_control nat

definition NewUDPServer :: udpServer where
  "NewUDPServer = \<lparr>us_control = None, us_established = False, us_table = \<lparr>tb_heap = [], tb_active = []\<rparr>, us_tunnelChan = [], us_req = 0,
     us_listeners = [], us_pairs = []\<rparr>"

text \<open>The next run: new channels, an empty table; the old listeners are done.\<close>

definition udp_Restart :: "udpServer \<Rightarrow> udpServer" where
  "udp_Restart s = s\<lparr>us_control := None, us_established := False, us_table := (us_table s)\<lparr>tb_active := []\<rparr>, us_tunnelChan := [], us_req := 0,
     us_listeners := map (\<lambda>l. l\<lparr>ls_done := True\<rparr>) (us_listeners s)\<rparr>"

definition validControlClaim :: "udpConfig \<Rightarrow> (string \<times> byte) option \<Rightarrow> bool \<Rightarrow> bytes \<times> bool" where
  "validControlClaim cfg claim wrote =
     (case claim of
        None \<Rightarrow> ([], False)
      | Some (msg, transport) \<Rightarrow>
          if transport \<noteq> SG_Chan then ([], False)
          else if msg \<noteq> uc_token cfg then ([], False)
          else if \<not> wrote then ([], False) else (SendBinaryTransportString (uc_token cfg) SG_Chan, True))"

text \<open>One accepted connection of \<open>channelHandshake\<close>; the flag asks for a restart.\<close>

definition udp_channelHandshake :: "udpConfig \<Rightarrow> nat \<Rightarrow> (string \<times> byte) option \<Rightarrow> bool \<Rightarrow> udpServer \<Rightarrow> udpServer \<times> udp_out list \<times> bool" where
  "udp_channelHandshake cfg conn claim wrote s =
     (let (msg, valid) = validControlClaim cfg claim wrote in
      if \<not> valid then (s, [Close_control conn], False)
      else if us_established s then (s, [To_control conn msg, Close_control conn], True)
      else (s\<lparr>us_control := Some conn, us_established := True\<rparr>, [To_control conn msg], False))"

text \<open>One round of the control loop, as in the TCP transport; the flag asks for a restart.\<close>

definition udp_channelHandler :: "bool \<Rightarrow> handler_event \<Rightarrow> bool \<Rightarrow> udpServer \<Rightarrow> udpServer \<times> udp_out list \<times> bool" where
  "udp_channelHandler over ev wrote s =
     (let send = (\<lambda>b. case us_control s of None \<Rightarrow> ([], False) | Some c \<Rightarrow> if wrote then ([To_control c (SendBinaryByte b)], True) else ([], False));
          sends = (\<lambda>b s. (s, fst (send b), \<not> snd (send b)))
      in case ev of
           H_start \<Rightarrow> sends SG_RTT s
         | H_done \<Rightarrow> if over then (s, fst (send SG_Closed), False) else (s, [], False)
         | H_request \<Rightarrow> if us_req s = 0 then (s, [], False) else sends SG_Chan (s\<lparr>us_req := us_req s - 1\<rparr>)
         | H_tick \<Rightarrow> sends SG_HB s
         | H_message b \<Rightarrow> (s, [], b = SG_Closed))"

definition localListener :: "string \<Rightarrow> udpServer \<Rightarrow> udpServer" where
  "localListener remoteAddr s = s\<lparr>us_listeners := us_listeners s @
     [\<lparr>ls_remote = remoteAddr, ls_table = \<lparr>tb_heap = [], tb_active = []\<rparr>, ls_chan = [], ls_held = None, ls_done = False\<rparr>]\<rparr>"

definition upd_listener :: "nat \<Rightarrow> (udpListener \<Rightarrow> udpListener) \<Rightarrow> udpServer \<Rightarrow> udpServer" where
  "upd_listener i f s = s\<lparr>us_listeners := (us_listeners s)[i := f (us_listeners s ! i)]\<rparr>"

text \<open>A datagram on the tunnel's socket: of a known source it is payload, of a new one it has to be the token.\<close>

definition acceptTunnelConn :: "udpConfig \<Rightarrow> string \<Rightarrow> bytes \<Rightarrow> udpServer \<Rightarrow> udpServer option" where
  "acceptTunnelConn cfg addr data s =
     (case map_of (tb_active (us_table s)) addr of
        Some r \<Rightarrow> map_option (\<lambda>tb. s\<lparr>us_table := tb\<rparr>) (flow_put r data (us_table s))
      | None \<Rightarrow>
          if bytes_str data \<noteq> uc_token cfg then Some s
          else let r = length (tb_heap (us_table s));
                   tb = flow_new \<lparr>fl_addr = addr, fl_payload = [], fl_closed = False, ut_ping = True, ut_locked = False\<rparr> (us_table s)
               in if length (us_tunnelChan s) < uc_channelSize cfg
                  then Some (s\<lparr>us_table := tb, us_tunnelChan := us_tunnelChan s @ [r]\<rparr>)
                  else map_option (\<lambda>tb. s\<lparr>us_table := tb\<rparr>) (flow_drop r tb))"

text \<open>A datagram on a forwarded port. The first of a source queues the connection and asks for a tunnel connection.\<close>

definition local_datagram :: "udpConfig \<Rightarrow> nat \<Rightarrow> string \<Rightarrow> bytes \<Rightarrow> int \<Rightarrow> udpServer \<Rightarrow> udpServer option" where
  "local_datagram cfg i addr data now s =
     (let l = us_listeners s ! i in
      case map_of (tb_active (ls_table l)) addr of
        Some r \<Rightarrow> map_option (\<lambda>tb. upd_listener i (\<lambda>l. l\<lparr>ls_table := tb\<rparr>) s) (flow_put r data (ls_table l))
      | None \<Rightarrow>
          let r = length (tb_heap (ls_table l));
              tb = flow_new \<lparr>fl_addr = addr, fl_payload = [], fl_closed = False, ul_remote = ls_remote l, ul_created = now\<rparr> (ls_table l)
          in if length (ls_chan l) < uc_channelSize cfg
             then map_option (\<lambda>tb. upd_listener i (\<lambda>l. l\<lparr>ls_table := tb, ls_chan := ls_chan l @ [r]\<rparr>)
                    (s\<lparr>us_req := (if us_req s < uc_channelSize cfg then us_req s + 1 else us_req s)\<rparr>)) (flow_put r data tb)
             else map_option (\<lambda>tb. upd_listener i (\<lambda>l. l\<lparr>ls_table := tb\<rparr>) s) (flow_drop r tb))"

text \<open>\<open>handleLoop\<close>: a connection is taken from the queue, where it may have waited too long; then it is paired.\<close>

definition udp_take :: "nat \<Rightarrow> int \<Rightarrow> udpServer \<Rightarrow> udpServer option" where
  "udp_take i now s =
     (let l = us_listeners s ! i in
      case (ls_held l, ls_chan l) of
        (None, r # rs) \<Rightarrow>
          let f = tb_heap (ls_table l) ! r; s = upd_listener i (\<lambda>l. l\<lparr>ls_chan := rs\<rparr>) s in
          if 3000 < now - ul_created f
          then if map_of (tb_active (ls_table l)) (fl_addr f) = Some r
               then map_option (\<lambda>tb. upd_listener i (\<lambda>l. l\<lparr>ls_table := tb\<rparr>) s) (flow_drop r (ls_table l)) else Some s
          else Some (upd_listener i (\<lambda>l. l\<lparr>ls_held := Some r\<rparr>) s)
      | _ \<Rightarrow> Some s)"

definition udp_pair :: "nat \<Rightarrow> bool \<Rightarrow> udpServer \<Rightarrow> (udpServer \<times> udp_out list) option" where
  "udp_pair i wrote s =
     (let l = us_listeners s ! i; heap = tb_heap (us_table s) in
      case (ls_held l, us_tunnelChan s) of
        (Some r, t # ts) \<Rightarrow>
          if \<not> ut_ping (heap ! t) then None
          else let s = s\<lparr>us_tunnelChan := ts, us_table := (us_table s)\<lparr>tb_heap := heap[t := (heap ! t)\<lparr>ut_ping := False, ut_locked := True\<rparr>]\<rparr>\<rparr> in
            if \<not> wrote then Some (s, [])
            else Some (upd_listener i (\<lambda>l. l\<lparr>ls_held := None\<rparr>)
                         (s\<lparr>us_pairs := us_pairs s @ [\<lparr>pr_listener = i, pr_local = r, pr_tunnel = t, pr_up = True, pr_down = True\<rparr>]\<rparr>),
                       [To_tunnel (fl_addr (heap ! t)) (str_bytes (ul_remote (tb_heap (ls_table l) ! r)))])
      | _ \<Rightarrow> Some (s, []))"

text \<open>
  The two directions of \<open>udpCopy\<close>: a datagram is forwarded (\<open>Forward True\<close>), the write fails, or nothing came for a
  minute. \<open>WriteToUDP\<close> writes a datagram whole or fails, so that the loop around it runs once, and not at all for
  an empty one.
\<close>

datatype copy_event = Forward bool | IdleMinute

definition udpLocalCopy :: "nat \<Rightarrow> copy_event \<Rightarrow> udpServer \<Rightarrow> udpServer \<times> udp_out list" where
  "udpLocalCopy k ev s =
     (let p = us_pairs s ! k; l = us_listeners s ! pr_listener p; dst = fl_addr (tb_heap (us_table s) ! pr_tunnel p);
          end = s\<lparr>us_pairs := (us_pairs s)[k := p\<lparr>pr_up := False\<rparr>]\<rparr> in
      if \<not> pr_up p then (s, [])
      else case (ev, flow_take (pr_local p) (ls_table l)) of
        (Forward wrote, Some (d, tb)) \<Rightarrow>
          let put = upd_listener (pr_listener p) (\<lambda>l. l\<lparr>ls_table := tb\<rparr>) in
          if d = [] then (put s, []) else if wrote then (put s, [To_tunnel dst d]) else (put end, [])
      | (IdleMinute, None) \<Rightarrow> (end, [])
      | _ \<Rightarrow> (s, []))"

definition udpTunnelCopy :: "nat \<Rightarrow> copy_event \<Rightarrow> udpServer \<Rightarrow> udpServer \<times> udp_out list" where
  "udpTunnelCopy k ev s =
     (let p = us_pairs s ! k; l = us_listeners s ! pr_listener p; dst = fl_addr (tb_heap (ls_table l) ! pr_local p);
          end = s\<lparr>us_pairs := (us_pairs s)[k := p\<lparr>pr_down := False\<rparr>]\<rparr> in
      if \<not> pr_down p then (s, [])
      else case (ev, flow_take (pr_tunnel p) (us_table s)) of
        (Forward wrote, Some (d, tb)) \<Rightarrow>
          if d = [] then (s\<lparr>us_table := tb\<rparr>, [])
          else if wrote then (s\<lparr>us_table := tb\<rparr>, [To_user (pr_listener p) dst d]) else (end\<lparr>us_table := tb\<rparr>, [])
      | (IdleMinute, None) \<Rightarrow> (end, [])
      | _ \<Rightarrow> (s, []))"

text \<open>The end of \<open>udpCopy\<close>, when both directions have returned.\<close>

definition udpCopy_end :: "nat \<Rightarrow> udpServer \<Rightarrow> udpServer option" where
  "udpCopy_end k s =
     (let p = us_pairs s ! k; l = us_listeners s ! pr_listener p in
      if pr_up p \<or> pr_down p then Some s
      else case flow_drop (pr_local p) (ls_table l) of
             None \<Rightarrow> None
           | Some ltb \<Rightarrow>
               (case flow_drop (pr_tunnel p) (us_table s) of
                  None \<Rightarrow> None
                | Some ttb \<Rightarrow> Some (upd_listener (pr_listener p) (\<lambda>l. l\<lparr>ls_table := ltb\<rparr>)
                                (s\<lparr>us_table := ttb, us_pairs := take k (us_pairs s) @ drop (k + 1) (us_pairs s)\<rparr>))))"

text \<open>A tick of \<open>keepAlive\<close> on a pool connection: a ping, unless the connection is in use.\<close>

definition udp_keepAlive :: "nat \<Rightarrow> udpServer \<Rightarrow> udp_out list" where
  "udp_keepAlive r s =
     (let f = tb_heap (us_table s) ! r in if \<not> ut_ping f \<or> ut_locked f then [] else [To_tunnel (fl_addr f) [SG_Ping]])"

section \<open>Runs\<close>

datatype udp_event =
    U_claim nat "(string \<times> byte) option" bool
  | U_handler handler_event bool
  | U_listen string
  | U_tunnel string bytes
  | U_local nat string bytes int
  | U_take nat int
  | U_pair nat bool
  | U_up nat copy_event
  | U_down nat copy_event
  | U_end nat
  | U_restart

fun udp_step :: "udpConfig \<Rightarrow> udp_event \<Rightarrow> udpServer \<Rightarrow> udpServer option" where
  "udp_step cfg (U_claim conn claim wrote) s =
     (let (s, _, restart) = udp_channelHandshake cfg conn claim wrote s in Some (if restart then udp_Restart s else s))"
| "udp_step cfg (U_handler ev wrote) s =
     (if us_established s then let (s, _, restart) = udp_channelHandler False ev wrote s in Some (if restart then udp_Restart s else s) else Some s)"
| "udp_step cfg (U_listen remoteAddr) s = Some (if us_established s then localListener remoteAddr s else s)"
| "udp_step cfg (U_tunnel addr data) s = (if us_established s then acceptTunnelConn cfg addr data s else Some s)"
| "udp_step cfg (U_local i addr data now) s =
     (if i < length (us_listeners s) \<and> \<not> ls_done (us_listeners s ! i) then local_datagram cfg i addr data now s else Some s)"
| "udp_step cfg (U_take i now) s =
     (if i < length (us_listeners s) \<and> \<not> ls_done (us_listeners s ! i) then udp_take i now s else Some s)"
| "udp_step cfg (U_pair i wrote) s =
     (if i < length (us_listeners s) \<and> \<not> ls_done (us_listeners s ! i) then map_option fst (udp_pair i wrote s) else Some s)"
| "udp_step cfg (U_up k ev) s = Some (if k < length (us_pairs s) then fst (udpLocalCopy k ev s) else s)"
| "udp_step cfg (U_down k ev) s = Some (if k < length (us_pairs s) then fst (udpTunnelCopy k ev s) else s)"
| "udp_step cfg (U_end k) s = (if k < length (us_pairs s) then udpCopy_end k s else Some s)"
| "udp_step cfg U_restart s = Some (udp_Restart s)"

fun udp_run :: "udpConfig \<Rightarrow> udp_event list \<Rightarrow> udpServer \<Rightarrow> udpServer option" where
  "udp_run cfg [] s = Some s"
| "udp_run cfg (e # es) s = (case udp_step cfg e s of None \<Rightarrow> None | Some s \<Rightarrow> udp_run cfg es s)"

section \<open>No datagram is filed where nobody reads\<close>

definition tbl_ok :: "'x flow_scheme udpTable \<Rightarrow> bool" where
  "tbl_ok tb \<longleftrightarrow> distinct (map fst (tb_active tb)) \<and>
     (\<forall>(k, r) \<in> set (tb_active tb). r < length (tb_heap tb) \<and> fl_addr (tb_heap tb ! r) = k \<and> \<not> fl_closed (tb_heap tb ! r))"

definition same_flows :: "'x flow_scheme list \<Rightarrow> 'x flow_scheme list \<Rightarrow> bool" where
  "same_flows h h' \<longleftrightarrow> length h' = length h \<and> (\<forall>q < length h. fl_addr (h' ! q) = fl_addr (h ! q) \<and> fl_closed (h' ! q) = fl_closed (h ! q))"

lemma same_flows_refl [simp]: "same_flows h h"
  by (simp add: same_flows_def)

lemma same_flows_upd: "fl_addr f = fl_addr (h ! r) \<Longrightarrow> fl_closed f = fl_closed (h ! r) \<Longrightarrow> same_flows h (h[r := f])"
  by (cases "r < length h") (simp_all add: same_flows_def nth_list_update)

lemma tbl_ok_cong: "tbl_ok tb \<Longrightarrow> tb_active tb' = tb_active tb \<Longrightarrow> same_flows (tb_heap tb) (tb_heap tb') \<Longrightarrow> tbl_ok tb'"
  by (auto simp: tbl_ok_def same_flows_def)

lemma tblD: "tbl_ok tb \<Longrightarrow> (k, r) \<in> set (tb_active tb) \<Longrightarrow> r < length (tb_heap tb) \<and> fl_addr (tb_heap tb ! r) = k \<and> \<not> fl_closed (tb_heap tb ! r)"
  by (auto simp: tbl_ok_def)

lemma tblI:
  assumes "distinct (map fst (tb_active tb))"
    "\<And>k r. (k, r) \<in> set (tb_active tb) \<Longrightarrow> r < length (tb_heap tb) \<and> fl_addr (tb_heap tb ! r) = k \<and> \<not> fl_closed (tb_heap tb ! r)"
  shows "tbl_ok tb"
  using assms by (auto simp: tbl_ok_def)

lemma set_delete: "set (AList.delete k xs) = {x \<in> set xs. fst x \<noteq> k}"
  by (auto simp: AList.delete_eq)

lemma tbl_refs: "tbl_ok tb \<Longrightarrow> map_of (tb_active tb) k = Some r \<Longrightarrow> r < length (tb_heap tb) \<and> fl_addr (tb_heap tb ! r) = k \<and> \<not> fl_closed (tb_heap tb ! r)"
  by (auto simp: tbl_ok_def dest: map_of_SomeD)

lemma flow_put_some:
  "\<not> fl_closed (tb_heap tb ! r) \<Longrightarrow> \<exists>tb'. flow_put r d tb = Some tb' \<and> tb_active tb' = tb_active tb \<and> same_flows (tb_heap tb) (tb_heap tb')"
  by (auto simp: flow_put_def Let_def intro!: same_flows_upd)

lemma flow_take_keeps: "flow_take r tb = Some (d, tb') \<Longrightarrow> tb_active tb' = tb_active tb \<and> same_flows (tb_heap tb) (tb_heap tb')"
  by (auto simp: flow_take_def intro!: same_flows_upd split: list.splits)

lemma flow_new_ok:
  assumes "tbl_ok tb" "map_of (tb_active tb) (fl_addr f) = None" "\<not> fl_closed f"
  shows "tbl_ok (flow_new f tb)" "tb_active (flow_new f tb) = tb_active tb @ [(fl_addr f, length (tb_heap tb))]"
    "tb_heap (flow_new f tb) = tb_heap tb @ [f]"
proof -
  have k: "fl_addr f \<notin> fst ` set (tb_active tb)" using assms(2) by (simp add: map_of_eq_None_iff)
  show a: "tb_active (flow_new f tb) = tb_active tb @ [(fl_addr f, length (tb_heap tb))]" "tb_heap (flow_new f tb) = tb_heap tb @ [f]"
    using update_absent [OF k] by (simp_all add: flow_new_def)
  show "tbl_ok (flow_new f tb)" unfolding tbl_ok_def a using assms k by (auto simp: tbl_ok_def nth_append)
qed

lemma flow_drop_ok:
  assumes "tbl_ok tb" "r < length (tb_heap tb)" "\<not> fl_closed (tb_heap tb ! r)"
  obtains tb' where "flow_drop r tb = Some tb'" "tbl_ok tb'" "tb_active tb' = AList.delete (fl_addr (tb_heap tb ! r)) (tb_active tb)"
    "length (tb_heap tb') = length (tb_heap tb)" "\<And>q. q \<noteq> r \<Longrightarrow> tb_heap tb' ! q = tb_heap tb ! q"
proof -
  let ?k = "fl_addr (tb_heap tb ! r)"
  let ?tb = "tb\<lparr>tb_heap := (tb_heap tb)[r := (tb_heap tb ! r)\<lparr>fl_closed := True\<rparr>], tb_active := AList.delete ?k (tb_active tb)\<rparr>"
  have d: "flow_drop r tb = Some ?tb" using assms(3) by (simp add: flow_drop_def Let_def)
  have "tbl_ok ?tb"
  proof (rule tblI)
    show "distinct (map fst (tb_active ?tb))" using assms(1) by (simp add: tbl_ok_def AList.distinct_delete)
    fix k q assume "(k, q) \<in> set (tb_active ?tb)"
    then have "(k, q) \<in> set (tb_active tb)" "k \<noteq> ?k" by (simp_all add: set_delete)
    moreover from this have "q \<noteq> r" using tblD [OF assms(1)] by blast
    ultimately show "q < length (tb_heap ?tb) \<and> fl_addr (tb_heap ?tb ! q) = k \<and> \<not> fl_closed (tb_heap ?tb ! q)"
      using tblD [OF assms(1), of k q] by simp
  qed
  then show ?thesis by (rule that [OF d]) simp_all
qed

lemma drop_refs:
  assumes "tbl_ok tb" "(fl_addr (tb_heap tb ! r), r) \<in> set (tb_active tb)"
  shows "snd ` set (AList.delete (fl_addr (tb_heap tb ! r)) (tb_active tb)) = snd ` set (tb_active tb) - {r}"
proof -
  have d: "distinct (map fst (tb_active tb))" using assms(1) by (simp add: tbl_ok_def)
  have "fst x = fl_addr (tb_heap tb ! r) \<longleftrightarrow> snd x = r" if "x \<in> set (tb_active tb)" for x
    using tblD [OF assms(1), of "fst x" "snd x"] that assms(2) eq_key_imp_eq_value [OF d, of "fst x" "snd x" r] by auto
  then show ?thesis by (auto simp: set_delete)
qed

lemma delete_last: "k \<notin> fst ` set xs \<Longrightarrow> AList.delete k (xs @ [(k, v)]) = xs"
  by (auto simp: AList.delete_eq filter_id_conv) (metis fst_conv image_eqI)

text \<open>
  Who reads a user's queue: it waits to be taken, is in the hands of the loop, or belongs to a pair. Tunnel connections
  that wait or are paired are open, and those that wait are still pinged.
\<close>

definition owners :: "nat \<Rightarrow> udpPair list \<Rightarrow> udpListener \<Rightarrow> nat list" where
  "owners i ps l = ls_chan l @ (case ls_held l of None \<Rightarrow> [] | Some r \<Rightarrow> [r]) @ map pr_local (filter (\<lambda>p. pr_listener p = i) ps)"

definition lst_ok :: "nat \<Rightarrow> udpPair list \<Rightarrow> udpListener \<Rightarrow> bool" where
  "lst_ok i ps l \<longleftrightarrow> tbl_ok (ls_table l) \<and> distinct (owners i ps l) \<and> set (owners i ps l) = snd ` set (tb_active (ls_table l))"

definition tun_ok :: "udpTunnel udpTable \<Rightarrow> nat list \<Rightarrow> udpPair list \<Rightarrow> bool" where
  "tun_ok tb ch ps \<longleftrightarrow> tbl_ok tb \<and> distinct (ch @ map pr_tunnel ps) \<and>
     (\<forall>r \<in> set (ch @ map pr_tunnel ps). r < length (tb_heap tb) \<and> \<not> fl_closed (tb_heap tb ! r)) \<and> (\<forall>r \<in> set ch. ut_ping (tb_heap tb ! r))"

definition udp_ok :: "udpServer \<Rightarrow> bool" where
  "udp_ok s \<longleftrightarrow> tun_ok (us_table s) (us_tunnelChan s) (us_pairs s) \<and>
     (\<forall>i < length (us_listeners s). lst_ok i (us_pairs s) (us_listeners s ! i)) \<and>
     (\<forall>p \<in> set (us_pairs s). pr_listener p < length (us_listeners s))"

lemma owned: "lst_ok i ps l \<Longrightarrow> r \<in> set (owners i ps l) \<Longrightarrow> (fl_addr (tb_heap (ls_table l) ! r), r) \<in> set (tb_active (ls_table l))"
  unfolding lst_ok_def using tblD by fastforce

lemma owned_open: "lst_ok i ps l \<Longrightarrow> r \<in> set (owners i ps l) \<Longrightarrow> r < length (tb_heap (ls_table l)) \<and> \<not> fl_closed (tb_heap (ls_table l) ! r)"
  using owned tblD unfolding lst_ok_def by blast

lemma lst_ok_table:
  "lst_ok i ps l \<Longrightarrow> tb_active tb = tb_active (ls_table l) \<Longrightarrow> same_flows (tb_heap (ls_table l)) (tb_heap tb) \<Longrightarrow> lst_ok i ps (l\<lparr>ls_table := tb\<rparr>)"
  using tbl_ok_cong [of "ls_table l" tb] by (auto simp: lst_ok_def owners_def)

lemma tun_ok_table:
  assumes "tun_ok tb ch ps" "tb_active tb' = tb_active tb" "same_flows (tb_heap tb) (tb_heap tb')" "\<And>r. r \<in> set ch \<Longrightarrow> ut_ping (tb_heap tb' ! r) = ut_ping (tb_heap tb ! r)"
  shows "tun_ok tb' ch ps"
  using assms tbl_ok_cong [of tb tb'] unfolding tun_ok_def same_flows_def by auto

lemma tun_ok_grow:
  assumes "tun_ok tb ch ps" "tbl_ok tb'" "length (tb_heap tb) \<le> length (tb_heap tb')"
    "\<And>q. q < length (tb_heap tb) \<Longrightarrow> tb_heap tb' ! q = tb_heap tb ! q"
  shows "tun_ok tb' ch ps"
  using assms unfolding tun_ok_def by fastforce

lemma udp_ok_listener:
  "udp_ok s \<Longrightarrow> i < length (us_listeners s) \<Longrightarrow> lst_ok i (us_pairs s) (f (us_listeners s ! i)) \<Longrightarrow> udp_ok (upd_listener i f s)"
  by (simp add: udp_ok_def upd_listener_def nth_list_update)

lemma udp_ok_tunnels: "udp_ok s \<Longrightarrow> tun_ok tb ch (us_pairs s) \<Longrightarrow> udp_ok (s\<lparr>us_table := tb, us_tunnelChan := ch\<rparr>)"
  by (simp add: udp_ok_def)

lemma udp_ok_other [simp]:
  "udp_ok (s\<lparr>us_control := c\<rparr>) \<longleftrightarrow> udp_ok s" "udp_ok (s\<lparr>us_established := b\<rparr>) \<longleftrightarrow> udp_ok s" "udp_ok (s\<lparr>us_req := n\<rparr>) \<longleftrightarrow> udp_ok s"
  by (simp_all add: udp_ok_def)

lemma udp_ok_restart: "udp_ok s \<Longrightarrow> udp_ok (udp_Restart s)"
  by (auto simp: udp_ok_def udp_Restart_def tun_ok_def tbl_ok_def lst_ok_def owners_def)

lemma udp_ok_listen: "udp_ok s \<Longrightarrow> udp_ok (localListener r s)"
proof -
  assume a: "udp_ok s"
  then have "filter (\<lambda>p. pr_listener p = length (us_listeners s)) (us_pairs s) = []" by (auto simp: udp_ok_def filter_empty_conv)
  then have "lst_ok (length (us_listeners s)) (us_pairs s) \<lparr>ls_remote = r, ls_table = \<lparr>tb_heap = [], tb_active = []\<rparr>, ls_chan = [], ls_held = None, ls_done = False\<rparr>"
    by (simp add: lst_ok_def owners_def tbl_ok_def)
  then show ?thesis using a by (auto simp: udp_ok_def localListener_def nth_append less_Suc_eq)
qed

lemma udp_ok_tunnel_datagram: "udp_ok s \<Longrightarrow> \<exists>s'. acceptTunnelConn cfg addr d s = Some s' \<and> udp_ok s'"
proof -
  assume a: "udp_ok s"
  let ?tb = "us_table s" and ?n = "length (tb_heap (us_table s))"
  have t: "tun_ok ?tb (us_tunnelChan s) (us_pairs s)" "tbl_ok ?tb" using a by (simp_all add: udp_ok_def tun_ok_def)
  show ?thesis
  proof (cases "map_of (tb_active ?tb) addr")
    case (Some r)
    then have o: "\<not> fl_closed (tb_heap ?tb ! r)" and r: "r < length (tb_heap ?tb)" using tbl_refs [OF t(2)] by blast+
    obtain tb' where p: "flow_put r d ?tb = Some tb'" "tb_active tb' = tb_active ?tb" "same_flows (tb_heap ?tb) (tb_heap tb')"
      using flow_put_some [OF o] by blast
    have "ut_ping (tb_heap tb' ! q) = ut_ping (tb_heap ?tb ! q)" for q
      using p(1) r by (cases "q = r") (auto simp: flow_put_def Let_def split: if_splits)
    then have "tun_ok tb' (us_tunnelChan s) (us_pairs s)" using tun_ok_table [OF t(1) p(2,3)] by simp
    then show ?thesis using Some p(1) a by (simp add: acceptTunnelConn_def udp_ok_def)
  next
    case None
    let ?f = "\<lparr>fl_addr = addr, fl_payload = [], fl_closed = False, ut_ping = True, ut_locked = False\<rparr> :: udpTunnel"
    have f: "map_of (tb_active ?tb) (fl_addr ?f) = None" "\<not> fl_closed ?f" using None by simp_all
    note n = flow_new_ok [OF t(2) f]
    have new: "tun_ok (flow_new ?f ?tb) (us_tunnelChan s @ [?n]) (us_pairs s)"
      using t(1) n unfolding tun_ok_def by (auto simp: nth_append less_Suc_eq)
    obtain tb' where d: "flow_drop ?n (flow_new ?f ?tb) = Some tb'" "tbl_ok tb'" "length (tb_heap tb') = length (tb_heap (flow_new ?f ?tb))"
      "\<And>q. q \<noteq> ?n \<Longrightarrow> tb_heap tb' ! q = tb_heap (flow_new ?f ?tb) ! q"
      using flow_drop_ok [OF n(1), of ?n] n(3) by auto
    have "tun_ok tb' (us_tunnelChan s) (us_pairs s)"
      using d n(3) by (intro tun_ok_grow [OF t(1)]) (simp_all add: nth_append)
    then show ?thesis using None a new d(1) by (auto simp: acceptTunnelConn_def udp_ok_def Let_def)
  qed
qed

lemma udp_ok_local_datagram:
  assumes "udp_ok s" "i < length (us_listeners s)"
  shows "\<exists>s'. local_datagram cfg i addr d now s = Some s' \<and> udp_ok s'"
proof -
  let ?l = "us_listeners s ! i"
  let ?tb = "ls_table ?l" and ?n = "length (tb_heap (ls_table ?l))" and ?ps = "us_pairs s"
  have l: "lst_ok i ?ps ?l" "tbl_ok ?tb" using assms by (simp_all add: udp_ok_def lst_ok_def)
  show ?thesis
  proof (cases "map_of (tb_active ?tb) addr")
    case (Some r)
    then have o: "\<not> fl_closed (tb_heap ?tb ! r)" using tbl_refs [OF l(2)] by blast
    obtain tb' where p: "flow_put r d ?tb = Some tb'" "tb_active tb' = tb_active ?tb" "same_flows (tb_heap ?tb) (tb_heap tb')"
      using flow_put_some [OF o] by blast
    show ?thesis using Some p(1) udp_ok_listener [OF assms, of "\<lambda>l. l\<lparr>ls_table := tb'\<rparr>"] lst_ok_table [OF l(1) p(2,3)]
      by (simp add: local_datagram_def Let_def)
  next
    case None
    let ?f = "\<lparr>fl_addr = addr, fl_payload = [], fl_closed = False, ul_remote = ls_remote ?l, ul_created = now\<rparr> :: udpLocal"
    have f: "map_of (tb_active ?tb) (fl_addr ?f) = None" "\<not> fl_closed ?f" using None by simp_all
    note n = flow_new_ok [OF l(2) f]
    have k: "addr \<notin> fst ` set (tb_active ?tb)" using None by (simp add: map_of_eq_None_iff)
    have "?n \<notin> set (owners i ?ps ?l)" using owned_open [OF l(1)] by blast
    then have new: "lst_ok i ?ps (?l\<lparr>ls_table := flow_new ?f ?tb, ls_chan := ls_chan ?l @ [?n]\<rparr>)"
      using l(1) n by (auto simp: lst_ok_def owners_def)
    obtain tb' where p: "flow_put ?n d (flow_new ?f ?tb) = Some tb'" "tb_active tb' = tb_active (flow_new ?f ?tb)"
      "same_flows (tb_heap (flow_new ?f ?tb)) (tb_heap tb')"
      using flow_put_some [of "flow_new ?f ?tb" ?n d] n(3) by auto
    have taken: "lst_ok i ?ps (?l\<lparr>ls_table := tb', ls_chan := ls_chan ?l @ [?n]\<rparr>)" using lst_ok_table [OF new, of tb'] p(2,3) by (simp add: lst_ok_def owners_def)
    obtain tb2 where d: "flow_drop ?n (flow_new ?f ?tb) = Some tb2" "tbl_ok tb2" "tb_active tb2 = AList.delete addr (tb_active (flow_new ?f ?tb))"
      using flow_drop_ok [OF n(1), of ?n] n(3) by auto
    have "tb_active tb2 = tb_active ?tb" using d(3) n(2) delete_last [OF k] by simp
    then have "lst_ok i ?ps (?l\<lparr>ls_table := tb2\<rparr>)" using l(1) d(2) by (simp add: lst_ok_def owners_def)
    then show ?thesis using None p(1) d(1) taken assms
        udp_ok_listener [OF assms, of "\<lambda>l. l\<lparr>ls_table := tb2\<rparr>"]
        udp_ok_listener [of "s\<lparr>us_req := (if us_req s < uc_channelSize cfg then us_req s + 1 else us_req s)\<rparr>" i
          "\<lambda>l. l\<lparr>ls_table := tb', ls_chan := ls_chan l @ [?n]\<rparr>"]
      by (simp add: local_datagram_def Let_def)
  qed
qed

lemma udp_ok_take:
  assumes "udp_ok s" "i < length (us_listeners s)"
  shows "\<exists>s'. udp_take i now s = Some s' \<and> udp_ok s'"
proof -
  let ?l = "us_listeners s ! i" and ?ps = "us_pairs s"
  have l: "lst_ok i ?ps ?l" using assms by (simp add: udp_ok_def)
  show ?thesis
  proof (cases "ls_held ?l = None \<and> ls_chan ?l \<noteq> []")
    case True
    then obtain r rs where c: "ls_held ?l = None" "ls_chan ?l = r # rs" by (cases "ls_chan ?l") auto
    have r: "r \<in> set (owners i ?ps ?l)" using c by (simp add: owners_def)
    let ?f = "tb_heap (ls_table ?l) ! r"
    have tb: "tbl_ok (ls_table ?l)" using l by (simp add: lst_ok_def)
    obtain tb' where d: "flow_drop r (ls_table ?l) = Some tb'" "tbl_ok tb'" "tb_active tb' = AList.delete (fl_addr ?f) (tb_active (ls_table ?l))"
      using flow_drop_ok [OF tb, of r] owned_open [OF l r] by auto
    have refs: "snd ` set (tb_active tb') = snd ` set (tb_active (ls_table ?l)) - {r}" using drop_refs [OF tb owned [OF l r]] d(3) by simp
    have "map_of (tb_active (ls_table ?l)) (fl_addr ?f) = Some r" using owned [OF l r] tb by (simp add: tbl_ok_def)
    moreover have "lst_ok i ?ps (?l\<lparr>ls_chan := rs, ls_table := tb'\<rparr>)"
      using l c d(2) refs by (auto simp: lst_ok_def owners_def)
    moreover have "lst_ok i ?ps (?l\<lparr>ls_chan := rs, ls_held := Some r\<rparr>)"
      using l c by (auto simp: lst_ok_def owners_def)
    ultimately show ?thesis using assms c d(1) by (auto simp: udp_take_def Let_def udp_ok_def upd_listener_def nth_list_update)
  next
    case False
    then show ?thesis using assms(1) by (auto simp: udp_take_def Let_def split: option.split list.split)
  qed
qed

lemma udp_ok_pair:
  assumes "udp_ok s" "i < length (us_listeners s)"
  shows "\<exists>s' out. udp_pair i wrote s = Some (s', out) \<and> udp_ok s'"
proof (cases "\<exists>r t ts. ls_held (us_listeners s ! i) = Some r \<and> us_tunnelChan s = t # ts")
  case True
  then obtain r t ts where c: "ls_held (us_listeners s ! i) = Some r" "us_tunnelChan s = t # ts" by blast
  let ?l = "us_listeners s ! i" and ?ps = "us_pairs s" and ?h = "tb_heap (us_table s)"
  let ?p = "\<lparr>pr_listener = i, pr_local = r, pr_tunnel = t, pr_up = True, pr_down = True\<rparr>"
  let ?tb = "(us_table s)\<lparr>tb_heap := ?h[t := (?h ! t)\<lparr>ut_ping := False, ut_locked := True\<rparr>]\<rparr>"
  have t: "tun_ok (us_table s) (t # ts) ?ps" and ping: "ut_ping (?h ! t)" using assms(1) c(2) by (simp_all add: udp_ok_def tun_ok_def)
  have "t \<notin> set ts" using t by (simp add: tun_ok_def)
  moreover have "tun_ok (us_table s) ts ?ps" using t by (simp add: tun_ok_def)
  moreover have "same_flows ?h (tb_heap ?tb)" by (simp add: same_flows_upd)
  moreover from calculation have "ut_ping (tb_heap ?tb ! q) = ut_ping (?h ! q)" if "q \<in> set ts" for q
    using that by (cases "q = t") simp_all
  ultimately have t': "tun_ok ?tb ts ?ps" by (intro tun_ok_table [of "us_table s" ts ?ps ?tb]) simp_all
  have open_t: "t < length ?h \<and> \<not> fl_closed (?h ! t)" "t \<notin> pr_tunnel ` set ?ps" using t by (auto simp: tun_ok_def)
  then have paired: "tun_ok ?tb ts (?ps @ [?p])" using t' \<open>t \<notin> set ts\<close> by (auto simp: tun_ok_def)
  have l: "lst_ok j ?ps (us_listeners s ! j)" if "j < length (us_listeners s)" for j using assms(1) that by (simp add: udp_ok_def)
  have "lst_ok i (?ps @ [?p]) (?l\<lparr>ls_held := None\<rparr>)" using l [OF assms(2)] c(1) by (auto simp: lst_ok_def owners_def)
  moreover have "lst_ok j (?ps @ [?p]) (us_listeners s ! j)" if "j < length (us_listeners s)" "j \<noteq> i" for j
    using l [OF that(1)] that(2) by (simp add: lst_ok_def owners_def)
  ultimately show ?thesis using assms c ping t' paired
    by (auto simp: udp_pair_def Let_def udp_ok_def upd_listener_def nth_list_update)
next
  case False
  then show ?thesis using assms(1) by (auto simp: udp_pair_def Let_def split: option.split list.split)
qed

lemma map_same: "k < length xs \<Longrightarrow> f y = f (xs ! k) \<Longrightarrow> map f (xs[k := y]) = map f xs"
  by (simp add: map_update list_update_same_conv)

lemma udp_ok_marks:
  assumes "udp_ok s" "k < length (us_pairs s)" "pr_listener p = pr_listener (us_pairs s ! k)" "pr_local p = pr_local (us_pairs s ! k)"
    "pr_tunnel p = pr_tunnel (us_pairs s ! k)"
  shows "udp_ok (s\<lparr>us_pairs := (us_pairs s)[k := p]\<rparr>)"
proof -
  let ?ps = "(us_pairs s)[k := p]"
  have m: "map pr_tunnel ?ps = map pr_tunnel (us_pairs s)"
    using map_same [OF assms(2), of pr_tunnel] assms(5) by simp
  have "map pr_local (filter (\<lambda>p. pr_listener p = i) ?ps) = map pr_local (filter (\<lambda>p. pr_listener p = i) (us_pairs s))" for i
  proof -
    have "map pr_local (filter (\<lambda>p. pr_listener p = i) ps) = map snd (filter (\<lambda>x. fst x = i) (map (\<lambda>p. (pr_listener p, pr_local p)) ps))" for ps
      by (induction ps) auto
    moreover have "map (\<lambda>p. (pr_listener p, pr_local p)) ?ps = map (\<lambda>p. (pr_listener p, pr_local p)) (us_pairs s)"
      using assms(3,4) by (intro map_same [OF assms(2)]) simp
    ultimately show ?thesis by metis
  qed
  moreover have "pr_listener q < length (us_listeners s)" if "q \<in> set ?ps" for q
    using set_update_subset_insert [of "us_pairs s" k p] that assms(1-3) by (auto simp: udp_ok_def)
  moreover have "tun_ok (us_table s) (us_tunnelChan s) ?ps"
    using assms(1) m unfolding udp_ok_def tun_ok_def by (metis set_append)
  ultimately show ?thesis using assms(1) by (simp add: udp_ok_def lst_ok_def owners_def)
qed

lemma udp_ok_up:
  assumes "udp_ok s" "k < length (us_pairs s)"
  shows "udp_ok (fst (udpLocalCopy k ev s))"
proof -
  let ?p = "us_pairs s ! k"
  let ?i = "pr_listener ?p"
  have i: "?i < length (us_listeners s)" using assms nth_mem by (auto simp: udp_ok_def)
  let ?e = "s\<lparr>us_pairs := (us_pairs s)[k := ?p\<lparr>pr_up := False\<rparr>]\<rparr>"
  have e: "udp_ok ?e" by (rule udp_ok_marks [OF assms]) simp_all
  have l: "lst_ok ?i (us_pairs u) (us_listeners u ! ?i)" if "udp_ok u" "us_listeners u = us_listeners s" for u
    using that i by (simp add: udp_ok_def)
  have "udp_ok (upd_listener ?i (\<lambda>l. l\<lparr>ls_table := tb\<rparr>) u)"
    if "flow_take (pr_local ?p) (ls_table (us_listeners s ! ?i)) = Some (d, tb)" "udp_ok u" "us_listeners u = us_listeners s" for d tb u
    using flow_take_keeps [OF that(1)] lst_ok_table [OF l [OF that(2,3)], of tb] udp_ok_listener [OF that(2), of ?i] that(3) i by simp
  from this [of _ _ s] this [of _ _ ?e] show ?thesis using assms(1) e
    by (auto simp: udpLocalCopy_def Let_def split: copy_event.split option.split)
qed

lemma udp_ok_down:
  assumes "udp_ok s" "k < length (us_pairs s)"
  shows "udp_ok (fst (udpTunnelCopy k ev s))"
proof -
  let ?p = "us_pairs s ! k"
  have r: "pr_tunnel ?p < length (tb_heap (us_table s))" using assms nth_mem [OF assms(2)] by (auto simp: udp_ok_def tun_ok_def)
  let ?e = "s\<lparr>us_pairs := (us_pairs s)[k := ?p\<lparr>pr_down := False\<rparr>]\<rparr>"
  have e: "udp_ok ?e" by (rule udp_ok_marks [OF assms]) simp_all
  have "udp_ok (u\<lparr>us_table := tb\<rparr>)"
    if t: "flow_take (pr_tunnel ?p) (us_table s) = Some (d, tb)" and u: "udp_ok u" "us_table u = us_table s" for d tb u
  proof -
    have "ut_ping (tb_heap tb ! q) = ut_ping (tb_heap (us_table s) ! q)" for q
      using t r by (cases "q = pr_tunnel ?p") (auto simp: flow_take_def split: list.splits)
    then show ?thesis using flow_take_keeps [OF t] tun_ok_table [of "us_table s" "us_tunnelChan u" "us_pairs u" tb] u
      by (simp add: udp_ok_def)
  qed
  from this [of _ _ s] this [of _ _ ?e] show ?thesis using assms(1) e
    by (auto simp: udpTunnelCopy_def Let_def split: copy_event.split option.split)
qed

lemma owners_split:
  "owners j (as @ p # bs) m = ls_chan m @ (case ls_held m of None \<Rightarrow> [] | Some r \<Rightarrow> [r]) @ map pr_local (filter (\<lambda>p. pr_listener p = j) as) @
      (if pr_listener p = j then [pr_local p] else []) @ map pr_local (filter (\<lambda>p. pr_listener p = j) bs)"
  by (simp add: owners_def)

lemma udp_ok_end:
  assumes "udp_ok s" "k < length (us_pairs s)"
  shows "\<exists>s'. udpCopy_end k s = Some s' \<and> udp_ok s'"
proof -
  obtain as p bs where ps: "us_pairs s = as @ p # bs" "length as = k" using id_take_nth_drop [OF assms(2)] assms(2) by fastforce
  have pk: "us_pairs s ! k = p" "take k (us_pairs s) @ drop (k + 1) (us_pairs s) = as @ bs" using ps by auto
  let ?i = "pr_listener p"
  let ?l = "us_listeners s ! ?i"
  have i: "?i < length (us_listeners s)" using assms(1) ps by (auto simp: udp_ok_def)
  then have l: "lst_ok ?i (as @ p # bs) ?l" and t: "tun_ok (us_table s) (us_tunnelChan s) (as @ p # bs)"
    using assms(1) ps(1) by (simp_all add: udp_ok_def)
  have tb: "tbl_ok (ls_table ?l)" "tbl_ok (us_table s)" using l t by (simp_all add: lst_ok_def tun_ok_def)
  have r: "pr_local p \<in> set (owners ?i (as @ p # bs) ?l)" by (simp add: owners_def)
  have q: "pr_tunnel p < length (tb_heap (us_table s))" "\<not> fl_closed (tb_heap (us_table s) ! pr_tunnel p)"
    using t by (auto simp: tun_ok_def)
  obtain ltb where ld: "flow_drop (pr_local p) (ls_table ?l) = Some ltb" "tbl_ok ltb"
      "tb_active ltb = AList.delete (fl_addr (tb_heap (ls_table ?l) ! pr_local p)) (tb_active (ls_table ?l))"
    using flow_drop_ok [OF tb(1), of "pr_local p"] owned_open [OF l r] by metis
  obtain ttb where td: "flow_drop (pr_tunnel p) (us_table s) = Some ttb" "tbl_ok ttb"
      "length (tb_heap ttb) = length (tb_heap (us_table s))" "\<And>x. x \<noteq> pr_tunnel p \<Longrightarrow> tb_heap ttb ! x = tb_heap (us_table s) ! x"
    using flow_drop_ok [OF tb(2) q] by metis
  have refs: "snd ` set (tb_active ltb) = snd ` set (tb_active (ls_table ?l)) - {pr_local p}"
    using drop_refs [OF tb(1) owned [OF l r]] ld(3) by simp
  have "lst_ok ?i (as @ bs) (?l\<lparr>ls_table := ltb\<rparr>)" using l ld(2) refs unfolding lst_ok_def owners_split by (auto simp: owners_def)
  moreover have "lst_ok j (as @ bs) (us_listeners s ! j)" if "j < length (us_listeners s)" "j \<noteq> ?i" for j
  proof -
    have "lst_ok j (as @ p # bs) (us_listeners s ! j)" using assms(1) that(1) ps(1) by (simp add: udp_ok_def)
    then show ?thesis using that(2) unfolding lst_ok_def owners_split by (simp add: owners_def)
  qed
  moreover have "tun_ok ttb (us_tunnelChan s) (as @ bs)"
  proof -
    have "tb_heap ttb ! x = tb_heap (us_table s) ! x" if "x \<in> set (us_tunnelChan s @ map pr_tunnel (as @ bs))" for x
      using t that by (intro td(4)) (auto simp: tun_ok_def)
    then show ?thesis using t td(2,3) by (simp add: tun_ok_def)
  qed
  moreover have "pr_listener x < length (us_listeners s)" if "x \<in> set (as @ bs)" for x
    using that assms(1) ps(1) by (auto simp: udp_ok_def)
  moreover from calculation(1,2) have "lst_ok j (as @ bs) ((us_listeners s)[?i := ?l\<lparr>ls_table := ltb\<rparr>] ! j)" if "j < length (us_listeners s)" for j
    using that by (cases "j = ?i") simp_all
  ultimately show ?thesis using assms(1) ld(1) td(1) pk
    by (auto simp: udpCopy_end_def Let_def udp_ok_def upd_listener_def)
qed

lemma udp_ok_step: "udp_ok s \<Longrightarrow> \<exists>s'. udp_step cfg e s = Some s' \<and> udp_ok s'"
proof (cases e)
  case (U_pair i wrote)
  then show "udp_ok s \<Longrightarrow> \<exists>s'. udp_step cfg e s = Some s' \<and> udp_ok s'" using udp_ok_pair [of s i wrote] by fastforce
next
  case (U_handler ev wrote)
  then show "udp_ok s \<Longrightarrow> \<exists>s'. udp_step cfg e s = Some s' \<and> udp_ok s'"
    by (auto simp: udp_channelHandler_def Let_def udp_ok_restart split: handler_event.split)
qed (auto simp: udp_channelHandshake_def Let_def udp_ok_restart udp_ok_listen udp_ok_tunnel_datagram udp_ok_local_datagram udp_ok_take
    udp_ok_up udp_ok_down udp_ok_end split: prod.split)

lemma udp_ok_run: "udp_ok s \<Longrightarrow> \<exists>s'. udp_run cfg es s = Some s' \<and> udp_ok s'"
proof (induction es arbitrary: s)
  case (Cons e es)
  then show ?case using udp_ok_step [OF Cons.prems, of cfg e] by fastforce
qed simp


section \<open>The client\<close>

text \<open>The dialler of the control channel knows one form of the handshake and no refusals.\<close>

definition udp_channelDialer ::
    "clientConfig \<Rightarrow> (string \<Rightarrow> nat option) \<Rightarrow> bool \<Rightarrow> bool \<Rightarrow> answer \<Rightarrow> client \<Rightarrow> client \<times> bytes \<times> attempt" where
  "udp_channelDialer cfg dial wrote deadline_ok ans c =
     (case Current (cl_endpoints c) of
        None \<Rightarrow> (c, [], Panicked)
      | Some target \<Rightarrow>
        case dial target of
          None \<Rightarrow> (c\<lparr>cl_endpoints := fst (Rotate (cl_endpoints c))\<rparr>, [], DialFailed)
        | Some conn \<Rightarrow>
          let msg = SendBinaryTransportString (cc_token cfg) SG_Chan in
          if \<not> wrote then (c, [], NotSent)
          else if \<not> deadline_ok then (c, msg, DeadlineFailed)
          else case ans of
                 Answer message _ \<Rightarrow>
                   if message = cc_token cfg then (poolMaintainer_start cfg (c\<lparr>cl_conn := Some conn\<rparr>), msg, Connected)
                   else (c, msg, WrongToken)
               | _ \<Rightarrow> (c, msg, NoAnswer))"

text \<open>The pool of this transport grows on requests alone, and without a limit.\<close>

definition udp_load_tick :: "clientConfig \<Rightarrow> client \<Rightarrow> client" where
  "udp_load_tick cfg c =
     (let a = (if cc_aggressive cfg then 1 else 4); b = (if cc_aggressive cfg then 2 else 5);
          loadConnections = (sint (cl_loadConnections c) + 9) sdiv 10;
          avg = (sint (cl_poolSum c) + 9) sdiv 10;
          c' = c\<lparr>cl_loadConnections := 0, cl_poolSum := 0\<rparr>
      in if cl_blocked c then c
         else if avg * b < loadConnections + a
         then c'\<lparr>cl_poolSize := cl_poolSize c + 1, cl_dialers := cl_dialers c + 1\<rparr>
         else if (if cc_aggressive cfg then 4 * loadConnections < 3 * avg else loadConnections + 3 < 4 * avg) \<and>
                 cc_poolSize cfg < cl_poolSize c
         then (if cl_controlFlow c < 100 then c'\<lparr>cl_poolSize := cl_poolSize c - 1, cl_controlFlow := cl_controlFlow c + 1\<rparr>
               else c'\<lparr>cl_poolSize := cl_poolSize c - 1, cl_blocked := True\<rparr>)
         else c')"

text \<open>
  A pool connection writes the token and waits. A datagram is read into 47 bytes, and what is longer is cut; a ping is
  skipped, anything else is the target. \<open>None\<close> ends the connection.
\<close>

definition targetBuffer :: nat where "targetBuffer = 47"

datatype pool_read = Pinged | Targeted "destination option"

definition handleTunnelConn_open :: "clientConfig \<Rightarrow> client \<Rightarrow> client \<times> bytes" where
  "handleTunnelConn_open cfg c = (c\<lparr>cl_poolConnections := cl_poolConnections c + 1\<rparr>, str_bytes (cc_token cfg))"

definition udp_localDialer :: "int \<times> string \<Rightarrow> destination" where
  "udp_localDialer r = ToUDP (firstBackend (snd r)) (fst r)"

definition handleTunnelConn :: "bytes \<Rightarrow> client \<Rightarrow> client \<times> pool_read" where
  "handleTunnelConn datagram c =
     (let buffer = take targetBuffer datagram in
      if length buffer = 1 \<and> buffer ! 0 = SG_Ping then (c, Pinged)
      else (c\<lparr>cl_poolConnections := cl_poolConnections c - 1\<rparr>, Targeted (map_option udp_localDialer (ResolveRemoteAddr (bytes_str buffer)))))"

text \<open>However large the pool is, ticks at which every connection is in use make it larger, even when nobody asks for one.\<close>

lemma udp_pool_unbounded:
  assumes "\<not> cl_blocked c" "cl_poolSum c = 0" "cl_loadConnections c = 0"
  shows "cl_poolSize ((udp_load_tick cfg ^^ k) c) = cl_poolSize c + int k"
proof -
  have "udp_load_tick cfg c' = c'\<lparr>cl_loadConnections := 0, cl_poolSum := 0, cl_poolSize := cl_poolSize c' + 1, cl_dialers := cl_dialers c' + 1\<rparr>"
    if "\<not> cl_blocked c'" "cl_poolSum c' = 0" "cl_loadConnections c' = 0" for c'
    using that by (simp add: udp_load_tick_def signed_divide_int_def)
  then have "cl_poolSize ((udp_load_tick cfg ^^ k) c) = cl_poolSize c + int k \<and> \<not> cl_blocked ((udp_load_tick cfg ^^ k) c) \<and>
      cl_poolSum ((udp_load_tick cfg ^^ k) c) = 0 \<and> cl_loadConnections ((udp_load_tick cfg ^^ k) c) = 0"
    using assms by (induction k) simp_all
  then show ?thesis by simp
qed

text \<open>A target of at most 47 bytes arrives; a longer one is cut, here to another port of the same host.\<close>

lemma udp_short_target:
  assumes "length t \<le> targetBuffer" "ResolveRemoteAddr t = Some (p, r)" "1 < length t"
  shows "snd (handleTunnelConn (str_bytes t) c) = Targeted (Some (ToUDP (firstBackend r) p))"
  using assms by (simp add: handleTunnelConn_def udp_localDialer_def Let_def)

lemma udp_long_target:
  assumes "length h = 43" "CHR '':'' \<notin> set h" "CHR ''|'' \<notin> set h" "solid (hd h)" "itoa p = [d1, d2, d3, d4, d5]" "0 \<le> p"
  shows "snd (handleTunnelConn (str_bytes (h @ '':'' @ itoa p)) c) = Targeted (Some (ToUDP (h @ '':'' @ [d1, d2, d3]) (int (digits_val [d1, d2, d3]))))"
proof -
  let ?t = "h @ '':'' @ [d1, d2, d3]"
  have d: "list_all is_digit [d1, d2, d3]" using show_nat_char [of _ "nat p"] assms(5,6) by (simp add: itoa_nonneg)
  have "digits_val [d1, d2, d3] < 2 ^ 63"
    using d by (auto simp: digits_val_def digit_val_def is_digit_def Let_def)
  then have n: "atoi [d1, d2, d3] = Some (int (digits_val [d1, d2, d3]))" using d by (intro atoi_digits) simp_all
  have r: "ResolveRemoteAddr ?t = Some (int (digits_val [d1, d2, d3]), ?t)"
    using resolve_host_port [OF assms(2) _ assms(3) n] atoi_no_sep [OF n] by simp
  have "trim_space ?t = ?t" using assms(1,4) d is_digit_solid by (intro trim_space_solid) (auto simp: hd_append)
  moreover have "CHR ''|'' \<notin> set ?t" using assms(3) atoi_no_sep [OF n] by simp
  ultimately have "splitBackends ?t = [?t]" by (simp add: splitBackends_def backendSep_def split_on_absent)
  then have b: "firstBackend ?t = ?t" by (simp add: firstBackend_def)
  have "take 47 (str_bytes (h @ '':'' @ itoa p)) = str_bytes ?t" using assms(1,5) by (simp add: str_bytes_def)
  then show ?thesis using assms(1) r b by (simp add: handleTunnelConn_def targetBuffer_def udp_localDialer_def Let_def del: append.simps append_Cons)
qed

end
