(* ===== verification/ReverseMux.thy ===== *)
theory ReverseMux
  imports ReverseServer
begin

text \<open>
  The reverse server over multiplexed TCP connections (\<open>internal/server/transport/tcpmux.go\<close>, with \<open>network/mux.go\<close> and the
  version handling of the client's \<open>tcpmux.go\<close>). A pool connection carries a session, and a session carries up to
  \<open>MuxCon\<close> users as streams; two counters decide when another connection is asked for. Goroutines, generations and
  arguments are as in \<open>ReverseServer\<close>. A session's goroutine stands at the channel that bounds its streams, at the
  select, or at the send that gives a user back; the session below is a library, so that whether it can be built, opens a
  stream or takes the target are arguments.
\<close>

section \<open>Versions\<close>

definition MuxVersionAuto :: int where "MuxVersionAuto = 0"

definition ResolveMuxVersion :: "int \<Rightarrow> int" where
  "ResolveMuxVersion configured = (if configured = 1 \<or> configured = 2 then configured else 2)"

definition ResolveStaticMuxVersion :: "int \<Rightarrow> int" where
  "ResolveStaticMuxVersion configured = (if configured = 1 \<or> configured = 2 then configured else 1)"

text \<open>What each side stores, from what was negotiated and its own configuration, and the session's version.\<close>

definition server_muxVersion :: "int \<Rightarrow> int \<Rightarrow> int" where
  "server_muxVersion configured negotiated =
     (if negotiated \<noteq> 1 \<and> negotiated \<noteq> 2
      then (if configured = MuxVersionAuto then 1 else ResolveMuxVersion configured) else negotiated)"

definition client_muxVersion :: "int \<Rightarrow> int \<Rightarrow> int" where
  "client_muxVersion configured negotiated =
     (if negotiated \<noteq> 1 \<and> negotiated \<noteq> 2
      then (if configured \<noteq> 1 \<and> configured \<noteq> 2 then 1 else configured) else negotiated)"

definition smuxCfg :: "int \<Rightarrow> int" where
  "smuxCfg version = (if version = 2 then 2 else 1)"

section \<open>State\<close>

record muxConfig =
  mc_token :: string
  mc_channelSize :: nat
  mc_muxCon :: nat
  mc_muxVersion :: int
  mc_numCPU :: nat

record muxCandidate =
  mk_conn :: nat
  mk_nonce :: string
  mk_version :: int

text \<open>A session in the channel is its connection and the version it was built for.\<close>

record tcpMuxGen =
  q_done :: bool
  q_tunnel :: "(nat \<times> int) list"
  q_local :: "local_conn list"
  q_req :: nat
  q_handshake :: "muxCandidate option"
  q_phase :: phase
  q_handler :: bool
  q_loops :: nat

datatype session_at = S_head | S_select | S_giveback local_conn | S_failed local_conn | S_over

record mux_session =
  ms_gen :: nat
  ms_conn :: nat
  ms_at :: session_at
  ms_tokens :: nat

record muxServer =
  x_control :: "nat option"
  x_nonce :: string
  x_version :: int
  x_limits :: "rev_limiter option"
  x_streamCounter :: "32 word"
  x_sessionCounter :: "32 word"
  x_gens :: "tcpMuxGen list"
  x_reading :: "(nat \<times> nat) list"
  x_claims :: "(nat \<times> muxCandidate) list"
  x_sessions :: "mux_session list"
  x_transfers :: "(nat \<times> local_conn) list"
  x_restarting :: bool

datatype mux_act = M_Close nat | M_Send nat string byte | M_Byte nat byte | M_Target nat string

definition new_mux_gen :: tcpMuxGen where
  "new_mux_gen = \<lparr>q_done = False, q_tunnel = [], q_local = [], q_req = 0, q_handshake = None, q_phase = Waiting, q_handler = False, q_loops = 0\<rparr>"

definition NewTcpMuxServer :: "int \<Rightarrow> int \<Rightarrow> muxServer" where
  "NewTcpMuxServer maxConnections bandwidthMbps =
     \<lparr>x_control = None, x_nonce = [], x_version = 0, x_limits = newLimiter maxConnections bandwidthMbps, x_streamCounter = 0,
      x_sessionCounter = 0, x_gens = [new_mux_gen], x_reading = [], x_claims = [], x_sessions = [], x_transfers = [], x_restarting = False\<rparr>"

definition upd_mux :: "nat \<Rightarrow> (tcpMuxGen \<Rightarrow> tcpMuxGen) \<Rightarrow> muxServer \<Rightarrow> muxServer" where
  "upd_mux i f v = v\<lparr>x_gens := (x_gens v)[i := f (x_gens v ! i)]\<rparr>"

definition upd_session :: "nat \<Rightarrow> (mux_session \<Rightarrow> mux_session) \<Rightarrow> muxServer \<Rightarrow> muxServer" where
  "upd_session j f v = v\<lparr>x_sessions := (x_sessions v)[j := f (x_sessions v ! j)]\<rparr>"

text \<open>A send on the request channel that gives up when it is full.\<close>

definition ask_conn :: "muxConfig \<Rightarrow> tcpMuxGen \<Rightarrow> tcpMuxGen" where
  "ask_conn cfg g = g\<lparr>q_req := (if q_req g < mc_channelSize cfg then q_req g + 1 else q_req g)\<rparr>"

section \<open>Admitting a tunnel connection\<close>

definition mux_deliver :: "muxConfig \<Rightarrow> bool \<Rightarrow> nat \<Rightarrow> nat \<Rightarrow> muxServer \<Rightarrow> muxServer \<times> mux_act list" where
  "mux_deliver cfg built i c v =
     (if \<not> built then (v, [M_Close c])
      else if length (q_tunnel (x_gens v ! i)) < mc_channelSize cfg
      then (upd_mux i (\<lambda>g. g\<lparr>q_tunnel := q_tunnel g @ [(c, smuxCfg (x_version v))]\<rparr>) v, [])
      else (v, [M_Close c]))"

definition mux_admit_open :: "muxConfig \<Rightarrow> (nat \<Rightarrow> string option) \<Rightarrow> bool \<Rightarrow> nat \<Rightarrow> nat \<Rightarrow> muxServer \<Rightarrow> muxServer \<times> mux_act list" where
  "mux_admit_open cfg addr built i c v =
     (case x_control v of
        Some p \<Rightarrow>
          if x_nonce v = [] then
            (if addr p \<noteq> None \<and> \<not> sameHost (addr p) (addr c) then (v, [M_Close c]) else mux_deliver cfg built i c v)
          else (v\<lparr>x_reading := x_reading v @ [(i, c)]\<rparr>, [])
      | None \<Rightarrow> (v\<lparr>x_reading := x_reading v @ [(i, c)]\<rparr>, []))"

definition mux_admitControl ::
    "muxConfig \<Rightarrow> nat \<Rightarrow> nat \<Rightarrow> string \<Rightarrow> byte \<Rightarrow> string option \<Rightarrow> bool \<Rightarrow> muxServer \<Rightarrow> muxServer \<times> mux_act list" where
  "mux_admitControl cfg i c payload sig fresh wrote v =
     (if x_control v \<noteq> None then (v, [M_Send c RefusedInUse SG_Refused, M_Close c])
      else if \<not> tokenMatches payload (mc_token cfg) then (v, [M_Send c RefusedBadToken SG_Refused, M_Close c])
      else case controlAck sig (mc_token cfg) (nat (ResolveMuxVersion (mc_muxVersion cfg))) fresh of
             None \<Rightarrow> (v, [M_Close c])
           | Some (ack, nonce, version) \<Rightarrow>
               if \<not> wrote then (v, [M_Close c])
               else (v\<lparr>x_claims := x_claims v @ [(i, \<lparr>mk_conn = c, mk_nonce = nonce, mk_version = int version\<rparr>)]\<rparr>, [M_Send c ack sig]))"

definition mux_admit_announced ::
    "muxConfig \<Rightarrow> nat \<Rightarrow> nat \<Rightarrow> (string \<times> byte) option \<Rightarrow> string option \<Rightarrow> bool \<Rightarrow> bool \<Rightarrow> muxServer \<Rightarrow> muxServer \<times> mux_act list" where
  "mux_admit_announced cfg i c ann fresh wrote built v =
     (case ann of
        None \<Rightarrow> (v, [M_Close c])
      | Some (payload, sig) \<Rightarrow>
          if isControlSignal sig then mux_admitControl cfg i c payload sig fresh wrote v
          else if sig = SG_Pool then
            (if \<not> nonce_Verify (x_nonce v) payload then (v, [M_Close c]) else mux_deliver cfg built i c v)
          else (v, [M_Close c]))"

definition mux_offer :: "nat \<Rightarrow> muxCandidate \<Rightarrow> muxServer \<Rightarrow> muxServer \<times> mux_act list" where
  "mux_offer i cand v =
     (if q_handshake (x_gens v ! i) = None then (upd_mux i (\<lambda>g. g\<lparr>q_handshake := Some cand\<rparr>) v, [])
      else (v, [M_Close (mk_conn cand)]))"

section \<open>A generation\<close>

definition mux_start_rest :: "muxConfig \<Rightarrow> nat \<Rightarrow> muxServer \<Rightarrow> muxServer" where
  "mux_start_rest cfg i v =
     (if x_control v \<noteq> None
      then upd_mux i (\<lambda>g. g\<lparr>q_phase := Serving, q_handler := True, q_loops := min 4 (mc_numCPU cfg)\<rparr>) v
      else upd_mux i (\<lambda>g. g\<lparr>q_phase := Over\<rparr>) v)"

definition mux_channelHandshake :: "muxConfig \<Rightarrow> nat \<Rightarrow> bool \<Rightarrow> muxServer \<Rightarrow> muxServer" where
  "mux_channelHandshake cfg i cancelled v =
     (let g = x_gens v ! i in
      if q_phase g \<noteq> Waiting then v
      else if cancelled then (if q_done g then mux_start_rest cfg i v else v)
      else case q_handshake g of
             None \<Rightarrow> v
           | Some cand \<Rightarrow>
               mux_start_rest cfg i (upd_mux i (\<lambda>g. g\<lparr>q_handshake := None\<rparr>)
                 (v\<lparr>x_nonce := mk_nonce cand, x_version := server_muxVersion (mc_muxVersion cfg) (mk_version cand), x_control := Some (mk_conn cand)\<rparr>)))"

definition mux_handler_sends :: "nat \<Rightarrow> byte \<Rightarrow> bool \<Rightarrow> muxServer \<Rightarrow> muxServer \<times> mux_act list \<times> bool" where
  "mux_handler_sends i b wrote v =
     (case x_control v of
        Some c \<Rightarrow> if wrote then (v, [M_Byte c b], False) else (upd_mux i (\<lambda>g. g\<lparr>q_handler := False\<rparr>) v, [], True)
      | None \<Rightarrow> (upd_mux i (\<lambda>g. g\<lparr>q_handler := False\<rparr>) v, [], True))"

definition mux_channelHandler :: "nat \<Rightarrow> handler_event \<Rightarrow> bool \<Rightarrow> muxServer \<Rightarrow> muxServer \<times> mux_act list \<times> bool" where
  "mux_channelHandler i ev wrote v =
     (let g = x_gens v ! i; quit = upd_mux i (\<lambda>g. g\<lparr>q_handler := False\<rparr>) in
      if \<not> q_handler g then (v, [], False)
      else case ev of
        H_start \<Rightarrow> (v, [], False)
      | H_done \<Rightarrow>
          if q_done g
          then (quit v, case x_control v of Some c \<Rightarrow> if wrote then [M_Byte c SG_Closed] else [] | None \<Rightarrow> [], False)
          else (v, [], False)
      | H_request \<Rightarrow>
          if q_req g = 0 then (v, [], False)
          else mux_handler_sends i SG_Chan wrote (upd_mux i (\<lambda>g. g\<lparr>q_req := q_req g - 1\<rparr>) v)
      | H_tick \<Rightarrow> mux_handler_sends i SG_HB wrote v
      | H_message b \<Rightarrow> if b = SG_Closed then (quit v, [], True) else (v, [], False))"

definition mux_Restart_begin :: "muxServer \<Rightarrow> muxServer \<times> mux_act list" where
  "mux_Restart_begin v =
     (if x_restarting v then (v, [])
      else (upd_mux (length (x_gens v) - 1) (\<lambda>g. g\<lparr>q_done := True\<rparr>) (v\<lparr>x_restarting := True\<rparr>),
            case x_control v of None \<Rightarrow> [] | Some c \<Rightarrow> [M_Close c]))"

definition mux_Restart_finish :: "bool \<Rightarrow> muxServer \<Rightarrow> muxServer" where
  "mux_Restart_finish parent_done v =
     (if \<not> x_restarting v then v
      else if parent_done then v\<lparr>x_restarting := False\<rparr>
      else v\<lparr>x_gens := x_gens v @ [new_mux_gen], x_control := None, x_nonce := nonce_Clear (x_nonce v), x_version := 0,
             x_streamCounter := 0, x_sessionCounter := 0, x_restarting := False\<rparr>)"

section \<open>Users\<close>

definition mux_acceptLocalConn :: "muxConfig \<Rightarrow> nat \<Rightarrow> nat \<Rightarrow> string \<Rightarrow> int \<Rightarrow> muxServer \<Rightarrow> muxServer \<times> mux_act list" where
  "mux_acceptLocalConn cfg i c remoteAddr now v =
     (let (lim, got) = lim_acquire (x_limits v); v = v\<lparr>x_limits := lim\<rparr> in
      if \<not> got then (v, [M_Close c])
      else if length (q_local (x_gens v ! i)) < mc_channelSize cfg then
        (let v = upd_mux i (\<lambda>g. g\<lparr>q_local := q_local g @ [\<lparr>lc_conn = c, lc_remoteAddr = remoteAddr, lc_timeCreated = now\<rparr>]\<rparr>)
                   (v\<lparr>x_streamCounter := x_streamCounter v + 1\<rparr>) in
         (if sint (x_sessionCounter v * word_of_nat (mc_muxCon cfg)) \<le> sint (x_streamCounter v) then upd_mux i (ask_conn cfg) v else v, []))
      else (v\<lparr>x_limits := lim_release (x_limits v)\<rparr>, [M_Close c]))"

definition mux_udpAdmitter :: "muxConfig \<Rightarrow> nat \<Rightarrow> nat \<Rightarrow> string \<Rightarrow> int \<Rightarrow> muxServer \<Rightarrow> muxServer \<times> bool" where
  "mux_udpAdmitter cfg i c target now v =
     (let (lim, got) = lim_acquire (x_limits v); v = v\<lparr>x_limits := lim\<rparr> in
      if \<not> got then (v, False)
      else if length (q_local (x_gens v ! i)) < mc_channelSize cfg then
        (upd_mux i (\<lambda>g. ask_conn cfg (g\<lparr>q_local := q_local g @ [\<lparr>lc_conn = c, lc_remoteAddr = target, lc_timeCreated = now\<rparr>]\<rparr>)) v, True)
      else (v\<lparr>x_limits := lim_release (x_limits v)\<rparr>, False))"

section \<open>Sessions\<close>

definition mux_handleLoop :: "nat \<Rightarrow> muxServer \<Rightarrow> muxServer" where
  "mux_handleLoop i v =
     (let g = x_gens v ! i in
      case q_tunnel g of
        (c, _) # ss \<Rightarrow>
          if q_loops g = 0 then v
          else (upd_mux i (\<lambda>g. g\<lparr>q_tunnel := ss\<rparr>) v)
                 \<lparr>x_sessionCounter := x_sessionCounter v + 1,
                  x_sessions := x_sessions v @ [\<lparr>ms_gen = i, ms_conn = c, ms_at = S_head, ms_tokens = 0\<rparr>]\<rparr>
      | [] \<Rightarrow> v)"

definition mux_loop_exit :: "nat \<Rightarrow> muxServer \<Rightarrow> muxServer" where
  "mux_loop_exit i v = (if q_done (x_gens v ! i) then upd_mux i (\<lambda>g. g\<lparr>q_loops := q_loops g - 1\<rparr>) v else v)"

text \<open>The goroutine of a session: the send on its counter; a user taken from the channel (whether a stream opens and takes
  the target); the send that gives a user back; and the end of the generation. \<open>handleSessionError\<close> is the
  way from a stream that does not open to \<open>S_failed\<close> and from there to the end.\<close>

datatype session_event = SE_token | SE_take bool bool | SE_giveback | SE_exit

definition handleSessionError :: "muxConfig \<Rightarrow> nat \<Rightarrow> local_conn \<Rightarrow> muxServer \<Rightarrow> muxServer" where
  "handleSessionError cfg j l v =
     upd_session j (\<lambda>s. s\<lparr>ms_at := S_failed l\<rparr>) (v\<lparr>x_sessionCounter := x_sessionCounter v - 1\<rparr>)"

definition session_take :: "muxConfig \<Rightarrow> nat \<Rightarrow> local_conn \<Rightarrow> bool \<Rightarrow> bool \<Rightarrow> int \<Rightarrow> muxServer \<Rightarrow> muxServer \<times> mux_act list" where
  "session_take cfg j l opened wrote now v =
     (if 3000 < now - lc_timeCreated l then
        (upd_session j (\<lambda>s. s\<lparr>ms_at := S_head, ms_tokens := ms_tokens s - 1\<rparr>) (v\<lparr>x_streamCounter := x_streamCounter v - 1\<rparr>),
         [M_Close (lc_conn l)])
      else if \<not> opened then (handleSessionError cfg j l v, [])
      else if \<not> wrote then (upd_session j (\<lambda>s. s\<lparr>ms_at := S_giveback l\<rparr>) v, [])
      else (upd_session j (\<lambda>s. s\<lparr>ms_at := S_head\<rparr>) (v\<lparr>x_transfers := x_transfers v @ [(j, l)]\<rparr>),
            [M_Target (ms_conn (x_sessions v ! j)) (lc_remoteAddr l)]))"

definition handleSession :: "muxConfig \<Rightarrow> nat \<Rightarrow> session_event \<Rightarrow> int \<Rightarrow> muxServer \<Rightarrow> muxServer \<times> mux_act list" where
  "handleSession cfg j ev now v =
     (let s = x_sessions v ! j; i = ms_gen s; g = x_gens v ! i; room = length (q_local g) < mc_channelSize cfg;
          again = (\<lambda>l g. g\<lparr>q_local := q_local g @ [l]\<rparr>) in
      case (ev, ms_at s) of
        (SE_token, S_head) \<Rightarrow>
          if ms_tokens s < mc_muxCon cfg then (upd_session j (\<lambda>s. s\<lparr>ms_at := S_select, ms_tokens := ms_tokens s + 1\<rparr>) v, []) else (v, [])
      | (SE_take opened wrote, S_select) \<Rightarrow>
          (case q_local g of
             [] \<Rightarrow> (v, [])
           | l # ls \<Rightarrow> session_take cfg j l opened wrote now (upd_mux i (\<lambda>g. g\<lparr>q_local := ls\<rparr>) v))
      | (SE_giveback, S_giveback l) \<Rightarrow>
          if room then (upd_session j (\<lambda>s. s\<lparr>ms_at := S_head\<rparr>) (upd_mux i (again l) v), []) else (v, [])
      | (SE_giveback, S_failed l) \<Rightarrow>
          if room then (upd_session j (\<lambda>s. s\<lparr>ms_at := S_over\<rparr>) (upd_mux i (\<lambda>g. ask_conn cfg (again l g)) v), [M_Close (ms_conn s)]) else (v, [])
      | (SE_exit, S_select) \<Rightarrow>
          if q_done g then (upd_session j (\<lambda>s. s\<lparr>ms_at := S_over\<rparr>) v, [M_Close (ms_conn s)]) else (v, [])
      | _ \<Rightarrow> (v, []))"

text \<open>The goroutine of a stream, when its transfer is over. A receive from the closed counter does not block.\<close>

definition mux_transfer_end :: "nat \<Rightarrow> muxServer \<Rightarrow> muxServer" where
  "mux_transfer_end k v =
     upd_session (fst (x_transfers v ! k)) (\<lambda>s. s\<lparr>ms_tokens := ms_tokens s - 1\<rparr>)
       (v\<lparr>x_transfers := remove_at k (x_transfers v), x_limits := lim_release (x_limits v), x_streamCounter := x_streamCounter v - 1\<rparr>)"

section \<open>Runs\<close>

datatype mux_event =
    X_open nat nat bool
  | X_announced nat "(string \<times> byte) option" "string option" bool bool
  | X_offer nat
  | X_handshake nat bool
  | X_handler nat handler_event bool
  | X_restart_begin
  | X_restart_finish bool
  | X_local nat nat string int
  | X_flow nat nat string int
  | X_loop nat
  | X_loop_exit nat
  | X_session nat session_event int
  | X_transfer_end nat

definition is_gen :: "nat \<Rightarrow> muxServer \<Rightarrow> bool" where
  "is_gen i v \<longleftrightarrow> i < length (x_gens v)"

definition is_session :: "nat \<Rightarrow> muxServer \<Rightarrow> bool" where
  "is_session j v \<longleftrightarrow> j < length (x_sessions v) \<and> is_gen (ms_gen (x_sessions v ! j)) v"

definition serving :: "nat \<Rightarrow> muxServer \<Rightarrow> bool" where
  "serving i v \<longleftrightarrow> is_gen i v \<and> q_phase (x_gens v ! i) = Serving"

fun mux_step :: "muxConfig \<Rightarrow> (nat \<Rightarrow> string option) \<Rightarrow> mux_event \<Rightarrow> muxServer \<Rightarrow> muxServer \<times> mux_act list" where
  "mux_step cfg addr (X_open i c built) v = (if is_gen i v then mux_admit_open cfg addr built i c v else (v, []))"
| "mux_step cfg addr (X_announced k ann fresh wrote built) v =
     (if k < length (x_reading v) \<and> is_gen (fst (x_reading v ! k)) v
      then mux_admit_announced cfg (fst (x_reading v ! k)) (snd (x_reading v ! k)) ann fresh wrote built
             (v\<lparr>x_reading := remove_at k (x_reading v)\<rparr>)
      else (v, []))"
| "mux_step cfg addr (X_offer k) v =
     (if k < length (x_claims v) \<and> is_gen (fst (x_claims v ! k)) v
      then mux_offer (fst (x_claims v ! k)) (snd (x_claims v ! k)) (v\<lparr>x_claims := remove_at k (x_claims v)\<rparr>)
      else (v, []))"
| "mux_step cfg addr (X_handshake i cancelled) v = (if is_gen i v then mux_channelHandshake cfg i cancelled v else v, [])"
| "mux_step cfg addr (X_handler i ev wrote) v =
     (if is_gen i v then (fst (mux_channelHandler i ev wrote v), fst (snd (mux_channelHandler i ev wrote v))) else (v, []))"
| "mux_step cfg addr X_restart_begin v = mux_Restart_begin v"
| "mux_step cfg addr (X_restart_finish parent_done) v = (mux_Restart_finish parent_done v, [])"
| "mux_step cfg addr (X_local i c remote now) v = (if serving i v then mux_acceptLocalConn cfg i c remote now v else (v, []))"
| "mux_step cfg addr (X_flow i c target now) v = (if serving i v then fst (mux_udpAdmitter cfg i c target now v) else v, [])"
| "mux_step cfg addr (X_loop i) v = (if is_gen i v then mux_handleLoop i v else v, [])"
| "mux_step cfg addr (X_loop_exit i) v = (if is_gen i v then mux_loop_exit i v else v, [])"
| "mux_step cfg addr (X_session j ev now) v = (if is_session j v then handleSession cfg j ev now v else (v, []))"
| "mux_step cfg addr (X_transfer_end k) v = (if k < length (x_transfers v) then mux_transfer_end k v else v, [])"

definition mux_run :: "muxConfig \<Rightarrow> (nat \<Rightarrow> string option) \<Rightarrow> mux_event list \<Rightarrow> muxServer \<Rightarrow> muxServer" where
  "mux_run cfg addr evs v = foldl (\<lambda>v e. fst (mux_step cfg addr e v)) v evs"

section \<open>What is counted\<close>

text \<open>The users of the server: in a channel, in the hands of a session, on a stream.\<close>

definition session_users :: "mux_session \<Rightarrow> nat" where
  "session_users s = (case ms_at s of S_giveback _ \<Rightarrow> 1 | S_failed _ \<Rightarrow> 1 | _ \<Rightarrow> 0)"

definition mux_in_service :: "muxServer \<Rightarrow> nat" where
  "mux_in_service v = (\<Sum>g \<leftarrow> x_gens v. length (q_local g)) + (\<Sum>s \<leftarrow> x_sessions v. session_users s) + length (x_transfers v)"

text \<open>A step that gives up a user who waited too long, and one that takes a flow of datagrams.\<close>

definition gives_up :: "mux_event \<Rightarrow> muxServer \<Rightarrow> bool" where
  "gives_up e v =
     (case e of
        X_session j ev now \<Rightarrow>
          (case (ev, ms_at (x_sessions v ! j), q_local (x_gens v ! ms_gen (x_sessions v ! j))) of
             (SE_take _ _, S_select, l # _) \<Rightarrow> is_session j v \<and> 3000 < now - lc_timeCreated l
           | _ \<Rightarrow> False)
      | _ \<Rightarrow> False)"

definition takes_flow :: "muxConfig \<Rightarrow> mux_event \<Rightarrow> muxServer \<Rightarrow> bool" where
  "takes_flow cfg e v = (case e of X_flow i c target now \<Rightarrow> serving i v \<and> snd (mux_udpAdmitter cfg i c target now v) | _ \<Rightarrow> False)"

fun along :: "(mux_event \<Rightarrow> muxServer \<Rightarrow> bool) \<Rightarrow> muxConfig \<Rightarrow> (nat \<Rightarrow> string option) \<Rightarrow> mux_event list \<Rightarrow> muxServer \<Rightarrow> nat" where
  "along P cfg addr [] v = 0"
| "along P cfg addr (e # es) v = (if P e v then 1 else 0) + along P cfg addr es (fst (mux_step cfg addr e v))"

fun restarts :: "mux_event \<Rightarrow> bool" where
  "restarts (X_restart_finish _) = True"
| "restarts _ = False"

lemma upd_mux_fields [simp]:
  "x_limits (upd_mux i f v) = x_limits v" "x_streamCounter (upd_mux i f v) = x_streamCounter v" "x_sessions (upd_mux i f v) = x_sessions v"
  "x_transfers (upd_mux i f v) = x_transfers v" "length (x_gens (upd_mux i f v)) = length (x_gens v)"
  "x_control (upd_mux i f v) = x_control v" "x_sessionCounter (upd_mux i f v) = x_sessionCounter v"
  by (simp_all add: upd_mux_def)

lemma upd_session_fields [simp]:
  "x_limits (upd_session j f v) = x_limits v" "x_streamCounter (upd_session j f v) = x_streamCounter v" "x_gens (upd_session j f v) = x_gens v"
  "x_transfers (upd_session j f v) = x_transfers v" "length (x_sessions (upd_session j f v)) = length (x_sessions v)"
  by (simp_all add: upd_session_def)

lemma in_service_mux:
  "i < length (x_gens v) \<Longrightarrow>
   mux_in_service (upd_mux i f v) + length (q_local (x_gens v ! i)) = mux_in_service v + length (q_local (f (x_gens v ! i)))"
  using sum_update [of i "x_gens v" "\<lambda>g. length (q_local g)" "f (x_gens v ! i)"] by (simp add: mux_in_service_def upd_mux_def)

lemma in_service_session:
  "j < length (x_sessions v) \<Longrightarrow>
   mux_in_service (upd_session j f v) + session_users (x_sessions v ! j) = mux_in_service v + session_users (f (x_sessions v ! j))"
  using sum_update [of j "x_sessions v" session_users "f (x_sessions v ! j)"] by (simp add: mux_in_service_def upd_session_def)

text \<open>Steps that count nothing.\<close>

definition same_books :: "muxServer \<Rightarrow> muxServer \<Rightarrow> bool" where
  "same_books v v' \<longleftrightarrow> x_limits v' = x_limits v \<and> x_streamCounter v' = x_streamCounter v \<and> mux_in_service v' = mux_in_service v"

lemma same_refl: "same_books v v"
  by (simp add: same_books_def)

lemma same_trans: "same_books u v \<Longrightarrow> same_books v w \<Longrightarrow> same_books u w"
  by (simp add: same_books_def)

lemma same_upd: "is_gen i v \<Longrightarrow> length (q_local (f (x_gens v ! i))) = length (q_local (x_gens v ! i)) \<Longrightarrow> same_books v (upd_mux i f v)"
  using in_service_mux [of i v f] by (simp add: same_books_def is_gen_def)

lemma same_fields:
  "x_limits v' = x_limits v \<Longrightarrow> x_streamCounter v' = x_streamCounter v \<Longrightarrow> x_gens v' = x_gens v \<Longrightarrow> x_sessions v' = x_sessions v \<Longrightarrow>
   x_transfers v' = x_transfers v \<Longrightarrow> same_books v v'"
  by (simp add: same_books_def mux_in_service_def)

lemma same_deliver: "is_gen i v \<Longrightarrow> same_books v (fst (mux_deliver cfg built i c v))"
  by (auto simp: mux_deliver_def same_refl intro!: same_upd)

lemma same_open: "is_gen i v \<Longrightarrow> same_books v (fst (mux_admit_open cfg addr built i c v))"
  by (auto simp: mux_admit_open_def same_refl same_deliver split: option.split intro!: same_fields)

lemma same_announced:
  assumes "is_gen i v"
  shows "same_books v (fst (mux_admit_announced cfg i c ann fresh wrote built (v\<lparr>x_reading := rs\<rparr>)))"
proof -
  let ?v = "v\<lparr>x_reading := rs\<rparr>"
  have v: "same_books v ?v" by (rule same_fields) simp_all
  have "same_books ?v (fst (mux_admit_announced cfg i c ann fresh wrote built ?v))"
    using same_deliver [of i ?v] assms
    by (auto simp: mux_admit_announced_def mux_admitControl_def same_refl is_gen_def split: option.split intro!: same_fields)
  then show ?thesis by (rule same_trans [OF v])
qed

lemma same_offer: "is_gen i v \<Longrightarrow> same_books v (fst (mux_offer i cand (v\<lparr>x_claims := cs\<rparr>)))"
  using same_upd [of i "v\<lparr>x_claims := cs\<rparr>"]
  by (auto simp: mux_offer_def is_gen_def intro: same_fields intro!: same_trans [OF same_fields [of "v\<lparr>x_claims := cs\<rparr>" v]])

lemma same_start: "is_gen i v \<Longrightarrow> same_books v (mux_start_rest cfg i v)"
  by (auto simp: mux_start_rest_def intro!: same_upd)

lemma same_handshake:
  assumes "is_gen i v"
  shows "same_books v (mux_channelHandshake cfg i cancelled v)"
proof -
  have "same_books v (mux_start_rest cfg i (upd_mux i (\<lambda>g. g\<lparr>q_handshake := None\<rparr>) (v\<lparr>x_nonce := n, x_version := m, x_control := c\<rparr>)))" for n m c
  proof -
    let ?v = "v\<lparr>x_nonce := n, x_version := m, x_control := c\<rparr>"
    have "same_books v ?v" by (rule same_fields) simp_all
    moreover have "same_books ?v (upd_mux i (\<lambda>g. g\<lparr>q_handshake := None\<rparr>) ?v)" using assms by (intro same_upd) (simp_all add: is_gen_def)
    ultimately show ?thesis using assms by (intro same_trans [OF same_trans same_start]) (simp_all add: is_gen_def)
  qed
  then show ?thesis using assms by (auto simp: mux_channelHandshake_def Let_def same_refl same_start split: option.split)
qed

lemma same_sends: "is_gen i v \<Longrightarrow> same_books v (fst (mux_handler_sends i b wrote v))"
  by (auto simp: mux_handler_sends_def same_refl split: option.split intro!: same_upd)

lemma same_handler:
  assumes "is_gen i v"
  shows "same_books v (fst (mux_channelHandler i ev wrote v))"
proof -
  let ?u = "upd_mux i (\<lambda>g. g\<lparr>q_req := q_req g - 1\<rparr>) v"
  have "same_books v ?u" using assms by (auto intro!: same_upd)
  then have "same_books v (fst (mux_handler_sends i SG_Chan wrote ?u))"
    using assms by (intro same_trans [OF _ same_sends]) (simp_all add: is_gen_def)
  then show ?thesis using assms same_sends [OF assms]
    by (auto simp: mux_channelHandler_def Let_def same_refl split: handler_event.split intro!: same_upd)
qed

lemma same_loop:
  assumes "is_gen i v"
  shows "same_books v (mux_handleLoop i v)" "same_books v (mux_loop_exit i v)"
proof -
  have "same_books v (upd_mux i (\<lambda>g. g\<lparr>q_tunnel := ss\<rparr>) v)" for ss using assms by (intro same_upd) simp_all
  then show "same_books v (mux_handleLoop i v)"
    by (auto simp: mux_handleLoop_def same_refl Let_def same_books_def mux_in_service_def session_users_def split: list.split)
  show "same_books v (mux_loop_exit i v)" using assms by (auto simp: mux_loop_exit_def same_refl intro!: same_upd)
qed

text \<open>Steps that count: a user comes, is given up, or has been served. \<open>books\<close> says how the slots and the counter moved.\<close>

definition books :: "nat \<Rightarrow> nat \<Rightarrow> nat \<Rightarrow> muxServer \<Rightarrow> bool" where
  "books n lost flows v \<longleftrightarrow> rev_good n (x_limits v) \<and> rev_held (x_limits v) = mux_in_service v + lost \<and>
     x_streamCounter v = word_of_int (int (mux_in_service v) - int flows)"

lemma books_same: "books n lost flows v \<Longrightarrow> same_books v v' \<Longrightarrow> books n lost flows v'"
  by (simp add: books_def same_books_def)

lemma one_more: "(word_of_int (int k - int f) :: 32 word) + 1 = word_of_int (int (Suc k) - int f)"
  "(word_of_int (int (Suc k) - int f) :: 32 word) - 1 = word_of_int (int k - int f)"
  by (simp_all add: wi_hom_add [symmetric] wi_hom_sub [symmetric])

lemma in_service_more:
  "mux_in_service (v\<lparr>x_limits := lim\<rparr>) = mux_in_service v" "mux_in_service (v\<lparr>x_streamCounter := c\<rparr>) = mux_in_service v"
  "mux_in_service (v\<lparr>x_sessionCounter := c\<rparr>) = mux_in_service v"
  by (simp_all add: mux_in_service_def)

text \<open>Taking a slot, and giving it back at once when the channel is full.\<close>

lemma slot_taken:
  assumes "books n lost flows v" "lim_acquire (x_limits v) = (lim, got)"
  shows "rev_good n lim" "rev_held lim = mux_in_service v + lost + (if got then 1 else 0)"
    "got \<Longrightarrow> rev_good n (lim_release lim) \<and> rev_held (lim_release lim) = mux_in_service v + lost"
    "\<not> got \<Longrightarrow> books n lost flows (v\<lparr>x_limits := lim\<rparr>)"
    "got \<Longrightarrow> books n lost flows (v\<lparr>x_limits := lim_release lim\<rparr>)"
proof -
  have good: "rev_good n (x_limits v)" using assms(1) by (simp add: books_def)
  show l: "rev_good n lim" "rev_held lim = mux_in_service v + lost + (if got then 1 else 0)"
    using rlim.take_good [OF good] rlim.take_held [OF good] assms by (auto simp: books_def)
  show r: "rev_good n (lim_release lim) \<and> rev_held (lim_release lim) = mux_in_service v + lost" if got
    using rlim.give_good [OF l(1)] l(2) that by simp
  show "\<not> got \<Longrightarrow> books n lost flows (v\<lparr>x_limits := lim\<rparr>)" "got \<Longrightarrow> books n lost flows (v\<lparr>x_limits := lim_release lim\<rparr>)"
    using l r assms(1) by (simp_all add: books_def in_service_more)
qed

lemma books_local:
  assumes "books n lost flows v" "is_gen i v"
  shows "books n lost flows (fst (mux_acceptLocalConn cfg i c remote now v))"
proof -
  obtain lim got where a: "lim_acquire (x_limits v) = (lim, got)" by fastforce
  note t = slot_taken [OF assms(1) a]
  have new: "books n lost flows (upd_mux i (\<lambda>g. g\<lparr>q_local := q_local g @ [x]\<rparr>) (v\<lparr>x_limits := lim, x_streamCounter := x_streamCounter v + 1\<rparr>))"
    if got for x
  proof -
    let ?v = "v\<lparr>x_limits := lim, x_streamCounter := x_streamCounter v + 1\<rparr>"
    have "mux_in_service (upd_mux i (\<lambda>g. g\<lparr>q_local := q_local g @ [x]\<rparr>) ?v) = Suc (mux_in_service v)"
      using in_service_mux [of i ?v "\<lambda>g. g\<lparr>q_local := q_local g @ [x]\<rparr>"] assms(2) by (simp add: is_gen_def in_service_more)
    then show ?thesis using t(1,2) that assms(1) by (simp add: books_def one_more)
  qed
  have ask: "books n lost flows (upd_mux i (ask_conn cfg) u)" if "books n lost flows u" "is_gen i u" for u
    using that by (intro books_same [OF that(1)] same_upd) (simp_all add: ask_conn_def)
  show ?thesis using a t(4,5) new ask [OF new] assms(2)
    by (simp add: mux_acceptLocalConn_def Let_def is_gen_def)
qed

lemma books_flow:
  assumes "books n lost flows v" "is_gen i v"
  shows "books n lost (flows + (if snd (mux_udpAdmitter cfg i c target now v) then 1 else 0)) (fst (mux_udpAdmitter cfg i c target now v))"
proof -
  obtain lim got where a: "lim_acquire (x_limits v) = (lim, got)" by fastforce
  note t = slot_taken [OF assms(1) a]
  have "books n lost (flows + 1) (upd_mux i (\<lambda>g. ask_conn cfg (g\<lparr>q_local := q_local g @ [x]\<rparr>)) (v\<lparr>x_limits := lim\<rparr>))" if got for x
  proof -
    let ?f = "\<lambda>g. ask_conn cfg (g\<lparr>q_local := q_local g @ [x]\<rparr>)"
    have "mux_in_service (upd_mux i ?f (v\<lparr>x_limits := lim\<rparr>)) = Suc (mux_in_service v)"
      using in_service_mux [of i "v\<lparr>x_limits := lim\<rparr>" ?f] assms(2) by (simp add: is_gen_def in_service_more ask_conn_def)
    then show ?thesis using t(1,2) that assms(1) by (simp add: books_def)
  qed
  then show ?thesis using a t(4,5) assms(2) by (simp add: mux_udpAdmitter_def Let_def)
qed

lemma books_transfer_end:
  assumes "books n lost flows v" "k < length (x_transfers v)"
  shows "books n lost flows (mux_transfer_end k v)"
proof -
  have good: "rev_good n (x_limits v)" and held: "rev_held (x_limits v) = mux_in_service v + lost" using assms(1) by (simp_all add: books_def)
  let ?u = "v\<lparr>x_transfers := remove_at k (x_transfers v), x_limits := lim_release (x_limits v), x_streamCounter := x_streamCounter v - 1\<rparr>"
  have u: "mux_in_service v = Suc (mux_in_service ?u)" using assms(2) by (simp add: mux_in_service_def)
  then have "rev_good n (lim_release (x_limits v)) \<and> rev_held (lim_release (x_limits v)) = mux_in_service ?u + lost"
    using rlim.give_good [OF good] held by simp
  then have b: "books n lost flows ?u" using u assms(1) one_more(2) [of "mux_in_service ?u" flows] by (simp add: books_def)
  have "same_books ?u (upd_session j (\<lambda>s. s\<lparr>ms_tokens := ms_tokens s - 1\<rparr>) ?u)" for j
  proof (cases "j < length (x_sessions v)")
    case True
    then show ?thesis using in_service_session [of j ?u "\<lambda>s. s\<lparr>ms_tokens := ms_tokens s - 1\<rparr>"] by (simp add: same_books_def session_users_def)
  next
    case False
    then show ?thesis by (intro same_fields) (simp_all add: upd_session_def list_update_beyond)
  qed
  then show ?thesis using books_same [OF b] by (simp add: mux_transfer_end_def)
qed

text \<open>A session changes hands of a user: what it has before and after, with what the channel has.\<close>

lemma in_service_move:
  assumes "is_session j v" "s = x_sessions v ! j" "g = x_gens v ! ms_gen s"
  shows "mux_in_service (upd_session j f (upd_mux (ms_gen s) h v)) + session_users s + length (q_local g) =
    mux_in_service v + session_users (f s) + length (q_local (h g))"
  using in_service_session [of j "upd_mux (ms_gen s) h v" f] in_service_mux [of "ms_gen s" v h] assms
  by (simp add: is_session_def is_gen_def)

lemma books_moved:
  assumes "books n lost flows v" "mux_in_service v' = mux_in_service v" "x_limits v' = x_limits v" "x_streamCounter v' = x_streamCounter v"
  shows "books n lost flows v'"
  using assms by (simp add: books_def)

lemma books_take:
  assumes "books n lost flows v" "is_session j v" "i = ms_gen (x_sessions v ! j)" "ms_at (x_sessions v ! j) = S_select" "q_local (x_gens v ! i) = l # ls"
  shows "books n (lost + (if 3000 < now - lc_timeCreated l then 1 else 0)) flows
    (fst (session_take cfg j l opened wrote now (upd_mux i (\<lambda>g. g\<lparr>q_local := ls\<rparr>) v)))"
proof -
  let ?h = "\<lambda>g. g\<lparr>q_local := ls\<rparr>"
  let ?u = "upd_mux i ?h v"
  have j: "j < length (x_sessions v)" using assms(2) by (simp add: is_session_def)
  have u: "mux_in_service v = Suc (mux_in_service ?u)"
    using in_service_mux [of i v ?h] assms(2,3,5) by (simp add: is_session_def is_gen_def)
  have z: "session_users (x_sessions v ! j) = 0" using assms(4) by (simp add: session_users_def)
  have m: "mux_in_service (upd_session j f w) = mux_in_service w + session_users (f (x_sessions v ! j))"
    if "x_sessions w = x_sessions v" for f w
    using in_service_session [of j w f] that j z by simp
  consider (late) "3000 < now - lc_timeCreated l" | (shut) "\<not> 3000 < now - lc_timeCreated l" "\<not> opened"
    | (cut) "\<not> 3000 < now - lc_timeCreated l" opened "\<not> wrote" | (sent) "\<not> 3000 < now - lc_timeCreated l" opened wrote by blast
  then show ?thesis
  proof cases
    case late
    then show ?thesis using assms(1) u one_more(2) [of "mux_in_service ?u" flows]
      by (simp add: session_take_def books_def m in_service_more session_users_def)
  next
    case shut
    then show ?thesis using u assms(1)
      by (simp add: session_take_def handleSessionError_def books_def m in_service_more session_users_def)
  next
    case cut
    then show ?thesis using u assms(1) by (simp add: session_take_def books_def m in_service_more session_users_def)
  next
    case sent
    have "mux_in_service (?u\<lparr>x_transfers := x_transfers v @ [(j, l)]\<rparr>) = Suc (mux_in_service ?u)" by (simp add: mux_in_service_def)
    then show ?thesis using sent u assms(1) by (simp add: session_take_def books_def m in_service_more session_users_def)
  qed
qed

lemma books_session:
  assumes "books n lost flows v" "is_session j v"
  shows "books n (lost + (if gives_up (X_session j ev now) v then 1 else 0)) flows (fst (handleSession cfg j ev now v))"
proof -
  let ?s = "x_sessions v ! j"
  let ?i = "ms_gen ?s"
  let ?again = "\<lambda>l g. g\<lparr>q_local := q_local g @ [l]\<rparr>"
  have j: "j < length (x_sessions v)" using assms(2) by (simp add: is_session_def)
  have keep: "books n lost flows (upd_session j f v)" if "session_users (f ?s) = session_users ?s" for f
    using in_service_session [OF j, of f] that by (intro books_moved [OF assms(1)]) simp_all
  have move: "books n lost flows (upd_session j f (upd_mux ?i h v))"
    if "session_users ?s = Suc (session_users (f ?s))" "length (q_local (h (x_gens v ! ?i))) = Suc (length (q_local (x_gens v ! ?i)))" for f h
    using in_service_move [OF assms(2) refl refl, of f h] that by (intro books_moved [OF assms(1)]) simp_all
  show ?thesis
  proof (cases ev)
    case (SE_take opened wrote)
    show ?thesis
    proof (cases "ms_at ?s = S_select \<and> q_local (x_gens v ! ?i) \<noteq> []")
      case True
      then obtain l ls where l: "q_local (x_gens v ! ?i) = l # ls" by (cases "q_local (x_gens v ! ?i)") auto
      show ?thesis using books_take [OF assms refl _ l, of now cfg opened wrote] True l SE_take assms(2)
        by (simp add: handleSession_def gives_up_def Let_def)
    next
      case False
      then show ?thesis using assms(1) SE_take by (auto simp: handleSession_def gives_up_def Let_def split: session_at.split list.split)
    qed
  next
    case SE_giveback
    then show ?thesis using assms(1) move
      by (auto simp: handleSession_def gives_up_def Let_def ask_conn_def session_users_def split: session_at.split)
  qed (use assms(1) keep in \<open>auto simp: handleSession_def gives_up_def Let_def session_users_def split: session_at.split\<close>)
qed

lemma books_restart:
  assumes "books n lost flows v"
  shows "\<exists>f. books n lost f (mux_Restart_finish parent_done v)"
proof -
  let ?v = "v\<lparr>x_gens := x_gens v @ [new_mux_gen], x_control := None, x_nonce := nonce_Clear (x_nonce v), x_version := 0,
    x_streamCounter := 0, x_sessionCounter := 0, x_restarting := False\<rparr>"
  have i: "mux_in_service ?v = mux_in_service v" by (simp add: mux_in_service_def new_mux_gen_def)
  have "books n lost (mux_in_service v) ?v" using assms i by (simp add: books_def)
  moreover have "books n lost flows (v\<lparr>x_restarting := False\<rparr>)" using assms by (intro books_same [OF assms] same_fields) simp_all
  ultimately show ?thesis using assms by (auto simp: mux_Restart_finish_def)
qed

lemma books_restart_begin:
  assumes "books n lost flows v" "x_gens v \<noteq> []"
  shows "books n lost flows (fst (mux_Restart_begin v))"
proof -
  let ?v = "v\<lparr>x_restarting := True\<rparr>"
  have "same_books v ?v" by (rule same_fields) simp_all
  moreover have "same_books ?v (upd_mux (length (x_gens v) - 1) (\<lambda>g. g\<lparr>q_done := True\<rparr>) ?v)"
    using assms(2) by (intro same_upd) (simp_all add: is_gen_def)
  ultimately show ?thesis using assms(1) books_same by (simp add: mux_Restart_begin_def) blast
qed

lemma gens_kept: "length (x_gens v) \<le> length (x_gens (fst (mux_step cfg addr e v)))"
proof (cases e)
  case (X_session j ev now)
  have "length (x_gens (fst (handleSession cfg j ev now v))) = length (x_gens v)"
    by (auto simp: handleSession_def session_take_def handleSessionError_def Let_def split: session_event.split session_at.split list.split)
  then show ?thesis using X_session by simp
qed (auto simp: mux_admit_open_def mux_deliver_def mux_admit_announced_def mux_admitControl_def mux_offer_def mux_channelHandshake_def
  mux_start_rest_def mux_channelHandler_def mux_handler_sends_def mux_Restart_begin_def mux_Restart_finish_def mux_acceptLocalConn_def
  mux_udpAdmitter_def mux_handleLoop_def mux_loop_exit_def mux_transfer_end_def Let_def
  split: option.split prod.split handler_event.split list.split)

lemma books_step:
  assumes "books n lost flows v" "x_gens v \<noteq> []"
  shows "\<exists>f. books n (lost + (if gives_up e v then 1 else 0)) f (fst (mux_step cfg addr e v)) \<and>
    (\<not> restarts e \<longrightarrow> f = flows + (if takes_flow cfg e v then 1 else 0))"
proof (cases e)
  case (X_restart_finish x)
  then show ?thesis using books_restart [OF assms(1)] by (simp add: gives_up_def)
next
  case (X_session j ev now)
  then show ?thesis using books_session [OF assms(1), of j ev now cfg] assms(1)
    by (cases "is_session j v") (auto simp: takes_flow_def gives_up_def split: session_event.split session_at.split list.split)
next
  case (X_flow i c t now)
  then show ?thesis using books_flow [OF assms(1), of i cfg c t now] assms(1) by (auto simp: gives_up_def takes_flow_def serving_def)
next
  case (X_local i c r now)
  then show ?thesis using books_local [OF assms(1), of i cfg c r now] assms(1) by (auto simp: gives_up_def takes_flow_def serving_def)
next
  case (X_transfer_end k)
  then show ?thesis using books_transfer_end [OF assms(1), of k] assms(1) by (auto simp: gives_up_def takes_flow_def)
next
  case X_restart_begin
  then show ?thesis using books_restart_begin [OF assms] by (simp add: gives_up_def takes_flow_def)
qed (use assms(1) books_same [OF assms(1)] in \<open>auto simp: gives_up_def takes_flow_def same_open same_announced same_offer same_handshake same_handler same_loop\<close>)

lemma mux_run_simps [simp]: "mux_run cfg addr [] v = v" "mux_run cfg addr (e # es) v = mux_run cfg addr es (fst (mux_step cfg addr e v))"
  by (simp_all add: mux_run_def)

lemma books_run:
  assumes "books n lost flows v" "x_gens v \<noteq> []"
  shows "\<exists>f. books n (lost + along gives_up cfg addr evs v) f (mux_run cfg addr evs v) \<and>
    (list_all (\<lambda>e. \<not> restarts e) evs \<longrightarrow> f = flows + along (takes_flow cfg) cfg addr evs v)"
  using assms
proof (induction evs arbitrary: v lost flows)
  case (Cons e es)
  let ?v = "fst (mux_step cfg addr e v)"
  obtain f where f: "books n (lost + (if gives_up e v then 1 else 0)) f ?v" "\<not> restarts e \<Longrightarrow> f = flows + (if takes_flow cfg e v then 1 else 0)"
    using books_step [OF Cons.prems] by blast
  have "x_gens ?v \<noteq> []" using gens_kept [of v cfg addr e] Cons.prems(2) by auto
  from Cons.IH [OF f(1) this] f(2) show ?case by (auto simp: add.assoc)
qed auto

lemma new_mux_books:
  assumes "0 < n" "n < 2 ^ 31 - 1"
  shows "books n 0 0 (NewTcpMuxServer (int n) bw)"
proof -
  have "rev_good n (newLimiter (int n) bw) \<and> rev_held (newLimiter (int n) bw) = 0"
    using new_server_ok(1) [OF assms, of bw] by (simp add: slots_ok_def NewTCPServer_def in_service_def gen_held_def new_gen_def)
  then show ?thesis by (simp add: books_def NewTcpMuxServer_def mux_in_service_def new_mux_gen_def)
qed

text \<open>C15. A multiplexed server loses a slot for every user it gives up, and its count of streams drifts with every flow of
  datagrams. In every run, whatever connections, failures and restarts it goes through, the slots taken are the users in
  service together with all the users that were ever closed because they had waited more than three seconds: nothing
  gives those back, and once there were as many as the cap allows, the server serves nobody and refuses everybody.
  While it is not restarted, the counter that decides when another connection is asked for is the number of users in
  service less the number of flows of datagrams ever taken, which are counted out and never in.\<close>

theorem mux_books_balance:
  assumes "0 < n" "n < 2 ^ 31 - 1"
  shows "rev_held (x_limits (mux_run cfg addr evs (NewTcpMuxServer (int n) bw))) =
      mux_in_service (mux_run cfg addr evs (NewTcpMuxServer (int n) bw)) + along gives_up cfg addr evs (NewTcpMuxServer (int n) bw) \<and>
    (along gives_up cfg addr evs (NewTcpMuxServer (int n) bw) = n \<longrightarrow>
      mux_in_service (mux_run cfg addr evs (NewTcpMuxServer (int n) bw)) = 0 \<and>
      \<not> snd (lim_acquire (x_limits (mux_run cfg addr evs (NewTcpMuxServer (int n) bw))))) \<and>
    (list_all (\<lambda>e. \<not> restarts e) evs \<longrightarrow>
      x_streamCounter (mux_run cfg addr evs (NewTcpMuxServer (int n) bw)) =
        word_of_int (int (mux_in_service (mux_run cfg addr evs (NewTcpMuxServer (int n) bw))) -
          int (along (takes_flow cfg) cfg addr evs (NewTcpMuxServer (int n) bw))))"
proof -
  let ?new = "NewTcpMuxServer (int n) bw"
  let ?v = "mux_run cfg addr evs ?new"
  have "x_gens ?new \<noteq> []" by (simp add: NewTcpMuxServer_def)
  from books_run [OF new_mux_books [OF assms] this] obtain f
    where f: "books n (along gives_up cfg addr evs ?new) f ?v" "list_all (\<lambda>e. \<not> restarts e) evs \<Longrightarrow> f = along (takes_flow cfg) cfg addr evs ?new"
    by force
  have good: "rev_good n (x_limits ?v)" and held: "rev_held (x_limits ?v) = mux_in_service ?v + along gives_up cfg addr evs ?new"
    using f(1) by (simp_all add: books_def)
  have "rev_held (x_limits ?v) \<le> n" using good by (auto simp: rev_good_def rev_held_def)
  moreover have "snd (lim_acquire (x_limits ?v)) \<longleftrightarrow> rev_held (x_limits ?v) < n" by (rule rlim.take_iff [OF good])
  ultimately show ?thesis using held f by (auto simp: books_def)
qed

definition mux_demo_config :: muxConfig where
  "mux_demo_config = \<lparr>mc_token = ''t'', mc_channelSize = 2, mc_muxCon = 8, mc_muxVersion = 0, mc_numCPU = 1\<rparr>"

definition mux_demo_events :: "mux_event list" where
  "mux_demo_events = [X_open 0 0 True, X_announced 0 (Some (''t'', SG_ChanV2)) (Some ''n'') True True, X_offer 0, X_handshake 0 False,
     X_open 0 1 True, X_announced 0 (Some (''n'', SG_Pool)) None True True, X_loop 0, X_local 0 2 ''80'' 0, X_session 0 SE_token 0,
     X_session 0 (SE_take True True) 4000]"

theorem mux_books_balance_witness:
  "mux_in_service (mux_run mux_demo_config (\<lambda>_. None) mux_demo_events (NewTcpMuxServer 1 0)) = 0 \<and>
   \<not> snd (lim_acquire (x_limits (mux_run mux_demo_config (\<lambda>_. None) mux_demo_events (NewTcpMuxServer 1 0)))) \<and>
   x_streamCounter (mux_run mux_demo_config (\<lambda>_. None) mux_demo_events (NewTcpMuxServer 1 0)) = 0"
proof -
  have a: "along gives_up mux_demo_config (\<lambda>_. None) mux_demo_events (NewTcpMuxServer 1 0) = 1"
    "along (takes_flow mux_demo_config) mux_demo_config (\<lambda>_. None) mux_demo_events (NewTcpMuxServer 1 0) = 0"
    "list_all (\<lambda>e. \<not> restarts e) mux_demo_events"
    by code_simp+
  show ?thesis using mux_books_balance [of 1 mux_demo_config "\<lambda>_. None" mux_demo_events 0] a by simp
qed

section \<open>A stream that does not take its target\<close>

text \<open>The place of a stream whose target could not be written is never given back. A session that has lost them all stands at
  its channel for good; it is counted as one that can take users.\<close>

lemma failed_write_keeps_token:
  assumes "is_session j v" "ms_at (x_sessions v ! j) = S_select" "q_local (x_gens v ! ms_gen (x_sessions v ! j)) = l # ls"
    "now - lc_timeCreated l \<le> 3000" "length ls < mc_channelSize cfg"
  shows "x_sessions (fst (handleSession cfg j SE_giveback now' (fst (handleSession cfg j (SE_take True False) now v)))) ! j =
    (x_sessions v ! j)\<lparr>ms_at := S_head\<rparr>"
  using assms by (simp add: handleSession_def session_take_def Let_def upd_session_def upd_mux_def is_session_def is_gen_def)

definition stuck :: "muxConfig \<Rightarrow> nat \<Rightarrow> muxServer \<Rightarrow> bool" where
  "stuck cfg j v \<longleftrightarrow> j < length (x_sessions v) \<and> ms_at (x_sessions v ! j) = S_head \<and> mc_muxCon cfg \<le> ms_tokens (x_sessions v ! j) \<and>
     list_all (\<lambda>t. fst t \<noteq> j) (x_transfers v)"

lemma stuck_cong: "x_sessions v' = x_sessions v \<Longrightarrow> x_transfers v' = x_transfers v \<Longrightarrow> stuck cfg j v' = stuck cfg j v"
  by (simp add: stuck_def)

lemma stuck_other: "stuck cfg j v \<Longrightarrow> k \<noteq> j \<Longrightarrow> x_sessions v' = (x_sessions v)[k := s] \<Longrightarrow>
    set (x_transfers v') \<subseteq> set (x_transfers v) \<union> {t. fst t = k} \<Longrightarrow> stuck cfg j v'"
  by (auto simp: stuck_def list_all_iff)

lemma stuck_session:
  assumes "stuck cfg j v"
  shows "stuck cfg j (fst (handleSession cfg k ev now v))"
proof (cases "k = j")
  case True
  then have "fst (handleSession cfg k ev now v) = v" using assms
    by (auto simp: handleSession_def stuck_def Let_def split: session_event.split)
  then show ?thesis using assms by simp
next
  case False
  have "\<exists>s. x_sessions (fst (handleSession cfg k ev now v)) = (x_sessions v)[k := s] \<and>
      set (x_transfers (fst (handleSession cfg k ev now v))) \<subseteq> set (x_transfers v) \<union> {t. fst t = k}"
    by (auto simp: handleSession_def session_take_def handleSessionError_def Let_def upd_session_def upd_mux_def
        split: session_event.split session_at.split list.split intro: exI [of _ "x_sessions v ! k"])
  then show ?thesis using stuck_other [OF assms False] by blast
qed

lemma stuck_forever:
  assumes "stuck cfg j v"
  shows "stuck cfg j (mux_run cfg addr evs v)"
  using assms
proof (induction evs arbitrary: v)
  case (Cons e es)
  have "stuck cfg j (fst (mux_step cfg addr e v))"
  proof (cases e)
    case (X_session k ev now)
    then show ?thesis using stuck_session [OF Cons.prems] Cons.prems by simp
  next
    case (X_transfer_end k)
    have "fst (x_transfers v ! k) \<noteq> j" if "k < length (x_transfers v)"
      using Cons.prems nth_mem [OF that] by (auto simp: stuck_def list_all_iff)
    then show ?thesis using Cons.prems X_transfer_end set_remove_at [of k "x_transfers v"]
      by (auto simp: mux_transfer_end_def upd_session_def intro!: stuck_other [OF Cons.prems])
  next
    case (X_loop i)
    then show ?thesis using Cons.prems by (auto simp: mux_handleLoop_def Let_def stuck_def nth_append split: list.split)
  qed (use Cons.prems in \<open>auto simp: mux_admit_open_def mux_deliver_def mux_admit_announced_def mux_admitControl_def mux_offer_def mux_channelHandshake_def
    mux_start_rest_def mux_channelHandler_def mux_handler_sends_def mux_Restart_begin_def mux_Restart_finish_def mux_acceptLocalConn_def
    mux_udpAdmitter_def mux_loop_exit_def Let_def upd_mux_def stuck_def
    split: option.split prod.split handler_event.split list.split\<close>)
  then show ?case using Cons.IH by simp
qed simp

section \<open>The two ends agree on a version\<close>

text \<open>After the current handshake both ends build their sessions for the version the server resolved, whatever the two
  files say. After the older one they agree exactly when the files resolve alike.\<close>

lemma negotiated_versions_agree:
  "smuxCfg (server_muxVersion sc (ResolveMuxVersion sc)) = smuxCfg (client_muxVersion cc (ResolveMuxVersion sc))"
  by (simp add: smuxCfg_def server_muxVersion_def client_muxVersion_def ResolveMuxVersion_def)

lemma legacy_versions_agree_iff:
  "smuxCfg (server_muxVersion sc 0) = smuxCfg (client_muxVersion cc 0) \<longleftrightarrow> (cc = 2) = (sc \<noteq> 0 \<and> sc \<noteq> 1)"
  by (auto simp: smuxCfg_def server_muxVersion_def client_muxVersion_def ResolveMuxVersion_def MuxVersionAuto_def)

end
