(* ===== verification/SniCarrier.thy ===== *)
theory SniCarrier
  imports Fec Wire GoStrings
begin

text \<open>
  The carrier that opens with a TLS hello (\<open>internal/snispoof/hello.go\<close>, \<open>internal/tunnel/l3/carrier_sni.go\<close>): the message
  with its fixed size, reading the name back, and the wrapper that sends it once and drops the peer's. The carrier
  below is the list of datagrams on it; the three random blocks are arguments. Also the two small decisions of
  \<open>segoverflow.go\<close>.
\<close>

section \<open>The hello\<close>

definition helloSize :: nat where "helloSize = 517"
definition maxSNI :: nat where "maxSNI = 219"

definition helloPrefix :: string where "helloPrefix = ''1603010200010001fc0303''"

definition helloMiddle :: string where
  "helloMiddle = ''0024130213031301c02cc030c02bc02fcca9cca8c024c028c023c027009f009e006b006700ff0100018f0000''"

definition helloSuffix :: string where
  "helloSuffix = ''000b000403000102000a00160014001d0017001e0019001801000101010201030104002300000010000e000c02683208687474702f312e310016000000170000000d002a0028040305030603080708080809080a080b080408050806040105010601030303010302040205020602002b00050403040303002d00020101003300260024001d0020''"

text \<open>\<open>hex.DecodeString\<close>, for both cases of the letters.\<close>

definition hex_nibble :: "char \<Rightarrow> nat option" where
  "hex_nibble c =
     (let n = of_char c in
      if 48 \<le> n \<and> n \<le> 57 then Some (n - 48)
      else if 97 \<le> n \<and> n \<le> 102 then Some (n - 87)
      else if 65 \<le> n \<and> n \<le> 70 then Some (n - 55) else None)"

fun hex_decode :: "string \<Rightarrow> bytes option" where
  "hex_decode [] = Some []"
| "hex_decode [_] = None"
| "hex_decode (a # b # s) =
     (case (hex_nibble a, hex_nibble b) of
        (Some x, Some y) \<Rightarrow> map_option ((#) (word_of_nat (16 * x + y))) (hex_decode s)
      | _ \<Rightarrow> None)"

datatype hello_error = NoDomain | DomainTooLong nat | BadTemplate | WrongSize nat

definition BuildHello :: "bytes \<Rightarrow> bytes \<Rightarrow> bytes \<Rightarrow> string \<Rightarrow> hello_error + bytes" where
  "BuildHello random sessionID keyShare sni =
     (if sni = [] then Inl NoDomain
      else if maxSNI < length sni then Inl (DomainTooLong (length sni))
      else case (hex_decode helloPrefix, hex_decode helloMiddle, hex_decode helloSuffix) of
             (Some pre, Some middle, Some tail) \<Rightarrow>
               let name = str_bytes sni; pad = maxSNI - length name;
                   out = pre @ random @ [0x20] @ sessionID @ middle @
                     be_put 2 (word_of_nat (length name + 5) :: u16) @ be_put 2 (word_of_nat (length name + 3) :: u16) @ [0x00] @
                     be_put 2 (word_of_nat (length name) :: u16) @ name @ tail @ keyShare @ [0x00, 0x15] @
                     be_put 2 (word_of_nat pad :: u16) @ replicate pad 0
               in if length out \<noteq> helloSize then Inl (WrongSize (length out)) else Inr out
           | _ \<Rightarrow> Inl BadTemplate)"

definition nameLenAt :: nat where "nameLenAt = 125"

definition SNIOf :: "bytes \<Rightarrow> string option" where
  "SNIOf hello =
     (if length hello < helloSize then None
      else let n = unat (be_get (slice nameLenAt (nameLenAt + 2) hello) :: u16) in
           if length hello < nameLenAt + 2 + n then None
           else Some (bytes_str (slice (nameLenAt + 2) (nameLenAt + 2 + n) hello)))"

definition DefaultDomain :: string where "DefaultDomain = ''mci.ir''"

definition DomainOr :: "string \<Rightarrow> string" where
  "DomainOr domain = (if domain = [] then DefaultDomain else domain)"

definition LooksLikeHello :: "bytes \<Rightarrow> bool" where
  "LooksLikeHello p \<longleftrightarrow> length p = helloSize \<and> p ! 0 = 0x16 \<and> p ! 1 = 0x03 \<and> p ! 2 = 0x01 \<and> p ! 5 = 0x01"

section \<open>The carrier\<close>

record sniCarrier =
  sc_hello :: bytes
  sc_sent :: bool

definition openSNI :: "bytes \<Rightarrow> bytes \<Rightarrow> bytes \<Rightarrow> string \<Rightarrow> hello_error + sniCarrier" where
  "openSNI random sessionID keyShare domain =
     (case BuildHello random sessionID keyShare (DomainOr domain) of
        Inl e \<Rightarrow> Inl e
      | Inr hello \<Rightarrow> Inr \<lparr>sc_hello = hello, sc_sent = False\<rparr>)"

definition sni_WriteTo :: "bytes \<Rightarrow> sniCarrier \<Rightarrow> sniCarrier \<times> bytes list" where
  "sni_WriteTo p c = (c\<lparr>sc_sent := True\<rparr>, if sc_sent c then [p] else [sc_hello c, p])"

text \<open>A read of what is on the carrier below: the datagram handed up and what is left; \<open>None\<close> while there is nothing.\<close>

fun sni_ReadFrom :: "bytes list \<Rightarrow> (bytes \<times> bytes list) option" where
  "sni_ReadFrom [] = None"
| "sni_ReadFrom (p # ps) = (if LooksLikeHello p then sni_ReadFrom ps else Some (p, ps))"

section \<open>Reading from the device\<close>

text \<open>Whether an error is the one of too many segments is an argument. Times in nanoseconds; zero is \<open>IsZero\<close>.\<close>

definition segmentOverflow :: "int \<Rightarrow> bool \<Rightarrow> int \<times> bool" where
  "segmentOverflow n too_many = (if \<not> too_many then (0, False) else (if n < 0 then 0 else n, True))"

record reportEvery =
  re_every :: int
  re_last :: "int option"
  re_count :: u64

definition report_allow :: "int \<Rightarrow> reportEvery \<Rightarrow> reportEvery \<times> u64 \<times> bool" where
  "report_allow now r =
     (let r = r\<lparr>re_count := re_count r + 1\<rparr> in
      case re_last r of
        Some at \<Rightarrow> if now - at < re_every r then (r, re_count r, False) else (r\<lparr>re_last := Some now\<rparr>, re_count r, True)
      | None \<Rightarrow> (r\<lparr>re_last := Some now\<rparr>, re_count r, True))"

section \<open>Every hello is one size and names its domain\<close>

lemma hello_templates:
  "\<exists>p. hex_decode helloPrefix = Some p \<and> length p = 11 \<and> p ! 0 = 0x16 \<and> p ! 1 = 0x03 \<and> p ! 2 = 0x01 \<and> p ! 5 = 0x01"
  "\<exists>m. hex_decode helloMiddle = Some m \<and> length m = 44" "\<exists>s. hex_decode helloSuffix = Some s \<and> length s = 135"
proof -
  have "list_all (\<lambda>(s, n). map_option length (hex_decode s) = Some n) [(helloPrefix, 11), (helloMiddle, 44), (helloSuffix, 135)]"
    by code_simp
  moreover have "map_option (\<lambda>p. (p ! 0, p ! 1, p ! 2, p ! 5)) (hex_decode helloPrefix) = Some (0x16, 0x03, 0x01, 0x01)" by code_simp
  ultimately show "\<exists>p. hex_decode helloPrefix = Some p \<and> length p = 11 \<and> p ! 0 = 0x16 \<and> p ! 1 = 0x03 \<and> p ! 2 = 0x01 \<and> p ! 5 = 0x01"
    "\<exists>m. hex_decode helloMiddle = Some m \<and> length m = 44" "\<exists>s. hex_decode helloSuffix = Some s \<and> length s = 135"
    by auto
qed

lemma slice_after: "length a = k \<Longrightarrow> length m = n \<Longrightarrow> slice k (k + n) (a @ m @ b) = m"
  by (auto simp: slice_def)

lemma BuildHello_ok:
  assumes "length random = 32" "length sessionID = 32" "length keyShare = 32" "sni \<noteq> []" "length sni \<le> maxSNI"
  shows "\<exists>hello. BuildHello random sessionID keyShare sni = Inr hello \<and> length hello = helloSize \<and> LooksLikeHello hello \<and> SNIOf hello = Some sni"
proof -
  obtain p where p: "hex_decode helloPrefix = Some p" "length p = 11" "p ! 0 = 0x16" "p ! 1 = 0x03" "p ! 2 = 0x01" "p ! 5 = 0x01"
    using hello_templates(1) by blast
  obtain m s where ms: "hex_decode helloMiddle = Some m" "length m = 44" "hex_decode helloSuffix = Some s" "length s = 135"
    using hello_templates(2,3) by blast
  let ?a = "p @ random @ [0x20] @ sessionID @ m @ be_put 2 (word_of_nat (length sni + 5) :: u16) @ be_put 2 (word_of_nat (length sni + 3) :: u16) @ [0x00]"
  let ?b = "s @ keyShare @ [0x00, 0x15] @ be_put 2 (word_of_nat (maxSNI - length sni) :: u16) @ replicate (maxSNI - length sni) 0"
  let ?n = "be_put 2 (word_of_nat (length sni) :: u16)"
  let ?h = "?a @ ?n @ str_bytes sni @ ?b"
  have a: "length ?a = nameLenAt" using assms p(2) ms by (simp add: nameLenAt_def)
  have l: "length ?h = helloSize" using assms p(2) ms by (simp add: helloSize_def maxSNI_def)
  have b: "BuildHello random sessionID keyShare sni = Inr ?h"
    using assms p(1) ms l by (simp add: BuildHello_def Let_def)
  have "slice nameLenAt (nameLenAt + 2) ?h = ?n" by (rule slice_after [OF a]) simp
  moreover have "unat (word_of_nat (length sni) :: u16) = length sni" using assms(5) by (intro unat_of_nat16) (simp add: maxSNI_def)
  moreover have "slice (nameLenAt + 2) (nameLenAt + 2 + length sni) ?h = str_bytes sni"
    using slice_after [of "?a @ ?n" "nameLenAt + 2" "str_bytes sni" "length sni" ?b] a by simp
  ultimately have "SNIOf ?h = Some sni" using l assms(5) by (simp add: SNIOf_def Let_def nameLenAt_def helloSize_def maxSNI_def)
  moreover have "LooksLikeHello ?h" using l p by (simp add: LooksLikeHello_def nth_append)
  ultimately show ?thesis using b l by blast
qed

section \<open>The tunnel's own datagrams pass\<close>

text \<open>A datagram of the tunnel, or a shard of its error correction, begins with a byte that is not the one of a TLS record.\<close>

lemma tunnel_datagram_passes: "known_kind (h_kind h) \<Longrightarrow> \<not> LooksLikeHello (header_bytes h @ p)"
  by (auto simp: LooksLikeHello_def header_bytes_eq known_kind_def kind_defs)

lemma shard_passes: "fec_kind_ok h \<Longrightarrow> \<not> LooksLikeHello (fec_frame h p)"
  by (auto simp: LooksLikeHello_def fec_frame_def fec_kind_ok_def fec_consts putFECHeader_def nth_append split: prod.splits)

fun sni_writes :: "bytes list \<Rightarrow> sniCarrier \<Rightarrow> sniCarrier \<times> bytes list" where
  "sni_writes [] c = (c, [])"
| "sni_writes (p # ps) c = (let (c, out) = sni_WriteTo p c; (c, rest) = sni_writes ps c in (c, out @ rest))"

fun sni_reads :: "nat \<Rightarrow> bytes list \<Rightarrow> bytes list" where
  "sni_reads 0 below = []"
| "sni_reads (Suc n) below = (case sni_ReadFrom below of None \<Rightarrow> [] | Some (p, rest) \<Rightarrow> p # sni_reads n rest)"

lemma sni_writes_eq: "snd (sni_writes ps c) = (if ps = [] \<or> sc_sent c then ps else sc_hello c # ps)"
proof (induction ps arbitrary: c)
  case (Cons p ps)
  have "snd (sni_writes ps (c\<lparr>sc_sent := True\<rparr>)) = ps" using Cons by simp
  then show ?case by (simp add: sni_WriteTo_def split: prod.split) (metis snd_conv)
qed simp

lemma sni_reads_eq: "list_all (\<lambda>p. \<not> LooksLikeHello p) ps \<Longrightarrow> sni_reads (length ps) ps = ps"
  by (induction ps) simp_all

text \<open>
  Between two ends that open the carrier with any domain that fits, the first thing on the wire is a hello of the fixed
  size that names it, and every datagram of the tunnel arrives, the hello being dropped.
\<close>

lemma sni_carries_tunnel:
  assumes "openSNI random sessionID keyShare domain = Inr c" "length random = 32" "length sessionID = 32" "length keyShare = 32"
    "length domain \<le> maxSNI" "ps \<noteq> []" "list_all (\<lambda>p. \<exists>h x. known_kind (h_kind h) \<and> p = header_bytes h @ x) ps"
  shows "SNIOf (hd (snd (sni_writes ps c))) = Some (DomainOr domain) \<and> sni_reads (length ps) (snd (sni_writes ps c)) = ps"
proof -
  have "DomainOr domain \<noteq> []" "length (DomainOr domain) \<le> maxSNI" using assms(5) by (auto simp: DomainOr_def DefaultDomain_def maxSNI_def)
  then have h: "LooksLikeHello (sc_hello c)" "SNIOf (sc_hello c) = Some (DomainOr domain)" "\<not> sc_sent c"
    using BuildHello_ok [OF assms(2-4), of "DomainOr domain"] assms(1) by (auto simp: openSNI_def)
  have "list_all (\<lambda>p. \<not> LooksLikeHello p) ps" using assms(7) tunnel_datagram_passes by (auto simp: list_all_iff)
  then have r: "sni_reads (length ps) ps = ps" by (rule sni_reads_eq)
  have "sni_reads (length ps) (sc_hello c # ps) = sni_reads (length ps) ps" using h(1) by (cases "length ps") simp_all
  then show ?thesis using h assms(6) r by (simp add: sni_writes_eq)
qed

text \<open>A report is let through at most once in \<open>every\<close>, and the first one always is.\<close>

lemma report_spacing:
  assumes "report_allow now r = (r', n, True)" "report_allow now' r' = (r'', n', True)"
  shows "re_every r \<le> now' - now"
  using assms by (auto simp: report_allow_def Let_def split: option.splits if_splits)

lemma first_report_allowed: "re_last r = None \<Longrightarrow> snd (snd (report_allow now r))"
  by (simp add: report_allow_def Let_def)

end
