(* ===== verification/Socks.thy ===== *)
theory Socks
  imports GoNet
begin

text \<open>
  The built-in SOCKS5 proxy and its client (\<open>internal/socks\<close>): the server's handshake and requests (\<open>socks5.go\<close>), the
  client's side of it (\<open>dialer.go\<close>), and the relay of datagrams (\<open>udpassociate.go\<close>). A connection is the bytes that
  arrive on it and the bytes written; a read that does not get all it asks for fails. Whether a dial succeeds is an argument.
\<close>

section \<open>The server\<close>

definition ver5 :: byte where "ver5 = 0x05"
definition authUP :: byte where "authUP = 0x02"
definition authNone :: byte where "authNone = 0x00"
definition cmdConn :: byte where "cmdConn = 0x01"
definition cmdUDP :: byte where "cmdUDP = 0x03"
definition atypIPv4 :: byte where "atypIPv4 = 0x01"
definition atypHost :: byte where "atypHost = 0x03"
definition atypIPv6 :: byte where "atypIPv6 = 0x04"
definition repOK :: byte where "repOK = 0x00"

lemmas socks_consts = ver5_def authUP_def authNone_def cmdConn_def cmdUDP_def atypIPv4_def atypHost_def atypIPv6_def repOK_def

definition read_full :: "nat \<Rightarrow> bytes \<Rightarrow> (bytes \<times> bytes) option" where
  "read_full n src = (if length src < n then None else Some (take n src, drop n src))"

definition hasMethod :: "bytes \<Rightarrow> byte \<Rightarrow> bool" where
  "hasMethod methods m = list_ex (\<lambda>x. x = m) methods"

definition socks_reply :: "byte \<Rightarrow> bytes" where
  "socks_reply code = [ver5, code, 0x00, atypIPv4, 0, 0, 0, 0, 0, 0]"

text \<open>The verdict, and the rest of the stream when there is one.\<close>

definition readAuth :: "(string \<Rightarrow> string \<Rightarrow> bool) \<Rightarrow> bytes \<Rightarrow> bool \<times> bytes" where
  "readAuth auth src =
     (case read_full 2 src of
        None \<Rightarrow> (False, [])
      | Some (h, src) \<Rightarrow>
          if h ! 0 \<noteq> 0x01 then (False, src)
          else case read_full (unat (h ! 1)) src of
                 None \<Rightarrow> (False, [])
               | Some (user, src) \<Rightarrow>
                   (case read_full 1 src of
                      None \<Rightarrow> (False, [])
                    | Some (pl, src) \<Rightarrow>
                        (case read_full (unat (pl ! 0)) src of
                           None \<Rightarrow> (False, [])
                         | Some (pass, src) \<Rightarrow> (auth (bytes_str user) (bytes_str pass), src))))"

definition readAddr :: "byte \<Rightarrow> bytes \<Rightarrow> (string \<times> bytes) option" where
  "readAddr atyp src =
     (if atyp = atypIPv4 then map_option (\<lambda>(b, src). (ip_string b, src)) (read_full 4 src)
      else if atyp = atypIPv6 then map_option (\<lambda>(b, src). (ip_string b, src)) (read_full 16 src)
      else if atyp = atypHost then
        (case read_full 1 src of
           None \<Rightarrow> None
         | Some (l, src) \<Rightarrow> map_option (\<lambda>(b, src). (bytes_str b, src)) (read_full (unat (l ! 0)) src))
      else None)"

text \<open>What became of a connection: closed, joined to a target with the bytes after the request, or a relay was opened.\<close>

datatype socks_end = Hung_up | Joined string bytes | Dial_refused string | Associated

definition socks_request :: "(string \<Rightarrow> bool) \<Rightarrow> bytes \<Rightarrow> bytes \<times> socks_end" where
  "socks_request dial src =
     (case read_full 4 src of
        None \<Rightarrow> (socks_reply 0x07, Hung_up)
      | Some (head, src) \<Rightarrow>
          if head ! 0 \<noteq> ver5 then (socks_reply 0x07, Hung_up)
          else case readAddr (head ! 3) src of
                 None \<Rightarrow> (socks_reply 0x08, Hung_up)
               | Some (host, src) \<Rightarrow>
                   (case read_full 2 src of
                      None \<Rightarrow> (socks_reply 0x01, Hung_up)
                    | Some (portBuf, src) \<Rightarrow>
                        if head ! 1 = cmdConn then
                          (let target = join_host_port host (itoa (int (unat (be_get portBuf :: u16)))) in
                           if dial target then (socks_reply repOK, Joined target src) else (socks_reply 0x05, Dial_refused target))
                        else if head ! 1 = cmdUDP then ([], Associated)
                        else (socks_reply 0x07, Hung_up)))"

definition socks_handle :: "(string \<Rightarrow> string \<Rightarrow> bool) option \<Rightarrow> (string \<Rightarrow> bool) \<Rightarrow> bytes \<Rightarrow> bytes \<times> socks_end" where
  "socks_handle auth dial src =
     (case read_full 2 src of
        None \<Rightarrow> ([], Hung_up)
      | Some (br, src) \<Rightarrow>
          if br ! 0 \<noteq> ver5 then ([], Hung_up)
          else case read_full (unat (br ! 1)) src of
                 None \<Rightarrow> ([], Hung_up)
               | Some (methods, src) \<Rightarrow>
                   (case auth of
                      None \<Rightarrow>
                        if \<not> hasMethod methods authNone then ([ver5, 0xFF], Hung_up)
                        else let (out, r) = socks_request dial src in ([ver5, authNone] @ out, r)
                    | Some auth \<Rightarrow>
                        if \<not> hasMethod methods authUP then ([ver5, 0xFF], Hung_up)
                        else let (ok, src) = readAuth auth src in
                             if \<not> ok then ([ver5, authUP] @ [0x01, 0x01], Hung_up)
                             else let (out, r) = socks_request dial src in ([ver5, authUP] @ [0x01, 0x00] @ out, r)))"

section \<open>The client\<close>

datatype socks_error = ReadFailed | MethodRejected | AuthFailed | ConnectFailed byte | UnknownAddressType byte

definition offer_message :: "string \<Rightarrow> string \<Rightarrow> bytes" where
  "offer_message user pass = [ver5, 0x01, if user = [] \<and> pass = [] then authNone else authUP]"

definition auth_message :: "string \<Rightarrow> string \<Rightarrow> bytes" where
  "auth_message user pass = [0x01, word_of_nat (length user)] @ str_bytes user @ [word_of_nat (length pass)] @ str_bytes pass"

definition connect_message :: "string \<Rightarrow> int \<Rightarrow> bytes" where
  "connect_message host port =
     [ver5, cmdConn, 0x00, atypHost, word_of_nat (length host)] @ str_bytes host @ be_put 2 (word_of_int port :: u16)"

definition connect_reply :: "bytes \<Rightarrow> socks_error + bytes" where
  "connect_reply src =
     (case read_full 4 src of
        None \<Rightarrow> Inl ReadFailed
      | Some (head, src) \<Rightarrow>
          if head ! 1 \<noteq> repOK then Inl (ConnectFailed (head ! 1))
          else let rest = (\<lambda>skip src. case read_full skip src of None \<Rightarrow> Inl ReadFailed | Some (_, src) \<Rightarrow> Inr src) in
            if head ! 3 = atypIPv4 then rest (4 + 2) src
            else if head ! 3 = atypIPv6 then rest (16 + 2) src
            else if head ! 3 = atypHost then
              (case read_full 1 src of None \<Rightarrow> Inl ReadFailed | Some (l, src) \<Rightarrow> rest (unat (l ! 0) + 2) src)
            else Inl (UnknownAddressType (head ! 3)))"

text \<open>What \<open>Negotiate\<close> writes and how it ends, given the bytes that arrive; the writes succeed. On success the rest of
  the stream is what the caller reads next.\<close>

definition Negotiate :: "string \<Rightarrow> string \<Rightarrow> string \<Rightarrow> int \<Rightarrow> bytes \<Rightarrow> bytes \<times> (socks_error + bytes)" where
  "Negotiate user pass host port src =
     (let noAuth = (user = [] \<and> pass = []); want = (if noAuth then authNone else authUP); w1 = offer_message user pass in
      case read_full 2 src of
        None \<Rightarrow> (w1, Inl ReadFailed)
      | Some (resp, src) \<Rightarrow>
          if resp ! 0 \<noteq> ver5 \<or> resp ! 1 \<noteq> want then (w1, Inl MethodRejected)
          else if noAuth then (w1 @ connect_message host port, connect_reply src)
          else let w2 = w1 @ auth_message user pass in
               case read_full 2 src of
                 None \<Rightarrow> (w2, Inl ReadFailed)
               | Some (ar, src) \<Rightarrow>
                   if ar ! 1 \<noteq> 0x00 then (w2, Inl AuthFailed)
                   else (w2 @ connect_message host port, connect_reply src))"

section \<open>Nobody is served without credentials\<close>

lemma read_full_append: "n = length a \<Longrightarrow> read_full n (a @ b) = Some (a, b)"
  by (simp add: read_full_def)

lemma read_full_some: "read_full n src = Some (a, b) \<Longrightarrow> src = a @ b \<and> length a = n"
  by (auto simp: read_full_def split: if_splits)

lemma length_bytes_str: "length (bytes_str b) = length b"
  by (simp add: bytes_str_def)

lemma readAuth_true:
  assumes "readAuth auth src = (True, rest)"
  shows "\<exists>user pass. auth user pass \<and> length user < 256 \<and> length pass < 256 \<and> src = auth_message user pass @ rest"
proof -
  obtain h s1 u s2 p s3 w where r: "read_full 2 src = Some (h, s1)" "h ! 0 = 0x01" "read_full (unat (h ! 1)) s1 = Some (u, s2)"
    "read_full 1 s2 = Some (p, s3)" "read_full (unat (p ! 0)) s3 = Some (w, rest)" "auth (bytes_str u) (bytes_str w)"
    using assms by (auto simp: readAuth_def split: option.splits if_splits prod.splits)
  note f = r(1,3-5) [THEN read_full_some]
  obtain h1 p0 where hp: "h = [0x01, h1]" "p = [p0]" using f(1,3) r(2) by (auto simp: length_Suc_conv numeral_2_eq_2)
  then have l: "length u = unat h1" "length w = unat p0" using f by simp_all
  then have w: "word_of_nat (length u) = h1" "word_of_nat (length w) = p0" by simp_all
  have "src = auth_message (bytes_str u) (bytes_str w) @ rest"
    using f hp w by (simp add: auth_message_def length_bytes_str)
  moreover have "length (bytes_str u) < 256" "length (bytes_str w) < 256" using l by (simp_all add: length_bytes_str)
  ultimately show ?thesis using r(6) by blast
qed

text \<open>A proxy with a password dials nothing and relays nothing unless the bytes of the connection hold credentials it accepts.\<close>

lemma socks_needs_credentials:
  assumes "socks_handle (Some auth) dial src = (out, r)" "r \<noteq> Hung_up"
  shows "\<exists>methods user pass rest. auth user pass \<and> authUP \<in> set methods \<and> src = [ver5, word_of_nat (length methods)] @ methods @ auth_message user pass @ rest"
proof -
  obtain br s1 methods s2 rest where r: "read_full 2 src = Some (br, s1)" "br ! 0 = ver5" "read_full (unat (br ! 1)) s1 = Some (methods, s2)"
    "hasMethod methods authUP" "readAuth auth s2 = (True, rest)"
    using assms by (auto simp: socks_handle_def Let_def split: option.splits if_splits prod.splits)
  note f = r(1,3) [THEN read_full_some]
  obtain b1 where b: "br = [ver5, b1]" using f(1) r(2) by (auto simp: length_Suc_conv numeral_2_eq_2)
  obtain user pass where "auth user pass" "s2 = auth_message user pass @ rest" using readAuth_true [OF r(5)] by blast
  moreover have "word_of_nat (length methods) = b1" using f b by simp
  moreover have "authUP \<in> set methods" using r(4) by (auto simp: hasMethod_def list_ex_iff)
  ultimately show ?thesis using f b by (metis append_Cons append_Nil append_assoc)
qed

section \<open>A client reaches its target\<close>

lemma readAuth_message: "length user < 256 \<Longrightarrow> length pass < 256 \<Longrightarrow> readAuth auth (auth_message user pass @ rest) = (auth user pass, rest)"
  using read_full_append [of 2 "[0x01, word_of_nat (length user) :: byte]"] read_full_append [of 1 "[word_of_nat (length pass) :: byte]"]
    read_full_append [of "length user" "str_bytes user"] read_full_append [of "length pass" "str_bytes pass"]
  by (simp add: readAuth_def auth_message_def unat_of_nat)

lemma request_message:
  assumes "length host < 256" "0 \<le> port" "port < 65536"
  shows "socks_request dial (connect_message host port @ rest) =
    (let target = join_host_port host (itoa port) in
     if dial target then (socks_reply repOK, Joined target rest) else (socks_reply 0x05, Dial_refused target))"
proof -
  have "unat (word_of_int port :: u16) = nat port" using assms(2,3) by (simp add: unat_eq_nat_uint uint_word_of_int)
  then have p: "int (unat (word_of_int port :: u16)) = port" using assms(2) by simp
  show ?thesis
    using read_full_append [of 4 "[ver5, cmdConn, 0x00, atypHost]"] read_full_append [of 1 "[word_of_nat (length host) :: byte]"]
      read_full_append [of "length host" "str_bytes host"] read_full_append [of 2 "be_put 2 (word_of_int port :: u16)"] assms(1) p
    by (simp add: socks_request_def connect_message_def readAddr_def unat_of_nat) (simp add: socks_consts)
qed

lemma connect_reply_ok: "connect_reply (socks_reply repOK @ back) = Inr back"
  by (simp add: connect_reply_def socks_reply_def read_full_def socks_consts)

text \<open>
  Connected to each other, the client writes a request that the server reads as the target it was given, and the two
  streams are joined at the byte after the handshake; with credentials the server refuses, both ends know.
\<close>

definition socks_writes :: "string \<Rightarrow> string \<Rightarrow> string \<Rightarrow> int \<Rightarrow> bytes" where
  "socks_writes user pass host port =
     offer_message user pass @ (if user = [] \<and> pass = [] then [] else auth_message user pass) @ connect_message host port"

lemma socks_meets:
  assumes "length user < 256" "length pass < 256" "length host < 256" "0 \<le> port" "port < 65536" "dial (join_host_port host (itoa port))"
    "case auth of None \<Rightarrow> user = [] \<and> pass = [] | Some a \<Rightarrow> a user pass \<and> \<not> (user = [] \<and> pass = [])"
    "socks_handle auth dial (socks_writes user pass host port @ data) = (out, r)"
  shows "r = Joined (join_host_port host (itoa port)) data \<and> Negotiate user pass host port (out @ back) = (socks_writes user pass host port, Inr back)"
proof (cases auth)
  case None
  then have "out = [ver5, authNone] @ socks_reply repOK" "r = Joined (join_host_port host (itoa port)) data"
    using assms(3-8) request_message [OF assms(3-5), of dial data]
    by (simp_all add: socks_writes_def socks_handle_def offer_message_def hasMethod_def read_full_def)
  then show ?thesis using None assms(7) connect_reply_ok
    by (simp add: Negotiate_def socks_writes_def read_full_def)
next
  case (Some a)
  then have "out = [ver5, authUP] @ [0x01, 0x00] @ socks_reply repOK" "r = Joined (join_host_port host (itoa port)) data"
    using assms(3-8) request_message [OF assms(3-5), of dial data] readAuth_message [OF assms(1,2), of a "connect_message host port @ data"]
    by (auto simp add: socks_writes_def socks_handle_def offer_message_def hasMethod_def read_full_def)
  then show ?thesis using Some assms(7) connect_reply_ok
    by (auto simp: Negotiate_def socks_writes_def read_full_def)
qed

section \<open>Relaying datagrams\<close>

text \<open>Destination host and port, payload, and the header to put in front of replies.\<close>

definition parseUDPDatagram :: "bytes \<Rightarrow> (string \<times> nat \<times> bytes \<times> bytes) option" where
  "parseUDPDatagram b =
     (let fin = (\<lambda>host pos. Some (host, unat (be_get (slice pos (pos + 2) b) :: u16), drop (pos + 2) b, take (pos + 2) b)) in
      if length b < 4 \<or> b ! 2 \<noteq> 0x00 then None
      else if b ! 3 = atypIPv4 then (if length b < 4 + 4 + 2 then None else fin (ip_string (slice 4 8 b)) 8)
      else if b ! 3 = atypIPv6 then (if length b < 4 + 16 + 2 then None else fin (ip_string (slice 4 20 b)) 20)
      else if b ! 3 = atypHost then
        (if length b < 4 + 1 then None
         else let l = unat (b ! 4) in
              if length b < 5 + l + 2 then None else fin (bytes_str (slice 5 (5 + l) b)) (5 + l))
      else None)"

definition udpBindReply :: "bytes \<Rightarrow> int \<Rightarrow> bytes" where
  "udpBindReply ip port =
     [ver5, repOK, 0x00] @
     (case to4 ip of Some ip4 \<Rightarrow> [atypIPv4] @ ip4 | None \<Rightarrow> [atypIPv6] @ ip) @ be_put 2 (word_of_int port :: u16)"

text \<open>A relay: who its client is, once it was heard, and for each open destination the header of replies. Addresses are
  an IP and a port.\<close>

record udpRelay =
  rl_client :: "(bytes \<times> int) option"
  rl_flows :: "(string \<times> bytes) list"

datatype relay_out = Send_to string bytes | Send_back "bytes \<times> int" bytes

definition relay_forward :: "bool \<Rightarrow> string \<Rightarrow> bytes \<Rightarrow> bytes \<Rightarrow> udpRelay \<Rightarrow> udpRelay \<times> relay_out list" where
  "relay_forward dialled dst data header r =
     (if map_of (rl_flows r) dst \<noteq> None then (r, [Send_to dst data])
      else if \<not> dialled then (r, [])
      else (r\<lparr>rl_flows := AList.update dst header (rl_flows r)\<rparr>, [Send_to dst data]))"

definition relay_serve :: "bool \<Rightarrow> bytes \<times> int \<Rightarrow> bytes \<Rightarrow> udpRelay \<Rightarrow> udpRelay \<times> relay_out list" where
  "relay_serve dialled from b r =
     (let go = (\<lambda>r. case parseUDPDatagram b of
                      None \<Rightarrow> (r, [])
                    | Some (host, port, data, hdr) \<Rightarrow> relay_forward dialled (join_host_port host (itoa (int port))) data hdr r)
      in case rl_client r of
           None \<Rightarrow> go (r\<lparr>rl_client := Some from\<rparr>)
         | Some c \<Rightarrow> if snd from \<noteq> snd c \<or> \<not> ip_equal (fst from) (fst c) then (r, []) else go r)"

text \<open>
  A reply from a destination goes behind its header into a buffer of 64 KiB, which cuts it; whether it can be written to
  the client is an argument. The pump of a destination ends on a failed write, and when the destination is idle.
\<close>

definition relayBuffer :: nat where "relayBuffer = 64 * 1024"

definition relay_pump_end :: "string \<Rightarrow> udpRelay \<Rightarrow> udpRelay" where
  "relay_pump_end dst r = r\<lparr>rl_flows := AList.delete dst (rl_flows r)\<rparr>"

definition relay_reply :: "bool \<Rightarrow> string \<Rightarrow> bytes \<Rightarrow> udpRelay \<Rightarrow> udpRelay \<times> relay_out list" where
  "relay_reply wrote dst data r =
     (case map_of (rl_flows r) dst of
        None \<Rightarrow> (r, [])
      | Some hdr \<Rightarrow>
          (case rl_client r of
             None \<Rightarrow> (relay_pump_end dst r, [])
           | Some c \<Rightarrow>
               if wrote then (r, [Send_back c (take relayBuffer hdr @ take (relayBuffer - length hdr) data)])
               else (relay_pump_end dst r, [])))"

datatype relay_event = R_datagram bool "bytes \<times> int" bytes | R_reply bool string bytes | R_end string

fun relay_step :: "relay_event \<Rightarrow> udpRelay \<Rightarrow> udpRelay \<times> relay_out list" where
  "relay_step (R_datagram dialled from b) r = relay_serve dialled from b r"
| "relay_step (R_reply wrote dst data) r = relay_reply wrote dst data r"
| "relay_step (R_end dst) r = (relay_pump_end dst r, [])"

fun relay_run :: "relay_event list \<Rightarrow> udpRelay \<Rightarrow> udpRelay \<times> relay_out list" where
  "relay_run [] r = (r, [])"
| "relay_run (e # es) r = (let (r, a) = relay_step e r; (r, b) = relay_run es r in (r, a @ b))"

lemma relay_client_kept: "rl_client r = Some c \<Longrightarrow> rl_client (fst (relay_step e r)) = Some c"
  by (cases e) (auto simp: relay_serve_def relay_forward_def relay_reply_def relay_pump_end_def Let_def split: option.split)

lemma relay_run_Cons:
  "relay_run (e # es) r = (fst (relay_run es (fst (relay_step e r))), snd (relay_step e r) @ snd (relay_run es (fst (relay_step e r))))"
  by (simp add: Let_def case_prod_beta)

declare relay_run.simps(2) [simp del]

definition goes_to :: "bytes \<times> int \<Rightarrow> relay_out \<Rightarrow> bool" where
  "goes_to c out = (case out of Send_back to _ \<Rightarrow> to = c | Send_to _ _ \<Rightarrow> True)"

text \<open>Once the relay knows its client it sends replies to nobody else, and what anybody else sends is dropped.\<close>

lemma relay_serves_one_client:
  assumes "rl_client r = Some c"
  shows "rl_client (fst (relay_run es r)) = Some c \<and> list_all (goes_to c) (snd (relay_run es r))"
  using assms
proof (induction es arbitrary: r)
  case (Cons e es)
  have "list_all (goes_to c) (snd (relay_step e r))" using Cons.prems
    by (cases e) (auto simp: relay_serve_def relay_forward_def relay_reply_def goes_to_def Let_def split: option.split)
  then show ?case using Cons.IH [OF relay_client_kept [OF Cons.prems]] by (simp add: relay_run_Cons)
qed simp

lemma relay_drops_strangers:
  "rl_client r = Some c \<Longrightarrow> snd from \<noteq> snd c \<Longrightarrow> relay_serve dialled from b r = (r, [])"
  by (simp add: relay_serve_def)

text \<open>A reply is read by the client as coming from where its datagram went.\<close>

lemma reply_header_roundtrip:
  assumes "parseUDPDatagram b = Some (host, port, data, hdr)"
  shows "parseUDPDatagram (hdr @ d) = Some (host, port, d, hdr)"
proof -
  have go: "parseUDPDatagram (take (pos + 2) b @ d) = Some (host, port, d, take (pos + 2) b)"
    if "pos + 2 \<le> length b" "port = unat (be_get (slice pos (pos + 2) b) :: u16)"
      "b ! 3 = atypIPv4 \<and> pos = 8 \<and> host = ip_string (slice 4 8 b) \<or> b ! 3 = atypIPv6 \<and> pos = 20 \<and> host = ip_string (slice 4 20 b) \<or>
       b ! 3 = atypHost \<and> pos = 5 + unat (b ! 4) \<and> host = bytes_str (slice 5 (5 + unat (b ! 4)) b)" "b ! 2 = 0" for pos
  proof -
    note t = that
    have p: "4 \<le> pos" using t(3) by auto
    have sl: "slice i j (take (pos + 2) b @ d) = slice i j b" if "j \<le> pos + 2" for i j
    proof -
      have "slice i j (take (pos + 2) b @ d) = slice i j (take (pos + 2) b)"
        using that \<open>pos + 2 \<le> length b\<close> by (intro slice_append_left) simp
      also have "\<dots> = slice i j b" using diff_le_mono [OF that, of i] by (simp add: slice_def drop_take min_def)
      finally show ?thesis .
    qed
    have n: "(take (pos + 2) b @ d) ! i = b ! i" if "i < pos + 2" for i using that \<open>pos + 2 \<le> length b\<close> by (simp add: nth_append)
    have dr: "drop (pos + 2) (take (pos + 2) b @ d) = d" "take (pos + 2) (take (pos + 2) b @ d) = take (pos + 2) b"
      using \<open>pos + 2 \<le> length b\<close> by simp_all
    let ?t = "take (pos + 2) b @ d"
    have f: "length ?t = pos + 2 + length d" "?t ! 2 = 0" "?t ! 3 = b ! 3" "slice pos (pos + 2) ?t = slice pos (pos + 2) b"
      using \<open>pos + 2 \<le> length b\<close> p n [of 2] n [of 3] sl [of "pos + 2" pos] t(4) by simp_all
    have c: "atypIPv6 \<noteq> atypIPv4" "atypHost \<noteq> atypIPv4" "atypHost \<noteq> atypIPv6" by (simp_all add: socks_consts)
    consider "b ! 3 = atypIPv4" "pos = 8" "host = ip_string (slice 4 8 b)" | "b ! 3 = atypIPv6" "pos = 20" "host = ip_string (slice 4 20 b)"
      | "b ! 3 = atypHost" "pos = 5 + unat (b ! 4)" "host = bytes_str (slice 5 (5 + unat (b ! 4)) b)" using t(3) by blast
    then show ?thesis
    proof cases
      case 1
      then show ?thesis unfolding parseUDPDatagram_def Let_def f using sl [of 8 4] dr f(4) t(2) by simp
    next
      case 2
      then show ?thesis unfolding parseUDPDatagram_def Let_def f using sl [of 20 4] dr f(4) t(2) c by simp
    next
      case 3
      then show ?thesis unfolding parseUDPDatagram_def Let_def f using sl [of pos 5] n [of 4] p dr f(4) t(2) c by simp
    qed
  qed
  show ?thesis using assms go [of 8] go [of 20] go [of "5 + unat (b ! 4)"]
    by (auto simp: parseUDPDatagram_def [of b] Let_def split: if_splits)
qed

lemma header_short: "parseUDPDatagram b = Some (host, port, data, hdr) \<Longrightarrow> length hdr \<le> 262"
proof -
  assume h: "parseUDPDatagram b = Some (host, port, data, hdr)"
  have "unat (b ! 4) \<le> 255" using unat_byte_less [of "b ! 4"] by linarith
  then show ?thesis using h by (auto simp: parseUDPDatagram_def Let_def split: if_splits)
qed

text \<open>A header that a datagram for \<open>dst\<close> came with.\<close>

definition names_dst :: "string \<Rightarrow> bytes \<Rightarrow> bool" where
  "names_dst dst hdr \<longleftrightarrow>
     (case parseUDPDatagram hdr of None \<Rightarrow> False | Some (host, port, d, h) \<Rightarrow> dst = join_host_port host (itoa (int port)) \<and> d = [] \<and> h = hdr)"

definition relay_named :: "udpRelay \<Rightarrow> bool" where
  "relay_named r \<longleftrightarrow> list_all (\<lambda>(dst, hdr). names_dst dst hdr) (rl_flows r)"

text \<open>What the client gets back opens with the name of the destination it came from, and the reply follows, cut only
  by the buffer.\<close>

fun answers :: "relay_event \<Rightarrow> relay_out list \<Rightarrow> bool" where
  "answers (R_reply wrote dst data) outs =
     list_all (\<lambda>out. case out of
         Send_to _ _ \<Rightarrow> False
       | Send_back _ b \<Rightarrow>
           (case parseUDPDatagram b of
              None \<Rightarrow> False
            | Some (host, port, d, hdr) \<Rightarrow>
                dst = join_host_port host (itoa (int port)) \<and> d = take (relayBuffer - length hdr) data \<and> relayBuffer - 262 \<le> relayBuffer - length hdr)) outs"
| "answers e outs = True"

lemma AList_update_all: "list_all P xs \<Longrightarrow> P (k, v) \<Longrightarrow> list_all P (AList.update k v xs)"
  by (induction xs) auto

lemma relay_named_step: "relay_named r \<Longrightarrow> relay_named (fst (relay_step e r))"
proof (cases e)
  case (R_datagram dialled src b)
  assume r: "relay_named r"
  have "names_dst (join_host_port host (itoa (int port))) hdr" if "parseUDPDatagram b = Some (host, port, data, hdr)" for host port data hdr
    using reply_header_roundtrip [OF that, of "[]"] by (simp add: names_dst_def)
  then have "relay_named (fst (relay_forward dialled (join_host_port host (itoa (int port))) data hdr r'))"
    if "parseUDPDatagram b = Some (host, port, data, hdr)" "rl_flows r' = rl_flows r" for host port data hdr r'
    using r that by (auto simp: relay_forward_def relay_named_def intro!: AList_update_all)
  then show ?thesis using r R_datagram by (auto simp: relay_serve_def Let_def relay_named_def split: option.split)
qed (auto simp: relay_reply_def relay_pump_end_def relay_named_def list_all_iff AList.delete_eq split: option.split)

lemma relay_answers_named: "relay_named r \<Longrightarrow> answers e (snd (relay_step e r))"
proof (cases e)
  case (R_reply wrote dst data)
  assume r: "relay_named r"
  have "case parseUDPDatagram (take relayBuffer hdr @ d) of None \<Rightarrow> False
      | Some (host, port, d', h) \<Rightarrow> dst = join_host_port host (itoa (int port)) \<and> d' = d \<and> h = hdr \<and> length hdr \<le> 262"
    if "map_of (rl_flows r) dst = Some hdr" for hdr d
  proof -
    have "names_dst dst hdr" using r map_of_SomeD [OF that] by (auto simp: relay_named_def list_all_iff)
    then obtain host port where h: "parseUDPDatagram hdr = Some (host, port, [], hdr)" "dst = join_host_port host (itoa (int port))"
      by (auto simp: names_dst_def split: option.splits)
    show ?thesis using reply_header_roundtrip [OF h(1), of d] header_short [OF h(1)] h(2) by (simp add: relayBuffer_def)
  qed
  note names = this
  show ?thesis
  proof (cases "map_of (rl_flows r) dst")
    case (Some hdr)
    show ?thesis using names [OF Some, of "take (relayBuffer - length hdr) data"] Some R_reply
      by (cases "rl_client r") (auto simp: relay_reply_def split: option.split_asm)
  qed (simp add: R_reply relay_reply_def)
qed simp_all

lemma bind_reply_read: "length ip = 4 \<or> length ip = 16 \<Longrightarrow> connect_reply (udpBindReply ip port @ back) = Inr back"
  by (auto simp: connect_reply_def udpBindReply_def to4_def read_full_def socks_consts v4_in_v6_def)

end
