(* ===== verification/Metrics.thy ===== *)
theory Metrics
  imports Prelude
begin

text \<open>
  What a running tunnel reports about itself (\<open>internal/metrics/metrics.go\<close>, \<open>pool.go\<close>) and how the process starts doing so
  (\<open>cmd/cmd.go\<close>). The package's variables are one record per process; the snapshot on disk is a value or nothing, the
  JSON around it is a library. Times are nanoseconds. What the KCP library has counted is an argument; the formatted uptime and
  the loss percentage, a floating-point figure, are left out.
\<close>

section \<open>What a process knows\<close>

record localServiceState =
  ls_Addr :: string
  ls_Why :: string
  ls_Failures :: u64
  ls_Since :: int

record poolStats =
  ps_Live :: int
  ps_Target :: int
  ps_Configured :: int
  ps_Mbps :: int

text \<open>The last hop's state is a pointer: \<open>mv_localService\<close> holds the address with what is stored there. No address is used
  twice while somebody may still hold it, so addresses are numbered in the order of allocation.\<close>

record metrics_vars =
  mv_peerAddr :: "string option"
  mv_connected :: "bool option"
  mv_localService :: "(nat \<times> localServiceState) option"
  mv_allocated :: nat
  mv_pool :: poolStats
  mv_bytesIn :: u64
  mv_bytesOut :: u64

definition no_pool :: poolStats where
  "no_pool = \<lparr>ps_Live = 0, ps_Target = 0, ps_Configured = 0, ps_Mbps = 0\<rparr>"

definition new_process :: metrics_vars where
  "new_process = \<lparr>mv_peerAddr = None, mv_connected = None, mv_localService = None, mv_allocated = 0, mv_pool = no_pool, mv_bytesIn = 0, mv_bytesOut = 0\<rparr>"

definition ReportPeer :: "string \<Rightarrow> metrics_vars \<Rightarrow> metrics_vars" where
  "ReportPeer addr p = p\<lparr>mv_peerAddr := Some addr, mv_connected := Some True\<rparr>"

definition ClearPeer :: "metrics_vars \<Rightarrow> metrics_vars" where
  "ClearPeer p = p\<lparr>mv_peerAddr := None, mv_connected := Some False\<rparr>"

definition currentPeer :: "metrics_vars \<Rightarrow> string" where
  "currentPeer p = (case mv_peerAddr p of Some a \<Rightarrow> a | None \<Rightarrow> [])"

definition ReportPool :: "int \<Rightarrow> int \<Rightarrow> int \<Rightarrow> int \<Rightarrow> metrics_vars \<Rightarrow> metrics_vars" where
  "ReportPool live target configured mbps p = p\<lparr>mv_pool := \<lparr>ps_Live = live, ps_Target = target, ps_Configured = configured, ps_Mbps = mbps\<rparr>\<rparr>"

definition ClearPool :: "metrics_vars \<Rightarrow> metrics_vars" where
  "ClearPool p = p\<lparr>mv_pool := no_pool\<rparr>"

text \<open>One round of the loop of \<open>ReportLocalDialFailure\<close>, with the value it loaded; it returns when the swap succeeds.\<close>

definition dial_failure_next :: "string \<Rightarrow> string \<Rightarrow> int \<Rightarrow> localServiceState option \<Rightarrow> localServiceState" where
  "dial_failure_next addr why now old =
     (case old of
        Some o' \<Rightarrow>
          if ls_Addr o' = addr \<and> ls_Why o' = why
          then \<lparr>ls_Addr = addr, ls_Why = why, ls_Failures = ls_Failures o' + 1, ls_Since = ls_Since o'\<rparr>
          else \<lparr>ls_Addr = addr, ls_Why = why, ls_Failures = 1, ls_Since = now\<rparr>
      | None \<Rightarrow> \<lparr>ls_Addr = addr, ls_Why = why, ls_Failures = 1, ls_Since = now\<rparr>)"

definition ReportLocalDialFailure ::
  "string \<Rightarrow> string \<Rightarrow> int \<Rightarrow> (nat \<times> localServiceState) option \<Rightarrow> metrics_vars \<Rightarrow> metrics_vars \<times> bool" where
  "ReportLocalDialFailure addr why now old p =
     (let new = (mv_allocated p, dial_failure_next addr why now (map_option snd old)); p1 = p\<lparr>mv_allocated := mv_allocated p + 1\<rparr> in
      if map_option fst (mv_localService p) = map_option fst old then (p1\<lparr>mv_localService := Some new\<rparr>, True) else (p1, False))"

definition ReportLocalDialSuccess :: "metrics_vars \<Rightarrow> metrics_vars" where
  "ReportLocalDialSuccess p = (if mv_localService p \<noteq> None then p\<lparr>mv_localService := None\<rparr> else p)"

definition AddBytes :: "u64 \<Rightarrow> u64 \<Rightarrow> metrics_vars \<Rightarrow> metrics_vars" where
  "AddBytes i o' p = p\<lparr>mv_bytesIn := mv_bytesIn p + i, mv_bytesOut := mv_bytesOut p + o'\<rparr>"

text \<open>A read or a write on the tunnel's side of a connection that moved \<open>n\<close> bytes.\<close>

definition counted_Read :: "nat \<Rightarrow> metrics_vars \<Rightarrow> metrics_vars" where
  "counted_Read n p = (if 0 < n then p\<lparr>mv_bytesIn := mv_bytesIn p + word_of_nat n\<rparr> else p)"

definition counted_Write :: "nat \<Rightarrow> metrics_vars \<Rightarrow> metrics_vars" where
  "counted_Write n p = (if 0 < n then p\<lparr>mv_bytesOut := mv_bytesOut p + word_of_nat n\<rparr> else p)"

definition Traffic :: "metrics_vars \<Rightarrow> u64 \<times> u64" where
  "Traffic p = (mv_bytesIn p, mv_bytesOut p)"

section \<open>Snapshots\<close>

record kcpStats =
  ks_PacketsIn :: u64
  ks_PacketsOut :: u64
  ks_Retransmitted :: u64
  ks_Lost :: u64
  ks_Duplicated :: u64
  ks_FECRecovered :: u64
  ks_FECErrors :: u64

record snapshot =
  sn_Name :: string
  sn_Transport :: string
  sn_Role :: string
  sn_Taken :: int
  sn_BytesIn :: u64
  sn_BytesOut :: u64
  sn_Peer :: string
  sn_Connected :: "bool option"
  sn_KCP :: "kcpStats option"
  sn_Pool :: "poolStats option"
  sn_LocalService :: "localServiceState option"

text \<open>A collector has its own accessors, or none; what they and the KCP library return is the argument \<open>rd\<close> of a snapshot.\<close>

record readings =
  rd_now :: int
  rd_bytesIn :: u64
  rd_bytesOut :: u64
  rd_snmp :: kcpStats

record collector =
  co_baseIn :: u64
  co_baseOut :: u64
  co_name :: string
  co_transport :: string
  co_role :: string
  co_bytesIn :: bool
  co_bytesOut :: bool

definition NewCollector :: "string \<times> string \<times> string \<Rightarrow> bool \<Rightarrow> bool \<Rightarrow> snapshot option \<Rightarrow> collector" where
  "NewCollector who bytesIn bytesOut file =
     (let c = \<lparr>co_baseIn = 0, co_baseOut = 0, co_name = fst who, co_transport = fst (snd who), co_role = snd (snd who),
               co_bytesIn = bytesIn, co_bytesOut = bytesOut\<rparr> in
      case file of None \<Rightarrow> c | Some prev \<Rightarrow> c\<lparr>co_baseIn := sn_BytesIn prev, co_baseOut := sn_BytesOut prev\<rparr>)"

definition collector_Snapshot :: "readings \<Rightarrow> metrics_vars \<Rightarrow> collector \<Rightarrow> snapshot" where
  "collector_Snapshot rd p c =
     \<lparr>sn_Name = co_name c, sn_Transport = co_transport c, sn_Role = co_role c, sn_Taken = rd_now rd,
      sn_BytesIn = (if co_bytesIn c then rd_bytesIn rd else co_baseIn c + fst (Traffic p)),
      sn_BytesOut = (if co_bytesOut c then rd_bytesOut rd else co_baseOut c + snd (Traffic p)),
      sn_Peer = currentPeer p, sn_Connected = mv_connected p,
      sn_KCP = (if co_transport c = ''kcp'' then Some (rd_snmp rd) else None),
      sn_Pool = (if 0 < ps_Configured (mv_pool p) then Some (mv_pool p) else None),
      sn_LocalService = map_option snd (mv_localService p)\<rparr>"

text \<open>A file that cannot be written stays as it was: the snapshot goes to a temporary file first.\<close>

definition collector_Write :: "bool \<Rightarrow> readings \<Rightarrow> metrics_vars \<Rightarrow> collector \<Rightarrow> snapshot option \<Rightarrow> snapshot option" where
  "collector_Write ok rd p c file = (if ok then Some (collector_Snapshot rd p c) else file)"

section \<open>A tunnel over its runs\<close>

text \<open>The file, the process and its collector. A changed configuration file starts the engine again in the same process,
  and with it a new collector; only a restart of the service begins with new variables.\<close>

record metrics_world =
  mw_file :: "snapshot option"
  mw_vars :: metrics_vars
  mw_collector :: collector

datatype metrics_event = ME_traffic u64 u64 | ME_write bool readings | ME_reload | ME_restart

text \<open>\<open>startMetrics\<close>, and \<open>startMetricsWithTraffic\<close> for an engine that counts its own traffic.\<close>

type_synonym tunnel_id = "string \<times> string \<times> string"

definition startMetrics :: "tunnel_id \<Rightarrow> bool \<Rightarrow> metrics_world \<Rightarrow> metrics_world" where
  "startMetrics who own w = (if fst who = [] then w else w\<lparr>mw_collector := NewCollector who own own (mw_file w)\<rparr>)"

fun metrics_step :: "tunnel_id \<Rightarrow> bool \<Rightarrow> metrics_event \<Rightarrow> metrics_world \<Rightarrow> metrics_world" where
  "metrics_step who own (ME_traffic i o') w = w\<lparr>mw_vars := AddBytes i o' (mw_vars w)\<rparr>"
| "metrics_step who own (ME_write ok rd) w = w\<lparr>mw_file := collector_Write ok rd (mw_vars w) (mw_collector w) (mw_file w)\<rparr>"
| "metrics_step who own ME_reload w = startMetrics who own w"
| "metrics_step who own ME_restart w = startMetrics who own (w\<lparr>mw_vars := new_process\<rparr>)"

definition metrics_run :: "tunnel_id \<Rightarrow> bool \<Rightarrow> metrics_event list \<Rightarrow> metrics_world \<Rightarrow> metrics_world" where
  "metrics_run who own evs w = foldl (\<lambda>w e. metrics_step who own e w) w evs"

lemma metrics_run_simps [simp]: "metrics_run who own [] w = w" "metrics_run who own (e # es) w = metrics_run who own es (metrics_step who own e w)"
  "metrics_run who own (a @ b) w = metrics_run who own b (metrics_run who own a w)"
  by (simp_all add: metrics_run_def)

section \<open>The last hop\<close>

text \<open>Goroutines that report failures of one kind at once. Each loads the pointer, builds the next value and swaps, and goes
  round again when the swap fails; a success may come between any two of their steps. The last field counts the reports that
  have returned since the last success.\<close>

record dial_world =
  dw_vars :: metrics_vars
  dw_held :: "nat \<Rightarrow> (nat \<times> localServiceState) option option"
  dw_returned :: nat

datatype dial_event = DL_load nat | DL_swap nat int | DL_success

fun dial_step :: "string \<Rightarrow> string \<Rightarrow> dial_event \<Rightarrow> dial_world \<Rightarrow> dial_world" where
  "dial_step addr why (DL_load t) w = w\<lparr>dw_held := (dw_held w)(t := Some (mv_localService (dw_vars w)))\<rparr>"
| "dial_step addr why (DL_swap t now) w =
     (case dw_held w t of
        None \<Rightarrow> w
      | Some old \<Rightarrow>
          (case ReportLocalDialFailure addr why now old (dw_vars w) of (p, ok) \<Rightarrow>
             w\<lparr>dw_vars := p, dw_held := (dw_held w)(t := None), dw_returned := (if ok then dw_returned w + 1 else dw_returned w)\<rparr>))"
| "dial_step addr why DL_success w =
     w\<lparr>dw_vars := ReportLocalDialSuccess (dw_vars w), dw_returned := 0\<rparr>"

definition dial_start :: dial_world where
  "dial_start = \<lparr>dw_vars = new_process, dw_held = (\<lambda>_. None), dw_returned = 0\<rparr>"

definition dial_run :: "string \<Rightarrow> string \<Rightarrow> dial_event list \<Rightarrow> dial_world" where
  "dial_run addr why evs = foldl (\<lambda>w e. dial_step addr why e w) dial_start evs"

text \<open>No goroutine holds an address that has not been given out, or another value under the current one.\<close>

definition held_ok :: "metrics_vars \<Rightarrow> (nat \<times> localServiceState) option \<Rightarrow> bool" where
  "held_ok p old \<longleftrightarrow> (case old of None \<Rightarrow> True | Some (a, s) \<Rightarrow> a < mv_allocated p \<and> (\<forall>s'. mv_localService p = Some (a, s') \<longrightarrow> s' = s))"

definition counted_ok :: "string \<Rightarrow> string \<Rightarrow> nat \<Rightarrow> localServiceState option \<Rightarrow> bool" where
  "counted_ok addr why k l \<longleftrightarrow>
     (case l of None \<Rightarrow> k = 0 | Some s \<Rightarrow> 0 < k \<and> ls_Addr s = addr \<and> ls_Why s = why \<and> ls_Failures s = word_of_nat k)"

definition dial_inv :: "string \<Rightarrow> string \<Rightarrow> dial_world \<Rightarrow> bool" where
  "dial_inv addr why w \<longleftrightarrow>
     held_ok (dw_vars w) (mv_localService (dw_vars w)) \<and> (\<forall>t old. dw_held w t = Some old \<longrightarrow> held_ok (dw_vars w) old) \<and>
     counted_ok addr why (dw_returned w) (map_option snd (mv_localService (dw_vars w)))"

lemma held_ok_current: "held_ok p old \<Longrightarrow> map_option fst (mv_localService p) = map_option fst old \<Longrightarrow> old = mv_localService p"
  by (cases old; cases "mv_localService p") (auto simp: held_ok_def)

lemma counted_ok_next: "counted_ok addr why k l \<Longrightarrow> counted_ok addr why (k + 1) (Some (dial_failure_next addr why now l))"
  by (auto simp: counted_ok_def dial_failure_next_def split: option.splits)

lemma held_ok_swap:
  assumes "held_ok p old" "ReportLocalDialFailure addr why now old' p = (p', ok)"
  shows "held_ok p' old"
  using assms by (cases old) (auto simp: held_ok_def ReportLocalDialFailure_def Let_def split: if_splits)

lemma dial_inv_load: "dial_inv addr why w \<Longrightarrow> dial_inv addr why (dial_step addr why (DL_load t) w)"
  by (simp add: dial_inv_def)

lemma dial_inv_success: "dial_inv addr why w \<Longrightarrow> dial_inv addr why (dial_step addr why DL_success w)"
proof -
  assume "dial_inv addr why w"
  moreover have "held_ok (ReportLocalDialSuccess p) old" if "held_ok p old" for p old
    using that by (cases old) (auto simp: held_ok_def ReportLocalDialSuccess_def)
  moreover have "mv_localService (ReportLocalDialSuccess p) = None" for p by (cases "mv_localService p") (simp_all add: ReportLocalDialSuccess_def)
  ultimately show ?thesis by (simp add: dial_inv_def held_ok_def [of _ None] counted_ok_def)
qed

lemma swap_ok:
  assumes "dial_inv addr why w" "dw_held w t = Some old" "map_option fst (mv_localService (dw_vars w)) = map_option fst old"
    "ReportLocalDialFailure addr why now old (dw_vars w) = (p, ok)"
  shows "ok \<and> held_ok p (mv_localService p) \<and> counted_ok addr why (dw_returned w + 1) (map_option snd (mv_localService p))"
proof -
  have "held_ok (dw_vars w) old" using assms(1,2) by (simp add: dial_inv_def)
  note o = held_ok_current [OF this assms(3)]
  have c: "counted_ok addr why (dw_returned w) (map_option snd (mv_localService (dw_vars w)))" using assms(1) by (simp add: dial_inv_def)
  have e: "ok" "mv_localService p = Some (mv_allocated (dw_vars w), dial_failure_next addr why now (map_option snd (mv_localService (dw_vars w))))"
    "mv_allocated p = mv_allocated (dw_vars w) + 1"
    using assms(4) o by (auto simp: ReportLocalDialFailure_def Let_def)
  show ?thesis using e counted_ok_next [OF c, of now] by (simp add: held_ok_def)
qed

lemma swap_refused:
  assumes "map_option fst (mv_localService (dw_vars w)) \<noteq> map_option fst old" "ReportLocalDialFailure addr why now old (dw_vars w) = (p, ok)"
  shows "\<not> ok \<and> mv_localService p = mv_localService (dw_vars w)"
  using assms by (auto simp: ReportLocalDialFailure_def Let_def)

lemma dial_inv_swap: "dial_inv addr why w \<Longrightarrow> dial_inv addr why (dial_step addr why (DL_swap t now) w)"
proof (cases "dw_held w t")
  case (Some old)
  assume inv: "dial_inv addr why w"
  obtain p ok where r: "ReportLocalDialFailure addr why now old (dw_vars w) = (p, ok)" by fastforce
  have keep: "held_ok p old'" if "held_ok (dw_vars w) old'" for old' using held_ok_swap [OF that r] .
  have held: "dw_held w t' = Some old' \<Longrightarrow> held_ok p old'" for t' old' using inv keep by (simp add: dial_inv_def)
  have cur: "held_ok p (mv_localService (dw_vars w))" using inv keep by (simp add: dial_inv_def)
  show ?thesis
  proof (cases "map_option fst (mv_localService (dw_vars w)) = map_option fst old")
    case True
    from swap_ok [OF inv Some True r] show ?thesis using Some r held by (simp add: dial_inv_def)
  next
    case False
    from swap_refused [OF False r] show ?thesis using inv Some r held cur by (simp add: dial_inv_def)
  qed
qed simp

lemma dial_inv_step: "dial_inv addr why w \<Longrightarrow> dial_inv addr why (dial_step addr why e w)"
  by (cases e) (simp_all only: dial_inv_load dial_inv_success dial_inv_swap)

lemma dial_inv_run: "dial_inv addr why (dial_run addr why evs)"
  unfolding dial_run_def
proof (induction evs rule: rev_induct)
  case Nil
  show ?case by (simp add: dial_inv_def dial_start_def new_process_def held_ok_def counted_ok_def)
qed (simp add: dial_inv_step)

text \<open>However the goroutines interleave, the recorded run of failures is exactly the number of reports that have returned
  since the last success, and nothing is recorded when there was none.\<close>

theorem dial_failures_are_counted:
  "case mv_localService (dw_vars (dial_run addr why evs)) of
     None \<Rightarrow> dw_returned (dial_run addr why evs) = 0
   | Some (_, s) \<Rightarrow> 0 < dw_returned (dial_run addr why evs) \<and> ls_Addr s = addr \<and> ls_Why s = why \<and>
       ls_Failures s = word_of_nat (dw_returned (dial_run addr why evs))"
  using dial_inv_run [of addr why evs] by (auto simp: dial_inv_def counted_ok_def split: option.splits)

section \<open>Totals\<close>

text \<open>The life of one process: what it carries between one start of the engine and the next, in and out, each stretch ended
  by the last write of its collector. Then the service is restarted.\<close>

definition any_reading :: readings where
  "any_reading = \<lparr>rd_now = 0, rd_bytesIn = 0, rd_bytesOut = 0, rd_snmp = \<lparr>ks_PacketsIn = 0, ks_PacketsOut = 0, ks_Retransmitted = 0,
     ks_Lost = 0, ks_Duplicated = 0, ks_FECRecovered = 0, ks_FECErrors = 0\<rparr>\<rparr>"

fun life_events :: "(u64 \<times> u64) list \<Rightarrow> metrics_event list" where
  "life_events [] = [ME_restart]"
| "life_events [(i, k)] = [ME_traffic i k, ME_write True any_reading, ME_restart]"
| "life_events ((i, k) # x # xs) = [ME_traffic i k, ME_write True any_reading, ME_reload] @ life_events (x # xs)"

text \<open>What is recorded for it: at each write, all that the process has carried so far, on top of the earlier records.\<close>

fun recorded :: "u64 \<Rightarrow> u64 list \<Rightarrow> u64" where
  "recorded sofar [] = 0"
| "recorded sofar (n # ns) = (sofar + n) + recorded (sofar + n) ns"

definition file_in :: "metrics_world \<Rightarrow> u64" where
  "file_in w = (case mw_file w of None \<Rightarrow> 0 | Some s \<Rightarrow> sn_BytesIn s)"

definition file_out :: "metrics_world \<Rightarrow> u64" where
  "file_out w = (case mw_file w of None \<Rightarrow> 0 | Some s \<Rightarrow> sn_BytesOut s)"

text \<open>A collector as it stands after \<open>startMetrics\<close>.\<close>

definition fresh_collector :: "tunnel_id \<Rightarrow> metrics_world \<Rightarrow> bool" where
  "fresh_collector who w \<longleftrightarrow> mw_collector w = NewCollector who False False (mw_file w)"

lemmas metrics_defs = startMetrics_def file_in_def file_out_def collector_Write_def collector_Snapshot_def NewCollector_def AddBytes_def
  Traffic_def new_process_def fresh_collector_def Let_def

lemma stretch_total:
  assumes "fresh_collector who w"
  shows "file_in (metrics_run who False [ME_traffic i k, ME_write True rd] w) = file_in w + (mv_bytesIn (mw_vars w) + i)"
    "file_out (metrics_run who False [ME_traffic i k, ME_write True rd] w) = file_out w + (mv_bytesOut (mw_vars w) + k)"
    "mv_bytesIn (mw_vars (metrics_run who False [ME_traffic i k, ME_write True rd] w)) = mv_bytesIn (mw_vars w) + i"
    "mv_bytesOut (mw_vars (metrics_run who False [ME_traffic i k, ME_write True rd] w)) = mv_bytesOut (mw_vars w) + k"
  using assms by (auto simp: metrics_defs split: option.split)

lemma start_keeps [simp]:
  "file_in (startMetrics who own w) = file_in w" "file_out (startMetrics who own w) = file_out w" "mw_vars (startMetrics who own w) = mw_vars w"
  "mw_file (startMetrics who own w) = mw_file w"
  "file_in (w\<lparr>mw_vars := p\<rparr>) = file_in w" "file_out (w\<lparr>mw_vars := p\<rparr>) = file_out w"
  by (simp_all add: startMetrics_def file_in_def file_out_def)

lemma start_fresh [simp]: "fst who \<noteq> [] \<Longrightarrow> fresh_collector who (startMetrics who False w)"
  by (simp add: startMetrics_def fresh_collector_def)

lemma life_total:
  assumes "fst who \<noteq> []" "fresh_collector who w"
  shows "file_in (metrics_run who False (life_events xs) w) = file_in w + recorded (mv_bytesIn (mw_vars w)) (map fst xs) \<and>
    file_out (metrics_run who False (life_events xs) w) = file_out w + recorded (mv_bytesOut (mw_vars w)) (map snd xs) \<and>
    mw_vars (metrics_run who False (life_events xs) w) = new_process \<and> fresh_collector who (metrics_run who False (life_events xs) w)"
  using assms(2)
proof (induction xs arbitrary: w rule: life_events.induct)
  case (2 i k)
  show ?case using assms(1) stretch_total [OF "2.prems", of i k any_reading] by (simp add: file_in_def file_out_def)
next
  case (3 i k x xs)
  let ?w = "metrics_run who False [ME_traffic i k, ME_write True any_reading] w"
  have "fresh_collector who (startMetrics who False ?w)" using assms(1) by simp
  from "3.IH" [OF this] stretch_total [OF "3.prems", of i k any_reading] show ?case by (simp add: add.assoc)
qed (use assms(1) in \<open>simp add: new_process_def\<close>)

lemma recorded_once: "length ns \<le> 1 \<Longrightarrow> recorded 0 ns = sum_list ns"
  by (cases ns) auto

lemma lives_total:
  assumes "fst who \<noteq> []" "fresh_collector who w" "mw_vars w = new_process"
  shows "file_in (metrics_run who False (concat (map life_events lives)) w) = file_in w + sum_list (map (recorded 0 \<circ> map fst) lives) \<and>
    file_out (metrics_run who False (concat (map life_events lives)) w) = file_out w + sum_list (map (recorded 0 \<circ> map snd) lives)"
  using assms(2,3)
proof (induction lives arbitrary: w)
  case (Cons xs lives)
  note l = life_total [OF assms(1) Cons.prems(1), of xs]
  have zero: "mv_bytesIn (mw_vars w) = 0" "mv_bytesOut (mw_vars w) = 0" using Cons.prems(2) by (simp_all add: new_process_def)
  have "file_in (metrics_run who False (concat (map life_events lives)) (metrics_run who False (life_events xs) w)) =
      file_in (metrics_run who False (life_events xs) w) + sum_list (map (recorded 0 \<circ> map fst) lives) \<and>
    file_out (metrics_run who False (concat (map life_events lives)) (metrics_run who False (life_events xs) w)) =
      file_out (metrics_run who False (life_events xs) w) + sum_list (map (recorded 0 \<circ> map snd) lives)"
    using l by (intro Cons.IH) simp_all
  then show ?case using l zero by (simp add: add.assoc o_def)
qed simp

text \<open>A process that starts on an existing file, and the lives that follow.\<close>

definition metrics_lives :: "tunnel_id \<Rightarrow> (u64 \<times> u64) list list \<Rightarrow> metrics_world \<Rightarrow> metrics_world" where
  "metrics_lives who lives w = metrics_run who False (concat (map life_events lives)) (startMetrics who False (w\<lparr>mw_vars := new_process\<rparr>))"

lemma metrics_lives_in: "fst who \<noteq> [] \<Longrightarrow> file_in (metrics_lives who lives w) = file_in w + sum_list (map (recorded 0 \<circ> map fst) lives)"
  using lives_total [of who "startMetrics who False (w\<lparr>mw_vars := new_process\<rparr>)" lives] by (simp add: metrics_lives_def)

lemma metrics_lives_out: "fst who \<noteq> [] \<Longrightarrow> file_out (metrics_lives who lives w) = file_out w + sum_list (map (recorded 0 \<circ> map snd) lives)"
  using lives_total [of who "startMetrics who False (w\<lparr>mw_vars := new_process\<rparr>)" lives] by (simp add: metrics_lives_def)

lemma recorded_lives: "list_all (\<lambda>xs. length xs \<le> 1) lives \<Longrightarrow> sum_list (map (recorded 0 \<circ> map f) lives) = sum_list (map f (concat lives))"
  by (induction lives) (simp_all add: recorded_once)



text \<open>An engine that counts its own traffic: the file holds what its counters say, whatever was there before.\<close>

theorem own_counters_forget:
  assumes "fst who \<noteq> []" "mw_collector w = NewCollector who True True file"
  shows "file_in (metrics_step who True (ME_write True rd) w) = rd_bytesIn rd \<and> file_out (metrics_step who True (ME_write True rd) w) = rd_bytesOut rd"
  using assms by (auto simp: metrics_defs split: option.splits)

end
