(* ===== verification/Relay.thy ===== *)
theory Relay
  imports Metrics GoNet
begin

text \<open>
  How a forwarded connection is carried (\<open>internal/utils/handlers/\<close>): the buffered copy of one direction and the copy in the
  kernel (\<open>tcp_handler.go\<close>, \<open>splice_linux.go\<close>, \<open>zerocopy.go\<close>), the two directions with the wait for both, the copy through a
  websocket (\<open>ws_handler.go\<close>) and the PROXY protocol header (\<open>proxy_protocol.go\<close>). What the sockets answer is the input of the
  models: a read gives bytes and says whether it also failed, a write says how many bytes it took and whether it failed.
\<close>

section \<open>The buffered copy\<close>

datatype copy_in = RD bytes bool | WR nat bool

text \<open>Where one direction stands: the part of the buffer that is still to be written, the size of what was read, all that the
  other end has taken, what the sniffer counted, and whether the copy has closed both ends and returned.\<close>

record copy_dir =
  cd_pending :: bytes
  cd_chunk :: nat
  cd_out :: bytes
  cd_usage :: nat
  cd_returned :: bool

definition copy_start :: copy_dir where
  "copy_start = \<lparr>cd_pending = [], cd_chunk = 0, cd_out = [], cd_usage = 0, cd_returned = False\<rparr>"

text \<open>One answer. An answer of the wrong kind is not one the copy is waiting for.\<close>

fun copy_step :: "bool \<Rightarrow> copy_in \<Rightarrow> copy_dir \<Rightarrow> copy_dir" where
  "copy_step sniffer (RD p failed) d =
     (if cd_returned d \<or> cd_pending d \<noteq> [] then d
      else if failed then d\<lparr>cd_returned := True\<rparr>
      else d\<lparr>cd_pending := p, cd_chunk := length p\<rparr>)"
| "copy_step sniffer (WR w failed) d =
     (if cd_returned d \<or> cd_pending d = [] then d
      else let w = min w (length (cd_pending d)); d1 = d\<lparr>cd_out := cd_out d @ take w (cd_pending d)\<rparr> in
        if failed then d1\<lparr>cd_returned := True\<rparr>
        else let d2 = d1\<lparr>cd_pending := drop w (cd_pending d)\<rparr> in
          if cd_pending d2 = [] \<and> sniffer then d2\<lparr>cd_usage := cd_usage d + cd_chunk d\<rparr> else d2)"

definition copy_run :: "bool \<Rightarrow> copy_in list \<Rightarrow> copy_dir" where
  "copy_run sniffer ins = foldl (\<lambda>d i. copy_step sniffer i d) copy_start ins"

text \<open>What the source handed over without an error, in the reads the copy made.\<close>

definition copy_reads :: "bool \<Rightarrow> copy_in list \<Rightarrow> bytes" where
  "copy_reads sniffer ins =
     fst (foldl (\<lambda>(acc, d) i.
        (case i of RD p False \<Rightarrow> if cd_returned d \<or> cd_pending d \<noteq> [] then acc else acc @ p | _ \<Rightarrow> acc, copy_step sniffer i d)) ([], copy_start) ins)"

section \<open>The copy in the kernel\<close>

datatype splice_in = SDrain "bytes option" | SPump nat bool

text \<open>\<open>SDrain None\<close> is a failed splice, \<open>SDrain (Some [])\<close> the end of the source. The result is whether the transfer was
  handled and whether it failed.\<close>

record splice_dir =
  sp_handled :: bool
  sp_pipe :: bytes
  sp_out :: bytes
  sp_counted :: nat
  sp_result :: "(bool \<times> bool) option"

definition splice_start :: splice_dir where
  "splice_start = \<lparr>sp_handled = False, sp_pipe = [], sp_out = [], sp_counted = 0, sp_result = None\<rparr>"

fun spliceRelay_step :: "splice_in \<Rightarrow> splice_dir \<Rightarrow> splice_dir" where
  "spliceRelay_step (SDrain r) s =
     (if sp_result s \<noteq> None \<or> sp_pipe s \<noteq> [] then s
      else case r of
        None \<Rightarrow> s\<lparr>sp_result := Some (if sp_handled s then (True, True) else (False, False))\<rparr>
      | Some p \<Rightarrow> if p = [] then s\<lparr>sp_result := Some (True, False)\<rparr> else s\<lparr>sp_handled := True, sp_pipe := p\<rparr>)"
| "spliceRelay_step (SPump n failed) s =
     (if sp_result s \<noteq> None \<or> sp_pipe s = [] then s
      else let n = min n (length (sp_pipe s));
               s1 = (if 0 < n then s\<lparr>sp_pipe := drop n (sp_pipe s), sp_out := sp_out s @ take n (sp_pipe s), sp_counted := sp_counted s + n\<rparr> else s) in
        if failed then s1\<lparr>sp_result := Some (True, True)\<rparr>
        else if n = 0 then s1\<lparr>sp_result := Some (True, True)\<rparr>
        else s1)"

definition spliceRelay :: "splice_in list \<Rightarrow> splice_dir" where
  "spliceRelay ins = foldl (\<lambda>s i. spliceRelay_step i s) splice_start ins"

definition splice_reads :: "splice_in list \<Rightarrow> bytes" where
  "splice_reads ins =
     fst (foldl (\<lambda>(acc, s) i.
        (case i of SDrain (Some p) \<Rightarrow> if sp_result s \<noteq> None \<or> sp_pipe s \<noteq> [] then acc else acc @ p | _ \<Rightarrow> acc, spliceRelay_step i s)) ([], splice_start) ins)"

text \<open>One direction: the kernel when it is allowed and both ends are plain TCP sockets under the counting wrapper, otherwise,
  and when the kernel declined before anything moved, the buffered copy. Which of the two ends is counted decides what the
  chunks are added to.\<close>

datatype counted_end = CountFrom | CountTo | CountNone

definition splice_counts :: "counted_end \<Rightarrow> nat \<Rightarrow> metrics_vars \<Rightarrow> metrics_vars" where
  "splice_counts e n p =
     (case e of CountFrom \<Rightarrow> AddBytes (word_of_nat n) 0 p | CountTo \<Rightarrow> AddBytes 0 (word_of_nat n) p | CountNone \<Rightarrow> p)"

definition spliceTransfer :: "bool \<Rightarrow> bool \<Rightarrow> splice_in list \<Rightarrow> splice_dir option" where
  "spliceTransfer zeroCopy plain ins =
     (if \<not> zeroCopy \<or> \<not> plain then None
      else case sp_result (spliceRelay ins) of Some (False, _) \<Rightarrow> None | _ \<Rightarrow> Some (spliceRelay ins))"

definition transferData :: "bool \<Rightarrow> bool \<Rightarrow> bool \<Rightarrow> splice_in list \<Rightarrow> copy_in list \<Rightarrow> bytes" where
  "transferData zeroCopy plain sniffer sp ins =
     (case spliceTransfer zeroCopy plain sp of Some s \<Rightarrow> sp_out s | None \<Rightarrow> cd_out (copy_run sniffer ins))"

section \<open>What arrives\<close>

lemma copy_state:
  "foldl (\<lambda>(acc, d) i. (case i of RD p False \<Rightarrow> if cd_returned d \<or> cd_pending d \<noteq> [] then acc else acc @ p | _ \<Rightarrow> acc, copy_step sniffer i d))
     ([], copy_start) ins = (copy_reads sniffer ins, copy_run sniffer ins)"
proof -
  have "snd (foldl (\<lambda>(acc, d) i. (case i of RD p False \<Rightarrow> if cd_returned d \<or> cd_pending d \<noteq> [] then acc else acc @ p | _ \<Rightarrow> acc, copy_step sniffer i d))
     (a, d) ins) = foldl (\<lambda>d i. copy_step sniffer i d) d ins" for a d
    by (induction ins arbitrary: a d) auto
  then show ?thesis by (simp add: copy_reads_def copy_run_def prod_eq_iff)
qed

lemma copy_reads_snoc: "copy_reads sniffer (ins @ [i]) =
   (case i of RD p False \<Rightarrow> if cd_returned (copy_run sniffer ins) \<or> cd_pending (copy_run sniffer ins) \<noteq> [] then copy_reads sniffer ins
      else copy_reads sniffer ins @ p | _ \<Rightarrow> copy_reads sniffer ins)"
  using copy_state [of sniffer ins] by (simp add: copy_reads_def [of _ "ins @ [i]"] split: copy_in.split bool.split)

lemma copy_run_snoc [simp]: "copy_run sniffer (ins @ [i]) = copy_step sniffer i (copy_run sniffer ins)"
  by (simp add: copy_run_def)

lemma copy_run_Nil [simp]: "copy_run sniffer [] = copy_start"
  by (simp add: copy_run_def)

text \<open>While it runs, the copy has delivered everything but what is in its buffer; once it has returned, a prefix.\<close>

lemma copy_delivers:
  "(\<not> cd_returned (copy_run sniffer ins) \<longrightarrow> cd_out (copy_run sniffer ins) @ cd_pending (copy_run sniffer ins) = copy_reads sniffer ins) \<and>
   prefix (cd_out (copy_run sniffer ins)) (copy_reads sniffer ins)"
proof (induction ins rule: rev_induct)
  case Nil
  show ?case by (simp add: copy_start_def copy_reads_def)
next
  case (snoc i ins)
  let ?d = "copy_run sniffer ins"
  show ?case
  proof (cases i)
    case (RD p failed)
    then show ?thesis using snoc.IH by (auto simp: copy_reads_snoc split: bool.split)
  next
    case (WR w failed)
    show ?thesis
    proof (cases "cd_returned ?d \<or> cd_pending ?d = []")
      case True
      then show ?thesis using snoc.IH WR by (auto simp: copy_reads_snoc)
    next
      case False
      then have e: "copy_reads sniffer ins = cd_out ?d @ take (min w (length (cd_pending ?d))) (cd_pending ?d) @ drop (min w (length (cd_pending ?d))) (cd_pending ?d)"
        using snoc.IH by simp
      show ?thesis using False WR e by (simp add: copy_reads_snoc Let_def del: append_take_drop_id)
    qed
  qed
qed

lemma splice_state:
  "foldl (\<lambda>(acc, s) i. (case i of SDrain (Some p) \<Rightarrow> if sp_result s \<noteq> None \<or> sp_pipe s \<noteq> [] then acc else acc @ p | _ \<Rightarrow> acc, spliceRelay_step i s))
     ([], splice_start) ins = (splice_reads ins, spliceRelay ins)"
proof -
  have "snd (foldl (\<lambda>(acc, s) i. (case i of SDrain (Some p) \<Rightarrow> if sp_result s \<noteq> None \<or> sp_pipe s \<noteq> [] then acc else acc @ p | _ \<Rightarrow> acc, spliceRelay_step i s))
     (a, s) ins) = foldl (\<lambda>s i. spliceRelay_step i s) s ins" for a s
    by (induction ins arbitrary: a s) auto
  then show ?thesis by (simp add: splice_reads_def spliceRelay_def prod_eq_iff)
qed

lemma splice_reads_snoc: "splice_reads (ins @ [i]) =
   (case i of SDrain (Some p) \<Rightarrow> if sp_result (spliceRelay ins) \<noteq> None \<or> sp_pipe (spliceRelay ins) \<noteq> [] then splice_reads ins
      else splice_reads ins @ p | _ \<Rightarrow> splice_reads ins)"
  using splice_state [of ins] by (simp add: splice_reads_def [of "ins @ [i]"] split: splice_in.split option.split)

lemma spliceRelay_snoc [simp]: "spliceRelay (ins @ [i]) = spliceRelay_step i (spliceRelay ins)"
  by (simp add: spliceRelay_def)

lemma spliceRelay_Nil [simp]: "spliceRelay [] = splice_start"
  by (simp add: spliceRelay_def)

text \<open>What the kernel took is in the other socket or in the pipe, every chunk was counted, nothing was taken when the transfer
  was declined, and a transfer that ended without an error delivered all.\<close>

definition splice_ok :: "splice_in list \<Rightarrow> bool" where
  "splice_ok ins \<longleftrightarrow>
     sp_out (spliceRelay ins) @ sp_pipe (spliceRelay ins) = splice_reads ins \<and> sp_counted (spliceRelay ins) = length (sp_out (spliceRelay ins)) \<and>
     (\<not> sp_handled (spliceRelay ins) \<longrightarrow> splice_reads ins = []) \<and>
     (case sp_result (spliceRelay ins) of None \<Rightarrow> True
      | Some (h, f) \<Rightarrow> (\<not> h \<longrightarrow> splice_reads ins = []) \<and> (h \<and> \<not> f \<longrightarrow> sp_pipe (spliceRelay ins) = []))"

lemma splice_ok_pump:
  assumes "splice_ok ins"
  shows "splice_ok (ins @ [SPump n failed])"
proof (cases "sp_result (spliceRelay ins) \<noteq> None \<or> sp_pipe (spliceRelay ins) = []")
  case True
  then have same: "spliceRelay (ins @ [SPump n failed]) = spliceRelay ins" "splice_reads (ins @ [SPump n failed]) = splice_reads ins"
    by (auto simp: splice_reads_snoc)
  show ?thesis using assms unfolding splice_ok_def same .
next
  case False
  let ?p = "sp_pipe (spliceRelay ins)" and ?o = "sp_out (spliceRelay ins)"
  have e: "splice_reads ins = ?o @ take (min n (length ?p)) ?p @ drop (min n (length ?p)) ?p" using assms by (simp add: splice_ok_def)
  have h: "sp_handled (spliceRelay ins)" using assms False e unfolding splice_ok_def by (cases ?p) auto
  have n: "sp_result (spliceRelay ins) = None" using False by blast
  show ?thesis using assms False e h n unfolding splice_ok_def by (auto simp: splice_reads_snoc Let_def)
qed

lemma splice_ok_drain:
  assumes "splice_ok ins"
  shows "splice_ok (ins @ [SDrain r])"
proof (cases "sp_result (spliceRelay ins) \<noteq> None \<or> sp_pipe (spliceRelay ins) \<noteq> []")
  case True
  then have same: "spliceRelay (ins @ [SDrain r]) = spliceRelay ins" "splice_reads (ins @ [SDrain r]) = splice_reads ins"
    by (auto simp: splice_reads_snoc split: option.split)
  show ?thesis using assms unfolding splice_ok_def same .
next
  case False
  then show ?thesis using assms unfolding splice_ok_def by (auto simp: splice_reads_snoc split: option.split)
qed

lemma splice_ok_all: "splice_ok ins"
proof (induction ins rule: rev_induct)
  case Nil
  show ?case by (simp add: splice_ok_def splice_start_def splice_reads_def)
next
  case (snoc i ins)
  then show ?case using splice_ok_pump splice_ok_drain by (cases i) auto
qed

text \<open>The end of a stream. When the last read fails with nothing in hand, all that was read has been delivered. A read may
  return bytes together with its error, as \<open>io.Reader\<close> allows and a QUIC stream does at its end; those bytes are not delivered.\<close>

lemma copy_ends:
  assumes "\<not> cd_returned (copy_run sniffer ins)" "cd_pending (copy_run sniffer ins) = []"
  shows "cd_returned (copy_run sniffer (ins @ [RD p True])) \<and> cd_out (copy_run sniffer (ins @ [RD p True])) = copy_reads sniffer ins"
  using assms copy_delivers [of sniffer ins] by simp

text \<open>A direction delivers a prefix of what it read, in order and without gaps, whichever way it is carried, and the kernel's
  way is left with nothing taken when it is declined.\<close>

lemma transferData_prefix:
  "prefix (transferData zeroCopy plain sniffer sp ins) (case spliceTransfer zeroCopy plain sp of Some _ \<Rightarrow> splice_reads sp | None \<Rightarrow> copy_reads sniffer ins) \<and>
   (case sp_result (spliceRelay sp) of Some (False, _) \<Rightarrow> splice_reads sp = [] | _ \<Rightarrow> True) \<and>
   sp_counted (spliceRelay sp) = length (sp_out (spliceRelay sp))"
proof -
  have o: "splice_ok sp" by (rule splice_ok_all)
  have p: "prefix (sp_out (spliceRelay sp)) (splice_reads sp)" using o unfolding splice_ok_def by (metis prefixI)
  have "prefix (transferData zeroCopy plain sniffer sp ins) (case spliceTransfer zeroCopy plain sp of Some _ \<Rightarrow> splice_reads sp | None \<Rightarrow> copy_reads sniffer ins)"
    using p copy_delivers [of sniffer ins] by (auto simp: transferData_def spliceTransfer_def split: option.split bool.split)
  moreover have "case sp_result (spliceRelay sp) of Some (False, _) \<Rightarrow> splice_reads sp = [] | _ \<Rightarrow> True"
    using o unfolding splice_ok_def by (auto split: option.split bool.split)
  ultimately show ?thesis using o unfolding splice_ok_def by simp
qed

text \<open>C40. A forwarded connection carries its stream. Whichever way a direction is carried, what the other end has taken is a
  prefix of what was read, in order and without gaps; the kernel's way counts exactly what it delivered and has taken nothing
  when it is declined, so that the buffered copy starts at the first byte; and when a read fails while nothing is pending, the
  copy ends with all that earlier reads returned delivered. Bytes that come together with the error, which \<open>io.Reader\<close> allows
  and a QUIC stream does at its end, are not delivered.\<close>

theorem relay_delivers_what_it_reads:
  "prefix (transferData zeroCopy plain sniffer sp ins) (case spliceTransfer zeroCopy plain sp of Some _ \<Rightarrow> splice_reads sp | None \<Rightarrow> copy_reads sniffer ins) \<and>
   (case sp_result (spliceRelay sp) of Some (False, _) \<Rightarrow> splice_reads sp = [] | _ \<Rightarrow> True) \<and>
   sp_counted (spliceRelay sp) = length (sp_out (spliceRelay sp)) \<and>
   (\<not> cd_returned (copy_run sniffer ins) \<and> cd_pending (copy_run sniffer ins) = [] \<longrightarrow>
      cd_returned (copy_run sniffer (ins @ [RD late True])) \<and> cd_out (copy_run sniffer (ins @ [RD late True])) = copy_reads sniffer ins)"
  using transferData_prefix copy_ends by blast

text \<open>Two bytes are read and written; then the end of the stream comes with a third, which is lost.\<close>

theorem relay_delivers_what_it_reads_witness:
  "copy_reads False [RD [1, 2] False, WR 2 False] = [1, 2] \<and> cd_out (copy_run False ([RD [1, 2] False, WR 2 False] @ [RD [3] True])) = [1, 2]"
  using relay_delivers_what_it_reads [of False False False "[]" "[RD [1, 2] False, WR 2 False]" "[3]"]
  by (simp add: copy_run_def copy_start_def copy_reads_def)

section \<open>Through a websocket\<close>

text \<open>Messages one way, reads the other. A message that is neither text nor binary is passed over; a message is written to the
  connection in one call, a read becomes one binary message.\<close>

datatype ws_in = WSmsg bool bytes | WSfailed

record ws_dir =
  ws_out :: bytes
  ws_sent :: "bytes list"
  ws_vars :: metrics_vars
  ws_usage :: nat
  ws_returned :: bool

definition ws_start :: "metrics_vars \<Rightarrow> ws_dir" where
  "ws_start p = \<lparr>ws_out = [], ws_sent = [], ws_vars = p, ws_usage = 0, ws_returned = False\<rparr>"

definition transferWebSocketToTCP :: "bool \<Rightarrow> ws_in \<Rightarrow> nat \<Rightarrow> bool \<Rightarrow> ws_dir \<Rightarrow> ws_dir" where
  "transferWebSocketToTCP sniffer i w failed d =
     (if ws_returned d then d
      else case i of
        WSfailed \<Rightarrow> d\<lparr>ws_returned := True\<rparr>
      | WSmsg carried m \<Rightarrow>
          if \<not> carried then d
          else if failed then d\<lparr>ws_out := ws_out d @ take w m, ws_returned := True\<rparr>
          else d\<lparr>ws_out := ws_out d @ take w m, ws_vars := AddBytes (word_of_nat w) 0 (ws_vars d),
                 ws_usage := (if sniffer then ws_usage d + w else ws_usage d)\<rparr>)"

definition transferTCPToWebSocket :: "bool \<Rightarrow> bytes \<Rightarrow> bool \<Rightarrow> bool \<Rightarrow> ws_dir \<Rightarrow> ws_dir" where
  "transferTCPToWebSocket sniffer p read_failed write_failed d =
     (if ws_returned d then d
      else if read_failed then d\<lparr>ws_returned := True\<rparr>
      else if write_failed then d\<lparr>ws_returned := True\<rparr>
      else d\<lparr>ws_sent := ws_sent d @ [p], ws_vars := AddBytes 0 (word_of_nat (length p)) (ws_vars d),
             ws_usage := (if sniffer then ws_usage d + length p else ws_usage d)\<rparr>)"

text \<open>Through a websocket and out of it again: what one side sends as messages, the other writes out, byte for byte, when
  every write takes its whole message.\<close>

lemma ws_send_all:
  assumes "\<not> ws_returned d"
  shows "ws_sent (foldl (\<lambda>d p. transferTCPToWebSocket sniffer p False False d) d ps) = ws_sent d @ ps"
  using assms by (induction ps arbitrary: d) (simp_all add: transferTCPToWebSocket_def)

lemma ws_write_all:
  assumes "\<not> ws_returned d"
  shows "ws_out (foldl (\<lambda>d m. transferWebSocketToTCP sniffer (WSmsg True m) (length m) False d) d ms) = ws_out d @ concat ms"
  using assms by (induction ms arbitrary: d) (simp_all add: transferWebSocketToTCP_def)

theorem websocket_carries:
  "ws_out (foldl (\<lambda>d m. transferWebSocketToTCP s2 (WSmsg True m) (length m) False d) (ws_start q)
     (ws_sent (foldl (\<lambda>d p. transferTCPToWebSocket s1 p False False d) (ws_start p) ps))) = concat ps"
  by (simp add: ws_write_all ws_send_all ws_start_def)

section \<open>Both directions\<close>

text \<open>The two goroutines and \<open>awaitRelay\<close>. A goroutine whose copy has returned puts one token into the channel; the waiter takes
  the first, or sees the context end, closes both ends, and takes tokens until there were two.\<close>

datatype await = AwaitFirst | AwaitRest nat | AwaitOver

record relay =
  rl_dirs :: "bool \<Rightarrow> copy_dir"
  rl_told :: "bool \<Rightarrow> bool"
  rl_tokens :: nat
  rl_closed :: bool
  rl_await :: await

datatype relay_event = RE_io bool copy_in | RE_tell bool | RE_ctx | RE_token | RE_return

definition relay_start :: relay where
  "relay_start = \<lparr>rl_dirs = (\<lambda>_. copy_start), rl_told = (\<lambda>_. False), rl_tokens = 0, rl_closed = False, rl_await = AwaitFirst\<rparr>"

fun relay_step :: "bool \<Rightarrow> relay_event \<Rightarrow> relay \<Rightarrow> relay option" where
  "relay_step sniffer (RE_io b i) r = Some (r\<lparr>rl_dirs := (rl_dirs r)(b := copy_step sniffer i (rl_dirs r b))\<rparr>)"
| "relay_step sniffer (RE_tell b) r =
     (if cd_returned (rl_dirs r b) \<and> \<not> rl_told r b then Some (r\<lparr>rl_told := (rl_told r)(b := True), rl_tokens := rl_tokens r + 1\<rparr>) else None)"
| "relay_step sniffer RE_ctx r = (case rl_await r of AwaitFirst \<Rightarrow> Some (r\<lparr>rl_closed := True, rl_await := AwaitRest 0\<rparr>) | _ \<Rightarrow> None)"
| "relay_step sniffer RE_token r =
     (if rl_tokens r = 0 then None
      else case rl_await r of
        AwaitFirst \<Rightarrow> Some (r\<lparr>rl_tokens := rl_tokens r - 1, rl_closed := True, rl_await := AwaitRest 1\<rparr>)
      | AwaitRest n \<Rightarrow> if n < 2 then Some (r\<lparr>rl_tokens := rl_tokens r - 1, rl_await := AwaitRest (n + 1)\<rparr>) else None
      | AwaitOver \<Rightarrow> None)"
| "relay_step sniffer RE_return r = (case rl_await r of AwaitRest n \<Rightarrow> if n < 2 then None else Some (r\<lparr>rl_await := AwaitOver\<rparr>) | _ \<Rightarrow> None)"

inductive relay_reachable :: "bool \<Rightarrow> relay \<Rightarrow> bool" for sniffer where
  relay_init: "relay_reachable sniffer relay_start"
| relay_next: "relay_reachable sniffer r \<Longrightarrow> relay_step sniffer e r = Some r' \<Longrightarrow> relay_reachable sniffer r'"

definition taken :: "await \<Rightarrow> nat" where
  "taken a = (case a of AwaitFirst \<Rightarrow> 0 | AwaitRest n \<Rightarrow> n | AwaitOver \<Rightarrow> 2)"

definition relay_inv :: "relay \<Rightarrow> bool" where
  "relay_inv r \<longleftrightarrow>
     rl_tokens r + taken (rl_await r) = length (filter (rl_told r) [False, True]) \<and>
     (rl_told r False \<longrightarrow> cd_returned (rl_dirs r False)) \<and> (rl_told r True \<longrightarrow> cd_returned (rl_dirs r True)) \<and>
     (rl_await r \<noteq> AwaitFirst \<longrightarrow> rl_closed r)"

lemma copy_step_returned: "cd_returned d \<Longrightarrow> cd_returned (copy_step sniffer i d)"
  by (cases i) simp_all

lemma relay_inv_step:
  assumes "relay_inv r" "relay_step sniffer e r = Some r'"
  shows "relay_inv r'"
proof (cases e)
  case (RE_io b i)
  then show ?thesis using assms copy_step_returned by (cases b) (auto simp: relay_inv_def)
next
  case (RE_tell b)
  then show ?thesis using assms by (cases b) (auto simp: relay_inv_def split: if_splits)
qed (use assms in \<open>auto simp: relay_inv_def taken_def split: if_splits await.splits\<close>)

lemma relay_inv_reachable: "relay_reachable sniffer r \<Longrightarrow> relay_inv r"
proof (induction rule: relay_reachable.induct)
  case relay_init
  show ?case by (simp add: relay_inv_def relay_start_def taken_def)
qed (rule relay_inv_step)

text \<open>When the handler of a forwarded connection returns, and its caller gives back the quota, both copies have returned and
  both ends are closed; and while it waits for a copy that has not returned, the ends are already closed.\<close>

theorem relay_leaves_nothing_running:
  assumes "relay_reachable sniffer r" "rl_await r = AwaitOver"
  shows "cd_returned (rl_dirs r False) \<and> cd_returned (rl_dirs r True) \<and> rl_closed r \<and> rl_tokens r = 0"
  using relay_inv_reachable [OF assms(1)] assms(2) by (auto simp: relay_inv_def taken_def split: if_splits)

section \<open>The PROXY header\<close>

definition proxy_magic :: bytes where
  "proxy_magic = [0x0d, 0x0a, 0x0d, 0x0a, 0x00, 0x0d, 0x0a, 0x51, 0x55, 0x49, 0x54, 0x0a]"

text \<open>\<open>To16\<close> of an address of four or sixteen bytes.\<close>

definition to16 :: "bytes \<Rightarrow> bytes option" where
  "to16 ip = (if length ip = 4 then Some (v4_in_v6 @ ip) else if length ip = 16 then Some ip else None)"

definition port16 :: "int \<Rightarrow> bytes" where
  "port16 p = be_put 2 (word_of_int p :: u16)"

datatype proxy_error = ppNotTCP | ppInvalidIP | ppMismatch | ppWrite

definition buildProxyProtocolV2Header :: "string \<Rightarrow> string \<Rightarrow> int \<Rightarrow> int \<Rightarrow> proxy_error + bytes" where
  "buildProxyProtocolV2Header srcIP dstIP srcPort dstPort =
     (case (ParseIP srcIP, ParseIP dstIP) of
        (Some src, Some dst) \<Rightarrow>
          (case (to4 src, to4 dst) of
             (Some s4, Some d4) \<Rightarrow>
               Inr (proxy_magic @ [0x21, 0x11] @ be_put 2 (12 :: u16) @ s4 @ d4 @ port16 srcPort @ port16 dstPort)
           | _ \<Rightarrow>
               (case (to16 src, to16 dst) of
                  (Some s16, Some d16) \<Rightarrow>
                    Inr (proxy_magic @ [0x21, 0x21] @ be_put 2 (36 :: u16) @ s16 @ d16 @ port16 srcPort @ port16 dstPort)
                | _ \<Rightarrow> Inl ppMismatch))
      | _ \<Rightarrow> Inl ppInvalidIP)"

text \<open>The two addresses of the accepted connection, \<open>None\<close> when they are not TCP addresses; whether the write succeeds.\<close>

definition WriteProxyProtocol :: "(bytes \<times> int) option \<Rightarrow> (bytes \<times> int) option \<Rightarrow> bool \<Rightarrow> proxy_error + bytes" where
  "WriteProxyProtocol remote local ok =
     (case (remote, local) of
        (Some (sip, sport), Some (dip, dport)) \<Rightarrow>
          (case buildProxyProtocolV2Header (ip_string sip) (ip_string dip) sport dport of
             Inl e \<Rightarrow> Inl e
           | Inr h \<Rightarrow> if ok then Inr h else Inl ppWrite)
      | _ \<Rightarrow> Inl ppNotTCP)"

text \<open>What a receiver of version 2 of the protocol makes of a stream: the addresses, the ports and the rest.\<close>

definition proxy_parse :: "bytes \<Rightarrow> (bytes \<times> bytes \<times> u16 \<times> u16 \<times> bytes) option" where
  "proxy_parse b =
     (let n = unat (be_get (slice 14 16 b) :: u16); k = (if b ! 13 = 0x11 then 4 else 16) in
      if length b < 16 \<or> take 12 b \<noteq> proxy_magic \<or> b ! 12 \<noteq> 0x21 \<or> (b ! 13 \<noteq> 0x11 \<and> b ! 13 \<noteq> 0x21) then None
      else if length b < 16 + n \<or> n \<noteq> 2 * k + 4 then None
      else Some (slice 16 (16 + k) b, slice (16 + k) (16 + 2 * k) b, be_get (slice (16 + 2 * k) (18 + 2 * k) b),
                 be_get (slice (18 + 2 * k) (20 + 2 * k) b), drop (16 + n) b))"

lemma parse_v4_length: "parse_v4 t = Some b \<Longrightarrow> length b = 4"
  by (auto simp: parse_v4_def split: list.splits option.splits)

lemma v6_groups_length: "v6_groups s acc ell = Some (bs, e) \<Longrightarrow> even (length acc) \<Longrightarrow> length acc \<le> 16 \<Longrightarrow> length bs \<le> 16"
proof (induction s acc ell arbitrary: bs e rule: v6_groups.induct)
  case (1 s acc ell)
  let ?ds = "takeWhile (\<lambda>ch. hex_val ch \<noteq> None) s"
  let ?rest = "drop (length ?ds) s"
  let ?acc' = "acc @ [word_of_nat (hex_num ?ds div 256), word_of_nat (hex_num ?ds)]"
  note r = "1.prems"(1) [unfolded v6_groups.simps [of s acc ell] Let_def]
  show ?case
  proof (cases "16 \<le> length acc")
    case True
    then show ?thesis using r "1.prems"(3) by (simp split: if_splits)
  next
    case False
    then have acc': "even (length ?acc')" "length ?acc' \<le> 16" using "1.prems"(2) by (auto elim!: evenE)
    have ds: "\<not> (?ds = [] \<or> 4 < length ?ds)" using r False by (simp split: if_splits)
    show ?thesis
    proof (cases "?rest \<noteq> [] \<and> hd ?rest = CHR ''.''")
      case True
      then show ?thesis using r False ds parse_v4_length by (simp split: if_splits option.splits) fastforce
    next
      case nodot: False
      consider "bs = ?acc'" | "v6_groups (drop 2 ?rest) ?acc' (Some (length ?acc')) = Some (bs, e)" "?rest \<noteq> []" "\<not> (hd ?rest \<noteq> CHR '':'' \<or> length ?rest = 1)"
          "?rest ! 1 = CHR '':''" "\<not> ell \<noteq> None" "length ?rest \<noteq> 2"
        | "v6_groups (tl ?rest) ?acc' ell = Some (bs, e)" "?rest \<noteq> []" "\<not> (hd ?rest \<noteq> CHR '':'' \<or> length ?rest = 1)" "?rest ! 1 \<noteq> CHR '':''"
        using r False ds nodot by (simp split: if_splits)
      then show ?thesis
      proof cases
        case 1
        then show ?thesis using acc'(2) by simp
      next
        case 2
        show ?thesis by (rule "1.IH"(1) [OF False refl refl ds nodot refl 2(2-6) 2(1) acc'])
      next
        case 3
        show ?thesis by (rule "1.IH"(2) [OF False refl refl ds nodot refl 3(2-4) 3(1) acc'])
      qed
    qed
  qed
qed

lemma parse_v6_length: "parse_v6 s = Some b \<Longrightarrow> length b = 16"
  using v6_groups_length [of _ "[]"] by (fastforce simp: parse_v6_def Let_def min_def split: if_splits option.splits prod.splits)

lemma ParseIP_length: "ParseIP s = Some ip \<Longrightarrow> length ip = 16"
  using parse_v6_length
  by (fastforce simp: ParseIP_def parse_addr_def parse_v4_def v4_in_v6_def split: option.splits if_splits list.splits)

text \<open>An IPv4 address survives being printed and parsed.\<close>

lemma show_nat_leading: "1 < length (show_nat n) \<Longrightarrow> hd (show_nat n) \<noteq> CHR ''0''"
proof (induction n rule: show_nat.induct)
  case (1 n)
  have big: "10 \<le> n" using "1.prems" by (subst (asm) show_nat.simps) (simp split: if_splits)
  then have e: "show_nat n = show_nat (n div 10) @ [char_of (48 + n mod 10)]" by (subst show_nat.simps) simp
  show ?case
  proof (cases "1 < length (show_nat (n div 10))")
    case True
    then show ?thesis using "1.IH" big e by simp
  next
    case False
    then have "n div 10 < 10" by (subst (asm) show_nat.simps) (simp split: if_splits)
    then have s: "show_nat (n div 10) = [char_of (48 + n div 10)]" by (subst show_nat.simps) simp
    have "char_of (48 + n div 10) \<noteq> CHR ''0''"
    proof
      assume "char_of (48 + n div 10) = CHR ''0''"
      then have "(of_char (char_of (48 + n div 10) :: char) :: nat) = 48" by simp
      then show False using \<open>n div 10 < 10\<close> big by simp
    qed
    then show ?thesis using e s by simp
  qed
qed

lemma v4_field_show: "v4_field (show_nat (unat b)) = Some b"
proof -
  have "unat b < 256" by (rule unat_byte_less)
  then have "digits_val (show_nat (unat b)) \<le> 255" by (simp add: digits_val_show del: unat_byte_less)
  then show ?thesis using show_nat_digits [of "unat b"] show_nat_leading [of "unat b"] by (simp add: v4_field_def digits_val_show)
qed

lemma show_nat_no_dot: "CHR ''.'' \<notin> set (show_nat n)" "CHR '':'' \<notin> set (show_nat n)" "CHR ''%'' \<notin> set (show_nat n)"
  using show_nat_digits [of n] by (auto simp: list_all_iff is_digit_def Let_def)

lemma find_first: "\<forall>c \<in> set a. \<not> P c \<Longrightarrow> P d \<Longrightarrow> find P (a @ d # b) = Some d"
  by (induction a) auto

lemma ParseIP_v4: "ParseIP (v4_string [a, b, c, d]) = Some (v4_in_v6 @ [a, b, c, d])"
proof -
  let ?s = "\<lambda>x. show_nat (unat (x :: byte))"
  have t: "v4_string [a, b, c, d] = ?s a @ CHR ''.'' # ?s b @ CHR ''.'' # ?s c @ CHR ''.'' # ?s d" by (simp add: v4_string_def)
  have "split_on CHR ''.'' (v4_string [a, b, c, d]) = [?s a, ?s b, ?s c, ?s d]"
    unfolding t by (simp add: split_on_append split_on_absent show_nat_no_dot)
  then have "parse_v4 (v4_string [a, b, c, d]) = Some [a, b, c, d]" by (simp add: parse_v4_def v4_field_show)
  moreover have "find (\<lambda>ch. ch \<in> {CHR ''.'', CHR '':'', CHR ''%''}) (v4_string [a, b, c, d]) = Some CHR ''.''"
    unfolding t using show_nat_no_dot [of "unat a"] by (intro find_first) auto
  ultimately show ?thesis by (simp add: ParseIP_def parse_addr_def)
qed

lemma header_slices:
  assumes "length h = 16" "length s = k" "length d = k" "length p = 2" "length q = 2"
  shows "slice 16 (16 + k) (h @ s @ d @ p @ q @ rest) = s" "slice (16 + k) (16 + 2 * k) (h @ s @ d @ p @ q @ rest) = d"
    "slice (16 + 2 * k) (18 + 2 * k) (h @ s @ d @ p @ q @ rest) = p" "slice (18 + 2 * k) (20 + 2 * k) (h @ s @ d @ p @ q @ rest) = q"
    "drop (16 + (2 * k + 4)) (h @ s @ d @ p @ q @ rest) = rest"
  using assms by (simp_all add: slice_def)

text \<open>The header in front of a stream is read back: both addresses, both ports and the stream.\<close>

lemma proxy_parse_header:
  assumes "length s = k" "length d = k" "k = 4 \<and> f = 0x11 \<or> k = 16 \<and> f = 0x21"
  shows "proxy_parse ((proxy_magic @ [0x21, f] @ be_put 2 (word_of_nat (2 * k + 4) :: u16) @ s @ d @ port16 sp @ port16 dp) @ rest) =
    Some (s, d, word_of_int sp, word_of_int dp, rest)"
proof -
  let ?h = "proxy_magic @ [0x21, f] @ be_put 2 (word_of_nat (2 * k + 4) :: u16)"
  let ?b = "(?h @ s @ d @ port16 sp @ port16 dp) @ rest"
  have h: "length ?h = 16" by (simp add: proxy_magic_def)
  have p: "length (port16 x) = 2" for x by (simp add: port16_def)
  have b: "take 12 ?b = proxy_magic" "?b ! 12 = 0x21" "?b ! 13 = f" by (simp_all add: proxy_magic_def)
  have n: "unat (be_get (slice 14 16 ?b) :: u16) = 2 * k + 4"
    using assms(3) by (auto simp: slice_def proxy_magic_def be_get_put)
  have sl: "slice 16 (16 + k) ?b = s" "slice (16 + k) (16 + 2 * k) ?b = d" "slice (16 + 2 * k) (18 + 2 * k) ?b = port16 sp"
    "slice (18 + 2 * k) (20 + 2 * k) ?b = port16 dp" "drop (16 + (2 * k + 4)) ?b = rest"
    using header_slices [OF h assms(1,2) p [of sp] p [of dp], of rest] by simp_all
  have "length ?b = 20 + 2 * k + length rest" using h p assms(1,2) by simp
  then show ?thesis using assms(3) b n sl unfolding proxy_parse_def Let_def by (auto simp: port16_def be_get_put)
qed

lemma to4_length: "to4 ip = Some b \<Longrightarrow> length b = 4"
  by (auto simp: to4_def split: if_splits)

lemma to4_mapped: "length b = 4 \<Longrightarrow> to4 (v4_in_v6 @ b) = Some b"
  by (simp add: to4_def v4_in_v6_def)

lemma ParseIP_printed_v4:
  assumes "to4 ip = Some b"
  shows "ParseIP (ip_string ip) = Some (v4_in_v6 @ b)"
proof -
  obtain w x y z where b: "b = [w, x, y, z]" using to4_length [OF assms] by (auto simp: length_Suc_conv numeral_eq_Suc)
  have "ip \<noteq> []" "length ip = 4 \<or> length ip = 16" using assms by (auto simp: to4_def split: if_splits)
  then show ?thesis using assms b by (auto simp: ip_string_def ParseIP_v4)
qed

text \<open>What the forwarded service is told. For an IPv4 connection, in whichever form the socket gave the addresses, the header
  that is written reads back as exactly the client's address and port and the listener's, and the stream follows untouched.
  For any two addresses that parse there is a header, and never the error about mismatched versions.\<close>

theorem proxy_header_names_the_client:
  assumes "to4 sip = Some s" "to4 dip = Some d"
  shows "(case WriteProxyProtocol (Some (sip, sp)) (Some (dip, dp)) True of
       Inr h \<Rightarrow> proxy_parse (h @ stream) = Some (s, d, word_of_int sp, word_of_int dp, stream) | Inl _ \<Rightarrow> False) \<and>
    buildProxyProtocolV2Header a b p q \<noteq> Inl ppMismatch"
proof
  have n: "(word_of_nat (2 * 4 + 4) :: u16) = 12" by simp
  show "case WriteProxyProtocol (Some (sip, sp)) (Some (dip, dp)) True of
       Inr h \<Rightarrow> proxy_parse (h @ stream) = Some (s, d, word_of_int sp, word_of_int dp, stream) | Inl _ \<Rightarrow> False"
    using proxy_parse_header [OF to4_length [OF assms(1)] to4_length [OF assms(2)], of "0x11" sp dp stream]
      ParseIP_printed_v4 [OF assms(1)] ParseIP_printed_v4 [OF assms(2)] to4_mapped [OF to4_length [OF assms(1)]] to4_mapped [OF to4_length [OF assms(2)]]
    by (simp add: WriteProxyProtocol_def buildProxyProtocolV2Header_def n)
  show "buildProxyProtocolV2Header a b p q \<noteq> Inl ppMismatch"
    using ParseIP_length by (auto simp: buildProxyProtocolV2Header_def to16_def split: option.split)
qed

text \<open>A client at 192.0.2.7, port 40000, on a dual-stack listener.\<close>

theorem proxy_header_names_the_client_witness:
  "proxy_parse ((case WriteProxyProtocol (Some (v4_in_v6 @ [192, 0, 2, 7], 40000)) (Some ([198, 51, 100, 1], 443)) True of Inr h \<Rightarrow> h | Inl _ \<Rightarrow> []) @ [1, 2]) =
   Some ([192, 0, 2, 7], [198, 51, 100, 1], 40000, 443, [1, 2])"
  using proxy_header_names_the_client [of "v4_in_v6 @ [192, 0, 2, 7]" "[192, 0, 2, 7]" "[198, 51, 100, 1]" "[198, 51, 100, 1]" "[1, 2]" 40000 443 "[]" "[]" 0 0]
  by (cases "WriteProxyProtocol (Some (v4_in_v6 @ [192, 0, 2, 7], 40000)) (Some ([198, 51, 100, 1], 443)) True") (simp_all add: to4_def v4_in_v6_def)

end
