(* ===== verification/Watchdog.thy ===== *)
theory Watchdog
  imports Metrics GoNet
begin

text \<open>
  The watchdog that restarts a tunnel which runs without being connected (\<open>internal/manage/watchdog.go\<close>), and what the panel
  says of the same tunnel (\<open>health.go\<close>, \<open>directhealth.go\<close>). The socket tables are the text that \<open>ss\<close> printed, the metrics file
  one reading of it at one instant, the state of a service what \<open>systemctl\<close> said. Times are nanoseconds. An entry missing from
  a Go map is its zero value: no failures, never restarted, never seen healthy.
\<close>

section \<open>Tunnels and socket tables\<close>

record mtunnel =
  mt_Name :: string
  mt_Role :: string
  mt_Transport :: string
  mt_Addr :: string
  mt_Ports :: "string list"
  mt_Service :: string

type_synonym pairs = "(string \<times> string) list"

definition isDatagram :: "string \<Rightarrow> bool" where
  "isDatagram t =
     (if prefix ''l3/'' t then True
      else if prefix ''direct/'' t then False
      else t = ''udp'' \<or> t = ''kcp'' \<or> t = ''xdi'' \<or> t = ''quic'' \<or> t = ''pck'')"

definition IsDirectKind :: "mtunnel \<Rightarrow> bool" where
  "IsDirectKind t \<longleftrightarrow> prefix ''direct/'' (mt_Transport t) \<or> prefix ''l3/'' (mt_Transport t)"

text \<open>\<open>strings.Fields\<close>: the first argument counts the bytes of a white space sequence still to be skipped.\<close>

fun fields_from :: "nat \<Rightarrow> string \<Rightarrow> string \<Rightarrow> string list" where
  "fields_from k acc [] = (if acc = [] then [] else [rev acc])"
| "fields_from (Suc k) acc (c # s) = fields_from k acc s"
| "fields_from 0 acc (c # s) =
     (case find (\<lambda>p. prefix p (c # s)) ws_seqs of
        Some p \<Rightarrow> (if acc = [] then [] else [rev acc]) @ fields_from (length p - 1) [] s
      | None \<Rightarrow> fields_from 0 (c # acc) s)"

definition fields :: "string \<Rightarrow> string list" where
  "fields s = fields_from 0 [] s"

definition last_two :: "string list \<Rightarrow> pairs" where
  "last_two f = (if length f < 2 then [] else [(f ! (length f - 2), f ! (length f - 1))])"

definition establishedPairs :: "string option \<Rightarrow> pairs" where
  "establishedPairs out =
     (case out of None \<Rightarrow> [] | Some s \<Rightarrow> concat (map (\<lambda>line. last_two (fields line)) (split_on (char_of (10 :: nat)) s)))"

definition hasRealPeer :: "string \<Rightarrow> bool" where
  "hasRealPeer peer =
     (if peer = [] then False
      else case split_host_port peer of
        None \<Rightarrow> False
      | Some (host, port) \<Rightarrow>
          if port = ''*'' \<or> port = ''0'' then False
          else host \<noteq> ''*'' \<and> host \<noteq> [] \<and> host \<noteq> ''0.0.0.0'' \<and> host \<noteq> ''::'' \<and> host \<noteq> ''[::]'')"

definition establishedUDPPairs :: "string option \<Rightarrow> pairs" where
  "establishedUDPPairs out = filter (\<lambda>p. hasRealPeer (snd p)) (establishedPairs out)"

definition portOf :: "string \<Rightarrow> string" where
  "portOf hostPort = (case split_host_port hostPort of Some (_, p) \<Rightarrow> p | None \<Rightarrow> [])"

section \<open>Health\<close>

definition datagramPeerWindow :: int where
  "datagramPeerWindow = 90 * 1000000000"

text \<open>What is known of a tunnel at one look: the metrics file (nothing when it is missing or unreadable), the clock, the
  datagram sockets, the unit file and the service.\<close>

record look =
  lk_snap :: "snapshot option"
  lk_time :: int
  lk_udp :: "string option"
  lk_installed :: bool
  lk_active :: bool

definition engineSaysConnected :: "look \<Rightarrow> bool \<times> bool" where
  "engineSaysConnected l =
     (case lk_snap l of
        None \<Rightarrow> (False, False)
      | Some snap \<Rightarrow>
          if lk_time l - sn_Taken snap > datagramPeerWindow then (False, False)
          else case sn_Connected snap of None \<Rightarrow> (False, False) | Some b \<Rightarrow> (b, True))"

definition datagramPeer :: "look \<Rightarrow> bool \<times> bool" where
  "datagramPeer l =
     (case lk_snap l of
        None \<Rightarrow> (False, False)
      | Some snap \<Rightarrow> if lk_time l - sn_Taken snap > datagramPeerWindow then (False, False) else (sn_Peer snap \<noteq> [], True))"

text \<open>A connection to the dialled address, when the host is an IP address; to its port, when it is a name.\<close>

definition peer_matches :: "string \<Rightarrow> string \<Rightarrow> string \<times> string \<Rightarrow> bool" where
  "peer_matches host port p =
     (case split_host_port (snd p) of
        None \<Rightarrow> False
      | Some (ph, pp) \<Rightarrow>
          if pp \<noteq> port then False
          else case ParseIP host of
            None \<Rightarrow> True
          | Some rip \<Rightarrow> (case ParseIP ph of None \<Rightarrow> False | Some pip \<Rightarrow> ip_equal pip rip))"

definition directHealthy :: "mtunnel \<Rightarrow> pairs \<Rightarrow> look \<Rightarrow> bool \<times> bool" where
  "directHealthy t pairs l =
     (if prefix ''l3/'' (mt_Transport t) then datagramPeer l
      else if \<not> prefix ''direct/'' (mt_Transport t) then (False, False)
      else case split_host_port (mt_Addr t) of
        None \<Rightarrow> (True, False)
      | Some (host, port) \<Rightarrow>
          if mt_Role t = ''kharej'' then (list_ex (\<lambda>p. portOf (fst p) = port) pairs, True)
          else (list_ex (peer_matches host port) pairs, True))"

definition tunnelHealthy :: "mtunnel \<Rightarrow> pairs \<Rightarrow> look \<Rightarrow> bool" where
  "tunnelHealthy t pairs l =
     (if IsDirectKind t then (case directHealthy t pairs l of (healthy, known) \<Rightarrow> healthy \<or> \<not> known)
      else case engineSaysConnected l of (connected, known) \<Rightarrow>
        if known then connected
        else if isDatagram (mt_Transport t) \<and> mt_Role t = ''server'' then True
        else let pairs = (if isDatagram (mt_Transport t) then establishedUDPPairs (lk_udp l) else pairs) in
          case split_host_port (mt_Addr t) of
            None \<Rightarrow> True
          | Some (host, port) \<Rightarrow>
              if mt_Role t = ''server'' then list_ex (\<lambda>p. portOf (fst p) = port) pairs
              else list_ex (peer_matches host port) pairs)"

text \<open>The panel's view.\<close>

datatype health_detail = HD_notInstalled | HD_notRunning | HD_peer | HD_serviceDown localServiceState | HD_noClient | HD_noServer
  | HD_notReported | HD_noIran | HD_noKharej

record health =
  h_Name :: string
  h_Service :: string
  h_Installed :: bool
  h_Active :: bool
  h_Connected :: bool
  h_State :: string
  h_Detail :: health_detail
  h_ServiceDown :: "localServiceState option"

definition serviceDown :: "look \<Rightarrow> localServiceState option" where
  "serviceDown l =
     (case lk_snap l of
        None \<Rightarrow> None
      | Some snap \<Rightarrow>
          (case sn_LocalService snap of
             None \<Rightarrow> None
           | Some ls \<Rightarrow> if lk_time l - sn_Taken snap > datagramPeerWindow then None else Some ls))"

definition directStateDetail :: "mtunnel \<Rightarrow> bool \<Rightarrow> bool \<Rightarrow> health_detail" where
  "directStateDetail t connected known =
     (if \<not> known then HD_notReported else if connected then HD_peer else if mt_Role t = ''kharej'' then HD_noIran else HD_noKharej)"

definition tunnelHealthWith :: "mtunnel \<Rightarrow> pairs \<Rightarrow> look \<Rightarrow> health" where
  "tunnelHealthWith t pairs l =
     (let h = \<lparr>h_Name = mt_Name t, h_Service = mt_Service t, h_Installed = lk_installed l, h_Active = lk_active l,
               h_Connected = False, h_State = ''stopped'', h_Detail = HD_notRunning, h_ServiceDown = None\<rparr> in
      if \<not> lk_installed l then h\<lparr>h_Detail := HD_notInstalled\<rparr>
      else if \<not> lk_active l then h
      else
        let c = tunnelHealthy t pairs l;
            c = (if isDatagram (mt_Transport t) \<and> snd (datagramPeer l) then fst (datagramPeer l) else c) in
        if IsDirectKind t then
          (case directHealthy t pairs l of (connected, known) \<Rightarrow>
             h\<lparr>h_Connected := connected \<and> known, h_Detail := directStateDetail t connected known,
               h_State := (if connected \<and> known then ''online'' else if \<not> known then ''unknown'' else ''offline'')\<rparr>)
        else if c then
          (case serviceDown l of
             None \<Rightarrow> h\<lparr>h_Connected := True, h_State := ''online'', h_Detail := HD_peer\<rparr>
           | Some d \<Rightarrow> h\<lparr>h_Connected := True, h_State := ''online'', h_ServiceDown := Some d, h_Detail := HD_serviceDown d\<rparr>)
        else h\<lparr>h_State := ''offline'', h_Detail := (if mt_Role t = ''server'' then HD_noClient else HD_noServer)\<rparr>)"

section \<open>The watchdog\<close>

definition wdThreshold :: int where "wdThreshold = 2"

definition wdCooldown :: int where "wdCooldown = 3 * 60 * 1000000000"

definition flapWindow :: int where "flapWindow = 3600 * 1000000000"

definition flapThreshold :: nat where "flapThreshold = 4"

record wd_state =
  wd_fails :: "string \<Rightarrow> int"
  wd_lastRestart :: "string \<Rightarrow> int option"
  wd_restarts :: "string \<Rightarrow> int list"
  wd_lastFlapReport :: "string \<Rightarrow> int option"
  wd_seenHealthy :: "string \<Rightarrow> bool"

definition wd_start :: wd_state where
  "wd_start = \<lparr>wd_fails = (\<lambda>_. 0), wd_lastRestart = (\<lambda>_. None), wd_restarts = (\<lambda>_. []), wd_lastFlapReport = (\<lambda>_. None),
     wd_seenHealthy = (\<lambda>_. False)\<rparr>"

text \<open>The events it records, in the order of the code: a restart, a flapping tunnel, and what came of a restart.\<close>

datatype wd_alert = WA_restarted string | WA_flapping string nat | WA_recovered string | WA_notBack string

definition utf8 :: "nat list \<Rightarrow> string" where
  "utf8 ns = map char_of ns"

fun alert_text :: "wd_alert \<Rightarrow> string" where
  "alert_text (WA_restarted name) =
     utf8 [0xF0, 0x9F, 0x94, 0x81] @ '' Watchdog restarted tunnel '' @ name @ '' '' @ utf8 [0xE2, 0x80, 0x94] @ '' it was running but not connected''"
| "alert_text (WA_flapping name n) =
     utf8 [0xE2, 0x9A, 0xA0, 0xEF, 0xB8, 0x8F] @ '' Tunnel '' @ name @ '' is flapping '' @ utf8 [0xE2, 0x80, 0x94] @ '' restarted '' @
     show_nat n @ '' times in the last hour. It is not failing once, it is failing repeatedly, which usually means the '' @
     ''path drops full-sized packets (try a TCP MSS clamp) or the link is too '' @
     ''lossy for the preset. Individual restart alerts for it are suppressed while this lasts.''"
| "alert_text (WA_recovered name) =
     utf8 [0xF0, 0x9F, 0x9F, 0xA2] @ '' Tunnel '' @ name @ '' is carrying traffic again after the restart''"
| "alert_text (WA_notBack name) =
     utf8 [0xF0, 0x9F, 0x94, 0xB4] @ '' Tunnel '' @ name @ '' did not come back after the restart '' @ utf8 [0xE2, 0x80, 0x94] @
     '' it is running but still not connected''"

definition recentRestarts :: "int list \<Rightarrow> int \<Rightarrow> int list" where
  "recentRestarts prev now = filter (\<lambda>t. now - t < flapWindow) prev @ [now]"

definition reportRestart :: "string \<Rightarrow> int list \<Rightarrow> (string \<Rightarrow> int option) \<Rightarrow> int \<Rightarrow> (string \<Rightarrow> int option) \<times> wd_alert list" where
  "reportRestart name at lastReport now =
     (if length at < flapThreshold then (lastReport, [WA_restarted name])
      else case lastReport name of
        Some r \<Rightarrow> if now - r < flapWindow then (lastReport, []) else (lastReport(name := Some now), [WA_flapping name (length at)])
      | None \<Rightarrow> (lastReport(name := Some now), [WA_flapping name (length at)]))"

text \<open>What a check does to the outside: it restarts the service, records an event, or starts \<open>reportRecovery\<close>.\<close>

datatype wd_effect = WE_restart mtunnel int | WE_event wd_alert int | WE_recovery mtunnel

text \<open>One tunnel of one pass. \<open>ck_since\<close> is the instant of \<open>time.Since\<close>, \<open>ck_now\<close> the later one taken after the restart.\<close>

record wd_check =
  ck_tunnel :: mtunnel
  ck_look :: look
  ck_since :: int
  ck_now :: int

definition watchdog_check :: "pairs \<Rightarrow> wd_check \<Rightarrow> wd_state \<Rightarrow> wd_state \<times> wd_effect list" where
  "watchdog_check pairs c s =
     (let t = ck_tunnel c; n = mt_Name t in
      if \<not> lk_active (ck_look c) then (s\<lparr>wd_fails := (wd_fails s)(n := 0)\<rparr>, [])
      else if tunnelHealthy t pairs (ck_look c) then
        (s\<lparr>wd_fails := (wd_fails s)(n := 0), wd_seenHealthy := (wd_seenHealthy s)(n := True)\<rparr>, [])
      else if \<not> wd_seenHealthy s n then (s, [])
      else
        let fails = (wd_fails s)(n := wd_fails s n + 1) in
        if wdThreshold \<le> fails n \<and> (case wd_lastRestart s n of None \<Rightarrow> True | Some r \<Rightarrow> ck_since c - r > wdCooldown) then
          let now = ck_now c; restarts = (wd_restarts s)(n := recentRestarts (wd_restarts s n) now) in
          (case reportRestart n (restarts n) (wd_lastFlapReport s) now of (flap, alerts) \<Rightarrow>
             (s\<lparr>wd_fails := fails(n := 0), wd_lastRestart := (wd_lastRestart s)(n := Some now), wd_restarts := restarts,
                wd_lastFlapReport := flap\<rparr>,
              [WE_restart t now] @ map (\<lambda>a. WE_event a now) alerts @ [WE_recovery t]))
        else (s\<lparr>wd_fails := fails\<rparr>, []))"

text \<open>A pass looks at the socket table once and then at every tunnel of the list; \<open>RunWatchdog\<close> is a pass for every tick.\<close>

fun watchdog_checks :: "pairs \<Rightarrow> wd_check list \<Rightarrow> wd_state \<Rightarrow> wd_state \<times> wd_effect list" where
  "watchdog_checks pairs [] s = (s, [])"
| "watchdog_checks pairs (c # cs) s =
     (case watchdog_check pairs c s of (s1, e1) \<Rightarrow> case watchdog_checks pairs cs s1 of (s2, e2) \<Rightarrow> (s2, e1 @ e2))"

fun RunWatchdog :: "(string option \<times> wd_check list) list \<Rightarrow> wd_state \<Rightarrow> wd_state \<times> wd_effect list" where
  "RunWatchdog [] s = (s, [])"
| "RunWatchdog ((out, cs) # ticks) s =
     (case watchdog_checks (establishedPairs out) cs s of (s1, e1) \<Rightarrow> case RunWatchdog ticks s1 of (s2, e2) \<Rightarrow> (s2, e1 @ e2))"

definition recoveryWait :: int where "recoveryWait = 45 * 1000000000"

text \<open>The rounds of \<open>reportRecovery\<close>: the clock before the sleep, then the look after it; nothing is reported while the list
  of rounds has not reached the end.\<close>

fun recovery_rounds :: "int \<Rightarrow> mtunnel \<Rightarrow> (int \<times> string option \<times> look) list \<Rightarrow> wd_alert option" where
  "recovery_rounds deadline t [] = None"
| "recovery_rounds deadline t ((now, out, l) # rs) =
     (if now < deadline then
        (if \<not> lk_active l then recovery_rounds deadline t rs
         else if tunnelHealthy t (establishedPairs out) l then Some (WA_recovered (mt_Name t))
         else recovery_rounds deadline t rs)
      else Some (WA_notBack (mt_Name t)))"

definition reportRecovery :: "int \<Rightarrow> mtunnel \<Rightarrow> (int \<times> string option \<times> look) list \<Rightarrow> wd_alert option" where
  "reportRecovery start t rounds = recovery_rounds (start + recoveryWait) t rounds"

section \<open>When a tunnel is restarted\<close>

text \<open>The contract, for one tunnel and over the history of its checks alone (newest first). A tunnel is due when it has been
  healthy at some check before, was found unhealthy at the check before this one without being restarted there, and its last
  restart, if any, is longer ago than the cooldown.\<close>

datatype verdict = Inactive | Healthy | Unhealthy

record wd_entry =
  en_verdict :: verdict
  en_now :: int
  en_restarted :: bool

definition verdict_of :: "pairs \<Rightarrow> wd_check \<Rightarrow> verdict" where
  "verdict_of pairs c =
     (if \<not> lk_active (ck_look c) then Inactive else if tunnelHealthy (ck_tunnel c) pairs (ck_look c) then Healthy else Unhealthy)"

definition failed_entry :: "wd_entry \<Rightarrow> bool" where
  "failed_entry e \<longleftrightarrow> en_verdict e = Unhealthy \<and> \<not> en_restarted e"

definition wd_due :: "wd_entry list \<Rightarrow> int \<Rightarrow> bool" where
  "wd_due hist since \<longleftrightarrow>
     list_ex (\<lambda>e. en_verdict e = Healthy) hist \<and> hist \<noteq> [] \<and> failed_entry (hd hist) \<and>
     (case find en_restarted hist of None \<Rightarrow> True | Some e \<Rightarrow> since - en_now e > wdCooldown)"

definition wd_spec_step :: "pairs \<Rightarrow> wd_check \<Rightarrow> wd_entry list \<Rightarrow> wd_entry list" where
  "wd_spec_step pairs c hist =
     \<lparr>en_verdict = verdict_of pairs c, en_now = ck_now c, en_restarted = (verdict_of pairs c = Unhealthy \<and> wd_due hist (ck_since c))\<rparr> # hist"

text \<open>All checks of all passes in order, and the history of one tunnel in them.\<close>

definition all_checks :: "(string option \<times> wd_check list) list \<Rightarrow> (pairs \<times> wd_check) list" where
  "all_checks ticks = concat (map (\<lambda>(out, cs). map (Pair (establishedPairs out)) cs) ticks)"

definition wd_spec :: "string \<Rightarrow> (pairs \<times> wd_check) list \<Rightarrow> wd_entry list" where
  "wd_spec n checks = foldl (\<lambda>hist (pairs, c). if mt_Name (ck_tunnel c) = n then wd_spec_step pairs c hist else hist) [] checks"

lemma wd_spec_Nil [simp]: "wd_spec n [] = []"
  by (simp add: wd_spec_def)

lemma wd_spec_snoc: "wd_spec n (checks @ [(pairs, c)]) =
   (if mt_Name (ck_tunnel c) = n then wd_spec_step pairs c (wd_spec n checks) else wd_spec n checks)"
  by (simp add: wd_spec_def)

text \<open>The checks without the passes around them.\<close>

fun wd_run :: "(pairs \<times> wd_check) list \<Rightarrow> wd_state \<Rightarrow> wd_state \<times> wd_effect list" where
  "wd_run [] s = (s, [])"
| "wd_run ((pairs, c) # cs) s = (case watchdog_check pairs c s of (s1, e1) \<Rightarrow> case wd_run cs s1 of (s2, e2) \<Rightarrow> (s2, e1 @ e2))"

lemma wd_run_append: "wd_run (a @ b) s = (case wd_run a s of (s1, e1) \<Rightarrow> case wd_run b s1 of (s2, e2) \<Rightarrow> (s2, e1 @ e2))"
  by (induction a arbitrary: s) (auto split: prod.split)

lemma watchdog_checks_run: "watchdog_checks pairs cs s = wd_run (map (Pair pairs) cs) s"
  by (induction cs arbitrary: s) (auto split: prod.split)

lemma RunWatchdog_run: "RunWatchdog ticks s = wd_run (all_checks ticks) s"
  by (induction ticks arbitrary: s) (auto simp: all_checks_def wd_run_append watchdog_checks_run split: prod.split)

text \<open>The maps at a tunnel's name against its history.\<close>

definition wd_sim :: "string \<Rightarrow> wd_entry list \<Rightarrow> wd_state \<Rightarrow> bool" where
  "wd_sim n hist s \<longleftrightarrow>
     wd_seenHealthy s n = list_ex (\<lambda>e. en_verdict e = Healthy) hist \<and>
     wd_fails s n = (if wd_seenHealthy s n then int (length (takeWhile failed_entry hist)) else 0) \<and>
     wd_lastRestart s n = map_option en_now (find en_restarted hist)"

fun restart_of :: "string \<Rightarrow> wd_effect \<Rightarrow> int list" where
  "restart_of n (WE_restart t now) = (if mt_Name t = n then [now] else [])"
| "restart_of n _ = []"

definition restart_times :: "string \<Rightarrow> wd_effect list \<Rightarrow> int list" where
  "restart_times n es = concat (map (restart_of n) es)"

lemma restart_times_simps [simp]: "restart_times n [] = []" "restart_times n (a @ b) = restart_times n a @ restart_times n b"
  "restart_times n (WE_restart t now # es) = (if mt_Name t = n then now # restart_times n es else restart_times n es)"
  "restart_times n (WE_recovery t # es) = restart_times n es" "restart_times n (WE_event w now # es) = restart_times n es" "restart_times n (map (\<lambda>a. WE_event a now) as) = []"
  by (auto simp: restart_times_def)

text \<open>A check of another tunnel leaves everything kept for this one.\<close>

lemma watchdog_check_other:
  assumes "mt_Name (ck_tunnel c) \<noteq> n" "watchdog_check pairs c s = (s', es)"
  shows "wd_fails s' n = wd_fails s n" "wd_lastRestart s' n = wd_lastRestart s n" "wd_restarts s' n = wd_restarts s n"
    "wd_lastFlapReport s' n = wd_lastFlapReport s n" "wd_seenHealthy s' n = wd_seenHealthy s n" "restart_times n es = []"
  using assms by (auto simp: watchdog_check_def Let_def reportRestart_def split: if_splits option.splits)

lemma due_counts:
  assumes "wd_sim n hist s" "wd_seenHealthy s n"
  shows "wdThreshold \<le> wd_fails s n + 1 \<longleftrightarrow> hist \<noteq> [] \<and> failed_entry (hd hist)"
  using assms by (cases hist) (auto simp: wd_sim_def wdThreshold_def)

lemma due_cooldown:
  assumes "wd_sim n hist s"
  shows "(case wd_lastRestart s n of None \<Rightarrow> True | Some r \<Rightarrow> since - r > wdCooldown) =
    (case find en_restarted hist of None \<Rightarrow> True | Some e \<Rightarrow> since - en_now e > wdCooldown)"
  using assms by (auto simp: wd_sim_def split: option.split)

lemma watchdog_check_same:
  assumes sim: "wd_sim n hist s" and n: "mt_Name (ck_tunnel c) = n" and r: "watchdog_check pairs c s = (s', es)"
  shows "wd_sim n (wd_spec_step pairs c hist) s' \<and>
    restart_times n es = (if en_restarted (hd (wd_spec_step pairs c hist)) then [ck_now c] else [])"
proof (cases "verdict_of pairs c")
  case Inactive
  then show ?thesis using sim n r
    by (auto simp: verdict_of_def wd_spec_step_def wd_sim_def watchdog_check_def failed_entry_def split: if_splits)
next
  case Healthy
  then show ?thesis using sim n r
    by (auto simp: verdict_of_def wd_spec_step_def wd_sim_def watchdog_check_def failed_entry_def Let_def split: if_splits)
next
  case Unhealthy
  show ?thesis
  proof (cases "wd_seenHealthy s n")
    case False
    then show ?thesis using Unhealthy sim n r
      by (auto simp: verdict_of_def wd_spec_step_def wd_sim_def watchdog_check_def wd_due_def Let_def split: if_splits)
  next
    case True
    have due: "wd_due hist (ck_since c) \<longleftrightarrow> wdThreshold \<le> wd_fails s n + 1 \<and>
        (case wd_lastRestart s n of None \<Rightarrow> True | Some r \<Rightarrow> ck_since c - r > wdCooldown)"
      unfolding due_counts [OF sim True] due_cooldown [OF sim] using sim True by (auto simp: wd_due_def wd_sim_def)
    show ?thesis using due Unhealthy True sim n r
      by (auto simp: verdict_of_def wd_spec_step_def wd_sim_def watchdog_check_def failed_entry_def Let_def split: if_splits prod.splits)
  qed
qed

lemma wd_run_sim:
  assumes "wd_run checks wd_start = (s, es)"
  shows "wd_sim n (wd_spec n checks) s \<and> restart_times n es = rev (map en_now (filter en_restarted (wd_spec n checks)))"
  using assms
proof (induction checks arbitrary: s es rule: rev_induct)
  case Nil
  then show ?case by (auto simp: wd_sim_def wd_start_def)
next
  case (snoc x checks)
  obtain pairs c where x: "x = (pairs, c)" by fastforce
  obtain s1 e1 where r1: "wd_run checks wd_start = (s1, e1)" by fastforce
  obtain s2 e2 where r2: "watchdog_check pairs c s1 = (s2, e2)" by fastforce
  have se: "s = s2" "es = e1 @ e2" using snoc.prems r1 r2 x by (auto simp: wd_run_append)
  note IH = snoc.IH [OF r1]
  show ?case
  proof (cases "mt_Name (ck_tunnel c) = n")
    case True
    from watchdog_check_same [OF conjunct1 [OF IH] True r2] IH show ?thesis
      by (simp add: x se wd_spec_snoc True) (simp add: wd_spec_step_def)
  next
    case False
    from watchdog_check_other [OF False r2] IH show ?thesis by (simp add: x se wd_spec_snoc False wd_sim_def)
  qed
qed

text \<open>C22. The watchdog keeps its contract: whatever the other tunnels do in between, it restarts a tunnel at exactly those checks
  at which the tunnel is active, unhealthy and due by its own history.\<close>

theorem watchdog_restarts_when_due:
  "restart_times n (snd (RunWatchdog ticks wd_start)) = rev (map en_now (filter en_restarted (wd_spec n (all_checks ticks))))"
  unfolding RunWatchdog_run using wd_run_sim [of "all_checks ticks" _ _ n] by (metis prod.collapse)

section \<open>How often\<close>

definition apart :: "int \<Rightarrow> int \<Rightarrow> bool" where
  "apart a b \<longleftrightarrow> b - a > wdCooldown"

lemma find_filter: "find P xs = (case filter P xs of [] \<Rightarrow> None | x # _ \<Rightarrow> Some x)"
  by (induction xs) auto

lemma wd_spec_apart:
  assumes "list_all (\<lambda>(_, c). ck_since c \<le> ck_now c) checks"
  shows "sorted_wrt (\<lambda>b a. apart a b) (map en_now (filter en_restarted (wd_spec n checks)))"
  using assms
proof (induction checks rule: rev_induct)
  case (snoc x checks)
  obtain pairs c where x: "x = (pairs, c)" by fastforce
  note IH = snoc.IH
  let ?h = "wd_spec n checks"
  have "apart (en_now e) (ck_now c)" if d: "wd_due ?h (ck_since c)" and e: "e \<in> set ?h" "en_restarted e" for e
  proof -
    have "e \<in> set (filter en_restarted ?h)" using e by simp
    then obtain f fs where f: "filter en_restarted ?h = f # fs" by (cases "filter en_restarted ?h") auto
    have "ck_since c - en_now f > wdCooldown" using d f by (auto simp: wd_due_def find_filter)
    moreover have "e = f \<or> apart (en_now e) (en_now f)" using IH snoc.prems f \<open>e \<in> set (filter en_restarted ?h)\<close> by auto
    ultimately show ?thesis using snoc.prems x by (auto simp: apart_def wdCooldown_def)
  qed
  then show ?case using IH snoc.prems by (auto simp: x wd_spec_snoc wd_spec_step_def)
qed simp

lemma apart_span: "sorted_wrt apart xs \<Longrightarrow> xs \<noteq> [] \<Longrightarrow> int (length xs - 1) * wdCooldown \<le> last xs - hd xs"
proof (induction xs)
  case (Cons x xs)
  show ?case
  proof (cases xs)
    case (Cons y ys)
    have "wdCooldown < y - x" "int (length xs - 1) * wdCooldown \<le> last xs - hd xs"
      using Cons.prems Cons.IH \<open>xs = y # ys\<close> by (auto simp: apart_def)
    then show ?thesis using \<open>xs = y # ys\<close> by (simp add: algebra_simps)
  qed simp
qed simp

lemma apart_window:
  assumes "sorted_wrt apart xs"
  shows "length (filter (\<lambda>t. a \<le> t \<and> t < a + flapWindow) xs) \<le> 20"
proof (cases "filter (\<lambda>t. a \<le> t \<and> t < a + flapWindow) xs = []")
  case False
  let ?ys = "filter (\<lambda>t. a \<le> t \<and> t < a + flapWindow) xs"
  have "sorted_wrt apart ?ys" using assms by (rule sorted_wrt_filter)
  from apart_span [OF this False] have span: "int (length ?ys - 1) * wdCooldown \<le> last ?ys - hd ?ys" .
  have "last ?ys \<in> set ?ys" "hd ?ys \<in> set ?ys" using False last_in_set hd_in_set by blast+
  then have "last ?ys < a + flapWindow" "a \<le> hd ?ys" by auto
  then show ?thesis using span by (simp add: wdCooldown_def flapWindow_def)
qed simp

lemma restarts_apart:
  assumes "list_all (\<lambda>(_, c). ck_since c \<le> ck_now c) (all_checks ticks)"
  shows "sorted_wrt apart (restart_times n (snd (RunWatchdog ticks wd_start)))"
  using wd_spec_apart [OF assms, of n] wd_run_sim [of "all_checks ticks" "fst (RunWatchdog ticks wd_start)" "snd (RunWatchdog ticks wd_start)" n]
  by (simp add: RunWatchdog_run sorted_wrt_rev)

text \<open>A tunnel that cannot be helped is not restarted over and over: any two restarts are more than the cooldown apart, so
  that no hour has more than twenty.\<close>

theorem watchdog_is_patient:
  assumes "list_all (\<lambda>(_, c). ck_since c \<le> ck_now c) (all_checks ticks)"
  shows "sorted_wrt (\<lambda>a b. b - a > wdCooldown) (restart_times n (snd (RunWatchdog ticks wd_start))) \<and>
    length (filter (\<lambda>t. a \<le> t \<and> t < a + flapWindow) (restart_times n (snd (RunWatchdog ticks wd_start)))) \<le> 20"
  using restarts_apart [OF assms, of n] apart_window [OF restarts_apart [OF assms, of n], of a] by (simp add: apart_def [abs_def])

section \<open>After a restart\<close>

text \<open>The wait ends: each round sleeps three seconds, so sixteen rounds are enough, and the answer names the tunnel.\<close>

fun sleeps :: "int \<Rightarrow> (int \<times> string option \<times> look) list \<Rightarrow> bool" where
  "sleeps t [] \<longleftrightarrow> True"
| "sleeps t ((now, _) # rs) \<longleftrightarrow> t \<le> now \<and> sleeps (now + 3 * 1000000000) rs"

lemma recovery_rounds_end:
  "sleeps t0 rs \<Longrightarrow> deadline \<le> t0 + int k * (3 * 1000000000) \<Longrightarrow> k < length rs \<Longrightarrow>
   recovery_rounds deadline t rs \<in> {Some (WA_recovered (mt_Name t)), Some (WA_notBack (mt_Name t))}"
proof (induction rs arbitrary: t0 k)
  case (Cons r rs)
  obtain now out l where r: "r = (now, out, l)" by (cases r)
  show ?case
  proof (cases "now < deadline")
    case True
    then obtain j where k: "k = Suc j" using Cons.prems r by (cases k) auto
    have "recovery_rounds deadline t rs \<in> {Some (WA_recovered (mt_Name t)), Some (WA_notBack (mt_Name t))}"
      using Cons.prems r k by (intro Cons.IH [of "now + 3 * 1000000000" j]) (auto simp: algebra_simps)
    then show ?thesis using True r by auto
  qed (simp add: r)
qed simp

theorem reportRecovery_answers:
  assumes "sleeps start rounds" "15 < length rounds"
  shows "reportRecovery start t rounds = Some (WA_recovered (mt_Name t)) \<or> reportRecovery start t rounds = Some (WA_notBack (mt_Name t))"
  using recovery_rounds_end [OF assms(1), of "start + recoveryWait" 15 t] assms(2) by (auto simp: reportRecovery_def recoveryWait_def)

section \<open>The watchdog and the panel\<close>

text \<open>What an engine can have in its variables: the operations of the metrics package in any order.\<close>

datatype metrics_op = MO_peer string | MO_clear | MO_pool int int int int | MO_clearPool | MO_dial string string int "(nat \<times> localServiceState) option"
  | MO_dialled | MO_bytes u64 u64

fun metrics_do :: "metrics_op \<Rightarrow> metrics_vars \<Rightarrow> metrics_vars" where
  "metrics_do (MO_peer a) p = ReportPeer a p"
| "metrics_do MO_clear p = ClearPeer p"
| "metrics_do (MO_pool a b c d) p = ReportPool a b c d p"
| "metrics_do MO_clearPool p = ClearPool p"
| "metrics_do (MO_dial a y now old) p = fst (ReportLocalDialFailure a y now old p)"
| "metrics_do MO_dialled p = ReportLocalDialSuccess p"
| "metrics_do (MO_bytes i k) p = AddBytes i k p"

definition engine_vars :: "metrics_op list \<Rightarrow> metrics_vars" where
  "engine_vars ops = foldl (\<lambda>p e. metrics_do e p) new_process ops"

lemma peer_means_connected: "mv_peerAddr (engine_vars ops) \<noteq> None \<Longrightarrow> mv_connected (engine_vars ops) = Some True"
  unfolding engine_vars_def
proof (induction ops rule: rev_induct)
  case (snoc e ops)
  then show ?case by (cases e) (auto simp: ReportPeer_def ClearPeer_def ReportPool_def ClearPool_def AddBytes_def
        ReportLocalDialFailure_def ReportLocalDialSuccess_def Let_def split: if_splits)
qed (simp add: new_process_def)

lemma snapshot_peer: "sn_Peer (collector_Snapshot rd (engine_vars ops) c) \<noteq> [] \<Longrightarrow> sn_Connected (collector_Snapshot rd (engine_vars ops) c) = Some True"
  using peer_means_connected [of ops] by (auto simp: collector_Snapshot_def currentPeer_def split: option.splits)

lemma datagramPeer_engine: "datagramPeer l = (True, True) \<Longrightarrow> lk_snap l = Some (collector_Snapshot rd (engine_vars ops) c) \<Longrightarrow> engineSaysConnected l = (True, True)"
  using snapshot_peer by (auto simp: datagramPeer_def engineSaysConnected_def split: if_splits)

text \<open>A tunnel the panel shows as online is never one the watchdog counts as unhealthy, for whatever an engine has written.\<close>

lemma online_is_healthy:
  assumes "lk_snap l = Some (collector_Snapshot rd (engine_vars ops) c)" "h_State (tunnelHealthWith t pairs l) = ''online''"
  shows "tunnelHealthy t pairs l"
proof (cases "IsDirectKind t")
  case True
  then show ?thesis using assms(2) by (auto simp: tunnelHealthWith_def tunnelHealthy_def Let_def split: if_splits prod.splits)
next
  case False
  show ?thesis
  proof (cases "isDatagram (mt_Transport t) \<and> snd (datagramPeer l)")
    case True
    then have "datagramPeer l = (True, True)" using assms(2) False
      by (cases "datagramPeer l") (auto simp: tunnelHealthWith_def Let_def split: if_splits option.splits)
    from datagramPeer_engine [OF this assms(1)] show ?thesis using False by (simp add: tunnelHealthy_def)
  next
    case dg: False
    then show ?thesis using assms(2) False by (auto simp: tunnelHealthWith_def Let_def split: if_splits option.splits)
  qed
qed

theorem watchdog_spares_what_is_online:
  assumes "lk_snap (ck_look k) = Some (collector_Snapshot rd (engine_vars ops) c)"
    "h_State (tunnelHealthWith (ck_tunnel k) pairs (ck_look k)) = ''online''"
  shows "snd (watchdog_check pairs k s) = [] \<and> wd_fails (fst (watchdog_check pairs k s)) (mt_Name (ck_tunnel k)) = 0"
  using online_is_healthy [OF assms] by (simp add: watchdog_check_def Let_def)

end
