(* ===== verification/History.thy ===== *)
theory History
  imports Watchdog
begin

text \<open>
  What is kept of the past: the alerts that fired (\<open>internal/alerthist/alerthist.go\<close>) and a month of traffic and up or down
  per tunnel (\<open>internal/tunhist/tunhist.go\<close>). A file is a value or nothing; the JSON around it is a library and a write that
  fails leaves the old file, because it is written aside and renamed. Times are nanoseconds since 1970, \<open>None\<close> is the zero time.
\<close>

section \<open>Alerts\<close>

definition maxEvents :: nat where "maxEvents = 100"

record alert_event =
  ae_Time :: int
  ae_Message :: string

record alert_state =
  as_Updated :: "int option"
  as_Active :: "string list"
  as_Events :: "alert_event list"

definition alerts_Load :: "alert_state option \<Rightarrow> alert_state" where
  "alerts_Load file = (case file of None \<Rightarrow> \<lparr>as_Updated = None, as_Active = [], as_Events = []\<rparr> | Some st \<Rightarrow> st)"

definition alerts_Since :: "int \<Rightarrow> alert_state option \<Rightarrow> alert_event list" where
  "alerts_Since t file = filter (\<lambda>e. t < ae_Time e) (as_Events (alerts_Load file))"

definition keep_last :: "nat \<Rightarrow> 'a list \<Rightarrow> 'a list" where
  "keep_last n xs = (if length xs > n then drop (length xs - n) xs else xs)"

text \<open>The state to be written by \<open>RecordEvent\<close>, from the one it loaded; the two readings of the clock are arguments.\<close>

definition with_event :: "string \<Rightarrow> int \<Rightarrow> int \<Rightarrow> alert_state \<Rightarrow> alert_state" where
  "with_event msg at updated st =
     st\<lparr>as_Events := keep_last maxEvents (as_Events st @ [\<lparr>ae_Time = at, ae_Message = msg\<rparr>]), as_Updated := Some updated\<rparr>"

definition RecordEvent :: "bool \<Rightarrow> string \<Rightarrow> int \<Rightarrow> int \<Rightarrow> alert_state option \<Rightarrow> alert_state option" where
  "RecordEvent ok msg at updated file = (if ok then Some (with_event msg at updated (alerts_Load file)) else file)"

definition alerts_Record :: "bool \<Rightarrow> string list \<Rightarrow> string list \<Rightarrow> int \<Rightarrow> alert_state option \<Rightarrow> alert_state option" where
  "alerts_Record ok msgs active now file =
     (let st = alerts_Load file in
      if msgs = [] \<and> active = as_Active st \<and> as_Updated st \<noteq> None then file
      else if ok then
        Some (st\<lparr>as_Events := keep_last maxEvents (as_Events st @ map (\<lambda>m. \<lparr>ae_Time = now, ae_Message = m\<rparr>) msgs),
                 as_Active := active, as_Updated := Some now\<rparr>)
      else file)"

section \<open>A month of readings\<close>

definition keepRecent :: nat where "keepRecent = 288"
definition keepHourly :: nat where "keepHourly = 720"

record reading_sample =
  sa_T :: int
  sa_In :: u64
  sa_Out :: u64
  sa_Up :: bool

record hour_bucket =
  hr_T :: int
  hr_In :: u64
  hr_Out :: u64
  hr_UpN :: int
  hr_N :: int

record history =
  hi_Recent :: "reading_sample list"
  hi_Hourly :: "hour_bucket list"

record history_file =
  hf_Updated :: "int option"
  hf_Tunnels :: "string \<Rightarrow> history option"

definition unix_s :: "int \<Rightarrow> int" where
  "unix_s now = now div 1000000000"

definition hour_start :: "int \<Rightarrow> int" where
  "hour_start now = unix_s (now div (3600 * 1000000000) * (3600 * 1000000000))"

definition history_Load :: "history_file option \<Rightarrow> history_file" where
  "history_Load file = (case file of None \<Rightarrow> \<lparr>hf_Updated = None, hf_Tunnels = (\<lambda>_. None)\<rparr> | Some f \<Rightarrow> f)"

definition add_hour :: "u64 \<Rightarrow> u64 \<Rightarrow> bool \<Rightarrow> int \<Rightarrow> hour_bucket list \<Rightarrow> hour_bucket list" where
  "add_hour i o' up hourStart hs =
     (if hs \<noteq> [] \<and> hr_T (last hs) = hourStart then
        butlast hs @ [(last hs)\<lparr>hr_In := i, hr_Out := o', hr_N := hr_N (last hs) + 1, hr_UpN := (if up then hr_UpN (last hs) + 1 else hr_UpN (last hs))\<rparr>]
      else keep_last keepHourly (hs @ [\<lparr>hr_T = hourStart, hr_In = i, hr_Out = o', hr_UpN = (if up then 1 else 0), hr_N = 1\<rparr>]))"

definition history_Record :: "string \<Rightarrow> u64 \<Rightarrow> u64 \<Rightarrow> bool \<Rightarrow> int \<Rightarrow> history_file \<Rightarrow> history_file" where
  "history_Record name i o' up now f =
     (let h = (case hf_Tunnels f name of None \<Rightarrow> \<lparr>hi_Recent = [], hi_Hourly = []\<rparr> | Some h \<Rightarrow> h) in
      f\<lparr>hf_Tunnels := (hf_Tunnels f)(name := Some
          \<lparr>hi_Recent = keep_last keepRecent (hi_Recent h @ [\<lparr>sa_T = unix_s now, sa_In = i, sa_Out = o', sa_Up = up\<rparr>]),
           hi_Hourly = add_hour i o' up (hour_start now) (hi_Hourly h)\<rparr>)\<rparr>)"

definition history_prune :: "string set \<Rightarrow> history_file \<Rightarrow> history_file" where
  "history_prune current f = f\<lparr>hf_Tunnels := (\<lambda>n. if n \<in> current then hf_Tunnels f n else None)\<rparr>"

text \<open>One pass: for every tunnel of the list the metrics file and the panel's view of it, at one time.\<close>

type_synonym pass_look = "mtunnel \<times> string option \<times> look"

definition sample_one :: "int \<Rightarrow> pass_look \<Rightarrow> history_file \<Rightarrow> history_file" where
  "sample_one now x f =
     (case x of (t, out, l) \<Rightarrow>
        let io = (case lk_snap l of Some snap \<Rightarrow> (sn_BytesIn snap, sn_BytesOut snap) | None \<Rightarrow> (0, 0));
            h = tunnelHealthWith t (establishedPairs out) l in
        history_Record (mt_Name t) (fst io) (snd io) (h_Active h \<and> h_Connected h) now f)"

definition samplePass :: "bool \<Rightarrow> int \<Rightarrow> pass_look list \<Rightarrow> history_file option \<Rightarrow> history_file option" where
  "samplePass ok now xs file =
     (let f = foldl (\<lambda>f x. sample_one now x f) (history_Load file) xs;
          f = history_prune ((\<lambda>(t, _). mt_Name t) ` set xs) f in
      if ok then Some (f\<lparr>hf_Updated := Some now\<rparr>) else file)"

section \<open>The newest are kept\<close>

lemma keep_last_drop: "keep_last n xs = drop (length xs - n) xs"
  by (simp add: keep_last_def)

lemma length_keep_last [simp]: "length (keep_last n xs) = min n (length xs)"
  by (auto simp: keep_last_drop)

lemma keep_last_append: "keep_last n (keep_last n xs @ ys) = keep_last n (xs @ ys)"
proof -
  have "drop (length xs - n) xs @ ys = drop (length xs - n) (xs @ ys)" by simp
  then show ?thesis by (cases "length xs \<le> n") (simp_all only: keep_last_drop, simp_all add: add.commute)
qed

lemma keep_last_short [simp]: "length xs \<le> n \<Longrightarrow> keep_last n xs = xs"
  by (simp add: keep_last_def)

lemma set_keep_last: "set (keep_last n xs) \<subseteq> set xs"
  by (simp add: keep_last_drop set_drop_subset)

text \<open>Alerts recorded one after another, by anybody: the file has the newest hundred of all of them, in order.\<close>

datatype alert_write = AW_event string int int | AW_record "string list" "string list" int

fun alert_step :: "alert_write \<Rightarrow> alert_state option \<Rightarrow> alert_state option" where
  "alert_step (AW_event msg at updated) file = RecordEvent True msg at updated file"
| "alert_step (AW_record msgs active now) file = alerts_Record True msgs active now file"

fun written_events :: "alert_write \<Rightarrow> alert_event list" where
  "written_events (AW_event msg at updated) = [\<lparr>ae_Time = at, ae_Message = msg\<rparr>]"
| "written_events (AW_record msgs active now) = map (\<lambda>m. \<lparr>ae_Time = now, ae_Message = m\<rparr>) msgs"

lemma alert_step_events:
  assumes "as_Events (alerts_Load file) = keep_last maxEvents all"
  shows "as_Events (alerts_Load (alert_step w file)) = keep_last maxEvents (all @ written_events w)"
proof -
  have l: "alerts_Load (Some st) = st" for st by (simp add: alerts_Load_def)
  show ?thesis using assms
    by (cases w) (auto simp: RecordEvent_def alerts_Record_def with_event_def Let_def l keep_last_append)
qed

theorem alerts_keep_the_newest:
  "as_Events (alerts_Load (foldl (\<lambda>file w. alert_step w file) None ws)) = keep_last maxEvents (concat (map written_events ws))"
proof (induction ws rule: rev_induct)
  case Nil
  show ?case by (simp add: alerts_Load_def keep_last_def)
qed (simp add: alert_step_events)

text \<open>Loading and writing are two steps with no lock between them, and the watchdog's goroutines, the backups and the alert
  watcher all write. When two of them have loaded before either has written, the event of the one that writes first is lost.\<close>

record alert_world =
  aw_file :: "alert_state option"
  aw_loaded :: "nat \<Rightarrow> alert_state"

definition event_load :: "nat \<Rightarrow> alert_world \<Rightarrow> alert_world" where
  "event_load g w = w\<lparr>aw_loaded := (aw_loaded w)(g := alerts_Load (aw_file w))\<rparr>"

definition event_store :: "nat \<Rightarrow> string \<Rightarrow> int \<Rightarrow> int \<Rightarrow> alert_world \<Rightarrow> alert_world" where
  "event_store g msg at updated w = w\<lparr>aw_file := Some (with_event msg at updated (aw_loaded w g))\<rparr>"

lemma event_alone: "aw_file (event_store g msg at updated (event_load g w)) = RecordEvent True msg at updated (aw_file w)"
  by (simp add: event_store_def event_load_def RecordEvent_def)

theorem alert_race_loses_one:
  assumes "g \<noteq> h"
  shows "aw_file (event_store h b at' up' (event_store g a at up (event_load h (event_load g w)))) = RecordEvent True b at' up' (aw_file w)"
  using assms by (simp add: event_store_def event_load_def RecordEvent_def)

section \<open>The hourly buckets\<close>

text \<open>The reference: the readings grouped by hour, one bucket for each group with the traffic of its newest reading.\<close>

record reading =
  re_now :: int
  re_in :: u64
  re_out :: u64
  re_up :: bool

fun by_hour :: "reading list \<Rightarrow> reading list list" where
  "by_hour [] = []"
| "by_hour (r # rs) =
     (case by_hour rs of
        (q # qs) # gs \<Rightarrow> if hour_start (re_now r) = hour_start (re_now q) then (r # q # qs) # gs else [r] # (q # qs) # gs
      | _ \<Rightarrow> [[r]])"

definition bucket_of :: "reading list \<Rightarrow> hour_bucket" where
  "bucket_of g = \<lparr>hr_T = hour_start (re_now (hd g)), hr_In = re_in (last g), hr_Out = re_out (last g),
     hr_UpN = int (length (filter re_up g)), hr_N = int (length g)\<rparr>"

definition sample_of :: "reading \<Rightarrow> reading_sample" where
  "sample_of r = \<lparr>sa_T = unix_s (re_now r), sa_In = re_in r, sa_Out = re_out r, sa_Up = re_up r\<rparr>"

lemma by_hour_groups: "g \<in> set (by_hour rs) \<Longrightarrow> g \<noteq> [] \<and> list_all (\<lambda>r. hour_start (re_now r) = hour_start (re_now (hd g))) g"
proof (induction rs arbitrary: g)
  case (Cons r rs)
  show ?case
  proof (cases "by_hour rs")
    case (Cons h gs)
    then have "h \<noteq> []" using Cons.IH [of h] by simp
    then obtain q qs where h: "h = q # qs" by (cases h) auto
    have "list_all (\<lambda>r. hour_start (re_now r) = hour_start (re_now q)) qs" using Cons.IH [of h] \<open>by_hour rs = h # gs\<close> h by simp
    then show ?thesis using Cons.IH [of g] Cons.prems \<open>by_hour rs = h # gs\<close> h by (auto split: if_splits)
  qed (use Cons.prems in simp)
qed simp

lemma by_hour_cases:
  obtains "by_hour rs = []" | q qs gs where "by_hour rs = (q # qs) # gs"
proof (cases "by_hour rs")
  case (Cons g gs)
  then have "g \<noteq> []" using by_hour_groups [of g rs] by simp
  then show ?thesis using Cons that(2) by (cases g) auto
qed (use that(1) in simp)

lemma concat_by_hour [simp]: "concat (by_hour rs) = rs"
proof (induction rs)
  case (Cons r rs)
  then show ?case by (cases rs rule: by_hour_cases) auto
qed simp

lemma by_hour_Nil [simp]: "by_hour rs = [] \<longleftrightarrow> rs = []"
  by (cases rs) (auto split: list.split)

text \<open>A new reading joins the last group or begins one.\<close>

lemma by_hour_snoc:
  "by_hour (rs @ [r]) =
   (if rs \<noteq> [] \<and> hour_start (re_now (last rs)) = hour_start (re_now r) then butlast (by_hour rs) @ [last (by_hour rs) @ [r]]
    else by_hour rs @ [[r]])"
proof (induction rs)
  case (Cons x rs)
  show ?case
  proof (cases "by_hour rs")
    case (Cons g gs)
    then obtain q qs where g: "g = q # qs" using by_hour_groups [of g rs] by (cases g) auto
    have "rs \<noteq> []" using Cons by auto
    then show ?thesis using Cons.IH Cons g by (cases gs) (auto split: if_splits)
  next
    case Nil
    then have "rs = []" by simp
    then show ?thesis by simp
  qed
qed simp

lemma butlast_keep_last: "xs \<noteq> [] \<Longrightarrow> 0 < n \<Longrightarrow> butlast (keep_last n xs) @ [y] = keep_last n (butlast xs @ [y])"
  by (cases xs rule: rev_cases) (auto simp: keep_last_drop Suc_diff_le)

lemma last_keep_last: "xs \<noteq> [] \<Longrightarrow> 0 < n \<Longrightarrow> last (keep_last n xs) = last xs"
  by (auto simp: keep_last_drop)

lemma last_group:
  assumes "rs \<noteq> []"
  shows "last (by_hour rs) \<noteq> []" "last (last (by_hour rs)) = last rs"
    "hour_start (re_now (hd (last (by_hour rs)))) = hour_start (re_now (last rs))"
proof -
  have ne: "by_hour rs \<noteq> []" using assms by simp
  note g = by_hour_groups [OF last_in_set [OF ne]]
  show "last (by_hour rs) \<noteq> []" using g by simp
  have "rs = concat (butlast (by_hour rs)) @ last (by_hour rs)"
    using concat_append [of "butlast (by_hour rs)" "[last (by_hour rs)]"] append_butlast_last_id [OF ne] by simp
  then have "last rs = last (concat (butlast (by_hour rs)) @ last (by_hour rs))" by (rule arg_cong)
  then show l: "last (last (by_hour rs)) = last rs" using g by simp
  have "last (last (by_hour rs)) \<in> set (last (by_hour rs))" using g by simp
  with g have "hour_start (re_now (last (last (by_hour rs)))) = hour_start (re_now (hd (last (by_hour rs))))" unfolding list_all_iff by blast
  then show "hour_start (re_now (hd (last (by_hour rs)))) = hour_start (re_now (last rs))" by (simp add: l)
qed

lemma bucket_snoc: "g \<noteq> [] \<Longrightarrow> bucket_of (g @ [r]) = (bucket_of g)\<lparr>hr_In := re_in r, hr_Out := re_out r, hr_N := hr_N (bucket_of g) + 1,
    hr_UpN := (if re_up r then hr_UpN (bucket_of g) + 1 else hr_UpN (bucket_of g))\<rparr>"
  by (simp add: bucket_of_def)

definition hours_of :: "reading list \<Rightarrow> hour_bucket list" where
  "hours_of rs = keep_last keepHourly (map bucket_of (by_hour rs))"

lemma add_hour_reference:
  "add_hour (re_in r) (re_out r) (re_up r) (hour_start (re_now r)) (hours_of rs) = hours_of (rs @ [r])"
proof (cases "rs = []")
  case True
  then show ?thesis by (simp add: hours_of_def add_hour_def bucket_of_def)
next
  case False
  have pos: "0 < keepHourly" by (simp add: keepHourly_def)
  let ?b = "map bucket_of (by_hour rs)"
  have ne: "?b \<noteq> []" using False by simp
  have last: "last (hours_of rs) = bucket_of (last (by_hour rs))" using last_keep_last [OF ne pos] False by (simp add: hours_of_def last_map)
  have "0 < length (hours_of rs)" using ne pos by (simp add: hours_of_def)
  then have "hours_of rs \<noteq> []" by simp
  moreover have "hr_T (last (hours_of rs)) = hour_start (re_now (last rs))" using last last_group(3) [OF False] by (simp add: bucket_of_def)
  ultimately show ?thesis
    using False last butlast_keep_last [OF ne pos] last_group(1) [OF False]
    by (auto simp: add_hour_def by_hour_snoc bucket_snoc hours_of_def map_butlast keep_last_append bucket_of_def [of "[r]"])
qed

text \<open>All the readings of a tunnel since it last appeared in the list.\<close>

definition reading_of :: "int \<Rightarrow> pass_look \<Rightarrow> reading" where
  "reading_of now x =
     (case x of (t, out, l) \<Rightarrow>
        \<lparr>re_now = now, re_in = (case lk_snap l of Some s \<Rightarrow> sn_BytesIn s | None \<Rightarrow> 0), re_out = (case lk_snap l of Some s \<Rightarrow> sn_BytesOut s | None \<Rightarrow> 0),
         re_up = (lk_active l \<and> h_Connected (tunnelHealthWith t (establishedPairs out) l))\<rparr>)"

definition pass_readings :: "string \<Rightarrow> int \<Rightarrow> pass_look list \<Rightarrow> reading list" where
  "pass_readings n now xs = map (reading_of now) (filter (\<lambda>(t, _). mt_Name t = n) xs)"

definition kept_readings :: "string \<Rightarrow> (int \<times> pass_look list) list \<Rightarrow> reading list" where
  "kept_readings n passes = foldl (\<lambda>rs (now, xs). if pass_readings n now xs = [] then [] else rs @ pass_readings n now xs) [] passes"

definition history_of :: "reading list \<Rightarrow> history option" where
  "history_of rs = (if rs = [] then None else Some \<lparr>hi_Recent = keep_last keepRecent (map sample_of rs), hi_Hourly = hours_of rs\<rparr>)"

lemma h_Active_with [simp]: "h_Active (tunnelHealthWith t pairs l) = lk_active l"
  by (simp add: tunnelHealthWith_def Let_def split: option.split prod.split)

lemma sample_one_reading: "sample_one now x f =
   (let r = reading_of now x in history_Record (mt_Name (fst x)) (re_in r) (re_out r) (re_up r) (re_now r) f)"
  by (cases x) (simp add: sample_one_def reading_of_def Let_def split: option.split)

lemma history_Record_same:
  assumes "hf_Tunnels f n = history_of rs"
  shows "hf_Tunnels (history_Record n (re_in r) (re_out r) (re_up r) (re_now r) f) n = history_of (rs @ [r])"
proof -
  have "hours_of [] = []" by (simp add: hours_of_def)
  with add_hour_reference [of r "[]"] have first: "add_hour (re_in r) (re_out r) (re_up r) (hour_start (re_now r)) [] = hours_of [r]" by simp
  show ?thesis using assms first add_hour_reference [of r rs] keep_last_append [of keepRecent "map sample_of rs"]
    by (cases "rs = []") (simp_all add: history_Record_def history_of_def sample_of_def)
qed

lemma history_Record_other: "m \<noteq> n \<Longrightarrow> hf_Tunnels (history_Record m i k up now f) n = hf_Tunnels f n"
  by (simp add: history_Record_def Let_def)

lemma samples_history:
  "hf_Tunnels f n = history_of rs \<Longrightarrow> hf_Tunnels (foldl (\<lambda>f x. sample_one now x f) f xs) n = history_of (rs @ pass_readings n now xs)"
proof (induction xs arbitrary: f rs)
  case (Cons x xs)
  have "hf_Tunnels (sample_one now x f) n = history_of (if mt_Name (fst x) = n then rs @ [reading_of now x] else rs)"
    using Cons.prems history_Record_same history_Record_other by (auto simp: sample_one_reading Let_def)
  from Cons.IH [OF this] show ?case by (cases x) (simp add: pass_readings_def)
qed (simp add: pass_readings_def)

lemma samplePass_history:
  assumes "hf_Tunnels (history_Load file) n = history_of rs"
  shows "hf_Tunnels (history_Load (samplePass True now xs file)) n =
    history_of (if pass_readings n now xs = [] then [] else rs @ pass_readings n now xs)"
proof -
  have c: "n \<in> (\<lambda>(t, _). mt_Name t) ` set xs \<longleftrightarrow> pass_readings n now xs \<noteq> []"
    by (force simp: pass_readings_def filter_empty_conv)
  show ?thesis using samples_history [OF assms, of now xs] c
    by (auto simp: samplePass_def history_prune_def history_Load_def [of "Some _"] history_of_def Let_def)
qed

text \<open>C18. The month's history, against the readings themselves. Whatever passes there were, what the file has for a tunnel is the
  newest 288 of the readings since the tunnel appeared and the newest 720 of these readings grouped by hour, each bucket with
  the number of its readings, how many of them saw the tunnel up, and the traffic of the newest; it has nothing for a tunnel
  that was not in the last list.\<close>

theorem history_is_by_hour:
  "hf_Tunnels (history_Load (foldl (\<lambda>file (now, xs). samplePass True now xs file) None passes)) n = history_of (kept_readings n passes)"
proof (induction passes rule: rev_induct)
  case Nil
  show ?case by (simp add: history_Load_def history_of_def kept_readings_def)
next
  case (snoc p passes)
  show ?case using samplePass_history [OF snoc.IH] by (cases p) (simp add: kept_readings_def)
qed

text \<open>So the file stays bounded, and an uptime never exceeds one.\<close>

theorem history_bounded:
  assumes "history_of rs = Some h"
  shows "length (hi_Recent h) \<le> 288 \<and> length (hi_Hourly h) \<le> 720 \<and> list_all (\<lambda>b. 0 \<le> hr_UpN b \<and> hr_UpN b \<le> hr_N b \<and> 1 \<le> hr_N b) (hi_Hourly h)"
proof -
  have "1 \<le> length g" if "g \<in> set (by_hour rs)" for g using by_hour_groups [OF that] by (cases g) auto
  then have "list_all (\<lambda>b. 0 \<le> hr_UpN b \<and> hr_UpN b \<le> hr_N b \<and> 1 \<le> hr_N b) (hours_of rs)"
    using set_keep_last [of keepHourly "map bucket_of (by_hour rs)"] by (fastforce simp: hours_of_def list_all_iff bucket_of_def)
  moreover have "length (hours_of rs) \<le> 720" by (simp add: hours_of_def keepHourly_def)
  ultimately show ?thesis using assms by (auto simp: history_of_def keepRecent_def split: if_splits)
qed

end
