(* ===== verification/TtlCache.thy ===== *)
theory TtlCache
  imports Prelude
begin

text \<open>
  The panel's cache of expensive answers (\<open>internal/manage/ttlcache.go\<close>): an answer is reused for a while, and a caller that
  comes while the same question is being asked waits for that answer. A caller is a goroutine with a number; each stretch
  between taking the mutex and releasing it is one step, as is a call of \<open>read\<close>, which begins when the entry is published and
  ends with its value. An entry is a heap cell, because the goroutine that reads keeps its pointer, and an entry's channel is
  named by the cell's address. Times are nanoseconds.
\<close>

section \<open>The cache\<close>

record 'v ttlEntry =
  te_done :: bool
  te_value :: "'v option"
  te_taken :: int

text \<open>\<open>te_done\<close> says that the channel is there, that is, that a read is in flight. Where a caller stands in \<open>get\<close>:\<close>

datatype 'v caller =
    CIdle
  | CLoop string
  | CWait string nat
  | CRead string nat
  | CClose nat 'v
  | CDone 'v

datatype call = Began string | Ended string

record 'v ttlCache =
  tc_entries :: "string \<Rightarrow> nat option"
  tc_heap :: "'v ttlEntry list"
  tc_closed :: "nat set"
  tc_callers :: "nat \<Rightarrow> 'v caller"
  tc_calls :: "call list"

text \<open>The last field is the history of the calls of \<open>read\<close>, oldest first.\<close>

definition newTTLCache :: "'v ttlCache" where
  "newTTLCache = \<lparr>tc_entries = (\<lambda>_. None), tc_heap = [], tc_closed = {}, tc_callers = (\<lambda>_. CIdle), tc_calls = []\<rparr>"

definition pruneLocked :: "int \<Rightarrow> int \<Rightarrow> 'v ttlCache \<Rightarrow> 'v ttlCache" where
  "pruneLocked prune now c =
     c\<lparr>tc_entries := (\<lambda>k. case tc_entries c k of
         None \<Rightarrow> None
       | Some a \<Rightarrow> if \<not> te_done (tc_heap c ! a) \<and> now - te_taken (tc_heap c ! a) > prune then None else Some a)\<rparr>"

definition forget :: "'v ttlCache \<Rightarrow> 'v ttlCache" where
  "forget c = c\<lparr>tc_entries := (\<lambda>k. case tc_entries c k of None \<Rightarrow> None | Some a \<Rightarrow> if te_done (tc_heap c ! a) then Some a else None)\<rparr>"

definition goto :: "nat \<Rightarrow> 'v caller \<Rightarrow> 'v ttlCache \<Rightarrow> 'v ttlCache" where
  "goto g p c = c\<lparr>tc_callers := (tc_callers c)(g := p)\<rparr>"

text \<open>The first locked stretch of \<open>get\<close>: wait, reuse, or publish a new entry and read. \<open>now\<close> is the instant of both \<open>time.Since\<close>.
  (An entry that is not in flight has a value: see \<open>entries_ok\<close> below.)\<close>

definition ttl_publish :: "int \<Rightarrow> int \<Rightarrow> nat \<Rightarrow> string \<Rightarrow> 'v ttlCache \<Rightarrow> 'v ttlCache" where
  "ttl_publish prune now g key c =
     (let a = length (tc_heap c) in
      goto g (CRead key a) (pruneLocked prune now
        (c\<lparr>tc_heap := tc_heap c @ [\<lparr>te_done = True, te_value = None, te_taken = 0\<rparr>],
           tc_entries := (tc_entries c)(key := Some a), tc_calls := tc_calls c @ [Began key]\<rparr>)))"

definition ttl_lookup :: "int \<Rightarrow> int \<Rightarrow> int \<Rightarrow> nat \<Rightarrow> string \<Rightarrow> 'v ttlCache \<Rightarrow> 'v ttlCache" where
  "ttl_lookup ttl prune now g key c =
     (case tc_entries c key of
        None \<Rightarrow> ttl_publish prune now g key c
      | Some a \<Rightarrow>
          (let e = tc_heap c ! a in
           if te_done e then goto g (CWait key a) c
           else case te_value e of
             Some v \<Rightarrow> if now - te_taken e < ttl then goto g (CDone v) c else ttl_publish prune now g key c
           | None \<Rightarrow> ttl_publish prune now g key c))"

text \<open>The second: the answer is stored through the caller's own pointer. The channel is closed after the mutex is released.\<close>

definition ttl_finish :: "int \<Rightarrow> nat \<Rightarrow> string \<Rightarrow> nat \<Rightarrow> 'v \<Rightarrow> 'v ttlCache \<Rightarrow> 'v ttlCache" where
  "ttl_finish now g key a v c =
     goto g (CClose a v)
       (c\<lparr>tc_heap := (tc_heap c)[a := \<lparr>te_done = False, te_value = Some v, te_taken = now\<rparr>], tc_calls := tc_calls c @ [Ended key]\<rparr>)"

datatype 'v ttl_event = TE_get nat string | TE_lookup nat int | TE_wake nat | TE_finish nat 'v int | TE_close nat | TE_forget

text \<open>A step of a goroutine; nothing when it is not there, or when the channel it waits on is still open.\<close>

fun ttl_step :: "int \<Rightarrow> int \<Rightarrow> 'v ttl_event \<Rightarrow> 'v ttlCache \<Rightarrow> 'v ttlCache option" where
  "ttl_step ttl prune (TE_get g key) c =
     (case tc_callers c g of CIdle \<Rightarrow> Some (goto g (CLoop key) c) | CDone v \<Rightarrow> Some (goto g (CLoop key) c) | _ \<Rightarrow> None)"
| "ttl_step ttl prune (TE_lookup g now) c = (case tc_callers c g of CLoop key \<Rightarrow> Some (ttl_lookup ttl prune now g key c) | _ \<Rightarrow> None)"
| "ttl_step ttl prune (TE_wake g) c =
     (case tc_callers c g of CWait key a \<Rightarrow> if a \<in> tc_closed c then Some (goto g (CLoop key) c) else None | _ \<Rightarrow> None)"
| "ttl_step ttl prune (TE_finish g v now) c = (case tc_callers c g of CRead key a \<Rightarrow> Some (ttl_finish now g key a v c) | _ \<Rightarrow> None)"
| "ttl_step ttl prune (TE_close g) c =
     (case tc_callers c g of CClose a v \<Rightarrow> Some (goto g (CDone v) (c\<lparr>tc_closed := insert a (tc_closed c)\<rparr>)) | _ \<Rightarrow> None)"
| "ttl_step ttl prune TE_forget c = Some (forget c)"

inductive ttl_reachable :: "int \<Rightarrow> int \<Rightarrow> 'v ttlCache \<Rightarrow> bool" for ttl prune where
  ttl_init: "ttl_reachable ttl prune newTTLCache"
| ttl_next: "ttl_reachable ttl prune c \<Longrightarrow> ttl_step ttl prune e c = Some c' \<Longrightarrow> ttl_reachable ttl prune c'"

section \<open>One read at a time\<close>

text \<open>A caller that reads holds the current entry of its key, in flight, and nobody else holds it; an entry in flight has
  its reader; whoever waits, waits for a channel that is closed or that somebody is about to close.\<close>

definition readers_ok :: "'v ttlCache \<Rightarrow> bool" where
  "readers_ok c \<longleftrightarrow>
     (\<forall>g k a. tc_callers c g = CRead k a \<longrightarrow> a < length (tc_heap c) \<and> te_done (tc_heap c ! a) \<and> tc_entries c k = Some a) \<and>
     (\<forall>g h k j a. tc_callers c g = CRead k a \<longrightarrow> tc_callers c h = CRead j a \<longrightarrow> g = h)"

definition entries_ok :: "'v ttlCache \<Rightarrow> bool" where
  "entries_ok c \<longleftrightarrow>
     (\<forall>k a. tc_entries c k = Some a \<longrightarrow> a < length (tc_heap c) \<and>
        (if te_done (tc_heap c ! a) then \<exists>g. tc_callers c g = CRead k a else te_value (tc_heap c ! a) \<noteq> None))"

definition waiters_ok :: "'v ttlCache \<Rightarrow> bool" where
  "waiters_ok c \<longleftrightarrow>
     (\<forall>g k a. tc_callers c g = CWait k a \<longrightarrow>
        a \<in> tc_closed c \<or> (\<exists>h j. tc_callers c h = CRead j a) \<or> (\<exists>h v. tc_callers c h = CClose a v))"

text \<open>The calls of \<open>read\<close> for one key: never one begun before the last has ended.\<close>

fun overlap_free :: "string \<Rightarrow> bool \<Rightarrow> call list \<Rightarrow> bool" where
  "overlap_free k reading [] \<longleftrightarrow> True"
| "overlap_free k reading (Began j # cs) \<longleftrightarrow> (if j = k then \<not> reading \<and> overlap_free k True cs else overlap_free k reading cs)"
| "overlap_free k reading (Ended j # cs) \<longleftrightarrow> (if j = k then reading \<and> overlap_free k False cs else overlap_free k reading cs)"

fun reading_after :: "string \<Rightarrow> bool \<Rightarrow> call list \<Rightarrow> bool" where
  "reading_after k reading [] = reading"
| "reading_after k reading (Began j # cs) = reading_after k (if j = k then True else reading) cs"
| "reading_after k reading (Ended j # cs) = reading_after k (if j = k then False else reading) cs"

lemma overlap_free_append: "overlap_free k r (a @ b) \<longleftrightarrow> overlap_free k r a \<and> overlap_free k (reading_after k r a) b"
  by (induction k r a rule: overlap_free.induct) auto

lemma reading_after_append: "reading_after k r (a @ b) = reading_after k (reading_after k r a) b"
  by (induction k r a rule: reading_after.induct) auto

definition calls_ok :: "'v ttlCache \<Rightarrow> bool" where
  "calls_ok c \<longleftrightarrow> (\<forall>k. overlap_free k False (tc_calls c) \<and> (reading_after k False (tc_calls c) \<longleftrightarrow> (\<exists>g a. tc_callers c g = CRead k a)))"

definition ttl_inv :: "'v ttlCache \<Rightarrow> bool" where
  "ttl_inv c \<longleftrightarrow> readers_ok c \<and> entries_ok c \<and> waiters_ok c \<and> calls_ok c"

definition quiet :: "'v caller \<Rightarrow> bool" where
  "quiet p \<longleftrightarrow> (case p of CRead _ _ \<Rightarrow> False | CClose _ _ \<Rightarrow> False | _ \<Rightarrow> True)"

lemma quiet_simps [simp]: "quiet CIdle" "quiet (CLoop k)" "quiet (CWait k a)" "\<not> quiet (CRead k a)" "\<not> quiet (CClose a v)" "quiet (CDone v)"
  by (simp_all add: quiet_def)

lemma goto_simps [simp]:
  "tc_callers (goto g p c) = (tc_callers c)(g := p)" "tc_entries (goto g p c) = tc_entries c" "tc_heap (goto g p c) = tc_heap c"
  "tc_closed (goto g p c) = tc_closed c" "tc_calls (goto g p c) = tc_calls c"
  by (simp_all add: goto_def)

text \<open>A caller that neither reads nor is about to close moves freely, but waits only for somebody.\<close>

lemma ttl_inv_goto:
  assumes "ttl_inv c" "quiet (tc_callers c g)" "quiet p"
    "\<And>k a. p = CWait k a \<Longrightarrow> \<exists>h j. tc_callers c h = CRead j a"
  shows "ttl_inv (goto g p c)"
proof -
  have same: "tc_callers (goto g p c) h = CRead k a \<longleftrightarrow> tc_callers c h = CRead k a" "tc_callers (goto g p c) h = CClose a v \<longleftrightarrow> tc_callers c h = CClose a v" for h k a v
    using assms(2,3) by auto
  have "waiters_ok (goto g p c)"
    unfolding waiters_ok_def same using assms(1,4) by (auto simp: ttl_inv_def waiters_ok_def)
  moreover have "readers_ok (goto g p c)" unfolding readers_ok_def same using assms(1) by (auto simp: ttl_inv_def readers_ok_def)
  moreover have "entries_ok (goto g p c)" unfolding entries_ok_def same using assms(1) by (auto simp: ttl_inv_def entries_ok_def)
  moreover have "calls_ok (goto g p c)" unfolding calls_ok_def same using assms(1) by (auto simp: ttl_inv_def calls_ok_def)
  ultimately show ?thesis by (simp add: ttl_inv_def)
qed

text \<open>Entries that are not in flight may be dropped.\<close>

lemma ttl_inv_drop:
  assumes "ttl_inv c" "\<And>k. m k = tc_entries c k \<or> (m k = None \<and> (\<forall>a. tc_entries c k = Some a \<longrightarrow> \<not> te_done (tc_heap c ! a)))"
  shows "ttl_inv (c\<lparr>tc_entries := m\<rparr>)"
proof -
  have sub: "m k = Some a \<Longrightarrow> tc_entries c k = Some a" for k a using assms(2) [of k] by auto
  have "entries_ok (c\<lparr>tc_entries := m\<rparr>)" using assms(1) sub unfolding ttl_inv_def entries_ok_def by fastforce
  moreover have "m k = Some a" if "tc_callers c g = CRead k a" for g k a
    using assms(1) that assms(2) [of k] unfolding ttl_inv_def readers_ok_def by metis
  then have "readers_ok (c\<lparr>tc_entries := m\<rparr>)" using assms(1) by (auto simp: ttl_inv_def readers_ok_def)
  moreover have "waiters_ok (c\<lparr>tc_entries := m\<rparr>)" "calls_ok (c\<lparr>tc_entries := m\<rparr>)" using assms(1) by (simp_all add: ttl_inv_def waiters_ok_def calls_ok_def)
  ultimately show ?thesis by (simp add: ttl_inv_def)
qed

lemma ttl_inv_prune: "ttl_inv c \<Longrightarrow> ttl_inv (pruneLocked prune now c)"
  unfolding pruneLocked_def by (rule ttl_inv_drop) (auto split: option.split)

lemma ttl_inv_forget: "ttl_inv c \<Longrightarrow> ttl_inv (forget c)"
  unfolding forget_def by (rule ttl_inv_drop) (auto split: option.split)

lemma goto_prune: "goto g p (pruneLocked prune now c) = pruneLocked prune now (goto g p c)"
  by (cases c) (simp add: goto_def pruneLocked_def cong: option.case_cong)

text \<open>A new read: nobody reads that key, because its entry would be in flight.\<close>

lemma no_reader:
  assumes "ttl_inv c" "\<And>a. tc_entries c key = Some a \<Longrightarrow> \<not> te_done (tc_heap c ! a)"
  shows "tc_callers c h \<noteq> CRead key a"
  using assms unfolding ttl_inv_def readers_ok_def by blast

lemma ttl_inv_publish:
  assumes inv: "ttl_inv c" and g: "quiet (tc_callers c g)" and free: "\<And>a. tc_entries c key = Some a \<Longrightarrow> \<not> te_done (tc_heap c ! a)"
  shows "ttl_inv (ttl_publish prune now g key c)"
proof -
  let ?a = "length (tc_heap c)"
  let ?c = "goto g (CRead key ?a) (c\<lparr>tc_heap := tc_heap c @ [\<lparr>te_done = True, te_value = None, te_taken = 0\<rparr>],
           tc_entries := (tc_entries c)(key := Some ?a), tc_calls := tc_calls c @ [Began key]\<rparr>)"
  have none: "tc_callers c h \<noteq> CRead key a" for h a using no_reader [OF inv free] .
  have old: "a < ?a \<and> te_done (tc_heap c ! a) \<and> tc_entries c k = Some a" if "tc_callers c h = CRead k a" for h k a
    using inv that unfolding ttl_inv_def readers_ok_def by blast
  have reads: "tc_callers ?c h = CRead k a \<longleftrightarrow> (if h = g then k = key \<and> a = ?a else tc_callers c h = CRead k a)" for h k a by auto
  have held: "tc_callers c h = CRead k a \<Longrightarrow> h \<noteq> g" for h k a using g by auto
  have closes: "tc_callers ?c h = CClose a v \<longleftrightarrow> tc_callers c h = CClose a v" for h a v using g by auto
  have "readers_ok ?c" unfolding readers_ok_def reads
    using old none inv unfolding ttl_inv_def readers_ok_def
    by (auto simp: nth_append split: if_splits dest: old)
  moreover have "entries_ok ?c" unfolding entries_ok_def reads
  proof (intro allI impI)
    fix k a assume e: "tc_entries ?c k = Some a"
    show "a < length (tc_heap ?c) \<and> (if te_done (tc_heap ?c ! a) then \<exists>h. if h = g then k = key \<and> a = ?a else tc_callers c h = CRead k a
        else te_value (tc_heap ?c ! a) \<noteq> None)"
    proof (cases "k = key")
      case True
      then show ?thesis using e by (auto simp: nth_append)
    next
      case False
      then have "a < ?a \<and> (if te_done (tc_heap c ! a) then \<exists>h. tc_callers c h = CRead k a else te_value (tc_heap c ! a) \<noteq> None)"
        using inv e unfolding ttl_inv_def entries_ok_def by simp
      then show ?thesis using held by (auto simp: nth_append split: if_splits)
    qed
  qed
  moreover have "waiters_ok ?c" unfolding waiters_ok_def closes
    using inv held unfolding ttl_inv_def waiters_ok_def by (auto split: if_splits) (metis fun_upd_other)
  moreover have "calls_ok ?c" unfolding calls_ok_def reads
  proof
    fix k
    have "overlap_free k False (tc_calls c)" "reading_after k False (tc_calls c) \<longleftrightarrow> (\<exists>h a. tc_callers c h = CRead k a)"
      using inv by (auto simp: ttl_inv_def calls_ok_def)
    then show "overlap_free k False (tc_calls ?c) \<and>
        (reading_after k False (tc_calls ?c) \<longleftrightarrow> (\<exists>h a. if h = g then k = key \<and> a = ?a else tc_callers c h = CRead k a))"
      using none held by (cases "k = key") (auto simp: overlap_free_append reading_after_append intro: exI [of _ g], metis)
  qed
  ultimately have "ttl_inv ?c" by (simp add: ttl_inv_def)
  then show ?thesis by (simp add: ttl_publish_def goto_prune ttl_inv_prune Let_def)
qed

text \<open>The end of a read: the one who read leaves the key with an answer, and will close the channel.\<close>

lemma ttl_inv_finish:
  assumes inv: "ttl_inv c" and g: "tc_callers c g = CRead key a"
  shows "ttl_inv (ttl_finish now g key a v c)"
proof -
  let ?c = "ttl_finish now g key a v c"
  have a: "a < length (tc_heap c)" "tc_entries c key = Some a" using inv g unfolding ttl_inv_def readers_ok_def by blast+
  have own: "tc_callers c h = CRead k a \<Longrightarrow> h = g" for h k using inv g unfolding ttl_inv_def readers_ok_def by blast
  have reads: "tc_callers ?c h = CRead k b \<longleftrightarrow> h \<noteq> g \<and> tc_callers c h = CRead k b" for h k b by (auto simp: ttl_finish_def)
  have key: "tc_callers c h = CRead key b \<Longrightarrow> h = g" for h b
    using inv own a(2) unfolding ttl_inv_def readers_ok_def by (metis option.inject)
  have heap: "tc_heap ?c = (tc_heap c)[a := \<lparr>te_done = False, te_value = Some v, te_taken = now\<rparr>]" "tc_entries ?c = tc_entries c"
    by (simp_all add: ttl_finish_def)
  have "readers_ok ?c" unfolding readers_ok_def reads heap
    using inv own unfolding ttl_inv_def readers_ok_def by (metis length_list_update nth_list_update_neq)
  moreover have "entries_ok ?c" unfolding entries_ok_def reads heap
  proof (intro allI impI)
    fix k b assume e: "tc_entries c k = Some b"
    then have o: "b < length (tc_heap c) \<and> (if te_done (tc_heap c ! b) then \<exists>h. tc_callers c h = CRead k b else te_value (tc_heap c ! b) \<noteq> None)"
      using inv unfolding ttl_inv_def entries_ok_def by blast
    show "b < length ((tc_heap c)[a := \<lparr>te_done = False, te_value = Some v, te_taken = now\<rparr>]) \<and>
      (if te_done ((tc_heap c)[a := \<lparr>te_done = False, te_value = Some v, te_taken = now\<rparr>] ! b) then \<exists>h. h \<noteq> g \<and> tc_callers c h = CRead k b
       else te_value ((tc_heap c)[a := \<lparr>te_done = False, te_value = Some v, te_taken = now\<rparr>] ! b) \<noteq> None)"
    proof (cases "b = a")
      case False
      moreover have "h \<noteq> g" if "tc_callers c h = CRead k b" for h using that g False by auto
      ultimately show ?thesis using o by (auto split: if_splits)
    qed (use a in simp)
  qed
  moreover have "waiters_ok ?c"
  proof -
    have w: "tc_callers c h = CWait k b \<Longrightarrow> b \<in> tc_closed c \<or> (\<exists>h j. tc_callers c h = CRead j b) \<or> (\<exists>h v. tc_callers c h = CClose b v)" for h k b
      using inv unfolding ttl_inv_def waiters_ok_def by blast
    have "b \<in> tc_closed c \<or> (\<exists>h j. tc_callers ?c h = CRead j b) \<or> (\<exists>h v. tc_callers ?c h = CClose b v)" if "tc_callers c h = CWait k b" for h k b
    proof (cases "b = a")
      case True
      then have "tc_callers ?c g = CClose b v" by (simp add: ttl_finish_def)
      then show ?thesis by blast
    next
      case False
      have "tc_callers c h = CRead j b \<Longrightarrow> tc_callers ?c h = CRead j b" "tc_callers c h = CClose b u \<Longrightarrow> tc_callers ?c h = CClose b u" for h j u
        using False g by (auto simp: ttl_finish_def)
      then show ?thesis using w [OF that] by blast
    qed
    then show ?thesis unfolding waiters_ok_def by (auto simp: ttl_finish_def split: if_splits)
  qed
  moreover have "calls_ok ?c" unfolding calls_ok_def reads
  proof
    fix k
    have o: "overlap_free k False (tc_calls c)" "reading_after k False (tc_calls c) \<longleftrightarrow> (\<exists>h a. tc_callers c h = CRead k a)"
      using inv by (auto simp: ttl_inv_def calls_ok_def)
    show "overlap_free k False (tc_calls ?c) \<and> (reading_after k False (tc_calls ?c) \<longleftrightarrow> (\<exists>h a. h \<noteq> g \<and> tc_callers c h = CRead k a))"
    proof (cases "k = key")
      case True
      have "reading_after key False (tc_calls c)" using o g True by blast
      moreover have "\<not> (\<exists>h a. h \<noteq> g \<and> tc_callers c h = CRead key a)" using key by blast
      ultimately show ?thesis using o(1) True by (simp add: ttl_finish_def overlap_free_append reading_after_append)
    next
      case False
      then have "(\<exists>h a. h \<noteq> g \<and> tc_callers c h = CRead k a) \<longleftrightarrow> (\<exists>h a. tc_callers c h = CRead k a)" using g by (metis caller.inject(3))
      then show ?thesis using o False by (simp add: ttl_finish_def overlap_free_append reading_after_append)
    qed
  qed
  ultimately show ?thesis by (simp add: ttl_inv_def)
qed

lemma ttl_inv_close:
  assumes inv: "ttl_inv c" and g: "tc_callers c g = CClose a v"
  shows "ttl_inv (goto g (CDone v) (c\<lparr>tc_closed := insert a (tc_closed c)\<rparr>))"
proof -
  let ?c = "goto g (CDone v) (c\<lparr>tc_closed := insert a (tc_closed c)\<rparr>)"
  have reads: "tc_callers ?c h = CRead k b \<longleftrightarrow> tc_callers c h = CRead k b" for h k b using g by auto
  have "waiters_ok ?c" unfolding waiters_ok_def reads
    using inv g unfolding ttl_inv_def waiters_ok_def by (auto split: if_splits) (metis caller.inject(4))
  moreover have "readers_ok ?c" unfolding readers_ok_def reads using inv by (auto simp: ttl_inv_def readers_ok_def)
  moreover have "entries_ok ?c" unfolding entries_ok_def reads using inv by (auto simp: ttl_inv_def entries_ok_def)
  moreover have "calls_ok ?c" unfolding calls_ok_def reads using inv by (auto simp: ttl_inv_def calls_ok_def)
  ultimately show ?thesis by (simp add: ttl_inv_def)
qed

lemma ttl_inv_lookup:
  assumes inv: "ttl_inv c" and g: "tc_callers c g = CLoop key"
  shows "ttl_inv (ttl_lookup ttl prune now g key c)"
proof (cases "\<exists>a. tc_entries c key = Some a \<and> te_done (tc_heap c ! a)")
  case True
  then obtain a where a: "tc_entries c key = Some a" "te_done (tc_heap c ! a)" by blast
  then have "\<exists>h. tc_callers c h = CRead key a" using inv unfolding ttl_inv_def entries_ok_def by metis
  then have "ttl_inv (goto g (CWait key a) c)" using inv g by (intro ttl_inv_goto) auto
  then show ?thesis using a by (simp add: ttl_lookup_def)
next
  case False
  then have "ttl_inv (ttl_publish prune now g key c)" using inv g by (intro ttl_inv_publish) auto
  moreover have "ttl_inv (goto g (CDone v) c)" for v using inv g by (intro ttl_inv_goto) auto
  ultimately show ?thesis using False by (auto simp: ttl_lookup_def Let_def split: option.split)
qed

lemma ttl_inv_step:
  assumes "ttl_inv c" "ttl_step ttl prune e c = Some c'"
  shows "ttl_inv c'"
proof (cases e)
  case (TE_get g key)
  then have "c' = goto g (CLoop key) c" "quiet (tc_callers c g)" using assms(2) by (auto split: caller.splits)
  then show ?thesis using ttl_inv_goto [OF assms(1), of g "CLoop key"] by simp
next
  case (TE_wake g)
  then obtain key where "c' = goto g (CLoop key) c" "quiet (tc_callers c g)" using assms(2) by (auto split: caller.splits if_splits)
  then show ?thesis using ttl_inv_goto [OF assms(1), of g "CLoop key"] by simp
qed (use assms ttl_inv_lookup ttl_inv_finish ttl_inv_close ttl_inv_forget in \<open>auto split: caller.splits\<close>)

lemma ttl_inv_reachable: "ttl_reachable ttl prune c \<Longrightarrow> ttl_inv c"
proof (induction rule: ttl_reachable.induct)
  case ttl_init
  show ?case by (simp add: ttl_inv_def readers_ok_def entries_ok_def waiters_ok_def calls_ok_def newTTLCache_def)
qed (rule ttl_inv_step)

section \<open>What the cache promises\<close>

text \<open>A question is never asked twice at once, however many callers there are and whatever is forgotten or pruned meanwhile;
  and a caller that waits is always waiting for a channel that is closed, or for a caller that is reading or has just read.\<close>

theorem one_read_at_a_time:
  assumes "ttl_reachable ttl prune c"
  shows "overlap_free key False (tc_calls c) \<and>
    (case tc_callers c g of
       CWait k a \<Rightarrow> a \<in> tc_closed c \<or> (\<exists>h. (\<exists>j. tc_callers c h = CRead j a) \<or> (\<exists>v. tc_callers c h = CClose a v))
     | _ \<Rightarrow> True)"
proof -
  have inv: "waiters_ok c" "calls_ok c" using ttl_inv_reachable [OF assms] by (simp_all add: ttl_inv_def)
  show ?thesis
  proof (cases "tc_callers c g")
    case (CWait k a)
    then show ?thesis using inv unfolding waiters_ok_def calls_ok_def by simp blast
  qed (use inv in \<open>simp_all add: calls_ok_def\<close>)
qed

text \<open>Two callers with one question: the second waits for the first.\<close>

definition two_callers :: "nat ttlCache" where
  "two_callers = ttl_lookup 5 9 1 1 ''k'' (goto 1 (CLoop ''k'') (ttl_lookup 5 9 0 0 ''k'' (goto 0 (CLoop ''k'') newTTLCache)))"

lemma two_callers_reachable: "ttl_reachable 5 9 two_callers"
proof -
  let ?a = "goto 0 (CLoop ''k'') newTTLCache :: nat ttlCache"
  let ?b = "ttl_lookup 5 9 0 0 ''k'' ?a"
  let ?c = "goto 1 (CLoop ''k'') ?b"
  have "ttl_reachable 5 9 ?a" by (rule ttl_next [OF ttl_init, of _ _ "TE_get 0 ''k''"]) (simp add: newTTLCache_def)
  then have "ttl_reachable 5 9 ?b" by (rule ttl_next [of _ _ _ "TE_lookup 0 0"]) simp
  then have "ttl_reachable 5 9 ?c"
    by (rule ttl_next [of _ _ _ "TE_get 1 ''k''"]) (simp add: newTTLCache_def ttl_lookup_def ttl_publish_def pruneLocked_def goto_def)
  then show ?thesis unfolding two_callers_def by (rule ttl_next [of _ _ _ "TE_lookup 1 1"]) simp
qed

theorem one_read_at_a_time_witness:
  "overlap_free ''k'' False (tc_calls two_callers) \<and> tc_callers two_callers 1 = CWait ''k'' 0 \<and> tc_calls two_callers = [Began ''k'']"
  using one_read_at_a_time [OF two_callers_reachable, of "''k''" 1]
  by (simp add: two_callers_def newTTLCache_def ttl_lookup_def ttl_publish_def pruneLocked_def goto_def Let_def)

text \<open>An answer that is reused is no older than the time to live, and is what the last read of that entry returned.\<close>

theorem reused_answers_are_fresh:
  assumes "ttl_reachable ttl prune c" "tc_callers c g = CLoop key" "tc_callers (ttl_lookup ttl prune now g key c) g = CDone v"
  shows "\<exists>a e. tc_entries c key = Some a \<and> tc_heap c ! a = e \<and> \<not> te_done e \<and> te_value e = Some v \<and> now - te_taken e < ttl"
  using assms(3) by (auto simp: ttl_lookup_def ttl_publish_def goto_prune pruneLocked_def goto_def Let_def split: option.splits if_splits)

end
