(* ===== verification/MuxKinds.thy ===== *)
theory MuxKinds
  imports ReverseMux GoNet
begin

text \<open>
  The reverse servers over KCP and over multiplexed websockets (\<open>internal/server/transport/kcp.go\<close>, \<open>wsmux.go\<close>, with
  \<open>shared.go\<close> and \<open>network/wssbind.go\<close>). From the accepted user to the end of its stream their code is that of \<open>tcpmux.go\<close>,
  line by line (\<open>acceptLocalConn\<close>, \<open>handleLoop\<close>, \<open>handleSession\<close>, \<open>handleSessionError\<close>, and for KCP the control loop), so the state
  and these operations are those of \<open>ReverseMux\<close>; its nonce and negotiated version are not used. How connections are let in,
  how a generation begins and what a restart resets are their own. The locale \<open>mux_kind\<close> is what the shared code needs of
  that: what it keeps of the books and whom it lets in.
\<close>

section \<open>Kinds\<close>

datatype kind_act = KA_close nat | KA_send nat string byte | KA_ports nat | KA_restart | KA_decoy

text \<open>The events of the shared part.\<close>

fun shared :: "mux_event \<Rightarrow> bool" where
  "shared (X_local _ _ _ _) = True"
| "shared (X_flow _ _ _ _) = True"
| "shared (X_loop _) = True"
| "shared (X_loop_exit _) = True"
| "shared (X_session _ _ _) = True"
| "shared (X_transfer_end _) = True"
| "shared X_restart_begin = True"
| "shared _ = False"

datatype 'e kind_event = K_own 'e | K_shared mux_event

definition kind_step :: "('e \<Rightarrow> muxServer \<Rightarrow> muxServer) \<Rightarrow> muxConfig \<Rightarrow> 'e kind_event \<Rightarrow> muxServer \<Rightarrow> muxServer" where
  "kind_step own cfg e v =
     (case e of K_own x \<Rightarrow> own x v | K_shared x \<Rightarrow> if shared x then fst (mux_step cfg (\<lambda>_. None) x v) else v)"

definition kind_run :: "('e \<Rightarrow> muxServer \<Rightarrow> muxServer) \<Rightarrow> muxConfig \<Rightarrow> 'e kind_event list \<Rightarrow> muxServer \<Rightarrow> muxServer" where
  "kind_run own cfg evs v = foldl (\<lambda>v e. kind_step own cfg e v) v evs"

lemma kind_run_simps [simp]: "kind_run own cfg [] v = v" "kind_run own cfg (e # es) v = kind_run own cfg es (kind_step own cfg e v)"
  by (simp_all add: kind_run_def)

section \<open>KCP\<close>

definition NewKcpServer :: "int \<Rightarrow> int \<Rightarrow> muxServer" where
  "NewKcpServer maxConnections bandwidthMbps = NewTcpMuxServer maxConnections bandwidthMbps"

datatype kcp_event =
    KC_open nat nat
  | KC_announced nat "(string \<times> byte) option" bool bool bool
  | KC_cancelled nat
  | KC_handler nat handler_event bool
  | KC_restart_finish bool

text \<open>\<open>acceptSession\<close> from its announcement on (nothing, when it did not come in time). The handshake channel has no buffer: a
  claim is handed over only when \<open>channelHandshake\<close> stands at its select (\<open>receiving\<close>), and is taken in the same step.\<close>

definition kcp_acceptSession ::
    "muxConfig \<Rightarrow> nat \<Rightarrow> nat \<Rightarrow> (string \<times> byte) option \<Rightarrow> bool \<Rightarrow> bool \<Rightarrow> bool \<Rightarrow> muxServer \<Rightarrow> muxServer \<times> kind_act list" where
  "kcp_acceptSession cfg i c ann wrote built receiving v =
     (case ann of
        None \<Rightarrow> (v, [KA_close c])
      | Some (token, sig) \<Rightarrow>
          if token \<noteq> mc_token cfg then (v, [KA_send c RefusedBadToken SG_Refused, KA_close c])
          else if sig = SG_Chan then
            (if \<not> wrote then (v, [KA_close c])
             else if x_control v \<noteq> None then (v, [KA_send c (mc_token cfg) SG_Chan, KA_close c, KA_restart])
             else if receiving \<and> q_phase (x_gens v ! i) = Waiting
             then (mux_start_rest cfg i (v\<lparr>x_control := Some c\<rparr>), [KA_send c (mc_token cfg) SG_Chan, KA_ports i])
             else (v, [KA_send c (mc_token cfg) SG_Chan, KA_close c]))
          else if sig = SG_TCP then
            (if x_control v = None then (v, [KA_close c])
             else if \<not> built then (v, [KA_close c])
             else if length (q_tunnel (x_gens v ! i)) < mc_channelSize cfg
             then (upd_mux i (\<lambda>g. g\<lparr>q_tunnel := q_tunnel g @ [(c, ResolveStaticMuxVersion (mc_muxVersion cfg))]\<rparr>) v, [])
             else (v, [KA_close c]))
          else (v, [KA_close c]))"

definition kcp_Restart_finish :: "bool \<Rightarrow> muxServer \<Rightarrow> muxServer" where
  "kcp_Restart_finish parent_done v =
     (if \<not> x_restarting v then v
      else if parent_done then v\<lparr>x_restarting := False\<rparr>
      else v\<lparr>x_gens := x_gens v @ [new_mux_gen], x_control := None, x_streamCounter := 0, x_sessionCounter := 0, x_restarting := False\<rparr>)"

fun kcp_step :: "muxConfig \<Rightarrow> kcp_event \<Rightarrow> muxServer \<Rightarrow> muxServer \<times> kind_act list" where
  "kcp_step cfg (KC_open i c) v = (if is_gen i v then v\<lparr>x_reading := x_reading v @ [(i, c)]\<rparr> else v, [])"
| "kcp_step cfg (KC_announced k ann wrote built receiving) v =
     (if k < length (x_reading v) \<and> is_gen (fst (x_reading v ! k)) v
      then kcp_acceptSession cfg (fst (x_reading v ! k)) (snd (x_reading v ! k)) ann wrote built receiving (v\<lparr>x_reading := remove_at k (x_reading v)\<rparr>)
      else (v, []))"
| "kcp_step cfg (KC_cancelled i) v =
     (if is_gen i v \<and> q_done (x_gens v ! i) \<and> q_phase (x_gens v ! i) = Waiting then mux_start_rest cfg i v else v, [])"
| "kcp_step cfg (KC_handler i ev wrote) v = (if is_gen i v then fst (mux_channelHandler i ev wrote v) else v, [])"
| "kcp_step cfg (KC_restart_finish parent_done) v = (kcp_Restart_finish parent_done v, [])"

section \<open>Multiplexed websockets\<close>

text \<open>A request as the HTTP server hands it over; the keying material is what the TLS session exports, or nothing.\<close>

record http_req =
  rq_upgrade :: bool
  rq_path :: string
  rq_auth :: string
  rq_tls :: bool
  rq_ekm :: "bytes option"

definition WSSBindingProof :: "(string \<Rightarrow> bytes \<Rightarrow> bytes) \<Rightarrow> bytes \<Rightarrow> string \<Rightarrow> string" where
  "WSSBindingProof mac ekm token = hex_string (mac token ekm)"

definition WSSServerProof :: "(string \<Rightarrow> bytes \<Rightarrow> bytes) \<Rightarrow> bytes option \<Rightarrow> string \<Rightarrow> string option" where
  "WSSServerProof mac ekm token = map_option (\<lambda>e. WSSBindingProof mac e token) ekm"

definition authorizeWSRequest :: "(string \<Rightarrow> bytes \<Rightarrow> bytes) \<Rightarrow> http_req \<Rightarrow> string \<Rightarrow> bool \<Rightarrow> bool" where
  "authorizeWSRequest mac r token simpleAuth =
     (let got = (if prefix ''Bearer '' (rq_auth r) then drop 7 (rq_auth r) else rq_auth r) in
      if \<not> rq_tls r \<or> simpleAuth then got = token
      else case WSSServerProof mac (rq_ekm r) token of None \<Rightarrow> False | Some want \<Rightarrow> got = want)"

definition isTunnelRequest :: "(string \<Rightarrow> bytes \<Rightarrow> bytes) \<Rightarrow> http_req \<Rightarrow> string \<Rightarrow> bool \<Rightarrow> bool" where
  "isTunnelRequest mac r token simpleAuth =
     (if \<not> rq_upgrade r then False
      else if rq_path r \<noteq> ''/channel'' \<and> \<not> prefix ''/tunnel'' (rq_path r) then False
      else authorizeWSRequest mac r token simpleAuth)"

text \<open>The handler of a request runs in a goroutine of its own: it looks whether there is a control channel, and sets it in a
  later step (\<open>x_claims\<close> holds those in between).\<close>

definition wsmux_request ::
    "(string \<Rightarrow> bytes \<Rightarrow> bytes) \<Rightarrow> muxConfig \<Rightarrow> bool \<Rightarrow> nat \<Rightarrow> nat \<Rightarrow> http_req \<Rightarrow> bool \<Rightarrow> bool \<Rightarrow> muxServer \<Rightarrow> muxServer \<times> kind_act list" where
  "wsmux_request mac cfg simpleAuth i c r upgraded built v =
     (if \<not> isTunnelRequest mac r (mc_token cfg) simpleAuth then (v, [KA_decoy])
      else if \<not> upgraded then (v, [])
      else if rq_path r = ''/channel'' then
        (case x_control v of
           Some p \<Rightarrow> (v, [KA_close p, KA_close c, KA_restart])
         | None \<Rightarrow> (v\<lparr>x_claims := x_claims v @ [(i, \<lparr>mk_conn = c, mk_nonce = [], mk_version = 0\<rparr>)]\<rparr>, []))
      else if prefix ''/tunnel'' (rq_path r) then
        (if \<not> built then (v, [KA_close c])
         else if length (q_tunnel (x_gens v ! i)) < mc_channelSize cfg
         then (upd_mux i (\<lambda>g. g\<lparr>q_tunnel := q_tunnel g @ [(c, ResolveStaticMuxVersion (mc_muxVersion cfg))]\<rparr>) v, [])
         else (v, [KA_close c]))
      else (v, []))"

definition wsmux_set :: "muxConfig \<Rightarrow> nat \<Rightarrow> nat \<Rightarrow> muxServer \<Rightarrow> muxServer \<times> kind_act list" where
  "wsmux_set cfg i c v =
     (upd_mux i (\<lambda>g. g\<lparr>q_phase := Serving, q_handler := True, q_loops := q_loops g + min 4 (mc_numCPU cfg)\<rparr>) (v\<lparr>x_control := Some c\<rparr>), [KA_ports i])"

text \<open>The control loop: any signal but a heartbeat ends it. A frame that is not a signal is passed over by its reader.\<close>

definition wsmux_channelHandler :: "nat \<Rightarrow> handler_event \<Rightarrow> bool \<Rightarrow> muxServer \<Rightarrow> muxServer \<times> kind_act list" where
  "wsmux_channelHandler i ev wrote v =
     (case ev of
        H_message b \<Rightarrow>
          if \<not> q_handler (x_gens v ! i) \<or> b = SG_HB then (v, [])
          else (upd_mux i (\<lambda>g. g\<lparr>q_handler := False\<rparr>) v, [KA_restart])
      | _ \<Rightarrow> (fst (mux_channelHandler i ev wrote v), if snd (snd (mux_channelHandler i ev wrote v)) then [KA_restart] else []))"

definition NewWSMuxServer :: "int \<Rightarrow> int \<Rightarrow> muxServer" where
  "NewWSMuxServer maxConnections bandwidthMbps = NewTcpMuxServer maxConnections bandwidthMbps"

definition wsmux_Restart_finish :: "bool \<Rightarrow> muxServer \<Rightarrow> muxServer" where
  "wsmux_Restart_finish parent_done v =
     (if \<not> x_restarting v then v
      else if parent_done then v\<lparr>x_restarting := False\<rparr>
      else v\<lparr>x_gens := x_gens v @ [new_mux_gen], x_control := None, x_streamCounter := 0, x_sessionCounter := 0, x_restarting := False\<rparr>)"

datatype wsmux_event =
    WM_request nat nat http_req bool bool
  | WM_set nat
  | WM_handler nat handler_event bool
  | WM_restart_finish bool

fun wsmux_step :: "(string \<Rightarrow> bytes \<Rightarrow> bytes) \<Rightarrow> bool \<Rightarrow> muxConfig \<Rightarrow> wsmux_event \<Rightarrow> muxServer \<Rightarrow> muxServer \<times> kind_act list" where
  "wsmux_step mac simpleAuth cfg (WM_request i c r upgraded built) v =
     (if is_gen i v then wsmux_request mac cfg simpleAuth i c r upgraded built v else (v, []))"
| "wsmux_step mac simpleAuth cfg (WM_set k) v =
     (if k < length (x_claims v) \<and> is_gen (fst (x_claims v ! k)) v
      then wsmux_set cfg (fst (x_claims v ! k)) (mk_conn (snd (x_claims v ! k))) (v\<lparr>x_claims := remove_at k (x_claims v)\<rparr>)
      else (v, []))"
| "wsmux_step mac simpleAuth cfg (WM_handler i ev wrote) v = (if is_gen i v then wsmux_channelHandler i ev wrote v else (v, []))"
| "wsmux_step mac simpleAuth cfg (WM_restart_finish parent_done) v = (wsmux_Restart_finish parent_done v, [])"

text \<open>A server in full: its own part, and the part it shares with the other two.\<close>

definition kcp_run :: "muxConfig \<Rightarrow> kcp_event kind_event list \<Rightarrow> muxServer \<Rightarrow> muxServer" where
  "kcp_run cfg = kind_run (\<lambda>e v. fst (kcp_step cfg e v)) cfg"

definition wsmux_run :: "(string \<Rightarrow> bytes \<Rightarrow> bytes) \<Rightarrow> bool \<Rightarrow> muxConfig \<Rightarrow> wsmux_event kind_event list \<Rightarrow> muxServer \<Rightarrow> muxServer" where
  "wsmux_run mac simpleAuth cfg = kind_run (\<lambda>e v. fst (wsmux_step mac simpleAuth cfg e v)) cfg"

section \<open>What the shared code needs\<close>

text \<open>Everybody who holds the control channel or claims it, waits in the pool or has a session.\<close>

definition members :: "muxServer \<Rightarrow> nat set" where
  "members v = set_option (x_control v) \<union> (mk_conn \<circ> snd) ` set (x_claims v) \<union> fst ` set (concat (map q_tunnel (x_gens v))) \<union> set (map ms_conn (x_sessions v))"

lemma map_update_same: "(i < length xs \<Longrightarrow> g y = g (xs ! i)) \<Longrightarrow> map g (xs[i := y]) = map g xs"
  by (cases "i < length xs") (simp_all add: map_update list_update_beyond nth_equalityI nth_list_update)

lemma members_upd [simp]: "(\<And>g. q_tunnel (f g) = q_tunnel g) \<Longrightarrow> members (upd_mux i f v) = members v"
  by (simp add: members_def upd_mux_def map_update_same)

lemma members_session [simp]: "(\<And>s. ms_conn (f s) = ms_conn s) \<Longrightarrow> members (upd_session j f v) = members v"
  by (simp add: members_def upd_session_def map_update_same)

lemma members_fields [simp]:
  "members (v\<lparr>x_limits := a\<rparr>) = members v" "members (v\<lparr>x_streamCounter := b\<rparr>) = members v" "members (v\<lparr>x_sessionCounter := b\<rparr>) = members v"
  "members (v\<lparr>x_transfers := t\<rparr>) = members v" "members (v\<lparr>x_restarting := r\<rparr>) = members v" "members (v\<lparr>x_reading := q\<rparr>) = members v"
  by (simp_all add: members_def)

lemma concat_update: "set (concat (map f (xs[i := y]))) \<subseteq> set (concat (map f xs)) \<union> set (f y)"
  using set_update_subset_insert [of xs i y] by auto

lemma members_handleLoop:
  assumes "is_gen i v"
  shows "members (mux_handleLoop i v) \<subseteq> members v"
proof (cases "q_tunnel (x_gens v ! i)")
  case (Cons s ss)
  have mem: "x_gens v ! i \<in> set (x_gens v)" using assms by (simp add: is_gen_def)
  have "set (q_tunnel (x_gens v ! i)) \<subseteq> set (concat (map q_tunnel (x_gens v)))" using mem by auto
  then have "set ss \<subseteq> set (concat (map q_tunnel (x_gens v)))" using Cons by simp
  then have "set (concat (map q_tunnel ((x_gens v)[i := (x_gens v ! i)\<lparr>q_tunnel := ss\<rparr>]))) \<subseteq> set (concat (map q_tunnel (x_gens v)))"
    using concat_update [of q_tunnel "x_gens v" i "(x_gens v ! i)\<lparr>q_tunnel := ss\<rparr>"] by auto
  then have "fst ` set (concat (map q_tunnel ((x_gens v)[i := (x_gens v ! i)\<lparr>q_tunnel := ss\<rparr>]))) \<subseteq> fst ` set (concat (map q_tunnel (x_gens v)))"
    by (rule image_mono)
  moreover have "fst s \<in> fst ` set (concat (map q_tunnel (x_gens v)))" using mem Cons by force
  ultimately show ?thesis using Cons by (cases s) (auto simp: mux_handleLoop_def members_def upd_mux_def)
qed (simp add: mux_handleLoop_def Let_def)

lemma members_take: "members (fst (session_take cfg j l opened wrote now v)) = members v"
  by (simp add: session_take_def handleSessionError_def)

lemma members_handleSession: "members (fst (handleSession cfg j ev now v)) = members v"
  by (auto simp: handleSession_def members_take Let_def ask_conn_def split: session_event.split session_at.split list.split)

lemma members_local: "members (fst (mux_acceptLocalConn cfg i c remote now v)) = members v" "members (fst (mux_udpAdmitter cfg i c remote now v)) = members v"
  by (auto simp: mux_acceptLocalConn_def mux_udpAdmitter_def ask_conn_def Let_def split: prod.split)

lemma members_shared:
  assumes "shared e"
  shows "members (fst (mux_step cfg addr e v)) \<subseteq> members v"
  using assms members_handleLoop
  by (cases e) (auto simp: members_handleSession members_local mux_loop_exit_def mux_transfer_end_def mux_Restart_begin_def)

text \<open>Adding a member to the pool of a generation, and a control channel.\<close>

lemma members_pool: "members (upd_mux i (\<lambda>g. g\<lparr>q_tunnel := q_tunnel g @ [(c, w)]\<rparr>) v) \<subseteq> insert c (members v)"
proof (cases "i < length (x_gens v)")
  case True
  let ?g = "(x_gens v ! i)\<lparr>q_tunnel := q_tunnel (x_gens v ! i) @ [(c, w)]\<rparr>"
  have "x_gens v ! i \<in> set (x_gens v)" using True by simp
  then have "set (q_tunnel ?g) \<subseteq> insert (c, w) (set (concat (map q_tunnel (x_gens v))))" by auto
  then have "set (concat (map q_tunnel ((x_gens v)[i := ?g]))) \<subseteq> insert (c, w) (set (concat (map q_tunnel (x_gens v))))"
    using concat_update [of q_tunnel "x_gens v" i ?g] by blast
  then have "fst ` set (concat (map q_tunnel ((x_gens v)[i := ?g]))) \<subseteq> insert c (fst ` set (concat (map q_tunnel (x_gens v))))" by force
  then show ?thesis by (auto simp: members_def upd_mux_def)
next
  case False
  then show ?thesis by (auto simp: members_def upd_mux_def list_update_beyond)
qed

lemma members_control: "members (v\<lparr>x_control := Some c\<rparr>) \<subseteq> insert c (members v)"
  by (auto simp: members_def)

lemma members_start [simp]: "members (mux_start_rest cfg i v) = members v"
  by (simp add: mux_start_rest_def)

lemma members_handler: "members (fst (mux_channelHandler i ev wrote v)) = members v"
  by (auto simp: mux_channelHandler_def mux_handler_sends_def Let_def split: handler_event.split option.split)

lemma members_restart: "members (v\<lparr>x_gens := x_gens v @ [new_mux_gen], x_control := None, x_streamCounter := a, x_sessionCounter := b, x_restarting := r\<rparr>) \<subseteq> members v"
  by (auto simp: members_def new_mux_gen_def)

text \<open>What is lost and who has proved the token along a run.\<close>

definition kind_gives_up :: "'e kind_event \<Rightarrow> muxServer \<Rightarrow> bool" where
  "kind_gives_up e v = (case e of K_own _ \<Rightarrow> False | K_shared x \<Rightarrow> shared x \<and> gives_up x v)"

fun kind_lost :: "('e \<Rightarrow> muxServer \<Rightarrow> muxServer) \<Rightarrow> muxConfig \<Rightarrow> 'e kind_event list \<Rightarrow> muxServer \<Rightarrow> nat" where
  "kind_lost own cfg [] v = 0"
| "kind_lost own cfg (e # es) v = (if kind_gives_up e v then 1 else 0) + kind_lost own cfg es (kind_step own cfg e v)"

fun kind_proved :: "('e \<Rightarrow> muxServer \<Rightarrow> muxServer) \<Rightarrow> ('e \<Rightarrow> muxServer \<Rightarrow> nat set) \<Rightarrow> muxConfig \<Rightarrow> 'e kind_event list \<Rightarrow> muxServer \<Rightarrow> nat set" where
  "kind_proved own pr cfg [] v = {}"
| "kind_proved own pr cfg (e # es) v = (case e of K_own x \<Rightarrow> pr x v | K_shared _ \<Rightarrow> {}) \<union> kind_proved own pr cfg es (kind_step own cfg e v)"

locale mux_kind =
  fixes own :: "'e \<Rightarrow> muxServer \<Rightarrow> muxServer" and pr :: "'e \<Rightarrow> muxServer \<Rightarrow> nat set"
  assumes own_books: "books n lost flows v \<Longrightarrow> x_gens v \<noteq> [] \<Longrightarrow> \<exists>f. books n lost f (own e v)"
    and own_gens: "x_gens v \<noteq> [] \<Longrightarrow> x_gens (own e v) \<noteq> []"
    and own_members: "members (own e v) \<subseteq> members v \<union> pr e v"
begin

lemma step_books:
  assumes "books n lost flows v" "x_gens v \<noteq> []"
  shows "\<exists>f. books n (lost + (if kind_gives_up e v then 1 else 0)) f (kind_step own cfg e v)"
proof (cases e)
  case (K_own x)
  then show ?thesis using own_books [OF assms] by (simp add: kind_step_def kind_gives_up_def)
next
  case (K_shared x)
  then show ?thesis using books_step [OF assms, of x cfg "\<lambda>_. None"] assms by (auto simp: kind_step_def kind_gives_up_def)
qed

lemma step_gens: "x_gens v \<noteq> [] \<Longrightarrow> x_gens (kind_step own cfg e v) \<noteq> []"
proof (cases e)
  case (K_shared x)
  assume "x_gens v \<noteq> []"
  then have "x_gens (fst (mux_step cfg (\<lambda>_. None) x v)) \<noteq> []" using gens_kept [of v cfg "\<lambda>_. None" x] by auto
  then show ?thesis using K_shared \<open>x_gens v \<noteq> []\<close> by (simp add: kind_step_def)
qed (simp add: kind_step_def own_gens)

lemma run_books:
  assumes "books n lost flows v" "x_gens v \<noteq> []"
  shows "\<exists>f. books n (lost + kind_lost own cfg evs v) f (kind_run own cfg evs v)"
  using assms
proof (induction evs arbitrary: v lost flows)
  case (Cons e es)
  obtain f where "books n (lost + (if kind_gives_up e v then 1 else 0)) f (kind_step own cfg e v)" using step_books [OF Cons.prems] by blast
  from Cons.IH [OF this step_gens [OF Cons.prems(2)]] show ?case by (simp add: add.assoc)
qed auto

lemma run_members: "members (kind_run own cfg evs v) \<subseteq> members v \<union> kind_proved own pr cfg evs v"
proof (induction evs arbitrary: v)
  case (Cons e es)
  have "members (kind_step own cfg e v) \<subseteq> members v \<union> (case e of K_own x \<Rightarrow> pr x v | K_shared _ \<Rightarrow> {})"
    using own_members members_shared by (cases e) (auto simp: kind_step_def)
  then show ?case using Cons.IH [of "kind_step own cfg e v"] by auto
qed simp

text \<open>What holds of every server built on the shared code, from its start.\<close>

lemma kind_sound:
  assumes "0 < n" "n < 2 ^ 31 - 1"
  shows "rev_held (x_limits (kind_run own cfg evs (NewTcpMuxServer (int n) bw))) =
      mux_in_service (kind_run own cfg evs (NewTcpMuxServer (int n) bw)) + kind_lost own cfg evs (NewTcpMuxServer (int n) bw)"
    "members (kind_run own cfg evs (NewTcpMuxServer m bw)) \<subseteq> kind_proved own pr cfg evs (NewTcpMuxServer m bw)"
proof -
  have "x_gens (NewTcpMuxServer (int n) bw) \<noteq> []" by (simp add: NewTcpMuxServer_def)
  from run_books [OF new_mux_books [OF assms] this]
  show "rev_held (x_limits (kind_run own cfg evs (NewTcpMuxServer (int n) bw))) =
      mux_in_service (kind_run own cfg evs (NewTcpMuxServer (int n) bw)) + kind_lost own cfg evs (NewTcpMuxServer (int n) bw)"
    by (auto simp: books_def)
  have "members (NewTcpMuxServer m bw) = {}" by (simp add: members_def NewTcpMuxServer_def new_mux_gen_def)
  then show "members (kind_run own cfg evs (NewTcpMuxServer m bw)) \<subseteq> kind_proved own pr cfg evs (NewTcpMuxServer m bw)"
    using run_members [of cfg evs "NewTcpMuxServer m bw"] by simp
qed

end

section \<open>The two kinds\<close>

lemma books_restart_kind:
  assumes "books n lost flows v"
  shows "\<exists>f. books n lost f (kcp_Restart_finish parent_done v)" "\<exists>f. books n lost f (wsmux_Restart_finish parent_done v)"
proof -
  let ?v = "v\<lparr>x_gens := x_gens v @ [new_mux_gen], x_control := None, x_streamCounter := 0, x_sessionCounter := 0, x_restarting := False\<rparr>"
  have "mux_in_service ?v = mux_in_service v" by (simp add: mux_in_service_def new_mux_gen_def)
  then have "books n lost (mux_in_service v) ?v" using assms by (simp add: books_def)
  moreover have "books n lost flows (v\<lparr>x_restarting := False\<rparr>)" by (intro books_same [OF assms] same_fields) simp_all
  ultimately show "\<exists>f. books n lost f (kcp_Restart_finish parent_done v)" "\<exists>f. books n lost f (wsmux_Restart_finish parent_done v)"
    using assms by (auto simp: kcp_Restart_finish_def wsmux_Restart_finish_def)
qed

lemma same_reading: "same_books v (v\<lparr>x_reading := r\<rparr>)" "same_books v (v\<lparr>x_claims := cs\<rparr>)" "same_books v (v\<lparr>x_control := c\<rparr>)"
  by (rule same_fields; simp)+

lemma same_start_control: "is_gen i v \<Longrightarrow> same_books v (mux_start_rest cfg i (v\<lparr>x_control := c\<rparr>))"
  by (rule same_trans [OF same_reading(3) same_start]) (simp add: is_gen_def)

lemma same_pool: "is_gen i v \<Longrightarrow> same_books v (upd_mux i (\<lambda>g. g\<lparr>q_tunnel := q_tunnel g @ [s]\<rparr>) v)"
  by (rule same_upd) simp_all

lemma same_acceptSession: "is_gen i v \<Longrightarrow> same_books v (fst (kcp_acceptSession cfg i c ann wrote built receiving v))"
  by (auto simp: kcp_acceptSession_def same_refl same_start_control same_pool split: option.split)

definition kcp_proves :: "muxConfig \<Rightarrow> kcp_event \<Rightarrow> muxServer \<Rightarrow> nat set" where
  "kcp_proves cfg e v =
     (case e of
        KC_announced k (Some (token, sig)) _ _ _ \<Rightarrow> if k < length (x_reading v) \<and> token = mc_token cfg then {snd (x_reading v ! k)} else {}
      | _ \<Rightarrow> {})"

lemma members_acceptSession:
  "members (fst (kcp_acceptSession cfg i c ann wrote built receiving v)) \<subseteq>
   members v \<union> (case ann of Some (token, sig) \<Rightarrow> if token = mc_token cfg then {c} else {} | None \<Rightarrow> {})"
proof (cases "\<exists>sig. ann = Some (mc_token cfg, sig)")
  case True
  then obtain sig where "ann = Some (mc_token cfg, sig)" by blast
  then show ?thesis using members_pool members_control
    by (simp add: kcp_acceptSession_def split del: if_split) (auto split: if_split dest!: subsetD [OF members_pool] subsetD [OF members_control])
next
  case False
  then have "fst (kcp_acceptSession cfg i c ann wrote built receiving v) = v" by (cases ann) (auto simp: kcp_acceptSession_def)
  then show ?thesis by simp
qed

interpretation kcp: mux_kind "\<lambda>e v. fst (kcp_step cfg e v)" "kcp_proves cfg" for cfg
proof
  fix n lost flows v e
  assume b: "books n lost flows v" "x_gens v \<noteq> []"
  have k: "same_books v v' \<Longrightarrow> \<exists>f. books n lost f v'" for v' using books_same [OF b(1)] by blast
  show "\<exists>f. books n lost f (fst (kcp_step cfg e v))"
  proof (cases e)
    case (KC_restart_finish x)
    then show ?thesis using books_restart_kind(1) [OF b(1)] by simp
  next
    case (KC_announced k ann wrote built receiving)
    let ?v = "v\<lparr>x_reading := remove_at k (x_reading v)\<rparr>"
    have "same_books v (fst (kcp_acceptSession cfg i c ann wrote built receiving ?v))" if "is_gen i v" for i c
      using that by (intro same_trans [OF same_reading(1) same_acceptSession]) (simp add: is_gen_def)
    then show ?thesis using KC_announced b(1) k by auto
  qed (use b(1) k in \<open>auto simp: same_reading same_start same_handler\<close>)
next
  fix v :: muxServer and e
  assume "x_gens v \<noteq> []"
  moreover have "length (x_gens v) \<le> length (x_gens (fst (kcp_step cfg e v)))"
    by (cases e) (auto simp: kcp_acceptSession_def mux_start_rest_def mux_channelHandler_def mux_handler_sends_def kcp_Restart_finish_def Let_def
        split: option.split handler_event.split)
  ultimately show "x_gens (fst (kcp_step cfg e v)) \<noteq> []" by auto
next
  fix v :: muxServer and e
  show "members (fst (kcp_step cfg e v)) \<subseteq> members v \<union> kcp_proves cfg e v"
  proof (cases e)
    case (KC_announced k ann wrote built receiving)
    then show ?thesis
      using members_acceptSession [of cfg "fst (x_reading v ! k)" "snd (x_reading v ! k)" ann wrote built receiving "v\<lparr>x_reading := remove_at k (x_reading v)\<rparr>"]
      by (auto simp: kcp_proves_def split: option.splits if_splits)
  next
    case (KC_restart_finish x)
    then show ?thesis using members_restart by (auto simp: kcp_Restart_finish_def)
  qed (auto simp: members_handler)
qed

definition wsmux_proves :: "(string \<Rightarrow> bytes \<Rightarrow> bytes) \<Rightarrow> bool \<Rightarrow> muxConfig \<Rightarrow> wsmux_event \<Rightarrow> muxServer \<Rightarrow> nat set" where
  "wsmux_proves mac simpleAuth cfg e v =
     (case e of WM_request i c r _ _ \<Rightarrow> if isTunnelRequest mac r (mc_token cfg) simpleAuth then {c} else {} | _ \<Rightarrow> {})"

lemma same_request: "is_gen i v \<Longrightarrow> same_books v (fst (wsmux_request mac cfg simpleAuth i c r upgraded built v))"
  by (auto simp: wsmux_request_def same_refl same_reading same_pool split: option.split)

lemma same_set: "is_gen i v \<Longrightarrow> same_books v (fst (wsmux_set cfg i c (v\<lparr>x_claims := cs\<rparr>)))"
  unfolding wsmux_set_def fst_conv
  by (rule same_trans [OF same_trans [OF same_reading(2) same_reading(3)] same_upd]) (simp_all add: is_gen_def)

lemma same_ws_handler: "is_gen i v \<Longrightarrow> same_books v (fst (wsmux_channelHandler i ev wrote v))"
  by (auto simp: wsmux_channelHandler_def same_refl same_handler split: handler_event.split intro!: same_upd)

lemma members_claim: "members (v\<lparr>x_claims := x_claims v @ [(i, \<lparr>mk_conn = c, mk_nonce = a, mk_version = b\<rparr>)]\<rparr>) = insert c (members v)"
  by (auto simp: members_def)

lemma members_request:
  "members (fst (wsmux_request mac cfg simpleAuth i c r upgraded built v)) \<subseteq>
   members v \<union> (if isTunnelRequest mac r (mc_token cfg) simpleAuth then {c} else {})"
  using members_pool by (auto simp: wsmux_request_def members_claim split: option.splits if_splits dest!: subsetD [OF members_pool])

lemma members_set:
  assumes "k < length (x_claims v)"
  shows "members (fst (wsmux_set cfg i (mk_conn (snd (x_claims v ! k))) (v\<lparr>x_claims := remove_at k (x_claims v)\<rparr>))) \<subseteq> members v"
proof -
  have "x_claims v ! k \<in> set (x_claims v)" using assms by simp
  then have "mk_conn (snd (x_claims v ! k)) \<in> members v" by (force simp: members_def)
  moreover have "members (v\<lparr>x_claims := remove_at k (x_claims v)\<rparr>) \<subseteq> members v"
    using image_mono [OF set_remove_at, of "mk_conn \<circ> snd" k "x_claims v"] by (auto simp: members_def)
  ultimately show ?thesis using members_control [where v = "v\<lparr>x_claims := remove_at k (x_claims v)\<rparr>" and c = "mk_conn (snd (x_claims v ! k))"]
    by (auto simp: wsmux_set_def)
qed

interpretation wsmux: mux_kind "\<lambda>e v. fst (wsmux_step mac simpleAuth cfg e v)" "wsmux_proves mac simpleAuth cfg" for mac simpleAuth cfg
proof
  fix n lost flows v e
  assume b: "books n lost flows v" "x_gens v \<noteq> []"
  have k: "same_books v v' \<Longrightarrow> \<exists>f. books n lost f v'" for v' using books_same [OF b(1)] by blast
  show "\<exists>f. books n lost f (fst (wsmux_step mac simpleAuth cfg e v))"
    using b(1) k books_restart_kind(2) [OF b(1)] by (cases e) (auto simp: same_request same_set same_ws_handler)
next
  fix v :: muxServer and e
  assume "x_gens v \<noteq> []"
  moreover have "length (x_gens v) \<le> length (x_gens (fst (wsmux_step mac simpleAuth cfg e v)))"
    by (cases e) (auto simp: wsmux_request_def wsmux_set_def wsmux_channelHandler_def mux_channelHandler_def mux_handler_sends_def
        wsmux_Restart_finish_def Let_def split: option.split handler_event.split)
  ultimately show "x_gens (fst (wsmux_step mac simpleAuth cfg e v)) \<noteq> []" by auto
next
  fix v :: muxServer and e
  show "members (fst (wsmux_step mac simpleAuth cfg e v)) \<subseteq> members v \<union> wsmux_proves mac simpleAuth cfg e v"
  proof (cases e)
    case (WM_request i c r upgraded built)
    then show ?thesis using members_request [of mac cfg simpleAuth i c r upgraded built v] by (auto simp: wsmux_proves_def)
  next
    case (WM_set k)
    then show ?thesis using members_set by (simp add: wsmux_proves_def)
  next
    case (WM_restart_finish x)
    then show ?thesis using members_restart by (auto simp: wsmux_Restart_finish_def)
  qed (auto simp: wsmux_channelHandler_def members_handler split: handler_event.splits if_splits)
qed


text \<open>A client claims the control channel of a server over KCP with the token.\<close>

definition kind_config :: muxConfig where
  "kind_config = \<lparr>mc_token = ''t'', mc_channelSize = 8, mc_muxCon = 2, mc_muxVersion = 0, mc_numCPU = 1\<rparr>"

definition kind_events :: "kcp_event kind_event list" where
  "kind_events = [K_own (KC_open 0 7), K_own (KC_announced 0 (Some (''t'', SG_Chan)) True True True)]"


text \<open>A websocket server looks whether it has a control channel and sets it in two steps: two claims that overlap are both
  taken, and the forwarded ports are opened twice, the second time on addresses that are taken.\<close>

theorem overlapping_claims_open_the_ports_twice:
  assumes "is_gen i v" "x_control v = None" "x_claims v = []" "isTunnelRequest mac r (mc_token cfg) sa" "rq_path r = ''/channel''"
    "v1 = fst (wsmux_step mac sa cfg (WM_request i c r True True) v)" "v2 = fst (wsmux_step mac sa cfg (WM_request i d r True True) v1)"
    "v3 = fst (wsmux_step mac sa cfg (WM_set 0) v2)"
  shows "snd (wsmux_step mac sa cfg (WM_set 0) v2) = [KA_ports i] \<and> snd (wsmux_step mac sa cfg (WM_set 0) v3) = [KA_ports i]"
  using assms by (simp add: wsmux_request_def wsmux_set_def is_gen_def remove_at_def upd_mux_def)

lemma hex_digit_inj: "hex_digit m = hex_digit n \<Longrightarrow> m < 16 \<Longrightarrow> n < 16 \<Longrightarrow> m = n"
  by (auto simp: hex_digit_def dest!: arg_cong [where f = "of_char :: char \<Rightarrow> nat"] split: if_splits)

lemma byte_div_less: "unat (b :: byte) div 16 < 16"
proof (rule less_mult_imp_div_less)
  have "unat b < 256" by (rule unat_byte_less)
  then show "unat b < 16 * 16" by simp
qed

lemma hex_string_inj: "hex_string x = hex_string y \<Longrightarrow> x = y"
proof (induction x arbitrary: y)
  case Nil
  then show ?case by (cases y) (simp_all add: hex_string_def)
next
  case (Cons a x)
  then obtain b y' where y: "y = b # y'" by (cases y) (auto simp: hex_string_def)
  have e: "hex_digit (unat a div 16) = hex_digit (unat b div 16)" "hex_digit (unat a mod 16) = hex_digit (unat b mod 16)" "hex_string x = hex_string y'"
    using Cons.prems y by (auto simp: hex_string_def)
  have "unat a div 16 = unat b div 16" "unat a mod 16 = unat b mod 16"
    using hex_digit_inj [OF e(1)] hex_digit_inj [OF e(2)] byte_div_less by simp_all
  then have "unat a = unat b" by (metis div_mult_mod_eq)
  then have "a = b" by (rule unsigned_word_eqI)
  then show ?case using Cons.IH [OF e(3)] y by simp
qed

text \<open>What keeps a man in the middle out over TLS: the header is accepted only for the keying material of this very session,
  unless two values of the function collide.\<close>

theorem bound_credential:
  assumes "authorizeWSRequest mac r token False" "rq_tls r" "rq_auth r = ''Bearer '' @ WSSBindingProof mac ekm token" "rq_ekm r = Some ekm'"
  shows "mac token ekm = mac token ekm'"
  using assms hex_string_inj by (auto simp: authorizeWSRequest_def WSSServerProof_def WSSBindingProof_def Let_def)

end
