(* ===== verification/WsServer.thy ===== *)
theory WsServer
  imports MuxKinds
begin

text \<open>
  The reverse server over plain websockets (\<open>internal/server/transport/ws.go\<close>). Requests are let in as in \<open>MuxKinds\<close>; users and
  pool connections are paired by handle loops as over TCP. What is its own is the pinger: every pool connection has a
  goroutine that pings it while it waits, and the handle loop that takes the connection has to keep the pings out of what
  follows, with a channel it closes and a mutex it takes and never gives back. Connections of the pool are indices into
  \<open>w_conns\<close>, which records what has been written to each.
\<close>

section \<open>State\<close>

record wsConfig =
  wc_token :: string
  wc_simpleAuth :: bool
  wc_channelSize :: nat
  wc_numCPU :: nat

datatype ws_msg = M_ping | M_target string

datatype pinger = P_wait | P_writing | P_gone

record tunnelChannel =
  tc_gen :: nat
  tc_closed :: bool
  tc_locked :: bool
  tc_pinger :: pinger
  tc_sent :: "ws_msg list"

text \<open>A handle loop waits for a user; holds one and waits for a connection; waits for the mutex of a connection; writes to it.\<close>

datatype ws_worker =
    WW_idle
  | WW_holding local_conn
  | WW_locking local_conn nat
  | WW_sending local_conn nat
  | WW_exited "local_conn option"

record wsGen =
  h_done :: bool
  h_tunnel :: "nat list"
  h_local :: "local_conn list"
  h_req :: nat
  h_serving :: bool
  h_handlers :: nat
  h_workers :: "ws_worker list"

record wsServer =
  w_control :: "nat option"
  w_limits :: "rev_limiter option"
  w_gens :: "wsGen list"
  w_claims :: "(nat \<times> nat) list"
  w_conns :: "tunnelChannel list"
  w_transfers :: "(local_conn \<times> nat) list"
  w_restarting :: bool

datatype ws_act = WA_close nat | WA_drop nat | WA_byte nat byte | WA_write nat ws_msg | WA_ports nat | WA_restart | WA_decoy

definition new_ws_gen :: wsGen where
  "new_ws_gen = \<lparr>h_done = False, h_tunnel = [], h_local = [], h_req = 0, h_serving = False, h_handlers = 0, h_workers = []\<rparr>"

definition NewWSServer :: "int \<Rightarrow> int \<Rightarrow> wsServer" where
  "NewWSServer maxConnections bandwidthMbps =
     \<lparr>w_control = None, w_limits = newLimiter maxConnections bandwidthMbps, w_gens = [new_ws_gen], w_claims = [], w_conns = [],
      w_transfers = [], w_restarting = False\<rparr>"

definition upd_ws :: "nat \<Rightarrow> (wsGen \<Rightarrow> wsGen) \<Rightarrow> wsServer \<Rightarrow> wsServer" where
  "upd_ws i f v = v\<lparr>w_gens := (w_gens v)[i := f (w_gens v ! i)]\<rparr>"

definition upd_conn :: "nat \<Rightarrow> (tunnelChannel \<Rightarrow> tunnelChannel) \<Rightarrow> wsServer \<Rightarrow> wsServer" where
  "upd_conn k f v = v\<lparr>w_conns := (w_conns v)[k := f (w_conns v ! k)]\<rparr>"

section \<open>Requests and the control channel\<close>

definition new_conn :: "nat \<Rightarrow> tunnelChannel" where
  "new_conn i = \<lparr>tc_gen = i, tc_closed = False, tc_locked = False, tc_pinger = P_wait, tc_sent = []\<rparr>"

definition ws_request :: "(string \<Rightarrow> bytes \<Rightarrow> bytes) \<Rightarrow> wsConfig \<Rightarrow> nat \<Rightarrow> nat \<Rightarrow> http_req \<Rightarrow> bool \<Rightarrow> wsServer \<Rightarrow> wsServer \<times> ws_act list" where
  "ws_request mac cfg i c r upgraded v =
     (if \<not> isTunnelRequest mac r (wc_token cfg) (wc_simpleAuth cfg) then (v, [WA_decoy])
      else if \<not> upgraded then (v, [])
      else if rq_path r = ''/channel'' then
        (case w_control v of
           Some p \<Rightarrow> (v, [WA_close p, WA_close c, WA_restart])
         | None \<Rightarrow> (v\<lparr>w_claims := w_claims v @ [(i, c)]\<rparr>, []))
      else if prefix ''/tunnel'' (rq_path r) then
        (if length (h_tunnel (w_gens v ! i)) < wc_channelSize cfg
         then (upd_ws i (\<lambda>g. g\<lparr>h_tunnel := h_tunnel g @ [length (w_conns v)]\<rparr>) (v\<lparr>w_conns := w_conns v @ [new_conn i]\<rparr>), [])
         else (v, [WA_close c]))
      else (v, []))"

definition ws_set :: "wsConfig \<Rightarrow> nat \<Rightarrow> nat \<Rightarrow> wsServer \<Rightarrow> wsServer \<times> ws_act list" where
  "ws_set cfg i c v =
     (upd_ws i (\<lambda>g. g\<lparr>h_serving := True, h_handlers := h_handlers g + 1, h_workers := h_workers g @ replicate (min 4 (wc_numCPU cfg)) WW_idle\<rparr>)
        (v\<lparr>w_control := Some c\<rparr>), [WA_ports i])"

definition ws_quit :: "nat \<Rightarrow> wsServer \<Rightarrow> wsServer" where
  "ws_quit i v = upd_ws i (\<lambda>g. g\<lparr>h_handlers := h_handlers g - 1\<rparr>) v"

definition ws_sends :: "nat \<Rightarrow> byte \<Rightarrow> bool \<Rightarrow> wsServer \<Rightarrow> wsServer \<times> ws_act list" where
  "ws_sends i b wrote v =
     (case w_control v of
        Some c \<Rightarrow> if wrote then (v, [WA_byte c b]) else (ws_quit i v, [WA_restart])
      | None \<Rightarrow> (ws_quit i v, [WA_restart]))"

definition ws_channelHandler :: "nat \<Rightarrow> handler_event \<Rightarrow> bool \<Rightarrow> wsServer \<Rightarrow> wsServer \<times> ws_act list" where
  "ws_channelHandler i ev wrote v =
     (let g = w_gens v ! i in
      if h_handlers g = 0 then (v, [])
      else case ev of
        H_start \<Rightarrow> (v, [])
      | H_done \<Rightarrow>
          if h_done g then (ws_quit i v, case w_control v of Some c \<Rightarrow> if wrote then [WA_byte c SG_Closed] else [] | None \<Rightarrow> []) else (v, [])
      | H_request \<Rightarrow> if h_req g = 0 then (v, []) else ws_sends i SG_Chan wrote (upd_ws i (\<lambda>g. g\<lparr>h_req := h_req g - 1\<rparr>) v)
      | H_tick \<Rightarrow> ws_sends i SG_HB wrote v
      | H_message b \<Rightarrow> if b = SG_HB then (v, []) else (ws_quit i v, [WA_restart]))"

definition ws_Restart_begin :: "wsServer \<Rightarrow> wsServer \<times> ws_act list" where
  "ws_Restart_begin v =
     (if w_restarting v then (v, [])
      else (upd_ws (length (w_gens v) - 1) (\<lambda>g. g\<lparr>h_done := True\<rparr>) (v\<lparr>w_restarting := True\<rparr>),
            case w_control v of None \<Rightarrow> [] | Some c \<Rightarrow> [WA_close c]))"

definition ws_Restart_finish :: "bool \<Rightarrow> wsServer \<Rightarrow> wsServer" where
  "ws_Restart_finish parent_done v =
     (if \<not> w_restarting v then v
      else if parent_done then v\<lparr>w_restarting := False\<rparr>
      else v\<lparr>w_gens := w_gens v @ [new_ws_gen], w_control := None, w_restarting := False\<rparr>)"

section \<open>Users\<close>

definition ws_admit :: "wsConfig \<Rightarrow> nat \<Rightarrow> local_conn \<Rightarrow> wsServer \<Rightarrow> wsServer \<times> bool" where
  "ws_admit cfg i l v =
     (let (lim, got) = lim_acquire (w_limits v); v = v\<lparr>w_limits := lim\<rparr> in
      if \<not> got then (v, False)
      else if length (h_local (w_gens v ! i)) < wc_channelSize cfg then
        (upd_ws i (\<lambda>g. g\<lparr>h_local := h_local g @ [l], h_req := (if h_req g < wc_channelSize cfg then h_req g + 1 else h_req g)\<rparr>) v, True)
      else (v\<lparr>w_limits := lim_release (w_limits v)\<rparr>, False))"

text \<open>A user over TCP is closed when it is not admitted; a refused flow of datagrams by its caller.\<close>

definition ws_acceptLocalConn :: "wsConfig \<Rightarrow> nat \<Rightarrow> nat \<Rightarrow> string \<Rightarrow> int \<Rightarrow> wsServer \<Rightarrow> wsServer \<times> ws_act list" where
  "ws_acceptLocalConn cfg i c remoteAddr now v =
     (let (v, ok) = ws_admit cfg i \<lparr>lc_conn = c, lc_remoteAddr = remoteAddr, lc_timeCreated = now\<rparr> v in (v, if ok then [] else [WA_close c]))"

definition ws_worker_set :: "nat \<Rightarrow> ws_worker \<Rightarrow> wsGen \<Rightarrow> wsGen" where
  "ws_worker_set j w g = g\<lparr>h_workers := (h_workers g)[j := w]\<rparr>"

text \<open>The head of the inner loop: a user that waited more than three seconds is closed, and its slot is not given back.\<close>

definition ws_loop_head :: "nat \<Rightarrow> nat \<Rightarrow> local_conn \<Rightarrow> int \<Rightarrow> wsServer \<Rightarrow> wsServer \<times> ws_act list" where
  "ws_loop_head i j l now v =
     (if 3000 < now - lc_timeCreated l then (upd_ws i (ws_worker_set j WW_idle) v, [WA_close (lc_conn l)])
      else (upd_ws i (ws_worker_set j (WW_holding l)) v, []))"

datatype ws_loop_event = WL_take | WL_pick | WL_lock | WL_write bool | WL_exit

definition ws_handleLoop :: "nat \<Rightarrow> nat \<Rightarrow> ws_loop_event \<Rightarrow> int \<Rightarrow> wsServer \<Rightarrow> wsServer \<times> ws_act list" where
  "ws_handleLoop i j ev now v =
     (let g = w_gens v ! i in
      case h_workers g ! j of
        WW_idle \<Rightarrow>
          (case (ev, h_local g) of
             (WL_take, l # ls) \<Rightarrow> ws_loop_head i j l now (upd_ws i (\<lambda>g. g\<lparr>h_local := ls\<rparr>) v)
           | (WL_exit, _) \<Rightarrow> (if h_done g then upd_ws i (ws_worker_set j (WW_exited None)) v else v, [])
           | _ \<Rightarrow> (v, []))
      | WW_holding l \<Rightarrow>
          (case (ev, h_tunnel g) of
             (WL_pick, c # cs) \<Rightarrow>
               (upd_ws i (\<lambda>g. ws_worker_set j (WW_locking l c) (g\<lparr>h_tunnel := cs\<rparr>)) (upd_conn c (\<lambda>t. t\<lparr>tc_closed := True\<rparr>) v), [])
           | (WL_exit, _) \<Rightarrow> (if h_done g then upd_ws i (ws_worker_set j (WW_exited (Some l))) v else v, [])
           | _ \<Rightarrow> (v, []))
      | WW_locking l c \<Rightarrow>
          (if ev = WL_lock \<and> \<not> tc_locked (w_conns v ! c)
           then (upd_ws i (ws_worker_set j (WW_sending l c)) (upd_conn c (\<lambda>t. t\<lparr>tc_locked := True\<rparr>) v), []) else (v, []))
      | WW_sending l c \<Rightarrow>
          (case ev of
             WL_write wrote \<Rightarrow>
               if wrote
               then (upd_ws i (ws_worker_set j WW_idle)
                       (upd_conn c (\<lambda>t. t\<lparr>tc_sent := tc_sent t @ [M_target (lc_remoteAddr l)]\<rparr>) (v\<lparr>w_transfers := w_transfers v @ [(l, c)]\<rparr>)),
                     [WA_write c (M_target (lc_remoteAddr l))])
               else (let (v, acts) = ws_loop_head i j l now v in (v, WA_drop c # acts))
           | _ \<Rightarrow> (v, []))
      | WW_exited _ \<Rightarrow> (v, []))"

definition ws_transfer_end :: "nat \<Rightarrow> wsServer \<Rightarrow> wsServer" where
  "ws_transfer_end k v = v\<lparr>w_transfers := remove_at k (w_transfers v), w_limits := lim_release (w_limits v)\<rparr>"

section \<open>The pinger\<close>

datatype ping_event = KP_done | KP_closed | KP_tick | KP_wrote bool

definition keepAlive :: "nat \<Rightarrow> ping_event \<Rightarrow> wsServer \<Rightarrow> wsServer \<times> ws_act list" where
  "keepAlive k ev v =
     (let t = w_conns v ! k; gone = upd_conn k (\<lambda>t. t\<lparr>tc_pinger := P_gone\<rparr>) v in
      case tc_pinger t of
        P_wait \<Rightarrow>
          (case ev of
             KP_done \<Rightarrow> if h_done (w_gens v ! tc_gen t) then (gone, [WA_drop k]) else (v, [])
           | KP_closed \<Rightarrow> (if tc_closed t then gone else v, [])
           | KP_tick \<Rightarrow> (if tc_locked t then gone else upd_conn k (\<lambda>t. t\<lparr>tc_locked := True, tc_pinger := P_writing\<rparr>) v, [])
           | KP_wrote _ \<Rightarrow> (v, []))
      | P_writing \<Rightarrow>
          (case ev of
             KP_wrote ok \<Rightarrow>
               if ok then (upd_conn k (\<lambda>t. t\<lparr>tc_locked := False, tc_pinger := P_wait, tc_sent := tc_sent t @ [M_ping]\<rparr>) v, [WA_write k M_ping])
               else (upd_conn k (\<lambda>t. t\<lparr>tc_locked := False, tc_pinger := P_gone\<rparr>) v, [WA_drop k])
           | _ \<Rightarrow> (v, []))
      | P_gone \<Rightarrow> (v, []))"

section \<open>Runs\<close>

datatype ws_event =
    WE_request nat nat http_req bool
  | WE_set nat
  | WE_handler nat handler_event bool
  | WE_restart_begin
  | WE_restart_finish bool
  | WE_local nat nat string int
  | WE_flow nat local_conn
  | WE_loop nat nat ws_loop_event int
  | WE_ping nat ping_event
  | WE_transfer_end nat

definition w_gen :: "nat \<Rightarrow> wsServer \<Rightarrow> bool" where
  "w_gen i v \<longleftrightarrow> i < length (w_gens v)"

fun ws_step :: "(string \<Rightarrow> bytes \<Rightarrow> bytes) \<Rightarrow> wsConfig \<Rightarrow> ws_event \<Rightarrow> wsServer \<Rightarrow> wsServer \<times> ws_act list" where
  "ws_step mac cfg (WE_request i c r upgraded) v = (if w_gen i v then ws_request mac cfg i c r upgraded v else (v, []))"
| "ws_step mac cfg (WE_set k) v =
     (if k < length (w_claims v) \<and> w_gen (fst (w_claims v ! k)) v
      then ws_set cfg (fst (w_claims v ! k)) (snd (w_claims v ! k)) (v\<lparr>w_claims := remove_at k (w_claims v)\<rparr>) else (v, []))"
| "ws_step mac cfg (WE_handler i ev wrote) v = (if w_gen i v then ws_channelHandler i ev wrote v else (v, []))"
| "ws_step mac cfg WE_restart_begin v = ws_Restart_begin v"
| "ws_step mac cfg (WE_restart_finish parent_done) v = (ws_Restart_finish parent_done v, [])"
| "ws_step mac cfg (WE_local i c remote now) v =
     (if w_gen i v \<and> h_serving (w_gens v ! i) then ws_acceptLocalConn cfg i c remote now v else (v, []))"
| "ws_step mac cfg (WE_flow i l) v = (if w_gen i v \<and> h_serving (w_gens v ! i) then fst (ws_admit cfg i l v) else v, [])"
| "ws_step mac cfg (WE_loop i j ev now) v =
     (if w_gen i v \<and> j < length (h_workers (w_gens v ! i)) then ws_handleLoop i j ev now v else (v, []))"
| "ws_step mac cfg (WE_ping k ev) v = (if k < length (w_conns v) then keepAlive k ev v else (v, []))"
| "ws_step mac cfg (WE_transfer_end k) v = (if k < length (w_transfers v) then ws_transfer_end k v else v, [])"

definition ws_run :: "(string \<Rightarrow> bytes \<Rightarrow> bytes) \<Rightarrow> wsConfig \<Rightarrow> ws_event list \<Rightarrow> wsServer \<Rightarrow> wsServer" where
  "ws_run mac cfg evs v = foldl (\<lambda>v e. fst (ws_step mac cfg e v)) v evs"

section \<open>Pings\<close>

text \<open>How often a connection waits in a channel, and is with a handle loop before and after its mutex was taken.\<close>

datatype stage = Pooled | Locking | Sending

fun worker_n :: "stage \<Rightarrow> nat \<Rightarrow> ws_worker \<Rightarrow> nat" where
  "worker_n Locking k (WW_locking _ c) = (if c = k then 1 else 0)"
| "worker_n Sending k (WW_sending _ c) = (if c = k then 1 else 0)"
| "worker_n _ _ _ = 0"

definition gen_n :: "stage \<Rightarrow> nat \<Rightarrow> wsGen \<Rightarrow> nat" where
  "gen_n st k g = (if st = Pooled then count_list (h_tunnel g) k else 0) + (\<Sum>w \<leftarrow> h_workers g. worker_n st k w)"

definition ws_n :: "stage \<Rightarrow> nat \<Rightarrow> wsServer \<Rightarrow> nat" where
  "ws_n st k v = (\<Sum>g \<leftarrow> w_gens v. gen_n st k g)"

definition all_pings :: "ws_msg list \<Rightarrow> bool" where
  "all_pings ms \<longleftrightarrow> list_all (\<lambda>m. m = M_ping) ms"

definition pings_first :: "ws_msg list \<Rightarrow> bool" where
  "pings_first ms \<longleftrightarrow> all_pings (butlast ms)"

text \<open>A connection in one place at most; its pinger writes only under the mutex, and nobody else then; after the target the
  mutex stays taken.\<close>

definition conn_ok :: "nat \<Rightarrow> nat \<Rightarrow> nat \<Rightarrow> tunnelChannel \<Rightarrow> bool" where
  "conn_ok p l s t \<longleftrightarrow> p + l + s \<le> 1 \<and> pings_first (tc_sent t) \<and> (0 < p \<longrightarrow> \<not> tc_closed t) \<and> (0 < s \<longrightarrow> tc_locked t) \<and>
     (tc_pinger t = P_writing \<longrightarrow> tc_locked t \<and> s = 0 \<and> all_pings (tc_sent t)) \<and>
     (\<not> all_pings (tc_sent t) \<longrightarrow> tc_locked t \<and> p + l + s = 0)"

definition ws_conns_ok :: "wsServer \<Rightarrow> bool" where
  "ws_conns_ok v \<longleftrightarrow> (\<forall>k. if k < length (w_conns v) then conn_ok (ws_n Pooled k v) (ws_n Locking k v) (ws_n Sending k v) (w_conns v ! k)
     else \<forall>st. ws_n st k v = 0)"

lemma conn_ok_mono: "conn_ok p l s t \<Longrightarrow> p' \<le> p \<Longrightarrow> l' \<le> l \<Longrightarrow> s' \<le> s \<Longrightarrow> conn_ok p' l' s' t"
  by (auto simp: conn_ok_def)

lemma upd_ws_fields [simp]:
  "w_limits (upd_ws i f v) = w_limits v" "w_conns (upd_ws i f v) = w_conns v" "w_transfers (upd_ws i f v) = w_transfers v"
  "length (w_gens (upd_ws i f v)) = length (w_gens v)" "w_gen j (upd_ws i f v) = w_gen j v"
  by (simp_all add: upd_ws_def w_gen_def)

lemma upd_conn_fields [simp]:
  "w_limits (upd_conn k f v) = w_limits v" "w_gens (upd_conn k f v) = w_gens v" "w_transfers (upd_conn k f v) = w_transfers v"
  "w_conns (upd_conn k f v) = (w_conns v)[k := f (w_conns v ! k)]" "w_gen j (upd_conn k f v) = w_gen j v"
  by (simp_all add: upd_conn_def w_gen_def)

lemma ws_n_fields [simp]:
  "ws_n st k (upd_conn c f v) = ws_n st k v" "ws_n st k (v\<lparr>w_conns := cs\<rparr>) = ws_n st k v" "ws_n st k (v\<lparr>w_transfers := t\<rparr>) = ws_n st k v"
  by (simp_all add: ws_n_def)

lemma ws_n_upd: "w_gen i v \<Longrightarrow> ws_n st k (upd_ws i f v) + gen_n st k (w_gens v ! i) = ws_n st k v + gen_n st k (f (w_gens v ! i))"
  using sum_update [of i "w_gens v" "gen_n st k" "f (w_gens v ! i)"] by (simp add: ws_n_def upd_ws_def w_gen_def)

lemma gen_n_worker:
  "j < length (h_workers g) \<Longrightarrow> gen_n st k (ws_worker_set j w g) + worker_n st k (h_workers g ! j) = gen_n st k g + worker_n st k w"
  using sum_update [of j "h_workers g" "worker_n st k" w] by (simp add: gen_n_def ws_worker_set_def)

lemma gen_n_le: "w_gen i v \<Longrightarrow> gen_n st k (w_gens v ! i) \<le> ws_n st k v"
  using elem_le_sum_list [of i "map (gen_n st k) (w_gens v)"] by (simp add: ws_n_def w_gen_def)

lemma worker_n_le: "j < length (h_workers g) \<Longrightarrow> worker_n st k (h_workers g ! j) \<le> gen_n st k g"
  using elem_le_sum_list [of j "map (worker_n st k) (h_workers g)"] by (simp add: gen_n_def)

lemma conn_owned: "ws_conns_ok v \<Longrightarrow> 0 < ws_n st k v \<Longrightarrow> k < length (w_conns v)"
  by (auto simp: ws_conns_ok_def split: if_splits)

lemma ok_at: "ws_conns_ok v \<Longrightarrow> k < length (w_conns v) \<Longrightarrow> conn_ok (ws_n Pooled k v) (ws_n Locking k v) (ws_n Sending k v) (w_conns v ! k)"
  by (auto simp: ws_conns_ok_def split: if_splits)

text \<open>Changes to where connections are that leave the connections alone.\<close>

definition ws_less :: "wsServer \<Rightarrow> wsServer \<Rightarrow> bool" where
  "ws_less v w \<longleftrightarrow> w_conns w = w_conns v \<and> (\<forall>st k. ws_n st k w \<le> ws_n st k v)"

lemma ok_less: "ws_conns_ok v \<Longrightarrow> ws_less v w \<Longrightarrow> ws_conns_ok w"
  by (auto simp: ws_conns_ok_def ws_less_def intro: conn_ok_mono split: if_splits) (metis le_zero_eq)

lemma less_trans: "ws_less u v \<Longrightarrow> ws_less v w \<Longrightarrow> ws_less u w"
  unfolding ws_less_def by (metis order.trans)

lemma less_same: "w_gens w = w_gens v \<Longrightarrow> w_conns w = w_conns v \<Longrightarrow> ws_less v w"
  by (simp add: ws_less_def ws_n_def)

lemma less_upd:
  assumes "w_gen i v" "\<And>st k. gen_n st k (f (w_gens v ! i)) \<le> gen_n st k (w_gens v ! i)"
  shows "ws_less v (upd_ws i f v)"
proof -
  have "ws_n st k (upd_ws i f v) \<le> ws_n st k v" for st k using ws_n_upd [OF assms(1), of st k f] assms(2) [of st k] by linarith
  then show ?thesis by (simp add: ws_less_def)
qed

lemma less_upd_keep: "w_gen i v \<Longrightarrow> (\<And>g. h_tunnel (f g) = h_tunnel g \<and> h_workers (f g) = h_workers g) \<Longrightarrow> ws_less v (upd_ws i f v)"
  by (rule less_upd) (simp_all add: gen_n_def)

lemma less_worker:
  assumes "w_gen i v" "j < length (h_workers (w_gens v ! i))" "\<And>st k. worker_n st k w = 0"
  shows "ws_less v (upd_ws i (ws_worker_set j w) v)"
proof (rule less_upd [OF assms(1)])
  show "gen_n st k (ws_worker_set j w (w_gens v ! i)) \<le> gen_n st k (w_gens v ! i)" for st k
    using gen_n_worker [OF assms(2), of st k w] assms(3) by simp
qed

lemma worker_n_free [simp]: "worker_n st k WW_idle = 0" "worker_n st k (WW_holding l) = 0" "worker_n st k (WW_exited lo) = 0"
  by (cases st; simp)+

lemma less_head: "w_gen i v \<Longrightarrow> j < length (h_workers (w_gens v ! i)) \<Longrightarrow> ws_less v (fst (ws_loop_head i j l now v))"
  by (simp add: ws_loop_head_def less_worker)

lemma less_quit: "w_gen i v \<Longrightarrow> ws_less v (ws_quit i v)"
  unfolding ws_quit_def by (rule less_upd_keep) simp_all

lemma less_sends: "w_gen i v \<Longrightarrow> ws_less v (fst (ws_sends i b wrote v))"
  by (auto simp: ws_sends_def less_quit less_same split: option.split)

lemma less_handler: "w_gen i v \<Longrightarrow> ws_less v (fst (ws_channelHandler i ev wrote v))"
proof -
  assume i: "w_gen i v"
  have "ws_less v (upd_ws i (\<lambda>g. g\<lparr>h_req := h_req g - 1\<rparr>) v)" by (rule less_upd_keep [OF i]) simp
  then have "ws_less v (fst (ws_sends i b wrote (upd_ws i (\<lambda>g. g\<lparr>h_req := h_req g - 1\<rparr>) v)))" for b
    by (rule less_trans) (rule less_sends, simp add: i)
  then show ?thesis using i by (auto simp: ws_channelHandler_def less_same less_quit less_sends Let_def split: handler_event.split)
qed

lemma less_set: "w_gen i v \<Longrightarrow> ws_less v (fst (ws_set cfg i c (v\<lparr>w_claims := cs\<rparr>)))"
  unfolding ws_set_def fst_conv
  by (rule less_trans [OF less_same less_upd]) (simp_all add: w_gen_def gen_n_def sum_list_replicate)

lemma less_restart: "w_gens v \<noteq> [] \<Longrightarrow> ws_less v (fst (ws_Restart_begin v))" "ws_less v (ws_Restart_finish p v)"
proof -
  assume "w_gens v \<noteq> []"
  then have "ws_less (v\<lparr>w_restarting := True\<rparr>) (upd_ws (length (w_gens v) - 1) (\<lambda>g. g\<lparr>h_done := True\<rparr>) (v\<lparr>w_restarting := True\<rparr>))"
    by (intro less_upd_keep) (simp_all add: w_gen_def)
  then have "ws_less v (upd_ws (length (w_gens v) - 1) (\<lambda>g. g\<lparr>h_done := True\<rparr>) (v\<lparr>w_restarting := True\<rparr>))"
    by (rule less_trans [OF less_same, rotated -1]) simp_all
  then show "ws_less v (fst (ws_Restart_begin v))" by (simp add: ws_Restart_begin_def less_same)
qed (simp add: ws_Restart_finish_def ws_less_def ws_n_def new_ws_gen_def gen_n_def)

lemma less_admit: "w_gen i v \<Longrightarrow> ws_less v (fst (ws_admit cfg i l v))"
proof -
  assume i: "w_gen i v"
  have "ws_less v (upd_ws i (\<lambda>g. g\<lparr>h_local := h_local g @ [l], h_req := r g\<rparr>) (v\<lparr>w_limits := a\<rparr>))" for a r
    by (rule less_trans [OF less_same less_upd_keep]) (use i in \<open>simp_all add: w_gen_def\<close>)
  then show ?thesis by (auto simp: ws_admit_def Let_def less_same split: prod.split)
qed

text \<open>One connection changes, with where it is.\<close>

lemma ok_move:
  assumes "ws_conns_ok v" "c < length (w_conns v)" "w_conns w = (w_conns v)[c := t]" "\<And>st k. k \<noteq> c \<Longrightarrow> ws_n st k w \<le> ws_n st k v"
    "conn_ok (ws_n Pooled c w) (ws_n Locking c w) (ws_n Sending c w) t"
  shows "ws_conns_ok w"
  unfolding ws_conns_ok_def
proof
  fix k
  show "if k < length (w_conns w) then conn_ok (ws_n Pooled k w) (ws_n Locking k w) (ws_n Sending k w) (w_conns w ! k) else \<forall>st. ws_n st k w = 0"
  proof (cases "k = c")
    case True
    then show ?thesis using assms by simp
  next
    case False
    then have "conn_ok (ws_n Pooled k w) (ws_n Locking k w) (ws_n Sending k w) (w_conns v ! k)" if "k < length (w_conns v)"
      using conn_ok_mono [OF ok_at [OF assms(1) that]] assms(4) by simp
    moreover have "ws_n st k w = 0" if "\<not> k < length (w_conns v)" for st
      using conn_owned [OF assms(1), of st k] assms(4) [OF False, of st] that by linarith
    ultimately show ?thesis using assms(3) False by simp
  qed
qed

lemma pinger_ok:
  assumes "ws_conns_ok v" "k < length (w_conns v)"
  shows "ws_conns_ok (fst (keepAlive k ev v))"
proof -
  let ?t = "w_conns v ! k"
  have t: "conn_ok (ws_n Pooled k v) (ws_n Locking k v) (ws_n Sending k v) ?t" using ok_at assms .
  have f: "ws_conns_ok (upd_conn k f v)" if "conn_ok (ws_n Pooled k v) (ws_n Locking k v) (ws_n Sending k v) (f ?t)" for f
    using that by (intro ok_move [OF assms, of _ "f ?t"]) simp_all
  have pings: "all_pings ms \<Longrightarrow> all_pings (ms @ [M_ping]) \<and> pings_first (ms @ [M_ping])" for ms by (simp add: all_pings_def pings_first_def)
  have waits: "ws_conns_ok (upd_conn k (\<lambda>t. t\<lparr>tc_pinger := P_gone\<rparr>) v)" using t by (intro f) (simp add: conn_ok_def)
  have starts: "ws_conns_ok (upd_conn k (\<lambda>t. t\<lparr>tc_locked := True, tc_pinger := P_writing\<rparr>) v)" if "\<not> tc_locked ?t"
    using t that by (intro f) (auto simp: conn_ok_def)
  have ends: "ws_conns_ok (upd_conn k (\<lambda>t. t\<lparr>tc_locked := False, tc_pinger := P_wait, tc_sent := tc_sent t @ [M_ping]\<rparr>) v)"
    "ws_conns_ok (upd_conn k (\<lambda>t. t\<lparr>tc_locked := False, tc_pinger := P_gone\<rparr>) v)" if "tc_pinger ?t = P_writing"
    using t that pings [of "tc_sent ?t"] by (intro f; auto simp: conn_ok_def)+
  show ?thesis using assms(1) waits starts ends by (cases "tc_pinger ?t") (auto simp: keepAlive_def Let_def split: ping_event.split)
qed

lemma tunnel_ok:
  assumes "ws_conns_ok v" "w_gen i v"
  shows "ws_conns_ok (upd_ws i (\<lambda>g. g\<lparr>h_tunnel := h_tunnel g @ [length (w_conns v)]\<rparr>) (v\<lparr>w_conns := w_conns v @ [new_conn j]\<rparr>))" (is "ws_conns_ok ?w")
  unfolding ws_conns_ok_def
proof
  fix k
  let ?u = "v\<lparr>w_conns := w_conns v @ [new_conn j]\<rparr>" and ?f = "\<lambda>g. g\<lparr>h_tunnel := h_tunnel g @ [length (w_conns v)]\<rparr>"
  have n: "ws_n st k ?w = ws_n st k v + (if st = Pooled \<and> k = length (w_conns v) then 1 else 0)" for st
    using ws_n_upd [of i ?u st k ?f] assms(2) by (simp add: w_gen_def gen_n_def split: if_splits)
  have z: "\<not> k < length (w_conns v) \<Longrightarrow> ws_n st k v = 0" for st using conn_owned [OF assms(1)] by fastforce
  show "if k < length (w_conns ?w) then conn_ok (ws_n Pooled k ?w) (ws_n Locking k ?w) (ws_n Sending k ?w) (w_conns ?w ! k) else \<forall>st. ws_n st k ?w = 0"
    using ok_at [OF assms(1), of k] z unfolding n
    by (auto simp: nth_append new_conn_def conn_ok_def all_pings_def pings_first_def)
qed

text \<open>A handle loop with its connection, from the channel to the mutex to the write.\<close>

lemma worker_moves:
  assumes "w_gen i v" "j < length (h_workers (w_gens v ! i))"
  shows "ws_n st k (upd_ws i (ws_worker_set j w) v) + worker_n st k (h_workers (w_gens v ! i) ! j) = ws_n st k v + worker_n st k w"
  using ws_n_upd [OF assms(1), of st k "ws_worker_set j w"] gen_n_worker [OF assms(2), of st k w] by simp

lemma at_worker: "w_gen i v \<Longrightarrow> j < length (h_workers (w_gens v ! i)) \<Longrightarrow> worker_n st k (h_workers (w_gens v ! i) ! j) \<le> ws_n st k v"
  using gen_n_le [of i v st k] worker_n_le [of j "w_gens v ! i" st k] by linarith

lemma pick_ok:
  assumes ok: "ws_conns_ok v" and i: "w_gen i v" and j: "j < length (h_workers (w_gens v ! i))" and w: "h_workers (w_gens v ! i) ! j = WW_holding l"
    and t: "h_tunnel (w_gens v ! i) = c # cs"
  shows "ws_conns_ok (upd_ws i (\<lambda>g. ws_worker_set j (WW_locking l c) (g\<lparr>h_tunnel := cs\<rparr>)) (upd_conn c (\<lambda>t. t\<lparr>tc_closed := True\<rparr>) v))" (is "ws_conns_ok ?w")
proof -
  let ?g = "w_gens v ! i"
  have "gen_n st k ?g = gen_n st k (?g\<lparr>h_tunnel := cs\<rparr>) + (if st = Pooled \<and> k = c then 1 else 0)" for st k using t by (simp add: gen_n_def)
  moreover have "gen_n st k (ws_worker_set j (WW_locking l c) (?g\<lparr>h_tunnel := cs\<rparr>)) = gen_n st k (?g\<lparr>h_tunnel := cs\<rparr>) + worker_n st k (WW_locking l c)" for st k
    using gen_n_worker [of j "?g\<lparr>h_tunnel := cs\<rparr>" st k "WW_locking l c"] j w by simp
  ultimately have n: "ws_n st k ?w + (if st = Pooled \<and> k = c then 1 else 0) = ws_n st k v + worker_n st k (WW_locking l c)" for st k
    using ws_n_upd [of i "upd_conn c (\<lambda>t. t\<lparr>tc_closed := True\<rparr>) v" st k "\<lambda>g. ws_worker_set j (WW_locking l c) (g\<lparr>h_tunnel := cs\<rparr>)"] i by simp
  have p: "0 < ws_n Pooled c v" using gen_n_le [OF i, of Pooled c] t by (simp add: gen_n_def)
  then have c: "c < length (w_conns v)" by (rule conn_owned [OF ok])
  have k: "conn_ok (ws_n Pooled c v) (ws_n Locking c v) (ws_n Sending c v) (w_conns v ! c)" using ok_at [OF ok c] .
  show ?thesis
  proof (rule ok_move [OF ok c])
    show "w_conns ?w = (w_conns v)[c := (w_conns v ! c)\<lparr>tc_closed := True\<rparr>]" by simp
    show "ws_n st k ?w \<le> ws_n st k v" if "k \<noteq> c" for st k using n [of st k] that by (cases st) simp_all
    show "conn_ok (ws_n Pooled c ?w) (ws_n Locking c ?w) (ws_n Sending c ?w) ((w_conns v ! c)\<lparr>tc_closed := True\<rparr>)"
      using n [of Pooled c] n [of Locking c] n [of Sending c] p k by (auto simp: conn_ok_def)
  qed
qed

lemma lock_ok:
  assumes ok: "ws_conns_ok v" and i: "w_gen i v" and j: "j < length (h_workers (w_gens v ! i))" and w: "h_workers (w_gens v ! i) ! j = WW_locking l c"
    and free: "\<not> tc_locked (w_conns v ! c)"
  shows "ws_conns_ok (upd_ws i (ws_worker_set j (WW_sending l c)) (upd_conn c (\<lambda>t. t\<lparr>tc_locked := True\<rparr>) v))" (is "ws_conns_ok ?w")
proof -
  have n: "ws_n st k ?w + worker_n st k (WW_locking l c) = ws_n st k v + worker_n st k (WW_sending l c)" for st k
    using worker_moves [of i "upd_conn c (\<lambda>t. t\<lparr>tc_locked := True\<rparr>) v" j st k "WW_sending l c"] i j w by simp
  have p: "0 < ws_n Locking c v" using at_worker [OF i j, of Locking c] w by simp
  then have c: "c < length (w_conns v)" by (rule conn_owned [OF ok])
  have k: "conn_ok (ws_n Pooled c v) (ws_n Locking c v) (ws_n Sending c v) (w_conns v ! c)" using ok_at [OF ok c] .
  show ?thesis
  proof (rule ok_move [OF ok c])
    show "w_conns ?w = (w_conns v)[c := (w_conns v ! c)\<lparr>tc_locked := True\<rparr>]" by simp
    show "ws_n st k ?w \<le> ws_n st k v" if "k \<noteq> c" for st k using n [of st k] that by (cases st) simp_all
    show "conn_ok (ws_n Pooled c ?w) (ws_n Locking c ?w) (ws_n Sending c ?w) ((w_conns v ! c)\<lparr>tc_locked := True\<rparr>)"
      using n [of Pooled c] n [of Locking c] n [of Sending c] p k free by (auto simp: conn_ok_def)
  qed
qed

lemma write_ok:
  assumes ok: "ws_conns_ok v" and i: "w_gen i v" and j: "j < length (h_workers (w_gens v ! i))" and w: "h_workers (w_gens v ! i) ! j = WW_sending l c"
  shows "ws_conns_ok (upd_ws i (ws_worker_set j WW_idle) (upd_conn c (\<lambda>t. t\<lparr>tc_sent := tc_sent t @ [m]\<rparr>) (v\<lparr>w_transfers := x\<rparr>)))" (is "ws_conns_ok ?w")
proof -
  let ?u = "upd_conn c (\<lambda>t. t\<lparr>tc_sent := tc_sent t @ [m]\<rparr>) (v\<lparr>w_transfers := x\<rparr>)"
  have n: "ws_n st k ?w + worker_n st k (WW_sending l c) = ws_n st k v" for st k
    using worker_moves [of i ?u j st k WW_idle] i j w by (simp add: w_gen_def)
  have p: "0 < ws_n Sending c v" using at_worker [OF i j, of Sending c] w by simp
  then have c: "c < length (w_conns v)" by (rule conn_owned [OF ok])
  have k: "conn_ok (ws_n Pooled c v) (ws_n Locking c v) (ws_n Sending c v) (w_conns v ! c)" using ok_at [OF ok c] .
  show ?thesis
  proof (rule ok_move [OF ok c])
    show "w_conns ?w = (w_conns v)[c := (w_conns v ! c)\<lparr>tc_sent := tc_sent (w_conns v ! c) @ [m]\<rparr>]" by simp
    show "ws_n st k ?w \<le> ws_n st k v" if "k \<noteq> c" for st k using n [of st k] by linarith
    show "conn_ok (ws_n Pooled c ?w) (ws_n Locking c ?w) (ws_n Sending c ?w) ((w_conns v ! c)\<lparr>tc_sent := tc_sent (w_conns v ! c) @ [m]\<rparr>)"
      using n [of Pooled c] n [of Locking c] n [of Sending c] p k by (auto simp: conn_ok_def pings_first_def)
  qed
qed

lemma loop_ok:
  assumes ok: "ws_conns_ok v" and i: "w_gen i v" and j: "j < length (h_workers (w_gens v ! i))"
  shows "ws_conns_ok (fst (ws_handleLoop i j ev now v))"
proof -
  let ?g = "w_gens v ! i"
  have free: "ws_conns_ok (upd_ws i (ws_worker_set j (WW_exited lo)) v)" for lo by (rule ok_less [OF ok less_worker [OF i j]]) simp
  have head: "ws_conns_ok (fst (ws_loop_head i j l now v))" for l by (rule ok_less [OF ok less_head [OF i j]])
  have take1: "ws_conns_ok (fst (ws_loop_head i j l now (upd_ws i (\<lambda>g. g\<lparr>h_local := ls\<rparr>) v)))" for l ls
  proof (rule ok_less [OF ok less_trans [OF less_upd_keep less_head]])
    show "w_gen i v" by (rule i)
    show "w_gen i (upd_ws i (\<lambda>g. g\<lparr>h_local := ls\<rparr>) v)" using i by simp
    show "j < length (h_workers (w_gens (upd_ws i (\<lambda>g. g\<lparr>h_local := ls\<rparr>) v) ! i))" using i j by (simp add: upd_ws_def w_gen_def)
  qed simp
  show ?thesis
  proof (cases "h_workers ?g ! j")
    case WW_idle
    then show ?thesis using ok free take1 by (auto simp: ws_handleLoop_def Let_def split: ws_loop_event.split list.split)
  next
    case (WW_holding l)
    then show ?thesis using ok free pick_ok [OF ok i j WW_holding] by (auto simp: ws_handleLoop_def Let_def split: ws_loop_event.split list.split)
  next
    case (WW_locking l c)
    then show ?thesis using ok lock_ok [OF ok i j WW_locking] by (simp add: ws_handleLoop_def Let_def)
  next
    case (WW_sending l c)
    then show ?thesis using ok head [of l] write_ok [OF ok i j WW_sending] by (auto simp: ws_handleLoop_def Let_def split: ws_loop_event.split prod.split)
  next
    case (WW_exited lo)
    then show ?thesis using ok by (simp add: ws_handleLoop_def Let_def)
  qed
qed

definition ws_ok :: "wsServer \<Rightarrow> bool" where
  "ws_ok v \<longleftrightarrow> ws_conns_ok v \<and> w_gens v \<noteq> []"

lemma request_ok: "ws_conns_ok v \<Longrightarrow> w_gen i v \<Longrightarrow> ws_conns_ok (fst (ws_request mac cfg i c r upgraded v))"
  by (auto simp: ws_request_def tunnel_ok split: option.split intro: ok_less [OF _ less_same])

lemma step_conns: "ws_conns_ok v \<Longrightarrow> w_gens v \<noteq> [] \<Longrightarrow> ws_conns_ok (fst (ws_step mac cfg e v))"
proof (cases e)
  case (WE_local i c remote now)
  assume "ws_conns_ok v"
  then show ?thesis using WE_local ok_less [OF _ less_admit, of v i cfg] by (auto simp: ws_acceptLocalConn_def split: prod.split) (metis fst_conv)
qed (auto simp: request_ok pinger_ok loop_ok ws_transfer_end_def
    intro: ok_less [OF _ less_set] ok_less [OF _ less_handler] ok_less [OF _ less_restart(1)] ok_less [OF _ less_restart(2)]
      ok_less [OF _ less_same] ok_less [OF _ less_admit])

lemma head_gens [simp]: "length (w_gens (fst (ws_loop_head i j l now v))) = length (w_gens v)"
  by (simp add: ws_loop_head_def)

lemma ws_step_gens: "length (w_gens v) \<le> length (w_gens (fst (ws_step mac cfg e v)))"
proof (cases e)
  case (WE_loop i j ev now)
  have "length (w_gens (fst (ws_handleLoop i j ev now v))) = length (w_gens v)"
    by (simp add: ws_handleLoop_def Let_def split: ws_worker.split ws_loop_event.split list.split prod.split)
      (metis fst_conv head_gens upd_ws_fields(4))
  then show ?thesis using WE_loop by simp
next
  case (WE_ping k ev)
  then show ?thesis by (simp add: keepAlive_def Let_def split: pinger.split ping_event.split)
qed (auto simp: ws_request_def ws_set_def ws_channelHandler_def ws_sends_def ws_quit_def ws_Restart_begin_def ws_Restart_finish_def ws_acceptLocalConn_def
    ws_admit_def ws_transfer_end_def Let_def split: option.split handler_event.split prod.split)

lemma step_ok: "ws_ok v \<Longrightarrow> ws_ok (fst (ws_step mac cfg e v))"
  using step_conns ws_step_gens [of v mac cfg e] by (auto simp: ws_ok_def)

lemma ws_run_ok: "ws_ok v \<Longrightarrow> ws_ok (ws_run mac cfg evs v)"
  unfolding ws_run_def by (induction evs arbitrary: v) (simp_all add: step_ok)

lemma new_ws_ok: "ws_ok (NewWSServer n bw)"
  by (simp add: ws_ok_def ws_conns_ok_def NewWSServer_def ws_n_def new_ws_gen_def gen_n_def)

definition writes_alone :: "wsServer \<Rightarrow> ws_worker \<Rightarrow> bool" where
  "writes_alone v w = (case w of WW_sending _ k \<Rightarrow> k < length (w_conns v) \<and> tc_locked (w_conns v ! k) \<and> tc_pinger (w_conns v ! k) \<noteq> P_writing | _ \<Rightarrow> True)"

definition ping_open :: "wsServer \<Rightarrow> nat \<Rightarrow> bool" where
  "ping_open v k \<longleftrightarrow> k < length (w_conns v) \<and> \<not> tc_closed (w_conns v ! k)"

text \<open>C38. Pings stay out of a user's stream. However handle loops, pingers, requests and restarts interleave: whatever has been
  written to a pool connection is pings, and then the target, after which the server sends nothing of its own; a
  loop that writes the target has the connection to itself; and a connection that waits to be taken has its channel
  still open, so that closing it never panics.\<close>

theorem ws_pings_before_target:
  "let v = ws_run mac cfg evs (NewWSServer n bw) in
     list_all (\<lambda>t. pings_first (tc_sent t)) (w_conns v) \<and>
     list_all (\<lambda>g. list_all (writes_alone v) (h_workers g) \<and> list_all (ping_open v) (h_tunnel g)) (w_gens v)"
proof -
  let ?v = "ws_run mac cfg evs (NewWSServer n bw)"
  have ok: "ws_conns_ok ?v" using ws_run_ok [OF new_ws_ok] by (simp add: ws_ok_def)
  have "list_all (\<lambda>t. pings_first (tc_sent t)) (w_conns ?v)" using ok_at [OF ok] by (simp add: list_all_length conn_ok_def)
  moreover have "writes_alone ?v (h_workers (w_gens ?v ! i) ! j)" if "w_gen i ?v" "j < length (h_workers (w_gens ?v ! i))" for i j
  proof (cases "h_workers (w_gens ?v ! i) ! j")
    case (WW_sending l k)
    then have s: "0 < ws_n Sending k ?v" using at_worker [OF that, of Sending k] by simp
    from ok_at [OF ok conn_owned [OF ok this]] s conn_owned [OF ok s] WW_sending show ?thesis by (auto simp: writes_alone_def conn_ok_def)
  qed (simp_all add: writes_alone_def)
  moreover have "ping_open ?v k" if "w_gen i ?v" "k \<in> set (h_tunnel (w_gens ?v ! i))" for i k
  proof -
    have "0 < count_list (h_tunnel (w_gens ?v ! i)) k" using that(2) count_list_0_iff gr0I by metis
    then have s: "0 < ws_n Pooled k ?v" using gen_n_le [OF that(1), of Pooled k] by (simp add: gen_n_def)
    from ok_at [OF ok conn_owned [OF ok this]] s conn_owned [OF ok s] show ?thesis by (auto simp: ping_open_def conn_ok_def)
  qed
  ultimately show ?thesis by (simp add: Let_def list_all_length w_gen_def)
qed

section \<open>Slots\<close>

definition ws_worker_users :: "ws_worker \<Rightarrow> nat" where
  "ws_worker_users w = (case w of WW_idle \<Rightarrow> 0 | WW_exited None \<Rightarrow> 0 | _ \<Rightarrow> 1)"

definition ws_gen_users :: "wsGen \<Rightarrow> nat" where
  "ws_gen_users g = length (h_local g) + (\<Sum>w \<leftarrow> h_workers g. ws_worker_users w)"

definition ws_in_service :: "wsServer \<Rightarrow> nat" where
  "ws_in_service v = (\<Sum>g \<leftarrow> w_gens v. ws_gen_users g) + length (w_transfers v)"

definition ws_books :: "nat \<Rightarrow> nat \<Rightarrow> wsServer \<Rightarrow> bool" where
  "ws_books n lost v \<longleftrightarrow> rev_good n (w_limits v) \<and> rev_held (w_limits v) = ws_in_service v + lost \<and> w_gens v \<noteq> []"

text \<open>The steps that close a user for its age.\<close>

fun ws_gives_up :: "ws_event \<Rightarrow> wsServer \<Rightarrow> bool" where
  "ws_gives_up (WE_loop i j ev now) v =
     (w_gen i v \<and> j < length (h_workers (w_gens v ! i)) \<and>
      (case h_workers (w_gens v ! i) ! j of
         WW_idle \<Rightarrow> ev = WL_take \<and> (case h_local (w_gens v ! i) of [] \<Rightarrow> False | l # _ \<Rightarrow> 3000 < now - lc_timeCreated l)
       | WW_sending l _ \<Rightarrow> ev = WL_write False \<and> 3000 < now - lc_timeCreated l
       | _ \<Rightarrow> False))"
| "ws_gives_up _ _ = False"

fun ws_lost :: "(string \<Rightarrow> bytes \<Rightarrow> bytes) \<Rightarrow> wsConfig \<Rightarrow> ws_event list \<Rightarrow> wsServer \<Rightarrow> nat" where
  "ws_lost mac cfg [] v = 0"
| "ws_lost mac cfg (e # es) v = (if ws_gives_up e v then 1 else 0) + ws_lost mac cfg es (fst (ws_step mac cfg e v))"

lemma worker_users_simps [simp]:
  "ws_worker_users WW_idle = 0" "ws_worker_users (WW_holding l) = 1" "ws_worker_users (WW_locking l c) = 1" "ws_worker_users (WW_sending l c) = 1"
  "ws_worker_users (WW_exited None) = 0" "ws_worker_users (WW_exited (Some l)) = 1"
  by (simp_all add: ws_worker_users_def)

lemma in_service_ws:
  "w_gen i v \<Longrightarrow> ws_in_service (upd_ws i f v) + ws_gen_users (w_gens v ! i) = ws_in_service v + ws_gen_users (f (w_gens v ! i))"
  using sum_update [of i "w_gens v" ws_gen_users "f (w_gens v ! i)"] by (simp add: ws_in_service_def upd_ws_def w_gen_def)

lemma users_worker:
  "j < length (h_workers g) \<Longrightarrow> ws_gen_users (ws_worker_set j w g) + ws_worker_users (h_workers g ! j) = ws_gen_users g + ws_worker_users w"
  using sum_update [of j "h_workers g" ws_worker_users w] by (simp add: ws_gen_users_def ws_worker_set_def)

lemma in_service_same: "w_gens w = w_gens v \<Longrightarrow> w_transfers w = w_transfers v \<Longrightarrow> ws_in_service w = ws_in_service v"
  by (simp add: ws_in_service_def)

lemma ws_books_same: "ws_books n lost v \<Longrightarrow> w_gens w = w_gens v \<Longrightarrow> w_transfers w = w_transfers v \<Longrightarrow> w_limits w = w_limits v \<Longrightarrow> ws_books n lost w"
  by (simp add: ws_books_def ws_in_service_def)

lemma ws_books_count: "ws_books n lost v \<Longrightarrow> w_limits w = w_limits v \<Longrightarrow> ws_in_service w + lost' = ws_in_service v + lost \<Longrightarrow> w_gens w \<noteq> [] \<Longrightarrow> ws_books n lost' w"
  by (simp add: ws_books_def)

lemma upd_some [simp]: "w_gens (upd_ws i f v) = [] \<longleftrightarrow> w_gens v = []"
  by (simp add: upd_ws_def)

lemma ws_books_upd: "ws_books n lost v \<Longrightarrow> w_gen i v \<Longrightarrow> ws_gen_users (f (w_gens v ! i)) = ws_gen_users (w_gens v ! i) \<Longrightarrow> ws_books n lost (upd_ws i f v)"
  using in_service_ws [of i v f] by (auto simp: ws_books_def)

lemma ws_books_upd_keep:
  "ws_books n lost v \<Longrightarrow> w_gen i v \<Longrightarrow> (\<And>g. h_local (f g) = h_local g \<and> h_workers (f g) = h_workers g) \<Longrightarrow> ws_books n lost (upd_ws i f v)"
  by (rule ws_books_upd) (simp_all add: ws_gen_users_def)

lemma books_sends: "ws_books n lost v \<Longrightarrow> w_gen i v \<Longrightarrow> ws_books n lost (fst (ws_sends i b wrote v))"
  by (auto simp: ws_sends_def ws_quit_def split: option.split intro!: ws_books_upd_keep)

lemma books_handler: "ws_books n lost v \<Longrightarrow> w_gen i v \<Longrightarrow> ws_books n lost (fst (ws_channelHandler i ev wrote v))"
  by (auto simp: ws_channelHandler_def ws_quit_def Let_def split: handler_event.split intro!: ws_books_upd_keep books_sends)

lemma books_set: "ws_books n lost v \<Longrightarrow> w_gen i v \<Longrightarrow> ws_books n lost (fst (ws_set cfg i c (v\<lparr>w_claims := cs\<rparr>)))"
  unfolding ws_set_def fst_conv
  by (rule ws_books_upd) (auto simp: w_gen_def ws_gen_users_def sum_list_replicate intro: ws_books_same)

lemma books_request: "ws_books n lost v \<Longrightarrow> w_gen i v \<Longrightarrow> ws_books n lost (fst (ws_request mac cfg i c r upgraded v))"
proof -
  assume a: "ws_books n lost v" "w_gen i v"
  have "ws_books n lost (upd_ws i (\<lambda>g. g\<lparr>h_tunnel := h_tunnel g @ [k]\<rparr>) (v\<lparr>w_conns := cs\<rparr>))" for k cs
    by (rule ws_books_upd_keep [OF ws_books_same [OF a(1)]]) (use a(2) in \<open>simp_all add: w_gen_def\<close>)
  then show ?thesis using a(1) by (auto simp: ws_request_def split: option.split intro: ws_books_same)
qed

lemma ws_books_restart:
  assumes "ws_books n lost v"
  shows "ws_books n lost (fst (ws_Restart_begin v))" "ws_books n lost (ws_Restart_finish p v)"
proof -
  have "ws_books n lost (upd_ws (length (w_gens v) - 1) (\<lambda>g. g\<lparr>h_done := True\<rparr>) (v\<lparr>w_restarting := True\<rparr>))"
    by (rule ws_books_upd_keep [OF ws_books_same [OF assms]]) (use assms in \<open>simp_all add: ws_books_def w_gen_def\<close>)
  then show "ws_books n lost (fst (ws_Restart_begin v))" using assms by (simp add: ws_Restart_begin_def)
  show "ws_books n lost (ws_Restart_finish p v)" using assms
    by (simp add: ws_Restart_finish_def ws_books_def ws_in_service_def new_ws_gen_def ws_gen_users_def)
qed

lemma books_admit:
  assumes "ws_books n lost v" "w_gen i v"
  shows "ws_books n lost (fst (ws_admit cfg i l v))"
proof -
  have good: "rev_good n (w_limits v)" using assms(1) by (simp add: ws_books_def)
  obtain lim got where a: "lim_acquire (w_limits v) = (lim, got)" by (cases "lim_acquire (w_limits v)")
  have l: "rev_good n lim" "rev_held lim = ws_in_service v + lost + (if got then 1 else 0)"
    using rlim.take_good [OF good] rlim.take_held [OF good] a assms(1) by (auto simp: ws_books_def)
  let ?u = "v\<lparr>w_limits := lim\<rparr>"
  let ?f = "\<lambda>g. g\<lparr>h_local := h_local g @ [l], h_req := (if h_req g < wc_channelSize cfg then h_req g + 1 else h_req g)\<rparr>"
  have "ws_in_service (upd_ws i ?f ?u) = ws_in_service v + 1"
    using in_service_ws [of i ?u ?f] assms(2) in_service_same [of ?u v] by (simp add: w_gen_def ws_gen_users_def)
  then have "got \<Longrightarrow> ws_books n lost (upd_ws i ?f ?u)" using l assms(1) by (simp add: ws_books_def)
  moreover have "got \<Longrightarrow> ws_books n lost (?u\<lparr>w_limits := lim_release lim\<rparr>)"
    using rlim.give_good [OF l(1)] l(2) assms(1) by (simp add: ws_books_def ws_in_service_def)
  moreover have "\<not> got \<Longrightarrow> ws_books n lost ?u" using l assms(1) by (simp add: ws_books_def ws_in_service_def)
  ultimately show ?thesis using a by (auto simp: ws_admit_def Let_def)
qed

text \<open>The head of the loop, with one user more in its hands than it had.\<close>

lemma books_head:
  assumes "w_gen i v" "j < length (h_workers (w_gens v ! i))" "rev_good n (w_limits v)" "w_gens v \<noteq> []"
    "rev_held (w_limits v) + ws_worker_users (h_workers (w_gens v ! i) ! j) = ws_in_service v + 1 + lost"
  shows "ws_books n (lost + (if 3000 < now - lc_timeCreated l then 1 else 0)) (fst (ws_loop_head i j l now v))"
proof -
  have "ws_in_service (upd_ws i (ws_worker_set j w) v) + ws_worker_users (h_workers (w_gens v ! i) ! j) = ws_in_service v + ws_worker_users w" for w
    using in_service_ws [OF assms(1), of "ws_worker_set j w"] users_worker [OF assms(2), of w] by simp
  from this [of WW_idle] this [of "WW_holding l"] show ?thesis using assms(3-5) by (auto simp: ws_loop_head_def ws_books_def)
qed

lemma books_loop:
  assumes b: "ws_books n lost v" and i: "w_gen i v" and j: "j < length (h_workers (w_gens v ! i))"
  shows "ws_books n (lost + (if ws_gives_up (WE_loop i j ev now) v then 1 else 0)) (fst (ws_handleLoop i j ev now v))"
proof -
  let ?g = "w_gens v ! i"
  have move: "ws_in_service (upd_ws i (ws_worker_set j w) u) + ws_worker_users (h_workers ?g ! j) = ws_in_service u + ws_worker_users w"
    if "w_gens u = w_gens v" for u w
    using in_service_ws [of i u "ws_worker_set j w"] users_worker [OF j, of w] that i by (simp add: w_gen_def)
  show ?thesis
  proof (cases "h_workers ?g ! j")
    case WW_idle
    show ?thesis
    proof (cases "h_local ?g")
      case (Cons l ls)
      let ?u = "upd_ws i (\<lambda>g. g\<lparr>h_local := ls\<rparr>) v"
      have "Suc (ws_in_service ?u) = ws_in_service v" using in_service_ws [OF i, of "\<lambda>g. g\<lparr>h_local := ls\<rparr>"] Cons by (simp add: ws_gen_users_def)
      moreover have "w_gens ?u ! i = ?g\<lparr>h_local := ls\<rparr>" using i by (simp add: upd_ws_def w_gen_def)
      ultimately have "ws_books n (lost + (if 3000 < now - lc_timeCreated l then 1 else 0)) (fst (ws_loop_head i j l now ?u))"
        using b i j WW_idle by (intro books_head) (simp_all add: ws_books_def)
      then show ?thesis using b i j WW_idle Cons move [of v "WW_exited None"]
        by (auto simp: ws_handleLoop_def Let_def ws_books_def split: ws_loop_event.split)
    qed (use b i j WW_idle move [of v "WW_exited None"] in \<open>auto simp: ws_handleLoop_def Let_def ws_books_def split: ws_loop_event.split\<close>)
  next
    case (WW_holding l)
    have "ws_books n lost (upd_ws i (\<lambda>g. ws_worker_set j (WW_locking l c) (g\<lparr>h_tunnel := cs\<rparr>)) (upd_conn c f v))" for c cs f
    proof (rule ws_books_upd [OF ws_books_same [OF b]])
      show "ws_gen_users (ws_worker_set j (WW_locking l c) ((w_gens (upd_conn c f v) ! i)\<lparr>h_tunnel := cs\<rparr>)) = ws_gen_users (w_gens (upd_conn c f v) ! i)"
        using users_worker [of j "?g\<lparr>h_tunnel := cs\<rparr>" "WW_locking l c"] j WW_holding by (simp add: ws_gen_users_def)
    qed (use i in simp_all)
    then show ?thesis using b i j WW_holding move [of v "WW_exited (Some l)"]
      by (auto simp: ws_handleLoop_def Let_def ws_books_def split: ws_loop_event.split list.split)
  next
    case (WW_locking l c)
    let ?u = "upd_conn c (\<lambda>t. t\<lparr>tc_locked := True\<rparr>) v"
    have "ws_in_service (upd_ws i (ws_worker_set j (WW_sending l c)) ?u) = ws_in_service v"
      using move [of ?u "WW_sending l c"] WW_locking in_service_same [of ?u v] by simp
    then show ?thesis using b i j WW_locking by (auto simp: ws_handleLoop_def Let_def ws_books_def)
  next
    case (WW_sending l c)
    let ?u = "upd_conn c (\<lambda>t. t\<lparr>tc_sent := tc_sent t @ [M_target (lc_remoteAddr l)]\<rparr>) (v\<lparr>w_transfers := w_transfers v @ [(l, c)]\<rparr>)"
    have "ws_in_service (upd_ws i (ws_worker_set j WW_idle) ?u) = ws_in_service v"
      using move [of ?u WW_idle] WW_sending by (simp add: ws_in_service_def)
    then have w: "ws_books n lost (upd_ws i (ws_worker_set j WW_idle) ?u)" using b by (simp add: ws_books_def)
    have h: "ws_books n (lost + (if 3000 < now - lc_timeCreated l then 1 else 0)) (fst (ws_loop_head i j l now v))"
      using b i j WW_sending by (intro books_head) (simp_all add: ws_books_def)
    show ?thesis
    proof (cases ev)
      case (WL_write wrote)
      then show ?thesis using WW_sending w h i j by (cases wrote) (auto simp: ws_handleLoop_def Let_def split: prod.split)
    qed (use b WW_sending in \<open>auto simp: ws_handleLoop_def Let_def\<close>)
  next
    case (WW_exited lo)
    then show ?thesis using b by (simp add: ws_handleLoop_def Let_def)
  qed
qed

lemma ws_books_transfer_end:
  assumes "ws_books n lost v" "k < length (w_transfers v)"
  shows "ws_books n lost (ws_transfer_end k v)"
proof -
  have "rev_good n (w_limits v)" "rev_held (w_limits v) = ws_in_service v + lost" "0 < ws_in_service v"
    using assms by (auto simp: ws_books_def ws_in_service_def)
  then have "rev_good n (lim_release (w_limits v)) \<and> rev_held (lim_release (w_limits v)) = ws_in_service v + lost - 1"
    using rlim.give_good by (metis add_gr_0)
  then show ?thesis using assms by (auto simp: ws_transfer_end_def ws_books_def ws_in_service_def)
qed

lemma books_ws_step:
  assumes "ws_books n lost v"
  shows "ws_books n (lost + (if ws_gives_up e v then 1 else 0)) (fst (ws_step mac cfg e v))"
proof (cases e)
  case (WE_loop i j ev now)
  then show ?thesis using books_loop [OF assms, of i j ev now] assms by (cases "w_gen i v \<and> j < length (h_workers (w_gens v ! i))") auto
next
  case (WE_ping k ev)
  have "ws_books n lost (upd_conn k f v)" for f by (rule ws_books_same [OF assms]) simp_all
  then show ?thesis using WE_ping assms by (simp add: keepAlive_def Let_def split: pinger.split ping_event.split)
next
  case (WE_local i c remote now)
  then show ?thesis using books_admit [OF assms, of i] assms by (auto simp: ws_acceptLocalConn_def split: prod.split) (metis fst_conv)
qed (use assms in \<open>auto simp: books_request books_set books_handler ws_books_restart books_admit ws_books_transfer_end\<close>)

lemma books_ws_run: "ws_books n lost v \<Longrightarrow> ws_books n (lost + ws_lost mac cfg evs v) (ws_run mac cfg evs v)"
proof (induction evs arbitrary: v lost)
  case (Cons e es)
  then show ?case using Cons.IH [OF books_ws_step [OF Cons.prems]] by (simp add: ws_run_def add.assoc)
qed (simp add: ws_run_def)

text \<open>The cap of the server over websockets leaks as that of the multiplexed ones does: the slots taken are the users it
  holds, together with all it ever closed for having waited too long.\<close>

theorem ws_slots_leak:
  assumes "0 < n" "n < 2 ^ 31 - 1"
  shows "let v = ws_run mac cfg evs (NewWSServer (int n) bw) in
    rev_held (w_limits v) = ws_in_service v + ws_lost mac cfg evs (NewWSServer (int n) bw) \<and>
    (snd (lim_acquire (w_limits v)) \<longleftrightarrow> ws_in_service v + ws_lost mac cfg evs (NewWSServer (int n) bw) < n)"
proof -
  have "rev_good n (newLimiter (int n) bw) \<and> rev_held (newLimiter (int n) bw) = 0"
    using new_server_ok(1) [OF assms, of bw] by (simp add: slots_ok_def NewTCPServer_def in_service_def gen_held_def new_gen_def)
  then have "ws_books n 0 (NewWSServer (int n) bw)" by (simp add: ws_books_def NewWSServer_def ws_in_service_def new_ws_gen_def ws_gen_users_def)
  from books_ws_run [OF this, of mac cfg evs] show ?thesis using rlim.take_iff by (auto simp: ws_books_def Let_def)
qed

end
