(* ===== verification/ReverseQuic.thy ===== *)
theory ReverseQuic
  imports ReverseSafety
begin

text \<open>
  The reverse server over QUIC (\<open>internal/server/transport/quic.go\<close>). One connection of the client carries a control stream and
  a stream for every user; the streams that are ready wait in a channel. Goroutines, generations and arguments are as in
  \<open>ReverseServer\<close>. A handle loop waits for a user, or holds one and waits for a stream; the channel over which the
  control stream is handed to \<open>start\<close> has no buffer, so that it is handed over only while \<open>start\<close> waits for it.
\<close>

section \<open>State\<close>

definition quicIdleTimeout :: "int \<Rightarrow> int" where
  "quicIdleTimeout keepAlive = (if keepAlive \<le> 0 then 30 * 1000000000 else 3 * keepAlive)"

record quicConfig =
  qc_token :: string
  qc_channelSize :: nat
  qc_numCPU :: nat

datatype quic_loop = QL_idle | QL_pairing local_conn | QL_over

record quicGen =
  u_done :: bool
  u_tunnel :: "nat list"
  u_local :: "local_conn list"
  u_req :: nat
  u_phase :: phase
  u_handler :: bool
  u_loops :: "quic_loop list"

record quicServer =
  y_control :: "nat option"
  y_limits :: "rev_limiter option"
  y_gens :: "quicGen list"
  y_reading :: "(nat \<times> nat) list"
  y_transfers :: "(nat \<times> local_conn) list"
  y_restarting :: bool

datatype quic_act = QA_close nat | QA_send nat string byte | QA_byte nat byte | QA_target nat string | QA_restart

definition new_quic_gen :: quicGen where
  "new_quic_gen = \<lparr>u_done = False, u_tunnel = [], u_local = [], u_req = 0, u_phase = Waiting, u_handler = False, u_loops = []\<rparr>"

definition NewQuicServer :: "int \<Rightarrow> int \<Rightarrow> quicServer" where
  "NewQuicServer maxConnections bandwidthMbps =
     \<lparr>y_control = None, y_limits = newLimiter maxConnections bandwidthMbps, y_gens = [new_quic_gen], y_reading = [], y_transfers = [], y_restarting = False\<rparr>"

definition upd_quic :: "nat \<Rightarrow> (quicGen \<Rightarrow> quicGen) \<Rightarrow> quicServer \<Rightarrow> quicServer" where
  "upd_quic i f v = v\<lparr>y_gens := (y_gens v)[i := f (y_gens v ! i)]\<rparr>"

definition quic_ask :: "quicConfig \<Rightarrow> quicGen \<Rightarrow> quicGen" where
  "quic_ask cfg g = g\<lparr>u_req := (if u_req g < qc_channelSize cfg then u_req g + 1 else u_req g)\<rparr>"

section \<open>Streams\<close>

text \<open>What \<open>start\<close> does once it has the control stream.\<close>

definition quic_start_rest :: "quicConfig \<Rightarrow> nat \<Rightarrow> nat \<Rightarrow> quicServer \<Rightarrow> quicServer" where
  "quic_start_rest cfg i c v =
     upd_quic i (\<lambda>g. g\<lparr>u_phase := Serving, u_handler := True, u_loops := replicate (min 4 (qc_numCPU cfg)) QL_idle\<rparr>) (v\<lparr>y_control := Some c\<rparr>)"

definition acceptStream ::
    "quicConfig \<Rightarrow> nat \<Rightarrow> nat \<Rightarrow> (string \<times> byte) option \<Rightarrow> bool \<Rightarrow> bool \<Rightarrow> quicServer \<Rightarrow> quicServer \<times> quic_act list" where
  "acceptStream cfg i c ann wrote receiving v =
     (case ann of
        None \<Rightarrow> (v, [QA_close c])
      | Some (token, sig) \<Rightarrow>
          if token \<noteq> qc_token cfg then (v, [QA_send c RefusedBadToken SG_Refused, QA_close c])
          else if sig = SG_Chan then
            (if \<not> wrote then (v, [QA_close c])
             else if y_control v \<noteq> None then (v, [QA_send c (qc_token cfg) SG_Chan, QA_close c, QA_restart])
             else if receiving \<and> u_phase (y_gens v ! i) = Waiting then (quic_start_rest cfg i c v, [QA_send c (qc_token cfg) SG_Chan])
             else (v, [QA_send c (qc_token cfg) SG_Chan, QA_close c]))
          else if sig = SG_TCP then
            (if y_control v = None then (v, [QA_close c])
             else if length (u_tunnel (y_gens v ! i)) < qc_channelSize cfg then (upd_quic i (\<lambda>g. g\<lparr>u_tunnel := u_tunnel g @ [c]\<rparr>) v, [])
             else (v, [QA_close c]))
          else (v, [QA_close c]))"

section \<open>A generation\<close>

definition quic_sends :: "nat \<Rightarrow> byte \<Rightarrow> bool \<Rightarrow> quicServer \<Rightarrow> quicServer \<times> quic_act list" where
  "quic_sends i b wrote v =
     (case y_control v of
        Some c \<Rightarrow> if wrote then (v, [QA_byte c b]) else (upd_quic i (\<lambda>g. g\<lparr>u_handler := False\<rparr>) v, [QA_restart])
      | None \<Rightarrow> (upd_quic i (\<lambda>g. g\<lparr>u_handler := False\<rparr>) v, [QA_restart]))"

definition quic_channelHandler :: "nat \<Rightarrow> handler_event \<Rightarrow> bool \<Rightarrow> quicServer \<Rightarrow> quicServer \<times> quic_act list" where
  "quic_channelHandler i ev wrote v =
     (let g = y_gens v ! i; quit = upd_quic i (\<lambda>g. g\<lparr>u_handler := False\<rparr>) in
      if \<not> u_handler g then (v, [])
      else case ev of
        H_start \<Rightarrow> (v, [])
      | H_done \<Rightarrow>
          if u_done g then (quit v, case y_control v of Some c \<Rightarrow> if wrote then [QA_byte c SG_Closed] else [] | None \<Rightarrow> []) else (v, [])
      | H_request \<Rightarrow> if u_req g = 0 then (v, []) else quic_sends i SG_Chan wrote (upd_quic i (\<lambda>g. g\<lparr>u_req := u_req g - 1\<rparr>) v)
      | H_tick \<Rightarrow> quic_sends i SG_HB wrote v
      | H_message b \<Rightarrow> if b = SG_Closed then (quit v, [QA_restart]) else (v, []))"

definition quic_Restart_begin :: "quicServer \<Rightarrow> quicServer \<times> quic_act list" where
  "quic_Restart_begin v =
     (if y_restarting v then (v, [])
      else (upd_quic (length (y_gens v) - 1) (\<lambda>g. g\<lparr>u_done := True\<rparr>) (v\<lparr>y_restarting := True\<rparr>),
            case y_control v of None \<Rightarrow> [] | Some c \<Rightarrow> [QA_close c]))"

definition quic_Restart_finish :: "bool \<Rightarrow> quicServer \<Rightarrow> quicServer" where
  "quic_Restart_finish parent_done v =
     (if \<not> y_restarting v then v
      else if parent_done then v\<lparr>y_restarting := False\<rparr>
      else v\<lparr>y_gens := y_gens v @ [new_quic_gen], y_control := None, y_restarting := False\<rparr>)"

section \<open>Users\<close>

definition quic_acceptLocalConn :: "quicConfig \<Rightarrow> nat \<Rightarrow> nat \<Rightarrow> string \<Rightarrow> int \<Rightarrow> quicServer \<Rightarrow> quicServer \<times> quic_act list" where
  "quic_acceptLocalConn cfg i c remoteAddr now v =
     (let (lim, got) = lim_acquire (y_limits v); v = v\<lparr>y_limits := lim\<rparr> in
      if \<not> got then (v, [QA_close c])
      else if length (u_local (y_gens v ! i)) < qc_channelSize cfg
      then (upd_quic i (\<lambda>g. g\<lparr>u_local := u_local g @ [\<lparr>lc_conn = c, lc_remoteAddr = remoteAddr, lc_timeCreated = now\<rparr>]\<rparr>) v, [])
      else (v\<lparr>y_limits := lim_release (y_limits v)\<rparr>, [QA_close c]))"

definition quic_udpAdmitter :: "quicConfig \<Rightarrow> nat \<Rightarrow> nat \<Rightarrow> string \<Rightarrow> int \<Rightarrow> quicServer \<Rightarrow> quicServer" where
  "quic_udpAdmitter cfg i c target now v =
     (let (lim, got) = lim_acquire (y_limits v); v = v\<lparr>y_limits := lim\<rparr> in
      if \<not> got then v
      else if length (u_local (y_gens v ! i)) < qc_channelSize cfg
      then upd_quic i (\<lambda>g. quic_ask cfg (g\<lparr>u_local := u_local g @ [\<lparr>lc_conn = c, lc_remoteAddr = target, lc_timeCreated = now\<rparr>]\<rparr>)) v
      else v\<lparr>y_limits := lim_release (y_limits v)\<rparr>)"

text \<open>A handle loop takes a user, or ends with its generation.\<close>

definition quic_handleLoop :: "quicConfig \<Rightarrow> nat \<Rightarrow> nat \<Rightarrow> int \<Rightarrow> quicServer \<Rightarrow> quicServer \<times> quic_act list" where
  "quic_handleLoop cfg i k now v =
     (let g = y_gens v ! i in
      case u_local g of
        [] \<Rightarrow> (v, [])
      | l # ls \<Rightarrow>
          if 3000 < now - lc_timeCreated l
          then ((upd_quic i (\<lambda>g. g\<lparr>u_local := ls\<rparr>) v)\<lparr>y_limits := lim_release (y_limits v)\<rparr>, [QA_close (lc_conn l)])
          else (upd_quic i (\<lambda>g. quic_ask cfg (g\<lparr>u_local := ls, u_loops := (u_loops g)[k := QL_pairing l]\<rparr>)) v, []))"

definition quic_loop_exit :: "nat \<Rightarrow> nat \<Rightarrow> quicServer \<Rightarrow> quicServer" where
  "quic_loop_exit i k v = upd_quic i (\<lambda>g. g\<lparr>u_loops := (u_loops g)[k := QL_over]\<rparr>) v"

text \<open>\<open>pairLocalConn\<close>: the end of the generation, or a stream that takes the target or not.\<close>

definition pairLocalConn :: "quicConfig \<Rightarrow> nat \<Rightarrow> nat \<Rightarrow> local_conn \<Rightarrow> bool \<Rightarrow> bool \<Rightarrow> quicServer \<Rightarrow> quicServer \<times> quic_act list" where
  "pairLocalConn cfg i k l cancelled wrote v =
     (let g = y_gens v ! i; idle = (\<lambda>g. g\<lparr>u_loops := (u_loops g)[k := QL_idle]\<rparr>) in
      if cancelled then
        (if u_done g then ((upd_quic i idle v)\<lparr>y_limits := lim_release (y_limits v)\<rparr>, [QA_close (lc_conn l)]) else (v, []))
      else case u_tunnel g of
        [] \<Rightarrow> (v, [])
      | c # cs \<Rightarrow>
          if \<not> wrote then (upd_quic i (\<lambda>g. quic_ask cfg (g\<lparr>u_tunnel := cs\<rparr>)) v, [QA_close c])
          else ((upd_quic i (\<lambda>g. idle (g\<lparr>u_tunnel := cs\<rparr>)) v)\<lparr>y_transfers := y_transfers v @ [(c, l)]\<rparr>, [QA_target c (lc_remoteAddr l)]))"

definition quic_transfer_end :: "nat \<Rightarrow> quicServer \<Rightarrow> quicServer" where
  "quic_transfer_end k v = v\<lparr>y_transfers := remove_at k (y_transfers v), y_limits := lim_release (y_limits v)\<rparr>"

section \<open>Runs\<close>

datatype quic_event =
    Q_open nat nat
  | Q_announced nat "(string \<times> byte) option" bool bool
  | Q_cancelled nat
  | Q_handler nat handler_event bool
  | Q_restart_begin
  | Q_restart_finish bool
  | Q_local nat nat string int
  | Q_flow nat nat string int
  | Q_loop nat nat int
  | Q_loop_exit nat nat
  | Q_pair nat nat bool bool
  | Q_transfer_end nat

definition q_gen :: "nat \<Rightarrow> quicServer \<Rightarrow> bool" where
  "q_gen i v \<longleftrightarrow> i < length (y_gens v)"

definition q_loop :: "nat \<Rightarrow> nat \<Rightarrow> quicServer \<Rightarrow> quic_loop option" where
  "q_loop i k v = (if q_gen i v \<and> k < length (u_loops (y_gens v ! i)) then Some (u_loops (y_gens v ! i) ! k) else None)"

fun quic_step :: "quicConfig \<Rightarrow> quic_event \<Rightarrow> quicServer \<Rightarrow> quicServer \<times> quic_act list" where
  "quic_step cfg (Q_open i c) v = (if q_gen i v then v\<lparr>y_reading := y_reading v @ [(i, c)]\<rparr> else v, [])"
| "quic_step cfg (Q_announced k ann wrote receiving) v =
     (if k < length (y_reading v) \<and> q_gen (fst (y_reading v ! k)) v
      then acceptStream cfg (fst (y_reading v ! k)) (snd (y_reading v ! k)) ann wrote receiving (v\<lparr>y_reading := remove_at k (y_reading v)\<rparr>)
      else (v, []))"
| "quic_step cfg (Q_cancelled i) v =
     (if q_gen i v \<and> u_done (y_gens v ! i) \<and> u_phase (y_gens v ! i) = Waiting then upd_quic i (\<lambda>g. g\<lparr>u_phase := Over\<rparr>) v else v, [])"
| "quic_step cfg (Q_handler i ev wrote) v = (if q_gen i v then quic_channelHandler i ev wrote v else (v, []))"
| "quic_step cfg Q_restart_begin v = quic_Restart_begin v"
| "quic_step cfg (Q_restart_finish parent_done) v = (quic_Restart_finish parent_done v, [])"
| "quic_step cfg (Q_local i c remote now) v =
     (if q_gen i v \<and> u_phase (y_gens v ! i) = Serving then quic_acceptLocalConn cfg i c remote now v else (v, []))"
| "quic_step cfg (Q_flow i c target now) v =
     (if q_gen i v \<and> u_phase (y_gens v ! i) = Serving then quic_udpAdmitter cfg i c target now v else v, [])"
| "quic_step cfg (Q_loop i k now) v = (if q_loop i k v = Some QL_idle then quic_handleLoop cfg i k now v else (v, []))"
| "quic_step cfg (Q_loop_exit i k) v = (if q_loop i k v = Some QL_idle \<and> u_done (y_gens v ! i) then quic_loop_exit i k v else v, [])"
| "quic_step cfg (Q_pair i k cancelled wrote) v =
     (case q_loop i k v of Some (QL_pairing l) \<Rightarrow> pairLocalConn cfg i k l cancelled wrote v | _ \<Rightarrow> (v, []))"
| "quic_step cfg (Q_transfer_end k) v = (if k < length (y_transfers v) then quic_transfer_end k v else v, [])"

definition quic_run :: "quicConfig \<Rightarrow> quic_event list \<Rightarrow> quicServer \<Rightarrow> quicServer" where
  "quic_run cfg evs v = foldl (\<lambda>v e. fst (quic_step cfg e v)) v evs"

section \<open>Slots\<close>

text \<open>The users of the server: in a channel, with a handle loop that looks for a stream, or on a stream.\<close>

definition loop_users :: "quic_loop \<Rightarrow> nat" where
  "loop_users l = (case l of QL_pairing _ \<Rightarrow> 1 | _ \<Rightarrow> 0)"

definition quic_gen_users :: "quicGen \<Rightarrow> nat" where
  "quic_gen_users g = length (u_local g) + (\<Sum>l \<leftarrow> u_loops g. loop_users l)"

definition quic_in_service :: "quicServer \<Rightarrow> nat" where
  "quic_in_service v = (\<Sum>g \<leftarrow> y_gens v. quic_gen_users g) + length (y_transfers v)"

definition waits_alone :: "quicGen \<Rightarrow> bool" where
  "waits_alone g \<longleftrightarrow> (u_phase g = Waiting \<longrightarrow> u_loops g = [])"

definition quic_slots :: "nat \<Rightarrow> quicServer \<Rightarrow> bool" where
  "quic_slots n v \<longleftrightarrow> rev_good n (y_limits v) \<and> rev_held (y_limits v) = quic_in_service v \<and> list_all waits_alone (y_gens v) \<and> y_gens v \<noteq> []"

lemma upd_quic_fields [simp]:
  "y_limits (upd_quic i f v) = y_limits v" "y_transfers (upd_quic i f v) = y_transfers v" "y_control (upd_quic i f v) = y_control v"
  "length (y_gens (upd_quic i f v)) = length (y_gens v)" "q_gen j (upd_quic i f v) = q_gen j v" "y_reading (upd_quic i f v) = y_reading v"
  by (simp_all add: upd_quic_def q_gen_def)

lemma in_service_quic:
  "q_gen i v \<Longrightarrow> quic_in_service (upd_quic i f v) + quic_gen_users (y_gens v ! i) = quic_in_service v + quic_gen_users (f (y_gens v ! i))"
  using sum_update [of i "y_gens v" quic_gen_users "f (y_gens v ! i)"] by (simp add: quic_in_service_def upd_quic_def q_gen_def)

lemma loops_update: "k < length ls \<Longrightarrow> (\<Sum>l \<leftarrow> ls[k := x]. loop_users l) + loop_users (ls ! k) = (\<Sum>l \<leftarrow> ls. loop_users l) + loop_users x"
  by (rule sum_update)

lemma in_service_fields [simp]:
  "quic_in_service (v\<lparr>y_limits := a\<rparr>) = quic_in_service v" "quic_in_service (v\<lparr>y_control := c\<rparr>) = quic_in_service v"
  "quic_in_service (v\<lparr>y_reading := r\<rparr>) = quic_in_service v" "quic_in_service (v\<lparr>y_restarting := b\<rparr>) = quic_in_service v"
  by (simp_all add: quic_in_service_def)

lemma qslots_fields:
  assumes "quic_slots n v"
  shows "quic_slots n (v\<lparr>y_control := c\<rparr>)" "quic_slots n (v\<lparr>y_reading := r\<rparr>)" "quic_slots n (v\<lparr>y_restarting := b\<rparr>)"
  using assms by (simp_all add: quic_slots_def)

lemma alone_upd: "list_all waits_alone (y_gens v) \<Longrightarrow> (q_gen i v \<Longrightarrow> waits_alone (y_gens v ! i) \<Longrightarrow> waits_alone (f (y_gens v ! i))) \<Longrightarrow>
   list_all waits_alone (y_gens (upd_quic i f v))"
proof (cases "i < length (y_gens v)")
  case True
  assume "list_all waits_alone (y_gens v)" "q_gen i v \<Longrightarrow> waits_alone (y_gens v ! i) \<Longrightarrow> waits_alone (f (y_gens v ! i))"
  then show ?thesis using True set_update_subset_insert [of "y_gens v" i "f (y_gens v ! i)"] by (auto simp: upd_quic_def q_gen_def list_all_iff)
qed (simp add: upd_quic_def list_update_beyond)

text \<open>A change within a generation that keeps its users; one more user; one user less, with its slot given back.\<close>

lemma qslots_upd:
  assumes "quic_slots n v" "q_gen i v" "quic_gen_users (f (y_gens v ! i)) = quic_gen_users (y_gens v ! i)"
    "waits_alone (y_gens v ! i) \<Longrightarrow> waits_alone (f (y_gens v ! i))"
  shows "quic_slots n (upd_quic i f v)"
proof -
  have "quic_in_service (upd_quic i f v) = quic_in_service v" using in_service_quic [OF assms(2), of f] assms(3) by simp
  moreover have "y_gens (upd_quic i f v) \<noteq> []" using assms(2) by (auto simp: q_gen_def upd_quic_def)
  ultimately show ?thesis using assms(1) alone_upd [of v i f] assms(4) by (simp add: quic_slots_def)
qed

lemma qslots_less:
  assumes "quic_slots n v" "Suc (quic_in_service w) = quic_in_service v" "y_limits w = y_limits v" "list_all waits_alone (y_gens w)" "y_gens w \<noteq> []"
  shows "quic_slots n (w\<lparr>y_limits := lim_release (y_limits v)\<rparr>)"
proof -
  have "rev_good n (y_limits v)" "rev_held (y_limits v) = Suc (quic_in_service w)" using assms(1,2) by (simp_all add: quic_slots_def)
  from rlim.give_good [OF this(1)] this(2) show ?thesis using assms(4,5) by (simp add: quic_slots_def)
qed

lemma qslots_taken:
  assumes "quic_slots n v" "lim_acquire (y_limits v) = (lim, got)"
  shows "\<not> got \<Longrightarrow> quic_slots n (v\<lparr>y_limits := lim\<rparr>)"
    "got \<Longrightarrow> quic_slots n (v\<lparr>y_limits := lim_release lim\<rparr>)"
    "got \<Longrightarrow> q_gen i v \<Longrightarrow> quic_gen_users (f (y_gens v ! i)) = Suc (quic_gen_users (y_gens v ! i)) \<Longrightarrow>
      (waits_alone (y_gens v ! i) \<Longrightarrow> waits_alone (f (y_gens v ! i))) \<Longrightarrow> quic_slots n (upd_quic i f (v\<lparr>y_limits := lim\<rparr>))"
proof -
  have good: "rev_good n (y_limits v)" using assms(1) by (simp add: quic_slots_def)
  have l: "rev_good n lim" "rev_held lim = quic_in_service v + (if got then 1 else 0)"
    using rlim.take_good [OF good] rlim.take_held [OF good] assms by (auto simp: quic_slots_def)
  show "\<not> got \<Longrightarrow> quic_slots n (v\<lparr>y_limits := lim\<rparr>)" using l assms(1) by (simp add: quic_slots_def)
  show "got \<Longrightarrow> quic_slots n (v\<lparr>y_limits := lim_release lim\<rparr>)" using rlim.give_good [OF l(1)] l(2) assms(1) by (simp add: quic_slots_def)
  let ?w = "v\<lparr>y_limits := lim\<rparr>"
  assume got and i: "q_gen i v" and f: "quic_gen_users (f (y_gens v ! i)) = Suc (quic_gen_users (y_gens v ! i))"
    "waits_alone (y_gens v ! i) \<Longrightarrow> waits_alone (f (y_gens v ! i))"
  have "quic_in_service (upd_quic i f ?w) = Suc (quic_in_service v)" using in_service_quic [of i ?w f] i f(1) by (simp add: q_gen_def)
  moreover have "list_all waits_alone (y_gens (upd_quic i f ?w))" using assms(1) alone_upd [of ?w i f] f(2) by (simp add: quic_slots_def q_gen_def)
  moreover have "y_gens (upd_quic i f ?w) \<noteq> []" using i by (auto simp: q_gen_def upd_quic_def)
  ultimately show "quic_slots n (upd_quic i f ?w)" using l \<open>got\<close> by (simp add: quic_slots_def)
qed

lemma waits_alone_keep [simp]:
  "waits_alone (g\<lparr>u_done := a\<rparr>) = waits_alone g" "waits_alone (g\<lparr>u_tunnel := t\<rparr>) = waits_alone g" "waits_alone (g\<lparr>u_local := l\<rparr>) = waits_alone g"
  "waits_alone (g\<lparr>u_req := r\<rparr>) = waits_alone g" "waits_alone (g\<lparr>u_handler := h\<rparr>) = waits_alone g" "waits_alone (quic_ask cfg g) = waits_alone g"
  by (simp_all add: waits_alone_def quic_ask_def)

lemma waits_alone_loops [simp]: "waits_alone g \<Longrightarrow> waits_alone (g\<lparr>u_loops := (u_loops g)[k := x]\<rparr>)"
  by (simp add: waits_alone_def)

lemma gen_users_keep [simp]:
  "quic_gen_users (g\<lparr>u_done := a\<rparr>) = quic_gen_users g" "quic_gen_users (g\<lparr>u_tunnel := t\<rparr>) = quic_gen_users g" "quic_gen_users (g\<lparr>u_phase := p\<rparr>) = quic_gen_users g"
  "quic_gen_users (g\<lparr>u_req := r\<rparr>) = quic_gen_users g" "quic_gen_users (g\<lparr>u_handler := h\<rparr>) = quic_gen_users g" "quic_gen_users (quic_ask cfg g) = quic_gen_users g"
  "quic_gen_users (g\<lparr>u_local := u_local g @ [l]\<rparr>) = Suc (quic_gen_users g)"
  by (simp_all add: quic_gen_users_def quic_ask_def)

lemma gen_users_loop:
  assumes "k < length (u_loops g)" "u_loops g ! k = y"
  shows "quic_gen_users (g\<lparr>u_loops := (u_loops g)[k := x]\<rparr>) + loop_users y = quic_gen_users g + loop_users x"
  using loops_update [OF assms(1), of x] assms(2) by (simp add: quic_gen_users_def)

lemma qslots_upd_fields: "quic_slots n (upd_quic i f v) \<Longrightarrow> quic_slots n (upd_quic i f (v\<lparr>y_control := c\<rparr>))"
  "quic_slots n (upd_quic i f v) \<Longrightarrow> quic_slots n (upd_quic i f (v\<lparr>y_reading := r\<rparr>))"
  "quic_slots n (upd_quic i f v) \<Longrightarrow> quic_slots n (upd_quic i f (v\<lparr>y_restarting := b\<rparr>))"
  by (simp_all add: quic_slots_def quic_in_service_def upd_quic_def)

lemma qslots_start_rest:
  assumes "quic_slots n v" "q_gen i v" "u_phase (y_gens v ! i) = Waiting"
  shows "quic_slots n (quic_start_rest cfg i c v)"
proof -
  have "waits_alone (y_gens v ! i)" using assms by (simp add: quic_slots_def q_gen_def list_all_length)
  then have "u_loops (y_gens v ! i) = []" using assms(3) by (simp add: waits_alone_def)
  then show ?thesis unfolding quic_start_rest_def
    by (intro qslots_upd_fields qslots_upd assms) (simp_all add: quic_gen_users_def loop_users_def waits_alone_def sum_list_replicate)
qed

lemma qslots_acceptStream:
  assumes "quic_slots n v" "q_gen i v"
  shows "quic_slots n (fst (acceptStream cfg i c ann wrote receiving v))"
proof -
  have "quic_slots n (upd_quic i (\<lambda>g. g\<lparr>u_tunnel := u_tunnel g @ [c]\<rparr>) v)" using assms by (rule qslots_upd) simp_all
  then show ?thesis using assms by (auto simp: acceptStream_def qslots_start_rest split: option.split)
qed

lemma qslots_sends: "quic_slots n v \<Longrightarrow> q_gen i v \<Longrightarrow> quic_slots n (fst (quic_sends i b wrote v))"
  by (auto simp: quic_sends_def split: option.split intro!: qslots_upd)

lemma qslots_handler: "quic_slots n v \<Longrightarrow> q_gen i v \<Longrightarrow> quic_slots n (fst (quic_channelHandler i ev wrote v))"
  by (auto simp: quic_channelHandler_def Let_def split: handler_event.split intro!: qslots_upd qslots_sends)

lemma qslots_restart:
  assumes "quic_slots n v"
  shows "quic_slots n (fst (quic_Restart_begin v))" "quic_slots n (quic_Restart_finish p v)"
proof -
  have "quic_slots n (upd_quic (length (y_gens v) - 1) (\<lambda>g. g\<lparr>u_done := True\<rparr>) v)"
    using assms by (intro qslots_upd) (simp_all add: quic_slots_def q_gen_def)
  then show "quic_slots n (fst (quic_Restart_begin v))" using assms by (simp add: quic_Restart_begin_def qslots_upd_fields)
  show "quic_slots n (quic_Restart_finish p v)" using assms
    by (simp add: quic_Restart_finish_def quic_slots_def quic_in_service_def new_quic_gen_def quic_gen_users_def waits_alone_def)
qed

lemma qslots_local:
  assumes "quic_slots n v" "q_gen i v"
  shows "quic_slots n (fst (quic_acceptLocalConn cfg i c remote now v))" "quic_slots n (quic_udpAdmitter cfg i c remote now v)"
proof -
  obtain lim got where a: "lim_acquire (y_limits v) = (lim, got)" by (cases "lim_acquire (y_limits v)")
  note taken = qslots_taken [OF assms(1) a]
  show "quic_slots n (fst (quic_acceptLocalConn cfg i c remote now v))" "quic_slots n (quic_udpAdmitter cfg i c remote now v)"
    using a assms(2) by (auto simp: quic_acceptLocalConn_def quic_udpAdmitter_def Let_def intro!: taken)
qed

lemma qslots_loop:
  assumes "quic_slots n v" "q_loop i k v = Some QL_idle"
  shows "quic_slots n (fst (quic_handleLoop cfg i k now v))" "quic_slots n (quic_loop_exit i k v)"
proof -
  let ?g = "y_gens v ! i"
  have i: "q_gen i v" and k: "k < length (u_loops ?g)" "u_loops ?g ! k = QL_idle" using assms(2) by (auto simp: q_loop_def split: if_splits)
  show "quic_slots n (quic_loop_exit i k v)" unfolding quic_loop_exit_def
    using gen_users_loop [OF k, of QL_over] by (intro qslots_upd assms i) (simp_all add: loop_users_def)
  show "quic_slots n (fst (quic_handleLoop cfg i k now v))"
  proof (cases "u_local ?g")
    case (Cons l ls)
    let ?late = "upd_quic i (\<lambda>g. g\<lparr>u_local := ls\<rparr>) v"
    have users: "quic_gen_users ?g = Suc (quic_gen_users (?g\<lparr>u_local := ls\<rparr>))" using Cons by (simp add: quic_gen_users_def)
    have "quic_slots n (?late\<lparr>y_limits := lim_release (y_limits v)\<rparr>)"
    proof (rule qslots_less [OF assms(1)])
      show "Suc (quic_in_service ?late) = quic_in_service v" using in_service_quic [OF i, of "\<lambda>g. g\<lparr>u_local := ls\<rparr>"] users by simp
      show "list_all waits_alone (y_gens ?late)" using assms(1) by (intro alone_upd) (simp_all add: quic_slots_def)
      show "y_gens ?late \<noteq> []" using i by (auto simp: q_gen_def upd_quic_def)
    qed simp
    moreover have "quic_slots n (upd_quic i (\<lambda>g. quic_ask cfg (g\<lparr>u_local := ls, u_loops := (u_loops g)[k := QL_pairing l]\<rparr>)) v)"
      using gen_users_loop [where g = "?g\<lparr>u_local := ls\<rparr>" and k = k and x = "QL_pairing l", OF _ refl] k users
      by (intro qslots_upd assms i) (auto simp: loop_users_def waits_alone_def quic_ask_def)
    ultimately show ?thesis using Cons by (simp add: quic_handleLoop_def Let_def)
  qed (simp add: quic_handleLoop_def assms(1))
qed

lemma qslots_pair:
  assumes "quic_slots n v" "q_loop i k v = Some (QL_pairing l)"
  shows "quic_slots n (fst (pairLocalConn cfg i k l cancelled wrote v))"
proof -
  let ?g = "y_gens v ! i"
  let ?idle = "\<lambda>g. g\<lparr>u_loops := (u_loops g)[k := QL_idle]\<rparr>"
  have i: "q_gen i v" and k: "k < length (u_loops ?g)" "u_loops ?g ! k = QL_pairing l" using assms(2) by (auto simp: q_loop_def split: if_splits)
  have alone: "list_all waits_alone (y_gens v)" using assms(1) by (simp add: quic_slots_def)
  have less: "Suc (quic_in_service (upd_quic i (\<lambda>g. ?idle (g\<lparr>u_tunnel := t g\<rparr>)) v)) = quic_in_service v" for t
    using in_service_quic [OF i, of "\<lambda>g. ?idle (g\<lparr>u_tunnel := t g\<rparr>)"] gen_users_loop [where g = "?g\<lparr>u_tunnel := t ?g\<rparr>" and k = k and x = QL_idle and y = "QL_pairing l"] k
    by (simp add: loop_users_def)
  have keep: "list_all waits_alone (y_gens (upd_quic i (\<lambda>g. ?idle (g\<lparr>u_tunnel := t g\<rparr>)) v))" for t
    using alone by (intro alone_upd) (auto simp: waits_alone_def)
  have some: "y_gens (upd_quic i f v) \<noteq> []" for f using i by (auto simp: q_gen_def upd_quic_def)
  have "quic_slots n ((upd_quic i ?idle v)\<lparr>y_limits := lim_release (y_limits v)\<rparr>)"
    using less [of u_tunnel] keep [of u_tunnel] by (intro qslots_less [OF assms(1)] some) simp_all
  moreover have "quic_slots n ((upd_quic i (\<lambda>g. ?idle (g\<lparr>u_tunnel := cs\<rparr>)) v)\<lparr>y_transfers := y_transfers v @ [p]\<rparr>)" for cs p
    using less [of "\<lambda>_. cs"] keep [of "\<lambda>_. cs"] some assms(1) by (simp add: quic_slots_def quic_in_service_def)
  moreover have "quic_slots n (upd_quic i (\<lambda>g. quic_ask cfg (g\<lparr>u_tunnel := cs\<rparr>)) v)" for cs
    by (intro qslots_upd assms i) simp_all
  ultimately show ?thesis using assms(1) by (simp add: pairLocalConn_def Let_def split: list.split)
qed

lemma qslots_transfer_end:
  assumes "quic_slots n v" "k < length (y_transfers v)"
  shows "quic_slots n (quic_transfer_end k v)"
  using qslots_less [OF assms(1), of "v\<lparr>y_transfers := remove_at k (y_transfers v)\<rparr>"] assms
  by (simp add: quic_transfer_end_def quic_in_service_def quic_slots_def)

lemma qslots_step: "quic_slots n v \<Longrightarrow> quic_slots n (fst (quic_step cfg e v))"
proof (cases e)
  case (Q_announced k ann wrote receiving)
  assume "quic_slots n v"
  then have "quic_slots n (v\<lparr>y_reading := r\<rparr>)" for r by (rule qslots_fields)
  then show ?thesis using Q_announced \<open>quic_slots n v\<close> by (simp add: qslots_acceptStream q_gen_def)
next
  case (Q_cancelled i)
  assume s: "quic_slots n v"
  then have "q_gen i v \<Longrightarrow> u_phase (y_gens v ! i) = Waiting \<Longrightarrow> quic_slots n (upd_quic i (\<lambda>g. g\<lparr>u_phase := Over\<rparr>) v)"
    by (rule qslots_upd) (simp_all add: waits_alone_def)
  then show ?thesis using Q_cancelled s by simp
next
  case (Q_pair i k cancelled wrote)
  assume "quic_slots n v"
  then show ?thesis using Q_pair by (auto simp: qslots_pair split: option.split quic_loop.split)
qed (simp_all add: qslots_fields qslots_handler qslots_restart qslots_local qslots_loop qslots_transfer_end)

lemma qslots_run: "quic_slots n v \<Longrightarrow> quic_slots n (quic_run cfg evs v)"
  unfolding quic_run_def by (induction evs arbitrary: v) (simp_all add: qslots_step)

lemma new_quic_slots:
  assumes "0 < n" "n < 2 ^ 31 - 1"
  shows "quic_slots n (NewQuicServer (int n) bw)"
proof -
  have "rev_good n (newLimiter (int n) bw) \<and> rev_held (newLimiter (int n) bw) = 0"
    using new_server_ok(1) [OF assms, of bw] by (simp add: slots_ok_def NewTCPServer_def in_service_def gen_held_def new_gen_def)
  then show ?thesis by (simp add: quic_slots_def NewQuicServer_def quic_in_service_def new_quic_gen_def quic_gen_users_def waits_alone_def)
qed

text \<open>Every slot of the server over QUIC belongs to a user it holds: in whatever order users come, wait too long, find a stream
  or none, and generations end, the slots taken are the users in the channels of all generations, with the handle loops
  and on streams, and somebody is admitted exactly while these are fewer than the cap.\<close>

theorem quic_slots_accounted:
  assumes "0 < n" "n < 2 ^ 31 - 1"
  shows "let v = quic_run cfg evs (NewQuicServer (int n) bw) in
    rev_held (y_limits v) = quic_in_service v \<and> quic_in_service v \<le> n \<and> (snd (lim_acquire (y_limits v)) \<longleftrightarrow> quic_in_service v < n)"
proof -
  let ?v = "quic_run cfg evs (NewQuicServer (int n) bw)"
  have s: "quic_slots n ?v" by (intro qslots_run new_quic_slots assms)
  then have good: "rev_good n (y_limits ?v)" by (simp add: quic_slots_def)
  then have "rev_held (y_limits ?v) \<le> n" by (auto simp: rev_good_def rev_held_def)
  then show ?thesis using s rlim.take_iff [OF good] by (simp add: quic_slots_def Let_def)
qed


text \<open>A client claims the control stream, and one user of five arrives.\<close>

definition quic_config :: quicConfig where
  "quic_config = \<lparr>qc_token = ''t'', qc_channelSize = 8, qc_numCPU = 1\<rparr>"

definition quic_events :: "quic_event list" where
  "quic_events = [Q_open 0 7, Q_announced 0 (Some (''t'', SG_Chan)) True True, Q_local 0 3 ''80'' 0]"


section \<open>Users of an ended generation\<close>

text \<open>A generation has ended when its context is done, \<open>start\<close> is past its select and all its handle loops have returned.\<close>

definition gen_ended :: "quicGen \<Rightarrow> bool" where
  "gen_ended g \<longleftrightarrow> u_done g \<and> u_phase g \<noteq> Waiting \<and> list_all (\<lambda>l. l = QL_over) (u_loops g)"

definition stays_ended :: "quicGen \<Rightarrow> quicGen \<Rightarrow> bool" where
  "stays_ended g h \<longleftrightarrow> (gen_ended g \<longrightarrow> gen_ended h \<and> prefix (u_local g) (u_local h))"

definition ended_kept :: "nat \<Rightarrow> quicServer \<Rightarrow> quicServer \<Rightarrow> bool" where
  "ended_kept i v w \<longleftrightarrow> (q_gen i v \<longrightarrow> q_gen i w \<and> stays_ended (y_gens v ! i) (y_gens w ! i))"

lemma stays_refl [simp]: "stays_ended g g"
  by (simp add: stays_ended_def)

lemma kept_refl: "ended_kept i v v"
  by (simp add: ended_kept_def)

lemma kept_gens: "y_gens w = y_gens v \<Longrightarrow> ended_kept i v w"
  by (simp add: ended_kept_def q_gen_def)

lemma kept_upd: "y_gens w = y_gens (upd_quic j f v) \<Longrightarrow> (q_gen j v \<Longrightarrow> stays_ended (y_gens v ! j) (f (y_gens v ! j))) \<Longrightarrow> ended_kept i v w"
  by (cases "i = j") (auto simp: ended_kept_def q_gen_def upd_quic_def)

lemma kept_trans: "ended_kept i u v \<Longrightarrow> ended_kept i v w \<Longrightarrow> ended_kept i u w"
  by (auto simp: ended_kept_def stays_ended_def intro: prefix_order.trans)

lemma stays_simps [simp]:
  "stays_ended g (g\<lparr>u_done := True\<rparr>)" "stays_ended g (g\<lparr>u_tunnel := t\<rparr>)" "stays_ended g (g\<lparr>u_req := r\<rparr>)" "stays_ended g (g\<lparr>u_handler := h\<rparr>)"
  "stays_ended g (quic_ask cfg h') = stays_ended g h'" "stays_ended g (g\<lparr>u_local := u_local g @ [l]\<rparr>)"
  by (simp_all add: stays_ended_def gen_ended_def quic_ask_def)

lemma stays_busy: "k < length (u_loops g) \<Longrightarrow> u_loops g ! k \<noteq> QL_over \<Longrightarrow> stays_ended g h"
  by (auto simp: stays_ended_def gen_ended_def list_all_length)

lemma stays_waiting: "u_phase g = Waiting \<Longrightarrow> stays_ended g h"
  by (simp add: stays_ended_def gen_ended_def)

lemma kept_start_rest: "u_phase (y_gens v ! j) = Waiting \<Longrightarrow> ended_kept i v (quic_start_rest cfg j c v)"
  by (rule kept_upd [where j = j and f = "\<lambda>g. g\<lparr>u_phase := Serving, u_handler := True, u_loops := replicate (min 4 (qc_numCPU cfg)) QL_idle\<rparr>"])
    (simp_all add: quic_start_rest_def upd_quic_def stays_waiting)

lemma kept_upd_same: "(\<And>g. stays_ended g (f g)) \<Longrightarrow> ended_kept i v (upd_quic j f v)"
  by (rule kept_upd [OF refl])

lemma kept_limits: "ended_kept i v (w\<lparr>y_limits := a\<rparr>) = ended_kept i v w" "ended_kept i (v\<lparr>y_limits := a\<rparr>) w = ended_kept i v w"
  "ended_kept i (v\<lparr>y_reading := r\<rparr>) w = ended_kept i v w" "ended_kept i v (w\<lparr>y_reading := r\<rparr>) = ended_kept i v w"
  by (simp_all add: ended_kept_def q_gen_def)

lemma kept_acceptStream: "ended_kept i v (fst (acceptStream cfg j c ann wrote receiving v))"
  by (auto simp: acceptStream_def kept_refl kept_start_rest split: option.split intro!: kept_upd_same)

lemma kept_handler: "ended_kept i v (fst (quic_channelHandler j ev wrote v))"
proof -
  have "ended_kept i u (fst (quic_sends j b wrote u))" for u b
    by (auto simp: quic_sends_def kept_refl split: option.split intro!: kept_upd_same)
  moreover have "ended_kept i v (upd_quic j (\<lambda>g. g\<lparr>u_req := u_req g - 1\<rparr>) v)" by (rule kept_upd_same) simp
  ultimately show ?thesis
    by (auto simp: quic_channelHandler_def kept_refl Let_def split: handler_event.split intro!: kept_upd_same intro: kept_trans)
qed

lemma kept_restart: "ended_kept i v (fst (quic_Restart_begin v))" "ended_kept i v (quic_Restart_finish p v)"
proof -
  show "ended_kept i v (fst (quic_Restart_begin v))"
    by (cases "y_restarting v") (auto simp: quic_Restart_begin_def kept_refl upd_quic_def
        intro!: kept_upd [where j = "length (y_gens v) - 1" and f = "\<lambda>g. g\<lparr>u_done := True\<rparr>"])
  show "ended_kept i v (quic_Restart_finish p v)"
    by (auto simp: quic_Restart_finish_def ended_kept_def q_gen_def nth_append)
qed

lemma kept_local: "ended_kept i v (fst (quic_acceptLocalConn cfg j c remote now v))" "ended_kept i v (quic_udpAdmitter cfg j c remote now v)"
proof -
  have "ended_kept i v (upd_quic j f (v\<lparr>y_limits := a\<rparr>))" if "\<And>g. stays_ended g (f g)" for f a
    using kept_upd_same [OF that, of i "v\<lparr>y_limits := a\<rparr>" j] by (simp add: kept_limits)
  then show "ended_kept i v (fst (quic_acceptLocalConn cfg j c remote now v))" "ended_kept i v (quic_udpAdmitter cfg j c remote now v)"
    by (auto simp: quic_acceptLocalConn_def quic_udpAdmitter_def Let_def kept_limits kept_refl split: prod.split)
qed

lemma kept_busy:
  assumes "q_loop j k v = Some l" "l \<noteq> QL_over"
  shows "ended_kept i v (upd_quic j f v)"
  using assms by (intro kept_upd [OF refl]) (auto simp: q_loop_def split: if_splits intro!: stays_busy)

lemma kept_loop:
  assumes "q_loop j k v = Some QL_idle"
  shows "ended_kept i v (fst (quic_handleLoop cfg j k now v))" "ended_kept i v (quic_loop_exit j k v)"
  using kept_busy [OF assms] by (auto simp: quic_handleLoop_def quic_loop_exit_def Let_def kept_limits kept_refl split: list.split)

lemma kept_pair:
  assumes "q_loop j k v = Some (QL_pairing l)"
  shows "ended_kept i v (fst (pairLocalConn cfg j k l cancelled wrote v))"
proof -
  have "ended_kept i v ((upd_quic j f v)\<lparr>y_transfers := t\<rparr>)" for f t
    using kept_busy [OF assms, of i f] by (simp add: ended_kept_def q_gen_def)
  then show ?thesis using kept_busy [OF assms] by (simp add: pairLocalConn_def Let_def kept_limits kept_refl split: list.split)
qed

lemma kept_step: "ended_kept i v (fst (quic_step cfg e v))"
proof (cases e)
  case (Q_announced k ann wrote receiving)
  have "ended_kept i v (fst (acceptStream cfg j c ann wrote receiving (v\<lparr>y_reading := r\<rparr>)))" for j c r
    using kept_acceptStream [of i "v\<lparr>y_reading := r\<rparr>" cfg j c ann wrote receiving] by (simp add: kept_limits)
  then show ?thesis using Q_announced by (simp add: kept_refl)
next
  case (Q_cancelled j)
  then show ?thesis by (auto simp: kept_refl stays_waiting intro!: kept_upd [OF refl])
next
  case (Q_pair j k cancelled wrote)
  then show ?thesis by (auto simp: kept_refl kept_pair split: option.split quic_loop.split)
next
  case (Q_transfer_end k)
  then show ?thesis by (simp add: kept_refl kept_gens quic_transfer_end_def)
qed (simp_all add: kept_refl kept_limits kept_handler kept_restart kept_local kept_loop)

text \<open>As over TCP, what a restart leaves behind is lost: users in the channel of a generation that has ended stay there in
  every later run, and with \<open>quic_slots_accounted\<close> so do their slots.\<close>

theorem quic_strands_users:
  assumes "q_gen i v" "gen_ended (y_gens v ! i)"
  shows "prefix (u_local (y_gens v ! i)) (u_local (y_gens (quic_run cfg evs v) ! i))"
proof -
  have "ended_kept i v (quic_run cfg evs v)" unfolding quic_run_def
    by (induction evs arbitrary: v) (auto simp: kept_refl intro: kept_trans [OF kept_step])
  then show ?thesis using assms by (simp add: ended_kept_def stays_ended_def)
qed

end
