(* ===== verification/Spec2Isabelle.thy ===== *)
theory Spec2Isabelle
  imports TunnelSafety Forward Limits Spoof NoiseConn IdPools Framing DirectEdge BackendPool Endpoints ReverseTunnel UdpFlow ReverseUdp ReverseMux SniCarrier Socks
    Relay History TtlCache WsServer ReverseQuic
begin

text \<open>
  \<^bold>\<open>A verification library for ParsTanel's tunnel engine.\<close> The program connects two hosts through a hostile network. Its
  newest engine is a layer-3 tunnel (\<open>internal/tunnel/l3\<close>): packets read from a TUN device are framed, sealed under
  session keys, perhaps protected by forward error correction, and sent as datagrams over a carrier (plain UDP,
  several UDP paths, forged-source packets, hand-made TCP frames, ICMP echoes); the far end undoes this and injects
  the packets. A ticker renews keys, retires sessions and keeps the peer alive; probes measure the path. Around the
  engine stand the port forwarder, the caps on connections and bandwidth, the firewall rules that clamp segment sizes,
  the direct tunnel, and the older reverse transports with their pools of connections and backends.

  \<^bold>\<open>Layout.\<close> Every theory opens with the source files it translates. From the bottom up:

  \<^item> \<open>Prelude\<close>, \<open>GoStrings\<close>, \<open>GoNet\<close>: bytes, slices and big-endian words; the functions of Go's \<open>strings\<close>, \<open>strconv\<close>
    and \<open>net\<close> that the sources call. The locale \<open>frame_codec\<close> is the contract of a header in front of a payload; it is
    interpreted for the wire header, the FEC shards and the echo payloads.
  \<^item> \<open>Replay\<close> (\<open>replay.go\<close>): the bitmap window with its \<open>uint64\<close> counters, refined to the set of committed counters behind
    the locale \<open>replay_filter\<close>; when its loop ends, exactly.
  \<^item> \<open>Wire\<close>, \<open>Encap\<close> (\<open>wire.go\<close>, \<open>encap.go\<close>): the 13-byte header and the optional GRE framing, which is the
    locale \<open>encapsulation\<close>.
  \<^item> \<open>Session\<close> (\<open>session.go\<close>): handshake, sealing, opening; nonces are used once, nothing is delivered twice, forgeries
    leave no trace, bounded reordering loses nothing.
  \<^item> \<open>Fec\<close> (\<open>fec.go\<close>), \<open>Mtu\<close> (\<open>mtuprobe.go\<close>), \<open>MssClamp\<close> (\<open>mssclamp\<close>), \<open>Portmap\<close> (\<open>portmap.go\<close>), \<open>L3Config\<close> (\<open>config.go\<close>),
    \<open>Limits\<close> (\<open>limits.go\<close>, twice), \<open>Forward\<close> (\<open>forward.go\<close>), \<open>Multipath\<close> (\<open>multipath.go\<close>, \<open>carrier.go\<close>): the parts around it.
  \<^item> \<open>Tunnel\<close> (\<open>tunnel.go\<close>): every handler of the engine over a heap of sessions, and the step relation that
    interleaves the pumps, the ticker and the probes; \<open>TunnelSafety\<close>: its invariants by rule induction, what an attacker
    on the path cannot do, that rekeying loses nothing in flight.
  \<^item> \<open>PckFrame\<close>, \<open>Spoof\<close>, \<open>IdPools\<close>, \<open>Framing\<close>, \<open>NoiseConn\<close> (\<open>internal/utils/network\<close>): TCP frames built by hand, forged
    sources with their disguises and fragments, the allocators of identifiers and ports (locale \<open>id_pool\<close>), small codecs,
    and the padded Noise record layer.
  \<^item> \<open>DirectAuth\<close> and \<open>DirectEdge\<close> (\<open>internal/tunnel/direct\<close>): the mutual proof of the token, stream requests and refused targets;
    the configuration, the edge with its sessions, users and flows, and the origin; which session a user gets, and
    that what is open never exceeds the cap.
  \<^item> \<open>BackendPool\<close> (\<open>internal/client/transport/backendpool.go\<close>) and \<open>Endpoints\<close> (\<open>endpoints.go\<close>, \<open>healthscore.go\<close>): choosing where
    to dial, with health checks as interleaved passes, and steering with hysteresis as a refinement of its contract.
  \<^item> \<open>Signals\<close> (\<open>binary.go\<close>, \<open>signals.go\<close>), \<open>ReverseServer\<close> and \<open>ReverseSafety\<close> (\<open>internal/server/transport/tcp.go\<close>), \<open>ReverseClient\<close>
    (\<open>internal/client/transport/tcp.go\<close>, \<open>handshake.go\<close>, \<open>poolload.go\<close>), \<open>ReversePorts\<close>, \<open>UdpFlow\<close> (\<open>udpforward.go\<close>, on both
    sides): the reverse tunnel over TCP. The server is a state machine over generations of a run: who is let in, that
    slots stand for users, what a restart loses. The client: exactly when it falls back to the older handshake, the
    bounds of its pool. \<open>ReverseTunnel\<close> connects the two: the handshake decides, and users are served.
  \<^item> \<open>ReverseUdp\<close> (\<open>udp.go\<close> on both sides): the reverse tunnel over UDP, users and pool connections as queues in tables; no
    datagram of a user is filed where nobody reads.
  \<^item> \<open>ReverseMux\<close> (\<open>tcpmux.go\<close>): the reverse server over multiplexed connections; what its two counters and its cap
    really count, and that both ends settle on one version.
  \<^item> \<open>MuxKinds\<close> (\<open>kcp.go\<close>, \<open>wsmux.go\<close>, \<open>wssbind.go\<close>): the two servers that share the code of \<open>ReverseMux\<close>, behind the locale
    \<open>mux_kind\<close>; who is let in, and what their slots count. \<open>ReverseQuic\<close> (\<open>quic.go\<close>): the server over QUIC, whose slots are its users,
    those a restart leaves behind among them. \<open>WsServer\<close> (\<open>ws.go\<close>): the server over plain websockets, whose pings
    never enter the stream of a user.
  \<^item> \<open>SniCarrier\<close> (\<open>internal/snispoof\<close>, \<open>carrier_sni.go\<close>, \<open>segoverflow.go\<close>): the TLS hello in front of a flow, which always has
    its size and names its domain, and which no datagram of the tunnel is taken for. \<open>Socks\<close> (\<open>internal/socks\<close>): the proxy
    serves nobody without credentials, client and server meet, and the relay answers its one client by name.
  \<^item> \<open>Relay\<close> (\<open>internal/utils/handlers\<close>): the copying of a forwarded connection, in user space, in the kernel or through a
    websocket, with the wait for both directions and the header that names the client.
  \<^item> \<open>Metrics\<close> (\<open>internal/metrics\<close>), \<open>Watchdog\<close> (\<open>watchdog.go\<close>, \<open>health.go\<close> of \<open>internal/manage\<close>), \<open>History\<close> (\<open>alerthist\<close>,
    \<open>tunhist\<close>) and \<open>TtlCache\<close> (\<open>ttlcache.go\<close>): what a tunnel reports of itself, when it is restarted (a refinement of a
    contract over one tunnel's history), what is kept of the past (against the readings grouped by hour), and the panel's
    cache with its callers interleaved.
  \<^item> This theory: two engines and the wire between them. A tunnel comes up and carries packets both ways; what the
    composition of the engine with two of its carriers does wrong.

  \<^bold>\<open>How the code is read.\<close> A struct is a record, an enumeration a datatype, a \<open>uint64\<close> a \<open>64 word\<close>, a \<open>[]byte\<close> a list of
  bytes; an error or a panic is a value of a sum or option type. Objects that are shared live in a heap and are named
  by their index. A critical section is one step; goroutines are interleavings of steps. The clock, random draws, the
  order of a map walk, what the network delivers and which writes succeed are arguments, so that a theorem holds for
  all of them. Libraries that are not part of the repository are parameters with named hypotheses: the AEAD
  (\<open>cipher_ok\<close>), Noise (\<open>noise_lib_ok\<close>, \<open>records_ok\<close>), Reed-Solomon (\<open>rs_ok\<close>), \<open>iptables\<close> (\<open>iptables_ok\<close>), HMAC (\<open>mac_ok\<close>, which
  asks only that the inputs compared in one run do not collide). Each has an instance in the witness of a theorem
  that uses it.

  \<^bold>\<open>Loops.\<close> Loops over data are recursive on the data. The clearing loop of \<open>commit\<close> is a \<open>partial_function\<close>, because
  there is a counter on which it does not end; the search for the path's MTU ends by a measure on the interval, the
  dial loops count the members left, the fragment loop the bytes left. No theorem rests on fuel.

  \<^bold>\<open>Not modelled.\<close> Sockets, raw sockets, XDP and the TUN device; the goroutine plumbing of \<open>Run\<close> and \<open>Close\<close>; the accept
  loops of the reverse transports; the clients over KCP, QUIC and websockets,
  which repeat what is modelled for TCP around third-party libraries; the menus, the web panel and
  the service files of \<open>internal/manage\<close>, \<open>menu\<close>, \<open>tui\<close> and \<open>web\<close>; TOML and JSON. They are I/O
  around libraries, and what logic they share with the parts above is modelled there.

  \<^bold>\<open>Order of work.\<close> The engine and its carriers came first, then the transports' shared logic and the reverse servers, then
  what watches over them. Next in line are the clients of the other transports and the HTTP proxy.
\<close>

section \<open>Two tunnels and the wire between them\<close>

text \<open>One packet from the TUN device of a tunnel that has a session and a peer.\<close>

lemma pump_one_packet:
  assumes "sendSession t = Some p" "t_peer t = Some a" "gre_Wrap (t_encap t) [] pkt = Inr f" "pkt \<noteq> []"
    "s_sendCounter (t_heap t ! p) < rejectAfterMessages" "\<And>b x. e_write E b x"
    "h = \<lparr>h_kind = typeData, h_session = s_id (t_heap t ! p), h_counter = s_sendCounter (t_heap t ! p)\<rparr>"
  shows "pumpFromTUN E False [pkt] t =
    (add_out (length pkt) (t\<lparr>t_heap := (t_heap t)[p := (t_heap t ! p)\<lparr>s_sendCounter := s_sendCounter (t_heap t ! p) + 1\<rparr>]\<rparr>),
     [ToCarrier (header_bytes h @ e_enc E (s_send (t_heap t ! p)) (s_sendCounter (t_heap t ! p)) (header_bytes h) f) (Some a)], False)"
  using assms by (simp add: pumpFromTUN_def pump_packet_def seal_at_def sealKind_def Let_def)

text \<open>The other end of it, holding the matching key in a session that has seen nothing yet.\<close>

lemma receive_first_packet:
  assumes "cipher_ok (e_enc E) (e_dec E)" "\<And>x. e_tun E x" "sessionFor t sid = (Some p, b)" "p < length (t_heap t)"
    "s_replay (t_heap t ! p) = zero_window" "s_recv (t_heap t ! p) = k" "gre_Wrap (t_encap t) [] pkt = Inr f"
    "h = \<lparr>h_kind = typeData, h_session = sid, h_counter = c\<rparr>"
  shows "\<exists>s'. pumpFromCarrier E now seed (header_bytes h @ e_enc E k c (header_bytes h) f) from t =
      Some (add_in (length pkt) (notePeer from (if b then promote now p (t\<lparr>t_heap := (t_heap t)[p := s']\<rparr>)
            else t\<lparr>t_heap := (t_heap t)[p := s']\<rparr>)), [ToTun pkt]) \<and>
      s_id s' = s_id (t_heap t ! p) \<and> s_send s' = s_send (t_heap t ! p) \<and> s_sendCounter s' = s_sendCounter (t_heap t ! p)"
proof -
  have d: "e_dec E (s_recv (t_heap t ! p)) (h_counter h) (header_bytes h) (e_enc E k c (header_bytes h) f) = Some f"
    using assms(1,6,8) by (simp add: cipher_ok_def)
  obtain s' where s': "session_open (e_dec E) (t_heap t ! p) h (e_enc E k c (header_bytes h) f) = Some (s', Inr f)"
    "s_id s' = s_id (t_heap t ! p)" "s_send s' = s_send (t_heap t ! p)" "s_sendCounter s' = s_sendCounter (t_heap t ! p)"
    using fresh_session_open [OF assms(5), of "e_dec E" h, OF d] by blast
  have u: "gre_Unwrap (t_encap t) f = Inr pkt" using assms(7) gre.unwrap_iff by blast
  show ?thesis
    using recv_data [OF _ _ s'(1) u assms(2), where now = now and seed = seed] assms(3,8) s'(2-) by auto
qed

lemma New_fields:
  assumes "tunnel_New cfg = Inr t"
  shows "t_heap t = []" "t_current t = None" "t_pending t = None" "t_previous t = None" "t_replies t = []"
    "t_lastReply t = None" "t_encap t = \<lparr>g_key = c_GREKey (t_cfg t), g_keyed = (c_GREKey (t_cfg t) \<noteq> 0)\<rparr>"
proof -
  obtain c g where c: "config_Validate cfg = Inr c" "NewEncap (c_Encap c) (c_GREKey c) = Inr g"
    using assms by (auto simp: tunnel_New_def split: sum.splits)
  have "c_Encap c = ''gre''" using config_Validate_ok [OF c(1)] by (simp add: config_ok_def)
  then have "g = \<lparr>g_key = c_GREKey c, g_keyed = (c_GREKey c \<noteq> 0)\<rparr>" using c(2) by (simp add: NewEncap_gre)
  then show "t_heap t = []" "t_current t = None" "t_pending t = None" "t_previous t = None" "t_replies t = []"
    "t_lastReply t = None" "t_encap t = \<lparr>g_key = c_GREKey (t_cfg t), g_keyed = (c_GREKey (t_cfg t) \<noteq> 0)\<rparr>"
    using assms c by (auto simp: tunnel_New_def)
qed

lemma negotiate_begin_dial:
  assumes "negotiate_begin E (Some a) seed draw t = (t1, Inr (att, dst))" "t_current t = None"
  shows "t1 = t\<lparr>t_peer := Some a, t_replies := []\<rparr> \<and> dst = Some a \<and>
    beginHandshake (e_noise E) seed draw (c_Token (t_cfg t)) 0 (encapID (t_encap t)) = Inr att"
  using assms by (auto simp: negotiate_begin_def resolvePeer_def setPeer_def drainReplies_def split: sum.splits)

lemma respond_fresh:
  "r_session (respond N seed now token sid msg encap) = Some s \<Longrightarrow> s_id s = sid \<and> s_replay s = zero_window \<and> s_sendCounter s = 0"
  by (auto simp: respond_def newSession_def Let_def split: option.splits if_splits sum.splits)

lemma complete_fresh:
  "ih_complete N now att reply = Inr s \<Longrightarrow> s_id s = ih_id att \<and> s_replay s = zero_window \<and> s_sendCounter s = 0"
  by (auto simp: ih_complete_def newSession_def Let_def split: option.splits if_splits)

lemma wrap_nonempty: "gre_Wrap g [] pkt = Inr f \<Longrightarrow> pkt \<noteq> []"
  by (auto simp: gre_Wrap_def ipVersion_def)

lemma zero_below_limit: "(0 :: u64) < rejectAfterMessages"
  by (simp add: rejectAfterMessages_def)

text \<open>The state of both ends when the handshake is over: matching fresh sessions, pending at the listener
  and current at the dialler.\<close>

definition paired :: "'k tunnel \<Rightarrow> 'k tunnel \<Rightarrow> addr \<Rightarrow> addr \<Rightarrow> bool" where
  "paired a b addrA addrB \<longleftrightarrow> (\<exists>si sr. t_heap a = [si] \<and> t_current a = Some 0 \<and> t_peer a = Some addrB \<and>
     t_heap b = [sr] \<and> t_current b = None \<and> t_pending b = Some 0 \<and> t_peer b = Some addrA \<and> t_encap a = t_encap b \<and>
     s_id si = s_id sr \<and> s_send si = s_recv sr \<and> s_recv si = s_send sr \<and>
     s_replay si = zero_window \<and> s_replay sr = zero_window \<and> s_sendCounter si = 0 \<and> s_sendCounter sr = 0)"

lemma paired_carries:
  assumes ok: "cipher_ok (e_enc E) (e_dec E)" and io: "\<And>b x. e_write E b x" "\<And>x. e_tun E x"
    and p: "paired a b addrA addrB" and w: "gre_Wrap (t_encap a) [] pkt1 = Inr f1" "gre_Wrap (t_encap a) [] pkt2 = Inr f2"
  shows "\<exists>a' sealed b' b'' sealed2 a''.
    pumpFromTUN E False [pkt1] a = (a', [ToCarrier sealed (Some addrB)], False) \<and>
    pumpFromCarrier E n4 sB sealed (Some addrA) b = Some (b', [ToTun pkt1]) \<and> t_current b' = Some 0 \<and> t_pending b' = None \<and>
    pumpFromTUN E False [pkt2] b' = (b'', [ToCarrier sealed2 (Some addrA)], False) \<and>
    pumpFromCarrier E n5 sA sealed2 (Some addrB) a' = Some (a'', [ToTun pkt2])"
proof -
  obtain si sr where s: "t_heap a = [si]" "t_current a = Some 0" "t_peer a = Some addrB"
    "t_heap b = [sr]" "t_current b = None" "t_pending b = Some 0" "t_peer b = Some addrA" "t_encap a = t_encap b"
    "s_id si = s_id sr" "s_send si = s_recv sr" "s_recv si = s_send sr"
    "s_replay si = zero_window" "s_replay sr = zero_window" "s_sendCounter si = 0" "s_sendCounter sr = 0"
    using p by (auto simp: paired_def)
  define h where "h = (\<lparr>h_kind = typeData, h_session = s_id sr, h_counter = 0\<rparr> :: header)"
  define a' where "a' = add_out (length pkt1) (a\<lparr>t_heap := [si\<lparr>s_sendCounter := 1\<rparr>]\<rparr>)"
  have 1: "pumpFromTUN E False [pkt1] a = (a', [ToCarrier (header_bytes h @ e_enc E (s_recv sr) 0 (header_bytes h) f1) (Some addrB)], False)"
    using pump_one_packet [of a 0 addrB pkt1 f1 E h] s w(1) wrap_nonempty [OF w(1)] zero_below_limit io
    by (simp add: sendSession_def h_def a'_def)
  obtain s' where 2: "pumpFromCarrier E n4 sB (header_bytes h @ e_enc E (s_recv sr) 0 (header_bytes h) f1) (Some addrA) b =
      Some (add_in (length pkt1) (notePeer (Some addrA) (promote n4 0 (b\<lparr>t_heap := [s']\<rparr>))), [ToTun pkt1])"
    and s': "s_id s' = s_id sr" "s_send s' = s_send sr" "s_sendCounter s' = 0"
    using receive_first_packet [of E b "s_id sr" 0 True "s_recv sr" pkt1 f1 h 0 n4 sB "Some addrA"] ok io s w(1)
    by (auto simp: sessionFor_def slot_has_def h_def)
  define b' where "b' = add_in (length pkt1) (notePeer (Some addrA) (promote n4 0 (b\<lparr>t_heap := [s']\<rparr>)))"
  have b': "t_heap b' = [s']" "t_current b' = Some 0" "t_pending b' = None" "t_peer b' = Some addrA" "t_encap b' = t_encap a"
    using s by (auto simp: b'_def notePeer_def promote_def)
  obtain b'' where 3: "pumpFromTUN E False [pkt2] b' =
      (b'', [ToCarrier (header_bytes h @ e_enc E (s_recv si) 0 (header_bytes h) f2) (Some addrA)], False)"
    using pump_one_packet [of b' 0 addrA pkt2 f2 E h] b' s' s w(2) wrap_nonempty [OF w(2)] zero_below_limit io
    by (simp add: sendSession_def h_def)
  have "\<exists>a''. pumpFromCarrier E n5 sA (header_bytes h @ e_enc E (s_recv si) 0 (header_bytes h) f2) (Some addrB) a' = Some (a'', [ToTun pkt2])"
    using receive_first_packet [of E a' "s_id sr" 0 False "s_recv si" pkt2 f2 h 0 n5 sA "Some addrB"] ok io s w(2)
    by (auto simp: sessionFor_def slot_has_def h_def a'_def)
  then show ?thesis using 1 2 3 b' unfolding b'_def by blast
qed

text \<open>Carriers that report no address.\<close>

lemma peer_stays_unknown:
  assumes "pumpFromCarrier E now seed buf None t = Some (t', out)" "t_peer t = None"
  shows "t_peer t' = None"
proof -
  have a: "t_peer t1 = None" if "authenticate E now h body None t = Some (t1, r)" for h body t1 r
    using that assms(2) by (auto simp: authenticate_def open_at_def notePeer_def split: option.splits prod.splits sum.splits)
  have i: "t_peer t1 = None" if "handleInit E now seed h body None t = (t1, o1)" for h body t1 o1
    using handleInit_result [OF that] assms(2) by auto
  have s: "t_peer t2 = t_peer t1" if "seal_at E t1 p pt k = (t2, r)" for t1 p pt k t2 r
    using seal_at_fields [OF that] by simp
  show ?thesis
    using assms
    by (auto simp: pumpFromCarrier_def handleResp_def handleData_def handleProbeMessage_def answerProbe_def handleProbeAck_def
        dest!: a s i split: sum.splits option.splits prod.splits if_splits list.splits)
qed

lemma peer_stays_unknown_all:
  "recv_all E t ds = Some (t', out) \<Longrightarrow> list_all (\<lambda>(now, seed, buf, from). from = None) ds \<Longrightarrow> t_peer t = None \<Longrightarrow> t_peer t' = None"
proof (induction ds arbitrary: t out)
  case (Cons d ds)
  obtain now seed buf where d: "d = (now, seed, buf, None)" using Cons.prems(2) by (cases d) auto
  then show ?case using Cons peer_stays_unknown by (fastforce split: option.splits)
qed simp

section \<open>Properties of the whole\<close>

text \<open>C35. A tunnel comes up and carries packets both ways: between a dialling and a listening tunnel with
  the same token and framing, over a carrier that delivers, the dialler's first message is answered,
  the answer completes the handshake, the first packet out of the dialler's TUN device comes out of the
  listener's exactly as it went in and confirms the listener's session, and a packet the other way
  then comes out of the dialler's.\<close>

theorem tunnel_comes_up_and_carries_packets:
  assumes lib: "noise_agrees (e_noise E)" "cipher_ok (e_enc E) (e_dec E)"
    "n_new (e_noise E) seedB (c_Token (t_cfg b0)) False \<noteq> None"
    and io: "\<And>b x. e_write E b x" "\<And>x. e_tun E x"
    and A: "tunnel_New cfgA = Inr a0" "c_Mode (t_cfg a0) = ModeDial"
    and B: "tunnel_New cfgB = Inr b0" "c_Mode (t_cfg b0) = ModeListen"
    and same: "c_Token (t_cfg a0) = c_Token (t_cfg b0)" "c_GREKey (t_cfg a0) = c_GREKey (t_cfg b0)"
    and start: "negotiate_begin E (Some addrB) seedA draw a0 = (a1, Inr (att, dst))"
    and pkts: "gre_Wrap (t_encap a0) [] pkt1 = Inr f1" "gre_Wrap (t_encap a0) [] pkt2 = Inr f2"
  shows "\<exists>b1 reply a2 body a3 a4 sealed b2 b3 sealed2 a5.
    pumpFromCarrier E n1 seedB (ih_datagram att) (Some addrA) b0 = Some (b1, [ToCarrier reply (Some addrA)]) \<and>
    pumpFromCarrier E n2 sA reply (Some addrB) a1 = Some (a2, []) \<and> t_replies a2 = [(ih_id att, body)] \<and>
    negotiate_complete E n3 att body (a2\<lparr>t_replies := []\<rparr>) = (a3, None) \<and>
    pumpFromTUN E False [pkt1] a3 = (a4, [ToCarrier sealed (Some addrB)], False) \<and>
    pumpFromCarrier E n4 sB sealed (Some addrA) b1 = Some (b2, [ToTun pkt1]) \<and>
    t_current b2 = Some 0 \<and> t_pending b2 = None \<and>
    pumpFromTUN E False [pkt2] b2 = (b3, [ToCarrier sealed2 (Some addrA)], False) \<and>
    pumpFromCarrier E n5 sA sealed2 (Some addrB) a4 = Some (a5, [ToTun pkt2])"
proof -
  note Af = New_fields [OF A(1)] and Bf = New_fields [OF B(1)]
  have enc: "t_encap b0 = t_encap a0" using Af(7) Bf(7) same(2) by simp
  have a1: "a1 = a0\<lparr>t_peer := Some addrB, t_replies := []\<rparr>" "dst = Some addrB"
    and hs: "beginHandshake (e_noise E) seedA draw (c_Token (t_cfg b0)) 0 (encapID (t_encap b0)) = Inr att"
    using negotiate_begin_dial [OF start Af(2)] same(1) enc by auto
  obtain sr reply si where r: "respond (e_noise E) seedB n1 (c_Token (t_cfg b0)) (ih_id att) (ih_msg att) (encapID (t_encap b0))
      = \<lparr>r_session = Some sr,
         r_reply = Some (header_bytes \<lparr>h_kind = typeResp, h_session = ih_id att, h_counter = 0\<rparr> @ reply), r_error = None\<rparr>"
    and i: "ih_complete (e_noise E) n3 att reply = Inr si"
    and keys: "s_id si = s_id sr" "s_send si = s_recv sr" "s_recv si = s_send sr"
    using handshake_agreement [OF lib(1) lib(3) hs] by blast
  define b1 where "b1 = publishPeer (b0\<lparr>t_heap := [sr], t_pending := Some 0, t_lastInitID := ih_id att,
      t_lastReply := Some (header_bytes \<lparr>h_kind = typeResp, h_session = ih_id att, h_counter = 0\<rparr> @ reply), t_peer := Some addrA\<rparr>)"
  have 1: "pumpFromCarrier E n1 seedB (ih_datagram att) (Some addrA) b0 =
      Some (b1, [ToCarrier (header_bytes \<lparr>h_kind = typeResp, h_session = ih_id att, h_counter = 0\<rparr> @ reply) (Some addrA)])"
    using recv_init [OF B(2) _ r, of "Some addrA"] Bf by (simp add: b1_def ih_datagram_def)
  have 2: "pumpFromCarrier E n2 sA (header_bytes \<lparr>h_kind = typeResp, h_session = ih_id att, h_counter = 0\<rparr> @ reply) (Some addrB) a1
      = Some (a1\<lparr>t_replies := [(ih_id att, reply)]\<rparr>, [])"
    using recv_resp [of a1 E n2 sA "ih_id att" reply "Some addrB"] A(2) a1(1) by (simp add: repliesCap_def)
  define a3 where "a3 = installDialed n3 0 (a1\<lparr>t_replies := [], t_heap := [si]\<rparr>)"
  have 3: "negotiate_complete E n3 att reply (a1\<lparr>t_replies := [(ih_id att, reply)]\<rparr>\<lparr>t_replies := []\<rparr>) = (a3, None)"
    using i Af(1) a1(1) by (simp add: negotiate_complete_def alloc_def a3_def)
  have "s_id sr = ih_id att \<and> s_replay sr = zero_window \<and> s_sendCounter sr = 0"
    by (rule respond_fresh [of "e_noise E" seedB n1 "c_Token (t_cfg b0)" _ "ih_msg att" "encapID (t_encap b0)"]) (simp add: r)
  then have "paired a3 b1 addrA addrB"
    using keys complete_fresh [OF i] a1(1) Bf enc
    by (auto simp: paired_def a3_def b1_def installDialed_def)
  then show ?thesis
    using paired_carries [OF lib(2) io, of a3 b1 addrA addrB pkt1 f1 pkt2 f2 n4 sB n5 sA] pkts 1 2 3 a1(1)
    by (fastforce simp: a3_def installDialed_def)
qed

theorem tunnel_comes_up_and_carries_packets_witness:
  "\<exists>b1 reply a2 body a3 a4 sealed b2 b3 sealed2 a5.
    pumpFromCarrier demo_env 1 1 (header_bytes \<lparr>h_kind = typeInit, h_session = 77, h_counter = 0\<rparr> @ bytes_of_string (encapID demo_gre))
       (Some demo_addr) demo_listener = Some (b1, [ToCarrier reply (Some demo_addr)]) \<and>
    pumpFromTUN demo_env False [demo_packet] a3 = (a4, [ToCarrier sealed (Some (OtherAddr ''b''))], False) \<and>
    pumpFromCarrier demo_env 4 1 sealed (Some demo_addr) b1 = Some (b2, [ToTun demo_packet]) \<and>
    pumpFromTUN demo_env False [demo_packet] b2 = (b3, [ToCarrier sealed2 (Some demo_addr)], False) \<and>
    pumpFromCarrier demo_env 5 1 sealed2 (Some (OtherAddr ''b'')) a4 = Some (a5, [ToTun demo_packet])"
proof -
  let ?a0 = "demo_listener\<lparr>t_cfg := demo_config ModeDial\<rparr>"
  let ?att = "\<lparr>ih_id = 77, ih_state = (''secret'', True), ih_msg = bytes_of_string (encapID demo_gre), ih_encap = encapID demo_gre\<rparr>"
  have A: "tunnel_New (demo_config ModeDial) = Inr ?a0" using demo_New_mode by blast
  have t: "c_Token (demo_config m) = ''secret''" for m by (simp add: demo_config_def)
  have "newSessionID (\<lambda>_. Some 77) 0 = Inr 77" by code_simp
  then have hs: "beginHandshake demo_noise 1 (\<lambda>_. Some 77) ''secret'' 0 (encapID demo_gre) = Inr ?att"
    by (simp add: beginHandshake_def demo_noise_def)
  obtain a1 where n: "negotiate_begin demo_env (Some (OtherAddr ''b'')) 1 (\<lambda>_. Some 77) ?a0 = (a1, Inr (?att, Some (OtherAddr ''b'')))"
    using hs t by (simp add: negotiate_begin_def resolvePeer_def setPeer_def demo_env_def demo_listener_def drainReplies_def)
  obtain f where f: "gre_Wrap demo_gre [] demo_packet = Inr f"
    by (simp add: gre_Wrap_eq demo_packet_def ipVersion_def)
  have E: "noise_agrees (e_noise demo_env)" "cipher_ok (e_enc demo_env) (e_dec demo_env)" "\<And>b x. e_write demo_env b x"
    "\<And>x. e_tun demo_env x"
    by (simp_all add: demo_env_def demo_noise_agrees demo_cipher_ok)
  have E5: "n_new (e_noise demo_env) 1 (c_Token (t_cfg demo_listener)) False \<noteq> None"
    by (auto simp: demo_env_def demo_noise_def)
  have g: "t_encap ?a0 = demo_gre" by (simp add: demo_listener_def)
  have "ih_datagram ?att = header_bytes \<lparr>h_kind = typeInit, h_session = 77, h_counter = 0\<rparr> @ bytes_of_string (encapID demo_gre)"
    by (simp add: ih_datagram_def)
  then show ?thesis
    using tunnel_comes_up_and_carries_packets [OF E(1,2) E5 E(3,4) A _ demo_New _ _ _ n, of demo_packet f demo_packet f 1 demo_addr 2 1 3 4 1 5]
      f g by (fastforce simp: demo_mode t demo_listener_def demo_config_def)
qed

text \<open>C36. A listening tunnel over several paths never sends a packet: its carrier reports no address for
  what arrives, so the tunnel never learns a peer, and every packet out of its TUN device is
  dropped, whatever handshakes and data it has received.\<close>

theorem multipath_listener_never_sends:
  assumes "openUDPPaths dial listen False base n = Inr (ManyPaths m, peer)" and "tunnel_New cfg = Inr t0"
    and "list_all (\<lambda>(now, seed, buf, from). from = mp_reported m) ds"
    and "recv_all E (setPeer peer t0) ds = Some (t, out)"
    and "pumpFromTUN E ended batch t = (t', sent, stop)"
  shows "t_peer t = None \<and> sent = []"
proof -
  have r: "mp_reported m = None" "peer = None"
    using assms(1) by (auto simp: openUDPPaths_def newMultipathCarrier_def Let_def split: sum.splits if_splits)
  have "t_peer t0 = None" using assms(2) by (auto simp: tunnel_New_def split: sum.splits)
  then have "t_peer (setPeer peer t0) = None" using r by (simp add: setPeer_def)
  then have p: "t_peer t = None" using peer_stays_unknown_all [OF assms(4)] assms(3) r by simp
  then show ?thesis
    using pump_packets_silent [of "sendSession t" "t_peer t" E ended batch t t' sent stop] assms(5) by (simp add: pumpFromTUN_def)
qed

theorem multipath_listener_never_sends_witness:
  "\<exists>m peer. openUDPPaths (\<lambda>a. Inl []) (\<lambda>a. Inr ()) False (join_host_port ''h'' (itoa 9000)) 2 = Inr (ManyPaths m, peer) \<and>
     fst (snd (pumpFromTUN demo_env False [demo_packet] (setPeer peer demo_listener))) = []"
proof -
  have "open_listen (\<lambda>a. Inr ()) (join_host_port ''h'' (itoa 9000)) 0 2 = Inr (replicate 2 \<lparr>pin_peer = None\<rparr>)"
    by (rule open_listen_paths) simp_all
  then obtain m peer where o: "openUDPPaths (\<lambda>a. Inl []) (\<lambda>a. Inr ()) False (join_host_port ''h'' (itoa 9000)) 2 = Inr (ManyPaths m, peer)"
    by (simp add: openUDPPaths_def newMultipathCarrier_def)
  obtain t' sent stop where r: "pumpFromTUN demo_env False [demo_packet] (setPeer peer demo_listener) = (t', sent, stop)"
    by (metis prod_cases3)
  show ?thesis using multipath_listener_never_sends [OF o demo_New, of "[]" demo_env _ _ False "[demo_packet]" t' sent stop] r o by auto
qed

text \<open>C37. A forged datagram can divert a tunnel on the plain UDP carrier: the tunnel discards it and keeps
  its peer, but the carrier below has already taken the sender's address for its own peer, and
  sends the tunnel's next datagram there.\<close>

theorem forged_datagram_diverts_udp_carrier:
  assumes "t_current t = Some c" and "forged E junk"
  shows "\<exists>t' out. pumpFromCarrier E now seed junk (Some attacker) t = Some (t', out) \<and> t_peer t' = t_peer t \<and>
     snd (udp_WriteTo (OnePath (fst (pinned_ReadFrom pin (Inr (junk, Some attacker))))) datagram (t_peer t')) = [(datagram, attacker)]"
proof -
  have "t_current t \<noteq> None" using assms(1) by simp
  then obtain t' out where "pumpFromCarrier E now seed junk (Some attacker) t = Some (t', out)" "untouched t t'"
    using forged_untouched [OF _ assms(2)] by blast
  then show ?thesis using pinned_follows_sender by (simp add: udp_WriteTo_def untouched_def)
qed

theorem forged_datagram_diverts_udp_carrier_witness:
  "\<exists>t' out. pumpFromCarrier demo_env 9 1 [9, 9] (Some (OtherAddr ''x'')) demo_up = Some (t', out) \<and> t_peer t' = t_peer demo_up \<and>
     snd (udp_WriteTo (OnePath (fst (pinned_ReadFrom \<lparr>pin_peer = Some demo_addr\<rparr> (Inr ([9, 9], Some (OtherAddr ''x''))))))
       [1, 2] (t_peer t')) = [([1, 2], OtherAddr ''x'')]"
proof (rule forged_datagram_diverts_udp_carrier)
  show "t_current demo_up = Some 0" using demo_up_run by blast
  show "forged demo_env [9, 9]" by (simp add: forged_def parseHeader_def headerLen_def)
qed

end
